(* ===== verification/Vsync_Prelude.thy ===== *)
theory Vsync_Prelude
  imports Main "HOL-Library.Word" "HOL-Library.Multiset"
begin

unbundle bit_operations_syntax

text \<open>
  Shared material of the development.

  \<^item> Names for the machine types of \<^verbatim>\<open>vsync/vtypes.h\<close>.
  \<^item> The result type of code that can stop: a failed \<^verbatim>\<open>ASSERT\<close>, an access outside an
    object (or another C undefined behaviour), a blocking call whose condition no other thread
    can make true. A function without such an outcome is a plain HOL function.
  \<^item> Interleaving semantics: states reachable by atomic steps of many threads, and the locales
    that turn an inductive invariant into facts about every reachable state.
  \<^item> Histories of executions: the order in which threads join and enter a lock (\<open>lock_hist\<close>), the changes of
    an abstract state each call makes (\<open>op_hist\<close>), with a locale that proves facts about each of them.
  \<^item> Arrays, sums and machine words: the lemmas the component theories share.
\<close>

named_theorems vsync_simps \<open>unfolding rules of the operation definitions\<close>
named_theorems res_simps \<open>the rules that run a sequence of fallible operations\<close>

type_synonym u8 = "8 word"
type_synonym u32 = "32 word"
type_synonym u64 = "64 word"
type_synonym vsize = "64 word"
type_synonym ptr = "64 word"
type_synonym tid = nat

abbreviation (input) NULL :: ptr where "NULL \<equiv> 0"

section \<open>Code that can stop\<close>

datatype fault = AssertFail | BadAccess | Blocked

type_synonym 'a res = "fault + 'a"

primrec rbind :: "'a res \<Rightarrow> ('a \<Rightarrow> 'b res) \<Rightarrow> 'b res" where
  "rbind (Inl e) f = Inl e"
| "rbind (Inr x) f = f x"

definition vassert :: "bool \<Rightarrow> unit res" where
  "vassert b = (if b then Inr () else Inl AssertFail)"

definition aread :: "'a list \<Rightarrow> nat \<Rightarrow> 'a res" where
  "aread xs i = (if i < length xs then Inr (xs ! i) else Inl BadAccess)"

definition awrite :: "'a list \<Rightarrow> nat \<Rightarrow> 'a \<Rightarrow> 'a list res" where
  "awrite xs i v = (if i < length xs then Inr (xs[i := v]) else Inl BadAccess)"

lemma vassert_True [simp]: "vassert True = Inr ()"
  and vassert_False [simp]: "vassert False = Inl AssertFail"
  by (simp_all add: vassert_def)

lemma vassert_Inr_iff [simp]: "vassert b = Inr u \<longleftrightarrow> b"
  by (simp add: vassert_def)

lemma vassert_Inl_iff [simp]: "vassert b = Inl e \<longleftrightarrow> \<not> b \<and> e = AssertFail"
  by (auto simp: vassert_def)

lemma rbind_assert [res_simps]: "b \<Longrightarrow> rbind (vassert b) f = f ()"
  and rbind_assert_fail [res_simps]: "\<not> b \<Longrightarrow> rbind (vassert b) f = Inl AssertFail"
  by (simp_all add: vassert_def)

lemma rbind_Inr_iff: "rbind m f = Inr y \<longleftrightarrow> (\<exists>x. m = Inr x \<and> f x = Inr y)"
  by (cases m) auto

lemma rbind_Inl_iff: "rbind m f = Inl e \<longleftrightarrow> m = Inl e \<or> (\<exists>x. m = Inr x \<and> f x = Inl e)"
  by (cases m) auto

lemma rbind_assoc: "rbind (rbind m f) g = rbind m (\<lambda>x. rbind (f x) g)"
  by (cases m) auto

lemma aread_in [simp, res_simps]: "i < length xs \<Longrightarrow> aread xs i = Inr (xs ! i)"
  and awrite_in [simp, res_simps]: "i < length xs \<Longrightarrow> awrite xs i v = Inr (xs[i := v])"
  by (simp_all add: aread_def awrite_def)

lemma aread_Inr_iff: "aread xs i = Inr v \<longleftrightarrow> i < length xs \<and> v = xs ! i"
  by (auto simp: aread_def)

lemma awrite_Inr_iff: "awrite xs i v = Inr ys \<longleftrightarrow> i < length xs \<and> ys = xs[i := v]"
  by (auto simp: awrite_def)

lemma upt_split: "i \<le> j \<Longrightarrow> j \<le> k \<Longrightarrow> [i..<k] = [i..<j] @ [j..<k]"
  using upt_add_eq_append [of i j "k - j"] by simp

text \<open>Positions less than \<open>n\<close> apart have different slots of a ring of \<open>n\<close>.\<close>

lemma slot_distinct:
  assumes "a < b" and "b < a + (n :: nat)"
  shows "a mod n \<noteq> b mod n"
proof
  assume "a mod n = b mod n"
  then have "n dvd b - a" using assms(1) by (metis less_imp_le mod_eq_dvd_iff_nat)
  moreover have "0 < b - a" "b - a < n" using assms by auto
  ultimately show False using nat_dvd_not_less by blast
qed

section \<open>Interleavings of atomic steps\<close>

text \<open>
  \<open>reach I R\<close> are the states reachable from a state with \<open>I\<close> by steps \<open>R i\<close> of any
  threads \<open>i\<close>. Every step relation of the development makes one atomic access (or one purely
  local move) per step, so these are the sequentially consistent executions.
\<close>

inductive reach :: "('s \<Rightarrow> bool) \<Rightarrow> ('i \<Rightarrow> 's \<Rightarrow> 's \<Rightarrow> bool) \<Rightarrow> 's \<Rightarrow> bool"
  for I :: "'s \<Rightarrow> bool" and R :: "'i \<Rightarrow> 's \<Rightarrow> 's \<Rightarrow> bool" where
  reach_init: "I s \<Longrightarrow> reach I R s"
| reach_step: "reach I R s \<Longrightarrow> R i s t \<Longrightarrow> reach I R t"

inductive steps :: "('i \<Rightarrow> 's \<Rightarrow> 's \<Rightarrow> bool) \<Rightarrow> 's \<Rightarrow> 's \<Rightarrow> bool"
  for R :: "'i \<Rightarrow> 's \<Rightarrow> 's \<Rightarrow> bool" where
  steps_refl: "steps R s s"
| steps_snoc: "steps R s t \<Longrightarrow> R i t u \<Longrightarrow> steps R s u"

lemma steps_single: "R i s t \<Longrightarrow> steps R s t"
  by (blast intro: steps.intros)

lemma steps_trans: "steps R t u \<Longrightarrow> steps R s t \<Longrightarrow> steps R s u"
  by (induction rule: steps.induct) (blast intro: steps.intros)+

lemma steps_cons: "R i s t \<Longrightarrow> steps R t u \<Longrightarrow> steps R s u"
  using steps_trans steps_single by metis

lemma reach_steps: "steps R s t \<Longrightarrow> reach I R s \<Longrightarrow> reach I R t"
  by (induction rule: steps.induct) (blast intro: reach.intros)+

text \<open>Concrete executions: a list of moves, each of them a step.\<close>

fun play :: "('s \<Rightarrow> 'x \<Rightarrow> 's option) \<Rightarrow> 's \<Rightarrow> 'x list \<Rightarrow> 's option" where
  "play f s [] = Some s"
| "play f s (x # xs) = (case f s x of None \<Rightarrow> None | Some t \<Rightarrow> play f t xs)"

text \<open>All states of such an execution have a property.\<close>

fun throughout :: "('s \<Rightarrow> bool) \<Rightarrow> ('s \<Rightarrow> 'x \<Rightarrow> 's option) \<Rightarrow> 's \<Rightarrow> 'x list \<Rightarrow> bool" where
  "throughout P f s [] \<longleftrightarrow> P s"
| "throughout P f s (x # xs) \<longleftrightarrow> P s \<and> (case f s x of None \<Rightarrow> False | Some t \<Rightarrow> throughout P f t xs)"

lemma play_reach:
  assumes "\<And>s x t. f s x = Some t \<Longrightarrow> \<exists>i. R i s t" and "I s" and "play f s xs = Some t"
  shows "reach I R t"
proof -
  have "reach I R s \<Longrightarrow> play f s xs = Some t \<Longrightarrow> reach I R t" for s
  proof (induction xs arbitrary: s)
    case (Cons x xs)
    then obtain u where u: "f s x = Some u" "play f u xs = Some t" by (auto split: option.splits)
    with assms(1) obtain i where "R i s u" by blast
    with Cons.prems(1) have "reach I R u" by (rule reach_step)
    with u(2) Cons.IH show ?case by blast
  qed simp
  with assms(2,3) show ?thesis by (blast intro: reach_init)
qed

locale inductive_invariant =
  fixes init :: "'s \<Rightarrow> bool"
    and step :: "'i \<Rightarrow> 's \<Rightarrow> 's \<Rightarrow> bool"
    and inv :: "'s \<Rightarrow> bool"
  assumes inv_init: "init s \<Longrightarrow> inv s"
    and inv_step: "inv s \<Longrightarrow> step i s t \<Longrightarrow> inv t"
begin

lemma reach_inv: "reach init step s \<Longrightarrow> inv s"
  by (induction rule: reach.induct) (blast intro: inv_init inv_step)+

lemma steps_inv: "steps step s t \<Longrightarrow> inv s \<Longrightarrow> inv t"
  by (induction rule: steps.induct) (blast intro: inv_step)+

end

text \<open>A lock: at most one thread owns it in any state the invariant allows.\<close>

locale exclusive_lock = inductive_invariant +
  fixes owns :: "'s \<Rightarrow> 'i \<Rightarrow> bool"
  assumes inv_owns: "inv s \<Longrightarrow> owns s i \<Longrightarrow> owns s j \<Longrightarrow> i = j"
begin

lemma mutual_exclusion:
  "reach init step s \<Longrightarrow> owns s i \<Longrightarrow> owns s j \<Longrightarrow> i = j"
  using reach_inv inv_owns by blast

end

text \<open>The abstract lock: free, or held by one thread. Only the holder releases it.\<close>

inductive lock_spec :: "'i \<Rightarrow> 'i option \<Rightarrow> 'i option \<Rightarrow> bool" where
  ls_acquire: "lock_spec i None (Some i)"
| ls_release: "lock_spec i (Some i) None"
| ls_skip: "lock_spec i h h"

definition lock_holder :: "('s \<Rightarrow> 'i \<Rightarrow> bool) \<Rightarrow> 's \<Rightarrow> 'i option" where
  "lock_holder owns s = (if \<exists>i. owns s i then Some (THE i. owns s i) else None)"

locale lock_impl = exclusive_lock +
  assumes step_local: "inv s \<Longrightarrow> step i s t \<Longrightarrow> j \<noteq> i \<Longrightarrow> owns t j \<longleftrightarrow> owns s j"
begin

lemma holder_Some: "inv s \<Longrightarrow> owns s i \<Longrightarrow> lock_holder owns s = Some i"
  using inv_owns by (auto simp: lock_holder_def)

lemma holder_None: "(\<And>i. \<not> owns s i) \<Longrightarrow> lock_holder owns s = None"
  by (simp add: lock_holder_def)

lemma inv_refines:
  assumes "inv s" and "step i s t"
  shows "lock_spec i (lock_holder owns s) (lock_holder owns t)"
proof -
  have t: "inv t" using assms by (rule inv_step)
  note loc = step_local [OF assms]
  consider (both) "owns s i" "owns t i" | (acq) "\<not> owns s i" "owns t i"
    | (rel) "owns s i" "\<not> owns t i" | (none) "\<not> owns s i" "\<not> owns t i" by blast
  then show ?thesis
  proof cases
    case both
    then show ?thesis using holder_Some [OF assms(1)] holder_Some [OF t] by (simp add: ls_skip)
  next
    case acq
    have "\<not> owns s j" for j using acq loc [of j] inv_owns [OF t acq(2), of j] by metis
    then show ?thesis using holder_None holder_Some [OF t acq(2)] by (simp add: ls_acquire)
  next
    case rel
    have "\<not> owns t j" for j using rel loc [of j] inv_owns [OF assms(1) rel(1), of j] by metis
    then show ?thesis using holder_None [of t] holder_Some [OF assms(1) rel(1)] by (simp add: ls_release)
  next
    case none
    have "owns t j = owns s j" for j using none loc [of j] by metis
    then have "owns t = owns s" by blast
    then show ?thesis by (simp add: lock_holder_def ls_skip)
  qed
qed

lemma refines_lock_spec:
  "reach init step s \<Longrightarrow> step i s t \<Longrightarrow> lock_spec i (lock_holder owns s) (lock_holder owns t)"
  using reach_inv inv_refines by blast

end

text \<open>Forward simulation: every concrete step is matched by abstract steps.\<close>

locale forward_simulation =
  fixes init :: "'s \<Rightarrow> bool" and step :: "'i \<Rightarrow> 's \<Rightarrow> 's \<Rightarrow> bool"
    and ainit :: "'a \<Rightarrow> bool" and astep :: "'i \<Rightarrow> 'a \<Rightarrow> 'a \<Rightarrow> bool"
    and rel :: "'s \<Rightarrow> 'a \<Rightarrow> bool"
  assumes sim_init: "init s \<Longrightarrow> \<exists>a. ainit a \<and> rel s a"
    and sim_step: "rel s a \<Longrightarrow> step i s t \<Longrightarrow> \<exists>b. rel t b \<and> (b = a \<or> astep i a b)"
begin

lemma reach_simulates: "reach init step s \<Longrightarrow> \<exists>a. reach ainit astep a \<and> rel s a"
proof (induction rule: reach.induct)
  case (reach_init s)
  then show ?case using sim_init by (meson reach.reach_init)
next
  case (reach_step s i t)
  then obtain a where "reach ainit astep a" "rel s a" by blast
  moreover from sim_step [OF this(2) reach_step.hyps(2)]
  obtain b where "rel t b" "b = a \<or> astep i a b" by blast
  ultimately show ?case by (metis reach.reach_step)
qed

end

text \<open>
  A first-in-first-out lock: a queue of threads that enter at the back and leave at the front; the
  owner is the front.
\<close>

inductive qlock_spec :: "'i \<Rightarrow> 'i list \<Rightarrow> 'i list \<Rightarrow> bool" where
  q_enter: "i \<notin> set q \<Longrightarrow> qlock_spec i q (q @ [i])"
| q_leave: "qlock_spec i (i # q) q"

locale queue_lock = forward_simulation init step "\<lambda>q. q = []" qlock_spec rel
  for init :: "'s \<Rightarrow> bool" and step :: "'i \<Rightarrow> 's \<Rightarrow> 's \<Rightarrow> bool" and rel :: "'s \<Rightarrow> 'i list \<Rightarrow> bool" +
  fixes owns :: "'s \<Rightarrow> 'i \<Rightarrow> bool"
  assumes rel_owns: "rel s q \<Longrightarrow> owns s i \<Longrightarrow> q \<noteq> [] \<and> hd q = i"
begin

lemma fifo: "reach init step s \<Longrightarrow> \<exists>q. reach (\<lambda>q. q = []) qlock_spec q \<and> rel s q"
  by (rule reach_simulates)

lemma exclusion:
  assumes "reach init step s" and "owns s i" and "owns s j"
  shows "i = j"
  using fifo [OF assms(1)] rel_owns assms(2,3) by blast

end

text \<open>
  The order in which threads get a lock. A history records, over a whole execution, the threads in the order
  in which they joined (\<open>queued\<close> became true of them, at the one access that gives them their place) and in
  the order in which they entered (\<open>owns\<close> became true of them).
\<close>

definition turned :: "('s \<Rightarrow> 'i \<Rightarrow> bool) \<Rightarrow> 's \<Rightarrow> 's \<Rightarrow> 'i \<Rightarrow> 'i list" where
  "turned P s t i = (if \<not> P s i \<and> P t i then [i] else [])"

inductive lock_hist :: "('s \<Rightarrow> bool) \<Rightarrow> ('i \<Rightarrow> 's \<Rightarrow> 's \<Rightarrow> bool) \<Rightarrow> ('s \<Rightarrow> 'i \<Rightarrow> bool) \<Rightarrow> ('s \<Rightarrow> 'i \<Rightarrow> bool) \<Rightarrow>
    's \<Rightarrow> 'i list \<Rightarrow> 'i list \<Rightarrow> bool"
  for I :: "'s \<Rightarrow> bool" and R :: "'i \<Rightarrow> 's \<Rightarrow> 's \<Rightarrow> bool" and queued owns :: "'s \<Rightarrow> 'i \<Rightarrow> bool" where
  lh_init: "I s \<Longrightarrow> lock_hist I R queued owns s [] []"
| lh_step: "lock_hist I R queued owns s joined entered \<Longrightarrow> R i s t \<Longrightarrow>
     lock_hist I R queued owns t (joined @ turned queued s t i) (entered @ turned owns s t i)"

lemma lock_hist_reach: "lock_hist I R queued owns s joined entered \<Longrightarrow> reach I R s"
  by (induction rule: lock_hist.induct) (blast intro: reach.intros)+

lemma reach_lock_hist: "reach I R s \<Longrightarrow> \<exists>joined entered. lock_hist I R queued owns s joined entered"
  by (induction rule: reach.induct) (blast intro: lock_hist.intros)+

text \<open>The histories of a concrete execution; \<open>who x\<close> is the thread that makes the move \<open>x\<close>.\<close>

fun play_hist :: "('s \<Rightarrow> 'x \<Rightarrow> 's option) \<Rightarrow> ('x \<Rightarrow> 'i) \<Rightarrow> ('s \<Rightarrow> 'i \<Rightarrow> bool) \<Rightarrow> 's \<Rightarrow> 'x list \<Rightarrow> 'i list" where
  "play_hist f who P s [] = []"
| "play_hist f who P s (x # xs) = (case f s x of None \<Rightarrow> [] | Some t \<Rightarrow> turned P s t (who x) @ play_hist f who P t xs)"

lemma play_lock_hist:
  assumes "\<And>s x t. f s x = Some t \<Longrightarrow> R (who x) s t" and "I s" and "play f s xs = Some t"
  shows "lock_hist I R queued owns t (play_hist f who queued s xs) (play_hist f who owns s xs)"
proof -
  have "lock_hist I R queued owns s js es \<Longrightarrow> play f s xs = Some t \<Longrightarrow>
      lock_hist I R queued owns t (js @ play_hist f who queued s xs) (es @ play_hist f who owns s xs)" for s js es
  proof (induction xs arbitrary: s js es)
    case (Cons x xs)
    then obtain u where u: "f s x = Some u" "play f u xs = Some t" by (auto split: option.splits)
    from lh_step [OF Cons.prems(1) assms(1) [OF u(1)]] Cons.IH [OF _ u(2)] u(1) show ?case by fastforce
  qed simp
  from this [OF lh_init [of I, OF assms(2)] assms(3)] show ?thesis by simp
qed

text \<open>First in, first out: the threads entered exactly in the order in which they joined, those that
  joined and have not entered yet are waiting, and the owner is the one that entered last.\<close>

definition fifo_order :: "('i \<Rightarrow> bool) \<Rightarrow> ('i \<Rightarrow> bool) \<Rightarrow> 'i list \<Rightarrow> 'i list \<Rightarrow> 'i list \<Rightarrow> bool" where
  "fifo_order queued owns joined entered waiting \<longleftrightarrow> joined = entered @ waiting \<and> distinct waiting \<and>
     set waiting = {i. queued i \<and> \<not> owns i} \<and> (\<forall>i. owns i \<longrightarrow> entered \<noteq> [] \<and> last entered = i)"

text \<open>How many threads own the lock: one or none.\<close>

definition held :: "('i \<Rightarrow> bool) \<Rightarrow> nat" where
  "held owns = (if \<exists>i. owns i then 1 else 0)"

lemma waiting_place:
  assumes d: "distinct (pre @ waiting)" and pre: "length pre = held owns" "\<forall>i\<in>set pre. owns i"
    and i: "i \<in> set waiting" and k: "k < length (pre @ waiting)" "(pre @ waiting) ! k = i"
  shows "k = 0 \<longleftrightarrow> (\<nexists>j. owns j) \<and> i = hd waiting"
proof (cases "\<exists>j. owns j")
  case True
  then have "pre \<noteq> []" using pre(1) by (auto simp: held_def)
  then have "(pre @ waiting) ! 0 \<in> set pre" by (cases pre) auto
  moreover have "i \<notin> set pre" using d i by auto
  ultimately show ?thesis using True k(2) by metis
next
  case False
  then have "pre = []" using pre(1) by (simp add: held_def)
  then have "i = hd waiting \<longleftrightarrow> k = 0"
    using k d i nth_eq_iff_index_eq [of waiting k 0] hd_conv_nth [of waiting] by fastforce
  then show ?thesis using False by blast
qed

locale fifo_lock = queue_lock init step rel owns
  for init :: "'s \<Rightarrow> bool" and step :: "'i \<Rightarrow> 's \<Rightarrow> 's \<Rightarrow> bool" and rel :: "'s \<Rightarrow> 'i list \<Rightarrow> bool" and owns +
  fixes queued :: "'s \<Rightarrow> 'i \<Rightarrow> bool"
  assumes rel_queued: "rel s q \<Longrightarrow> distinct q \<and> set q = Collect (queued s)"
    and others: "step i s t \<Longrightarrow> j \<noteq> i \<Longrightarrow> (queued t j \<longleftrightarrow> queued s j) \<and> (owns t j \<longleftrightarrow> owns s j)"
    and owner_stays: "rel s q \<Longrightarrow> step i s t \<Longrightarrow> rel t q' \<Longrightarrow> owns s i \<Longrightarrow> queued t i \<Longrightarrow> owns t i"
    and owner_leaves: "rel s q \<Longrightarrow> step i s t \<Longrightarrow> queued s i \<Longrightarrow> \<not> queued t i \<Longrightarrow> owns s i"
begin

lemma rel_hd: "rel s (a # q) \<Longrightarrow> owns s i \<Longrightarrow> i = a"
  using rel_owns by fastforce

lemma owns_queued: "rel s q \<Longrightarrow> owns s i \<Longrightarrow> i \<in> set q"
  using rel_owns hd_in_set by metis

definition split_at_owner :: "'s \<Rightarrow> 'i list \<Rightarrow> 'i list \<Rightarrow> 'i list \<Rightarrow> bool" where
  "split_at_owner s q entered waiting \<longleftrightarrow> (if \<exists>i. owns s i
     then entered \<noteq> [] \<and> owns s (last entered) \<and> q = last entered # waiting else q = waiting)"

lemma split_step:
  assumes rel: "rel s q" "rel t q'" and step: "step i s t" and q': "q' = q \<or> qlock_spec i q q'"
    and sp: "split_at_owner s q entered waiting"
  shows "\<exists>waiting'. entered @ waiting @ turned queued s t i = entered @ turned owns s t i @ waiting' \<and>
    split_at_owner t q' (entered @ turned owns s t i) waiting'"
proof -
  note oth = others [OF step] and stays = owner_stays [OF rel(1) step rel(2)] and leaves = owner_leaves [OF rel(1) step]
  note Q = rel_queued [OF rel(1)] and Q' = rel_queued [OF rel(2)]
  have one: "j = k" if "owns s j" "owns s k" for j k using rel_owns [OF rel(1)] that by metis
  have one': "j = k" if "owns t j" "owns t k" for j k using rel_owns [OF rel(2)] that by metis
  have spo: "entered \<noteq> [] \<and> last entered = j \<and> q = j # waiting" if "owns s j" for j
    using sp that one unfolding split_at_owner_def by (metis (full_types))
  have spn: "q = waiting" if "\<not> (\<exists>j. owns s j)" using sp that unfolding split_at_owner_def by simp
  consider (same) "q' = q" | (enter) "i \<notin> set q" "q' = q @ [i]" | (leave) "q = i # q'"
    using q' by (auto elim: qlock_spec.cases)
  then show ?thesis
  proof cases
    case same
    then have qd: "queued s = queued t" using Q Q' by auto
    show ?thesis
    proof (cases "owns t i \<and> \<not> owns s i")
      case True
      then have no: "\<not> (\<exists>j. owns s j)" using oth one' by metis
      moreover obtain r where "q = i # r" using rel_owns [OF rel(2)] True same by (metis list.collapse)
      ultimately show ?thesis
        using spn True same qd by (intro exI [of _ r]) (auto simp: turned_def split_at_owner_def)
    next
      case False
      moreover have "owns s i \<Longrightarrow> owns t i" using stays qd owns_queued [OF rel(1)] Q by auto
      ultimately have "owns t = owns s" using oth by (intro ext) metis
      then show ?thesis using sp same qd by (intro exI [of _ waiting]) (simp add: turned_def split_at_owner_def)
    qed
  next
    case enter
    then have qd: "\<not> queued s i" "queued t i" using Q Q' by auto
    then have ns: "\<not> owns s i" using owns_queued [OF rel(1)] enter(1) by blast
    show ?thesis
    proof (cases "owns t i")
      case True
      then have "q = []" using rel_owns [OF rel(2) True] enter by (cases q) auto
      moreover from this have "\<not> (\<exists>j. owns s j)" using spo by blast
      ultimately show ?thesis using spn ns True qd enter by (intro exI [of _ "[]"]) (auto simp: turned_def split_at_owner_def)
    next
      case False
      then have "owns t = owns s" using ns oth by (intro ext) metis
      then show ?thesis using sp ns False qd enter
        by (intro exI [of _ "waiting @ [i]"]) (auto simp: turned_def split_at_owner_def)
    qed
  next
    case leave
    then have qd: "queued s i" "\<not> queued t i" using Q Q' by auto
    then have own: "owns s i" using leaves by blast
    have "i \<notin> set q'" using Q leave by auto
    then have "\<not> owns t i" using owns_queued [OF rel(2)] by blast
    moreover from this have "\<not> (\<exists>j. owns t j)" using oth one own by metis
    ultimately show ?thesis using spo [OF own] own qd leave
      by (intro exI [of _ waiting]) (simp add: turned_def split_at_owner_def)
  qed
qed

lemma hist_split:
  "lock_hist init step queued owns s joined entered \<Longrightarrow>
   \<exists>q waiting. rel s q \<and> joined = entered @ waiting \<and> split_at_owner s q entered waiting"
proof (induction rule: lock_hist.induct)
  case (lh_init s)
  then have "rel s []" using sim_init by blast
  moreover from this have "\<not> (\<exists>i. owns s i)" using rel_owns by blast
  ultimately show ?case by (auto simp: split_at_owner_def)
next
  case (lh_step s joined entered i t)
  then obtain q waiting where q: "rel s q" "joined = entered @ waiting" "split_at_owner s q entered waiting" by blast
  obtain q' where q': "rel t q'" "q' = q \<or> qlock_spec i q q'" using sim_step [OF q(1) lh_step.hyps(2)] by blast
  from split_step [OF q(1) q'(1) lh_step.hyps(2) q'(2) q(3)] q'(1) q(2) show ?case by auto
qed

text \<open>The order of a history, with the queue the memory holds: the owner, if there is one, and then the
  waiting threads.\<close>

lemma hist_fifo:
  assumes "lock_hist init step queued owns s joined entered"
  shows "\<exists>pre waiting. fifo_order (queued s) (owns s) joined entered waiting \<and> rel s (pre @ waiting) \<and>
    length pre = held (owns s) \<and> (\<forall>i\<in>set pre. owns s i)"
proof -
  obtain q waiting where q: "rel s q" "joined = entered @ waiting" and sp: "split_at_owner s q entered waiting"
    using hist_split [OF assms] by blast
  have own: "entered \<noteq> [] \<and> last entered = i \<and> q = i # waiting" if "owns s i" for i
    using sp that rel_owns [OF q(1)] unfolding split_at_owner_def by (metis (full_types))
  have none: "q = waiting" if "\<nexists>i. owns s i" using sp that by (simp add: split_at_owner_def)
  note Q = rel_queued [OF q(1)]
  have "distinct waiting \<and> set waiting = {i. queued s i \<and> \<not> owns s i}"
  proof (cases "\<exists>i. owns s i")
    case True
    then obtain i where i: "owns s i" by blast
    have "j = i" if "owns s j" for j using rel_owns [OF q(1)] i that by blast
    then have "{j. queued s j \<and> \<not> owns s j} = Collect (queued s) - {i}" using i by blast
    moreover have "q = i # waiting" using own [OF i] by blast
    ultimately show ?thesis using Q by auto
  next
    case False
    with none Q show ?thesis by auto
  qed
  with q(2) own have fifo: "fifo_order (queued s) (owns s) joined entered waiting" by (auto simp: fifo_order_def)
  show ?thesis
  proof (cases "\<exists>i. owns s i")
    case True
    then obtain i where i: "owns s i" by blast
    then have "q = [i] @ waiting" "length [i] = held (owns s)" using own [OF i] by (auto simp: held_def)
    then show ?thesis using fifo q(1) i by (metis empty_iff set_ConsD list.set(1))
  next
    case False
    then have "q = [] @ waiting" "length [] = held (owns s)" using none by (auto simp: held_def)
    then show ?thesis using fifo q(1) by (metis empty_iff list.set(1))
  qed
qed

end

text \<open>
  What each call did. A history of effects records, for every thread, the changes of the abstract state (the
  state before and after) made by the accesses of its running call, or of its last call when it is idle.
\<close>

inductive op_hist :: "('s \<Rightarrow> bool) \<Rightarrow> ('i \<Rightarrow> 's \<Rightarrow> 's \<Rightarrow> bool) \<Rightarrow> ('s \<Rightarrow> 'i \<Rightarrow> bool) \<Rightarrow> ('s \<Rightarrow> 'a) \<Rightarrow>
    's \<Rightarrow> ('i \<Rightarrow> ('a \<times> 'a) list) \<Rightarrow> bool"
  for I :: "'s \<Rightarrow> bool" and R :: "'i \<Rightarrow> 's \<Rightarrow> 's \<Rightarrow> bool" and idle :: "'s \<Rightarrow> 'i \<Rightarrow> bool" and contents :: "'s \<Rightarrow> 'a" where
  oh_init: "I s \<Longrightarrow> op_hist I R idle contents s (\<lambda>_. [])"
| oh_step: "op_hist I R idle contents s eff \<Longrightarrow> R i s t \<Longrightarrow>
     op_hist I R idle contents t (eff(i := (if idle s i then [] else eff i) @ (if contents t = contents s then [] else [(contents s, contents t)])))"

lemma op_hist_reach: "op_hist I R idle contents s eff \<Longrightarrow> reach I R s"
  by (induction rule: op_hist.induct) (blast intro: reach.intros)+

lemma reach_op_hist: "reach I R s \<Longrightarrow> \<exists>eff. op_hist I R idle contents s eff"
  by (induction rule: reach.induct) (blast intro: op_hist.intros)+

text \<open>An invariant of the effects: \<open>ok s i e\<close> says that \<open>e\<close> fits the control point of thread \<open>i\<close> in \<open>s\<close>.\<close>

locale effect_invariant = inductive_invariant init step inv
  for init :: "'s \<Rightarrow> bool" and step :: "'i \<Rightarrow> 's \<Rightarrow> 's \<Rightarrow> bool" and inv +
  fixes idle :: "'s \<Rightarrow> 'i \<Rightarrow> bool" and contents :: "'s \<Rightarrow> 'a" and ok :: "'s \<Rightarrow> 'i \<Rightarrow> ('a \<times> 'a) list \<Rightarrow> bool"
  assumes ok_init: "init s \<Longrightarrow> ok s i []"
    and ok_others: "inv s \<Longrightarrow> step i s t \<Longrightarrow> j \<noteq> i \<Longrightarrow> ok s j e \<Longrightarrow> ok t j e"
    and ok_step: "inv s \<Longrightarrow> step i s t \<Longrightarrow> ok s i e \<Longrightarrow>
      ok t i ((if idle s i then [] else e) @ (if contents t = contents s then [] else [(contents s, contents t)]))"
begin

lemma hist_ok: "op_hist init step idle contents s eff \<Longrightarrow> ok s i (eff i)"
proof (induction arbitrary: i rule: op_hist.induct)
  case (oh_init s)
  then show ?case using ok_init by simp
next
  case (oh_step s eff k t)
  have inv: "inv s" using reach_inv [OF op_hist_reach [OF oh_step.hyps(1)]] .
  show ?case
  proof (cases "i = k")
    case True
    then show ?thesis using ok_step [OF inv oh_step.hyps(2)] oh_step.IH [of k] by simp
  next
    case False
    then show ?thesis using ok_others [OF inv oh_step.hyps(2)] oh_step.IH [of i] by simp
  qed
qed

end

section \<open>Words\<close>

lemma bit_word_pow2 [simp]:
  "bit (2 ^ n :: 'a::len word) m \<longleftrightarrow> m = n \<and> n < LENGTH('a)"
  by (auto simp: bit_exp_iff)

lemma bit_word_push_1 [simp]:
  "bit (push_bit n (1 :: 'a::len word)) m \<longleftrightarrow> m = n \<and> n < LENGTH('a)"
  by (auto simp: bit_exp_iff)

lemma word_neq_0_bit: "(w :: 'a::len word) \<noteq> 0 \<longleftrightarrow> (\<exists>n < LENGTH('a). bit w n)"
  by (metis bit_0_eq bit_word_eqI bot_apply bot_bool_def)

lemma word_and_bit_iff:
  assumes "k < LENGTH('a)"
  shows "(w :: 'a::len word) AND push_bit k 1 = push_bit k 1 \<longleftrightarrow> bit w k"
proof
  assume "w AND push_bit k 1 = push_bit k 1"
  then have "bit (w AND push_bit k 1) k = bit (push_bit k 1 :: 'a word) k" by (rule arg_cong)
  then show "bit w k" using assms by (simp add: bit_and_iff)
next
  assume "bit w k"
  then show "w AND push_bit k 1 = push_bit k 1"
    by (intro bit_word_eqI) (auto simp: bit_and_iff)
qed

lemma unat_add_1: "i < (n :: 'a::len word) \<Longrightarrow> unat (i + 1) = unat i + 1"
proof -
  assume "i < n"
  then have "unat i + 1 < 2 ^ LENGTH('a)"
    using le_less_trans [OF Suc_leI unsigned_less [of n]] by (simp add: word_less_nat_alt)
  then show ?thesis by (simp add: unat_word_ariths)
qed

lemma unat_of_nat_small: "n < 2 ^ LENGTH('a) \<Longrightarrow> unat (of_nat n :: 'a::len word) = n"
  by (simp add: unat_of_nat take_bit_nat_eq_self)

lemma of_nat_eq_small:
  "m < 2 ^ LENGTH('a) \<Longrightarrow> n < 2 ^ LENGTH('a) \<Longrightarrow>
   (of_nat m :: 'a::len word) = of_nat n \<longleftrightarrow> m = n"
  by (metis unat_of_nat_small)

section \<open>Sums over threads\<close>

lemma sum_upd_lessThan:
  fixes f :: "nat \<Rightarrow> nat"
  assumes "i < n"
  shows "(\<Sum>k<n. (f(i := x)) k) + f i = (\<Sum>k<n. f k) + x"
proof -
  have "(\<Sum>k<n. g k) = g i + (\<Sum>k\<in>{..<n} - {i}. g k)" for g :: "nat \<Rightarrow> nat"
    using assms by (subst sum.remove [of _ i]) auto
  from this [of "f(i := x)"] this [of f] show ?thesis by simp
qed

lemma sum_member_le:
  fixes f :: "nat \<Rightarrow> nat"
  shows "i < n \<Longrightarrow> f i \<le> (\<Sum>k<n. f k)"
  by (simp add: member_le_sum)

text \<open>Resources: a pool \<open>a\<close> and what each thread holds add up to \<open>n\<close>.\<close>

lemma permits_move:
  fixes h :: "'p \<Rightarrow> nat" and i N :: nat
  assumes "a + (\<Sum>k<N. h (pcs k)) = n" and "i < N" and "\<And>k. k \<noteq> i \<Longrightarrow> pcs' k = pcs k"
    and "a' + h (pcs' i) = a + h (pcs i)"
  shows "a' + (\<Sum>k<N. h (pcs' k)) = n"
proof -
  have eq: "(\<lambda>k. h (pcs k))(i := h (pcs' i)) = (\<lambda>k. h (pcs' k))" using assms(3) by auto
  have "(\<Sum>k<N. h (pcs' k)) + h (pcs i) = (\<Sum>k<N. h (pcs k)) + h (pcs' i)"
    using sum_upd_lessThan [OF assms(2), of "\<lambda>k. h (pcs k)" "h (pcs' i)"] unfolding eq .
  then show ?thesis using assms(1,4) by simp
qed

lemma sum_two_le:
  fixes f :: "nat \<Rightarrow> nat"
  assumes "i < N" and "j < N" and "i \<noteq> j"
  shows "f i + f j \<le> (\<Sum>k<N. f k)"
proof -
  have "(\<Sum>k\<in>{i, j}. f k) \<le> (\<Sum>k<N. f k)" using assms by (intro sum_mono2) auto
  with assms show ?thesis by simp
qed

end
