(* ===== verification/Vmath.thy ===== *)
theory Vmath
  imports Vsync_Prelude
begin

text \<open>
  The integer helpers of \<^verbatim>\<open>vsync/utils/math.h\<close>, at the width the code uses them. The GCC
  builtins for counting zeros are undefined on 0, and a shift by the width of the operand or more
  is undefined in C: both are \<^const>\<open>BadAccess\<close> here.
\<close>

section \<open>Bit scans and shifts\<close>

definition clz :: "'a::len word \<Rightarrow> nat res" where
  "clz w = (if w = 0 then Inl BadAccess
            else Inr (length (takeWhile (\<lambda>i. \<not> bit w i) (rev [0..<LENGTH('a)]))))"

definition ctz :: "'a::len word \<Rightarrow> nat res" where
  "ctz w = (case find (bit w) [0..<LENGTH('a)] of None \<Rightarrow> Inl BadAccess | Some n \<Rightarrow> Inr n)"

definition shl :: "'a::len word \<Rightarrow> nat \<Rightarrow> 'a word res" where
  "shl w n = (if n < LENGTH('a) then Inr (push_bit n w) else Inl BadAccess)"

section \<open>Operations\<close>

definition v_log2 :: "u32 \<Rightarrow> u32 res" where
  "v_log2 v = rbind (vassert (v \<noteq> 0)) (\<lambda>_.
     rbind (clz (ucast v :: u64)) (\<lambda>z. Inr (ucast (((8 * 8) - of_nat z) - 1 :: u64))))"

definition v_pow2_round_up :: "u32 \<Rightarrow> u32 res" where
  "v_pow2_round_up v = rbind (vassert (v \<noteq> 0)) (\<lambda>_.
     if v = 1 then Inr 1
     else rbind (clz (v - 1)) (\<lambda>z. shl 1 (unat (32 - of_nat z :: u32))))"

definition v_pow2_round_down :: "u32 \<Rightarrow> u32 res" where
  "v_pow2_round_down v = rbind (vassert (v \<noteq> 0)) (\<lambda>_.
     rbind (clz v) (\<lambda>z. shl 1 (unat ((32 - of_nat z) - 1 :: u32))))"

definition V_IS_POWER_OF_TWO :: "'a::len word \<Rightarrow> bool" where
  "V_IS_POWER_OF_TWO n \<longleftrightarrow> n \<noteq> 0 \<and> n AND (n - 1) = 0"

definition V_MOD_POWER_OF_TWO :: "'a::len word \<Rightarrow> 'a word \<Rightarrow> 'a word" where
  "V_MOD_POWER_OF_TWO n p = (if V_IS_POWER_OF_TWO p then n AND (p - 1) else n mod p)"

definition VMIN :: "'a::len word \<Rightarrow> 'a word \<Rightarrow> 'a word" where
  "VMIN a b = (if a < b then a else b)"

definition VMAX :: "'a::len word \<Rightarrow> 'a word \<Rightarrow> 'a word" where
  "VMAX a b = (if a > b then a else b)"

definition VIN_RANGE :: "'a::len word \<Rightarrow> 'a word \<Rightarrow> 'a word \<Rightarrow> bool" where
  "VIN_RANGE lb v ub \<longleftrightarrow> lb \<le> v \<and> v \<le> ub"

definition VCEIL_DIV :: "'a::len word \<Rightarrow> 'a word \<Rightarrow> 'a word" where
  "VCEIL_DIV x y = (if x mod y = 0 then x div y else x div y + 1)"

definition VIS_ODD :: "'a::len word \<Rightarrow> bool" where
  "VIS_ODD v \<longleftrightarrow> v AND 1 = 1"

definition VIS_EVEN :: "'a::len word \<Rightarrow> bool" where
  "VIS_EVEN v \<longleftrightarrow> v AND 1 = 0"

definition v_least_containing_multiple :: "vsize \<Rightarrow> vsize \<Rightarrow> vsize res" where
  "v_least_containing_multiple divisor dividend =
     rbind (vassert (dividend \<noteq> 0)) (\<lambda>_.
       let result = ((divisor + (dividend - 1)) div dividend) * dividend
       in rbind (vassert (result \<ge> divisor)) (\<lambda>_. Inr result))"

section \<open>The highest set bit\<close>

text \<open>For a non-zero word there is a highest set bit, and it brackets the value.\<close>

lemma highest_bit:
  fixes w :: "'a::len word"
  assumes "w \<noteq> 0"
  obtains k where "k < LENGTH('a)" and "bit w k" and "\<And>i. k < i \<Longrightarrow> \<not> bit w i"
    and "2 ^ k \<le> unat w" and "unat w < 2 ^ (k + 1)"
proof -
  define m where "m = Max {i. bit w i}"
  have "{i. bit w i} \<subseteq> {..<LENGTH('a)}" using bit_imp_le_length by blast
  then have fin: "finite {i. bit w i}" by (rule finite_subset) simp
  have "{i. bit w i} \<noteq> {}" using assms word_neq_0_bit by blast
  with fin have "m \<in> {i. bit w i}" unfolding m_def by (rule Max_in)
  then have k: "bit w m" by simp
  have above: "\<not> bit w i" if "m < i" for i
    using that Max_ge [OF fin, of i] unfolding m_def by fastforce
  have "take_bit (m + 1) w = w"
  proof (rule bit_word_eqI)
    show "bit (take_bit (m + 1) w) n = bit w n" for n
      using above [of n] by (cases "m < n") (auto simp: bit_take_bit_iff)
  qed
  then have hi: "unat w < 2 ^ (m + 1)"
    by (metis take_bit_nat_less_exp unsigned_take_bit_eq)
  have "bit (unat w) m" using k by (simp add: bit_unsigned_iff)
  then have "odd (unat w div 2 ^ m)" by (simp add: bit_iff_odd)
  then have lo: "2 ^ m \<le> unat w"
    by (metis div_less even_zero not_le)
  show thesis
    by (rule that [OF bit_imp_le_length [OF k] k above lo hi])
qed

lemma takeWhile_rev_upt:
  assumes "k < n" and "P k" and "\<And>i. k < i \<Longrightarrow> \<not> P i"
  shows "takeWhile (\<lambda>i. \<not> P i) (rev [0..<n]) = rev [k + 1..<n]"
proof -
  have "[0..<n] = [0..<k] @ k # [k + 1..<n]"
    using assms(1) upt_add_eq_append [of 0 k "n - k"] by (simp add: upt_conv_Cons del: upt_Suc)
  with assms show ?thesis by (simp add: takeWhile_append)
qed

lemma clz_highest:
  fixes w :: "'a::len word"
  assumes "k < LENGTH('a)" and "bit w k" and "\<And>i. k < i \<Longrightarrow> \<not> bit w i"
  shows "clz w = Inr (LENGTH('a) - 1 - k)"
  using assms takeWhile_rev_upt [of k "LENGTH('a)" "bit w"] by (auto simp: clz_def)

lemma ctz_Inr_iff:
  "ctz (w :: 'a::len word) = Inr n \<longleftrightarrow> bit w n \<and> (\<forall>i<n. \<not> bit w i)"
proof -
  have "ctz w = Inr n \<longleftrightarrow> find (bit w) [0..<LENGTH('a)] = Some n"
    by (simp add: ctz_def split: option.splits)
  also have "\<dots> \<longleftrightarrow> bit w n \<and> (\<forall>i<n. \<not> bit w i)"
    using bit_imp_le_length [of w n] by (auto simp: find_Some_iff)
  finally show ?thesis .
qed

lemma ctz_total: "w \<noteq> 0 \<Longrightarrow> \<exists>n. ctz w = Inr n"
  unfolding ctz_Inr_iff using word_neq_0_bit
  by (metis exists_least_iff)

section \<open>What the helpers compute\<close>

lemma unat_pow2_word: "k < LENGTH('a) \<Longrightarrow> unat (push_bit k 1 :: 'a::len word) = 2 ^ k"
  using unat_of_nat_small [of "2 ^ k", where 'a = 'a] by simp

lemma of_nat_diff_word:
  "n \<le> m \<Longrightarrow> m < 2 ^ LENGTH('a) \<Longrightarrow> unat (of_nat m - of_nat n :: 'a::len word) = m - n"
  by (metis diff_le_self of_nat_diff order.strict_trans1 unat_of_nat_small)

lemma clz_width_minus:
  fixes w :: u32
  assumes "k < 32" and "bit w k" and "\<And>i. k < i \<Longrightarrow> \<not> bit w i"
  shows "\<exists>z. clz w = Inr z \<and> unat (32 - of_nat z :: u32) = k + 1 \<and>
             unat ((32 - of_nat z) - 1 :: u32) = k"
proof -
  have c: "clz w = Inr (31 - k)" using clz_highest [OF _ assms(2,3)] assms(1) by simp
  have "unat (of_nat 32 - of_nat (31 - k) :: u32) = 32 - (31 - k)"
    by (rule of_nat_diff_word) auto
  then have u: "unat (32 - of_nat (31 - k) :: u32) = k + 1" using assms(1) by simp
  then have "(32 - of_nat (31 - k) :: u32) = of_nat (k + 1)"
    by (metis unat_of_nat_small word_unat_eq_iff unsigned_less of_nat_unat ucast_id)
  then have "(32 - of_nat (31 - k)) - 1 = (of_nat k :: u32)" by simp
  then have "unat ((32 - of_nat (31 - k)) - 1 :: u32) = k"
    using assms(1) by (simp add: unat_of_nat_small)
  with c u show ?thesis by blast
qed

lemma v_log2_floor:
  assumes "v \<noteq> 0"
  shows "\<exists>l. v_log2 v = Inr l \<and> 2 ^ unat l \<le> unat v \<and> unat v < 2 ^ (unat l + 1)"
proof -
  let ?w = "ucast v :: u64"
  have un: "unat ?w = unat v"
    using unsigned_less [of v, where 'a = nat]
    by (simp add: unsigned_ucast_eq take_bit_nat_eq_self)
  have "?w \<noteq> 0" using assms un by (metis unat_eq_zero)
  then obtain k where k: "k < 64" "bit ?w k" "\<And>i. k < i \<Longrightarrow> \<not> bit ?w i"
    "2 ^ k \<le> unat ?w" "unat ?w < 2 ^ (k + 1)"
    using highest_bit [of ?w] by auto
  have c: "clz ?w = Inr (63 - k)" using clz_highest [OF _ k(2,3)] k(1) by simp
  have "unat (of_nat 64 - of_nat (64 - k) :: u64) = 64 - (64 - k)"
    by (rule of_nat_diff_word) auto
  moreover have "64 - k = Suc (63 - k)" using k(1) by simp
  then have "(of_nat (64 - k) :: u64) = of_nat (63 - k) + 1" by simp
  ultimately have "unat (((8 * 8) - of_nat (63 - k)) - 1 :: u64) = k"
    using k(1) by (simp add: diff_diff_eq)
  then have "unat (ucast (((8 * 8) - of_nat (63 - k)) - 1 :: u64) :: u32) = k"
    using k(1) by (simp add: unsigned_ucast_eq take_bit_nat_eq_self)
  with k c un assms show ?thesis by (simp add: v_log2_def)
qed

lemma v_pow2_round_down_spec:
  assumes "v \<noteq> 0"
  shows "\<exists>k r. v_pow2_round_down v = Inr r \<and> unat r = 2 ^ k \<and> 2 ^ k \<le> unat v \<and> unat v < 2 ^ (k + 1)"
proof -
  from assms obtain k where k: "k < 32" "bit v k" "\<And>i. k < i \<Longrightarrow> \<not> bit v i"
    "2 ^ k \<le> unat v" "unat v < 2 ^ (k + 1)"
    using highest_bit [of v] by auto
  then show ?thesis
    using clz_width_minus [OF k(1-3)] assms
    by (auto simp: v_pow2_round_down_def shl_def unat_pow2_word simp del: push_bit_of_1)
qed

text \<open>\<^verbatim>\<open>v_pow2_round_up\<close> returns the least power of two that is at least its
  argument, for every argument from 1 to \<open>2 ^ 31\<close>.\<close>

lemma v_pow2_round_up_spec:
  assumes "v \<noteq> 0" and "unat v \<le> 2 ^ 31"
  shows "\<exists>k r. v_pow2_round_up v = Inr r \<and> unat r = 2 ^ k \<and> unat v \<le> 2 ^ k \<and> 2 ^ k < 2 * unat v"
proof (cases "v = 1")
  case True
  then show ?thesis by (auto simp: v_pow2_round_up_def intro: exI [of _ "0::nat"])
next
  case False
  have un: "unat (v - 1) = unat v - 1" using assms(1) by (simp add: unat_minus_one)
  have "v - 1 \<noteq> 0" using False by simp
  then obtain k where k: "k < 32" "bit (v - 1) k" "\<And>i. k < i \<Longrightarrow> \<not> bit (v - 1) i"
    "2 ^ k \<le> unat (v - 1)" "unat (v - 1) < 2 ^ (k + 1)"
    using highest_bit [of "v - 1"] by auto
  have "k < 31"
  proof (rule ccontr)
    assume "\<not> k < 31"
    then have "(2::nat) ^ 31 \<le> 2 ^ k" by (intro power_increasing) auto
    moreover have "unat v > 0" using assms(1) by (simp add: unat_gt_0)
    ultimately show False using k(4) un assms(2) by linarith
  qed
  moreover have "unat v \<le> 2 ^ (k + 1)" "2 ^ (k + 1) < 2 * unat v"
    using k(4,5) un by auto
  moreover obtain z where "clz (v - 1) = Inr z" "unat (32 - of_nat z :: u32) = k + 1"
    using clz_width_minus [OF k(1-3)] by blast
  then have "v_pow2_round_up v = shl 1 (k + 1)"
    using assms(1) False by (simp add: v_pow2_round_up_def)
  ultimately show ?thesis
    using unat_pow2_word [of "k + 1", where 'a = 32]
    by (intro exI [of _ "k + 1"] exI [of _ "push_bit (k + 1) 1"]) (simp add: shl_def)
qed

lemma V_IS_POWER_OF_TWO_iff:
  "V_IS_POWER_OF_TWO (n :: 'a::len word) \<longleftrightarrow> (\<exists>k<LENGTH('a). n = 2 ^ k)"
proof
  assume pot: "V_IS_POWER_OF_TWO n"
  then have "n \<noteq> 0" by (simp add: V_IS_POWER_OF_TWO_def)
  then obtain k where k: "k < LENGTH('a)" "bit n k" "2 ^ k \<le> unat n" "unat n < 2 ^ (k + 1)"
    by (rule highest_bit) auto
  have "unat n = 2 ^ k"
  proof (rule ccontr)
    assume "unat n \<noteq> 2 ^ k"
    then have "2 ^ k \<le> unat (n - 1)" "unat (n - 1) < 2 ^ (k + 1)"
      using k(3,4) \<open>n \<noteq> 0\<close> by (simp_all add: unat_minus_one)
    then have "unat (n - 1) div 2 ^ k = 1" by (simp add: div_nat_eqI)
    then have "bit (unat (n - 1)) k" by (simp add: bit_iff_odd)
    then have "bit (n AND (n - 1)) k" using k(2) by (simp add: bit_and_iff bit_unsigned_iff)
    with pot show False by (simp add: V_IS_POWER_OF_TWO_def)
  qed
  then have "(of_nat (unat n) :: 'a word) = of_nat (2 ^ k)" by simp
  then have "n = 2 ^ k" by simp
  with k(1) show "\<exists>k<LENGTH('a). n = 2 ^ k" by blast
next
  assume "\<exists>k<LENGTH('a). n = 2 ^ k"
  then obtain k where k: "k < LENGTH('a)" "n = 2 ^ k" by blast
  have "n AND mask k = 0"
    by (rule bit_word_eqI) (auto simp: k(2) bit_and_iff bit_mask_iff)
  with k show "V_IS_POWER_OF_TWO n"
    by (simp add: V_IS_POWER_OF_TWO_def mask_eq_exp_minus_1)
qed

text \<open>\<^verbatim>\<open>V_MOD_POWER_OF_TWO\<close>, with its masking shortcut for powers of two, is the
  remainder for every pair of words.\<close>

lemma V_MOD_POWER_OF_TWO_eq: "V_MOD_POWER_OF_TWO n p = n mod p"
proof (cases "V_IS_POWER_OF_TWO p")
  case True
  then obtain k where "p = 2 ^ k" by (auto simp: V_IS_POWER_OF_TWO_iff)
  then have "n AND (p - 1) = n mod p"
    by (metis mask_eq_exp_minus_1 take_bit_eq_mask take_bit_eq_mod)
  with True show ?thesis by (simp add: V_MOD_POWER_OF_TWO_def)
qed (simp add: V_MOD_POWER_OF_TWO_def)

lemma ceil_div_pos: "0 < r \<Longrightarrow> r < y \<Longrightarrow> (q * y + r + y - 1) div y = q + (1::nat)"
  by (intro div_nat_eqI) (auto simp: algebra_simps)

lemma VCEIL_DIV_unat:
  assumes "y \<noteq> 0"
  shows "unat (VCEIL_DIV x y) = (unat x + unat y - 1) div unat y"
proof -
  have y: "0 < unat y" using assms by (simp add: unat_gt_0)
  have dm: "unat x = unat x div unat y * unat y + unat x mod unat y" by simp
  show ?thesis
  proof (cases "x mod y = 0")
    case True
    then have m: "unat x mod unat y = 0" by (metis unat_0 unat_mod)
    then have "(unat x + unat y - 1) div unat y = unat x div unat y"
      using y dm by (intro div_nat_eqI) (auto simp: algebra_simps)
    with True show ?thesis by (simp add: VCEIL_DIV_def unat_div)
  next
    case False
    then have m: "0 < unat x mod unat y" by (metis neq0_conv unat_0_iff unat_mod)
    moreover have "unat x mod unat y < unat y" using y by simp
    ultimately have y2: "1 < unat y" by linarith
    have "x div y < x"
      using y2 m by (auto simp: word_less_nat_alt unat_div intro!: div_less_dividend gr0I)
    then have "unat (x div y + 1) = unat x div unat y + 1"
      by (simp add: unat_add_1 unat_div)
    moreover have "(unat x + unat y - 1) div unat y = unat x div unat y + 1"
      using ceil_div_pos [of "unat x mod unat y" "unat y" "unat x div unat y"] m y dm by simp
    ultimately show ?thesis using False by (simp add: VCEIL_DIV_def)
  qed
qed

lemma VIS_ODD_iff: "VIS_ODD w \<longleftrightarrow> odd (unat w)"
  and VIS_EVEN_iff: "VIS_EVEN w \<longleftrightarrow> even (unat w)"
proof -
  have "odd (unat w) \<longleftrightarrow> bit w 0"
    by (metis bit_0 bit_unsigned_iff possible_bit_nat)
  moreover have "w AND 1 = 1 \<longleftrightarrow> bit w 0" and "w AND 1 = 0 \<longleftrightarrow> \<not> bit w 0"
    by (metis (no_types) and_one_eq bit_0 even_iff_mod_2_eq_zero odd_iff_mod_2_eq_one)+
  ultimately show "VIS_ODD w \<longleftrightarrow> odd (unat w)" and "VIS_EVEN w \<longleftrightarrow> even (unat w)"
    by (auto simp: VIS_ODD_def VIS_EVEN_def)
qed

end
