(* ===== verification/Bitmap.thy ===== *)
theory Bitmap
  imports Vmath
begin

text \<open>
  The bitmap of \<^verbatim>\<open>vsync/bitmap/bitmap.h\<close>: a bit count and an array of 64-bit slots. Indices
  are \<^verbatim>\<open>vsize_t\<close> words as in the code; a read or write outside the array is
  \<^const>\<open>BadAccess\<close> and a failed assertion \<^const>\<open>AssertFail\<close>. The operations are proved
  against the set of raised bit indices, and the iterator against its ascending enumeration.
\<close>

record vbitmap =
  maps_cnt :: vsize
  bit_cnt :: vsize
  maps :: "u64 list"

record vbitmap_iter =
  iter_idx :: vsize
  last_val :: u64

section \<open>Masks\<close>

definition VBITMAP_CALC_SLOT_IDX :: "vsize \<Rightarrow> vsize" where
  "VBITMAP_CALC_SLOT_IDX i = i div 64"

definition VBITMAP_CALC_BIT_SLOT_IDX :: "vsize \<Rightarrow> vsize" where
  "VBITMAP_CALC_BIT_SLOT_IDX i = i mod 64"

definition VBITMAP_BIT_MASK :: "vsize \<Rightarrow> u64 res" where
  "VBITMAP_BIT_MASK i = shl 1 (unat (VBITMAP_CALC_BIT_SLOT_IDX i))"

definition vbitmap_lsb_mask :: "vsize \<Rightarrow> u64 res" where
  "vbitmap_lsb_mask idx = rbind (shl 1 (unat idx)) (\<lambda>mask. Inr (NOT (mask - 1)))"

definition vbitmap_msb_mask :: "vsize \<Rightarrow> u64 res" where
  "vbitmap_msb_mask idx = rbind (shl 1 (unat idx)) (\<lambda>mask. Inr (mask + (mask - 1)))"

definition vbitmap_range_mask :: "vsize \<Rightarrow> vsize \<Rightarrow> u64 res" where
  "vbitmap_range_mask from to =
     rbind (vbitmap_lsb_mask from) (\<lambda>lsb. rbind (vbitmap_msb_mask to) (\<lambda>msb. Inr (msb AND lsb)))"

section \<open>Operations\<close>

text \<open>\<^verbatim>\<open>sizeof(vbitmap_t)\<close> is 16 (two \<^verbatim>\<open>vsize_t\<close> and a flexible array), a slot takes 8 bytes.\<close>

definition vbitmap_size :: "vsize \<Rightarrow> vsize" where
  "vbitmap_size bit_count = 16 + VCEIL_DIV bit_count 64 * 8"

function write_slots :: "vsize \<Rightarrow> vsize \<Rightarrow> u64 \<Rightarrow> u64 list \<Rightarrow> u64 list res" where
  "write_slots i hi v xs =
     (if i < hi then rbind (awrite xs (unat i) v) (\<lambda>ys. write_slots (i + 1) hi v ys) else Inr xs)"
  by pat_completeness auto
termination
  by (relation "measure (\<lambda>(i, hi, v, xs). unat hi - unat i)")
     (auto simp: unat_add_1 word_less_nat_alt)

declare write_slots.simps [simp del]

definition vbitmap_init :: "vbitmap \<Rightarrow> vsize \<Rightarrow> bool \<Rightarrow> vbitmap res" where
  "vbitmap_init bm bit_count set_all =
     (let init_val = (if set_all then - 1 else 0);
          bm1 = bm\<lparr>bit_cnt := bit_count, maps_cnt := VCEIL_DIV bit_count 64\<rparr>
      in rbind (write_slots 0 (maps_cnt bm1) init_val (maps bm1)) (\<lambda>xs. Inr (bm1\<lparr>maps := xs\<rparr>)))"

definition vbitmap_clear :: "vbitmap \<Rightarrow> vbitmap res" where
  "vbitmap_clear bm =
     rbind (write_slots 0 (maps_cnt bm) 0 (maps bm)) (\<lambda>xs. Inr (bm\<lparr>maps := xs\<rparr>))"

definition vbitmap_get :: "vbitmap \<Rightarrow> vsize \<Rightarrow> bool res" where
  "vbitmap_get bm bit_idx =
     rbind (vassert (bit_idx < bit_cnt bm)) (\<lambda>_.
     let idx = VBITMAP_CALC_SLOT_IDX bit_idx in
     rbind (vassert (idx < maps_cnt bm)) (\<lambda>_.
     rbind (VBITMAP_BIT_MASK bit_idx) (\<lambda>mask.
     rbind (aread (maps bm) (unat idx)) (\<lambda>val. Inr (val AND mask = mask)))))"

definition vbitmap_set_bit :: "vbitmap \<Rightarrow> vsize \<Rightarrow> vbitmap res" where
  "vbitmap_set_bit bm bit_idx =
     rbind (vassert (bit_idx < bit_cnt bm)) (\<lambda>_.
     let idx = VBITMAP_CALC_SLOT_IDX bit_idx in
     rbind (vassert (idx < maps_cnt bm)) (\<lambda>_.
     rbind (VBITMAP_BIT_MASK bit_idx) (\<lambda>mask.
     rbind (aread (maps bm) (unat idx)) (\<lambda>old. let val = old OR mask in
     rbind (awrite (maps bm) (unat idx) val) (\<lambda>xs.
     rbind (vassert (val AND mask = mask)) (\<lambda>_. Inr (bm\<lparr>maps := xs\<rparr>)))))))"

definition vbitmap_set_slot :: "vbitmap \<Rightarrow> vsize \<Rightarrow> u64 \<Rightarrow> vbitmap res" where
  "vbitmap_set_slot bm idx msk =
     rbind (vassert (idx < maps_cnt bm)) (\<lambda>_.
     rbind (aread (maps bm) (unat idx)) (\<lambda>old.
     rbind (awrite (maps bm) (unat idx) (old OR msk)) (\<lambda>xs. Inr (bm\<lparr>maps := xs\<rparr>))))"

definition vbitmap_clr_slot :: "vbitmap \<Rightarrow> vsize \<Rightarrow> u64 \<Rightarrow> vbitmap res" where
  "vbitmap_clr_slot bm idx msk =
     rbind (vassert (idx < maps_cnt bm)) (\<lambda>_.
     rbind (aread (maps bm) (unat idx)) (\<lambda>old.
     rbind (awrite (maps bm) (unat idx) (old AND msk)) (\<lambda>xs. Inr (bm\<lparr>maps := xs\<rparr>))))"

definition vbitmap_set_range :: "vbitmap \<Rightarrow> vsize \<Rightarrow> vsize \<Rightarrow> vbitmap res" where
  "vbitmap_set_range bm from to =
     rbind (vassert (from \<le> to)) (\<lambda>_.
     rbind (vassert (to < bit_cnt bm)) (\<lambda>_.
     let lsb_slot = VBITMAP_CALC_SLOT_IDX from; msb_slot = VBITMAP_CALC_SLOT_IDX to;
         lsb_idx = VBITMAP_CALC_BIT_SLOT_IDX from; msb_idx = VBITMAP_CALC_BIT_SLOT_IDX to in
     rbind (vassert (lsb_slot \<le> msb_slot)) (\<lambda>_.
     rbind (vassert (msb_slot < maps_cnt bm)) (\<lambda>_.
     if lsb_slot = msb_slot then
       rbind (vbitmap_range_mask lsb_idx msb_idx) (\<lambda>mask. vbitmap_set_slot bm lsb_slot mask)
     else
       rbind (vbitmap_lsb_mask lsb_idx) (\<lambda>mask.
       rbind (vbitmap_set_slot bm lsb_slot mask) (\<lambda>bm1.
       rbind (write_slots (lsb_slot + 1) msb_slot (- 1) (maps bm1)) (\<lambda>xs.
       rbind (vbitmap_msb_mask msb_idx) (\<lambda>mask.
       vbitmap_set_slot (bm1\<lparr>maps := xs\<rparr>) msb_slot mask))))))))"

definition vbitmap_clr_range :: "vbitmap \<Rightarrow> vsize \<Rightarrow> vsize \<Rightarrow> vbitmap res" where
  "vbitmap_clr_range bm from to =
     rbind (vassert (from \<le> to)) (\<lambda>_.
     rbind (vassert (to < bit_cnt bm)) (\<lambda>_.
     let lsb_slot = VBITMAP_CALC_SLOT_IDX from; msb_slot = VBITMAP_CALC_SLOT_IDX to;
         lsb_idx = VBITMAP_CALC_BIT_SLOT_IDX from; msb_idx = VBITMAP_CALC_BIT_SLOT_IDX to in
     rbind (vassert (lsb_slot \<le> msb_slot)) (\<lambda>_.
     rbind (vassert (msb_slot < maps_cnt bm)) (\<lambda>_.
     if lsb_slot = msb_slot then
       rbind (vbitmap_range_mask lsb_idx msb_idx) (\<lambda>mask. vbitmap_clr_slot bm lsb_slot (NOT mask))
     else
       rbind (vbitmap_lsb_mask lsb_idx) (\<lambda>mask.
       rbind (vbitmap_clr_slot bm lsb_slot (NOT mask)) (\<lambda>bm1.
       rbind (write_slots (lsb_slot + 1) msb_slot 0 (maps bm1)) (\<lambda>xs.
       rbind (vbitmap_msb_mask msb_idx) (\<lambda>mask.
       vbitmap_clr_slot (bm1\<lparr>maps := xs\<rparr>) msb_slot (NOT mask)))))))))"

definition vbitmap_clr_bit :: "vbitmap \<Rightarrow> vsize \<Rightarrow> vbitmap res" where
  "vbitmap_clr_bit bm bit_idx =
     rbind (vassert (bit_idx < bit_cnt bm)) (\<lambda>_.
     let idx = VBITMAP_CALC_SLOT_IDX bit_idx in
     rbind (vassert (idx < maps_cnt bm)) (\<lambda>_.
     rbind (VBITMAP_BIT_MASK bit_idx) (\<lambda>mask.
     rbind (aread (maps bm) (unat idx)) (\<lambda>old. let val = old AND NOT mask in
     rbind (awrite (maps bm) (unat idx) val) (\<lambda>xs.
     rbind (vassert (val AND mask = 0)) (\<lambda>_. Inr (bm\<lparr>maps := xs\<rparr>)))))))"

section \<open>Iterator\<close>

text \<open>The iterator's \<^verbatim>\<open>map\<close> pointer is the bitmap argument of the two operations.\<close>

definition vbitmap_iter_init :: "vbitmap \<Rightarrow> vbitmap_iter res" where
  "vbitmap_iter_init bm =
     rbind (vassert (maps_cnt bm > 0)) (\<lambda>_.
     rbind (aread (maps bm) 0) (\<lambda>v. Inr \<lparr>iter_idx = 0, last_val = v\<rparr>))"

text \<open>The \<^verbatim>\<open>for\<close> loop that looks for the next slot with a raised bit: \<open>True\<close> for the
  \<^verbatim>\<open>goto VBITMAP_LBL_VAL\<close>.\<close>

function vbitmap_iter_scan :: "vbitmap \<Rightarrow> vsize \<Rightarrow> vbitmap_iter \<Rightarrow> (vbitmap_iter \<times> bool) res" where
  "vbitmap_iter_scan bm idx it =
     (if idx < maps_cnt bm then
        rbind (aread (maps bm) (unat idx)) (\<lambda>v.
        if v \<noteq> 0 then Inr (it\<lparr>last_val := v, iter_idx := idx\<rparr>, True)
        else vbitmap_iter_scan bm (idx + 1) (it\<lparr>last_val := v\<rparr>))
      else Inr (it, False))"
  by pat_completeness auto
termination
  by (relation "measure (\<lambda>(bm, idx, it). unat (maps_cnt bm) - unat idx)")
     (auto simp: unat_add_1 word_less_nat_alt)

declare vbitmap_iter_scan.simps [simp del]

definition vbitmap_iter_val :: "vbitmap \<Rightarrow> vbitmap_iter \<Rightarrow> (vbitmap_iter \<times> vsize option) res" where
  "vbitmap_iter_val bm it =
     rbind (ctz (last_val it)) (\<lambda>n.
     let bit_idx = of_nat n; out_idx = 64 * iter_idx it + bit_idx in
     if out_idx \<ge> bit_cnt bm then Inr (it, None)
     else rbind (VBITMAP_BIT_MASK bit_idx) (\<lambda>mask.
       Inr (it\<lparr>last_val := last_val it AND NOT mask\<rparr>, Some out_idx)))"

definition vbitmap_iter_next :: "vbitmap \<Rightarrow> vbitmap_iter \<Rightarrow> (vbitmap_iter \<times> vsize option) res" where
  "vbitmap_iter_next bm it =
     (if last_val it = 0 then
        rbind (vbitmap_iter_scan bm (iter_idx it + 1) it) (\<lambda>(it', found).
          if found then vbitmap_iter_val bm it' else Inr (it', None))
      else vbitmap_iter_val bm it)"

text \<open>The client's loop \<^verbatim>\<open>while (vbitmap_iter_next(&iter, &idx))\<close>, bounded by \<open>n\<close> rounds.\<close>

fun vbitmap_iterate :: "nat \<Rightarrow> vbitmap \<Rightarrow> vbitmap_iter \<Rightarrow> vsize list res" where
  "vbitmap_iterate 0 bm it = Inl Blocked"
| "vbitmap_iterate (Suc n) bm it =
     rbind (vbitmap_iter_next bm it) (\<lambda>(it', r). case r of None \<Rightarrow> Inr []
       | Some i \<Rightarrow> rbind (vbitmap_iterate n bm it') (\<lambda>is. Inr (i # is)))"

section \<open>The set of raised bits\<close>

definition vbitmap_wf :: "vbitmap \<Rightarrow> bool" where
  "vbitmap_wf bm \<longleftrightarrow> maps_cnt bm = VCEIL_DIV (bit_cnt bm) 64 \<and> length (maps bm) = unat (maps_cnt bm)"

definition vbitmap_bits :: "vbitmap \<Rightarrow> nat set" where
  "vbitmap_bits bm = {i. i < unat (bit_cnt bm) \<and> bit (maps bm ! (i div 64)) (i mod 64)}"

lemma ceil_64: "unat (VCEIL_DIV (n :: vsize) 64) = (unat n + 63) div 64"
  by (simp add: VCEIL_DIV_unat)

lemma ceil_64_bound: "unat (VCEIL_DIV (n :: vsize) 64) \<le> 2 ^ 58"
  using unsigned_less [of n, where 'a = nat] by (simp add: ceil_64)

lemma wf_length:
  assumes "vbitmap_wf bm"
  shows "length (maps bm) = (unat (bit_cnt bm) + 63) div 64" and "length (maps bm) \<le> 2 ^ 58"
    and "unat (maps_cnt bm) = length (maps bm)"
  using assms ceil_64_bound [of "bit_cnt bm"] by (auto simp: vbitmap_wf_def ceil_64)

lemma wf_slot: "vbitmap_wf bm \<Longrightarrow> i < unat (bit_cnt bm) \<Longrightarrow> i div 64 < length (maps bm)"
  by (simp add: wf_length less_mult_imp_div_less)

lemma unat_slot [simp]: "unat (VBITMAP_CALC_SLOT_IDX i) = unat i div 64"
  and unat_bit_slot [simp]: "unat (VBITMAP_CALC_BIT_SLOT_IDX i) = unat i mod 64"
  by (simp_all add: VBITMAP_CALC_SLOT_IDX_def VBITMAP_CALC_BIT_SLOT_IDX_def unat_div unat_mod)

lemma bit_mask_Inr: "VBITMAP_BIT_MASK i = Inr (push_bit (unat i mod 64) 1)"
  by (simp add: VBITMAP_BIT_MASK_def shl_def)

lemma le_by_slots: "(a::nat) \<le> b \<longleftrightarrow> a div 64 < b div 64 \<or> a div 64 = b div 64 \<and> a mod 64 \<le> b mod 64"
proof -
  have "a = a div 64 * 64 + a mod 64" "b = b div 64 * 64 + b mod 64" by simp_all
  moreover have "a mod 64 < 64" "b mod 64 < 64" by simp_all
  ultimately show ?thesis by linarith
qed

lemma lsb_mask_bit:
  assumes "unat idx < 64"
  obtains m where "vbitmap_lsb_mask idx = Inr m" and "\<And>n. bit m n \<longleftrightarrow> unat idx \<le> n \<and> n < 64"
proof -
  have "vbitmap_lsb_mask idx = Inr (NOT (mask (unat idx)))"
    using assms by (simp add: vbitmap_lsb_mask_def shl_def mask_eq_exp_minus_1)
  then show thesis by (rule that) (auto simp: bit_not_iff bit_mask_iff)
qed

lemma msb_mask_bit:
  assumes "unat idx < 64"
  obtains m where "vbitmap_msb_mask idx = Inr m" and "\<And>n. bit m n \<longleftrightarrow> n \<le> unat idx \<and> n < 64"
proof -
  have "(2 ^ unat idx + (2 ^ unat idx - 1) :: u64) = mask (unat idx + 1)"
    by (simp add: mask_eq_exp_minus_1)
  then have "vbitmap_msb_mask idx = Inr (mask (unat idx + 1))"
    using assms by (simp add: vbitmap_msb_mask_def shl_def)
  then show thesis by (rule that) (auto simp: bit_mask_iff)
qed

lemma range_mask_bit:
  assumes "unat from < 64" and "unat to < 64"
  obtains m where "vbitmap_range_mask from to = Inr m"
    and "\<And>n. bit m n \<longleftrightarrow> unat from \<le> n \<and> n \<le> unat to \<and> n < 64"
proof -
  obtain a where a: "vbitmap_lsb_mask from = Inr a" "\<And>n. bit a n \<longleftrightarrow> unat from \<le> n \<and> n < 64"
    using lsb_mask_bit [OF assms(1)] by blast
  obtain b where b: "vbitmap_msb_mask to = Inr b" "\<And>n. bit b n \<longleftrightarrow> n \<le> unat to \<and> n < 64"
    using msb_mask_bit [OF assms(2)] by blast
  show thesis
    by (rule that [of "b AND a"]) (use a b in \<open>auto simp: vbitmap_range_mask_def bit_and_iff\<close>)
qed

lemma write_slots_spec:
  assumes "unat hi \<le> length xs"
  shows "\<exists>ys. write_slots i hi v xs = Inr ys \<and> length ys = length xs \<and>
           (\<forall>k<length xs. ys ! k = (if unat i \<le> k \<and> k < unat hi then v else xs ! k))"
  using assms
proof (induction i hi v xs rule: write_slots.induct)
  case (1 i hi v xs)
  show ?case
  proof (cases "i < hi")
    case True
    then have i: "unat i < unat hi" and i1: "unat (i + 1) = unat i + 1"
      by (simp_all add: word_less_nat_alt unat_add_1)
    have w: "awrite xs (unat i) v = Inr (xs[unat i := v])"
      using i "1.prems" by simp
    from "1.IH" [OF True, of "xs[unat i := v]"] "1.prems"
    obtain ys where ys: "write_slots (i + 1) hi v (xs[unat i := v]) = Inr ys" "length ys = length xs"
      "\<forall>k<length xs. ys ! k = (if unat i + 1 \<le> k \<and> k < unat hi then v else xs[unat i := v] ! k)"
      by (auto simp: i1)
    have "write_slots i hi v xs = Inr ys"
      using True w ys(1) by (simp add: write_slots.simps [of i])
    moreover have "\<forall>k<length xs. ys ! k = (if unat i \<le> k \<and> k < unat hi then v else xs ! k)"
      using ys(3) i by (auto simp: nth_list_update)
    ultimately show ?thesis using ys(2) by blast
  next
    case False
    then show ?thesis by (auto simp: write_slots.simps [of i] word_less_nat_alt)
  qed
qed

lemma set_slot_run:
  "idx < maps_cnt bm \<Longrightarrow> unat idx < length (maps bm) \<Longrightarrow>
   vbitmap_set_slot bm idx m = Inr (bm\<lparr>maps := (maps bm)[unat idx := maps bm ! unat idx OR m]\<rparr>)"
  by (simp add: vbitmap_set_slot_def)

lemma clr_slot_run:
  "idx < maps_cnt bm \<Longrightarrow> unat idx < length (maps bm) \<Longrightarrow>
   vbitmap_clr_slot bm idx m = Inr (bm\<lparr>maps := (maps bm)[unat idx := maps bm ! unat idx AND m]\<rparr>)"
  by (simp add: vbitmap_clr_slot_def)

section \<open>Properties of the operations\<close>

lemma vbitmap_size_exact:
  "unat (vbitmap_size n) = 16 + 8 * ((unat n + 63) div 64)"
proof -
  have b: "(unat n + 63) div 64 \<le> 2 ^ 58" using ceil_64_bound [of n] by (simp add: ceil_64)
  show ?thesis using b
    by (simp add: vbitmap_size_def unat_word_ariths ceil_64)
qed

lemma vbitmap_init_bits:
  assumes "length (maps bm) = (unat n + 63) div 64"
  shows "\<exists>bm'. vbitmap_init bm n set_all = Inr bm' \<and> vbitmap_wf bm' \<and> bit_cnt bm' = n \<and>
               vbitmap_bits bm' = (if set_all then {..<unat n} else {})"
proof -
  have len: "unat (VCEIL_DIV n 64) = length (maps bm)" using assms by (simp add: ceil_64)
  define v where "v = (if set_all then - 1 else 0 :: u64)"
  obtain ys where ys: "write_slots 0 (VCEIL_DIV n 64) v (maps bm) = Inr ys"
    "length ys = length (maps bm)" "\<forall>k<length (maps bm). ys ! k = v"
    using write_slots_spec [of "VCEIL_DIV n 64" "maps bm" 0 v] len by auto
  let ?bm = "bm\<lparr>bit_cnt := n, maps_cnt := VCEIL_DIV n 64, maps := ys\<rparr>"
  have wf: "vbitmap_wf ?bm" using len ys(2) by (simp add: vbitmap_wf_def)
  have "vbitmap_init bm n set_all = Inr ?bm"
    using ys(1) by (simp add: vbitmap_init_def v_def)
  moreover have "vbitmap_bits ?bm = (if set_all then {..<unat n} else {})"
    using wf_slot [OF wf] ys(2,3) by (auto simp: vbitmap_bits_def v_def)
  ultimately show ?thesis using wf by auto
qed

lemma vbitmap_get_iff:
  assumes "vbitmap_wf bm" and "unat i < unat (bit_cnt bm)"
  shows "vbitmap_get bm i = Inr (unat i \<in> vbitmap_bits bm)"
proof -
  have s: "unat i div 64 < length (maps bm)" using assms by (rule wf_slot)
  with assms show ?thesis
    by (simp add: vbitmap_get_def Let_def bit_mask_Inr vbitmap_bits_def word_less_nat_alt
        wf_length(3) word_and_bit_iff del: push_bit_of_1)
qed

lemma vbitmap_get_out: "bit_cnt bm \<le> i \<Longrightarrow> vbitmap_get bm i = Inl AssertFail"
  by (simp add: vbitmap_get_def rbind_assert_fail leD)

lemma wf_update:
  "vbitmap_wf bm \<Longrightarrow> length xs = length (maps bm) \<Longrightarrow> vbitmap_wf (bm\<lparr>maps := xs\<rparr>)"
  by (simp add: vbitmap_wf_def)

lemma div_mod_64_eq: "i div 64 = j div 64 \<Longrightarrow> i mod 64 = j mod 64 \<Longrightarrow> i = (j::nat)"
  by (metis div_mult_mod_eq)

lemma vbitmap_set_bit_bits:
  assumes "vbitmap_wf bm" and "unat i < unat (bit_cnt bm)"
  shows "\<exists>bm'. vbitmap_set_bit bm i = Inr bm' \<and> vbitmap_wf bm' \<and> bit_cnt bm' = bit_cnt bm \<and>
               vbitmap_bits bm' = insert (unat i) (vbitmap_bits bm)"
proof -
  let ?s = "unat i div 64" and ?m = "push_bit (unat i mod 64) 1 :: u64"
  let ?bm = "bm\<lparr>maps := (maps bm)[?s := maps bm ! ?s OR ?m]\<rparr>"
  have s: "?s < length (maps bm)" using assms by (rule wf_slot)
  have "(maps bm ! ?s OR ?m) AND ?m = ?m"
    by (simp add: word_and_bit_iff bit_or_iff del: push_bit_of_1)
  with s assms have "vbitmap_set_bit bm i = Inr ?bm"
    by (simp add: vbitmap_set_bit_def Let_def bit_mask_Inr word_less_nat_alt wf_length(3)
        del: push_bit_of_1)
  moreover have "vbitmap_bits ?bm = insert (unat i) (vbitmap_bits bm)"
    using s assms(2)
    by (auto simp: vbitmap_bits_def nth_list_update bit_or_iff simp del: push_bit_of_1
        dest: div_mod_64_eq)
  ultimately show ?thesis using wf_update [OF assms(1)] by simp
qed

lemma vbitmap_clr_bit_bits:
  assumes "vbitmap_wf bm" and "unat i < unat (bit_cnt bm)"
  shows "\<exists>bm'. vbitmap_clr_bit bm i = Inr bm' \<and> vbitmap_wf bm' \<and> bit_cnt bm' = bit_cnt bm \<and>
               vbitmap_bits bm' = vbitmap_bits bm - {unat i}"
proof -
  let ?s = "unat i div 64" and ?m = "push_bit (unat i mod 64) 1 :: u64"
  let ?bm = "bm\<lparr>maps := (maps bm)[?s := maps bm ! ?s AND NOT ?m]\<rparr>"
  have s: "?s < length (maps bm)" using assms by (rule wf_slot)
  have "(maps bm ! ?s AND NOT ?m) AND ?m = 0"
    by (rule bit_word_eqI) (simp add: bit_and_iff bit_not_iff del: push_bit_of_1)
  with s assms have "vbitmap_clr_bit bm i = Inr ?bm"
    by (simp add: vbitmap_clr_bit_def Let_def bit_mask_Inr word_less_nat_alt wf_length(3)
        del: push_bit_of_1)
  moreover have "vbitmap_bits ?bm = vbitmap_bits bm - {unat i}"
    using s by (auto simp: vbitmap_bits_def nth_list_update bit_and_iff bit_not_iff
        simp del: push_bit_of_1 dest: div_mod_64_eq)
  ultimately show ?thesis using wf_update [OF assms(1)] by simp
qed

text \<open>Both range operations, slot by slot: what every bit of the array is afterwards.\<close>

lemma set_range_slots:
  assumes "vbitmap_wf bm" and "from \<le> to" and "to < bit_cnt bm"
  shows "\<exists>xs. vbitmap_set_range bm from to = Inr (bm\<lparr>maps := xs\<rparr>) \<and> length xs = length (maps bm) \<and>
    (\<forall>k<length xs. \<forall>n<64. bit (xs ! k) n \<longleftrightarrow> bit (maps bm ! k) n \<or>
       (unat from div 64 < k \<or> unat from div 64 = k \<and> unat from mod 64 \<le> n) \<and>
       (k < unat to div 64 \<or> k = unat to div 64 \<and> n \<le> unat to mod 64))"
proof -
  let ?F = "VBITMAP_CALC_SLOT_IDX from" and ?T = "VBITMAP_CALC_SLOT_IDX to"
  have ft: "unat from \<le> unat to" using assms(2) by (simp add: word_le_nat_alt)
  have t: "unat to div 64 < length (maps bm)"
    using assms(1,3) by (simp add: wf_slot word_less_nat_alt)
  have FT: "?F \<le> ?T" using ft by (simp add: word_le_nat_alt div_le_mono)
  then have f: "unat from div 64 < length (maps bm)" using t by (simp add: word_le_nat_alt)
  have cnt: "?T < maps_cnt bm" "?F < maps_cnt bm"
    using t f by (simp_all add: word_less_nat_alt wf_length(3) [OF assms(1)])
  show ?thesis
  proof (cases "?F = ?T")
    case True
    then have eq: "unat from div 64 = unat to div 64" by (metis unat_slot)
    obtain m where m: "vbitmap_range_mask (VBITMAP_CALC_BIT_SLOT_IDX from) (VBITMAP_CALC_BIT_SLOT_IDX to) = Inr m"
      "\<And>n. bit m n \<longleftrightarrow> unat from mod 64 \<le> n \<and> n \<le> unat to mod 64 \<and> n < 64"
      by (rule range_mask_bit [of "VBITMAP_CALC_BIT_SLOT_IDX from" "VBITMAP_CALC_BIT_SLOT_IDX to"]) auto
    let ?xs = "(maps bm)[unat from div 64 := maps bm ! (unat from div 64) OR m]"
    have "vbitmap_set_range bm from to = Inr (bm\<lparr>maps := ?xs\<rparr>)"
      using assms True m(1) cnt t eq by (simp add: vbitmap_set_range_def Let_def set_slot_run)
    then show ?thesis
      using f eq by (intro exI [of _ ?xs]) (auto simp: nth_list_update bit_or_iff m(2))
  next
    case False
    then have lt: "?F < ?T" using FT by simp
    obtain a where a: "vbitmap_lsb_mask (VBITMAP_CALC_BIT_SLOT_IDX from) = Inr a"
      "\<And>n. bit a n \<longleftrightarrow> unat from mod 64 \<le> n \<and> n < 64"
      by (rule lsb_mask_bit [of "VBITMAP_CALC_BIT_SLOT_IDX from"]) auto
    obtain b where b: "vbitmap_msb_mask (VBITMAP_CALC_BIT_SLOT_IDX to) = Inr b"
      "\<And>n. bit b n \<longleftrightarrow> n \<le> unat to mod 64 \<and> n < 64"
      by (rule msb_mask_bit [of "VBITMAP_CALC_BIT_SLOT_IDX to"]) auto
    let ?xs1 = "(maps bm)[unat from div 64 := maps bm ! (unat from div 64) OR a]"
    have F1: "unat (?F + 1) = unat from div 64 + 1" using unat_add_1 [OF lt] by simp
    obtain ys where ys: "write_slots (?F + 1) ?T (- 1) ?xs1 = Inr ys" "length ys = length (maps bm)"
      "\<forall>k<length (maps bm). ys ! k = (if unat from div 64 + 1 \<le> k \<and> k < unat to div 64 then - 1 else ?xs1 ! k)"
      using write_slots_spec [of ?T ?xs1 "?F + 1" "- 1"] t by (auto simp: F1)
    let ?xs = "ys[unat to div 64 := ys ! (unat to div 64) OR b]"
    have "vbitmap_set_range bm from to = Inr (bm\<lparr>maps := ?xs\<rparr>)"
      using assms False FT a(1) b(1) cnt f t ys(1,2)
      by (simp add: vbitmap_set_range_def Let_def set_slot_run)
    then show ?thesis
      using f t ys lt
      by (intro exI [of _ ?xs])
         (auto simp: nth_list_update bit_or_iff a(2) b(2) word_less_nat_alt)
  qed
qed

lemma clr_range_slots:
  assumes "vbitmap_wf bm" and "from \<le> to" and "to < bit_cnt bm"
  shows "\<exists>xs. vbitmap_clr_range bm from to = Inr (bm\<lparr>maps := xs\<rparr>) \<and> length xs = length (maps bm) \<and>
    (\<forall>k<length xs. \<forall>n<64. bit (xs ! k) n \<longleftrightarrow> bit (maps bm ! k) n \<and> \<not> (
       (unat from div 64 < k \<or> unat from div 64 = k \<and> unat from mod 64 \<le> n) \<and>
       (k < unat to div 64 \<or> k = unat to div 64 \<and> n \<le> unat to mod 64)))"
proof -
  let ?F = "VBITMAP_CALC_SLOT_IDX from" and ?T = "VBITMAP_CALC_SLOT_IDX to"
  have ft: "unat from \<le> unat to" using assms(2) by (simp add: word_le_nat_alt)
  have t: "unat to div 64 < length (maps bm)"
    using assms(1,3) by (simp add: wf_slot word_less_nat_alt)
  have FT: "?F \<le> ?T" using ft by (simp add: word_le_nat_alt div_le_mono)
  then have f: "unat from div 64 < length (maps bm)" using t by (simp add: word_le_nat_alt)
  have cnt: "?T < maps_cnt bm" "?F < maps_cnt bm"
    using t f by (simp_all add: word_less_nat_alt wf_length(3) [OF assms(1)])
  show ?thesis
  proof (cases "?F = ?T")
    case True
    then have eq: "unat from div 64 = unat to div 64" by (metis unat_slot)
    obtain m where m: "vbitmap_range_mask (VBITMAP_CALC_BIT_SLOT_IDX from) (VBITMAP_CALC_BIT_SLOT_IDX to) = Inr m"
      "\<And>n. bit m n \<longleftrightarrow> unat from mod 64 \<le> n \<and> n \<le> unat to mod 64 \<and> n < 64"
      by (rule range_mask_bit [of "VBITMAP_CALC_BIT_SLOT_IDX from" "VBITMAP_CALC_BIT_SLOT_IDX to"]) auto
    let ?xs = "(maps bm)[unat from div 64 := maps bm ! (unat from div 64) AND NOT m]"
    have "vbitmap_clr_range bm from to = Inr (bm\<lparr>maps := ?xs\<rparr>)"
      using assms True m(1) cnt t eq by (simp add: vbitmap_clr_range_def Let_def clr_slot_run)
    then show ?thesis
      using f eq by (intro exI [of _ ?xs]) (auto simp: nth_list_update bit_and_iff bit_not_iff m(2))
  next
    case False
    then have lt: "?F < ?T" using FT by simp
    obtain a where a: "vbitmap_lsb_mask (VBITMAP_CALC_BIT_SLOT_IDX from) = Inr a"
      "\<And>n. bit a n \<longleftrightarrow> unat from mod 64 \<le> n \<and> n < 64"
      by (rule lsb_mask_bit [of "VBITMAP_CALC_BIT_SLOT_IDX from"]) auto
    obtain b where b: "vbitmap_msb_mask (VBITMAP_CALC_BIT_SLOT_IDX to) = Inr b"
      "\<And>n. bit b n \<longleftrightarrow> n \<le> unat to mod 64 \<and> n < 64"
      by (rule msb_mask_bit [of "VBITMAP_CALC_BIT_SLOT_IDX to"]) auto
    let ?xs1 = "(maps bm)[unat from div 64 := maps bm ! (unat from div 64) AND NOT a]"
    have F1: "unat (?F + 1) = unat from div 64 + 1" using unat_add_1 [OF lt] by simp
    obtain ys where ys: "write_slots (?F + 1) ?T 0 ?xs1 = Inr ys" "length ys = length (maps bm)"
      "\<forall>k<length (maps bm). ys ! k = (if unat from div 64 + 1 \<le> k \<and> k < unat to div 64 then 0 else ?xs1 ! k)"
      using write_slots_spec [of ?T ?xs1 "?F + 1" 0] t by (auto simp: F1)
    let ?xs = "ys[unat to div 64 := ys ! (unat to div 64) AND NOT b]"
    have "vbitmap_clr_range bm from to = Inr (bm\<lparr>maps := ?xs\<rparr>)"
      using assms False FT a(1) b(1) cnt f t ys(1,2)
      by (simp add: vbitmap_clr_range_def Let_def clr_slot_run)
    then show ?thesis
      using f t ys lt
      by (intro exI [of _ ?xs])
         (auto simp: nth_list_update bit_and_iff bit_not_iff a(2) b(2) word_less_nat_alt)
  qed
qed


text \<open>\<^verbatim>\<open>vbitmap_set_range\<close> succeeds on every valid range, within one slot or across
  many, and adds exactly the bits of the range to the raised ones.\<close>

lemma vbitmap_set_range_bits:
  assumes "vbitmap_wf bm" and "from \<le> to" and "to < bit_cnt bm"
  shows "\<exists>bm'. vbitmap_set_range bm from to = Inr bm' \<and> vbitmap_wf bm' \<and> bit_cnt bm' = bit_cnt bm \<and>
               vbitmap_bits bm' = vbitmap_bits bm \<union> {unat from..unat to}"
proof -
  obtain xs where xs: "vbitmap_set_range bm from to = Inr (bm\<lparr>maps := xs\<rparr>)" "length xs = length (maps bm)"
    and b: "\<forall>k<length xs. \<forall>n<64. bit (xs ! k) n \<longleftrightarrow> bit (maps bm ! k) n \<or>
       (unat from div 64 < k \<or> unat from div 64 = k \<and> unat from mod 64 \<le> n) \<and>
       (k < unat to div 64 \<or> k = unat to div 64 \<and> n \<le> unat to mod 64)"
    using set_range_slots [OF assms] by blast
  have "bit (xs ! (i div 64)) (i mod 64) \<longleftrightarrow>
      bit (maps bm ! (i div 64)) (i mod 64) \<or> unat from \<le> i \<and> i \<le> unat to"
    if "i < unat (bit_cnt bm)" for i
    using b wf_slot [OF assms(1) that] xs(2) le_by_slots [of "unat from" i] le_by_slots [of i "unat to"]
    by auto
  then have "vbitmap_bits (bm\<lparr>maps := xs\<rparr>) = vbitmap_bits bm \<union> {unat from..unat to}"
    using assms(3) by (auto simp: vbitmap_bits_def word_less_nat_alt)
  with xs show ?thesis using wf_update [OF assms(1)] by simp
qed

text \<open>\<^verbatim>\<open>vbitmap_clr_range\<close> succeeds on every valid range and removes exactly the bits of
  the range.\<close>

lemma vbitmap_clr_range_bits:
  assumes "vbitmap_wf bm" and "from \<le> to" and "to < bit_cnt bm"
  shows "\<exists>bm'. vbitmap_clr_range bm from to = Inr bm' \<and> vbitmap_wf bm' \<and> bit_cnt bm' = bit_cnt bm \<and>
               vbitmap_bits bm' = vbitmap_bits bm - {unat from..unat to}"
proof -
  obtain xs where xs: "vbitmap_clr_range bm from to = Inr (bm\<lparr>maps := xs\<rparr>)" "length xs = length (maps bm)"
    and b: "\<forall>k<length xs. \<forall>n<64. bit (xs ! k) n \<longleftrightarrow> bit (maps bm ! k) n \<and> \<not> (
       (unat from div 64 < k \<or> unat from div 64 = k \<and> unat from mod 64 \<le> n) \<and>
       (k < unat to div 64 \<or> k = unat to div 64 \<and> n \<le> unat to mod 64))"
    using clr_range_slots [OF assms] by blast
  have "bit (xs ! (i div 64)) (i mod 64) \<longleftrightarrow>
      bit (maps bm ! (i div 64)) (i mod 64) \<and> \<not> (unat from \<le> i \<and> i \<le> unat to)"
    if "i < unat (bit_cnt bm)" for i
    using b wf_slot [OF assms(1) that] xs(2) le_by_slots [of "unat from" i] le_by_slots [of i "unat to"]
    by auto
  then have "vbitmap_bits (bm\<lparr>maps := xs\<rparr>) = vbitmap_bits bm - {unat from..unat to}"
    by (auto simp: vbitmap_bits_def)
  with xs show ?thesis using wf_update [OF assms(1)] by simp
qed

section \<open>Iteration\<close>

text \<open>What an iterator has still to report: the bits left in its copy of the current slot, and the
  bits of the later slots.\<close>

definition iter_pending :: "vbitmap \<Rightarrow> vbitmap_iter \<Rightarrow> nat set" where
  "iter_pending bm it = {i. i < unat (bit_cnt bm) \<and>
     (i div 64 = unat (iter_idx it) \<and> bit (last_val it) (i mod 64) \<or>
      unat (iter_idx it) < i div 64 \<and> bit (maps bm ! (i div 64)) (i mod 64))}"

definition iter_ok :: "vbitmap \<Rightarrow> vbitmap_iter \<Rightarrow> bool" where
  "iter_ok bm it \<longleftrightarrow> vbitmap_wf bm \<and> unat (iter_idx it) < length (maps bm)"

lemma iter_scan_spec:
  assumes "vbitmap_wf bm" and "iter_ok bm it" and "last_val it = 0"
    and "unat (iter_idx it) < unat idx" and "unat idx \<le> length (maps bm)"
    and "\<forall>k. unat (iter_idx it) < k \<and> k < unat idx \<longrightarrow> maps bm ! k = 0"
  shows "\<exists>it' found. vbitmap_iter_scan bm idx it = Inr (it', found) \<and> iter_ok bm it' \<and>
           iter_pending bm it' = iter_pending bm it \<and> (found \<longrightarrow> last_val it' \<noteq> 0) \<and>
           (\<not> found \<longrightarrow> iter_pending bm it = {})"
  using assms
proof (induction bm idx it rule: vbitmap_iter_scan.induct)
  case (1 bm idx it)
  show ?case
  proof (cases "idx < maps_cnt bm")
    case True
    then have i: "unat idx < length (maps bm)" and i1: "unat (idx + 1) = unat idx + 1"
      using wf_length(3) [OF "1.prems"(1)] unat_add_1 [OF True] by (simp_all add: word_less_nat_alt)
    let ?v = "maps bm ! unat idx"
    have rd: "aread (maps bm) (unat idx) = Inr ?v" using i by simp
    show ?thesis
    proof (cases "?v = 0")
      case False
      let ?it = "it\<lparr>last_val := ?v, iter_idx := idx\<rparr>"
      have "iter_pending bm ?it = iter_pending bm it"
        using "1.prems"(3,4,6) unfolding iter_pending_def
        by (auto simp: not_less_iff_gr_or_eq)
      moreover have "vbitmap_iter_scan bm idx it = Inr (?it, True)"
        using True rd False by (simp add: vbitmap_iter_scan.simps [of bm idx])
      ultimately show ?thesis
        using False i "1.prems"(1) by (auto simp: iter_ok_def)
    next
      case zero: True
      let ?it = "it\<lparr>last_val := ?v\<rparr>"
      have it: "?it = it" using zero "1.prems"(3) by simp
      have "\<forall>k. unat (iter_idx it) < k \<and> k < unat (idx + 1) \<longrightarrow> maps bm ! k = 0"
        using "1.prems"(6) zero by (auto simp: i1 less_Suc_eq)
      then have "\<exists>it' found. vbitmap_iter_scan bm (idx + 1) ?it = Inr (it', found) \<and> iter_ok bm it' \<and>
           iter_pending bm it' = iter_pending bm ?it \<and> (found \<longrightarrow> last_val it' \<noteq> 0) \<and>
           (\<not> found \<longrightarrow> iter_pending bm ?it = {})"
        using "1.IH" [of ?v] "1.prems" True zero i i1 it by (simp add: iter_ok_def)
      moreover have "vbitmap_iter_scan bm idx it = vbitmap_iter_scan bm (idx + 1) ?it"
        using True rd zero by (simp add: vbitmap_iter_scan.simps [of bm idx])
      ultimately show ?thesis by (simp only: it)
    qed
  next
    case False
    then have n: "unat idx = length (maps bm)"
      using "1.prems"(1,5) wf_length(3) [OF "1.prems"(1)] by (simp add: word_less_nat_alt)
    have "iter_pending bm it = {}"
      using "1.prems"(3,6) n wf_slot [OF "1.prems"(1)] by (auto simp: iter_pending_def)
    then show ?thesis
      using False "1.prems"(2) by (auto simp: vbitmap_iter_scan.simps [of bm idx])
  qed
qed

lemma unat_out_idx:
  assumes "unat idx < 2 ^ 58" and "n < 64"
  shows "unat (64 * idx + of_nat n :: u64) = 64 * unat idx + n"
  using assms by (simp add: unat_word_ariths unat_of_nat take_bit_nat_eq_self)

lemma iter_val_spec:
  assumes "iter_ok bm it" and "last_val it \<noteq> 0"
  shows "\<exists>it' r. vbitmap_iter_val bm it = Inr (it', r) \<and> iter_ok bm it' \<and>
    (case r of None \<Rightarrow> iter_pending bm it = {}
     | Some i \<Rightarrow> unat i \<in> iter_pending bm it \<and> (\<forall>j\<in>iter_pending bm it. unat i \<le> j) \<and>
                 iter_pending bm it' = iter_pending bm it - {unat i})"
proof -
  obtain n where c: "ctz (last_val it) = Inr n" using ctz_total [OF assms(2)] by blast
  then have n: "bit (last_val it) n" "\<forall>i<n. \<not> bit (last_val it) i" by (simp_all add: ctz_Inr_iff)
  then have n64: "n < 64" using bit_imp_le_length by fastforce
  have i58: "unat (iter_idx it) < 2 ^ 58"
    using assms(1) wf_length(2) [of bm] by (auto simp: iter_ok_def)
  let ?o = "64 * iter_idx it + of_nat n :: vsize"
  have o: "unat ?o = 64 * unat (iter_idx it) + n" by (rule unat_out_idx [OF i58 n64])
  have od: "unat ?o div 64 = unat (iter_idx it)" and om: "unat ?o mod 64 = n"
    using n64 by (simp_all add: o)
  have least: "unat ?o \<le> j" if "j \<in> iter_pending bm it" for j
    using that n(2) le_by_slots [of "unat ?o" j] by (auto simp: iter_pending_def od om not_less)
  show ?thesis
  proof (cases "?o \<ge> bit_cnt bm")
    case True
    then have "iter_pending bm it = {}"
      using least by (force simp: iter_pending_def word_le_nat_alt)
    with True assms(1) c show ?thesis by (simp add: vbitmap_iter_val_def Let_def)
  next
    case False
    let ?it = "it\<lparr>last_val := last_val it AND NOT (push_bit n 1)\<rparr>"
    have "VBITMAP_BIT_MASK (of_nat n) = Inr (push_bit n 1)"
      using n64 by (simp add: bit_mask_Inr unat_of_nat_small)
    then have run: "vbitmap_iter_val bm it = Inr (?it, Some ?o)"
      using False c by (simp add: vbitmap_iter_val_def Let_def del: push_bit_of_1)
    have "unat ?o \<in> iter_pending bm it"
      using False n(1) by (simp add: iter_pending_def od om word_le_nat_alt)
    moreover have "iter_pending bm ?it = iter_pending bm it - {unat ?o}"
    proof (rule set_eqI)
      fix j
      have "j = unat ?o \<longleftrightarrow> j div 64 = unat (iter_idx it) \<and> j mod 64 = n"
        using div_mod_64_eq [of j "unat ?o"] od om by metis
      then show "j \<in> iter_pending bm ?it \<longleftrightarrow> j \<in> iter_pending bm it - {unat ?o}"
        using n64 by (auto simp: iter_pending_def bit_and_iff bit_not_iff simp del: push_bit_of_1)
    qed
    ultimately show ?thesis using run least assms(1) by (auto simp: iter_ok_def)
  qed
qed

lemma vbitmap_iter_next_spec:
  assumes "iter_ok bm it"
  shows "\<exists>it' r. vbitmap_iter_next bm it = Inr (it', r) \<and> iter_ok bm it' \<and>
    (case r of None \<Rightarrow> iter_pending bm it = {}
     | Some i \<Rightarrow> unat i \<in> iter_pending bm it \<and> (\<forall>j\<in>iter_pending bm it. unat i \<le> j) \<and>
                 iter_pending bm it' = iter_pending bm it - {unat i})"
proof (cases "last_val it = 0")
  case True
  have wf: "vbitmap_wf bm" and l: "unat (iter_idx it) < length (maps bm)"
    using assms by (simp_all add: iter_ok_def)
  have "iter_idx it < maps_cnt bm" using l wf_length(3) [OF wf] by (simp add: word_less_nat_alt)
  then have i1: "unat (iter_idx it + 1) = unat (iter_idx it) + 1" by (rule unat_add_1)
  have "\<forall>k. unat (iter_idx it) < k \<and> k < unat (iter_idx it + 1) \<longrightarrow> maps bm ! k = 0"
    by (auto simp: i1)
  then obtain it' found where sc: "vbitmap_iter_scan bm (iter_idx it + 1) it = Inr (it', found)"
    "iter_ok bm it'" "iter_pending bm it' = iter_pending bm it" "found \<longrightarrow> last_val it' \<noteq> 0"
    "\<not> found \<longrightarrow> iter_pending bm it = {}"
    using iter_scan_spec [OF wf assms True, of "iter_idx it + 1"] l by (auto simp: i1)
  show ?thesis
  proof (cases found)
    case True
    with sc(1,4) iter_val_spec [OF sc(2), unfolded sc(3)] \<open>last_val it = 0\<close> show ?thesis
      by (simp add: vbitmap_iter_next_def)
  next
    case False
    with sc True show ?thesis by (auto simp: vbitmap_iter_next_def)
  qed
next
  case False
  with iter_val_spec [OF assms] show ?thesis by (simp add: vbitmap_iter_next_def)
qed

lemma finite_pending [simp]: "finite (iter_pending bm it)"
  by (rule finite_subset [of _ "{..<unat (bit_cnt bm)}"]) (auto simp: iter_pending_def)

lemma iterate_pending:
  assumes "iter_ok bm it" and "card (iter_pending bm it) < n"
  shows "\<exists>is. vbitmap_iterate n bm it = Inr is \<and> map unat is = sorted_list_of_set (iter_pending bm it)"
  using assms
proof (induction n arbitrary: it)
  case (Suc n)
  obtain it' r where nx: "vbitmap_iter_next bm it = Inr (it', r)" "iter_ok bm it'"
    and r: "case r of None \<Rightarrow> iter_pending bm it = {}
     | Some i \<Rightarrow> unat i \<in> iter_pending bm it \<and> (\<forall>j\<in>iter_pending bm it. unat i \<le> j) \<and>
                 iter_pending bm it' = iter_pending bm it - {unat i}"
    using vbitmap_iter_next_spec [OF Suc.prems(1)] by blast
  show ?case
  proof (cases r)
    case None
    with nx r show ?thesis by simp
  next
    case (Some i)
    with r have i: "unat i \<in> iter_pending bm it" "\<forall>j\<in>iter_pending bm it. unat i \<le> j"
      "iter_pending bm it' = iter_pending bm it - {unat i}" by simp_all
    have "card (iter_pending bm it') < n"
      using Suc.prems(2) card_Diff1_less [OF finite_pending i(1)] i(3) by simp
    then obtain js where js: "vbitmap_iterate n bm it' = Inr js"
      "map unat js = sorted_list_of_set (iter_pending bm it')"
      using Suc.IH [OF nx(2)] by blast
    have "Min (iter_pending bm it) = unat i" using i(1,2) by (intro Min_eqI) auto
    then have "sorted_list_of_set (iter_pending bm it) = unat i # sorted_list_of_set (iter_pending bm it')"
      using i(1,3) sorted_list_of_set_nonempty [of "iter_pending bm it"] by auto
    with Some nx js show ?thesis by simp
  qed
qed simp

text \<open>C30: iterating a non-empty bitmap with \<^verbatim>\<open>vbitmap_iter_init\<close> and
  \<^verbatim>\<open>vbitmap_iter_next\<close> until it returns false reports the raised bits, each once, in
  ascending order, and ends.\<close>

lemma vbitmap_iterate_bits:
  assumes "vbitmap_wf bm" and "bit_cnt bm \<noteq> 0"
  shows "\<exists>it is. vbitmap_iter_init bm = Inr it \<and> vbitmap_iterate (unat (bit_cnt bm) + 1) bm it = Inr is \<and>
                 map unat is = sorted_list_of_set (vbitmap_bits bm)"
proof -
  have b0: "0 < unat (bit_cnt bm)" using assms(2) by (simp add: unat_gt_0)
  have l: "0 < length (maps bm)" using wf_slot [OF assms(1) b0] by simp
  let ?it = "\<lparr>iter_idx = 0, last_val = maps bm ! 0\<rparr>"
  have "maps_cnt bm > 0" using l wf_length(3) [OF assms(1)] by (simp add: word_less_nat_alt)
  then have init: "vbitmap_iter_init bm = Inr ?it" using l by (simp add: vbitmap_iter_init_def)
  have p: "iter_pending bm ?it = vbitmap_bits bm"
  proof (rule set_eqI)
    show "i \<in> iter_pending bm ?it \<longleftrightarrow> i \<in> vbitmap_bits bm" for i
      by (cases "i div 64 = 0") (auto simp: iter_pending_def vbitmap_bits_def)
  qed
  have "vbitmap_bits bm \<subseteq> {..<unat (bit_cnt bm)}" by (auto simp: vbitmap_bits_def)
  from card_mono [OF _ this] have "card (iter_pending bm ?it) < unat (bit_cnt bm) + 1"
    by (simp add: p)
  then show ?thesis
    using iterate_pending [of bm ?it "unat (bit_cnt bm) + 1"] init l assms(1)
    by (simp add: iter_ok_def p)
qed

lemma vbitmap_iterate_bits_witness:
  "\<exists>it is. vbitmap_iter_init \<lparr>maps_cnt = 2, bit_cnt = 70, maps = [9, 4]\<rparr> = Inr it \<and>
     vbitmap_iterate 71 \<lparr>maps_cnt = 2, bit_cnt = 70, maps = [9, 4]\<rparr> it = Inr is \<and>
     map unat is = sorted_list_of_set (vbitmap_bits \<lparr>maps_cnt = 2, bit_cnt = 70, maps = [9, 4]\<rparr>)"
  using vbitmap_iterate_bits [of "\<lparr>maps_cnt = 2, bit_cnt = 70, maps = [9, 4]\<rparr>"]
  by (simp add: vbitmap_wf_def VCEIL_DIV_def)

end
