(* ===== verification/Vatomic.thy ===== *)
theory Vatomic
  imports Vsync_Prelude
begin

text \<open>
  The atomic operations of \<^verbatim>\<open>vatomic\<close> (\<^verbatim>\<open>internal/builtins.h\<close>,
  \<^verbatim>\<open>internal/fallback.h\<close>). The generated code repeats every operation for each width (8, 16,
  32, 64 bits, \<^verbatim>\<open>vsize_t\<close>, pointers) and each memory order (\<^verbatim>\<open>_acq\<close>,
  \<^verbatim>\<open>_rel\<close>, \<^verbatim>\<open>_rlx\<close>); here one polymorphic definition stands for all of them: the
  model is sequentially consistent.

  A single access takes the value of the cell and gives the returned value and the new value of the
  cell. The loops of \<^verbatim>\<open>fallback.h\<close> are small programs: a program counter with the locals that
  are live, and a function that makes one access. The locale \<open>atomic_update\<close> states what such a
  loop promises its callers under arbitrary interference between its accesses, and every loop of
  the file is interpreted as an instance.
\<close>

section \<open>Single accesses\<close>

definition vatomic_read :: "'a \<Rightarrow> 'a" where
  "vatomic_read a = a"

definition vatomic_write :: "'a \<Rightarrow> 'a \<Rightarrow> 'a" where
  "vatomic_write a v = v"

definition vatomic_xchg :: "'a \<Rightarrow> 'a \<Rightarrow> 'a \<times> 'a" where
  "vatomic_xchg a v = (a, v)"

definition vatomic_cmpxchg :: "'a \<Rightarrow> 'a \<Rightarrow> 'a \<Rightarrow> 'a \<times> 'a" where
  "vatomic_cmpxchg a e v = (a, if a = e then v else a)"

definition vatomic_get_and :: "'a::len word \<Rightarrow> 'a word \<Rightarrow> 'a word \<times> 'a word" where
  "vatomic_get_and a v = (a, a AND v)"

definition vatomic_get_or :: "'a::len word \<Rightarrow> 'a word \<Rightarrow> 'a word \<times> 'a word" where
  "vatomic_get_or a v = (a, a OR v)"

definition vatomic_get_xor :: "'a::len word \<Rightarrow> 'a word \<Rightarrow> 'a word \<times> 'a word" where
  "vatomic_get_xor a v = (a, a XOR v)"

definition vatomic_get_add :: "'a::len word \<Rightarrow> 'a word \<Rightarrow> 'a word \<times> 'a word" where
  "vatomic_get_add a v = (a, a + v)"

definition vatomic_get_sub :: "'a::len word \<Rightarrow> 'a word \<Rightarrow> 'a word \<times> 'a word" where
  "vatomic_get_sub a v = (a, a - v)"

section \<open>Operations derived from one access\<close>

definition vatomic_and_get :: "'a::len word \<Rightarrow> 'a word \<Rightarrow> 'a word \<times> 'a word" where
  "vatomic_and_get a v = (let (o1, a') = vatomic_get_and a v in (o1 AND v, a'))"

definition vatomic_and :: "'a::len word \<Rightarrow> 'a word \<Rightarrow> 'a word" where
  "vatomic_and a v = snd (vatomic_get_and a v)"

definition vatomic_or_get :: "'a::len word \<Rightarrow> 'a word \<Rightarrow> 'a word \<times> 'a word" where
  "vatomic_or_get a v = (let (o1, a') = vatomic_get_or a v in (o1 OR v, a'))"

definition vatomic_or :: "'a::len word \<Rightarrow> 'a word \<Rightarrow> 'a word" where
  "vatomic_or a v = snd (vatomic_get_or a v)"

definition vatomic_xor_get :: "'a::len word \<Rightarrow> 'a word \<Rightarrow> 'a word \<times> 'a word" where
  "vatomic_xor_get a v = (let (o1, a') = vatomic_get_xor a v in (o1 XOR v, a'))"

definition vatomic_xor :: "'a::len word \<Rightarrow> 'a word \<Rightarrow> 'a word" where
  "vatomic_xor a v = snd (vatomic_get_xor a v)"

definition vatomic_add_get :: "'a::len word \<Rightarrow> 'a word \<Rightarrow> 'a word \<times> 'a word" where
  "vatomic_add_get a v = (let (o1, a') = vatomic_get_add a v in (o1 + v, a'))"

definition vatomic_add :: "'a::len word \<Rightarrow> 'a word \<Rightarrow> 'a word" where
  "vatomic_add a v = snd (vatomic_get_add a v)"

definition vatomic_get_inc :: "'a::len word \<Rightarrow> 'a word \<times> 'a word" where
  "vatomic_get_inc a = vatomic_get_add a 1"

definition vatomic_inc_get :: "'a::len word \<Rightarrow> 'a word \<times> 'a word" where
  "vatomic_inc_get a = vatomic_add_get a 1"

definition vatomic_inc :: "'a::len word \<Rightarrow> 'a word" where
  "vatomic_inc a = snd (vatomic_get_inc a)"

definition vatomic_sub_get :: "'a::len word \<Rightarrow> 'a word \<Rightarrow> 'a word \<times> 'a word" where
  "vatomic_sub_get a v = (let (o1, a') = vatomic_get_sub a v in (o1 - v, a'))"

definition vatomic_sub :: "'a::len word \<Rightarrow> 'a word \<Rightarrow> 'a word" where
  "vatomic_sub a v = snd (vatomic_get_sub a v)"

definition vatomic_get_dec :: "'a::len word \<Rightarrow> 'a word \<times> 'a word" where
  "vatomic_get_dec a = vatomic_get_sub a 1"

definition vatomic_dec_get :: "'a::len word \<Rightarrow> 'a word \<times> 'a word" where
  "vatomic_dec_get a = vatomic_sub_get a 1"

definition vatomic_dec :: "'a::len word \<Rightarrow> 'a word" where
  "vatomic_dec a = snd (vatomic_get_dec a)"

definition vatomic_init :: "'a \<Rightarrow> 'a \<Rightarrow> 'a" where
  "vatomic_init a v = vatomic_write a v"

lemmas vatomic_defs [vsync_simps] =
  vatomic_read_def vatomic_write_def vatomic_xchg_def vatomic_cmpxchg_def
  vatomic_get_and_def vatomic_get_or_def vatomic_get_xor_def vatomic_get_add_def vatomic_get_sub_def
  vatomic_and_get_def vatomic_and_def vatomic_or_get_def vatomic_or_def vatomic_xor_get_def
  vatomic_xor_def vatomic_add_get_def vatomic_add_def vatomic_get_inc_def vatomic_inc_get_def
  vatomic_inc_def vatomic_sub_get_def vatomic_sub_def vatomic_get_dec_def vatomic_dec_get_def
  vatomic_dec_def vatomic_init_def

section \<open>Loops\<close>

text \<open>One access of a loop ends at the next program counter or returns from the loop.\<close>

datatype ('l, 'r) ctl = Goto 'l | Ret 'r

type_synonym ('p, 'l, 'x) prog = "'p \<Rightarrow> 'l \<Rightarrow> ('p, 'x) ctl \<times> 'l"

text \<open>\<^verbatim>\<open>vatomic_get_max\<close>: a compare-and-swap loop that stops early when the cell is large enough.\<close>

datatype 'w get_max_pc = GM_read | GM_cmpxchg 'w

definition get_max_next :: "'a::len word \<Rightarrow> 'a word \<Rightarrow> ('a word get_max_pc, 'a word) ctl" where
  "get_max_next old v = (if old \<ge> v then Ret old else Goto (GM_cmpxchg old))"

fun vatomic_get_max :: "'a::len word \<Rightarrow> 'a word get_max_pc \<Rightarrow> 'a word \<Rightarrow>
    ('a word get_max_pc, 'a word) ctl \<times> 'a word" where
  "vatomic_get_max v GM_read a = (get_max_next (vatomic_read a) v, a)"
| "vatomic_get_max v (GM_cmpxchg old) a =
     (let (cur, a') = vatomic_cmpxchg a old v
      in (if cur \<noteq> old then get_max_next cur v else Ret old, a'))"

definition vatomic_max_get :: "'a::len word \<Rightarrow> 'a word get_max_pc \<Rightarrow> 'a word \<Rightarrow>
    ('a word get_max_pc, 'a word) ctl \<times> 'a word" where
  "vatomic_max_get v l a =
     (let (r, a') = vatomic_get_max v l a in (map_ctl id (\<lambda>o1. if o1 \<ge> v then o1 else v) r, a'))"

definition vatomic_max :: "'a::len word \<Rightarrow> 'a word get_max_pc \<Rightarrow> 'a word \<Rightarrow>
    ('a word get_max_pc, unit) ctl \<times> 'a word" where
  "vatomic_max v l a = (let (r, a') = vatomic_get_max v l a in (map_ctl id (\<lambda>_. ()) r, a'))"

text \<open>
  \<^verbatim>\<open>vatomic_await_neq\<close>: read until the value is not \<open>c\<close>, return the value read.
  \<^verbatim>\<open>vatomic_await_eq\<close>: read until the value is \<open>c\<close>; its local \<^verbatim>\<open>ret\<close> starts as \<open>c\<close>
  and keeps the last value that was different.
\<close>

definition vatomic_await_neq :: "'a \<Rightarrow> 'a \<Rightarrow> (unit, 'a) ctl" where
  "vatomic_await_neq c a = (let cur = vatomic_read a in if cur = c then Goto () else Ret cur)"

definition vatomic_await_eq :: "'a \<Rightarrow> 'a \<Rightarrow> 'a \<Rightarrow> ('a, 'a) ctl" where
  "vatomic_await_eq c ret a = (let o1 = vatomic_read a in if o1 \<noteq> c then Goto o1 else Ret ret)"

text \<open>\<^verbatim>\<open>vatomic_await_{le,lt,ge,gt}\<close>: read, then await a change, until the test holds.\<close>

datatype 'w await_cmp_pc = AC_read | AC_wait 'w

definition await_cmp_next :: "('w \<Rightarrow> bool) \<Rightarrow> 'w \<Rightarrow> ('w await_cmp_pc, 'w) ctl" where
  "await_cmp_next test old = (if \<not> test old then Goto (AC_wait old) else Ret old)"

fun await_cmp :: "('w \<Rightarrow> bool) \<Rightarrow> 'w await_cmp_pc \<Rightarrow> 'w \<Rightarrow> ('w await_cmp_pc, 'w) ctl" where
  "await_cmp test AC_read a = await_cmp_next test (vatomic_read a)"
| "await_cmp test (AC_wait old) a =
     (case vatomic_await_neq old a of Goto _ \<Rightarrow> Goto (AC_wait old) | Ret old' \<Rightarrow> await_cmp_next test old')"

definition vatomic_await_le :: "'a::len word \<Rightarrow> 'a word await_cmp_pc \<Rightarrow> 'a word \<Rightarrow> ('a word await_cmp_pc, 'a word) ctl" where
  "vatomic_await_le c = await_cmp (\<lambda>old. old \<le> c)"

definition vatomic_await_lt :: "'a::len word \<Rightarrow> 'a word await_cmp_pc \<Rightarrow> 'a word \<Rightarrow> ('a word await_cmp_pc, 'a word) ctl" where
  "vatomic_await_lt c = await_cmp (\<lambda>old. old < c)"

definition vatomic_await_ge :: "'a::len word \<Rightarrow> 'a word await_cmp_pc \<Rightarrow> 'a word \<Rightarrow> ('a word await_cmp_pc, 'a word) ctl" where
  "vatomic_await_ge c = await_cmp (\<lambda>old. old \<ge> c)"

definition vatomic_await_gt :: "'a::len word \<Rightarrow> 'a word await_cmp_pc \<Rightarrow> 'a word \<Rightarrow> ('a word await_cmp_pc, 'a word) ctl" where
  "vatomic_await_gt c = await_cmp (\<lambda>old. old > c)"

text \<open>
  \<^verbatim>\<open>vatomic_await_{le,lt,ge,gt}_{add,sub,set}\<close>: await the test, then try to swap in the new
  value; on failure start over with the value the compare-and-swap returned.
\<close>

datatype 'w await_rmw_pc = AR_read | AR_wait 'w | AR_cmpxchg 'w

definition await_rmw_next :: "('w \<Rightarrow> bool) \<Rightarrow> 'w \<Rightarrow> 'w await_rmw_pc" where
  "await_rmw_next test cur = (if \<not> test cur then AR_wait cur else AR_cmpxchg cur)"

fun await_rmw :: "('w \<Rightarrow> bool) \<Rightarrow> ('w \<Rightarrow> 'w) \<Rightarrow> 'w await_rmw_pc \<Rightarrow> 'w \<Rightarrow> ('w await_rmw_pc, 'w) ctl \<times> 'w" where
  "await_rmw test f AR_read a = (Goto (await_rmw_next test (vatomic_read a)), a)"
| "await_rmw test f (AR_wait cur) a =
     ((case vatomic_await_neq cur a of Goto _ \<Rightarrow> Goto (AR_wait cur)
        | Ret cur' \<Rightarrow> Goto (await_rmw_next test cur')), a)"
| "await_rmw test f (AR_cmpxchg cur) a =
     (let (old, a') = vatomic_cmpxchg a cur (f cur)
      in (if old \<noteq> cur then Goto (await_rmw_next test old) else Ret old, a'))"

type_synonym 'w rmw_loop = "'w await_rmw_pc \<Rightarrow> 'w \<Rightarrow> ('w await_rmw_pc, 'w) ctl \<times> 'w"

definition vatomic_await_le_add :: "'a::len word \<Rightarrow> 'a word \<Rightarrow> 'a word rmw_loop" where
  "vatomic_await_le_add c v = await_rmw (\<lambda>cur. cur \<le> c) (\<lambda>cur. cur + v)"

definition vatomic_await_le_sub :: "'a::len word \<Rightarrow> 'a word \<Rightarrow> 'a word rmw_loop" where
  "vatomic_await_le_sub c v = await_rmw (\<lambda>cur. cur \<le> c) (\<lambda>cur. cur - v)"

definition vatomic_await_le_set :: "'a::len word \<Rightarrow> 'a word \<Rightarrow> 'a word rmw_loop" where
  "vatomic_await_le_set c v = await_rmw (\<lambda>cur. cur \<le> c) (\<lambda>cur. v)"

definition vatomic_await_lt_add :: "'a::len word \<Rightarrow> 'a word \<Rightarrow> 'a word rmw_loop" where
  "vatomic_await_lt_add c v = await_rmw (\<lambda>cur. cur < c) (\<lambda>cur. cur + v)"

definition vatomic_await_lt_sub :: "'a::len word \<Rightarrow> 'a word \<Rightarrow> 'a word rmw_loop" where
  "vatomic_await_lt_sub c v = await_rmw (\<lambda>cur. cur < c) (\<lambda>cur. cur - v)"

definition vatomic_await_lt_set :: "'a::len word \<Rightarrow> 'a word \<Rightarrow> 'a word rmw_loop" where
  "vatomic_await_lt_set c v = await_rmw (\<lambda>cur. cur < c) (\<lambda>cur. v)"

definition vatomic_await_ge_add :: "'a::len word \<Rightarrow> 'a word \<Rightarrow> 'a word rmw_loop" where
  "vatomic_await_ge_add c v = await_rmw (\<lambda>cur. cur \<ge> c) (\<lambda>cur. cur + v)"

definition vatomic_await_ge_sub :: "'a::len word \<Rightarrow> 'a word \<Rightarrow> 'a word rmw_loop" where
  "vatomic_await_ge_sub c v = await_rmw (\<lambda>cur. cur \<ge> c) (\<lambda>cur. cur - v)"

definition vatomic_await_ge_set :: "'a::len word \<Rightarrow> 'a word \<Rightarrow> 'a word rmw_loop" where
  "vatomic_await_ge_set c v = await_rmw (\<lambda>cur. cur \<ge> c) (\<lambda>cur. v)"

definition vatomic_await_gt_add :: "'a::len word \<Rightarrow> 'a word \<Rightarrow> 'a word rmw_loop" where
  "vatomic_await_gt_add c v = await_rmw (\<lambda>cur. cur > c) (\<lambda>cur. cur + v)"

definition vatomic_await_gt_sub :: "'a::len word \<Rightarrow> 'a word \<Rightarrow> 'a word rmw_loop" where
  "vatomic_await_gt_sub c v = await_rmw (\<lambda>cur. cur > c) (\<lambda>cur. cur - v)"

definition vatomic_await_gt_set :: "'a::len word \<Rightarrow> 'a word \<Rightarrow> 'a word rmw_loop" where
  "vatomic_await_gt_set c v = await_rmw (\<lambda>cur. cur > c) (\<lambda>cur. v)"

text \<open>\<^verbatim>\<open>vatomic_await_neq_{add,sub,set}\<close>: await a value other than \<open>c\<close>, then try to swap.\<close>

datatype 'w neq_rmw_pc = NR_await | NR_cmpxchg 'w

fun await_neq_rmw :: "'w \<Rightarrow> ('w \<Rightarrow> 'w) \<Rightarrow> 'w neq_rmw_pc \<Rightarrow> 'w \<Rightarrow> ('w neq_rmw_pc, 'w) ctl \<times> 'w" where
  "await_neq_rmw c f NR_await a =
     ((case vatomic_await_neq c a of Goto _ \<Rightarrow> Goto NR_await | Ret old \<Rightarrow> Goto (NR_cmpxchg old)), a)"
| "await_neq_rmw c f (NR_cmpxchg old) a =
     (let (cur, a') = vatomic_cmpxchg a old (f old) in (if cur \<noteq> old then Goto NR_await else Ret old, a'))"

definition vatomic_await_neq_add :: "'a::len word \<Rightarrow> 'a word \<Rightarrow> 'a word neq_rmw_pc \<Rightarrow> 'a word \<Rightarrow>
    ('a word neq_rmw_pc, 'a word) ctl \<times> 'a word" where
  "vatomic_await_neq_add c v = await_neq_rmw c (\<lambda>old. old + v)"

definition vatomic_await_neq_sub :: "'a::len word \<Rightarrow> 'a word \<Rightarrow> 'a word neq_rmw_pc \<Rightarrow> 'a word \<Rightarrow>
    ('a word neq_rmw_pc, 'a word) ctl \<times> 'a word" where
  "vatomic_await_neq_sub c v = await_neq_rmw c (\<lambda>old. old - v)"

definition vatomic_await_neq_set :: "'a \<Rightarrow> 'a \<Rightarrow> 'a neq_rmw_pc \<Rightarrow> 'a \<Rightarrow> ('a neq_rmw_pc, 'a) ctl \<times> 'a" where
  "vatomic_await_neq_set c v = await_neq_rmw c (\<lambda>old. v)"

text \<open>
  \<^verbatim>\<open>vatomic_await_eq_{add,sub,set}\<close>: await the value \<open>c\<close>, then try to swap. The value
  \<^verbatim>\<open>vatomic_await_eq\<close> returns is ignored by these callers, and its local \<^verbatim>\<open>ret\<close> is dropped.
\<close>

datatype eq_rmw_pc = ES_await | ES_cmpxchg

fun await_eq_rmw :: "'w \<Rightarrow> ('w \<Rightarrow> 'w) \<Rightarrow> eq_rmw_pc \<Rightarrow> 'w \<Rightarrow> (eq_rmw_pc, 'w) ctl \<times> 'w" where
  "await_eq_rmw c f ES_await a =
     ((case vatomic_await_eq c c a of Goto _ \<Rightarrow> Goto ES_await | Ret _ \<Rightarrow> Goto ES_cmpxchg), a)"
| "await_eq_rmw c f ES_cmpxchg a =
     (let (old, a') = vatomic_cmpxchg a c (f c) in (if old \<noteq> c then Goto ES_await else Ret c, a'))"

definition vatomic_await_eq_add :: "'a::len word \<Rightarrow> 'a word \<Rightarrow> eq_rmw_pc \<Rightarrow> 'a word \<Rightarrow> (eq_rmw_pc, 'a word) ctl \<times> 'a word" where
  "vatomic_await_eq_add c v = await_eq_rmw c (\<lambda>c. c + v)"

definition vatomic_await_eq_sub :: "'a::len word \<Rightarrow> 'a word \<Rightarrow> eq_rmw_pc \<Rightarrow> 'a word \<Rightarrow> (eq_rmw_pc, 'a word) ctl \<times> 'a word" where
  "vatomic_await_eq_sub c v = await_eq_rmw c (\<lambda>c. c - v)"

definition vatomic_await_eq_set :: "'a \<Rightarrow> 'a \<Rightarrow> eq_rmw_pc \<Rightarrow> 'a \<Rightarrow> (eq_rmw_pc, 'a) ctl \<times> 'a" where
  "vatomic_await_eq_set c v = await_eq_rmw c (\<lambda>c. v)"

section \<open>One thread alone\<close>

text \<open>
  \<open>alone n step l s\<close> runs a program without interference for at most \<open>n\<close> accesses. A waiting
  loop whose condition does not hold makes no progress alone: it is \<^const>\<open>Blocked\<close>. The bound
  used by the components, \<open>alone_fuel\<close>, is larger than the number of accesses any of the modelled
  lock operations needs when it does not wait.
\<close>

fun alone :: "nat \<Rightarrow> ('l \<Rightarrow> 's \<Rightarrow> ('l, 'r) ctl \<times> 's) \<Rightarrow> 'l \<Rightarrow> 's \<Rightarrow> ('r \<times> 's) res" where
  "alone 0 step l s = Inl Blocked"
| "alone (Suc n) step l s = (case step l s of (Goto l', s') \<Rightarrow> alone n step l' s' | (Ret r, s') \<Rightarrow> Inr (r, s'))"

definition alone_fuel :: nat where
  "alone_fuel = 8"

lemma alone_fuel_Suc: "alone_fuel = Suc (Suc (Suc (Suc (Suc (Suc (Suc (Suc 0)))))))"
  by (simp add: alone_fuel_def)

section \<open>Loops under interference\<close>

text \<open>
  \<open>exec step l as\<close> runs a loop from program counter \<open>l\<close> when the cell has the values \<open>as\<close>
  at its successive accesses (other threads change the cell in between as they like). The result
  lists the values the cell has right after each access, and the returned value when the loop has
  returned.
\<close>

fun exec :: "('l \<Rightarrow> 'w \<Rightarrow> ('l, 'r) ctl \<times> 'w) \<Rightarrow> 'l \<Rightarrow> 'w list \<Rightarrow> 'w list \<times> 'r option" where
  "exec step l [] = ([], None)"
| "exec step l (a # as) =
     (case step l a of (Goto l', a') \<Rightarrow> (let (ws, r) = exec step l' as in (a' # ws, r))
        | (Ret r, a') \<Rightarrow> ([a'], Some r))"

text \<open>A read-only loop as a loop that leaves the cell alone.\<close>

definition reads :: "('l \<Rightarrow> 'w \<Rightarrow> ('l, 'r) ctl) \<Rightarrow> 'l \<Rightarrow> 'w \<Rightarrow> ('l, 'r) ctl \<times> 'w" where
  "reads step l a = (step l a, a)"

locale atomic_update =
  fixes step :: "'l \<Rightarrow> 'w \<Rightarrow> ('l, 'r) ctl \<times> 'w"
    and start :: 'l
    and ok :: "'l \<Rightarrow> bool"
    and guard :: "'w \<Rightarrow> bool"
    and upd :: "'w \<Rightarrow> 'w"
    and result :: "'w \<Rightarrow> 'r"
    and bound :: nat
  assumes ok_start: "ok start"
    and step_goto: "ok l \<Longrightarrow> step l a = (Goto l', a') \<Longrightarrow> a' = a \<and> ok l'"
    and step_ret: "ok l \<Longrightarrow> step l a = (Ret r, a') \<Longrightarrow> guard a \<and> r = result a \<and> a' = upd a"
    and solo: "ok l \<Longrightarrow> guard a \<Longrightarrow> snd (exec step l (replicate bound a)) \<noteq> None"
begin

lemma step_cases:
  assumes "step l a = (r, a')" and "ok l"
  obtains (goto) l' where "r = Goto l'" and "a' = a" and "ok l'"
  | (ret) "r = Ret (result a)" and "a' = upd a" and "guard a"
  using assms step_goto step_ret by (cases r) blast+

lemma exec_atomic_from:
  assumes "ok l" and "exec step l as = (ws, Some r)"
  shows "\<exists>before a after. as = before @ a # after \<and> ws = before @ [upd a] \<and> guard a \<and> r = result a"
  using assms
proof (induction as arbitrary: l ws)
  case (Cons a as)
  obtain c a' where st: "step l a = (c, a')" by fastforce
  from st Cons.prems(1) show ?case
  proof (cases rule: step_cases)
    case (goto l')
    obtain vs where vs: "exec step l' as = (vs, Some r)" "ws = a # vs"
      using Cons.prems(2) st goto by (auto split: prod.splits)
    from Cons.IH [OF goto(3) vs(1)] obtain before b after where
      "as = before @ b # after" "vs = before @ [upd b]" "guard b" "r = result b" by blast
    then show ?thesis using vs(2) by (intro exI [of _ "a # before"]) auto
  next
    case ret
    then have "ws = [upd a]" "r = result a" using Cons.prems(2) st by auto
    with ret show ?thesis by (intro exI [of _ "[]"]) auto
  qed
qed simp

lemma exec_atomic:
  "exec step start as = (ws, Some r) \<Longrightarrow>
   \<exists>before a after. as = before @ a # after \<and> ws = before @ [upd a] \<and> guard a \<and> r = result a"
  using exec_atomic_from ok_start by blast

lemma exec_waiting_from:
  "ok l \<Longrightarrow> exec step l as = (ws, None) \<Longrightarrow> ws = as"
proof (induction as arbitrary: l ws)
  case (Cons a as)
  obtain c a' where st: "step l a = (c, a')" by fastforce
  from st Cons.prems(1) show ?case
  proof (cases rule: step_cases)
    case (goto l')
    then show ?thesis using Cons.prems(2) st Cons.IH [of l'] by (auto split: prod.splits)
  next
    case ret
    then show ?thesis using Cons.prems(2) st by auto
  qed
qed simp

lemma exec_waiting: "exec step start as = (ws, None) \<Longrightarrow> ws = as"
  using exec_waiting_from ok_start by blast

end

lemma read_loop_step [simp]: "reads step l a = (r, a') \<longleftrightarrow> step l a = r \<and> a' = a"
  by (auto simp: reads_def)

section \<open>Every loop is an atomic update\<close>

interpretation get_max: atomic_update "vatomic_get_max v" GM_read
  "\<lambda>l. case l of GM_read \<Rightarrow> True | GM_cmpxchg old \<Rightarrow> old < v" "\<lambda>a. True" "\<lambda>a. max a v" "\<lambda>a. a" 2
  for v :: "'a::len word"
proof unfold_locales
  fix l :: "'a word get_max_pc" and a l' a' r
  assume ok: "case l of GM_read \<Rightarrow> True | GM_cmpxchg old \<Rightarrow> old < v"
  show "vatomic_get_max v l a = (Goto l', a') \<Longrightarrow>
      a' = a \<and> (case l' of GM_read \<Rightarrow> True | GM_cmpxchg old \<Rightarrow> old < v)"
    using ok by (cases l) (auto simp: get_max_next_def vsync_simps split: if_splits)
  show "vatomic_get_max v l a = (Ret r, a') \<Longrightarrow> True \<and> r = a \<and> a' = max a v"
    using ok by (cases l) (auto simp: get_max_next_def vsync_simps max_def split: if_splits)
  show "snd (exec (vatomic_get_max v) l (replicate 2 a)) \<noteq> None"
    by (cases l) (auto simp: numeral_2_eq_2 get_max_next_def vsync_simps)
qed simp

interpretation await_neq: atomic_update "reads (\<lambda>_. vatomic_await_neq c)" "()" "\<lambda>_. True" "\<lambda>a. a \<noteq> c"
  "\<lambda>a. a" "\<lambda>a. a" 1 for c
  by unfold_locales (auto simp: vatomic_await_neq_def vsync_simps reads_def split: if_splits)

interpretation await_cmp: atomic_update "reads (await_cmp test)" AC_read
  "\<lambda>l. case l of AC_read \<Rightarrow> True | AC_wait old \<Rightarrow> \<not> test old" test "\<lambda>a. a" "\<lambda>a. a" 1 for test
proof unfold_locales
  fix l and a l' a' r
  assume ok: "case l of AC_read \<Rightarrow> True | AC_wait old \<Rightarrow> \<not> test old"
  show "reads (await_cmp test) l a = (Goto l', a') \<Longrightarrow>
      a' = a \<and> (case l' of AC_read \<Rightarrow> True | AC_wait old \<Rightarrow> \<not> test old)"
    using ok by (cases l) (auto simp: await_cmp_next_def vatomic_await_neq_def vsync_simps split: if_splits)
  show "reads (await_cmp test) l a = (Ret r, a') \<Longrightarrow> test a \<and> r = a \<and> a' = a"
    using ok by (cases l) (auto simp: await_cmp_next_def vatomic_await_neq_def vsync_simps split: if_splits)
  show "test a \<Longrightarrow> snd (exec (reads (await_cmp test)) l (replicate 1 a)) \<noteq> None"
    using ok by (cases l) (auto simp: await_cmp_next_def vatomic_await_neq_def vsync_simps reads_def)
qed simp

definition await_rmw_ok :: "('w \<Rightarrow> bool) \<Rightarrow> 'w await_rmw_pc \<Rightarrow> bool" where
  "await_rmw_ok test l = (case l of AR_cmpxchg cur \<Rightarrow> test cur | AR_wait cur \<Rightarrow> \<not> test cur | AR_read \<Rightarrow> True)"

interpretation await_rmw: atomic_update "await_rmw test f" AR_read "await_rmw_ok test" test f "\<lambda>a. a" 2
  for test f
proof unfold_locales
  fix l and a l' a' r
  assume ok: "await_rmw_ok test l"
  show "await_rmw test f l a = (Goto l', a') \<Longrightarrow> a' = a \<and> await_rmw_ok test l'"
    using ok by (cases l)
      (auto simp: await_rmw_ok_def await_rmw_next_def vatomic_await_neq_def vsync_simps split: if_splits)
  show "await_rmw test f l a = (Ret r, a') \<Longrightarrow> test a \<and> r = a \<and> a' = f a"
    using ok by (cases l)
      (auto simp: await_rmw_ok_def vatomic_await_neq_def vsync_simps split: if_splits ctl.splits)
  show "test a \<Longrightarrow> snd (exec (await_rmw test f) l (replicate 2 a)) \<noteq> None"
    using ok by (cases l)
      (auto simp: await_rmw_ok_def numeral_2_eq_2 await_rmw_next_def vatomic_await_neq_def vsync_simps)
qed (simp add: await_rmw_ok_def)

interpretation await_neq_rmw: atomic_update "await_neq_rmw c f" NR_await
  "\<lambda>l. case l of NR_await \<Rightarrow> True | NR_cmpxchg old \<Rightarrow> old \<noteq> c" "\<lambda>a. a \<noteq> c" f "\<lambda>a. a" 3 for c f
proof unfold_locales
  fix l and a l' a' r
  assume ok: "case l of NR_await \<Rightarrow> True | NR_cmpxchg old \<Rightarrow> old \<noteq> c"
  show "await_neq_rmw c f l a = (Goto l', a') \<Longrightarrow>
      a' = a \<and> (case l' of NR_await \<Rightarrow> True | NR_cmpxchg old \<Rightarrow> old \<noteq> c)"
    using ok by (cases l) (auto simp: vatomic_await_neq_def vsync_simps split: if_splits)
  show "await_neq_rmw c f l a = (Ret r, a') \<Longrightarrow> a \<noteq> c \<and> r = a \<and> a' = f a"
    using ok by (cases l) (auto simp: vatomic_await_neq_def vsync_simps split: if_splits)
  show "a \<noteq> c \<Longrightarrow> snd (exec (await_neq_rmw c f) l (replicate 3 a)) \<noteq> None"
    by (cases l) (auto simp: numeral_3_eq_3 vatomic_await_neq_def vsync_simps)
qed simp

interpretation await_eq_rmw: atomic_update "await_eq_rmw c f" ES_await "\<lambda>_. True" "\<lambda>a. a = c" f "\<lambda>a. a" 2
  for c f
proof unfold_locales
  fix l and a l' a' r
  show "await_eq_rmw c f l a = (Goto l', a') \<Longrightarrow> a' = a \<and> True"
    by (cases l) (auto simp: vatomic_await_eq_def vsync_simps split: if_splits)
  show "await_eq_rmw c f l a = (Ret r, a') \<Longrightarrow> a = c \<and> r = a \<and> a' = f a"
    by (cases l) (auto simp: vatomic_await_eq_def vsync_simps split: if_splits)
  show "a = c \<Longrightarrow> snd (exec (await_eq_rmw c f) l (replicate 2 a)) \<noteq> None"
    by (cases l) (auto simp: numeral_2_eq_2 vatomic_await_eq_def vsync_simps)
qed simp

lemmas await_eq_set_cases [consumes 1, case_names goto ret] =
  await_eq_rmw.step_cases [where f = "\<lambda>_. v" for v, folded vatomic_await_eq_set_def, OF _ TrueI]
lemmas await_ge_sub_cases [consumes 2, case_names goto ret] =
  await_rmw.step_cases [where test = "\<lambda>cur. cur \<ge> c" and f = "\<lambda>cur. cur - v" for c v :: "'a::len word",
    folded vatomic_await_ge_sub_def]

text \<open>A thread that runs alone leaves the loop: two accesses when the value is already \<open>c\<close>.\<close>

lemma await_eq_set_solo:
  "vatomic_await_eq_set c v ES_await c = (Goto ES_cmpxchg, c) \<and>
   vatomic_await_eq_set c v ES_cmpxchg c = (Ret c, v)"
  by (simp add: vatomic_await_eq_set_def vatomic_await_eq_def vsync_simps)

section \<open>Properties\<close>

text \<open>C24: the compare-and-swap loops \<^verbatim>\<open>vatomic_await_{le,lt,ge,gt}_{add,sub,set}\<close> act at one
  single access, whatever other threads write between their accesses: when the loop returns, the
  cell satisfied the test at that access, that value is returned, the cell got the new value, and
  no earlier access changed the cell.\<close>

lemma vatomic_await_rmw_atomic:
  assumes "exec (await_rmw test f) AR_read as = (ws, Some r)"
  shows "\<exists>before a after. as = before @ a # after \<and> ws = before @ [f a] \<and> test a \<and> r = a"
  using assms by (rule await_rmw.exec_atomic)

lemma vatomic_await_rmw_atomic_witness:
  "exec (vatomic_await_ge_sub 2 2) AR_read [1, 1, 5, 6, 6 :: u32] = ([1, 1, 5, 6, 4], Some 6) \<and>
   (\<exists>before a after. [1, 1, 5, 6, 6 :: u32] = before @ a # after \<and> [1, 1, 5, 6, 4] = before @ [a - 2] \<and>
      2 \<le> a \<and> 6 = a)"
proof -
  have "exec (vatomic_await_ge_sub 2 2) AR_read [1, 1, 5, 6, 6 :: u32] = ([1, 1, 5, 6, 4], Some 6)"
    by (simp add: vatomic_await_ge_sub_def await_rmw_next_def vatomic_await_neq_def vsync_simps
        word_le_nat_alt)
  with vatomic_await_rmw_atomic [of "\<lambda>cur. 2 \<le> cur" "\<lambda>cur. cur - 2" "[1, 1, 5, 6, 6 :: u32]" "[1, 1, 5, 6, 4]" 6]
  show ?thesis unfolding vatomic_await_ge_sub_def by blast
qed

text \<open>\<^verbatim>\<open>vatomic_get_max\<close> is an atomic maximum under any interference: it returns the value
  the cell had at one access and leaves the larger of it and the argument there; alone it returns
  after at most two accesses.\<close>

lemma vatomic_get_max_atomic:
  "(exec (vatomic_get_max v) GM_read as = (ws, Some r) \<longrightarrow>
     (\<exists>before a after. as = before @ a # after \<and> ws = before @ [max a v] \<and> r = a)) \<and>
   snd (exec (vatomic_get_max v) GM_read [a, a]) \<noteq> None"
  using get_max.exec_atomic [of v as ws r] get_max.solo [OF get_max.ok_start, of v a]
  by (auto simp: numeral_2_eq_2)

lemma exec_await_eq:
  "exec (reads (vatomic_await_eq c)) ret (a # as) =
     (if a \<noteq> c then (let (ws, r) = exec (reads (vatomic_await_eq c)) a as in (a # ws, r)) else ([a], Some ret))"
  by (simp add: reads_def [of "vatomic_await_eq c" ret a] vatomic_await_eq_def [of c ret a] vsync_simps)

text \<open>What \<^verbatim>\<open>vatomic_await_eq\<close> returns. It stops at the first access that sees \<open>c\<close>; its
  result is \<open>c\<close> when that was the first access and otherwise the last value seen before, which
  is never \<open>c\<close>.\<close>

lemma vatomic_await_eq_returns:
  assumes "exec (reads (vatomic_await_eq c)) c as = (ws, Some r)"
  shows "\<exists>before after. as = before @ c # after \<and> c \<notin> set before \<and> ws = before @ [c] \<and>
           r = (if before = [] then c else last before)"
proof -
  have "\<exists>before after. as = before @ c # after \<and> c \<notin> set before \<and> ws = before @ [c] \<and>
           r = (if before = [] then ret else last before)"
    if "exec (reads (vatomic_await_eq c)) ret as = (ws, Some r)" for ret
    using that
  proof (induction as arbitrary: ret ws)
    case (Cons a as)
    show ?case
    proof (cases "a = c")
      case True
      then show ?thesis
        using Cons.prems by (intro exI [of _ "[]"] exI [of _ as]) (auto simp: exec_await_eq simp del: exec.simps(2))
    next
      case False
      then obtain vs where vs: "exec (reads (vatomic_await_eq c)) a as = (vs, Some r)" "ws = a # vs"
        using Cons.prems by (auto simp: exec_await_eq split: prod.splits simp del: exec.simps(2))
      from Cons.IH [OF vs(1)] obtain before after where "as = before @ c # after" "c \<notin> set before"
        "vs = before @ [c]" "r = (if before = [] then a else last before)" by blast
      with False vs(2) show ?thesis by (intro exI [of _ "a # before"] exI [of _ after]) auto
    qed
  qed simp
  from this [OF assms] show ?thesis .
qed

end
