(* ===== verification/Spinlock.thy ===== *)
theory Spinlock
  imports Vatomic
begin

text \<open>
  The test-and-set locks: \<^verbatim>\<open>spinlock/caslock.h\<close> and \<^verbatim>\<open>spinlock/ttaslock.h\<close>. Each
  operation is a function on the lock word (with a program counter where it makes several
  accesses); the step relation lets any number of threads call the operations and interleave their
  accesses. Both locks are interpreted as implementations of the abstract lock.
\<close>

section \<open>caslock\<close>

record caslock_t =
  lock :: u32

definition caslock_init :: "caslock_t" where
  "caslock_init = \<lparr>lock = 0\<rparr>"

definition caslock_acquire :: "eq_rmw_pc \<Rightarrow> caslock_t \<Rightarrow> (eq_rmw_pc, unit) ctl \<times> caslock_t" where
  "caslock_acquire l c =
     (let (r, a) = vatomic_await_eq_set 0 1 l (lock c)
      in ((case r of Goto l' \<Rightarrow> Goto l' | Ret _ \<Rightarrow> Ret ()), c\<lparr>lock := a\<rparr>))"

definition caslock_tryacquire :: "caslock_t \<Rightarrow> bool \<times> caslock_t" where
  "caslock_tryacquire c = (let (old, a) = vatomic_cmpxchg (lock c) 0 1 in (old = 0, c\<lparr>lock := a\<rparr>))"

definition caslock_release :: "caslock_t \<Rightarrow> caslock_t" where
  "caslock_release c = c\<lparr>lock := vatomic_write (lock c) 0\<rparr>"

datatype cas_pc = CasIdle | CasAcquire eq_rmw_pc | CasHeld

record cas_sys =
  cas_lock :: caslock_t
  cas_pcs :: "tid \<Rightarrow> cas_pc"

definition caslock_start :: "cas_sys \<Rightarrow> bool" where
  "caslock_start s \<longleftrightarrow> cas_lock s = caslock_init \<and> (\<forall>i. cas_pcs s i = CasIdle)"

inductive caslock_step :: "tid \<Rightarrow> cas_sys \<Rightarrow> cas_sys \<Rightarrow> bool" where
  cas_call: "cas_pcs s i = CasIdle \<Longrightarrow>
     caslock_step i s (s\<lparr>cas_pcs := (cas_pcs s)(i := CasAcquire ES_await)\<rparr>)"
| cas_run: "cas_pcs s i = CasAcquire l \<Longrightarrow> caslock_acquire l (cas_lock s) = (r, c) \<Longrightarrow>
     caslock_step i s (s\<lparr>cas_lock := c,
       cas_pcs := (cas_pcs s)(i := case r of Goto l' \<Rightarrow> CasAcquire l' | Ret _ \<Rightarrow> CasHeld)\<rparr>)"
| cas_try: "cas_pcs s i = CasIdle \<Longrightarrow> caslock_tryacquire (cas_lock s) = (ok, c) \<Longrightarrow>
     caslock_step i s (s\<lparr>cas_lock := c, cas_pcs := (cas_pcs s)(i := if ok then CasHeld else CasIdle)\<rparr>)"
| cas_release: "cas_pcs s i = CasHeld \<Longrightarrow>
     caslock_step i s (s\<lparr>cas_lock := caslock_release (cas_lock s), cas_pcs := (cas_pcs s)(i := CasIdle)\<rparr>)"

definition cas_owns :: "cas_sys \<Rightarrow> tid \<Rightarrow> bool" where
  "cas_owns s i \<longleftrightarrow> cas_pcs s i = CasHeld"

definition cas_inv :: "cas_sys \<Rightarrow> bool" where
  "cas_inv s \<longleftrightarrow> (\<exists>h. (\<forall>i. cas_pcs s i = CasHeld \<longleftrightarrow> h = Some i) \<and> (lock (cas_lock s) = 0 \<longleftrightarrow> h = None))"

lemma caslock_acquire_cases:
  assumes "caslock_acquire l c = (r, c')"
  obtains (wait) l' where "r = Goto l'" and "c' = c"
  | (set) "r = Ret ()" and "lock c = 0" and "lock c' = 1"
proof -
  obtain r' a where st: "vatomic_await_eq_set 0 1 l (lock c) = (r', a)" by fastforce
  then show thesis
    by (cases rule: await_eq_set_cases)
       (use assms st that in \<open>auto simp: caslock_acquire_def split: ctl.splits\<close>)
qed

lemma cas_inv_step:
  assumes "cas_inv s" and "caslock_step i s t"
  shows "cas_inv t"
proof -
  obtain h where h: "\<forall>i. cas_pcs s i = CasHeld \<longleftrightarrow> h = Some i" "lock (cas_lock s) = 0 \<longleftrightarrow> h = None"
    using assms(1) by (auto simp: cas_inv_def)
  from assms(2) show ?thesis
  proof cases
    case cas_call
    then show ?thesis using h h(1) [rule_format, of i] by (auto simp: cas_inv_def intro!: exI [of _ h])
  next
    case (cas_run l r c)
    from cas_run(3) show ?thesis
    proof (cases rule: caslock_acquire_cases)
      case set
      then have "h = None" using h by simp
      with set cas_run show ?thesis using h by (auto simp: cas_inv_def intro!: exI [of _ "Some i"])
    qed (use cas_run h h(1) [rule_format, of i] in \<open>auto simp: cas_inv_def intro!: exI [of _ h]\<close>)
  next
    case (cas_try ok c)
    show ?thesis
    proof (cases h)
      case None
      with cas_try h have "ok" "lock c = 1" by (auto simp: caslock_tryacquire_def vsync_simps)
      with cas_try(1) None h(1) show ?thesis
        unfolding cas_inv_def by (intro exI [of _ "Some i"]) auto
    next
      case (Some j)
      with cas_try h have "\<not> ok" "lock c \<noteq> 0" by (auto simp: caslock_tryacquire_def vsync_simps)
      with cas_try(1,2) Some h(1) h(1) [rule_format, of i] show ?thesis
        unfolding cas_inv_def by (intro exI [of _ h]) auto
    qed
  next
    case cas_release
    then show ?thesis
      using h by (auto simp: cas_inv_def caslock_release_def vsync_simps intro!: exI [of _ None])
  qed
qed

interpretation cas: lock_impl caslock_start caslock_step cas_inv cas_owns
proof unfold_locales
  show "caslock_start s \<Longrightarrow> cas_inv s" for s
    by (simp add: caslock_start_def cas_inv_def caslock_init_def)
  show "cas_inv s \<Longrightarrow> caslock_step i s t \<Longrightarrow> cas_inv t" for s i t
    by (rule cas_inv_step)
  show "cas_inv s \<Longrightarrow> cas_owns s i \<Longrightarrow> cas_owns s j \<Longrightarrow> i = j" for s i j
    by (auto simp: cas_inv_def cas_owns_def)
  show "caslock_step i s t \<Longrightarrow> j \<noteq> i \<Longrightarrow> cas_owns t j \<longleftrightarrow> cas_owns s j" for i s t j
    by (induction rule: caslock_step.induct) (auto simp: cas_owns_def)
qed

text \<open>C22: the compare-and-swap lock implements the abstract lock: each atomic step of any
  number of threads that call \<^verbatim>\<open>caslock_acquire\<close>, \<^verbatim>\<open>caslock_tryacquire\<close> and
  \<^verbatim>\<open>caslock_release\<close> leaves the holder alone, lets the stepping thread take a free lock, or
  frees the lock its holder has.\<close>

lemma caslock_refines_lock:
  assumes "reach caslock_start caslock_step s" and "caslock_step i s t"
  shows "lock_spec i (lock_holder cas_owns s) (lock_holder cas_owns t)"
  using assms by (rule cas.refines_lock_spec)

definition cas_w0 :: cas_sys where
  "cas_w0 = \<lparr>cas_lock = caslock_init, cas_pcs = (\<lambda>_. CasIdle)\<rparr>"

definition cas_w1 :: cas_sys where
  "cas_w1 = cas_w0\<lparr>cas_lock := \<lparr>lock = 1\<rparr>, cas_pcs := (\<lambda>_. CasIdle)(3 := CasHeld)\<rparr>"

definition cas_w2 :: cas_sys where
  "cas_w2 = cas_w0\<lparr>cas_pcs := (\<lambda>_. CasIdle)(3 := CasAcquire ES_await)\<rparr>"

lemma cas_w_reach:
  "reach caslock_start caslock_step cas_w0" "caslock_step 3 cas_w0 cas_w1"
  "reach caslock_start caslock_step cas_w2"
proof -
  show r: "reach caslock_start caslock_step cas_w0"
    by (rule reach_init) (simp add: caslock_start_def cas_w0_def)
  show "caslock_step 3 cas_w0 cas_w1"
    using cas_try [of cas_w0 3 True "\<lparr>lock = 1\<rparr>"]
    by (simp add: cas_w0_def cas_w1_def caslock_tryacquire_def caslock_init_def vsync_simps)
  have "caslock_step 3 cas_w0 cas_w2"
    using cas_call [of cas_w0 3] by (simp add: cas_w0_def cas_w2_def)
  with r show "reach caslock_start caslock_step cas_w2" by (rule reach_step)
qed

lemma caslock_refines_lock_witness:
  "caslock_step 3 cas_w0 cas_w1 \<and> lock_spec 3 (lock_holder cas_owns cas_w0) (lock_holder cas_owns cas_w1)"
  using caslock_refines_lock [OF cas_w_reach(1,2)] cas_w_reach(2) by blast

text \<open>Progress of \<^verbatim>\<open>caslock_acquire\<close>: in every reachable state where nobody holds the
  lock, a thread inside acquire gets it with at most two accesses of its own.\<close>

lemma caslock_acquire_solo:
  assumes "reach caslock_start caslock_step s" and "\<forall>j. \<not> cas_owns s j"
    and "cas_pcs s i = CasAcquire l"
  shows "\<exists>k\<le>2. \<exists>t. (caslock_step i ^^ k) s t \<and> cas_owns t i"
proof -
  have free: "lock (cas_lock s) = 0"
    using cas.reach_inv [OF assms(1)] assms(2) by (metis cas_inv_def cas_owns_def not_None_eq)
  have last: "\<exists>t. caslock_step i u t \<and> cas_owns t i"
    if "cas_pcs u i = CasAcquire ES_cmpxchg" "lock (cas_lock u) = 0" for u
    using that caslock_step.cas_run [OF that(1)]
    by (fastforce simp: caslock_acquire_def vatomic_await_eq_set_def vsync_simps cas_owns_def)
  show ?thesis
  proof (cases l)
    case ES_cmpxchg
    then obtain t where "caslock_step i s t" "cas_owns t i" using last assms(3) free by blast
    then show ?thesis by (intro exI [of _ 1]) auto
  next
    case ES_await
    then have "caslock_acquire l (cas_lock s) = (Goto ES_cmpxchg, cas_lock s)"
      using free by (simp add: caslock_acquire_def vatomic_await_eq_set_def vatomic_await_eq_def vsync_simps)
    from caslock_step.cas_run [OF assms(3) this]
    obtain u where u: "caslock_step i s u" "cas_pcs u i = CasAcquire ES_cmpxchg"
      "cas_lock u = cas_lock s" by auto
    then obtain t where "caslock_step i u t" "cas_owns t i" using last free by metis
    with u(1) have "(caslock_step i ^^ 2) s t" by (auto simp: numeral_2_eq_2)
    with \<open>cas_owns t i\<close> show ?thesis by blast
  qed
qed

section \<open>ttaslock\<close>

record ttaslock_t =
  ttas_state :: u32

definition ttaslock_init :: "ttaslock_t" where
  "ttaslock_init = \<lparr>ttas_state = 0\<rparr>"

datatype ttas_acq_pc = TA_await | TA_xchg

fun ttaslock_acquire :: "ttas_acq_pc \<Rightarrow> ttaslock_t \<Rightarrow> (ttas_acq_pc, unit) ctl \<times> ttaslock_t" where
  "ttaslock_acquire TA_await c =
     ((case vatomic_await_eq 0 0 (ttas_state c) of Goto _ \<Rightarrow> Goto TA_await | Ret _ \<Rightarrow> Goto TA_xchg), c)"
| "ttaslock_acquire TA_xchg c =
     (let (old, a) = vatomic_xchg (ttas_state c) 1
      in (if old = 0 then Ret () else Goto TA_await, c\<lparr>ttas_state := a\<rparr>))"

definition ttaslock_tryacquire :: "ttaslock_t \<Rightarrow> bool \<times> ttaslock_t" where
  "ttaslock_tryacquire c = (let (old, a) = vatomic_xchg (ttas_state c) 1 in (old = 0, c\<lparr>ttas_state := a\<rparr>))"

definition ttaslock_release :: "ttaslock_t \<Rightarrow> ttaslock_t" where
  "ttaslock_release c = c\<lparr>ttas_state := vatomic_write (ttas_state c) 0\<rparr>"

datatype ttas_pc = TtasIdle | TtasAcquire ttas_acq_pc | TtasHeld

record ttas_sys =
  ttas_lock :: ttaslock_t
  ttas_pcs :: "tid \<Rightarrow> ttas_pc"

definition ttaslock_start :: "ttas_sys \<Rightarrow> bool" where
  "ttaslock_start s \<longleftrightarrow> ttas_lock s = ttaslock_init \<and> (\<forall>i. ttas_pcs s i = TtasIdle)"

inductive ttaslock_step :: "tid \<Rightarrow> ttas_sys \<Rightarrow> ttas_sys \<Rightarrow> bool" where
  ttas_call: "ttas_pcs s i = TtasIdle \<Longrightarrow>
     ttaslock_step i s (s\<lparr>ttas_pcs := (ttas_pcs s)(i := TtasAcquire TA_await)\<rparr>)"
| ttas_run: "ttas_pcs s i = TtasAcquire l \<Longrightarrow> ttaslock_acquire l (ttas_lock s) = (r, c) \<Longrightarrow>
     ttaslock_step i s (s\<lparr>ttas_lock := c,
       ttas_pcs := (ttas_pcs s)(i := case r of Goto l' \<Rightarrow> TtasAcquire l' | Ret _ \<Rightarrow> TtasHeld)\<rparr>)"
| ttas_try: "ttas_pcs s i = TtasIdle \<Longrightarrow> ttaslock_tryacquire (ttas_lock s) = (ok, c) \<Longrightarrow>
     ttaslock_step i s (s\<lparr>ttas_lock := c, ttas_pcs := (ttas_pcs s)(i := if ok then TtasHeld else TtasIdle)\<rparr>)"
| ttas_release: "ttas_pcs s i = TtasHeld \<Longrightarrow>
     ttaslock_step i s (s\<lparr>ttas_lock := ttaslock_release (ttas_lock s), ttas_pcs := (ttas_pcs s)(i := TtasIdle)\<rparr>)"

definition ttas_owns :: "ttas_sys \<Rightarrow> tid \<Rightarrow> bool" where
  "ttas_owns s i \<longleftrightarrow> ttas_pcs s i = TtasHeld"

definition ttas_inv :: "ttas_sys \<Rightarrow> bool" where
  "ttas_inv s \<longleftrightarrow> (\<exists>h. (\<forall>i. ttas_pcs s i = TtasHeld \<longleftrightarrow> h = Some i) \<and> (ttas_state (ttas_lock s) = 0 \<longleftrightarrow> h = None))"

lemma ttaslock_acquire_cases:
  assumes "ttaslock_acquire l c = (r, c')"
  obtains (wait) l' where "r = Goto l'" and "c' = c"
  | (busy) "r = Goto TA_await" and "ttas_state c \<noteq> 0" and "ttas_state c' = 1"
  | (set) "r = Ret ()" and "ttas_state c = 0" and "ttas_state c' = 1"
  using assms
  by (cases l; cases "ttas_state c = 0") (auto simp: vatomic_await_eq_def vsync_simps)

lemma ttas_inv_step:
  assumes "ttas_inv s" and "ttaslock_step i s t"
  shows "ttas_inv t"
proof -
  obtain h where h: "\<forall>i. ttas_pcs s i = TtasHeld \<longleftrightarrow> h = Some i" "ttas_state (ttas_lock s) = 0 \<longleftrightarrow> h = None"
    using assms(1) by (auto simp: ttas_inv_def)
  from assms(2) show ?thesis
  proof cases
    case ttas_call
    then show ?thesis using h h(1) [rule_format, of i] by (auto simp: ttas_inv_def intro!: exI [of _ h])
  next
    case (ttas_run l r c)
    from ttas_run(3) show ?thesis
    proof (cases rule: ttaslock_acquire_cases)
      case set
      then have "h = None" using h by simp
      with set ttas_run show ?thesis using h by (auto simp: ttas_inv_def intro!: exI [of _ "Some i"])
    qed (use ttas_run h h(1) [rule_format, of i] in \<open>auto simp: ttas_inv_def intro!: exI [of _ h]\<close>)
  next
    case (ttas_try ok c)
    show ?thesis
    proof (cases h)
      case None
      with ttas_try h have "ok" "ttas_state c = 1" by (auto simp: ttaslock_tryacquire_def vsync_simps)
      with ttas_try(1) None h(1) show ?thesis
        unfolding ttas_inv_def by (intro exI [of _ "Some i"]) auto
    next
      case (Some j)
      with ttas_try h have "\<not> ok" "ttas_state c \<noteq> 0" by (auto simp: ttaslock_tryacquire_def vsync_simps)
      with ttas_try(1,2) Some h(1) h(1) [rule_format, of i] show ?thesis
        unfolding ttas_inv_def by (intro exI [of _ h]) auto
    qed
  next
    case ttas_release
    then show ?thesis
      using h by (auto simp: ttas_inv_def ttaslock_release_def vsync_simps intro!: exI [of _ None])
  qed
qed

interpretation ttas: lock_impl ttaslock_start ttaslock_step ttas_inv ttas_owns
proof unfold_locales
  show "ttaslock_start s \<Longrightarrow> ttas_inv s" for s
    by (simp add: ttaslock_start_def ttas_inv_def ttaslock_init_def)
  show "ttas_inv s \<Longrightarrow> ttaslock_step i s t \<Longrightarrow> ttas_inv t" for s i t
    by (rule ttas_inv_step)
  show "ttas_inv s \<Longrightarrow> ttas_owns s i \<Longrightarrow> ttas_owns s j \<Longrightarrow> i = j" for s i j
    by (auto simp: ttas_inv_def ttas_owns_def)
  show "ttaslock_step i s t \<Longrightarrow> j \<noteq> i \<Longrightarrow> ttas_owns t j \<longleftrightarrow> ttas_owns s j" for i s t j
    by (induction rule: ttaslock_step.induct) (auto simp: ttas_owns_def)
qed

text \<open>C23: the test-and-test-and-set lock implements the abstract lock, although a waiting
  thread may overwrite the lock word while another thread holds it.\<close>

lemma ttaslock_refines_lock:
  assumes "reach ttaslock_start ttaslock_step s" and "ttaslock_step i s t"
  shows "lock_spec i (lock_holder ttas_owns s) (lock_holder ttas_owns t)"
  using assms by (rule ttas.refines_lock_spec)

definition ttas_w0 :: ttas_sys where
  "ttas_w0 = \<lparr>ttas_lock = ttaslock_init, ttas_pcs = (\<lambda>_. TtasIdle)\<rparr>"

definition ttas_w1 :: ttas_sys where
  "ttas_w1 = \<lparr>ttas_lock = \<lparr>ttas_state = 1\<rparr>, ttas_pcs = (\<lambda>_. TtasIdle)(3 := TtasHeld)\<rparr>"

lemma ttas_w_step: "reach ttaslock_start ttaslock_step ttas_w0" "ttaslock_step 3 ttas_w0 ttas_w1"
proof -
  show "reach ttaslock_start ttaslock_step ttas_w0"
    by (rule reach_init) (simp add: ttaslock_start_def ttas_w0_def)
  show "ttaslock_step 3 ttas_w0 ttas_w1"
    using ttas_try [of ttas_w0 3 True "\<lparr>ttas_state = 1\<rparr>"]
    by (simp add: ttas_w0_def ttas_w1_def ttaslock_tryacquire_def ttaslock_init_def vsync_simps)
qed

lemma ttaslock_refines_lock_witness:
  "ttaslock_step 3 ttas_w0 ttas_w1 \<and> lock_spec 3 (lock_holder ttas_owns ttas_w0) (lock_holder ttas_owns ttas_w1)"
  using ttaslock_refines_lock [OF ttas_w_step] ttas_w_step(2) by blast

end
