(* ===== verification/Ticketlock.thy ===== *)
theory Ticketlock
  imports Vatomic
begin

text \<open>
  The ticket lock of \<^verbatim>\<open>spinlock/ticketlock.h\<close>, with its 32-bit counters. The lock is shown
  to implement a first-in-first-out queue of threads for any number of threads below \<open>2 ^ 32\<close>,
  across every wrap-around of the counters. The queue is not part of the state: a forward
  simulation relates the counters and the tickets of the threads to it.
\<close>

section \<open>Operations\<close>

record ticketlock_t =
  tk_next :: u32
  tk_owner :: u32

definition ticketlock_init :: "ticketlock_t" where
  "ticketlock_init = \<lparr>tk_next = 0, tk_owner = 0\<rparr>"

datatype tk_acq_pc = KA_inc | KA_await u32

fun ticketlock_acquire :: "tk_acq_pc \<Rightarrow> ticketlock_t \<Rightarrow> (tk_acq_pc, unit) ctl \<times> ticketlock_t" where
  "ticketlock_acquire KA_inc l =
     (let (ticket, n) = vatomic_get_inc (tk_next l) in (Goto (KA_await ticket), l\<lparr>tk_next := n\<rparr>))"
| "ticketlock_acquire (KA_await ticket) l =
     ((case vatomic_await_eq ticket ticket (tk_owner l) of Goto _ \<Rightarrow> Goto (KA_await ticket) | Ret _ \<Rightarrow> Ret ()), l)"

datatype tk_try_pc = KT_read | KT_cmpxchg u32

fun ticketlock_tryacquire :: "tk_try_pc \<Rightarrow> ticketlock_t \<Rightarrow> (tk_try_pc, bool) ctl \<times> ticketlock_t" where
  "ticketlock_tryacquire KT_read l = (Goto (KT_cmpxchg (vatomic_read (tk_owner l))), l)"
| "ticketlock_tryacquire (KT_cmpxchg o1) l =
     (let (n, a) = vatomic_cmpxchg (tk_next l) o1 (o1 + 1) in (Ret (n = o1), l\<lparr>tk_next := a\<rparr>))"

datatype tk_rel_pc = KR_read | KR_write u32

fun ticketlock_release :: "tk_rel_pc \<Rightarrow> ticketlock_t \<Rightarrow> (tk_rel_pc, unit) ctl \<times> ticketlock_t" where
  "ticketlock_release KR_read l = (Goto (KR_write (vatomic_read (tk_owner l))), l)"
| "ticketlock_release (KR_write owner) l = (Ret (), l\<lparr>tk_owner := vatomic_write (tk_owner l) (owner + 1)\<rparr>)"

definition ticketlock_has_waiters :: "ticketlock_t \<Rightarrow> bool" where
  "ticketlock_has_waiters l \<longleftrightarrow> vatomic_read (tk_next l) - vatomic_read (tk_owner l) > 1"

section \<open>Threads\<close>

text \<open>
  \<open>tk_since i\<close> is auxiliary: it counts the releases since thread \<open>i\<close> read the owner in
  \<^verbatim>\<open>ticketlock_tryacquire\<close>. No step of the lock depends on it.
\<close>

datatype tk_pc = TkIdle | TkAcquire tk_acq_pc | TkTry tk_try_pc | TkHeld | TkRelease tk_rel_pc

record tk_sys =
  tk_lock :: ticketlock_t
  tk_pcs :: "tid \<Rightarrow> tk_pc"
  tk_since :: "tid \<Rightarrow> nat"

definition ticketlock_start :: "tk_sys \<Rightarrow> bool" where
  "ticketlock_start s \<longleftrightarrow> tk_lock s = ticketlock_init \<and> (\<forall>i. tk_pcs s i = TkIdle) \<and> (\<forall>i. tk_since s i = 0)"

inductive ticketlock_step :: "tid \<Rightarrow> tk_sys \<Rightarrow> tk_sys \<Rightarrow> bool" where
  tk_call: "tk_pcs s i = TkIdle \<Longrightarrow>
     ticketlock_step i s (s\<lparr>tk_pcs := (tk_pcs s)(i := TkAcquire KA_inc)\<rparr>)"
| tk_acquire: "tk_pcs s i = TkAcquire p \<Longrightarrow> ticketlock_acquire p (tk_lock s) = (r, l) \<Longrightarrow>
     ticketlock_step i s (s\<lparr>tk_lock := l,
       tk_pcs := (tk_pcs s)(i := case r of Goto p' \<Rightarrow> TkAcquire p' | Ret _ \<Rightarrow> TkHeld)\<rparr>)"
| tk_try_read: "tk_pcs s i = TkIdle \<Longrightarrow> ticketlock_tryacquire KT_read (tk_lock s) = (Goto p, l) \<Longrightarrow>
     ticketlock_step i s (s\<lparr>tk_lock := l, tk_pcs := (tk_pcs s)(i := TkTry p),
       tk_since := (tk_since s)(i := 0)\<rparr>)"
| tk_try_cas: "tk_pcs s i = TkTry p \<Longrightarrow> ticketlock_tryacquire p (tk_lock s) = (Ret ok, l) \<Longrightarrow>
     ticketlock_step i s (s\<lparr>tk_lock := l, tk_pcs := (tk_pcs s)(i := if ok then TkHeld else TkIdle)\<rparr>)"
| tk_rel_read: "tk_pcs s i = TkHeld \<Longrightarrow> ticketlock_release KR_read (tk_lock s) = (Goto p, l) \<Longrightarrow>
     ticketlock_step i s (s\<lparr>tk_lock := l, tk_pcs := (tk_pcs s)(i := TkRelease p)\<rparr>)"
| tk_rel_write: "tk_pcs s i = TkRelease p \<Longrightarrow> ticketlock_release p (tk_lock s) = (Ret (), l) \<Longrightarrow>
     ticketlock_step i s (s\<lparr>tk_lock := l, tk_pcs := (tk_pcs s)(i := TkIdle),
       tk_since := (\<lambda>j. tk_since s j + 1)\<rparr>)"

text \<open>
  The executions the theorems are about: threads \<open>0, \<dots>, N - 1\<close>, and no \<^verbatim>\<open>tryacquire\<close> is
  overtaken by so many releases between its two accesses that the 32-bit counter could return to
  the value it read.
\<close>

definition ticketlock_nstep :: "nat \<Rightarrow> tid \<Rightarrow> tk_sys \<Rightarrow> tk_sys \<Rightarrow> bool" where
  "ticketlock_nstep N i s t \<longleftrightarrow> i < N \<and> ticketlock_step i s t \<and>
     (\<forall>j o1. tk_pcs t j = TkTry (KT_cmpxchg o1) \<longrightarrow> tk_since t j + N < 2 ^ 32)"

definition tk_owns :: "tk_sys \<Rightarrow> tid \<Rightarrow> bool" where
  "tk_owns s i \<longleftrightarrow> (case tk_pcs s i of TkHeld \<Rightarrow> True | TkRelease _ \<Rightarrow> True | _ \<Rightarrow> False)"

section \<open>The queue of threads\<close>

fun queued :: "tk_pc \<Rightarrow> bool" where
  "queued (TkAcquire (KA_await t)) = True"
| "queued TkHeld = True"
| "queued (TkRelease p) = True"
| "queued _ = False"

fun place_ok :: "tk_pc \<Rightarrow> u32 \<Rightarrow> nat \<Rightarrow> bool" where
  "place_ok (TkAcquire (KA_await t)) owner k \<longleftrightarrow> t = owner + of_nat k"
| "place_ok TkHeld owner k \<longleftrightarrow> k = 0"
| "place_ok (TkRelease KR_read) owner k \<longleftrightarrow> False"
| "place_ok (TkRelease (KR_write w)) owner k \<longleftrightarrow> k = 0 \<and> w = owner"
| "place_ok _ owner k \<longleftrightarrow> False"

fun try_ok :: "tk_pc \<Rightarrow> u32 \<Rightarrow> nat \<Rightarrow> nat \<Rightarrow> bool" where
  "try_ok (TkTry (KT_cmpxchg o1)) owner since N \<longleftrightarrow> o1 = owner - of_nat since \<and> since + N < 2 ^ 32"
| "try_ok (TkTry KT_read) owner since N \<longleftrightarrow> False"
| "try_ok _ owner since N \<longleftrightarrow> True"

definition tk_rel :: "nat \<Rightarrow> tk_sys \<Rightarrow> tid list \<Rightarrow> bool" where
  "tk_rel N s q \<longleftrightarrow> distinct q \<and> set q \<subseteq> {..<N} \<and> (\<forall>i. i \<in> set q \<longleftrightarrow> queued (tk_pcs s i)) \<and>
     tk_next (tk_lock s) = tk_owner (tk_lock s) + of_nat (length q) \<and>
     (\<forall>k<length q. place_ok (tk_pcs s (q ! k)) (tk_owner (tk_lock s)) k) \<and>
     (\<forall>i. try_ok (tk_pcs s i) (tk_owner (tk_lock s)) (tk_since s i) N)"

lemma tk_rel_length: "tk_rel N s q \<Longrightarrow> length q \<le> N"
  unfolding tk_rel_def by (metis card_lessThan card_mono distinct_card finite_lessThan)

lemma place_place:
  assumes "tk_rel N s q" and "queued (tk_pcs s i)"
  obtains k where "k < length q" and "q ! k = i" and "place_ok (tk_pcs s i) (tk_owner (tk_lock s)) k"
  using assms by (metis in_set_conv_nth tk_rel_def)

lemma head_place:
  assumes "tk_rel N s q" and "tk_pcs s i = TkHeld \<or> (\<exists>p. tk_pcs s i = TkRelease p)"
  obtains r where "q = i # r"
proof -
  have "queued (tk_pcs s i)" using assms(2) by auto
  from place_place [OF assms(1) this] obtain k
    where k: "k < length q" "q ! k = i" "place_ok (tk_pcs s i) (tk_owner (tk_lock s)) k" by blast
  then have "k = 0" using assms(2) by (auto elim: place_ok.elims)
  with k(1,2) show thesis by (cases q) (auto intro: that)
qed

text \<open>Only thread \<open>i\<close> moves, it keeps its place, the lock words are unchanged.\<close>

lemma tk_rel_keep:
  assumes "tk_rel N s q" and "queued pc \<longleftrightarrow> queued (tk_pcs s i)"
    and "\<And>k. k < length q \<Longrightarrow> q ! k = i \<Longrightarrow> place_ok pc (tk_owner (tk_lock s)) k"
    and "try_ok pc (tk_owner (tk_lock s)) (tk_since t i) N"
    and "tk_lock t = tk_lock s" and "tk_pcs t = (tk_pcs s)(i := pc)"
    and "\<And>j. j \<noteq> i \<Longrightarrow> tk_since t j = tk_since s j"
  shows "tk_rel N t q"
  using assms by (auto simp: tk_rel_def)

lemma sim_draw:
  assumes "tk_rel N s q" and "i < N" and "tk_pcs s i = TkAcquire KA_inc"
    and "ticketlock_acquire KA_inc (tk_lock s) = (r, l)"
    and t: "t = s\<lparr>tk_lock := l, tk_pcs := (tk_pcs s)(i := case r of Goto p' \<Rightarrow> TkAcquire p' | Ret _ \<Rightarrow> TkHeld)\<rparr>"
  shows "tk_rel N t (q @ [i]) \<and> qlock_spec i q (q @ [i])"
proof -
  have i: "i \<notin> set q" using assms(1,3) by (auto simp: tk_rel_def)
  have l: "l = (tk_lock s)\<lparr>tk_next := tk_next (tk_lock s) + 1\<rparr>" "r = Goto (KA_await (tk_next (tk_lock s)))"
    using assms(4) by (auto simp: vsync_simps)
  have pl: "place_ok (tk_pcs t ((q @ [i]) ! k)) (tk_owner (tk_lock t)) k" if "k < length (q @ [i])" for k
  proof (cases "k = length q")
    case False
    then have k: "k < length q" using that by simp
    then have "q ! k \<noteq> i" using i by (metis nth_mem)
    with k assms(1) show ?thesis by (simp add: t l tk_rel_def nth_append)
  qed (use assms(1) in \<open>simp add: t l tk_rel_def\<close>)
  have "tk_rel N t (q @ [i])"
    unfolding tk_rel_def
  proof (intro conjI)
    show "\<forall>k<length (q @ [i]). place_ok (tk_pcs t ((q @ [i]) ! k)) (tk_owner (tk_lock t)) k"
      using pl by blast
  qed (use assms(1,2) i in \<open>auto simp: tk_rel_def t l\<close>)
  with i show ?thesis by (simp add: q_enter)
qed

lemma sim_await:
  assumes "tk_rel N s q" and "N < 2 ^ 32" and pc: "tk_pcs s i = TkAcquire (KA_await tk)"
    and "ticketlock_acquire (KA_await tk) (tk_lock s) = (r, l)"
    and t: "t = s\<lparr>tk_lock := l, tk_pcs := (tk_pcs s)(i := case r of Goto p' \<Rightarrow> TkAcquire p' | Ret _ \<Rightarrow> TkHeld)\<rparr>"
  shows "tk_rel N t q"
proof (cases "tk_owner (tk_lock s) = tk")
  case True
  then have r: "r = Ret ()" "l = tk_lock s" using assms(4) by (auto simp: vatomic_await_eq_def vsync_simps)
  have z: "k = 0" if "k < length q" "q ! k = i" for k
  proof -
    have "place_ok (tk_pcs s (q ! k)) (tk_owner (tk_lock s)) k"
      using assms(1) that(1) by (simp add: tk_rel_def)
    then have "(of_nat k :: u32) = of_nat 0" using that(2) pc True by simp
    moreover have "k < 2 ^ 32" using that(1) tk_rel_length [OF assms(1)] assms(2) by linarith
    ultimately show "k = 0" using of_nat_eq_small [of k 0, where 'a = 32] by simp
  qed
  show ?thesis
    by (rule tk_rel_keep [OF assms(1), of TkHeld i]) (use pc z in \<open>auto simp: t r\<close>)
next
  case False
  then have r: "r = Goto (KA_await tk)" "l = tk_lock s"
    using assms(4) by (auto simp: vatomic_await_eq_def vsync_simps)
  have "t = s" by (simp add: t r pc [symmetric])
  with assms(1) show ?thesis by simp
qed

lemma sim_try_cas:
  assumes "tk_rel N s q" and "i < N" and "N < 2 ^ 32" and pc: "tk_pcs s i = TkTry (KT_cmpxchg o1)"
    and "ticketlock_tryacquire (KT_cmpxchg o1) (tk_lock s) = (Ret ok, l)"
    and t: "t = s\<lparr>tk_lock := l, tk_pcs := (tk_pcs s)(i := if ok then TkHeld else TkIdle)\<rparr>"
  shows "if ok then tk_rel N t [i] \<and> q = [] else tk_rel N t q"
proof (cases "tk_next (tk_lock s) = o1")
  case True
  then have r: ok "l = (tk_lock s)\<lparr>tk_next := o1 + 1\<rparr>" using assms(5) by (auto simp: vsync_simps)
  have tr: "o1 = tk_owner (tk_lock s) - of_nat (tk_since s i)" "tk_since s i + N < 2 ^ 32"
    using assms(1) pc by (auto simp: tk_rel_def dest!: spec [of _ i])
  have "tk_owner (tk_lock s) + of_nat (length q) = o1" using assms(1) True by (simp add: tk_rel_def)
  then have "(of_nat (length q + tk_since s i) :: u32) = of_nat 0"
    using tr(1) by (simp add: algebra_simps)
  moreover have "length q + tk_since s i < 2 ^ 32" using tr(2) tk_rel_length [OF assms(1)] by simp
  ultimately have z: "length q = 0" "tk_since s i = 0"
    using of_nat_eq_small [of "length q + tk_since s i" 0, where 'a = 32] by auto
  have "tk_rel N t [i]"
    using assms(1,2) z tr(1) by (auto simp: tk_rel_def t r)
  with r z show ?thesis by simp
next
  case False
  then have r: "\<not> ok" "l = tk_lock s" using assms(5) by (auto simp: vsync_simps)
  moreover have "tk_rel N t q"
    by (rule tk_rel_keep [OF assms(1), of TkIdle i])
       (use assms(1) pc in \<open>auto simp: t r tk_rel_def\<close>)
  ultimately show ?thesis by simp
qed

lemma sim_release:
  assumes "tk_rel N s q" and pc: "tk_pcs s i = TkRelease p"
    and "ticketlock_release p (tk_lock s) = (Ret (), l)"
    and t: "t = s\<lparr>tk_lock := l, tk_pcs := (tk_pcs s)(i := TkIdle), tk_since := (\<lambda>j. tk_since s j + 1)\<rparr>"
    and bound: "\<forall>j o1. tk_pcs t j = TkTry (KT_cmpxchg o1) \<longrightarrow> tk_since t j + N < 2 ^ 32"
  shows "\<exists>r. q = i # r \<and> tk_rel N t r"
proof -
  obtain r where q: "q = i # r" using head_place [OF assms(1)] pc by blast
  have "place_ok (tk_pcs s (q ! 0)) (tk_owner (tk_lock s)) 0"
    using assms(1) q by (auto simp: tk_rel_def)
  then have p: "p = KR_write (tk_owner (tk_lock s))" using pc q by (cases p) auto
  then have l: "l = (tk_lock s)\<lparr>tk_owner := tk_owner (tk_lock s) + 1\<rparr>"
    using assms(3) by (auto simp: vsync_simps)
  have i: "i \<notin> set r" using assms(1) q by (simp add: tk_rel_def)
  have "place_ok (tk_pcs t (r ! k)) (tk_owner (tk_lock t)) k" if "k < length r" for k
  proof -
    have "place_ok (tk_pcs s (q ! Suc k)) (tk_owner (tk_lock s)) (Suc k)"
      using assms(1) q that by (auto simp: tk_rel_def)
    moreover have "r ! k \<noteq> i" using i that by (metis nth_mem)
    ultimately show ?thesis
      using q by (cases "(tk_pcs s (r ! k), tk_owner (tk_lock s), Suc k)" rule: place_ok.cases)
        (auto simp: t l)
  qed
  moreover have "try_ok (tk_pcs t j) (tk_owner (tk_lock t)) (tk_since t j) N" for j
    using assms(1) bound
    by (cases "(tk_pcs t j, tk_owner (tk_lock t), tk_since t j, N)" rule: try_ok.cases)
       (auto simp: tk_rel_def t l split: if_splits dest!: spec [of _ j])
  ultimately have "tk_rel N t r"
    using assms(1) q i by (auto simp: tk_rel_def t l)
  with q show ?thesis by blast
qed

lemma ticketlock_sim_step:
  assumes "N < 2 ^ 32" and "tk_rel N s q" and "ticketlock_nstep N i s t"
  shows "\<exists>q'. tk_rel N t q' \<and> (q' = q \<or> qlock_spec i q q')"
proof -
  have i: "i < N" and st: "ticketlock_step i s t"
    and bound: "\<forall>j o1. tk_pcs t j = TkTry (KT_cmpxchg o1) \<longrightarrow> tk_since t j + N < 2 ^ 32"
    using assms(3) by (auto simp: ticketlock_nstep_def)
  from st show ?thesis
  proof cases
    case tk_call
    have "tk_rel N t q"
      by (rule tk_rel_keep [OF assms(2), of "TkAcquire KA_inc" i])
         (use assms(2) tk_call in \<open>auto simp: tk_rel_def\<close>)
    then show ?thesis by blast
  next
    case (tk_acquire p r l)
    show ?thesis
    proof (cases p)
      case KA_inc
      then show ?thesis using sim_draw [OF assms(2) i _ _ tk_acquire(1)] tk_acquire by blast
    next
      case (KA_await tk)
      then show ?thesis using sim_await [OF assms(2,1) _ _ tk_acquire(1)] tk_acquire by blast
    qed
  next
    case (tk_try_read p l)
    have "tk_rel N t q"
      by (rule tk_rel_keep [OF assms(2), of "TkTry p" i])
         (use assms(1,2) tk_try_read in \<open>auto simp: tk_rel_def vsync_simps\<close>)
    then show ?thesis by blast
  next
    case (tk_try_cas p ok l)
    have "\<exists>o1. p = KT_cmpxchg o1" using tk_try_cas(3) by (cases p) auto
    then obtain o1 where p: "p = KT_cmpxchg o1" by blast
    have "if ok then tk_rel N t [i] \<and> q = [] else tk_rel N t q"
      using sim_try_cas [OF assms(2) i assms(1) _ _ tk_try_cas(1), of o1] tk_try_cas(2,3) p by blast
    moreover have "qlock_spec i [] [i]" using q_enter [of i "[]"] by simp
    ultimately show ?thesis by (metis (full_types))
  next
    case (tk_rel_read p l)
    have "tk_rel N t q"
      by (rule tk_rel_keep [OF assms(2), of "TkRelease p" i])
         (use assms(2) tk_rel_read in \<open>auto simp: tk_rel_def vsync_simps\<close>)
    then show ?thesis by blast
  next
    case (tk_rel_write p l)
    then show ?thesis using sim_release [OF assms(2) _ _ _ bound] by (metis q_leave)
  qed
qed

lemma owns_head:
  assumes "tk_rel N s q" and "tk_owns s i"
  shows "\<exists>r. q = i # r"
proof -
  have "tk_pcs s i = TkHeld \<or> (\<exists>p. tk_pcs s i = TkRelease p)"
    using assms(2) by (simp add: tk_owns_def split: tk_pc.splits)
  from head_place [OF assms(1) this] show ?thesis by blast
qed

text \<open>The lock as a queue, for each number of threads.\<close>

interpretation tk: fifo_lock "\<lambda>s. ticketlock_start s \<and> N < 2 ^ 32" "ticketlock_nstep N"
  "\<lambda>s q. N < 2 ^ 32 \<and> tk_rel N s q" tk_owns "\<lambda>s i. queued (tk_pcs s i)" for N
proof unfold_locales
  show "\<exists>q. q = [] \<and> N < 2 ^ 32 \<and> tk_rel N s q" if "ticketlock_start s \<and> N < 2 ^ 32" for s N
    using that by (auto simp: ticketlock_start_def tk_rel_def ticketlock_init_def)
  show "\<exists>q'. (N < 2 ^ 32 \<and> tk_rel N t q') \<and> (q' = q \<or> qlock_spec i q q')"
    if "N < 2 ^ 32 \<and> tk_rel N s q" and "ticketlock_nstep N i s t" for s q i t N
    using that ticketlock_sim_step by blast
  show "q \<noteq> [] \<and> hd q = i" if "N < 2 ^ 32 \<and> tk_rel N s q" and "tk_owns s i" for s q i N
    using owns_head [of N s q i] that by auto
  show "distinct q \<and> set q = {i. queued (tk_pcs s i)}" if "N < 2 ^ 32 \<and> tk_rel N s q" for s q N
    using that by (auto simp: tk_rel_def)
  show "queued (tk_pcs t j) = queued (tk_pcs s j) \<and> tk_owns t j = tk_owns s j"
    if "ticketlock_nstep N i s t" and "j \<noteq> i" for s t i j N
    using that by (auto simp: ticketlock_nstep_def tk_owns_def elim!: ticketlock_step.cases)
  show "tk_owns t i" if "ticketlock_nstep N i s t" "tk_owns s i" "queued (tk_pcs t i)" for s t i N
    using that by (auto simp: ticketlock_nstep_def tk_owns_def elim!: ticketlock_step.cases split: tk_pc.splits)
  show "tk_owns s i" if "ticketlock_nstep N i s t" "queued (tk_pcs s i)" "\<not> queued (tk_pcs t i)" for s t i N
  proof (rule ccontr)
    assume "\<not> tk_owns s i"
    with that(2) obtain x where x: "tk_pcs s i = TkAcquire (KA_await x)"
      by (auto simp: tk_owns_def elim!: queued.elims(2))
    from that(1) have "ticketlock_step i s t" by (simp add: ticketlock_nstep_def)
    then show False
      by cases (use that(3) x in \<open>auto simp: vatomic_await_eq_def vsync_simps Let_def split: if_splits\<close>)
  qed
qed

lemma reach_tk_rel:
  assumes "reach ticketlock_start (ticketlock_nstep N) s" and "N < 2 ^ 32"
  shows "\<exists>q. tk_rel N s q"
  using tk.fifo [of N s] assms by auto

lemma tk_waiting:
  assumes "queued (tk_pcs s i)" and "\<not> tk_owns s i"
  shows "\<exists>t. tk_pcs s i = TkAcquire (KA_await t)"
  using assms by (auto simp: tk_owns_def elim!: queued.elims(2))

text \<open>The counters and the tickets, when the queue is split into an owner and the waiting threads.\<close>

lemma tk_rel_split:
  assumes rel: "tk_rel N s q" and N: "N < 2 ^ 32" and q: "q = pre @ waiting"
    and w: "\<And>i. i \<in> set waiting \<Longrightarrow> \<not> tk_owns s i"
  shows "unat (tk_next (tk_lock s) - tk_owner (tk_lock s)) = length waiting + length pre"
    and "k < length waiting \<Longrightarrow> tk_pcs s (waiting ! k) = TkAcquire (KA_await (tk_owner (tk_lock s) + of_nat (k + length pre)))"
proof -
  have "length q < 2 ^ 32" using tk_rel_length [OF rel] N by simp
  then have "unat (of_nat (length q) :: u32) = length q" by (simp add: unat_of_nat_small)
  moreover have "tk_next (tk_lock s) - tk_owner (tk_lock s) = of_nat (length q)" using rel by (simp add: tk_rel_def)
  ultimately have "unat (tk_next (tk_lock s) - tk_owner (tk_lock s)) = length q" by metis
  then show "unat (tk_next (tk_lock s) - tk_owner (tk_lock s)) = length waiting + length pre" using q by simp
  assume k: "k < length waiting"
  then have i: "length pre + k < length q" "q ! (length pre + k) = waiting ! k" using q by auto
  have "queued (tk_pcs s (waiting ! k))" using rel k q by (auto simp: tk_rel_def)
  with w k obtain t where t: "tk_pcs s (waiting ! k) = TkAcquire (KA_await t)" using tk_waiting nth_mem by blast
  have "place_ok (tk_pcs s (q ! (length pre + k))) (tk_owner (tk_lock s)) (length pre + k)"
    using rel i(1) by (simp add: tk_rel_def)
  with t i(2) show "tk_pcs s (waiting ! k) = TkAcquire (KA_await (tk_owner (tk_lock s) + of_nat (k + length pre)))"
    by (simp add: add.commute)
qed

section \<open>Properties\<close>

text \<open>Mutual exclusion of the ticket lock with its 32-bit counters, for fewer than
  \<open>2 ^ 32\<close> threads that call acquire, tryacquire and release in any interleaving and through
  any number of wrap-arounds.\<close>

lemma ticketlock_mutual_exclusion:
  assumes "N < 2 ^ 32" and "reach ticketlock_start (ticketlock_nstep N) s"
    and "tk_owns s i" and "tk_owns s j"
  shows "i = j"
proof -
  obtain q where q: "tk_rel N s q" using reach_tk_rel assms(1,2) by blast
  then show ?thesis using owns_head [OF q] assms(3,4) by blast
qed

text \<open>C1: the ticket lock is first-in-first-out, with its 32-bit counters and across every wrap-around of
  them, for fewer than \<open>2 ^ 32\<close> threads that call acquire, tryacquire and release in every interleaving in
  which no tryacquire stalls between its two accesses while \<open>2 ^ 32 - N\<close> releases or more happen. Over any
  such execution, the threads entered the lock exactly in the order in which they drew their tickets, and
  the threads that drew a ticket and have not entered are waiting: the one at place \<open>k\<close> holds the \<open>k\<close>-th
  ticket after the owner's. The distance of the two counters counts the owner and the waiting threads,
  \<^verbatim>\<open>ticketlock_has_waiters\<close> compares it with one, and when nobody owns the lock the next access of the
  first waiting thread gives it the lock.\<close>

lemma ticketlock_fifo:
  assumes "N < 2 ^ 32"
    and "lock_hist ticketlock_start (ticketlock_nstep N) (\<lambda>s i. queued (tk_pcs s i)) tk_owns s joined entered"
  shows "\<exists>waiting. fifo_order (\<lambda>i. queued (tk_pcs s i)) (tk_owns s) joined entered waiting \<and>
    unat (tk_next (tk_lock s) - tk_owner (tk_lock s)) = length waiting + held (tk_owns s) \<and>
    (\<forall>k<length waiting. tk_pcs s (waiting ! k) =
       TkAcquire (KA_await (tk_owner (tk_lock s) + of_nat (k + held (tk_owns s))))) \<and>
    (ticketlock_has_waiters (tk_lock s) \<longleftrightarrow> 1 < length waiting + held (tk_owns s)) \<and>
    ((\<nexists>i. tk_owns s i) \<and> waiting \<noteq> [] \<longrightarrow> (\<exists>t. tk_pcs s (hd waiting) = TkAcquire (KA_await t) \<and>
       ticketlock_acquire (KA_await t) (tk_lock s) = (Ret (), tk_lock s)))"
proof -
  let ?l = "tk_lock s"
  have h: "lock_hist (\<lambda>s. ticketlock_start s \<and> N < 2 ^ 32) (ticketlock_nstep N) (\<lambda>s i. queued (tk_pcs s i)) tk_owns
      s joined entered" using assms by simp
  obtain pre waiting where w: "fifo_order (\<lambda>i. queued (tk_pcs s i)) (tk_owns s) joined entered waiting"
    and pre: "tk_rel N s (pre @ waiting)" "length pre = held (tk_owns s)"
    using tk.hist_fifo [OF h] by blast
  have nw: "\<not> tk_owns s i" if "i \<in> set waiting" for i using w that by (auto simp: fifo_order_def)
  note sp = tk_rel_split [OF pre(1) assms(1) refl nw, unfolded pre(2)]
  have "ticketlock_has_waiters ?l \<longleftrightarrow> 1 < length waiting + held (tk_owns s)"
    using sp(1) by (simp add: ticketlock_has_waiters_def word_less_nat_alt vsync_simps)
  moreover have "ticketlock_acquire (KA_await (tk_owner ?l)) ?l = (Ret (), ?l)"
    by (simp add: vatomic_await_eq_def vsync_simps)
  moreover have "tk_pcs s (hd waiting) = TkAcquire (KA_await (tk_owner ?l))" if "\<nexists>i. tk_owns s i" "waiting \<noteq> []"
    using sp(2) [of 0] that by (simp add: held_def hd_conv_nth)
  ultimately show ?thesis using w sp by (intro exI [of _ waiting]) blast
qed

text \<open>\<^verbatim>\<open>ticketlock_has_waiters\<close> is true exactly when two or more threads hold a
  ticket, hence when some thread waits behind the owner.\<close>

lemma ticketlock_has_waiters_iff:
  assumes "N < 2 ^ 32" and "reach ticketlock_start (ticketlock_nstep N) s"
  shows "ticketlock_has_waiters (tk_lock s) \<longleftrightarrow>
    (\<exists>i j. i \<noteq> j \<and> queued (tk_pcs s i) \<and> queued (tk_pcs s j))"
proof -
  obtain q where q: "tk_rel N s q" using reach_tk_rel assms by blast
  have len: "length q < 2 ^ 32" using tk_rel_length [OF q] assms(1) by simp
  have "ticketlock_has_waiters (tk_lock s) \<longleftrightarrow> (1 :: u32) < of_nat (length q)"
    using q by (simp add: ticketlock_has_waiters_def tk_rel_def vsync_simps)
  also have "\<dots> \<longleftrightarrow> 1 < length q"
    using len by (simp add: word_less_nat_alt unat_of_nat_small)
  also have "\<dots> \<longleftrightarrow> (\<exists>i\<in>set q. \<exists>j\<in>set q. i \<noteq> j)"
  proof
    assume "1 < length q"
    moreover have "distinct q" using q by (simp add: tk_rel_def)
    ultimately show "\<exists>i\<in>set q. \<exists>j\<in>set q. i \<noteq> j"
      by (cases q rule: remdups_adj.cases) auto
  next
    assume "\<exists>i\<in>set q. \<exists>j\<in>set q. i \<noteq> j"
    then show "1 < length q" by (cases q rule: remdups_adj.cases) auto
  qed
  finally show ?thesis using q by (auto simp: tk_rel_def)
qed

section \<open>A concrete execution\<close>

text \<open>Thread 0 has the lock, thread 1 waits with ticket 1.\<close>

definition tk_w :: "nat \<Rightarrow> tk_sys" where
  "tk_w n = \<lparr>tk_lock = \<lparr>tk_next = (if n < 2 then 0 else if n < 5 then 1 else 2), tk_owner = 0\<rparr>,
     tk_pcs = (\<lambda>i. if i = 1 \<and> n = 4 then TkAcquire KA_inc else if i = 1 \<and> n = 5 then TkAcquire (KA_await 1)
        else if i = 0 \<and> n = 1 then TkAcquire KA_inc else if i = 0 \<and> n = 2 then TkAcquire (KA_await 0)
        else if i = 0 \<and> n \<ge> 3 then TkHeld else TkIdle),
     tk_since = (\<lambda>_. 0)\<rparr>"

lemma tk_w_steps:
  "ticketlock_nstep 2 0 (tk_w 0) (tk_w 1)" "ticketlock_nstep 2 0 (tk_w 1) (tk_w 2)"
  "ticketlock_nstep 2 0 (tk_w 2) (tk_w 3)" "ticketlock_nstep 2 1 (tk_w 3) (tk_w 4)"
  "ticketlock_nstep 2 1 (tk_w 4) (tk_w 5)"
proof -
  note defs = tk_w_def ticketlock_nstep_def vsync_simps vatomic_await_eq_def fun_upd_def
  show "ticketlock_nstep 2 0 (tk_w 0) (tk_w 1)"
    using tk_call [of "tk_w 0" 0] by (simp add: defs fun_eq_iff cong: if_cong)
  show "ticketlock_nstep 2 0 (tk_w 1) (tk_w 2)"
    using tk_acquire [of "tk_w 1" 0 KA_inc "Goto (KA_await 0)" "\<lparr>tk_next = 1, tk_owner = 0\<rparr>"]
    by (simp add: defs fun_eq_iff cong: if_cong)
  show "ticketlock_nstep 2 0 (tk_w 2) (tk_w 3)"
    using tk_acquire [of "tk_w 2" 0 "KA_await 0" "Ret ()" "\<lparr>tk_next = 1, tk_owner = 0\<rparr>"]
    by (simp add: defs fun_eq_iff cong: if_cong)
  show "ticketlock_nstep 2 1 (tk_w 3) (tk_w 4)"
    using tk_call [of "tk_w 3" 1] by (simp add: defs fun_eq_iff cong: if_cong)
  show "ticketlock_nstep 2 1 (tk_w 4) (tk_w 5)"
    using tk_acquire [of "tk_w 4" 1 KA_inc "Goto (KA_await 1)" "\<lparr>tk_next = 2, tk_owner = 0\<rparr>"]
    by (simp add: defs fun_eq_iff cong: if_cong)
qed

lemma tk_w_hist:
  "lock_hist ticketlock_start (ticketlock_nstep 2) (\<lambda>s i. queued (tk_pcs s i)) tk_owns (tk_w 5) [0, 1] [0]"
proof -
  have "lock_hist ticketlock_start (ticketlock_nstep 2) (\<lambda>s i. queued (tk_pcs s i)) tk_owns (tk_w 0) [] []"
    by (rule lh_init) (simp add: ticketlock_start_def ticketlock_init_def tk_w_def)
  from this [THEN lh_step, OF tk_w_steps(1), THEN lh_step, OF tk_w_steps(2), THEN lh_step,
      OF tk_w_steps(3), THEN lh_step, OF tk_w_steps(4), THEN lh_step, OF tk_w_steps(5)]
  show ?thesis by (simp add: turned_def tk_w_def tk_owns_def)
qed

lemma ticketlock_fifo_witness:
  "tk_owns (tk_w 5) 0 \<and> ticketlock_has_waiters (tk_lock (tk_w 5)) \<and> (\<exists>waiting. waiting = [1] \<and>
     fifo_order (\<lambda>i. queued (tk_pcs (tk_w 5) i)) (tk_owns (tk_w 5)) [0, 1] [0] waiting)"
proof -
  have own: "tk_owns (tk_w 5) 0" by (simp add: tk_owns_def tk_w_def)
  obtain waiting where w: "fifo_order (\<lambda>i. queued (tk_pcs (tk_w 5) i)) (tk_owns (tk_w 5)) [0, 1] [0] waiting"
    "ticketlock_has_waiters (tk_lock (tk_w 5)) \<longleftrightarrow> 1 < length waiting + held (tk_owns (tk_w 5))"
    using ticketlock_fifo [OF _ tk_w_hist] by auto
  then have "waiting = [1]" by (simp add: fifo_order_def)
  moreover have "held (tk_owns (tk_w 5)) = 1" using own by (auto simp: held_def)
  ultimately show ?thesis using own w by simp
qed

end
