(* ===== verification/Rwlock.thy ===== *)
theory Rwlock
  imports Vatomic
begin

text \<open>
  The counting semaphore (\<^verbatim>\<open>spinlock/semaphore.h\<close>) and the readers-writer lock built on it
  (\<^verbatim>\<open>spinlock/rwlock.h\<close>). Operations that make several accesses are programs of single
  accesses; a thread of the readers-writer lock runs the programs of the semaphore inside its own.
  The invariant is conservation of permits: the counter and what the threads hold add up to the
  initial number, in natural numbers, so that the 32-bit counter never wraps.
\<close>

section \<open>Semaphore\<close>

record semaphore_t =
  sem_s :: u32

definition semaphore_init :: "u32 \<Rightarrow> semaphore_t" where
  "semaphore_init n = \<lparr>sem_s = n\<rparr>"

definition semaphore_acquire :: "u32 \<Rightarrow> u32 await_rmw_pc \<Rightarrow> semaphore_t \<Rightarrow> (u32 await_rmw_pc, unit) ctl \<times> semaphore_t" where
  "semaphore_acquire i l s =
     (let (r, a) = vatomic_await_ge_sub i i l (sem_s s) in (map_ctl id (\<lambda>_. ()) r, s\<lparr>sem_s := a\<rparr>))"

datatype sem_try_pc = ST_read | ST_cmpxchg u32

fun semaphore_tryacquire :: "u32 \<Rightarrow> sem_try_pc \<Rightarrow> semaphore_t \<Rightarrow> (sem_try_pc, bool) ctl \<times> semaphore_t" where
  "semaphore_tryacquire i ST_read s =
     (let old = vatomic_read (sem_s s) in (if old < i then Ret False else Goto (ST_cmpxchg old), s))"
| "semaphore_tryacquire i (ST_cmpxchg old) s =
     (let (cur, a) = vatomic_cmpxchg (sem_s s) old (old - i) in (Ret (cur = old), s\<lparr>sem_s := a\<rparr>))"

definition semaphore_release :: "u32 \<Rightarrow> semaphore_t \<Rightarrow> semaphore_t" where
  "semaphore_release i s = s\<lparr>sem_s := vatomic_add (sem_s s) i\<rparr>"

text \<open>A pending compare-and-swap only ever takes permits that were there.\<close>

abbreviation sem_acq_ok :: "u32 \<Rightarrow> u32 await_rmw_pc \<Rightarrow> bool" where
  "sem_acq_ok i \<equiv> await_rmw_ok (\<lambda>cur. i \<le> cur)"

fun sem_try_ok :: "u32 \<Rightarrow> sem_try_pc \<Rightarrow> bool" where
  "sem_try_ok i ST_read \<longleftrightarrow> True"
| "sem_try_ok i (ST_cmpxchg old) \<longleftrightarrow> i \<le> old"

lemma sem_acq_ok_read [simp]: "sem_acq_ok i AR_read"
  by (rule await_rmw.ok_start)

lemma semaphore_acquire_cases:
  assumes "semaphore_acquire i l s = (r, s')" and "sem_acq_ok i l"
  obtains (wait) l' where "r = Goto l'" and "s' = s" and "sem_acq_ok i l'"
  | (take) "r = Ret ()" and "unat (sem_s s') + unat i = unat (sem_s s)"
proof -
  obtain r' a where st: "vatomic_await_ge_sub i i l (sem_s s) = (r', a)" by fastforce
  from st assms(2) show thesis
  proof (cases rule: await_ge_sub_cases)
    case (goto l')
    with st assms(1) show thesis by (intro wait [of l']) (auto simp: semaphore_acquire_def)
  next
    case ret
    with st assms(1) show thesis
      by (intro take) (auto simp: semaphore_acquire_def unat_sub word_le_nat_alt)
  qed
qed

lemma semaphore_tryacquire_cases:
  assumes "semaphore_tryacquire i l s = (r, s')" and "sem_try_ok i l"
  obtains (wait) l' where "r = Goto l'" and "s' = s" and "sem_try_ok i l'"
  | (fail) "r = Ret False" and "s' = s"
  | (take) "r = Ret True" and "unat (sem_s s') + unat i = unat (sem_s s)"
proof (cases l)
  case ST_read
  with assms that show thesis by (auto simp: vsync_simps Let_def not_less split: if_splits)
next
  case (ST_cmpxchg old)
  show thesis
  proof (cases "sem_s s = old")
    case True
    with assms ST_cmpxchg show thesis by (intro take) (auto simp: vsync_simps unat_sub word_le_nat_alt)
  next
    case False
    with assms ST_cmpxchg show thesis by (intro fail) (auto simp: vsync_simps)
  qed
qed

lemma semaphore_release_unat:
  assumes "unat (sem_s s) + unat i < 2 ^ 32"
  shows "unat (sem_s (semaphore_release i s)) = unat (sem_s s) + unat i"
  using assms by (simp add: semaphore_release_def vsync_simps unat_word_ariths)

section \<open>Threads of the semaphore\<close>

datatype sem_pc = SemIdle | SemAcquire u32 "u32 await_rmw_pc" | SemTry u32 sem_try_pc | SemHeld u32

record sem_sys =
  sem_obj :: semaphore_t
  sem_pcs :: "tid \<Rightarrow> sem_pc"

definition semaphore_start :: "u32 \<Rightarrow> sem_sys \<Rightarrow> bool" where
  "semaphore_start n s \<longleftrightarrow> sem_obj s = semaphore_init n \<and> (\<forall>i. sem_pcs s i = SemIdle)"

inductive semaphore_step :: "nat \<Rightarrow> tid \<Rightarrow> sem_sys \<Rightarrow> sem_sys \<Rightarrow> bool" for N where
  sem_call: "t < N \<Longrightarrow> sem_pcs s t = SemIdle \<Longrightarrow> p \<in> {SemAcquire i AR_read, SemTry i ST_read} \<Longrightarrow>
     semaphore_step N t s (s\<lparr>sem_pcs := (sem_pcs s)(t := p)\<rparr>)"
| sem_acquire: "t < N \<Longrightarrow> sem_pcs s t = SemAcquire i l \<Longrightarrow> semaphore_acquire i l (sem_obj s) = (r, o') \<Longrightarrow>
     semaphore_step N t s (s\<lparr>sem_obj := o',
       sem_pcs := (sem_pcs s)(t := case r of Goto l' \<Rightarrow> SemAcquire i l' | Ret _ \<Rightarrow> SemHeld i)\<rparr>)"
| sem_try: "t < N \<Longrightarrow> sem_pcs s t = SemTry i l \<Longrightarrow> semaphore_tryacquire i l (sem_obj s) = (r, o') \<Longrightarrow>
     semaphore_step N t s (s\<lparr>sem_obj := o',
       sem_pcs := (sem_pcs s)(t := case r of Goto l' \<Rightarrow> SemTry i l' | Ret ok \<Rightarrow> if ok then SemHeld i else SemIdle)\<rparr>)"
| sem_release: "t < N \<Longrightarrow> sem_pcs s t = SemHeld i \<Longrightarrow>
     semaphore_step N t s (s\<lparr>sem_obj := semaphore_release i (sem_obj s), sem_pcs := (sem_pcs s)(t := SemIdle)\<rparr>)"

fun sem_held :: "sem_pc \<Rightarrow> nat" where
  "sem_held (SemHeld i) = unat i"
| "sem_held _ = 0"

fun sem_pc_ok :: "sem_pc \<Rightarrow> bool" where
  "sem_pc_ok (SemAcquire i l) \<longleftrightarrow> sem_acq_ok i l"
| "sem_pc_ok (SemTry i l) \<longleftrightarrow> sem_try_ok i l"
| "sem_pc_ok _ \<longleftrightarrow> True"

definition sem_inv :: "nat \<Rightarrow> u32 \<Rightarrow> sem_sys \<Rightarrow> bool" where
  "sem_inv N n s \<longleftrightarrow> (\<forall>t. sem_pc_ok (sem_pcs s t)) \<and>
     unat (sem_s (sem_obj s)) + (\<Sum>t<N. sem_held (sem_pcs s t)) = unat n"

lemma sem_inv_move:
  assumes "sem_inv N n s" and "t < N" and "sem_pc_ok (sem_pcs s' t)"
    and "\<And>k. k \<noteq> t \<Longrightarrow> sem_pcs s' k = sem_pcs s k"
    and "unat (sem_s (sem_obj s')) + sem_held (sem_pcs s' t) = unat (sem_s (sem_obj s)) + sem_held (sem_pcs s t)"
  shows "sem_inv N n s'"
proof -
  have "sem_pc_ok (sem_pcs s' k)" for k using assms(1,3,4) by (cases "k = t") (auto simp: sem_inv_def)
  moreover have "unat (sem_s (sem_obj s')) + (\<Sum>k<N. sem_held (sem_pcs s' k)) = unat n"
    using permits_move [of "unat (sem_s (sem_obj s))" sem_held "sem_pcs s" N, OF _ assms(2,4,5)] assms(1)
    by (simp add: sem_inv_def)
  ultimately show ?thesis by (simp add: sem_inv_def)
qed

lemma sem_inv_step:
  assumes "sem_inv N n s" and "semaphore_step N t s s'"
  shows "sem_inv N n s'"
  using assms(2)
proof cases
  case (sem_call p i)
  then show ?thesis by (intro sem_inv_move [OF assms(1) sem_call(2)]) auto
next
  case (sem_acquire i l r o')
  have "sem_acq_ok i l" using assms(1) sem_acquire(3) by (metis sem_inv_def sem_pc_ok.simps(1))
  with sem_acquire(4) show ?thesis
    by (cases rule: semaphore_acquire_cases)
       (use sem_acquire(1-3) in \<open>auto intro!: sem_inv_move [OF assms(1) sem_acquire(2)]\<close>)
next
  case (sem_try i l r o')
  have "sem_try_ok i l" using assms(1) sem_try(3) by (metis sem_inv_def sem_pc_ok.simps(2))
  with sem_try(4) show ?thesis
    by (cases rule: semaphore_tryacquire_cases)
       (use sem_try(1-3) in \<open>auto intro!: sem_inv_move [OF assms(1) sem_try(2)]\<close>)
next
  case (sem_release i)
  have "unat (sem_s (sem_obj s)) + unat i \<le> unat n"
    using assms(1) sem_release(2,3) sum_member_le [of t N "\<lambda>t. sem_held (sem_pcs s t)"]
    by (simp add: sem_inv_def)
  then have "unat (sem_s (sem_obj s)) + unat i < 2 ^ 32"
    using unsigned_less [of n, where 'a = nat] by simp
  then show ?thesis
    using sem_release(1-3) by (intro sem_inv_move [OF assms(1) sem_release(2)]) (auto simp: semaphore_release_unat)
qed

interpretation sem: inductive_invariant "semaphore_start n" "semaphore_step N" "sem_inv N n" for N n
  by unfold_locales (simp add: semaphore_start_def sem_inv_def semaphore_init_def, rule sem_inv_step)

text \<open>C33: permits are conserved: in every reachable state of threads that acquire, try to acquire
  and release permits, the counter plus all the permits held is the initial number; in particular
  the counter never wraps and no more permits are out than there are.\<close>

lemma semaphore_conservation:
  assumes "reach (semaphore_start n) (semaphore_step N) s"
  shows "unat (sem_s (sem_obj s)) + (\<Sum>t<N. sem_held (sem_pcs s t)) = unat n"
  using sem.reach_inv [OF assms] by (simp add: sem_inv_def)

section \<open>Readers-writer lock\<close>

record rwlock_t =
  rw_n :: u32
  rw_wb :: u32
  rw_rs :: semaphore_t

definition RWLOCK_N :: u32 where
  "RWLOCK_N = push_bit 30 1"

definition rwlock_init :: rwlock_t where
  "rwlock_init = \<lparr>rw_n = RWLOCK_N, rw_wb = 0, rw_rs = semaphore_init RWLOCK_N\<rparr>"

datatype wacq_pc = WA_wb eq_rmw_pc | WA_rs "u32 await_rmw_pc"

fun rwlock_write_acquire :: "wacq_pc \<Rightarrow> rwlock_t \<Rightarrow> (wacq_pc, unit) ctl \<times> rwlock_t" where
  "rwlock_write_acquire (WA_wb l) k =
     (let (r, a) = vatomic_await_eq_set 0 1 l (rw_wb k)
      in ((case r of Goto l' \<Rightarrow> Goto (WA_wb l') | Ret _ \<Rightarrow> Goto (WA_rs AR_read)), k\<lparr>rw_wb := a\<rparr>))"
| "rwlock_write_acquire (WA_rs l) k =
     (let (r, a) = semaphore_acquire (rw_n k) l (rw_rs k)
      in (map_ctl WA_rs id r, k\<lparr>rw_rs := a\<rparr>))"

datatype wtry_pc = WT_wb | WT_rs sem_try_pc | WT_undo

fun rwlock_write_tryacquire :: "wtry_pc \<Rightarrow> rwlock_t \<Rightarrow> (wtry_pc, bool) ctl \<times> rwlock_t" where
  "rwlock_write_tryacquire WT_wb k =
     (let (old, a) = vatomic_cmpxchg (rw_wb k) 0 1
      in (if old \<noteq> 0 then Ret False else Goto (WT_rs ST_read), k\<lparr>rw_wb := a\<rparr>))"
| "rwlock_write_tryacquire (WT_rs l) k =
     (let (r, a) = semaphore_tryacquire (rw_n k) l (rw_rs k)
      in ((case r of Goto l' \<Rightarrow> Goto (WT_rs l') | Ret ok \<Rightarrow> if \<not> ok then Goto WT_undo else Ret True),
          k\<lparr>rw_rs := a\<rparr>))"
| "rwlock_write_tryacquire WT_undo k = (Ret False, k\<lparr>rw_wb := vatomic_write (rw_wb k) 0\<rparr>)"

datatype wrel_pc = WL_wb | WL_rs

fun rwlock_write_release :: "wrel_pc \<Rightarrow> rwlock_t \<Rightarrow> (wrel_pc, unit) ctl \<times> rwlock_t" where
  "rwlock_write_release WL_wb k = (Goto WL_rs, k\<lparr>rw_wb := vatomic_write (rw_wb k) 0\<rparr>)"
| "rwlock_write_release WL_rs k = (Ret (), k\<lparr>rw_rs := semaphore_release (rw_n k) (rw_rs k)\<rparr>)"

datatype racq_pc = RA_wb | RA_rs "u32 await_rmw_pc"

fun rwlock_read_acquire :: "racq_pc \<Rightarrow> rwlock_t \<Rightarrow> (racq_pc, unit) ctl \<times> rwlock_t" where
  "rwlock_read_acquire RA_wb k =
     ((case vatomic_await_eq 0 0 (rw_wb k) of Goto _ \<Rightarrow> Goto RA_wb | Ret _ \<Rightarrow> Goto (RA_rs AR_read)), k)"
| "rwlock_read_acquire (RA_rs l) k =
     (let (r, a) = semaphore_acquire 1 l (rw_rs k) in (map_ctl RA_rs id r, k\<lparr>rw_rs := a\<rparr>))"

datatype rtry_pc = RT_wb | RT_rs sem_try_pc

fun rwlock_read_tryacquire :: "rtry_pc \<Rightarrow> rwlock_t \<Rightarrow> (rtry_pc, bool) ctl \<times> rwlock_t" where
  "rwlock_read_tryacquire RT_wb k =
     (if vatomic_read (rw_wb k) \<noteq> 0 then Ret False else Goto (RT_rs ST_read), k)"
| "rwlock_read_tryacquire (RT_rs l) k =
     (let (r, a) = semaphore_tryacquire 1 l (rw_rs k) in (map_ctl RT_rs id r, k\<lparr>rw_rs := a\<rparr>))"

definition rwlock_read_release :: "rwlock_t \<Rightarrow> rwlock_t" where
  "rwlock_read_release k = k\<lparr>rw_rs := semaphore_release 1 (rw_rs k)\<rparr>"

definition rwlock_acquired_by_writer :: "rwlock_t \<Rightarrow> bool" where
  "rwlock_acquired_by_writer k \<longleftrightarrow> vatomic_read (rw_wb k) > 0"

definition rwlock_acquired_by_readers :: "rwlock_t \<Rightarrow> bool" where
  "rwlock_acquired_by_readers k \<longleftrightarrow> (let s = vatomic_read (sem_s (rw_rs k)) in s > 0 \<and> s \<noteq> rw_n k)"

section \<open>Threads of the readers-writer lock\<close>

datatype rw_pc = RwIdle | RwWAcq wacq_pc | RwWTry wtry_pc | RwWHeld | RwWRel wrel_pc
  | RwRAcq racq_pc | RwRTry rtry_pc | RwRHeld

record rw_sys =
  rw_obj :: rwlock_t
  rw_pcs :: "tid \<Rightarrow> rw_pc"

definition rwlock_start :: "rw_sys \<Rightarrow> bool" where
  "rwlock_start s \<longleftrightarrow> rw_obj s = rwlock_init \<and> (\<forall>t. rw_pcs s t = RwIdle)"

text \<open>One access of the operation a thread is in. A holder makes the first access of its release.\<close>

fun rw_access :: "rw_pc \<Rightarrow> rwlock_t \<Rightarrow> rw_pc \<times> rwlock_t" where
  "rw_access RwIdle k = (RwIdle, k)"
| "rw_access (RwWAcq p) k =
     (let (r, k') = rwlock_write_acquire p k in ((case r of Goto p' \<Rightarrow> RwWAcq p' | Ret _ \<Rightarrow> RwWHeld), k'))"
| "rw_access (RwWTry p) k =
     (let (r, k') = rwlock_write_tryacquire p k
      in ((case r of Goto p' \<Rightarrow> RwWTry p' | Ret ok \<Rightarrow> if ok then RwWHeld else RwIdle), k'))"
| "rw_access RwWHeld k =
     (let (r, k') = rwlock_write_release WL_wb k in ((case r of Goto p' \<Rightarrow> RwWRel p' | Ret _ \<Rightarrow> RwIdle), k'))"
| "rw_access (RwWRel p) k =
     (let (r, k') = rwlock_write_release p k in ((case r of Goto p' \<Rightarrow> RwWRel p' | Ret _ \<Rightarrow> RwIdle), k'))"
| "rw_access (RwRAcq p) k =
     (let (r, k') = rwlock_read_acquire p k in ((case r of Goto p' \<Rightarrow> RwRAcq p' | Ret _ \<Rightarrow> RwRHeld), k'))"
| "rw_access (RwRTry p) k =
     (let (r, k') = rwlock_read_tryacquire p k
      in ((case r of Goto p' \<Rightarrow> RwRTry p' | Ret ok \<Rightarrow> if ok then RwRHeld else RwIdle), k'))"
| "rw_access RwRHeld k = (RwIdle, rwlock_read_release k)"

inductive rwlock_step :: "nat \<Rightarrow> tid \<Rightarrow> rw_sys \<Rightarrow> rw_sys \<Rightarrow> bool" for N where
  rw_call: "t < N \<Longrightarrow> rw_pcs s t = RwIdle \<Longrightarrow>
     p \<in> {RwWAcq (WA_wb ES_await), RwWTry WT_wb, RwRAcq RA_wb, RwRTry RT_wb} \<Longrightarrow>
     rwlock_step N t s (s\<lparr>rw_pcs := (rw_pcs s)(t := p)\<rparr>)"
| rw_run: "t < N \<Longrightarrow> rw_access (rw_pcs s t) (rw_obj s) = (p, k) \<Longrightarrow>
     rwlock_step N t s (s\<lparr>rw_obj := k, rw_pcs := (rw_pcs s)(t := p)\<rparr>)"

text \<open>Who has the lock: a writer until the second access of its release, a reader until its release.\<close>

fun rw_writing :: "rw_pc \<Rightarrow> bool" where
  "rw_writing RwWHeld \<longleftrightarrow> True"
| "rw_writing (RwWRel p) \<longleftrightarrow> True"
| "rw_writing _ \<longleftrightarrow> False"

fun rw_reading :: "rw_pc \<Rightarrow> bool" where
  "rw_reading RwRHeld \<longleftrightarrow> True"
| "rw_reading _ \<longleftrightarrow> False"

text \<open>A thread between setting and clearing \<^verbatim>\<open>wb\<close>.\<close>

fun rw_blocking :: "rw_pc \<Rightarrow> bool" where
  "rw_blocking (RwWAcq (WA_rs l)) \<longleftrightarrow> True"
| "rw_blocking (RwWTry (WT_rs l)) \<longleftrightarrow> True"
| "rw_blocking (RwWTry WT_undo) \<longleftrightarrow> True"
| "rw_blocking RwWHeld \<longleftrightarrow> True"
| "rw_blocking (RwWRel WL_wb) \<longleftrightarrow> True"
| "rw_blocking _ \<longleftrightarrow> False"

definition rw_permits :: "rw_pc \<Rightarrow> nat" where
  "rw_permits p = (if rw_writing p then 2 ^ 30 else if rw_reading p then 1 else 0)"

fun rw_pc_ok :: "rw_pc \<Rightarrow> bool" where
  "rw_pc_ok (RwWAcq (WA_rs l)) \<longleftrightarrow> sem_acq_ok RWLOCK_N l"
| "rw_pc_ok (RwWTry (WT_rs l)) \<longleftrightarrow> sem_try_ok RWLOCK_N l"
| "rw_pc_ok (RwRAcq (RA_rs l)) \<longleftrightarrow> sem_acq_ok 1 l"
| "rw_pc_ok (RwRTry (RT_rs l)) \<longleftrightarrow> sem_try_ok 1 l"
| "rw_pc_ok _ \<longleftrightarrow> True"

definition rw_inv :: "nat \<Rightarrow> rw_sys \<Rightarrow> bool" where
  "rw_inv N s \<longleftrightarrow> rw_n (rw_obj s) = RWLOCK_N \<and> (\<forall>t. rw_pc_ok (rw_pcs s t)) \<and>
     (\<forall>t\<ge>N. rw_pcs s t = RwIdle) \<and>
     unat (sem_s (rw_rs (rw_obj s))) + (\<Sum>t<N. rw_permits (rw_pcs s t)) = 2 ^ 30 \<and>
     (\<exists>b. (\<forall>t. rw_blocking (rw_pcs s t) \<longleftrightarrow> b = Some t) \<and> rw_wb (rw_obj s) = (if b = None then 0 else 1))"

lemma unat_RWLOCK_N [simp]: "unat RWLOCK_N = 2 ^ 30"
  by (simp add: RWLOCK_N_def)

text \<open>What one access does to the permits and to \<^verbatim>\<open>wb\<close>.\<close>

lemma rw_access_effect:
  assumes "rw_access p k = (p', k')" and "rw_pc_ok p" and "rw_n k = RWLOCK_N"
    and "unat (sem_s (rw_rs k)) + rw_permits p \<le> 2 ^ 30"
  shows "rw_n k' = RWLOCK_N \<and> rw_pc_ok p' \<and>
    unat (sem_s (rw_rs k')) + rw_permits p' = unat (sem_s (rw_rs k)) + rw_permits p \<and>
    (if rw_blocking p = rw_blocking p' then rw_wb k' = rw_wb k
     else if rw_blocking p then rw_wb k' = 0 else rw_wb k = 0 \<and> rw_wb k' = 1)"
proof (cases p)
  case (RwWAcq q)
  show ?thesis
  proof (cases q)
    case (WA_wb l)
    obtain r a where st: "vatomic_await_eq_set 0 1 l (rw_wb k) = (r, a)" by fastforce
    then show ?thesis
      by (cases rule: await_eq_set_cases) (use assms RwWAcq WA_wb st in \<open>auto simp: rw_permits_def\<close>)
  next
    case (WA_rs l)
    obtain r a where st: "semaphore_acquire (rw_n k) l (rw_rs k) = (r, a)" by fastforce
    moreover have "sem_acq_ok (rw_n k) l" using assms(2,3) RwWAcq WA_rs by simp
    ultimately show ?thesis
      by (cases rule: semaphore_acquire_cases) (use assms RwWAcq WA_rs st in \<open>auto simp: rw_permits_def\<close>)
  qed
next
  case (RwWTry q)
  show ?thesis
  proof (cases q)
    case (WT_rs l)
    obtain r a where st: "semaphore_tryacquire (rw_n k) l (rw_rs k) = (r, a)" by fastforce
    moreover have "sem_try_ok (rw_n k) l" using assms(2,3) RwWTry WT_rs by simp
    ultimately show ?thesis
      by (cases rule: semaphore_tryacquire_cases) (use assms RwWTry WT_rs st in \<open>auto simp: rw_permits_def\<close>)
  qed (use assms RwWTry in \<open>auto simp: rw_permits_def vsync_simps split: if_splits\<close>)
next
  case (RwRAcq q)
  show ?thesis
  proof (cases q)
    case (RA_rs l)
    obtain r a where st: "semaphore_acquire 1 l (rw_rs k) = (r, a)" by fastforce
    moreover have "sem_acq_ok 1 l" using assms(2) RwRAcq RA_rs by simp
    ultimately show ?thesis
      by (cases rule: semaphore_acquire_cases) (use assms RwRAcq RA_rs st in \<open>auto simp: rw_permits_def\<close>)
  next
    case RA_wb
    with RwRAcq assms show ?thesis
      by (cases "rw_wb k = 0") (auto simp: rw_permits_def vatomic_await_eq_def vsync_simps)
  qed
next
  case (RwRTry q)
  show ?thesis
  proof (cases q)
    case (RT_rs l)
    obtain r a where st: "semaphore_tryacquire 1 l (rw_rs k) = (r, a)" by fastforce
    moreover have "sem_try_ok 1 l" using assms(2) RwRTry RT_rs by simp
    ultimately show ?thesis
      by (cases rule: semaphore_tryacquire_cases) (use assms RwRTry RT_rs st in \<open>auto simp: rw_permits_def\<close>)
  qed (use assms RwRTry in \<open>auto simp: rw_permits_def vsync_simps split: if_splits\<close>)
next
  case (RwWRel q)
  then show ?thesis
    using assms by (cases q) (auto simp: rw_permits_def semaphore_release_unat vsync_simps)
qed (use assms in \<open>auto simp: rw_permits_def rwlock_read_release_def semaphore_release_unat vsync_simps\<close>)

lemma rw_inv_step:
  assumes "rw_inv N s" and "rwlock_step N t s s'"
  shows "rw_inv N s'"
proof -
  obtain b where b: "\<forall>t. rw_blocking (rw_pcs s t) \<longleftrightarrow> b = Some t"
    "rw_wb (rw_obj s) = (if b = None then 0 else 1)" using assms(1) by (auto simp: rw_inv_def)
  have inv: "rw_n (rw_obj s) = RWLOCK_N" "\<forall>t. rw_pc_ok (rw_pcs s t)" "\<forall>t\<ge>N. rw_pcs s t = RwIdle"
    "unat (sem_s (rw_rs (rw_obj s))) + (\<Sum>t<N. rw_permits (rw_pcs s t)) = 2 ^ 30"
    using assms(1) by (auto simp: rw_inv_def)
  obtain p k where st: "t < N" "s' = s\<lparr>rw_obj := k, rw_pcs := (rw_pcs s)(t := p)\<rparr>"
    and acc: "rw_access (rw_pcs s t) (rw_obj s) = (p, k) \<or> rw_pcs s t = RwIdle \<and> k = rw_obj s \<and>
      p \<in> {RwWAcq (WA_wb ES_await), RwWTry WT_wb, RwRAcq RA_wb, RwRTry RT_wb}"
    using assms(2) by (cases; force)
  have le: "unat (sem_s (rw_rs (rw_obj s))) + rw_permits (rw_pcs s t) \<le> 2 ^ 30"
    using inv(4) sum_member_le [OF st(1), of "\<lambda>t. rw_permits (rw_pcs s t)"] by simp
  have eff: "rw_n k = RWLOCK_N \<and> rw_pc_ok p \<and>
    unat (sem_s (rw_rs k)) + rw_permits p = unat (sem_s (rw_rs (rw_obj s))) + rw_permits (rw_pcs s t) \<and>
    (if rw_blocking (rw_pcs s t) = rw_blocking p then rw_wb k = rw_wb (rw_obj s)
     else if rw_blocking (rw_pcs s t) then rw_wb k = 0 else rw_wb (rw_obj s) = 0 \<and> rw_wb k = 1)"
    using acc
  proof
    assume "rw_access (rw_pcs s t) (rw_obj s) = (p, k)"
    from rw_access_effect [OF this inv(2) [rule_format] inv(1) le] show ?thesis .
  qed (use inv(1) in \<open>auto simp: rw_permits_def\<close>)
  have "\<exists>b. (\<forall>j. rw_blocking (rw_pcs s' j) \<longleftrightarrow> b = Some j) \<and> rw_wb k = (if b = None then 0 else 1)"
  proof (cases "rw_blocking (rw_pcs s t) = rw_blocking p")
    case True
    then show ?thesis using b eff st(2) by (intro exI [of _ b]) auto
  next
    case False
    then show ?thesis
      using b eff st(2) b(1) [rule_format, of t]
      by (intro exI [of _ "if rw_blocking p then Some t else None"]) (auto split: if_splits)
  qed
  moreover have "unat (sem_s (rw_rs k)) + (\<Sum>t<N. rw_permits (rw_pcs s' t)) = 2 ^ 30"
    using permits_move [of "unat (sem_s (rw_rs (rw_obj s)))" rw_permits "rw_pcs s" N, OF inv(4) st(1)] eff st(2)
    by simp
  ultimately show ?thesis using eff inv st unfolding rw_inv_def by simp
qed

interpretation rw: inductive_invariant rwlock_start "rwlock_step N" "rw_inv N" for N
proof unfold_locales
  show "rwlock_start s \<Longrightarrow> rw_inv N s" for s N
    by (auto simp: rwlock_start_def rw_inv_def rwlock_init_def semaphore_init_def rw_permits_def intro!: exI [of _ None])
qed (rule rw_inv_step)

lemma rw_active: "rw_inv N s \<Longrightarrow> rw_writing (rw_pcs s t) \<or> rw_reading (rw_pcs s t) \<Longrightarrow> t < N"
  by (metis rw_inv_def not_less rw_reading.simps(2) rw_writing.simps(3))

text \<open>C14: a writer excludes every other thread: in any reachable state, when a thread has the lock
  for writing no other thread has it, for writing or reading.\<close>

lemma rwlock_exclusion:
  assumes "reach rwlock_start (rwlock_step N) s"
    and "rw_writing (rw_pcs s i)" and "rw_writing (rw_pcs s j) \<or> rw_reading (rw_pcs s j)"
  shows "i = j"
proof (rule ccontr)
  assume "i \<noteq> j"
  have inv: "rw_inv N s" using rw.reach_inv [OF assms(1)] .
  have "i < N" "j < N" using rw_active [OF inv] assms(2,3) by blast+
  then have "rw_permits (rw_pcs s i) + rw_permits (rw_pcs s j) \<le> 2 ^ 30"
    using sum_two_le [OF _ _ \<open>i \<noteq> j\<close>, of N "\<lambda>t. rw_permits (rw_pcs s t)"] inv by (simp add: rw_inv_def)
  then show False using assms(2,3) by (auto simp: rw_permits_def split: if_splits)
qed

text \<open>What the observers report. \<^verbatim>\<open>rwlock_acquired_by_writer\<close> is true exactly while some
  writer is between setting and clearing its flag; \<^verbatim>\<open>rwlock_acquired_by_readers\<close> is true
  exactly when some thread has the lock for reading, for fewer than \<open>2 ^ 30\<close> threads.\<close>

lemma rwlock_observers:
  assumes "reach rwlock_start (rwlock_step N) s" and "N < 2 ^ 30"
  shows "(rwlock_acquired_by_writer (rw_obj s) \<longleftrightarrow> (\<exists>t. rw_blocking (rw_pcs s t))) \<and>
         (rwlock_acquired_by_readers (rw_obj s) \<longleftrightarrow> (\<exists>t. rw_reading (rw_pcs s t)))"
proof
  have inv: "rw_inv N s" using rw.reach_inv [OF assms(1)] .
  let ?h = "\<lambda>t. rw_permits (rw_pcs s t)"
  have sum: "unat (sem_s (rw_rs (rw_obj s))) + (\<Sum>t<N. ?h t) = 2 ^ 30" using inv by (simp add: rw_inv_def)
  show "rwlock_acquired_by_writer (rw_obj s) \<longleftrightarrow> (\<exists>t. rw_blocking (rw_pcs s t))"
    using inv by (auto simp: rwlock_acquired_by_writer_def rw_inv_def vsync_simps split: if_splits)
  have iff: "rwlock_acquired_by_readers (rw_obj s) \<longleftrightarrow> 0 < (\<Sum>t<N. ?h t) \<and> (\<Sum>t<N. ?h t) < 2 ^ 30"
  proof -
    have "rw_n (rw_obj s) = RWLOCK_N" using inv by (simp add: rw_inv_def)
    then have "rwlock_acquired_by_readers (rw_obj s) \<longleftrightarrow>
        0 < unat (sem_s (rw_rs (rw_obj s))) \<and> unat (sem_s (rw_rs (rw_obj s))) \<noteq> 2 ^ 30"
      by (simp add: rwlock_acquired_by_readers_def vsync_simps Let_def word_less_nat_alt word_unat_eq_iff)
    also have "\<dots> \<longleftrightarrow> 0 < (\<Sum>t<N. ?h t) \<and> (\<Sum>t<N. ?h t) < 2 ^ 30" using sum by linarith
    finally show ?thesis .
  qed
  show "rwlock_acquired_by_readers (rw_obj s) \<longleftrightarrow> (\<exists>t. rw_reading (rw_pcs s t))"
  proof
    assume "rwlock_acquired_by_readers (rw_obj s)"
    then have "0 < (\<Sum>t<N. ?h t)" "(\<Sum>t<N. ?h t) < 2 ^ 30" using iff by auto
    then obtain t where t: "t < N" "?h t > 0" by (metis (no_types, lifting) gr0I lessThan_iff sum.neutral)
    moreover have "?h t < 2 ^ 30" using sum_member_le [OF t(1), of ?h] \<open>(\<Sum>t<N. ?h t) < 2 ^ 30\<close> by linarith
    ultimately show "\<exists>t. rw_reading (rw_pcs s t)" by (auto simp: rw_permits_def split: if_splits)
  next
    assume "\<exists>t. rw_reading (rw_pcs s t)"
    then obtain t where r: "rw_reading (rw_pcs s t)" by blast
    then have t: "t < N" using rw_active [OF inv] by blast
    have "\<not> rw_writing (rw_pcs s j)" for j
    proof
      assume w: "rw_writing (rw_pcs s j)"
      have "j \<noteq> t" using w r by (cases "rw_pcs s t") auto
      then have "?h j + ?h t \<le> 2 ^ 30"
        using sum_two_le [of j N t ?h] rw_active [OF inv, of j] w t sum by simp
      with w r show False by (auto simp: rw_permits_def split: if_splits)
    qed
    then have "?h j \<le> 1" for j by (simp add: rw_permits_def)
    then have "(\<Sum>t<N. ?h t) \<le> N" using sum_bounded_above [of "{..<N}" ?h 1] by simp
    moreover have "?h t = 1" using r \<open>\<not> rw_writing (rw_pcs s t)\<close> by (simp add: rw_permits_def)
    ultimately show "rwlock_acquired_by_readers (rw_obj s)"
      using iff sum_member_le [OF t, of ?h] assms(2) by simp
  qed
qed

section \<open>Concrete executions\<close>

text \<open>A schedule: at each entry a thread starts the operation given, or makes its next access.\<close>

fun rw_sched :: "(tid \<times> rw_pc option) list \<Rightarrow> rw_sys \<Rightarrow> rw_sys" where
  "rw_sched [] s = s"
| "rw_sched ((t, Some p) # xs) s = rw_sched xs (s\<lparr>rw_pcs := (rw_pcs s)(t := p)\<rparr>)"
| "rw_sched ((t, None) # xs) s =
     (let (p, k) = rw_access (rw_pcs s t) (rw_obj s)
      in rw_sched xs (s\<lparr>rw_obj := k, rw_pcs := (rw_pcs s)(t := p)\<rparr>))"

fun rw_sched_ok :: "nat \<Rightarrow> (tid \<times> rw_pc option) list \<Rightarrow> rw_sys \<Rightarrow> bool" where
  "rw_sched_ok N [] s \<longleftrightarrow> True"
| "rw_sched_ok N ((t, Some p) # xs) s \<longleftrightarrow> t < N \<and> rw_pcs s t = RwIdle \<and>
     p \<in> {RwWAcq (WA_wb ES_await), RwWTry WT_wb, RwRAcq RA_wb, RwRTry RT_wb} \<and>
     rw_sched_ok N xs (s\<lparr>rw_pcs := (rw_pcs s)(t := p)\<rparr>)"
| "rw_sched_ok N ((t, None) # xs) s \<longleftrightarrow> t < N \<and>
     (let (p, k) = rw_access (rw_pcs s t) (rw_obj s)
      in rw_sched_ok N xs (s\<lparr>rw_obj := k, rw_pcs := (rw_pcs s)(t := p)\<rparr>))"

lemma rw_sched_reach:
  "reach rwlock_start (rwlock_step N) s \<Longrightarrow> rw_sched_ok N xs s \<Longrightarrow>
   reach rwlock_start (rwlock_step N) (rw_sched xs s)"
proof (induction xs s rule: rw_sched.induct)
  case (2 t p xs s)
  then show ?case using reach_step [OF 2(2) rw_call [of t N s p]] by simp
next
  case (3 t xs s)
  obtain p k where a: "rw_access (rw_pcs s t) (rw_obj s) = (p, k)" by fastforce
  with 3 show ?case using reach_step [OF 3(2) rw_run [OF _ a]] by simp
qed simp

definition rw_w0 :: rw_sys where
  "rw_w0 = \<lparr>rw_obj = rwlock_init, rw_pcs = (\<lambda>_. RwIdle)\<rparr>"

lemma rw_w0_reach: "rw_sched_ok N xs rw_w0 \<Longrightarrow> reach rwlock_start (rwlock_step N) (rw_sched xs rw_w0)"
  by (intro rw_sched_reach reach_init) (simp_all add: rwlock_start_def rw_w0_def)

lemmas rw_eval = rw_w0_def rwlock_init_def semaphore_init_def RWLOCK_N_def vsync_simps
  semaphore_acquire_def vatomic_await_ge_sub_def vatomic_await_eq_def await_rmw_next_def Let_def

text \<open>Thread 0 gets the lock for writing, thread 1 fails to.\<close>

lemma rwlock_exclusion_witness:
  "let s = rw_sched [(0, Some (RwWTry WT_wb)), (0, None), (0, None), (0, None),
                     (1, Some (RwWTry WT_wb)), (1, None)] rw_w0
   in rw_writing (rw_pcs s 0) \<and> \<not> rw_reading (rw_pcs s 1) \<and> \<not> rw_writing (rw_pcs s 1)"
proof -
  let ?xs = "[(0, Some (RwWTry WT_wb)), (0, None), (0, None), (0, None),
      (1 :: nat, Some (RwWTry WT_wb)), (1, None)]"
  have "rw_sched_ok 2 ?xs rw_w0" by (simp add: rw_eval)
  from rwlock_exclusion [OF rw_w0_reach [OF this], of 0 1]
  show ?thesis by (simp add: rw_eval)
qed

text \<open>Two readers share the lock.\<close>

definition sem_w :: sem_sys where
  "sem_w = \<lparr>sem_obj = semaphore_init 3, sem_pcs = (\<lambda>_. SemIdle)\<rparr>"

lemma semaphore_conservation_witness:
  "unat (sem_s (sem_obj (sem_w\<lparr>sem_pcs := (\<lambda>_. SemIdle)(1 := SemAcquire 2 AR_read)\<rparr>))) +
   (\<Sum>t<2. sem_held (sem_pcs (sem_w\<lparr>sem_pcs := (\<lambda>_. SemIdle)(1 := SemAcquire 2 AR_read)\<rparr>) t)) = unat (3 :: u32)"
proof (rule semaphore_conservation)
  have "reach (semaphore_start 3) (semaphore_step 2) sem_w"
    by (rule reach_init) (simp add: semaphore_start_def sem_w_def)
  moreover have "semaphore_step 2 1 sem_w (sem_w\<lparr>sem_pcs := (\<lambda>_. SemIdle)(1 := SemAcquire 2 AR_read)\<rparr>)"
    using sem_call [of 1 2 sem_w "SemAcquire 2 AR_read" 2] by (simp add: sem_w_def)
  ultimately show "reach (semaphore_start 3) (semaphore_step 2) (sem_w\<lparr>sem_pcs := (\<lambda>_. SemIdle)(1 := SemAcquire 2 AR_read)\<rparr>)"
    by (rule reach_step)
qed

end
