(* ===== verification/Seqlock.thy ===== *)
theory Seqlock
  imports Vatomic Vmath
begin

text \<open>
  Optimistic readers: \<^verbatim>\<open>spinlock/seqcount.h\<close> (one writer at a time, by the caller's discipline)
  and \<^verbatim>\<open>spinlock/seqlock.h\<close> (writers exclude each other). The protected data are cells that
  writers change one by one. The locale \<open>versioned_reads\<close> states the protocol once: versions only
  grow, data change only under an odd version, a read section starts at an even version. Its lemma
  is the correctness of a validated read; both headers are interpreted as instances.
\<close>

section \<open>Validated reads\<close>

text \<open>
  \<open>version s\<close> counts the changes of the sequence word since the start, without wrap-around.
  \<open>reading s i\<close> is the version at which thread \<open>i\<close> started its read section and the cells it
  has read since, with the values it saw.
\<close>

locale versioned_reads = inductive_invariant init step inv
  for init :: "'s \<Rightarrow> bool" and step :: "'i \<Rightarrow> 's \<Rightarrow> 's \<Rightarrow> bool" and inv :: "'s \<Rightarrow> bool" +
  fixes version :: "'s \<Rightarrow> nat"
    and cells :: "'s \<Rightarrow> 'c \<Rightarrow> 'v"
    and reading :: "'s \<Rightarrow> 'i \<Rightarrow> (nat \<times> ('c \<times> 'v) list) option"
  assumes start_reading: "init s \<Longrightarrow> reading s i = None"
    and version_mono: "inv s \<Longrightarrow> step i s t \<Longrightarrow> version s \<le> version t"
    and cells_change: "inv s \<Longrightarrow> step i s t \<Longrightarrow> cells t \<noteq> cells s \<Longrightarrow> odd (version s)"
    and reading_step: "inv s \<Longrightarrow> step i s t \<Longrightarrow> reading t j = Some (v, got) \<Longrightarrow>
      reading s j = Some (v, got) \<or> (got = [] \<and> even v \<and> v \<le> version t) \<or>
      (\<exists>c g. got = g @ [(c, cells s c)] \<and> reading s j = Some (v, g) \<and> version t = version s \<and> cells t = cells s)"
begin

definition consistent :: "'s \<Rightarrow> bool" where
  "consistent s \<longleftrightarrow> (\<forall>j v got. reading s j = Some (v, got) \<longrightarrow>
     even v \<and> v \<le> version s \<and> (v = version s \<longrightarrow> (\<forall>c x. (c, x) \<in> set got \<longrightarrow> cells s c = x)))"

lemma consistent_step:
  assumes "inv s" and "consistent s" and "step i s t"
  shows "consistent t"
  unfolding consistent_def
proof (intro allI impI)
  fix j v got
  assume r: "reading t j = Some (v, got)"
  have mono: "version s \<le> version t" using version_mono assms(1,3) .
  have keep: "cells t = cells s" if "even v" "v = version t" "v \<le> version s"
    using that mono cells_change [OF assms(1,3)] by fastforce
  from reading_step [OF assms(1,3) r]
  show "even v \<and> v \<le> version t \<and> (v = version t \<longrightarrow> (\<forall>c x. (c, x) \<in> set got \<longrightarrow> cells t c = x))"
  proof (elim disjE exE conjE)
    assume "reading s j = Some (v, got)"
    then have s: "even v" "v \<le> version s" "v = version s \<longrightarrow> (\<forall>c x. (c, x) \<in> set got \<longrightarrow> cells s c = x)"
      using assms(2) unfolding consistent_def by blast+
    have "cells t c = x" if "v = version t" "(c, x) \<in> set got" for c x
    proof -
      have "v = version s" using that(1) s(2) mono by simp
      with s(3) that(2) have "cells s c = x" by blast
      with keep [OF s(1) that(1) s(2)] show ?thesis by simp
    qed
    with s mono show ?thesis by auto
  next
    fix c g
    assume g: "got = g @ [(c, cells s c)]" "reading s j = Some (v, g)" "version t = version s" "cells t = cells s"
    then have "even v" "v \<le> version s" "v = version s \<longrightarrow> (\<forall>c x. (c, x) \<in> set g \<longrightarrow> cells s c = x)"
      using assms(2) unfolding consistent_def by blast+
    with g show ?thesis by auto
  qed simp
qed

lemma reach_consistent: "reach init step s \<Longrightarrow> consistent s"
proof (induction rule: reach.induct)
  case (reach_init s)
  then show ?case using start_reading by (simp add: consistent_def)
next
  case (reach_step s i t)
  then show ?case using consistent_step reach_inv by blast
qed

lemma validated_read:
  assumes "reach init step s" and "reading s j = Some (v, got)"
    and "(of_nat v :: u32) = of_nat (version s)" and "version s < v + 2 ^ 32"
  shows "even (version s) \<and> (\<forall>c x. (c, x) \<in> set got \<longrightarrow> cells s c = x)"
proof -
  have c: "even v" "v \<le> version s" "v = version s \<longrightarrow> (\<forall>c x. (c, x) \<in> set got \<longrightarrow> cells s c = x)"
    using reach_consistent [OF assms(1)] assms(2) unfolding consistent_def by blast+
  have "(of_nat (version s - v) :: u32) = of_nat 0" using assms(3) c(2) by (simp add: of_nat_diff)
  moreover have "version s - v < 2 ^ 32" using assms(4) c(2) by linarith
  ultimately have "version s - v = 0" using of_nat_eq_small [of "version s - v" 0, where 'a = 32] by simp
  then have "v = version s" using c(2) by simp
  with c show ?thesis by simp
qed

end

lemma odd_word_of_nat: "VIS_ODD (of_nat n :: u32) \<longleftrightarrow> odd n"
proof -
  have "unat (of_nat n :: u32) = n mod 2 ^ 32" by (simp add: unat_of_nat take_bit_eq_mod)
  moreover have "even (n mod 2 ^ 32) \<longleftrightarrow> even n" by (rule dvd_mod_iff) simp
  ultimately show ?thesis by (simp add: VIS_ODD_iff)
qed

lemma VIS_EVEN_odd: "VIS_EVEN w \<longleftrightarrow> \<not> VIS_ODD w"
  by (simp add: VIS_ODD_iff VIS_EVEN_iff)

section \<open>seqlock\<close>

record seqlock_t =
  seqcount :: u32

definition seqlock_await_even :: "u32 await_cmp_pc \<Rightarrow> seqlock_t \<Rightarrow> (u32 await_cmp_pc, u32 res) ctl" where
  "seqlock_await_even l q = map_ctl id (\<lambda>cval. rbind (vassert (VIS_EVEN cval)) (\<lambda>_. Inr cval))
     (await_cmp (\<lambda>cval. \<not> VIS_ODD cval) l (seqcount q))"

definition seqlock_init :: seqlock_t where
  "seqlock_init = \<lparr>seqcount = vatomic_write 0 0\<rparr>"

datatype sl_acq_pc = SA_await "u32 await_cmp_pc" | SA_cmpxchg u32

fun seqlock_acquire :: "sl_acq_pc \<Rightarrow> seqlock_t \<Rightarrow> (sl_acq_pc, unit res) ctl \<times> seqlock_t" where
  "seqlock_acquire (SA_await l) q =
     ((case seqlock_await_even l q of Goto l' \<Rightarrow> Goto (SA_await l')
        | Ret (Inl e) \<Rightarrow> Ret (Inl e) | Ret (Inr cval) \<Rightarrow> Goto (SA_cmpxchg cval)), q)"
| "seqlock_acquire (SA_cmpxchg cval) q =
     (let (o_count, a) = vatomic_cmpxchg (seqcount q) cval (cval + 1)
      in (if o_count = cval then Ret (Inr ()) else Goto (SA_await AC_read), q\<lparr>seqcount := a\<rparr>))"

datatype sl_rel_pc = SR_read | SR_write u32

fun seqlock_release :: "sl_rel_pc \<Rightarrow> seqlock_t \<Rightarrow> (sl_rel_pc, unit res) ctl \<times> seqlock_t" where
  "seqlock_release SR_read q =
     (let cur_val = vatomic_read (seqcount q)
      in (case vassert (cur_val AND 1 = 1) of Inl e \<Rightarrow> Ret (Inl e) | Inr _ \<Rightarrow> Goto (SR_write cur_val), q))"
| "seqlock_release (SR_write cur_val) q =
     (Ret (Inr ()), q\<lparr>seqcount := vatomic_write (seqcount q) (cur_val + 1)\<rparr>)"

definition seqlock_rbegin :: "u32 await_cmp_pc \<Rightarrow> seqlock_t \<Rightarrow> (u32 await_cmp_pc, u32 res) ctl" where
  "seqlock_rbegin = seqlock_await_even"

definition seqlock_rend :: "seqlock_t \<Rightarrow> u32 \<Rightarrow> bool res" where
  "seqlock_rend q sv = rbind (vassert (VIS_EVEN sv)) (\<lambda>_. Inr (vatomic_read (seqcount q) = sv))"

text \<open>
  Threads. A writer that holds the lock changes cells one at a time; a reader reads cells one at a
  time between \<^verbatim>\<open>seqlock_rbegin\<close> and \<^verbatim>\<open>seqlock_rend\<close>. The version at which a read
  section started is auxiliary, as is the count of changes of the sequence word.
\<close>

datatype ('c, 'v) sl_pc = SlIdle | SlAcquire sl_acq_pc | SlHeld | SlRelease sl_rel_pc
  | SlBegin "u32 await_cmp_pc" | SlRead u32 nat "('c \<times> 'v) list" | SlFault fault

record ('c, 'v) sl_sys =
  sl_lock :: seqlock_t
  sl_cells :: "'c \<Rightarrow> 'v"
  sl_pcs :: "tid \<Rightarrow> ('c, 'v) sl_pc"
  sl_version :: nat

definition seqlock_start :: "('c, 'v) sl_sys \<Rightarrow> bool" where
  "seqlock_start s \<longleftrightarrow> sl_lock s = seqlock_init \<and> (\<forall>i. sl_pcs s i = SlIdle) \<and> sl_version s = 0"

inductive seqlock_step :: "tid \<Rightarrow> ('c, 'v) sl_sys \<Rightarrow> ('c, 'v) sl_sys \<Rightarrow> bool" where
  sl_call: "sl_pcs s i = SlIdle \<Longrightarrow> p \<in> {SlAcquire (SA_await AC_read), SlBegin AC_read} \<Longrightarrow>
     seqlock_step i s (s\<lparr>sl_pcs := (sl_pcs s)(i := p)\<rparr>)"
| sl_acquire: "sl_pcs s i = SlAcquire p \<Longrightarrow> seqlock_acquire p (sl_lock s) = (r, q) \<Longrightarrow>
     seqlock_step i s (s\<lparr>sl_lock := q,
       sl_pcs := (sl_pcs s)(i := case r of Goto p' \<Rightarrow> SlAcquire p' | Ret (Inr _) \<Rightarrow> SlHeld | Ret (Inl e) \<Rightarrow> SlFault e),
       sl_version := (if seqcount q = seqcount (sl_lock s) then sl_version s else sl_version s + 1)\<rparr>)"
| sl_write: "sl_pcs s i = SlHeld \<Longrightarrow>
     seqlock_step i s (s\<lparr>sl_cells := (sl_cells s)(c := x)\<rparr>)"
| sl_rel_start: "sl_pcs s i = SlHeld \<Longrightarrow> seqlock_release SR_read (sl_lock s) = (r, q) \<Longrightarrow>
     seqlock_step i s (s\<lparr>sl_lock := q,
       sl_pcs := (sl_pcs s)(i := case r of Goto p' \<Rightarrow> SlRelease p' | Ret (Inr _) \<Rightarrow> SlIdle | Ret (Inl e) \<Rightarrow> SlFault e),
       sl_version := (if seqcount q = seqcount (sl_lock s) then sl_version s else sl_version s + 1)\<rparr>)"
| sl_rel: "sl_pcs s i = SlRelease p \<Longrightarrow> seqlock_release p (sl_lock s) = (r, q) \<Longrightarrow>
     seqlock_step i s (s\<lparr>sl_lock := q,
       sl_pcs := (sl_pcs s)(i := case r of Goto p' \<Rightarrow> SlRelease p' | Ret (Inr _) \<Rightarrow> SlIdle | Ret (Inl e) \<Rightarrow> SlFault e),
       sl_version := (if seqcount q = seqcount (sl_lock s) then sl_version s else sl_version s + 1)\<rparr>)"
| sl_rbegin: "sl_pcs s i = SlBegin l \<Longrightarrow> seqlock_rbegin l (sl_lock s) = r \<Longrightarrow>
     seqlock_step i s (s\<lparr>sl_pcs := (sl_pcs s)(i := case r of Goto l' \<Rightarrow> SlBegin l'
        | Ret (Inr sv) \<Rightarrow> SlRead sv (sl_version s) [] | Ret (Inl e) \<Rightarrow> SlFault e)\<rparr>)"
| sl_read: "sl_pcs s i = SlRead sv v got \<Longrightarrow>
     seqlock_step i s (s\<lparr>sl_pcs := (sl_pcs s)(i := SlRead sv v (got @ [(c, sl_cells s c)]))\<rparr>)"
| sl_rend: "sl_pcs s i = SlRead sv v got \<Longrightarrow> seqlock_rend (sl_lock s) sv = r \<Longrightarrow>
     seqlock_step i s (s\<lparr>sl_pcs := (sl_pcs s)(i := case r of Inr ok \<Rightarrow> SlIdle | Inl e \<Rightarrow> SlFault e)\<rparr>)"

fun sl_holding :: "('c, 'v) sl_pc \<Rightarrow> bool" where
  "sl_holding SlHeld \<longleftrightarrow> True"
| "sl_holding (SlRelease p) \<longleftrightarrow> True"
| "sl_holding _ \<longleftrightarrow> False"

fun sl_pc_ok :: "('c, 'v) sl_pc \<Rightarrow> u32 \<Rightarrow> nat \<Rightarrow> bool" where
  "sl_pc_ok (SlAcquire (SA_await l)) w n \<longleftrightarrow> (case l of AC_read \<Rightarrow> True | AC_wait c \<Rightarrow> VIS_ODD c)"
| "sl_pc_ok (SlAcquire (SA_cmpxchg c)) w n \<longleftrightarrow> \<not> VIS_ODD c"
| "sl_pc_ok (SlRelease SR_read) w n \<longleftrightarrow> False"
| "sl_pc_ok (SlRelease (SR_write c)) w n \<longleftrightarrow> c = w"
| "sl_pc_ok (SlBegin l) w n \<longleftrightarrow> (case l of AC_read \<Rightarrow> True | AC_wait c \<Rightarrow> VIS_ODD c)"
| "sl_pc_ok (SlRead sv v got) w n \<longleftrightarrow> sv = of_nat v \<and> even v"
| "sl_pc_ok (SlFault e) w n \<longleftrightarrow> False"
| "sl_pc_ok _ w n \<longleftrightarrow> True"

definition sl_inv :: "('c, 'v) sl_sys \<Rightarrow> bool" where
  "sl_inv s \<longleftrightarrow> seqcount (sl_lock s) = of_nat (sl_version s) \<and>
     (\<exists>h. (\<forall>i. sl_holding (sl_pcs s i) \<longleftrightarrow> h = Some i) \<and> (odd (sl_version s) \<longleftrightarrow> h \<noteq> None)) \<and>
     (\<forall>i. sl_pc_ok (sl_pcs s i) (seqcount (sl_lock s)) (sl_version s))"

definition sl_reading :: "('c, 'v) sl_sys \<Rightarrow> tid \<Rightarrow> (nat \<times> ('c \<times> 'v) list) option" where
  "sl_reading s i = (case sl_pcs s i of SlRead sv v got \<Rightarrow> Some (v, got) | _ \<Rightarrow> None)"

lemma sl_inv_pc: "sl_inv s \<Longrightarrow> sl_pc_ok (sl_pcs s i) (seqcount (sl_lock s)) (sl_version s)"
  and sl_inv_cnt: "sl_inv s \<Longrightarrow> seqcount (sl_lock s) = of_nat (sl_version s)"
  unfolding sl_inv_def by blast+

lemma sl_inv_keep:
  assumes "sl_inv s" and "\<And>j. j \<noteq> i \<Longrightarrow> sl_pcs t j = sl_pcs s j"
    and "sl_holding (sl_pcs t i) \<longleftrightarrow> sl_holding (sl_pcs s i)"
    and "sl_pc_ok (sl_pcs t i) (seqcount (sl_lock s)) (sl_version s)"
    and "sl_lock t = sl_lock s" and "sl_version t = sl_version s"
  shows "sl_inv t"
proof -
  have h: "sl_holding (sl_pcs t j) \<longleftrightarrow> sl_holding (sl_pcs s j)" for j
    using assms(2,3) by (cases "j = i") auto
  have "sl_pc_ok (sl_pcs t j) (seqcount (sl_lock t)) (sl_version t)" for j
    using assms by (cases "j = i") (auto simp: sl_inv_def)
  then show ?thesis using assms(1) unfolding sl_inv_def by (simp add: assms(5,6) h)
qed

lemma await_even_cases:
  assumes "seqlock_await_even l q = r" and "case l of AC_read \<Rightarrow> True | AC_wait c \<Rightarrow> VIS_ODD c"
  obtains (wait) l' where "r = Goto l'" and "case l' of AC_read \<Rightarrow> True | AC_wait c \<Rightarrow> VIS_ODD c"
  | (got) "r = Ret (Inr (seqcount q))" and "\<not> VIS_ODD (seqcount q)"
proof -
  obtain r' where st: "reads (await_cmp (\<lambda>cval. \<not> VIS_ODD cval)) l (seqcount q) = (r', seqcount q)" by simp
  moreover have "case l of AC_read \<Rightarrow> True | AC_wait old \<Rightarrow> \<not> \<not> VIS_ODD old" using assms(2) by (cases l) auto
  ultimately show thesis
    by (cases rule: await_cmp.step_cases)
       (use assms(1) st that in \<open>auto simp: seqlock_await_even_def VIS_EVEN_odd split: await_cmp_pc.splits\<close>)
qed

text \<open>The sequence word moves when the lock is taken and when it is released, and only then.\<close>

lemma of_nat_Suc_neq: "(of_nat n + 1 :: u32) \<noteq> of_nat n"
  by simp

lemma sl_inv_acquire:
  assumes "sl_inv s" and pc: "sl_pcs s i = SlAcquire p" and "seqlock_acquire p (sl_lock s) = (r, q)"
    and t: "t = s\<lparr>sl_lock := q,
       sl_pcs := (sl_pcs s)(i := case r of Goto p' \<Rightarrow> SlAcquire p' | Ret (Inr _) \<Rightarrow> SlHeld | Ret (Inl e) \<Rightarrow> SlFault e),
       sl_version := (if seqcount q = seqcount (sl_lock s) then sl_version s else sl_version s + 1)\<rparr>"
  shows "sl_inv t"
proof (cases p)
  case (SA_await l)
  obtain r' where st: "seqlock_await_even l (sl_lock s) = r'" by simp
  have ok: "case l of AC_read \<Rightarrow> True | AC_wait c \<Rightarrow> VIS_ODD c"
    using assms(1) pc SA_await by (auto simp: sl_inv_def dest!: spec [of _ i])
  from st ok show ?thesis
    by (cases rule: await_even_cases) (use SA_await assms st in \<open>auto intro!: sl_inv_keep [OF assms(1), of i]\<close>)
next
  case (SA_cmpxchg cval)
  show ?thesis
  proof (cases "seqcount (sl_lock s) = cval")
    case False
    then show ?thesis
      using SA_cmpxchg assms by (auto simp: vsync_simps intro!: sl_inv_keep [OF assms(1), of i])
  next
    case True
    have rq: "r = Ret (Inr ())" "q = (sl_lock s)\<lparr>seqcount := cval + 1\<rparr>"
      using assms(3) SA_cmpxchg True by (auto simp: vsync_simps)
    have cnt: "cval = of_nat (sl_version s)" "\<not> VIS_ODD cval"
      using assms(1) pc SA_cmpxchg True by (auto simp: sl_inv_def dest!: spec [of _ i])
    then have "even (sl_version s)" using odd_word_of_nat by simp
    then have free: "\<not> sl_holding (sl_pcs s j)" for j using assms(1) by (auto simp: sl_inv_def)
    have "sl_pc_ok (sl_pcs t j) (seqcount (sl_lock t)) (sl_version t)" for j
    proof (cases "j = i")
      case False
      have "sl_pc_ok (sl_pcs s j) (seqcount (sl_lock s)) (sl_version s)" by (rule sl_inv_pc [OF assms(1)])
      with False free [of j] show ?thesis
        by (cases "(sl_pcs s j, seqcount (sl_lock s), sl_version s)" rule: sl_pc_ok.cases) (auto simp: t)
    qed (simp add: t rq)
    then show ?thesis
      using free True cnt \<open>even (sl_version s)\<close>
      by (auto simp: sl_inv_def t rq intro!: exI [of _ "Some i"])
  qed
qed

lemma sl_inv_release_write:
  assumes "sl_inv s" and pc: "sl_pcs s i = SlRelease p" and "seqlock_release p (sl_lock s) = (r, q)"
    and t: "t = s\<lparr>sl_lock := q,
       sl_pcs := (sl_pcs s)(i := case r of Goto p' \<Rightarrow> SlRelease p' | Ret (Inr _) \<Rightarrow> SlIdle | Ret (Inl e) \<Rightarrow> SlFault e),
       sl_version := (if seqcount q = seqcount (sl_lock s) then sl_version s else sl_version s + 1)\<rparr>"
  shows "sl_inv t"
proof -
  obtain h where h: "\<forall>i. sl_holding (sl_pcs s i) \<longleftrightarrow> h = Some i" "odd (sl_version s) \<longleftrightarrow> h \<noteq> None"
    using assms(1) by (auto simp: sl_inv_def)
  have "h = Some i" using h(1) pc by (metis sl_holding.simps(2))
  have "sl_pc_ok (sl_pcs s i) (seqcount (sl_lock s)) (sl_version s)" by (rule sl_inv_pc [OF assms(1)])
  then have p: "p = SR_write (seqcount (sl_lock s))" using pc by (cases p) auto
  note cnt = sl_inv_cnt [OF assms(1)]
  have rq: "r = Ret (Inr ())" "q = (sl_lock s)\<lparr>seqcount := of_nat (sl_version s) + 1\<rparr>"
    using assms(3) p cnt by (auto simp: vsync_simps)
  have "sl_pc_ok (sl_pcs t j) (seqcount (sl_lock t)) (sl_version t)" for j
  proof (cases "j = i")
    case False
    have "sl_pc_ok (sl_pcs s j) (seqcount (sl_lock s)) (sl_version s)" by (rule sl_inv_pc [OF assms(1)])
    moreover have "\<not> sl_holding (sl_pcs s j)" using h \<open>h = Some i\<close> False by simp
    ultimately show ?thesis using False
      by (cases "(sl_pcs s j, seqcount (sl_lock s), sl_version s)" rule: sl_pc_ok.cases) (auto simp: t)
  qed (simp add: t rq)
  then show ?thesis
    using h \<open>h = Some i\<close> cnt by (auto simp: sl_inv_def t rq intro!: exI [of _ None])
qed

lemma sl_inv_step:
  assumes "sl_inv s" and "seqlock_step i s t"
  shows "sl_inv t"
  using assms(2)
proof cases
  case (sl_rel_start r q)
  have "odd (sl_version s)" "seqcount (sl_lock s) = of_nat (sl_version s)"
    using assms(1) sl_rel_start(2) unfolding sl_inv_def by (metis option.discI sl_holding.simps(1))+
  then have "VIS_ODD (seqcount (sl_lock s))" by (simp add: odd_word_of_nat)
  with sl_rel_start show ?thesis
    by (auto simp: vsync_simps VIS_ODD_def Let_def intro!: sl_inv_keep [OF assms(1), of i])
next
  case (sl_rbegin l r)
  have ok: "case l of AC_read \<Rightarrow> True | AC_wait c \<Rightarrow> VIS_ODD c" and
    cnt: "seqcount (sl_lock s) = of_nat (sl_version s)"
    using assms(1) sl_rbegin(2) by (auto simp: sl_inv_def dest!: spec [of _ i])
  from sl_rbegin(3) [unfolded seqlock_rbegin_def] ok show ?thesis
    by (cases rule: await_even_cases)
       (use sl_rbegin(1,2) cnt in \<open>auto simp: odd_word_of_nat intro!: sl_inv_keep [OF assms(1), of i]\<close>)
next
  case (sl_rend sv v got r)
  have "sv = of_nat v" "even v"
    using assms(1) sl_rend(2) by (auto simp: sl_inv_def dest!: spec [of _ i])
  with sl_rend show ?thesis
    by (auto simp: seqlock_rend_def VIS_EVEN_odd odd_word_of_nat intro!: sl_inv_keep [OF assms(1), of i])
next
  case (sl_read sv v got c)
  have "sl_pc_ok (sl_pcs s i) (seqcount (sl_lock s)) (sl_version s)" by (rule sl_inv_pc [OF assms(1)])
  with sl_read show ?thesis by (auto intro!: sl_inv_keep [OF assms(1), of i])
next
  case (sl_write c x)
  then show ?thesis using sl_inv_pc [OF assms(1), of i] by (auto intro!: sl_inv_keep [OF assms(1), of i])
next
  case (sl_call p)
  then show ?thesis by (auto intro!: sl_inv_keep [OF assms(1), of i])
next
  case (sl_acquire p r q)
  show ?thesis by (rule sl_inv_acquire [OF assms(1) sl_acquire(2,3,1)])
next
  case (sl_rel p r q)
  show ?thesis by (rule sl_inv_release_write [OF assms(1) sl_rel(2,3,1)])
qed

interpretation sl: versioned_reads seqlock_start seqlock_step sl_inv sl_version sl_cells sl_reading
proof unfold_locales
  show "seqlock_start s \<Longrightarrow> sl_inv s" for s :: "('c, 'v) sl_sys"
    by (simp add: seqlock_start_def sl_inv_def seqlock_init_def vsync_simps)
  show "sl_inv s \<Longrightarrow> seqlock_step i s t \<Longrightarrow> sl_inv t" for s t :: "('c, 'v) sl_sys" and i
    by (rule sl_inv_step)
  show "seqlock_start s \<Longrightarrow> sl_reading s i = None" for s :: "('c, 'v) sl_sys" and i
    by (simp add: seqlock_start_def sl_reading_def)
  show "seqlock_step i s t \<Longrightarrow> sl_version s \<le> sl_version t" for s t :: "('c, 'v) sl_sys" and i
    by (induction rule: seqlock_step.induct) auto
  show "odd (sl_version s)" if "sl_inv s" "seqlock_step i s t" "sl_cells t \<noteq> sl_cells s"
    for s t :: "('c, 'v) sl_sys" and i
    using that(2,3)
  proof cases
    case (sl_write c x)
    then show ?thesis using that(1) unfolding sl_inv_def by (metis option.discI sl_holding.simps(1))
  qed auto
  show "sl_reading s j = Some (v, got) \<or> (got = [] \<and> even v \<and> v \<le> sl_version t) \<or>
      (\<exists>c g. got = g @ [(c, sl_cells s c)] \<and> sl_reading s j = Some (v, g) \<and>
         sl_version t = sl_version s \<and> sl_cells t = sl_cells s)"
    if inv: "sl_inv s" and st: "seqlock_step i s t" and r: "sl_reading t j = Some (v, got)"
    for s t :: "('c, 'v) sl_sys" and i j v got
  proof (cases "j = i")
    case False
    from st have "sl_pcs t j = sl_pcs s j" by cases (use False in auto)
    then show ?thesis using r by (simp add: sl_reading_def)
  next
    case True
    have inv': "sl_inv t" using sl_inv_step [OF inv st] .
    have "sl_pc_ok (sl_pcs t j) (seqcount (sl_lock t)) (sl_version t)" by (rule sl_inv_pc [OF inv'])
    then have "even v" using r by (auto simp: sl_reading_def split: sl_pc.splits)
    from st r True this show ?thesis
      by cases (auto simp: sl_reading_def split: sl_pc.splits ctl.splits sum.splits if_splits)
  qed
qed

text \<open>C13: a validated read of the sequence lock is consistent. When \<^verbatim>\<open>seqlock_rend\<close> returns true
  for a reader, no writer is active and every cell the reader has read since its
  \<^verbatim>\<open>seqlock_rbegin\<close> still has the value it saw, so all of them belong to one state of the data
  -- provided the 32-bit word did not go all the way round meanwhile.\<close>

lemma seqlock_validated_read:
  assumes "reach seqlock_start seqlock_step s" and "sl_pcs s i = SlRead sv v got"
    and "seqlock_rend (sl_lock s) sv = Inr True" and "sl_version s < v + 2 ^ 32"
  shows "(\<forall>j. \<not> sl_holding (sl_pcs s j)) \<and> (\<forall>c x. (c, x) \<in> set got \<longrightarrow> sl_cells s c = x)"
proof -
  have inv: "sl_inv s" using sl.reach_inv [OF assms(1)] .
  note cnt = sl_inv_cnt [OF inv]
  have sv: "sv = of_nat v" "even v" using sl_inv_pc [OF inv, of i] assms(2) by simp_all
  then have "(of_nat v :: u32) = of_nat (sl_version s)"
    using assms(3) cnt by (simp add: seqlock_rend_def vsync_simps VIS_EVEN_odd odd_word_of_nat)
  from sl.validated_read [OF assms(1) _ this assms(4), of i got] assms(2)
  have "even (sl_version s)" "\<forall>c x. (c, x) \<in> set got \<longrightarrow> sl_cells s c = x" by (auto simp: sl_reading_def)
  then show ?thesis using inv by (auto simp: sl_inv_def)
qed

text \<open>Writers of the sequence lock exclude each other and no assertion of the lock ever fails,
  in any interleaving and through any number of wrap-arounds.\<close>

lemma seqlock_writers_safe:
  assumes "reach seqlock_start seqlock_step s"
  shows "(sl_holding (sl_pcs s i) \<longrightarrow> sl_holding (sl_pcs s j) \<longrightarrow> i = j) \<and> sl_pcs s i \<noteq> SlFault e"
proof -
  have inv: "sl_inv s" using sl.reach_inv [OF assms(1)] .
  have "sl_pcs s i \<noteq> SlFault e" using sl_inv_pc [OF inv, of i] by auto
  with inv show ?thesis by (auto simp: sl_inv_def)
qed

section \<open>seqcount\<close>

definition seqcount_init :: u32 where
  "seqcount_init = vatomic_init 0 0"

datatype sc_wbegin_pc = CB_read | CB_write u32

fun seqcount_wbegin :: "sc_wbegin_pc \<Rightarrow> u32 \<Rightarrow> (sc_wbegin_pc, u32) ctl \<times> u32" where
  "seqcount_wbegin CB_read sc = (Goto (CB_write (vatomic_read sc)), sc)"
| "seqcount_wbegin (CB_write s) sc = (Ret s, vatomic_write sc (s + 1))"

definition seqcount_wend :: "u32 \<Rightarrow> u32 \<Rightarrow> u32" where
  "seqcount_wend s sc = vatomic_write sc (s + 2)"

definition seqcount_rbegin :: "u32 \<Rightarrow> u32" where
  "seqcount_rbegin sc = vatomic_read sc AND NOT 1"

definition seqcount_rend :: "u32 \<Rightarrow> u32 \<Rightarrow> bool" where
  "seqcount_rend sc s \<longleftrightarrow> vatomic_read sc = s"

text \<open>One writer (thread 0, by the caller's discipline) and any number of readers.\<close>

datatype ('c, 'v) sc_pc = ScIdle | ScBegin sc_wbegin_pc | ScWriting u32 | ScRead u32 nat "('c \<times> 'v) list"

record ('c, 'v) sc_sys =
  sc_word :: u32
  sc_cells :: "'c \<Rightarrow> 'v"
  sc_pcs :: "tid \<Rightarrow> ('c, 'v) sc_pc"
  sc_version :: nat

definition seqcount_start :: "('c, 'v) sc_sys \<Rightarrow> bool" where
  "seqcount_start s \<longleftrightarrow> sc_word s = seqcount_init \<and> (\<forall>i. sc_pcs s i = ScIdle) \<and> sc_version s = 0"

inductive seqcount_step :: "tid \<Rightarrow> ('c, 'v) sc_sys \<Rightarrow> ('c, 'v) sc_sys \<Rightarrow> bool" where
  sc_wread: "sc_pcs s 0 = ScIdle \<Longrightarrow> seqcount_wbegin CB_read (sc_word s) = (Goto p, w) \<Longrightarrow>
     seqcount_step 0 s (s\<lparr>sc_word := w, sc_pcs := (sc_pcs s)(0 := ScBegin p)\<rparr>)"
| sc_wbegin: "sc_pcs s 0 = ScBegin p \<Longrightarrow> seqcount_wbegin p (sc_word s) = (Ret v, w) \<Longrightarrow>
     seqcount_step 0 s (s\<lparr>sc_word := w, sc_pcs := (sc_pcs s)(0 := ScWriting v), sc_version := sc_version s + 1\<rparr>)"
| sc_write: "sc_pcs s 0 = ScWriting v \<Longrightarrow> seqcount_step 0 s (s\<lparr>sc_cells := (sc_cells s)(c := x)\<rparr>)"
| sc_wend: "sc_pcs s 0 = ScWriting v \<Longrightarrow>
     seqcount_step 0 s (s\<lparr>sc_word := seqcount_wend v (sc_word s), sc_pcs := (sc_pcs s)(0 := ScIdle),
       sc_version := sc_version s + 1\<rparr>)"
| sc_rbegin: "i \<noteq> 0 \<Longrightarrow> sc_pcs s i = ScIdle \<Longrightarrow>
     seqcount_step i s (s\<lparr>sc_pcs := (sc_pcs s)(i :=
       ScRead (seqcount_rbegin (sc_word s)) (sc_version s - sc_version s mod 2) [])\<rparr>)"
| sc_read: "sc_pcs s i = ScRead sv v got \<Longrightarrow>
     seqcount_step i s (s\<lparr>sc_pcs := (sc_pcs s)(i := ScRead sv v (got @ [(c, sc_cells s c)]))\<rparr>)"
| sc_rend: "sc_pcs s i = ScRead sv v got \<Longrightarrow> seqcount_rend (sc_word s) sv = ok \<Longrightarrow>
     seqcount_step i s (s\<lparr>sc_pcs := (sc_pcs s)(i := ScIdle)\<rparr>)"

fun sc_writer_ok :: "('c, 'v) sc_pc \<Rightarrow> u32 \<Rightarrow> nat \<Rightarrow> bool" where
  "sc_writer_ok ScIdle w n \<longleftrightarrow> even n"
| "sc_writer_ok (ScBegin p) w n \<longleftrightarrow> even n \<and> p = CB_write w"
| "sc_writer_ok (ScWriting v) w n \<longleftrightarrow> odd n \<and> w = v + 1"
| "sc_writer_ok (ScRead sv v got) w n \<longleftrightarrow> False"

fun sc_reader_ok :: "('c, 'v) sc_pc \<Rightarrow> bool" where
  "sc_reader_ok ScIdle \<longleftrightarrow> True"
| "sc_reader_ok (ScRead sv v got) \<longleftrightarrow> sv = of_nat v \<and> even v"
| "sc_reader_ok _ \<longleftrightarrow> False"

definition sc_inv :: "('c, 'v) sc_sys \<Rightarrow> bool" where
  "sc_inv s \<longleftrightarrow> sc_word s = of_nat (sc_version s) \<and> sc_writer_ok (sc_pcs s 0) (sc_word s) (sc_version s) \<and>
     (\<forall>i>0. sc_reader_ok (sc_pcs s i))"

lemma sc_invD:
  assumes "sc_inv s"
  shows "sc_word s = of_nat (sc_version s)" and "sc_writer_ok (sc_pcs s 0) (sc_word s) (sc_version s)"
    and "0 < i \<Longrightarrow> sc_reader_ok (sc_pcs s i)"
  using assms by (auto simp: sc_inv_def)

lemma clear_low_bit: "(of_nat n :: u32) AND NOT 1 = of_nat (n - n mod 2)"
proof (cases "even n")
  case True
  have "\<not> bit (of_nat n :: u32) 0" using True by (simp add: bit_0)
  then have "(of_nat n :: u32) AND NOT 1 = of_nat n"
    by (intro bit_word_eqI) (auto simp: bit_and_iff bit_not_iff bit_1_iff intro: gr0I)
  with True show ?thesis by simp
next
  case False
  then obtain k where k: "n = 2 * k + 1" by (auto elim: oddE)
  have e: "even (2 * of_nat k :: u32)" by simp
  have "(1 + 2 * of_nat k :: u32) AND NOT 1 = 2 * of_nat k"
    using even_bit_succ_iff [OF e] e
    by (intro bit_word_eqI) (auto simp: bit_and_iff bit_not_iff bit_1_iff bit_0 simp del: even_mult_iff intro: gr0I)
  then show ?thesis using k by (simp add: add.commute)
qed

lemma sc_inv_step:
  assumes "sc_inv s" and "seqcount_step i s t"
  shows "sc_inv t"
proof -
  note inv = sc_invD [OF assms(1)]
  from assms(2) show ?thesis
  proof cases
    case (sc_read sv v got c)
    then have "i \<noteq> 0" using inv(2) by (metis sc_writer_ok.simps(4))
    with sc_read inv inv(3) [of i] show ?thesis by (auto simp: sc_inv_def)
  next
    case (sc_rend sv v got ok)
    then have "i \<noteq> 0" using inv(2) by (metis sc_writer_ok.simps(4))
    with sc_rend inv show ?thesis by (auto simp: sc_inv_def)
  next
    case sc_rbegin
    have "seqcount_rbegin (sc_word s) = of_nat (sc_version s - sc_version s mod 2)"
      using clear_low_bit [of "sc_version s"] unfolding seqcount_rbegin_def vatomic_read_def inv(1) .
    with sc_rbegin inv show ?thesis by (auto simp: sc_inv_def)
  qed (use inv in \<open>auto simp: sc_inv_def seqcount_wend_def vsync_simps elim!: seqcount_wbegin.elims\<close>)
qed

definition sc_reading :: "('c, 'v) sc_sys \<Rightarrow> tid \<Rightarrow> (nat \<times> ('c \<times> 'v) list) option" where
  "sc_reading s i = (case sc_pcs s i of ScRead sv v got \<Rightarrow> Some (v, got) | _ \<Rightarrow> None)"

interpretation sc: versioned_reads seqcount_start seqcount_step sc_inv sc_version sc_cells sc_reading
proof unfold_locales
  show "seqcount_start s \<Longrightarrow> sc_inv s" for s :: "('c, 'v) sc_sys"
    by (simp add: seqcount_start_def sc_inv_def seqcount_init_def vsync_simps)
  show "sc_inv s \<Longrightarrow> seqcount_step i s t \<Longrightarrow> sc_inv t" for s t :: "('c, 'v) sc_sys" and i
    by (rule sc_inv_step)
  show "seqcount_start s \<Longrightarrow> sc_reading s i = None" for s :: "('c, 'v) sc_sys" and i
    by (simp add: seqcount_start_def sc_reading_def)
  show "seqcount_step i s t \<Longrightarrow> sc_version s \<le> sc_version t" for s t :: "('c, 'v) sc_sys" and i
    by (induction rule: seqcount_step.induct) auto
  show "sc_inv s \<Longrightarrow> seqcount_step i s t \<Longrightarrow> sc_cells t \<noteq> sc_cells s \<Longrightarrow> odd (sc_version s)"
    for s t :: "('c, 'v) sc_sys" and i
    by (erule seqcount_step.cases) (auto simp: sc_inv_def)
  show "sc_reading s j = Some (v, got) \<or> (got = [] \<and> even v \<and> v \<le> sc_version t) \<or>
      (\<exists>c g. got = g @ [(c, sc_cells s c)] \<and> sc_reading s j = Some (v, g) \<and>
         sc_version t = sc_version s \<and> sc_cells t = sc_cells s)"
    if "seqcount_step i s t" and "sc_reading t j = Some (v, got)" for s t :: "('c, 'v) sc_sys" and i j v got
    using that by cases (auto simp: sc_reading_def split: sc_pc.splits if_splits)
qed

text \<open>A validated read of the sequence counter is consistent: when \<^verbatim>\<open>seqcount_rend\<close> returns
  true, the writer is not inside its section and every cell read since \<^verbatim>\<open>seqcount_rbegin\<close>
  still has the value that was read, also when the read section started while the writer was
  active -- provided the 32-bit counter did not go all the way round meanwhile.\<close>

lemma seqcount_validated_read:
  assumes "reach seqcount_start seqcount_step s" and "sc_pcs s i = ScRead sv v got"
    and "seqcount_rend (sc_word s) sv" and "sc_version s < v + 2 ^ 32"
  shows "(\<forall>j w. sc_pcs s j \<noteq> ScWriting w) \<and> (\<forall>c x. (c, x) \<in> set got \<longrightarrow> sc_cells s c = x)"
proof -
  have inv: "sc_inv s" using sc.reach_inv [OF assms(1)] .
  have "i \<noteq> 0" using sc_invD(2) [OF inv] assms(2) by (metis sc_writer_ok.simps(4))
  then have "sv = of_nat v" using sc_invD(3) [OF inv, of i] assms(2) by simp
  then have "(of_nat v :: u32) = of_nat (sc_version s)"
    using assms(3) inv by (simp add: seqcount_rend_def vsync_simps sc_inv_def)
  from sc.validated_read [OF assms(1) _ this assms(4), of i got] assms(2)
  have e: "even (sc_version s)" "\<forall>c x. (c, x) \<in> set got \<longrightarrow> sc_cells s c = x" by (auto simp: sc_reading_def)
  have "sc_pcs s j \<noteq> ScWriting w" for j w
    using sc_invD(2,3) [OF inv] e(1) by (metis gr0I sc_reader_ok.simps(4) sc_writer_ok.simps(3))
  with e show ?thesis by blast
qed

section \<open>A concrete execution\<close>

text \<open>Reader 1 reads two cells of an idle sequence lock and counter.\<close>

definition sl_w :: "nat \<Rightarrow> (nat, nat) sl_sys" where
  "sl_w n = \<lparr>sl_lock = seqlock_init, sl_cells = (\<lambda>c. c + 5), sl_pcs = (\<lambda>_. SlIdle)(1 := case n of
     0 \<Rightarrow> SlIdle | Suc 0 \<Rightarrow> SlBegin AC_read | Suc (Suc k) \<Rightarrow> SlRead 0 0 (map (\<lambda>c. (c, c + 5)) [0..<k])),
     sl_version = 0\<rparr>"

lemma sl_w_reach: "reach seqlock_start seqlock_step (sl_w 4)"
proof -
  have r0: "reach seqlock_start seqlock_step (sl_w 0)"
    by (rule reach_init) (simp add: sl_w_def seqlock_start_def)
  have s0: "seqlock_step 1 (sl_w 0) (sl_w 1)"
    using sl_call [of "sl_w 0" 1 "SlBegin AC_read"] by (simp add: sl_w_def)
  have s1: "seqlock_step 1 (sl_w 1) (sl_w 2)"
    using sl_rbegin [of "sl_w 1" 1 AC_read "Ret (Inr 0)"]
    by (simp add: sl_w_def seqlock_rbegin_def seqlock_await_even_def await_cmp_next_def VIS_ODD_def
        VIS_EVEN_def seqlock_init_def vsync_simps numeral_2_eq_2)
  have s2: "seqlock_step 1 (sl_w 2) (sl_w 3)"
    using sl_read [of "sl_w 2" 1 0 0 "[]" 0] by (simp add: sl_w_def numeral_eq_Suc)
  have s3: "seqlock_step 1 (sl_w 3) (sl_w 4)"
    using sl_read [of "sl_w 3" 1 0 0 "[(0, 5)]" 1] by (simp add: sl_w_def numeral_eq_Suc)
  from reach_step [OF reach_step [OF reach_step [OF reach_step [OF r0 s0] s1] s2] s3] show ?thesis .
qed

lemma seqlock_validated_read_witness:
  "seqlock_rend (sl_lock (sl_w 4)) 0 = Inr True \<and>
   sl_cells (sl_w 4) 0 = 5 \<and> sl_cells (sl_w 4) 1 = 6"
proof -
  have r: "seqlock_rend (sl_lock (sl_w 4)) 0 = Inr True"
    by (simp add: sl_w_def seqlock_rend_def VIS_EVEN_def seqlock_init_def vsync_simps)
  have "sl_pcs (sl_w 4) 1 = SlRead 0 0 [(0, 5), (1, 6)]" "sl_version (sl_w 4) < 0 + 2 ^ 32"
    by (simp add: sl_w_def numeral_eq_Suc) (simp add: sl_w_def)
  from seqlock_validated_read [OF sl_w_reach this(1) r this(2)] r show ?thesis by simp
qed

definition sc_w :: "nat \<Rightarrow> (nat, nat) sc_sys" where
  "sc_w n = \<lparr>sc_word = seqcount_init, sc_cells = (\<lambda>c. c + 5), sc_pcs = (\<lambda>_. ScIdle)(1 := case n of
     0 \<Rightarrow> ScIdle | Suc k \<Rightarrow> ScRead 0 0 (map (\<lambda>c. (c, c + 5)) [0..<k])), sc_version = 0\<rparr>"

lemma sc_w_reach: "reach seqcount_start seqcount_step (sc_w 2)"
proof -
  have r0: "reach seqcount_start seqcount_step (sc_w 0)"
    by (rule reach_init) (simp add: sc_w_def seqcount_start_def)
  have s0: "seqcount_step 1 (sc_w 0) (sc_w 1)"
    using sc_rbegin [of 1 "sc_w 0"] by (simp add: sc_w_def seqcount_rbegin_def seqcount_init_def vsync_simps)
  have s1: "seqcount_step 1 (sc_w 1) (sc_w 2)"
    using sc_read [of "sc_w 1" 1 0 0 "[]" 0] by (simp add: sc_w_def numeral_eq_Suc)
  from reach_step [OF reach_step [OF r0 s0] s1] show ?thesis .
qed

end
