(* ===== verification/Bounded_Spsc.thy ===== *)
theory Bounded_Spsc
  imports Vatomic
begin

text \<open>
  Bounded FIFO queues: the contract, the ring arithmetic shared by the implementations, and the
  single-producer single-consumer queue of \<^verbatim>\<open>queue/bounded_spsc.h\<close>. The code keeps 32-bit
  positions that wrap; slot numbers are positions modulo the size. The development shows that this
  is a FIFO queue when the size divides \<open>2 ^ 32\<close>, and that it is not one for other sizes.
\<close>

section \<open>The contract\<close>

text \<open>
  A bounded queue is described by the values it has accepted and the values it has delivered. An
  accepted value must fit; a delivered value is the oldest one not delivered yet.
\<close>

type_synonym fifo = "ptr list \<times> ptr list"

inductive fifo_spec :: "nat \<Rightarrow> 'i \<Rightarrow> fifo \<Rightarrow> fifo \<Rightarrow> bool" for cap where
  f_enq: "length ins < length outs + cap \<Longrightarrow> fifo_spec cap i (ins, outs) (ins @ [v], outs)"
| f_deq: "length outs < length ins \<Longrightarrow> fifo_spec cap i (ins, outs) (ins, outs @ [ins ! length outs])"

definition fifo_inv :: "nat \<Rightarrow> fifo \<Rightarrow> bool" where
  "fifo_inv cap a \<longleftrightarrow> (\<exists>rest. fst a = snd a @ rest \<and> length rest \<le> cap)"

interpretation fifo: inductive_invariant "\<lambda>a. a = ([], [])" "fifo_spec cap" "fifo_inv cap" for cap
proof unfold_locales
  show "fifo_inv cap t" if inv: "fifo_inv cap s" and st: "fifo_spec cap i s t" for s i t cap
    using st inv
  proof cases
    case (f_deq outs ins)
    then obtain x rest where "ins = outs @ x # rest" "length (x # rest) \<le> cap"
      using inv by (cases "drop (length outs) ins") (auto simp: fifo_inv_def)
    with f_deq show ?thesis by (auto simp: fifo_inv_def)
  qed (auto simp: fifo_inv_def)
qed (simp add: fifo_inv_def)

section \<open>Ring arithmetic\<close>

datatype bounded_ret_t = QUEUE_BOUNDED_OK | QUEUE_BOUNDED_FULL | QUEUE_BOUNDED_EMPTY | QUEUE_BOUNDED_AGAIN

text \<open>Positions count from the start without wrap-around; the code sees them modulo \<open>2 ^ 32\<close>.\<close>

lemma slot_of_nat:
  assumes "unat n dvd 2 ^ 32"
  shows "unat ((of_nat k :: u32) mod n) = k mod unat n"
proof -
  have "unat (of_nat k :: u32) = k mod 2 ^ 32" by (simp add: unat_of_nat take_bit_eq_mod)
  then show ?thesis using assms by (simp add: unat_mod mod_mod_cancel)
qed

lemma of_nat_diff_eq:
  assumes "a \<le> b" and "b < a + 2 ^ 32" and "c < 2 ^ 32"
  shows "(of_nat b - of_nat a :: u32) = of_nat c \<longleftrightarrow> b = a + c"
proof -
  have "(of_nat b - of_nat a :: u32) = of_nat (b - a)" using assms(1) by (simp add: of_nat_diff)
  moreover have "b - a < 2 ^ 32" using assms(1,2) by linarith
  ultimately show ?thesis using of_nat_eq_small [of "b - a" c, where 'a = 32] assms(1,3) by auto
qed

lemma of_nat_eq_near:
  "a \<le> b \<Longrightarrow> b < a + 2 ^ 32 \<Longrightarrow> (of_nat b :: u32) = of_nat a \<longleftrightarrow> b = a"
  using of_nat_diff_eq [of a b 0] by simp

text \<open>Positions less than one round apart use different slots.\<close>

section \<open>Operations\<close>

record bounded_spsc_t =
  sp_buf :: "ptr list"
  sp_head :: u32
  sp_tail :: u32
  sp_size :: u32

text \<open>A null buffer is \<open>None\<close>.\<close>

definition bounded_spsc_init :: "ptr list option \<Rightarrow> u32 \<Rightarrow> bounded_spsc_t res" where
  "bounded_spsc_init b s =
     rbind (vassert (b \<noteq> None)) (\<lambda>_. rbind (vassert (s \<noteq> 0)) (\<lambda>_.
       Inr \<lparr>sp_buf = the b, sp_head = vatomic_init 0 0, sp_tail = vatomic_init 0 0, sp_size = s\<rparr>))"

datatype spsc_enq_pc = PE_tail | PE_head u32 | PE_store u32 | PE_write u32

fun bounded_spsc_enq :: "ptr \<Rightarrow> spsc_enq_pc \<Rightarrow> bounded_spsc_t \<Rightarrow>
    (spsc_enq_pc, bounded_ret_t res) ctl \<times> bounded_spsc_t" where
  "bounded_spsc_enq v PE_tail q =
     (case vassert (v \<noteq> NULL) of Inl e \<Rightarrow> Ret (Inl e) | Inr _ \<Rightarrow> Goto (PE_head (vatomic_read (sp_tail q))), q)"
| "bounded_spsc_enq v (PE_head tail) q =
     (let head = vatomic_read (sp_head q)
      in (if tail - head = sp_size q then Ret (Inr QUEUE_BOUNDED_FULL) else Goto (PE_store tail), q))"
| "bounded_spsc_enq v (PE_store tail) q =
     (case awrite (sp_buf q) (unat (tail mod sp_size q)) v of
        Inl e \<Rightarrow> (Ret (Inl e), q) | Inr b \<Rightarrow> (Goto (PE_write tail), q\<lparr>sp_buf := b\<rparr>))"
| "bounded_spsc_enq v (PE_write tail) q =
     (Ret (Inr QUEUE_BOUNDED_OK), q\<lparr>sp_tail := vatomic_write (sp_tail q) (tail + 1)\<rparr>)"

datatype spsc_deq_pc = PD_head | PD_tail u32 | PD_load u32 | PD_write u32 ptr

text \<open>The result of a dequeue comes with the value stored through the out parameter.\<close>

fun bounded_spsc_deq :: "spsc_deq_pc \<Rightarrow> bounded_spsc_t \<Rightarrow>
    (spsc_deq_pc, (bounded_ret_t \<times> ptr option) res) ctl \<times> bounded_spsc_t" where
  "bounded_spsc_deq PD_head q = (Goto (PD_tail (vatomic_read (sp_head q))), q)"
| "bounded_spsc_deq (PD_tail head) q =
     (let tail = vatomic_read (sp_tail q)
      in (if tail - head = 0 then Ret (Inr (QUEUE_BOUNDED_EMPTY, None)) else Goto (PD_load head), q))"
| "bounded_spsc_deq (PD_load head) q =
     (case aread (sp_buf q) (unat (head mod sp_size q)) of
        Inl e \<Rightarrow> Ret (Inl e) | Inr v \<Rightarrow> Goto (PD_write head v), q)"
| "bounded_spsc_deq (PD_write head v) q =
     (Ret (Inr (QUEUE_BOUNDED_OK, Some v)), q\<lparr>sp_head := vatomic_write (sp_head q) (head + 1)\<rparr>)"

section \<open>One producer and one consumer\<close>

text \<open>
  The producer and the consumer call their operation over and over. The logs of accepted and
  delivered values are what the two see: a value is logged when the operation returns OK.
\<close>

datatype spsc_tid = Producer | Consumer

datatype spsc_prod = ProdIdle | ProdEnq ptr spsc_enq_pc | ProdFault fault
datatype spsc_cons = ConsIdle | ConsDeq spsc_deq_pc | ConsFault fault

record spsc_sys =
  sp_q :: bounded_spsc_t
  sp_prod :: spsc_prod
  sp_cons :: spsc_cons
  sp_ins :: "ptr list"
  sp_outs :: "ptr list"

fun spsc_prod_next :: "ptr \<Rightarrow> (spsc_enq_pc, bounded_ret_t res) ctl \<Rightarrow> spsc_prod" where
  "spsc_prod_next v (Goto p) = ProdEnq v p"
| "spsc_prod_next v (Ret (Inr r)) = ProdIdle"
| "spsc_prod_next v (Ret (Inl e)) = ProdFault e"

fun spsc_cons_next :: "(spsc_deq_pc, (bounded_ret_t \<times> ptr option) res) ctl \<Rightarrow> spsc_cons" where
  "spsc_cons_next (Goto p) = ConsDeq p"
| "spsc_cons_next (Ret (Inr r)) = ConsIdle"
| "spsc_cons_next (Ret (Inl e)) = ConsFault e"

fun accepted :: "ptr \<Rightarrow> ('p, bounded_ret_t res) ctl \<Rightarrow> ptr list" where
  "accepted v (Ret (Inr QUEUE_BOUNDED_OK)) = [v]"
| "accepted v _ = []"

fun delivered :: "('p, (bounded_ret_t \<times> ptr option) res) ctl \<Rightarrow> ptr list" where
  "delivered (Ret (Inr (QUEUE_BOUNDED_OK, Some x))) = [x]"
| "delivered _ = []"

definition spsc_start :: "ptr list \<Rightarrow> u32 \<Rightarrow> spsc_sys \<Rightarrow> bool" where
  "spsc_start b n s \<longleftrightarrow> bounded_spsc_init (Some b) n = Inr (sp_q s) \<and> sp_prod s = ProdIdle \<and>
     sp_cons s = ConsIdle \<and> sp_ins s = [] \<and> sp_outs s = []"

inductive spsc_step :: "spsc_tid \<Rightarrow> spsc_sys \<Rightarrow> spsc_sys \<Rightarrow> bool" where
  sp_call_enq: "sp_prod s = ProdIdle \<Longrightarrow> v \<noteq> NULL \<Longrightarrow>
     spsc_step Producer s (s\<lparr>sp_prod := ProdEnq v PE_tail\<rparr>)"
| sp_enq: "sp_prod s = ProdEnq v p \<Longrightarrow> bounded_spsc_enq v p (sp_q s) = (r, q) \<Longrightarrow>
     spsc_step Producer s (s\<lparr>sp_q := q, sp_prod := spsc_prod_next v r, sp_ins := sp_ins s @ accepted v r\<rparr>)"
| sp_call_deq: "sp_cons s = ConsIdle \<Longrightarrow> spsc_step Consumer s (s\<lparr>sp_cons := ConsDeq PD_head\<rparr>)"
| sp_deq: "sp_cons s = ConsDeq p \<Longrightarrow> bounded_spsc_deq p (sp_q s) = (r, q) \<Longrightarrow>
     spsc_step Consumer s (s\<lparr>sp_q := q, sp_cons := spsc_cons_next r, sp_outs := sp_outs s @ delivered r\<rparr>)"

section \<open>FIFO behaviour\<close>

fun spsc_prod_ok :: "spsc_prod \<Rightarrow> nat \<Rightarrow> nat \<Rightarrow> nat \<Rightarrow> ptr list \<Rightarrow> bool" where
  "spsc_prod_ok ProdIdle h t N b \<longleftrightarrow> True"
| "spsc_prod_ok (ProdEnq v PE_tail) h t N b \<longleftrightarrow> v \<noteq> NULL"
| "spsc_prod_ok (ProdEnq v (PE_head tlv)) h t N b \<longleftrightarrow> tlv = of_nat t"
| "spsc_prod_ok (ProdEnq v (PE_store tlv)) h t N b \<longleftrightarrow> tlv = of_nat t \<and> t < h + N"
| "spsc_prod_ok (ProdEnq v (PE_write tlv)) h t N b \<longleftrightarrow> tlv = of_nat t \<and> t < h + N \<and> b ! (t mod N) = v"
| "spsc_prod_ok (ProdFault e) h t N b \<longleftrightarrow> False"

fun spsc_cons_ok :: "spsc_cons \<Rightarrow> nat \<Rightarrow> nat \<Rightarrow> ptr list \<Rightarrow> bool" where
  "spsc_cons_ok ConsIdle h t ins \<longleftrightarrow> True"
| "spsc_cons_ok (ConsDeq PD_head) h t ins \<longleftrightarrow> True"
| "spsc_cons_ok (ConsDeq (PD_tail hdv)) h t ins \<longleftrightarrow> hdv = of_nat h"
| "spsc_cons_ok (ConsDeq (PD_load hdv)) h t ins \<longleftrightarrow> hdv = of_nat h \<and> h < t"
| "spsc_cons_ok (ConsDeq (PD_write hdv x)) h t ins \<longleftrightarrow> hdv = of_nat h \<and> h < t \<and> x = ins ! h"
| "spsc_cons_ok (ConsFault e) h t ins \<longleftrightarrow> False"

text \<open>What the ring holds: the positions from \<open>h\<close> to \<open>t\<close> are in their slots.\<close>

definition ring_ok :: "nat \<Rightarrow> ptr list \<Rightarrow> ptr list \<Rightarrow> ptr list \<Rightarrow> bool" where
  "ring_ok N b ins outs \<longleftrightarrow> length outs \<le> length ins \<and> length ins \<le> length outs + N \<and>
     outs = take (length outs) ins \<and>
     (\<forall>k. length outs \<le> k \<longrightarrow> k < length ins \<longrightarrow> b ! (k mod N) = ins ! k)"

lemma ring_ok_length: "ring_ok N b ins outs \<Longrightarrow> length outs \<le> length ins"
  "ring_ok N b ins outs \<Longrightarrow> length ins \<le> length outs + N"
  unfolding ring_ok_def by blast+

lemma ring_ok_store:
  assumes "ring_ok N b ins outs" and "length ins \<le> p" and "p < length outs + N" and "length b \<ge> N"
  shows "ring_ok N (b[p mod N := v]) ins outs"
proof -
  have "p mod N \<noteq> k mod N" if "length outs \<le> k" "k < length ins" for k
    using slot_distinct [of k p N] that assms(2,3) by simp
  with assms(1) show ?thesis by (auto simp: ring_ok_def)
qed

lemma ring_ok_enq:
  assumes "ring_ok N b ins outs" and "length ins < length outs + N" and "b ! (length ins mod N) = v"
  shows "ring_ok N b (ins @ [v]) outs"
  using assms by (auto simp: ring_ok_def nth_append less_Suc_eq)

lemma ring_ok_deq:
  assumes "ring_ok N b ins outs" and "length outs < length ins"
  shows "ring_ok N b ins (outs @ [ins ! length outs])"
proof -
  have "outs = take (length outs) ins" using assms(1) by (simp add: ring_ok_def)
  with assms(2) have "take (Suc (length outs)) ins = outs @ [ins ! length outs]"
    by (metis take_Suc_conv_app_nth)
  with assms show ?thesis by (auto simp: ring_ok_def)
qed

definition spsc_inv :: "u32 \<Rightarrow> spsc_sys \<Rightarrow> bool" where
  "spsc_inv n s \<longleftrightarrow> sp_size (sp_q s) = n \<and> unat n dvd 2 ^ 32 \<and> unat n \<le> length (sp_buf (sp_q s)) \<and>
     sp_head (sp_q s) = of_nat (length (sp_outs s)) \<and> sp_tail (sp_q s) = of_nat (length (sp_ins s)) \<and>
     ring_ok (unat n) (sp_buf (sp_q s)) (sp_ins s) (sp_outs s) \<and>
     spsc_prod_ok (sp_prod s) (length (sp_outs s)) (length (sp_ins s)) (unat n) (sp_buf (sp_q s)) \<and>
     spsc_cons_ok (sp_cons s) (length (sp_outs s)) (length (sp_ins s)) (sp_ins s)"

lemma spsc_invD:
  assumes "spsc_inv n s"
  shows "sp_size (sp_q s) = n" and "unat n dvd 2 ^ 32" and "unat n \<le> length (sp_buf (sp_q s))"
    and "sp_head (sp_q s) = of_nat (length (sp_outs s))" and "sp_tail (sp_q s) = of_nat (length (sp_ins s))"
    and "ring_ok (unat n) (sp_buf (sp_q s)) (sp_ins s) (sp_outs s)"
    and "spsc_prod_ok (sp_prod s) (length (sp_outs s)) (length (sp_ins s)) (unat n) (sp_buf (sp_q s))"
    and "spsc_cons_ok (sp_cons s) (length (sp_outs s)) (length (sp_ins s)) (sp_ins s)"
    and "length (sp_outs s) \<le> length (sp_ins s)" and "length (sp_ins s) \<le> length (sp_outs s) + unat n"
    and "0 < unat n"
proof -
  have "unat n dvd 2 ^ 32" using assms by (simp add: spsc_inv_def)
  then show "0 < unat n" by (intro gr0I) auto
qed (use assms in \<open>auto simp: spsc_inv_def ring_ok_length\<close>)

lemma slot_in:
  assumes "unat n dvd 2 ^ 32" and "unat n \<le> length b"
  shows "unat ((of_nat k :: u32) mod n) = k mod unat n" and "k mod unat n < length b"
proof -
  have "0 < unat n" using assms(1) by (intro gr0I) auto
  then have "k mod unat n < unat n" by simp
  with assms(2) show "k mod unat n < length b" by simp
qed (rule slot_of_nat [OF assms(1)])

text \<open>One access of the producer.\<close>

lemma spsc_enq_step:
  assumes inv: "spsc_inv n s" and pc: "sp_prod s = ProdEnq v p"
    and st: "bounded_spsc_enq v p (sp_q s) = (r, q)"
  defines "t \<equiv> s\<lparr>sp_q := q, sp_prod := spsc_prod_next v r, sp_ins := sp_ins s @ accepted v r\<rparr>"
  shows "spsc_inv n t \<and> (accepted v r = [] \<or> length (sp_ins s) < length (sp_outs s) + unat n)"
proof -
  note i = spsc_invD [OF inv]
  note slot = slot_in [OF i(2,3), of "length (sp_ins s)"]
  show ?thesis
  proof (cases p)
    case PE_tail
    have "v \<noteq> NULL" using i(7) pc PE_tail by simp
    then have "r = Goto (PE_head (sp_tail (sp_q s)))" "q = sp_q s"
      using st PE_tail by (auto simp: vsync_simps)
    with i show ?thesis by (simp add: t_def spsc_inv_def)
  next
    case (PE_head tlv)
    have tlv: "tlv = of_nat (length (sp_ins s))" using i(7) pc PE_head by simp
    have "tlv - sp_head (sp_q s) = sp_size (sp_q s) \<longleftrightarrow> length (sp_ins s) = length (sp_outs s) + unat n"
      using of_nat_diff_eq [OF i(9), of "unat n"] i(10) unsigned_less [of n, where 'a = nat]
      by (simp add: tlv i(1,4))
    then have "q = sp_q s \<and> (r = Ret (Inr QUEUE_BOUNDED_FULL) \<or>
        r = Goto (PE_store tlv) \<and> length (sp_ins s) < length (sp_outs s) + unat n)"
      using st PE_head i(10) by (auto simp: vsync_simps Let_def split: if_splits)
    with i tlv show ?thesis by (auto simp: t_def spsc_inv_def)
  next
    case (PE_store tlv)
    have tlv: "tlv = of_nat (length (sp_ins s))" "length (sp_ins s) < length (sp_outs s) + unat n"
      using i(7) pc PE_store by simp_all
    let ?b = "(sp_buf (sp_q s))[length (sp_ins s) mod unat n := v]"
    have "r = Goto (PE_write tlv)" "q = (sp_q s)\<lparr>sp_buf := ?b\<rparr>"
      using st PE_store slot by (auto simp: tlv i(1))
    moreover have "ring_ok (unat n) ?b (sp_ins s) (sp_outs s)" by (rule ring_ok_store [OF i(6) order_refl tlv(2) i(3)])
    ultimately show ?thesis using i tlv slot by (simp add: t_def spsc_inv_def)
  next
    case (PE_write tlv)
    have tlv: "tlv = of_nat (length (sp_ins s))" "length (sp_ins s) < length (sp_outs s) + unat n"
      "sp_buf (sp_q s) ! (length (sp_ins s) mod unat n) = v"
      using i(7) pc PE_write by simp_all
    have r: "r = Ret (Inr QUEUE_BOUNDED_OK)" "q = (sp_q s)\<lparr>sp_tail := tlv + 1\<rparr>"
      using st PE_write by (auto simp: vsync_simps)
    have "spsc_cons_ok (sp_cons s) (length (sp_outs s)) (Suc (length (sp_ins s))) (sp_ins s @ [v])"
      using i(8) by (cases "(sp_cons s, length (sp_outs s), length (sp_ins s), sp_ins s)" rule: spsc_cons_ok.cases)
        (auto simp: nth_append)
    with i tlv r show ?thesis
      using ring_ok_enq [OF i(6) tlv(2,3)] by (simp add: t_def spsc_inv_def add.commute)
  qed
qed

lemma spsc_deq_step:
  assumes inv: "spsc_inv n s" and pc: "sp_cons s = ConsDeq p"
    and st: "bounded_spsc_deq p (sp_q s) = (r, q)"
  defines "t \<equiv> s\<lparr>sp_q := q, sp_cons := spsc_cons_next r, sp_outs := sp_outs s @ delivered r\<rparr>"
  shows "spsc_inv n t \<and> (delivered r = [] \<or>
    length (sp_outs s) < length (sp_ins s) \<and> delivered r = [sp_ins s ! length (sp_outs s)])"
proof -
  note i = spsc_invD [OF inv]
  note slot = slot_in [OF i(2,3), of "length (sp_outs s)"]
  show ?thesis
  proof (cases p)
    case PD_head
    then have "r = Goto (PD_tail (sp_head (sp_q s)))" "q = sp_q s"
      using st by (auto simp: vsync_simps)
    with i show ?thesis by (simp add: t_def spsc_inv_def)
  next
    case (PD_tail hdv)
    have hdv: "hdv = of_nat (length (sp_outs s))" using i(8) pc PD_tail by simp
    have "sp_tail (sp_q s) - hdv = 0 \<longleftrightarrow> length (sp_ins s) = length (sp_outs s)"
      using of_nat_diff_eq [OF i(9), of 0] i(10) unsigned_less [of n, where 'a = nat]
      by (simp add: hdv i(5))
    then have "q = sp_q s \<and> (r = Ret (Inr (QUEUE_BOUNDED_EMPTY, None)) \<or>
        r = Goto (PD_load hdv) \<and> length (sp_outs s) < length (sp_ins s))"
      using st PD_tail i(9) by (auto simp: vsync_simps Let_def split: if_splits)
    with i hdv show ?thesis by (auto simp: t_def spsc_inv_def)
  next
    case (PD_load hdv)
    have hdv: "hdv = of_nat (length (sp_outs s))" "length (sp_outs s) < length (sp_ins s)"
      using i(8) pc PD_load by simp_all
    have "r = Goto (PD_write hdv (sp_ins s ! length (sp_outs s)))" "q = sp_q s"
      using st PD_load slot hdv i(6) by (auto simp: hdv i(1) ring_ok_def)
    with i hdv show ?thesis by (simp add: t_def spsc_inv_def)
  next
    case (PD_write hdv x)
    have hdv: "hdv = of_nat (length (sp_outs s))" "length (sp_outs s) < length (sp_ins s)"
      "x = sp_ins s ! length (sp_outs s)"
      using i(8) pc PD_write by simp_all
    have r: "r = Ret (Inr (QUEUE_BOUNDED_OK, Some x))" "q = (sp_q s)\<lparr>sp_head := hdv + 1\<rparr>"
      using st PD_write by (auto simp: vsync_simps)
    have "spsc_prod_ok (sp_prod s) (Suc (length (sp_outs s))) (length (sp_ins s)) (unat n) (sp_buf (sp_q s))"
      using i(7) by (cases "(sp_prod s, length (sp_outs s), length (sp_ins s), unat n, sp_buf (sp_q s))"
          rule: spsc_prod_ok.cases) auto
    with i hdv r show ?thesis
      using ring_ok_deq [OF i(6) hdv(2)] by (simp add: t_def spsc_inv_def add.commute)
  qed
qed

interpretation spsc: forward_simulation "\<lambda>s. \<exists>b. spsc_start b n s \<and> unat n \<le> length b \<and> unat n dvd 2 ^ 32"
  spsc_step "\<lambda>a. a = ([], [])" "fifo_spec (unat n)" "\<lambda>s a. spsc_inv n s \<and> a = (sp_ins s, sp_outs s)" for n
proof unfold_locales
  show "\<exists>a. a = ([], []) \<and> spsc_inv n s \<and> a = (sp_ins s, sp_outs s)"
    if "\<exists>b. spsc_start b n s \<and> unat n \<le> length b \<and> unat n dvd 2 ^ 32" for n s
    using that
    by (auto simp: spsc_start_def bounded_spsc_init_def rbind_Inr_iff spsc_inv_def ring_ok_def vsync_simps
        eq_commute [of _ "sp_q s"])
  show "\<exists>b. (spsc_inv n t \<and> b = (sp_ins t, sp_outs t)) \<and> (b = a \<or> fifo_spec (unat n) i a b)"
    if rel: "spsc_inv n s \<and> a = (sp_ins s, sp_outs s)" and st: "spsc_step i s t" for n s a i t
    using st
  proof cases
    case (sp_enq v p r q)
    have "accepted v r = [] \<or> accepted v r = [v]" by (cases "(v, r)" rule: accepted.cases) auto
    then show ?thesis
      using spsc_enq_step [OF conjunct1 [OF rel] sp_enq(3,4)] sp_enq(1,2) rel
      by (auto intro: f_enq)
  next
    case (sp_deq p r q)
    then show ?thesis
      using spsc_deq_step [OF conjunct1 [OF rel] sp_deq(3,4)] sp_deq(1,2) rel
      by (auto intro: f_deq)
  qed (use rel in \<open>auto simp: spsc_inv_def\<close>)
qed

lemma spsc_reach_dvd:
  assumes "reach (spsc_start b n) spsc_step s" and "unat n \<le> length b" and "unat n dvd 2 ^ 32"
  shows "reach (\<lambda>s. \<exists>b. spsc_start b n s \<and> unat n \<le> length b \<and> unat n dvd 2 ^ 32) spsc_step s"
  using assms(1)
proof (induction rule: reach.induct)
  case (reach_init s)
  then show ?case using assms(2,3) by (intro reach.reach_init) blast
next
  case (reach_step s i t)
  then show ?case by (blast intro: reach.reach_step)
qed

lemma spsc_reach_inv:
  assumes "reach (spsc_start b n) spsc_step s" and "unat n \<le> length b" and "unat n dvd 2 ^ 32"
  shows "spsc_inv n s"
  using spsc.reach_simulates [OF spsc_reach_dvd [OF assms]] by blast

text \<open>C19: the single-producer single-consumer queue is a bounded FIFO queue when its size divides
  \<open>2 ^ 32\<close>: in every interleaving of producer and consumer, and through any number of wrap-arounds
  of the 32-bit positions, the delivered values are the accepted values in order, at most
  \<open>size\<close> are in between, no slot is accessed out of bounds and no assertion fails.\<close>

lemma bounded_spsc_fifo:
  assumes "reach (spsc_start b n) spsc_step s" and "unat n \<le> length b" and "unat n dvd 2 ^ 32"
  shows "reach (\<lambda>a. a = ([], [])) (fifo_spec (unat n) :: spsc_tid \<Rightarrow> fifo \<Rightarrow> fifo \<Rightarrow> bool) (sp_ins s, sp_outs s) \<and>
    (\<exists>rest. sp_ins s = sp_outs s @ rest \<and> length rest \<le> unat n) \<and>
    (\<forall>e. sp_prod s \<noteq> ProdFault e \<and> sp_cons s \<noteq> ConsFault e)"
proof -
  from spsc.reach_simulates [OF spsc_reach_dvd [OF assms]]
  have r: "reach (\<lambda>a. a = ([], [])) (fifo_spec (unat n) :: spsc_tid \<Rightarrow> fifo \<Rightarrow> fifo \<Rightarrow> bool)
      (sp_ins s, sp_outs s)" and inv: "spsc_inv n s" by auto
  have "sp_prod s \<noteq> ProdFault e" "sp_cons s \<noteq> ConsFault e" for e
    using spsc_invD(7,8) [OF inv] by auto
  with r fifo.reach_inv [OF r] show ?thesis by (simp add: fifo_inv_def)
qed

text \<open>Full and empty are reported exactly: at the access that decides it, an enqueue reports
  full if and only if the queue then holds \<open>size\<close> values, and a dequeue reports empty if and only if
  it holds none.\<close>

lemma bounded_spsc_full_empty:
  assumes "reach (spsc_start b n) spsc_step s" and "unat n \<le> length b" and "unat n dvd 2 ^ 32"
  shows "(sp_prod s = ProdEnq v (PE_head tail) \<longrightarrow>
      (fst (bounded_spsc_enq v (PE_head tail) (sp_q s)) = Ret (Inr QUEUE_BOUNDED_FULL) \<longleftrightarrow>
       length (sp_ins s) - length (sp_outs s) = unat n)) \<and>
    (sp_cons s = ConsDeq (PD_tail head) \<longrightarrow>
      (fst (bounded_spsc_deq (PD_tail head) (sp_q s)) = Ret (Inr (QUEUE_BOUNDED_EMPTY, None)) \<longleftrightarrow>
       length (sp_ins s) - length (sp_outs s) = 0))"
proof -
  have "spsc_inv n s" using spsc_reach_inv [OF assms] .
  note i = spsc_invD [OF this]
  have n: "unat n < 2 ^ 32" using unsigned_less [of n, where 'a = nat] by simp
  have "tail - sp_head (sp_q s) = sp_size (sp_q s) \<longleftrightarrow> length (sp_ins s) - length (sp_outs s) = unat n"
    if "sp_prod s = ProdEnq v (PE_head tail)"
    using of_nat_diff_eq [OF i(9), of "unat n"] i(7,9,10) n that by (auto simp: i(1,4))
  moreover have "sp_tail (sp_q s) - head = 0 \<longleftrightarrow> length (sp_ins s) - length (sp_outs s) = 0"
    if "sp_cons s = ConsDeq (PD_tail head)"
    using of_nat_diff_eq [OF i(9), of 0] i(8,9,10) n that by (auto simp: i(5))
  ultimately show ?thesis by (auto simp: vsync_simps Let_def)
qed

section \<open>Undisturbed calls\<close>

text \<open>A call that is not disturbed completes after four accesses; no hypothesis on the size.\<close>

lemma enq_run:
  assumes "sp_prod s = ProdIdle" and "v \<noteq> NULL" and "sp_tail (sp_q s) - sp_head (sp_q s) \<noteq> sp_size (sp_q s)"
    and "unat (sp_tail (sp_q s) mod sp_size (sp_q s)) < length (sp_buf (sp_q s))"
  shows "steps spsc_step s (s\<lparr>sp_q := (sp_q s)\<lparr>
      sp_buf := (sp_buf (sp_q s))[unat (sp_tail (sp_q s) mod sp_size (sp_q s)) := v],
      sp_tail := sp_tail (sp_q s) + 1\<rparr>, sp_ins := sp_ins s @ [v]\<rparr>)"
proof -
  let ?tl = "sp_tail (sp_q s)"
  let ?s1 = "s\<lparr>sp_prod := ProdEnq v PE_tail\<rparr>" and ?s2 = "s\<lparr>sp_prod := ProdEnq v (PE_head ?tl)\<rparr>"
    and ?s3 = "s\<lparr>sp_prod := ProdEnq v (PE_store ?tl)\<rparr>"
  let ?q = "(sp_q s)\<lparr>sp_buf := (sp_buf (sp_q s))[unat (?tl mod sp_size (sp_q s)) := v]\<rparr>"
  let ?s4 = "s\<lparr>sp_q := ?q, sp_prod := ProdEnq v (PE_write ?tl)\<rparr>"
  have 1: "spsc_step Producer s ?s1" using assms(1,2) by (rule sp_call_enq)
  have 2: "spsc_step Producer ?s1 ?s2"
    using sp_enq [of ?s1 v PE_tail "Goto (PE_head ?tl)" "sp_q s"] assms(2) by (simp add: vsync_simps)
  have 3: "spsc_step Producer ?s2 ?s3"
    using sp_enq [of ?s2 v "PE_head ?tl" "Goto (PE_store ?tl)" "sp_q s"] assms(3) by (simp add: vsync_simps)
  have 4: "spsc_step Producer ?s3 ?s4"
    using sp_enq [of ?s3 v "PE_store ?tl" "Goto (PE_write ?tl)" ?q] assms(4) by simp
  have 5: "spsc_step Producer ?s4 (s\<lparr>sp_q := ?q\<lparr>sp_tail := ?tl + 1\<rparr>, sp_prod := ProdIdle, sp_ins := sp_ins s @ [v]\<rparr>)"
    using sp_enq [of ?s4 v "PE_write ?tl" "Ret (Inr QUEUE_BOUNDED_OK)" "?q\<lparr>sp_tail := ?tl + 1\<rparr>"]
    by (simp add: vsync_simps)
  have e: "s\<lparr>sp_q := ?q\<lparr>sp_tail := ?tl + 1\<rparr>, sp_prod := ProdIdle, sp_ins := sp_ins s @ [v]\<rparr> =
    s\<lparr>sp_q := ?q\<lparr>sp_tail := ?tl + 1\<rparr>, sp_ins := sp_ins s @ [v]\<rparr>" using assms(1) by simp
  from steps_cons [of spsc_step, OF 1 steps_cons [of spsc_step, OF 2 steps_cons [of spsc_step, OF 3
      steps_cons [of spsc_step, OF 4 steps_single [of spsc_step, OF 5]]]]]
  show ?thesis unfolding e .
qed

lemma deq_run:
  assumes "sp_cons s = ConsIdle" and "sp_tail (sp_q s) \<noteq> sp_head (sp_q s)"
    and "unat (sp_head (sp_q s) mod sp_size (sp_q s)) < length (sp_buf (sp_q s))"
  shows "steps spsc_step s (s\<lparr>sp_q := (sp_q s)\<lparr>sp_head := sp_head (sp_q s) + 1\<rparr>,
      sp_outs := sp_outs s @ [sp_buf (sp_q s) ! unat (sp_head (sp_q s) mod sp_size (sp_q s))]\<rparr>)"
proof -
  let ?hd = "sp_head (sp_q s)"
  let ?x = "sp_buf (sp_q s) ! unat (?hd mod sp_size (sp_q s))"
  let ?s1 = "s\<lparr>sp_cons := ConsDeq PD_head\<rparr>" and ?s2 = "s\<lparr>sp_cons := ConsDeq (PD_tail ?hd)\<rparr>"
    and ?s3 = "s\<lparr>sp_cons := ConsDeq (PD_load ?hd)\<rparr>" and ?s4 = "s\<lparr>sp_cons := ConsDeq (PD_write ?hd ?x)\<rparr>"
  have 1: "spsc_step Consumer s ?s1" using assms(1) by (rule sp_call_deq)
  have 2: "spsc_step Consumer ?s1 ?s2"
    using sp_deq [of ?s1 PD_head "Goto (PD_tail ?hd)" "sp_q s"] by (simp add: vsync_simps)
  have 3: "spsc_step Consumer ?s2 ?s3"
    using sp_deq [of ?s2 "PD_tail ?hd" "Goto (PD_load ?hd)" "sp_q s"] assms(2) by (simp add: vsync_simps)
  have 4: "spsc_step Consumer ?s3 ?s4"
    using sp_deq [of ?s3 "PD_load ?hd" "Goto (PD_write ?hd ?x)" "sp_q s"] assms(3) by simp
  have 5: "spsc_step Consumer ?s4 (s\<lparr>sp_q := (sp_q s)\<lparr>sp_head := ?hd + 1\<rparr>, sp_cons := ConsIdle, sp_outs := sp_outs s @ [?x]\<rparr>)"
    using sp_deq [of ?s4 "PD_write ?hd ?x" "Ret (Inr (QUEUE_BOUNDED_OK, Some ?x))" "(sp_q s)\<lparr>sp_head := ?hd + 1\<rparr>"]
    by (simp add: vsync_simps)
  have e: "s\<lparr>sp_q := (sp_q s)\<lparr>sp_head := ?hd + 1\<rparr>, sp_cons := ConsIdle, sp_outs := sp_outs s @ [?x]\<rparr> =
    s\<lparr>sp_q := (sp_q s)\<lparr>sp_head := ?hd + 1\<rparr>, sp_outs := sp_outs s @ [?x]\<rparr>" using assms(1) by simp
  from steps_cons [of spsc_step, OF 1 steps_cons [of spsc_step, OF 2 steps_cons [of spsc_step, OF 3
      steps_cons [of spsc_step, OF 4 steps_single [of spsc_step, OF 5]]]]]
  show ?thesis unfolding e .
qed

section \<open>A size that does not divide the counter range\<close>

definition spsc_three :: "nat \<Rightarrow> spsc_sys \<Rightarrow> bool" where
  "spsc_three k s \<longleftrightarrow> length (sp_buf (sp_q s)) = 3 \<and> sp_head (sp_q s) = of_nat k \<and> sp_tail (sp_q s) = of_nat k \<and>
     sp_size (sp_q s) = 3 \<and> sp_prod s = ProdIdle \<and> sp_cons s = ConsIdle \<and> sp_outs s = sp_ins s \<and> length (sp_ins s) = k"

lemma mod_3_less: "unat ((w :: u32) mod 3) < 3"
  by (simp add: unat_mod)

lemma three_round:
  assumes "spsc_three k s"
  shows "\<exists>t. steps spsc_step s t \<and> spsc_three (Suc k) t"
proof -
  note i = assms [unfolded spsc_three_def]
  let ?w = "of_nat k :: u32"
  let ?b = "(sp_buf (sp_q s))[unat (?w mod 3) := 1]"
  let ?s1 = "s\<lparr>sp_q := (sp_q s)\<lparr>sp_buf := ?b, sp_tail := ?w + 1\<rparr>, sp_ins := sp_ins s @ [1]\<rparr>"
  have len: "unat (?w mod 3) < length (sp_buf (sp_q s))" using i mod_3_less by metis
  have one: "steps spsc_step s ?s1" using enq_run [of s 1] i len by simp
  have "steps spsc_step ?s1 (?s1\<lparr>sp_q := (sp_q ?s1)\<lparr>sp_head := ?w + 1\<rparr>, sp_outs := sp_outs s @ [1]\<rparr>)"
    using deq_run [of ?s1] i len by simp
  from steps_trans [OF this one]
  have "steps spsc_step s (?s1\<lparr>sp_q := (sp_q ?s1)\<lparr>sp_head := ?w + 1\<rparr>, sp_outs := sp_outs s @ [1]\<rparr>)" .
  moreover have "spsc_three (Suc k) (?s1\<lparr>sp_q := (sp_q ?s1)\<lparr>sp_head := ?w + 1\<rparr>, sp_outs := sp_outs s @ [1]\<rparr>)"
    using i by (simp add: spsc_three_def add.commute)
  ultimately show ?thesis by blast
qed

lemma three_rounds:
  assumes "spsc_three 0 s"
  shows "\<exists>t. steps spsc_step s t \<and> spsc_three k t"
proof (induction k)
  case 0
  then show ?case using assms by (blast intro: steps_refl)
next
  case (Suc k)
  then obtain t where t: "steps spsc_step s t" "spsc_three k t" by blast
  from three_round [OF t(2)] obtain u where "steps spsc_step t u" "spsc_three (Suc k) u" by blast
  with steps_trans [OF _ t(1)] show ?case by blast
qed

definition spsc_three_start :: spsc_sys where
  "spsc_three_start = \<lparr>sp_q = \<lparr>sp_buf = [0, 0, 0], sp_head = 0, sp_tail = 0, sp_size = 3\<rparr>,
     sp_prod = ProdIdle, sp_cons = ConsIdle, sp_ins = [], sp_outs = []\<rparr>"

text \<open>C39: with three slots the queue is not FIFO: after \<open>2 ^ 32 - 1\<close> values have gone through it,
  two further values \<open>x\<close> and \<open>y\<close> are both accepted into slot 0, and the next value delivered is
  \<open>y\<close>, although \<open>x\<close> was accepted first.\<close>

lemma bounded_spsc_size_3_loses:
  assumes "x \<noteq> NULL" and "y \<noteq> NULL"
  shows "\<exists>s ins. reach (spsc_start [0, 0, 0] 3) spsc_step s \<and> length ins = 2 ^ 32 - 1 \<and>
    sp_ins s = ins @ [x, y] \<and> sp_outs s = ins @ [y]"
proof -
  have "spsc_three 0 spsc_three_start" by (simp add: spsc_three_def spsc_three_start_def)
  then obtain s where s: "steps spsc_step spsc_three_start s" "spsc_three (2 ^ 32 - 1) s"
    using three_rounds by blast
  have w: "(of_nat (2 ^ 32 - 1) :: u32) = - 1" by simp
  note i = s(2) [unfolded spsc_three_def w]
  have z: "unat ((- 1 :: u32) mod 3) = 0" by (simp add: unat_mod unsigned_minus_1_eq_mask mask_eq_exp_minus_1)
  let ?b1 = "(sp_buf (sp_q s))[0 := x]" and ?b2 = "(sp_buf (sp_q s))[0 := y]"
  let ?s1 = "s\<lparr>sp_q := (sp_q s)\<lparr>sp_buf := ?b1, sp_tail := 0\<rparr>, sp_ins := sp_ins s @ [x]\<rparr>"
  let ?s2 = "s\<lparr>sp_q := (sp_q s)\<lparr>sp_buf := ?b2, sp_tail := 1\<rparr>, sp_ins := sp_ins s @ [x, y]\<rparr>"
  let ?s3 = "?s2\<lparr>sp_q := (sp_q ?s2)\<lparr>sp_head := 0\<rparr>, sp_outs := sp_ins s @ [y]\<rparr>"
  have 1: "steps spsc_step s ?s1" using enq_run [of s x] i z assms(1) by simp
  have 2: "steps spsc_step ?s1 ?s2" using enq_run [of ?s1 y] i z assms(2) by simp
  have 3: "steps spsc_step ?s2 ?s3" using deq_run [of ?s2] i z by simp
  have "steps spsc_step spsc_three_start ?s3" by (intro steps_trans [OF 3] steps_trans [OF 2] steps_trans [OF 1] s(1))
  moreover have "spsc_start [0, 0, 0] 3 spsc_three_start"
    by (simp add: spsc_start_def bounded_spsc_init_def spsc_three_start_def vsync_simps)
  ultimately have "reach (spsc_start [0, 0, 0] 3) spsc_step ?s3" by (intro reach_steps [OF _ reach_init])
  then show ?thesis using i by (intro exI [of _ ?s3] exI [of _ "sp_ins s"]) simp
qed

section \<open>A concrete execution\<close>

definition spsc_w :: spsc_sys where
  "spsc_w = \<lparr>sp_q = \<lparr>sp_buf = [7, 0], sp_head = 0, sp_tail = 1, sp_size = 2\<rparr>,
     sp_prod = ProdIdle, sp_cons = ConsIdle, sp_ins = [7], sp_outs = []\<rparr>"

lemma spsc_w_reach: "reach (spsc_start [0, 0] 2) spsc_step spsc_w"
proof -
  let ?s = "\<lparr>sp_q = \<lparr>sp_buf = [0, 0], sp_head = 0, sp_tail = 0, sp_size = 2\<rparr>,
     sp_prod = ProdIdle, sp_cons = ConsIdle, sp_ins = [], sp_outs = []\<rparr>"
  have "spsc_start [0, 0] 2 ?s" by (simp add: spsc_start_def bounded_spsc_init_def vsync_simps)
  moreover have "steps spsc_step ?s spsc_w" using enq_run [of ?s 7] by (simp add: spsc_w_def)
  ultimately show ?thesis by (intro reach_steps [OF _ reach_init])
qed

lemma bounded_spsc_fifo_witness:
  "\<exists>rest. sp_ins spsc_w = sp_outs spsc_w @ rest \<and> length rest \<le> 2"
  using bounded_spsc_fifo [OF spsc_w_reach] by simp

lemma bounded_spsc_size_3_loses_witness:
  "\<exists>s ins. reach (spsc_start [0, 0, 0] 3) spsc_step s \<and> length ins = 2 ^ 32 - 1 \<and>
    sp_ins s = ins @ [5, 6] \<and> sp_outs s = ins @ [6]"
  using bounded_spsc_size_3_loses [of 5 6] by simp

end
