(* ===== verification/Bounded_Mpmc.thy ===== *)
theory Bounded_Mpmc
  imports Bounded_Spsc
begin

text \<open>
  The multi-producer multi-consumer queue of \<^verbatim>\<open>queue/bounded_mpmc.h\<close>. Producers reserve a
  position with a compare-and-swap on \<^verbatim>\<open>phead\<close>, fill the slot, wait for their turn and publish
  it in \<^verbatim>\<open>ptail\<close>; consumers do the same with \<^verbatim>\<open>chead\<close> and \<^verbatim>\<open>ctail\<close>. Any number of
  threads interleave single accesses. The queue is shown to implement the bounded FIFO contract
  when the size divides \<open>2 ^ 32\<close>.
\<close>

section \<open>Operations\<close>

record bounded_mpmc_t =
  mp_phead :: u32
  mp_ptail :: u32
  mp_chead :: u32
  mp_ctail :: u32
  mp_buf :: "ptr list"
  mp_size :: u32

definition bounded_mpmc_init :: "ptr list option \<Rightarrow> u32 \<Rightarrow> bounded_mpmc_t res" where
  "bounded_mpmc_init b s =
     rbind (vassert (b \<noteq> None)) (\<lambda>_. rbind (vassert (s \<noteq> 0)) (\<lambda>_.
       Inr \<lparr>mp_phead = vatomic_init 0 0, mp_ptail = vatomic_init 0 0, mp_chead = vatomic_init 0 0,
            mp_ctail = vatomic_init 0 0, mp_buf = the b, mp_size = s\<rparr>))"

datatype mpmc_enq_pc = QE_phead | QE_ctail u32 | QE_cas u32 | QE_store u32 | QE_await u32 | QE_write u32

text \<open>The local \<^verbatim>\<open>next\<close> is always \<open>cur + 1\<close>.\<close>

fun bounded_mpmc_enq :: "ptr \<Rightarrow> mpmc_enq_pc \<Rightarrow> bounded_mpmc_t \<Rightarrow>
    (mpmc_enq_pc, bounded_ret_t res) ctl \<times> bounded_mpmc_t" where
  "bounded_mpmc_enq v QE_phead q = (Goto (QE_ctail (vatomic_read (mp_phead q))), q)"
| "bounded_mpmc_enq v (QE_ctail cur) q =
     (if cur - vatomic_read (mp_ctail q) = mp_size q then Ret (Inr QUEUE_BOUNDED_FULL) else Goto (QE_cas cur), q)"
| "bounded_mpmc_enq v (QE_cas cur) q =
     (let (old, a) = vatomic_cmpxchg (mp_phead q) cur (cur + 1)
      in (if old \<noteq> cur then Ret (Inr QUEUE_BOUNDED_AGAIN) else Goto (QE_store cur), q\<lparr>mp_phead := a\<rparr>))"
| "bounded_mpmc_enq v (QE_store cur) q =
     (case awrite (mp_buf q) (unat (cur mod mp_size q)) v of
        Inl e \<Rightarrow> (Ret (Inl e), q) | Inr b \<Rightarrow> (Goto (QE_await cur), q\<lparr>mp_buf := b\<rparr>))"
| "bounded_mpmc_enq v (QE_await cur) q =
     ((case vatomic_await_eq cur cur (mp_ptail q) of Goto _ \<Rightarrow> Goto (QE_await cur) | Ret _ \<Rightarrow> Goto (QE_write cur)), q)"
| "bounded_mpmc_enq v (QE_write cur) q =
     (Ret (Inr QUEUE_BOUNDED_OK), q\<lparr>mp_ptail := vatomic_write (mp_ptail q) (cur + 1)\<rparr>)"

datatype mpmc_deq_pc = QD_chead | QD_ptail u32 | QD_cas u32 | QD_load u32 | QD_await u32 ptr | QD_write u32 ptr

fun bounded_mpmc_deq :: "mpmc_deq_pc \<Rightarrow> bounded_mpmc_t \<Rightarrow>
    (mpmc_deq_pc, (bounded_ret_t \<times> ptr option) res) ctl \<times> bounded_mpmc_t" where
  "bounded_mpmc_deq QD_chead q = (Goto (QD_ptail (vatomic_read (mp_chead q))), q)"
| "bounded_mpmc_deq (QD_ptail cur) q =
     (if cur = vatomic_read (mp_ptail q) then Ret (Inr (QUEUE_BOUNDED_EMPTY, None)) else Goto (QD_cas cur), q)"
| "bounded_mpmc_deq (QD_cas cur) q =
     (let (old, a) = vatomic_cmpxchg (mp_chead q) cur (cur + 1)
      in (if old \<noteq> cur then Ret (Inr (QUEUE_BOUNDED_AGAIN, None)) else Goto (QD_load cur), q\<lparr>mp_chead := a\<rparr>))"
| "bounded_mpmc_deq (QD_load cur) q =
     (case aread (mp_buf q) (unat (cur mod mp_size q)) of
        Inl e \<Rightarrow> Ret (Inl e) | Inr x \<Rightarrow> Goto (QD_await cur x), q)"
| "bounded_mpmc_deq (QD_await cur x) q =
     ((case vatomic_await_eq cur cur (mp_ctail q) of Goto _ \<Rightarrow> Goto (QD_await cur x) | Ret _ \<Rightarrow> Goto (QD_write cur x)), q)"
| "bounded_mpmc_deq (QD_write cur x) q =
     (Ret (Inr (QUEUE_BOUNDED_OK, Some x)), q\<lparr>mp_ctail := vatomic_write (mp_ctail q) (cur + 1)\<rparr>)"

section \<open>Threads\<close>

text \<open>
  Auxiliary state: \<open>mp_ph\<close> and \<open>mp_ch\<close> count the reserved positions, \<open>mp_pos i\<close> is the position
  thread \<open>i\<close> read, and the logs hold the accepted and delivered values in the order of publication.
\<close>

datatype mpmc_pc = MpIdle | MpEnq ptr mpmc_enq_pc | MpDeq mpmc_deq_pc | MpFault fault

record mpmc_sys =
  mp_q :: bounded_mpmc_t
  mp_pcs :: "tid \<Rightarrow> mpmc_pc"
  mp_pos :: "tid \<Rightarrow> nat"
  mp_ph :: nat
  mp_ch :: nat
  mp_ins :: "ptr list"
  mp_outs :: "ptr list"

fun mpmc_enq_next :: "ptr \<Rightarrow> (mpmc_enq_pc, bounded_ret_t res) ctl \<Rightarrow> mpmc_pc" where
  "mpmc_enq_next v (Goto p) = MpEnq v p"
| "mpmc_enq_next v (Ret (Inr r)) = MpIdle"
| "mpmc_enq_next v (Ret (Inl e)) = MpFault e"

fun mpmc_deq_next :: "(mpmc_deq_pc, (bounded_ret_t \<times> ptr option) res) ctl \<Rightarrow> mpmc_pc" where
  "mpmc_deq_next (Goto p) = MpDeq p"
| "mpmc_deq_next (Ret (Inr r)) = MpIdle"
| "mpmc_deq_next (Ret (Inl e)) = MpFault e"

definition mpmc_start :: "ptr list \<Rightarrow> u32 \<Rightarrow> mpmc_sys \<Rightarrow> bool" where
  "mpmc_start b n s \<longleftrightarrow> bounded_mpmc_init (Some b) n = Inr (mp_q s) \<and> (\<forall>i. mp_pcs s i = MpIdle) \<and>
     mp_ph s = 0 \<and> mp_ch s = 0 \<and> mp_ins s = [] \<and> mp_outs s = []"

inductive mpmc_step :: "tid \<Rightarrow> mpmc_sys \<Rightarrow> mpmc_sys \<Rightarrow> bool" where
  mp_call: "mp_pcs s i = MpIdle \<Longrightarrow> p \<in> {MpEnq v QE_phead, MpDeq QD_chead} \<Longrightarrow>
     mpmc_step i s (s\<lparr>mp_pcs := (mp_pcs s)(i := p)\<rparr>)"
| mp_enq: "mp_pcs s i = MpEnq v p \<Longrightarrow> bounded_mpmc_enq v p (mp_q s) = (r, q) \<Longrightarrow>
     mpmc_step i s (s\<lparr>mp_q := q, mp_pcs := (mp_pcs s)(i := mpmc_enq_next v r),
       mp_pos := (if p = QE_phead then (mp_pos s)(i := mp_ph s) else mp_pos s),
       mp_ph := (if mp_phead q = mp_phead (mp_q s) then mp_ph s else mp_ph s + 1),
       mp_ins := mp_ins s @ accepted v r\<rparr>)"
| mp_deq: "mp_pcs s i = MpDeq p \<Longrightarrow> bounded_mpmc_deq p (mp_q s) = (r, q) \<Longrightarrow>
     mpmc_step i s (s\<lparr>mp_q := q, mp_pcs := (mp_pcs s)(i := mpmc_deq_next r),
       mp_pos := (if p = QD_chead then (mp_pos s)(i := mp_ch s) else mp_pos s),
       mp_ch := (if mp_chead q = mp_chead (mp_q s) then mp_ch s else mp_ch s + 1),
       mp_outs := mp_outs s @ delivered r\<rparr>)"

text \<open>
  The executions considered: between reading a position and its compare-and-swap a thread is not
  overtaken by so many others that the 32-bit position could come round to the value it read.
\<close>

fun mp_near :: "nat \<Rightarrow> mpmc_pc \<Rightarrow> nat \<Rightarrow> nat \<Rightarrow> nat \<Rightarrow> bool" where
  "mp_near N (MpEnq v (QE_ctail c)) pos ph pt \<longleftrightarrow> ph + N < pos + 2 ^ 32"
| "mp_near N (MpEnq v (QE_cas c)) pos ph pt \<longleftrightarrow> ph + N < pos + 2 ^ 32"
| "mp_near N (MpDeq (QD_ptail c)) pos ph pt \<longleftrightarrow> pt < pos + 2 ^ 32"
| "mp_near N (MpDeq (QD_cas c)) pos ph pt \<longleftrightarrow> pt < pos + 2 ^ 32"
| "mp_near N _ pos ph pt \<longleftrightarrow> True"

definition mpmc_nstep :: "u32 \<Rightarrow> tid \<Rightarrow> mpmc_sys \<Rightarrow> mpmc_sys \<Rightarrow> bool" where
  "mpmc_nstep n i s t \<longleftrightarrow> mpmc_step i s t \<and>
     (\<forall>j. mp_near (unat n) (mp_pcs t j) (mp_pos t j) (mp_ph t) (length (mp_ins t)))"

section \<open>Invariant\<close>

fun producing :: "mpmc_pc \<Rightarrow> bool" where
  "producing (MpEnq v (QE_store c)) \<longleftrightarrow> True"
| "producing (MpEnq v (QE_await c)) \<longleftrightarrow> True"
| "producing (MpEnq v (QE_write c)) \<longleftrightarrow> True"
| "producing _ \<longleftrightarrow> False"

fun consuming :: "mpmc_pc \<Rightarrow> bool" where
  "consuming (MpDeq (QD_load c)) \<longleftrightarrow> True"
| "consuming (MpDeq (QD_await c x)) \<longleftrightarrow> True"
| "consuming (MpDeq (QD_write c x)) \<longleftrightarrow> True"
| "consuming _ \<longleftrightarrow> False"

fun mp_pc_ok :: "nat \<Rightarrow> mpmc_sys \<Rightarrow> mpmc_pc \<Rightarrow> nat \<Rightarrow> bool" where
  "mp_pc_ok N s (MpEnq v (QE_ctail c)) pos \<longleftrightarrow> c = of_nat pos \<and> pos \<le> mp_ph s"
| "mp_pc_ok N s (MpEnq v (QE_cas c)) pos \<longleftrightarrow> c = of_nat pos \<and> pos \<le> mp_ph s \<and>
     (pos = mp_ph s \<longrightarrow> mp_ph s < length (mp_outs s) + N)"
| "mp_pc_ok N s (MpEnq v (QE_store c)) pos \<longleftrightarrow> c = of_nat pos \<and> length (mp_ins s) \<le> pos \<and> pos < mp_ph s"
| "mp_pc_ok N s (MpEnq v (QE_await c)) pos \<longleftrightarrow> c = of_nat pos \<and> length (mp_ins s) \<le> pos \<and> pos < mp_ph s \<and>
     mp_buf (mp_q s) ! (pos mod N) = v"
| "mp_pc_ok N s (MpEnq v (QE_write c)) pos \<longleftrightarrow> c = of_nat pos \<and> pos = length (mp_ins s) \<and> pos < mp_ph s \<and>
     mp_buf (mp_q s) ! (pos mod N) = v"
| "mp_pc_ok N s (MpDeq (QD_ptail c)) pos \<longleftrightarrow> c = of_nat pos \<and> pos \<le> mp_ch s"
| "mp_pc_ok N s (MpDeq (QD_cas c)) pos \<longleftrightarrow> c = of_nat pos \<and> pos \<le> mp_ch s \<and>
     (pos = mp_ch s \<longrightarrow> mp_ch s < length (mp_ins s))"
| "mp_pc_ok N s (MpDeq (QD_load c)) pos \<longleftrightarrow> c = of_nat pos \<and> length (mp_outs s) \<le> pos \<and> pos < mp_ch s"
| "mp_pc_ok N s (MpDeq (QD_await c x)) pos \<longleftrightarrow> c = of_nat pos \<and> length (mp_outs s) \<le> pos \<and> pos < mp_ch s \<and>
     x = mp_ins s ! pos"
| "mp_pc_ok N s (MpDeq (QD_write c x)) pos \<longleftrightarrow> c = of_nat pos \<and> pos = length (mp_outs s) \<and> pos < mp_ch s \<and>
     x = mp_ins s ! pos"
| "mp_pc_ok N s (MpFault e) pos \<longleftrightarrow> False"
| "mp_pc_ok N s _ pos \<longleftrightarrow> True"

definition mp_shared :: "u32 \<Rightarrow> mpmc_sys \<Rightarrow> bool" where
  "mp_shared n s \<longleftrightarrow> mp_size (mp_q s) = n \<and> unat n dvd 2 ^ 32 \<and> unat n \<le> length (mp_buf (mp_q s)) \<and>
     mp_phead (mp_q s) = of_nat (mp_ph s) \<and> mp_ptail (mp_q s) = of_nat (length (mp_ins s)) \<and>
     mp_chead (mp_q s) = of_nat (mp_ch s) \<and> mp_ctail (mp_q s) = of_nat (length (mp_outs s)) \<and>
     length (mp_outs s) \<le> mp_ch s \<and> mp_ch s \<le> length (mp_ins s) \<and> length (mp_ins s) \<le> mp_ph s \<and>
     mp_ph s \<le> length (mp_outs s) + unat n \<and> ring_ok (unat n) (mp_buf (mp_q s)) (mp_ins s) (mp_outs s)"

definition mp_unique :: "mpmc_sys \<Rightarrow> bool" where
  "mp_unique s \<longleftrightarrow> (\<forall>i j. mp_pos s i = mp_pos s j \<longrightarrow>
     producing (mp_pcs s i) \<and> producing (mp_pcs s j) \<or> consuming (mp_pcs s i) \<and> consuming (mp_pcs s j) \<longrightarrow> i = j)"

definition mp_inv :: "u32 \<Rightarrow> mpmc_sys \<Rightarrow> bool" where
  "mp_inv n s \<longleftrightarrow> mp_shared n s \<and> mp_unique s \<and> (\<forall>i. mp_pc_ok (unat n) s (mp_pcs s i) (mp_pos s i)) \<and>
     (\<forall>i. mp_near (unat n) (mp_pcs s i) (mp_pos s i) (mp_ph s) (length (mp_ins s)))"

lemma mp_sharedD:
  assumes "mp_shared n s"
  shows "mp_size (mp_q s) = n" and "unat n dvd 2 ^ 32" and "unat n \<le> length (mp_buf (mp_q s))"
    and "mp_phead (mp_q s) = of_nat (mp_ph s)" and "mp_ptail (mp_q s) = of_nat (length (mp_ins s))"
    and "mp_chead (mp_q s) = of_nat (mp_ch s)" and "mp_ctail (mp_q s) = of_nat (length (mp_outs s))"
    and "length (mp_outs s) \<le> mp_ch s" and "mp_ch s \<le> length (mp_ins s)" and "length (mp_ins s) \<le> mp_ph s"
    and "mp_ph s \<le> length (mp_outs s) + unat n" and "ring_ok (unat n) (mp_buf (mp_q s)) (mp_ins s) (mp_outs s)"
    and "unat n < 2 ^ 32"
  using assms unsigned_less [of n, where 'a = nat] by (simp_all add: mp_shared_def)

lemma mp_invD:
  assumes "mp_inv n s"
  shows "mp_shared n s" and "mp_unique s" and "mp_pc_ok (unat n) s (mp_pcs s i) (mp_pos s i)"
    and "mp_near (unat n) (mp_pcs s i) (mp_pos s i) (mp_ph s) (length (mp_ins s))"
  using assms by (simp_all add: mp_inv_def)

text \<open>What the threads that do not move need: the counters grow, the logs are extended by at most
  one value, and the slots and turns of active threads are left alone.\<close>

definition mp_grows :: "nat \<Rightarrow> tid \<Rightarrow> mpmc_sys \<Rightarrow> mpmc_sys \<Rightarrow> bool" where
  "mp_grows N i s t \<longleftrightarrow> mp_ph s \<le> mp_ph t \<and> mp_ch s \<le> mp_ch t \<and>
     (\<exists>ys. mp_ins t = mp_ins s @ ys \<and> (ys = [] \<or> length ys = 1 \<and> (\<forall>j. j \<noteq> i \<longrightarrow> producing (mp_pcs s j) \<longrightarrow> mp_pos s j \<noteq> length (mp_ins s)))) \<and>
     (\<exists>ys. mp_outs t = mp_outs s @ ys \<and> (ys = [] \<or> length ys = 1 \<and> (\<forall>j. j \<noteq> i \<longrightarrow> consuming (mp_pcs s j) \<longrightarrow> mp_pos s j \<noteq> length (mp_outs s)))) \<and>
     (\<forall>j. j \<noteq> i \<longrightarrow> producing (mp_pcs s j) \<longrightarrow> mp_buf (mp_q t) ! (mp_pos s j mod N) = mp_buf (mp_q s) ! (mp_pos s j mod N))"

lemma mp_pc_ok_grows:
  assumes "mp_pc_ok N s (mp_pcs s j) (mp_pos s j)" and "mp_grows N i s t" and "j \<noteq> i"
    and "mp_ch s \<le> length (mp_ins s)"
  shows "mp_pc_ok N t (mp_pcs s j) (mp_pos s j)"
proof -
  obtain ys zs where g: "mp_ph s \<le> mp_ph t" "mp_ch s \<le> mp_ch t" "mp_ins t = mp_ins s @ ys" "mp_outs t = mp_outs s @ zs"
    "ys = [] \<or> length ys = 1 \<and> (producing (mp_pcs s j) \<longrightarrow> mp_pos s j \<noteq> length (mp_ins s))"
    "zs = [] \<or> length zs = 1 \<and> (consuming (mp_pcs s j) \<longrightarrow> mp_pos s j \<noteq> length (mp_outs s))"
    "producing (mp_pcs s j) \<longrightarrow> mp_buf (mp_q t) ! (mp_pos s j mod N) = mp_buf (mp_q s) ! (mp_pos s j mod N)"
    using assms(2,3) unfolding mp_grows_def by blast
  show ?thesis
    using assms(1,4) g
    by (cases "(N, s, mp_pcs s j, mp_pos s j)" rule: mp_pc_ok.cases) (auto simp: nth_append)
qed

text \<open>The thread that moves: how it may become active.\<close>

definition mp_moves :: "tid \<Rightarrow> mpmc_sys \<Rightarrow> mpmc_sys \<Rightarrow> bool" where
  "mp_moves i s t \<longleftrightarrow> (\<forall>j. j \<noteq> i \<longrightarrow> mp_pcs t j = mp_pcs s j \<and> mp_pos t j = mp_pos s j) \<and>
     (producing (mp_pcs t i) \<longrightarrow> producing (mp_pcs s i) \<and> mp_pos t i = mp_pos s i \<or>
        (\<forall>j. producing (mp_pcs s j) \<longrightarrow> mp_pos s j < mp_pos t i)) \<and>
     (consuming (mp_pcs t i) \<longrightarrow> consuming (mp_pcs s i) \<and> mp_pos t i = mp_pos s i \<or>
        (\<forall>j. consuming (mp_pcs s j) \<longrightarrow> mp_pos s j < mp_pos t i))"

lemma mp_unique_moves:
  assumes "mp_unique s" and "mp_moves i s t"
  shows "mp_unique t"
proof -
  have fr: "mp_pcs t j = mp_pcs s j" "mp_pos t j = mp_pos s j" if "j \<noteq> i" for j
    using assms(2) that by (auto simp: mp_moves_def)
  have pi: "mp_pos s j \<noteq> mp_pos t i" if "producing (mp_pcs t i)" "j \<noteq> i" "producing (mp_pcs s j)" for j
  proof (cases "producing (mp_pcs s i) \<and> mp_pos t i = mp_pos s i")
    case True
    then show ?thesis using assms(1) that unfolding mp_unique_def by metis
  next
    case False
    then have "mp_pos s j < mp_pos t i" using assms(2) that unfolding mp_moves_def by metis
    then show ?thesis by simp
  qed
  have ci: "mp_pos s j \<noteq> mp_pos t i" if "consuming (mp_pcs t i)" "j \<noteq> i" "consuming (mp_pcs s j)" for j
  proof (cases "consuming (mp_pcs s i) \<and> mp_pos t i = mp_pos s i")
    case True
    then show ?thesis using assms(1) that unfolding mp_unique_def by metis
  next
    case False
    then have "mp_pos s j < mp_pos t i" using assms(2) that unfolding mp_moves_def by metis
    then show ?thesis by simp
  qed
  have "x = y" if "mp_pos t x = mp_pos t y"
    "producing (mp_pcs t x) \<and> producing (mp_pcs t y) \<or> consuming (mp_pcs t x) \<and> consuming (mp_pcs t y)" for x y
  proof (rule ccontr)
    assume "x \<noteq> y"
    then consider "x = i" "y \<noteq> i" | "y = i" "x \<noteq> i" | "x \<noteq> i" "y \<noteq> i" by blast
    then show False
      using that pi ci fr assms(1) \<open>x \<noteq> y\<close> unfolding mp_unique_def by cases metis+
  qed
  then show ?thesis unfolding mp_unique_def by blast
qed

lemma mp_inv_intro:
  assumes "mp_inv n s" and "mp_moves i s t" and "mp_grows (unat n) i s t" and "mp_shared n t"
    and "mp_pc_ok (unat n) t (mp_pcs t i) (mp_pos t i)"
    and "\<forall>j. mp_near (unat n) (mp_pcs t j) (mp_pos t j) (mp_ph t) (length (mp_ins t))"
  shows "mp_inv n t"
proof -
  have "mp_pc_ok (unat n) t (mp_pcs t j) (mp_pos t j)" for j
  proof (cases "j = i")
    case False
    then have "mp_pcs t j = mp_pcs s j" "mp_pos t j = mp_pos s j" using assms(2) by (auto simp: mp_moves_def)
    then show ?thesis
      using mp_pc_ok_grows [OF mp_invD(3) [OF assms(1)] assms(3) False] mp_sharedD(9) [OF mp_invD(1) [OF assms(1)]]
      by simp
  qed (use assms(5) in simp)
  with assms(4,6) mp_unique_moves [OF mp_invD(2) [OF assms(1)] assms(2)] show ?thesis
    by (simp add: mp_inv_def)
qed

section \<open>The accesses\<close>

text \<open>An access that leaves the shared state alone and does not make its thread active.\<close>

lemma mp_inv_local:
  assumes "mp_inv n s" and "\<And>j. j \<noteq> i \<Longrightarrow> mp_pcs t j = mp_pcs s j \<and> mp_pos t j = mp_pos s j"
    and "mp_q t = mp_q s" and "mp_ph t = mp_ph s" and "mp_ch t = mp_ch s" and "mp_ins t = mp_ins s" and "mp_outs t = mp_outs s"
    and "producing (mp_pcs t i) \<Longrightarrow> producing (mp_pcs s i) \<and> mp_pos t i = mp_pos s i"
    and "consuming (mp_pcs t i) \<Longrightarrow> consuming (mp_pcs s i) \<and> mp_pos t i = mp_pos s i"
    and "mp_pc_ok (unat n) t (mp_pcs t i) (mp_pos t i)"
    and "\<forall>j. mp_near (unat n) (mp_pcs t j) (mp_pos t j) (mp_ph t) (length (mp_ins t))"
  shows "mp_inv n t"
proof (rule mp_inv_intro [OF assms(1) _ _ _ assms(10,11)])
  show "mp_moves i s t" using assms(2,8,9) by (auto simp: mp_moves_def)
  show "mp_grows (unat n) i s t" using assms(3-7) by (simp add: mp_grows_def)
  show "mp_shared n t" using mp_invD(1) [OF assms(1)] assms(3-7) by (simp add: mp_shared_def)
qed

definition mp_enq_after :: "tid \<Rightarrow> ptr \<Rightarrow> mpmc_enq_pc \<Rightarrow> (mpmc_enq_pc, bounded_ret_t res) ctl \<Rightarrow> bounded_mpmc_t \<Rightarrow> mpmc_sys \<Rightarrow> mpmc_sys" where
  "mp_enq_after i v p r q s = s\<lparr>mp_q := q, mp_pcs := (mp_pcs s)(i := mpmc_enq_next v r),
       mp_pos := (if p = QE_phead then (mp_pos s)(i := mp_ph s) else mp_pos s),
       mp_ph := (if mp_phead q = mp_phead (mp_q s) then mp_ph s else mp_ph s + 1),
       mp_ins := mp_ins s @ accepted v r\<rparr>"

lemma mp_full_exact:
  assumes "mp_inv n s" and "mp_pcs s i = MpEnq v (QE_ctail c)"
  shows "c - mp_ctail (mp_q s) = mp_size (mp_q s) \<longleftrightarrow>
    mp_pos s i = mp_ph s \<and> mp_ph s = length (mp_outs s) + unat n"
proof -
  note h = mp_sharedD [OF mp_invD(1) [OF assms(1)]]
  have c: "c = of_nat (mp_pos s i)" "mp_pos s i \<le> mp_ph s" using mp_invD(3) [OF assms(1), of i] assms(2) by simp_all
  have near: "mp_ph s + unat n < mp_pos s i + 2 ^ 32" using mp_invD(4) [OF assms(1), of i] assms(2) by simp
  have "c - mp_ctail (mp_q s) = mp_size (mp_q s) \<longleftrightarrow>
      (of_nat (length (mp_outs s) + unat n) :: u32) = of_nat (mp_pos s i)"
    unfolding c h(1,7) by (auto simp: algebra_simps)
  also have "\<dots> \<longleftrightarrow> length (mp_outs s) + unat n = mp_pos s i"
    using of_nat_eq_near [of "mp_pos s i" "length (mp_outs s) + unat n"] c(2) near h(8-11)
    by linarith
  finally show ?thesis using c(2) h(11) by auto
qed

lemma mp_enq_read:
  assumes inv: "mp_inv n s" and pc: "mp_pcs s i = MpEnq v p"
    and st: "bounded_mpmc_enq v p (mp_q s) = (r, q)"
    and near: "\<forall>j. mp_near (unat n) (mp_pcs t j) (mp_pos t j) (mp_ph t) (length (mp_ins t))"
    and t: "t = mp_enq_after i v p r q s" and p: "(\<exists>c. p = QE_ctail c) \<or> p = QE_phead \<or> (\<exists>c. p = QE_await c)"
  shows "mp_inv n t \<and> accepted v r = []"
proof -
  note h = mp_sharedD [OF mp_invD(1) [OF inv]]
  note ok = mp_invD(3) [OF inv, of i, unfolded pc]
  have eq: "mp_inv n t" if "q = mp_q s" "accepted v r = []"
      "producing (mp_pcs t i) \<Longrightarrow> producing (mp_pcs s i) \<and> mp_pos t i = mp_pos s i"
      "consuming (mp_pcs t i) \<Longrightarrow> consuming (mp_pcs s i) \<and> mp_pos t i = mp_pos s i"
      "mp_pc_ok (unat n) t (mp_pcs t i) (mp_pos t i)"
    by (rule mp_inv_local [OF inv _ _ _ _ _ _ that(3-5) near]) (auto simp: t mp_enq_after_def that(1,2))
  consider (ph) "p = QE_phead" | (ct) c where "p = QE_ctail c" | (aw) c where "p = QE_await c" using p by blast
  then show ?thesis
  proof cases
    case ph
    then have "r = Goto (QE_ctail (mp_phead (mp_q s)))" "q = mp_q s" using st by (auto simp: vsync_simps)
    then show ?thesis using eq h(4) ph by (simp add: t mp_enq_after_def)
  next
    case (ct c)
    have c: "c = of_nat (mp_pos s i)" "mp_pos s i \<le> mp_ph s" using ok ct by simp_all
    have "q = mp_q s \<and> (r = Ret (Inr QUEUE_BOUNDED_FULL) \<or>
        r = Goto (QE_cas c) \<and> (mp_pos s i = mp_ph s \<longrightarrow> mp_ph s < length (mp_outs s) + unat n))"
      using st ct mp_full_exact [OF inv pc [unfolded ct]] h(11) by (auto simp: vsync_simps split: if_splits)
    then show ?thesis using eq c ct by (auto simp: t mp_enq_after_def)
  next
    case (aw c)
    have c: "c = of_nat (mp_pos s i)" "length (mp_ins s) \<le> mp_pos s i" "mp_pos s i < mp_ph s"
      "mp_buf (mp_q s) ! (mp_pos s i mod unat n) = v" using ok aw by simp_all
    have "mp_ptail (mp_q s) = c \<longleftrightarrow> mp_pos s i = length (mp_ins s)"
      using of_nat_eq_near [OF c(2)] c(3) h(8-11,13) by (auto simp: c(1) h(5))
    then have "q = mp_q s \<and> (r = Goto (QE_await c) \<or> r = Goto (QE_write c) \<and> mp_pos s i = length (mp_ins s))"
      using st aw by (cases "mp_ptail (mp_q s) = c") (auto simp: vsync_simps vatomic_await_eq_def)
    then show ?thesis using eq c aw pc by (auto simp: t mp_enq_after_def)
  qed
qed

lemma mp_enq_cas:
  assumes inv: "mp_inv n s" and pc: "mp_pcs s i = MpEnq v (QE_cas c)"
    and st: "bounded_mpmc_enq v (QE_cas c) (mp_q s) = (r, q)"
    and near: "\<forall>j. mp_near (unat n) (mp_pcs t j) (mp_pos t j) (mp_ph t) (length (mp_ins t))"
    and t: "t = mp_enq_after i v (QE_cas c) r q s"
  shows "mp_inv n t \<and> accepted v r = []"
proof -
  note h = mp_sharedD [OF mp_invD(1) [OF inv]]
  have c: "c = of_nat (mp_pos s i)" "mp_pos s i \<le> mp_ph s"
    "mp_pos s i = mp_ph s \<longrightarrow> mp_ph s < length (mp_outs s) + unat n"
    using mp_invD(3) [OF inv, of i] pc by simp_all
  have nr: "mp_ph s + unat n < mp_pos s i + 2 ^ 32" using mp_invD(4) [OF inv, of i] pc by simp
  have hit: "mp_phead (mp_q s) = c \<longleftrightarrow> mp_ph s = mp_pos s i"
    using of_nat_eq_near [OF c(2)] nr by (auto simp: c(1) h(4))
  show ?thesis
  proof (cases "mp_phead (mp_q s) = c")
    case True
    then have ph: "mp_ph s = mp_pos s i" using hit by blast
    have r: "r = Goto (QE_store c)" "q = (mp_q s)\<lparr>mp_phead := c + 1\<rparr>" using st True by (auto simp: vsync_simps)
    have tph: "mp_ph t = mp_ph s + 1" using True by (simp add: t mp_enq_after_def r)
    have "mp_inv n t"
    proof (rule mp_inv_intro [OF inv _ _ _ _ near])
      have "mp_pos s j < mp_ph s" if "producing (mp_pcs s j)" for j
        using mp_invD(3) [OF inv, of j] that
        by (cases "(unat n, s, mp_pcs s j, mp_pos s j)" rule: mp_pc_ok.cases) auto
      then show "mp_moves i s t" by (auto simp: mp_moves_def t mp_enq_after_def r ph)
      show "mp_grows (unat n) i s t" by (auto simp: mp_grows_def t mp_enq_after_def r)
      show "mp_shared n t"
        using h c ph tph by (simp add: mp_shared_def) (simp add: t mp_enq_after_def r)
      show "mp_pc_ok (unat n) t (mp_pcs t i) (mp_pos t i)"
        using c ph tph h(10) by (simp add: t mp_enq_after_def r)
    qed
    then show ?thesis by (simp add: r)
  next
    case False
    then have r: "r = Ret (Inr QUEUE_BOUNDED_AGAIN)" "q = mp_q s" using st by (auto simp: vsync_simps)
    have "mp_inv n t"
      by (rule mp_inv_local [OF inv _ _ _ _ _ _ _ _ _ near]) (auto simp: t mp_enq_after_def r)
    then show ?thesis by (simp add: r)
  qed
qed

lemma mp_enq_store:
  assumes inv: "mp_inv n s" and pc: "mp_pcs s i = MpEnq v (QE_store c)"
    and st: "bounded_mpmc_enq v (QE_store c) (mp_q s) = (r, q)"
    and near: "\<forall>j. mp_near (unat n) (mp_pcs t j) (mp_pos t j) (mp_ph t) (length (mp_ins t))"
    and t: "t = mp_enq_after i v (QE_store c) r q s"
  shows "mp_inv n t \<and> accepted v r = []"
proof -
  note h = mp_sharedD [OF mp_invD(1) [OF inv]]
  have c: "c = of_nat (mp_pos s i)" "length (mp_ins s) \<le> mp_pos s i" "mp_pos s i < mp_ph s"
    using mp_invD(3) [OF inv, of i] pc by simp_all
  note slot = slot_in [OF h(2,3), of "mp_pos s i"]
  let ?b = "(mp_buf (mp_q s))[mp_pos s i mod unat n := v]"
  have r: "r = Goto (QE_await c)" "q = (mp_q s)\<lparr>mp_buf := ?b\<rparr>"
    using st slot by (auto simp: c(1) h(1))
  have other: "mp_pos s i mod unat n \<noteq> mp_pos s j mod unat n" if "j \<noteq> i" "producing (mp_pcs s j)" for j
  proof -
    have "mp_pos s j \<noteq> mp_pos s i" using mp_invD(2) [OF inv] that pc unfolding mp_unique_def by (metis producing.simps(1))
    moreover have "length (mp_ins s) \<le> mp_pos s j \<and> mp_pos s j < mp_ph s"
      using mp_invD(3) [OF inv, of j] that(2)
      by (cases "(unat n, s, mp_pcs s j, mp_pos s j)" rule: mp_pc_ok.cases) auto
    moreover have "mp_ph s \<le> length (mp_ins s) + unat n" using h(8,9,11) by linarith
    ultimately consider "mp_pos s j < mp_pos s i" "mp_pos s i < mp_pos s j + unat n"
      | "mp_pos s i < mp_pos s j" "mp_pos s j < mp_pos s i + unat n" using c(2,3) by linarith
    then show ?thesis using slot_distinct by cases metis+
  qed
  have "mp_inv n t"
  proof (rule mp_inv_intro [OF inv _ _ _ _ near])
    show "mp_moves i s t" using pc by (auto simp: mp_moves_def t mp_enq_after_def r)
    show "mp_grows (unat n) i s t" using other by (auto simp: mp_grows_def t mp_enq_after_def r)
    have "ring_ok (unat n) ?b (mp_ins s) (mp_outs s)"
      using ring_ok_store [OF h(12) c(2) _ h(3)] c(3) h(11) by simp
    then show "mp_shared n t" using h by (simp add: mp_shared_def t mp_enq_after_def r)
    show "mp_pc_ok (unat n) t (mp_pcs t i) (mp_pos t i)"
      using c slot(2) by (simp add: t mp_enq_after_def r)
  qed
  then show ?thesis by (simp add: r)
qed

lemma mp_enq_write:
  assumes inv: "mp_inv n s" and pc: "mp_pcs s i = MpEnq v (QE_write c)"
    and st: "bounded_mpmc_enq v (QE_write c) (mp_q s) = (r, q)"
    and near: "\<forall>j. mp_near (unat n) (mp_pcs t j) (mp_pos t j) (mp_ph t) (length (mp_ins t))"
    and t: "t = mp_enq_after i v (QE_write c) r q s"
  shows "mp_inv n t \<and> length (mp_ins s) < length (mp_outs s) + unat n"
proof -
  note h = mp_sharedD [OF mp_invD(1) [OF inv]]
  have c: "c = of_nat (mp_pos s i)" "mp_pos s i = length (mp_ins s)" "mp_pos s i < mp_ph s"
    "mp_buf (mp_q s) ! (mp_pos s i mod unat n) = v"
    using mp_invD(3) [OF inv, of i] unfolding pc mp_pc_ok.simps by blast+
  have r: "r = Ret (Inr QUEUE_BOUNDED_OK)" "q = (mp_q s)\<lparr>mp_ptail := c + 1\<rparr>" using st by (auto simp: vsync_simps)
  have room: "length (mp_ins s) < length (mp_outs s) + unat n" using c(2,3) h(11) by simp
  have "mp_inv n t"
  proof (rule mp_inv_intro [OF inv _ _ _ _ near])
    show "mp_moves i s t" by (auto simp: mp_moves_def t mp_enq_after_def r)
    have "mp_pos s j \<noteq> length (mp_ins s)" if "j \<noteq> i" "producing (mp_pcs s j)" for j
      using mp_invD(2) [OF inv] that pc c(2) unfolding mp_unique_def by (metis producing.simps(3))
    then show "mp_grows (unat n) i s t" by (simp add: mp_grows_def t mp_enq_after_def r)
    have "ring_ok (unat n) (mp_buf (mp_q s)) (mp_ins s @ [v]) (mp_outs s)"
      using ring_ok_enq [OF h(12) room] c(2,4) by simp
    then show "mp_shared n t" using h c by (simp add: mp_shared_def t mp_enq_after_def r add.commute)
    show "mp_pc_ok (unat n) t (mp_pcs t i) (mp_pos t i)" by (simp add: t mp_enq_after_def r)
  qed
  with room show ?thesis by simp
qed

definition mp_deq_after :: "tid \<Rightarrow> mpmc_deq_pc \<Rightarrow> (mpmc_deq_pc, (bounded_ret_t \<times> ptr option) res) ctl \<Rightarrow> bounded_mpmc_t \<Rightarrow> mpmc_sys \<Rightarrow> mpmc_sys" where
  "mp_deq_after i p r q s = s\<lparr>mp_q := q, mp_pcs := (mp_pcs s)(i := mpmc_deq_next r),
       mp_pos := (if p = QD_chead then (mp_pos s)(i := mp_ch s) else mp_pos s),
       mp_ch := (if mp_chead q = mp_chead (mp_q s) then mp_ch s else mp_ch s + 1),
       mp_outs := mp_outs s @ delivered r\<rparr>"

lemma mp_empty_exact:
  assumes "mp_inv n s" and "mp_pcs s i = MpDeq (QD_ptail c)"
  shows "c = mp_ptail (mp_q s) \<longleftrightarrow> mp_pos s i = mp_ch s \<and> mp_ch s = length (mp_ins s)"
proof -
  note h = mp_sharedD [OF mp_invD(1) [OF assms(1)]]
  have c: "c = of_nat (mp_pos s i)" "mp_pos s i \<le> mp_ch s" using mp_invD(3) [OF assms(1), of i] assms(2) by simp_all
  have near: "length (mp_ins s) < mp_pos s i + 2 ^ 32" using mp_invD(4) [OF assms(1), of i] assms(2) by simp
  have "c = mp_ptail (mp_q s) \<longleftrightarrow> length (mp_ins s) = mp_pos s i"
    using of_nat_eq_near [of "mp_pos s i" "length (mp_ins s)"] c(2) near h(9) unfolding c(1) h(5) by (metis le_trans)
  then show ?thesis using c(2) h(9) by auto
qed

lemma mp_deq_read:
  assumes inv: "mp_inv n s" and pc: "mp_pcs s i = MpDeq p"
    and st: "bounded_mpmc_deq p (mp_q s) = (r, q)"
    and near: "\<forall>j. mp_near (unat n) (mp_pcs t j) (mp_pos t j) (mp_ph t) (length (mp_ins t))"
    and t: "t = mp_deq_after i p r q s"
    and p: "(\<exists>c. p = QD_ptail c) \<or> p = QD_chead \<or> (\<exists>c. p = QD_load c) \<or> (\<exists>c x. p = QD_await c x)"
  shows "mp_inv n t \<and> delivered r = []"
proof -
  note h = mp_sharedD [OF mp_invD(1) [OF inv]]
  note ok = mp_invD(3) [OF inv, of i, unfolded pc]
  have eq: "mp_inv n t" if "q = mp_q s" "delivered r = []"
      "producing (mp_pcs t i) \<Longrightarrow> producing (mp_pcs s i) \<and> mp_pos t i = mp_pos s i"
      "consuming (mp_pcs t i) \<Longrightarrow> consuming (mp_pcs s i) \<and> mp_pos t i = mp_pos s i"
      "mp_pc_ok (unat n) t (mp_pcs t i) (mp_pos t i)"
    by (rule mp_inv_local [OF inv _ _ _ _ _ _ that(3-5) near]) (auto simp: t mp_deq_after_def that(1,2))
  consider (ch) "p = QD_chead" | (pt) c where "p = QD_ptail c" | (ld) c where "p = QD_load c"
    | (aw) c x where "p = QD_await c x" using p by blast
  then show ?thesis
  proof cases
    case ch
    then have "r = Goto (QD_ptail (mp_chead (mp_q s)))" "q = mp_q s" using st by (auto simp: vsync_simps)
    then show ?thesis using eq h(6) ch by (simp add: t mp_deq_after_def)
  next
    case (pt c)
    have c: "c = of_nat (mp_pos s i)" "mp_pos s i \<le> mp_ch s" using ok pt by simp_all
    have "q = mp_q s \<and> (r = Ret (Inr (QUEUE_BOUNDED_EMPTY, None)) \<or>
        r = Goto (QD_cas c) \<and> (mp_pos s i = mp_ch s \<longrightarrow> mp_ch s < length (mp_ins s)))"
      using st pt mp_empty_exact [OF inv pc [unfolded pt]] h(9) by (auto simp: vsync_simps split: if_splits)
    then show ?thesis using eq c pt by (auto simp: t mp_deq_after_def)
  next
    case (ld c)
    have c: "c = of_nat (mp_pos s i)" "length (mp_outs s) \<le> mp_pos s i" "mp_pos s i < mp_ch s" using ok ld by simp_all
    have "mp_buf (mp_q s) ! (mp_pos s i mod unat n) = mp_ins s ! mp_pos s i"
      using h(12) c(2,3) h(9) unfolding ring_ok_def by (meson less_le_trans)
    then have "r = Goto (QD_await c (mp_ins s ! mp_pos s i))" "q = mp_q s"
      using st ld slot_in [OF h(2,3), of "mp_pos s i"] by (auto simp: c(1) h(1))
    then show ?thesis using eq c ld pc by (simp add: t mp_deq_after_def)
  next
    case (aw c x)
    have c: "c = of_nat (mp_pos s i)" "length (mp_outs s) \<le> mp_pos s i" "mp_pos s i < mp_ch s"
      "x = mp_ins s ! mp_pos s i" using ok aw by simp_all
    have "mp_ctail (mp_q s) = c \<longleftrightarrow> mp_pos s i = length (mp_outs s)"
      using of_nat_eq_near [OF c(2)] c(3) h(8-11,13) by (auto simp: c(1) h(7))
    then have "q = mp_q s \<and> (r = Goto (QD_await c x) \<or> r = Goto (QD_write c x) \<and> mp_pos s i = length (mp_outs s))"
      using st aw by (cases "mp_ctail (mp_q s) = c") (auto simp: vsync_simps vatomic_await_eq_def)
    then show ?thesis using eq c aw pc by (auto simp: t mp_deq_after_def)
  qed
qed

lemma mp_deq_cas:
  assumes inv: "mp_inv n s" and pc: "mp_pcs s i = MpDeq (QD_cas c)"
    and st: "bounded_mpmc_deq (QD_cas c) (mp_q s) = (r, q)"
    and near: "\<forall>j. mp_near (unat n) (mp_pcs t j) (mp_pos t j) (mp_ph t) (length (mp_ins t))"
    and t: "t = mp_deq_after i (QD_cas c) r q s"
  shows "mp_inv n t \<and> delivered r = []"
proof -
  note h = mp_sharedD [OF mp_invD(1) [OF inv]]
  have c: "c = of_nat (mp_pos s i)" "mp_pos s i \<le> mp_ch s" "mp_pos s i = mp_ch s \<longrightarrow> mp_ch s < length (mp_ins s)"
    using mp_invD(3) [OF inv, of i] pc by simp_all
  have nr: "length (mp_ins s) < mp_pos s i + 2 ^ 32" using mp_invD(4) [OF inv, of i] pc by simp
  have hit: "mp_chead (mp_q s) = c \<longleftrightarrow> mp_ch s = mp_pos s i"
    using of_nat_eq_near [OF c(2)] nr h(9) by (auto simp: c(1) h(6))
  show ?thesis
  proof (cases "mp_chead (mp_q s) = c")
    case True
    then have ch: "mp_ch s = mp_pos s i" using hit by blast
    have r: "r = Goto (QD_load c)" "q = (mp_q s)\<lparr>mp_chead := c + 1\<rparr>" using st True by (auto simp: vsync_simps)
    have tch: "mp_ch t = mp_ch s + 1" using True by (simp add: t mp_deq_after_def r)
    have "mp_inv n t"
    proof (rule mp_inv_intro [OF inv _ _ _ _ near])
      have "mp_pos s j < mp_ch s" if "consuming (mp_pcs s j)" for j
        using mp_invD(3) [OF inv, of j] that
        by (cases "(unat n, s, mp_pcs s j, mp_pos s j)" rule: mp_pc_ok.cases) auto
      then show "mp_moves i s t" by (auto simp: mp_moves_def t mp_deq_after_def r ch)
      show "mp_grows (unat n) i s t" by (auto simp: mp_grows_def t mp_deq_after_def r)
      show "mp_shared n t"
        using h c ch tch by (simp add: mp_shared_def) (simp add: t mp_deq_after_def r)
      show "mp_pc_ok (unat n) t (mp_pcs t i) (mp_pos t i)"
        using c ch tch h(8) by (simp add: t mp_deq_after_def r)
    qed
    then show ?thesis by (simp add: r)
  next
    case False
    then have r: "r = Ret (Inr (QUEUE_BOUNDED_AGAIN, None))" "q = mp_q s" using st by (auto simp: vsync_simps)
    have "mp_inv n t"
      by (rule mp_inv_local [OF inv _ _ _ _ _ _ _ _ _ near]) (auto simp: t mp_deq_after_def r)
    then show ?thesis by (simp add: r)
  qed
qed

lemma mp_deq_write:
  assumes inv: "mp_inv n s" and pc: "mp_pcs s i = MpDeq (QD_write c x)"
    and st: "bounded_mpmc_deq (QD_write c x) (mp_q s) = (r, q)"
    and near: "\<forall>j. mp_near (unat n) (mp_pcs t j) (mp_pos t j) (mp_ph t) (length (mp_ins t))"
    and t: "t = mp_deq_after i (QD_write c x) r q s"
  shows "mp_inv n t \<and> length (mp_outs s) < length (mp_ins s) \<and> delivered r = [mp_ins s ! length (mp_outs s)]"
proof -
  note h = mp_sharedD [OF mp_invD(1) [OF inv]]
  have c: "c = of_nat (mp_pos s i)" "mp_pos s i = length (mp_outs s)" "mp_pos s i < mp_ch s"
    "x = mp_ins s ! mp_pos s i" using mp_invD(3) [OF inv, of i] unfolding pc mp_pc_ok.simps by blast+
  have r: "r = Ret (Inr (QUEUE_BOUNDED_OK, Some x))" "q = (mp_q s)\<lparr>mp_ctail := c + 1\<rparr>"
    using st by (auto simp: vsync_simps)
  have more: "length (mp_outs s) < length (mp_ins s)" using c(2,3) h(9) by simp
  have "mp_inv n t"
  proof (rule mp_inv_intro [OF inv _ _ _ _ near])
    show "mp_moves i s t" by (auto simp: mp_moves_def t mp_deq_after_def r)
    have "mp_pos s j \<noteq> length (mp_outs s)" if "j \<noteq> i" "consuming (mp_pcs s j)" for j
      using mp_invD(2) [OF inv] that pc c(2) unfolding mp_unique_def by (metis consuming.simps(3))
    then show "mp_grows (unat n) i s t" by (simp add: mp_grows_def t mp_deq_after_def r)
    have "ring_ok (unat n) (mp_buf (mp_q s)) (mp_ins s) (mp_outs s @ [x])"
      using ring_ok_deq [OF h(12) more] c(2,4) by simp
    then show "mp_shared n t" using h c by (simp add: mp_shared_def t mp_deq_after_def r add.commute)
    show "mp_pc_ok (unat n) t (mp_pcs t i) (mp_pos t i)" by (simp add: t mp_deq_after_def r)
  qed
  with more c r show ?thesis by simp
qed

section \<open>FIFO behaviour\<close>

lemma mp_enq_step:
  assumes "mp_inv n s" and "mp_pcs s i = MpEnq v p" and "bounded_mpmc_enq v p (mp_q s) = (r, q)"
    and "\<forall>j. mp_near (unat n) (mp_pcs t j) (mp_pos t j) (mp_ph t) (length (mp_ins t))" and "t = mp_enq_after i v p r q s"
  shows "mp_inv n t \<and> (accepted v r = [] \<or> length (mp_ins s) < length (mp_outs s) + unat n)"
  using mp_enq_read [OF assms] mp_enq_cas [OF assms(1) _ _ assms(4)] mp_enq_store [OF assms(1) _ _ assms(4)]
    mp_enq_write [OF assms(1) _ _ assms(4)] assms(2,3,5)
  by (cases p) blast+

lemma mp_deq_step:
  assumes "mp_inv n s" and "mp_pcs s i = MpDeq p" and "bounded_mpmc_deq p (mp_q s) = (r, q)"
    and "\<forall>j. mp_near (unat n) (mp_pcs t j) (mp_pos t j) (mp_ph t) (length (mp_ins t))" and "t = mp_deq_after i p r q s"
  shows "mp_inv n t \<and> (delivered r = [] \<or>
    length (mp_outs s) < length (mp_ins s) \<and> delivered r = [mp_ins s ! length (mp_outs s)])"
  using mp_deq_read [OF assms] mp_deq_cas [OF assms(1) _ _ assms(4)] mp_deq_write [OF assms(1) _ _ assms(4)] assms(2,3,5)
  by (cases p) blast+

definition mpmc_start_ok :: "u32 \<Rightarrow> mpmc_sys \<Rightarrow> bool" where
  "mpmc_start_ok n s \<longleftrightarrow> (\<exists>b. mpmc_start b n s \<and> unat n \<le> length b \<and> unat n dvd 2 ^ 32)"

interpretation mpmc: forward_simulation "mpmc_start_ok n" "mpmc_nstep n" "\<lambda>a. a = ([], [])"
  "fifo_spec (unat n)" "\<lambda>s a. mp_inv n s \<and> a = (mp_ins s, mp_outs s)" for n
proof unfold_locales
  show "\<exists>a. a = ([], []) \<and> mp_inv n s \<and> a = (mp_ins s, mp_outs s)" if "mpmc_start_ok n s" for n s
  proof -
    have "mp_shared n s"
      using that by (auto simp: mpmc_start_ok_def mpmc_start_def bounded_mpmc_init_def rbind_Inr_iff mp_shared_def
          ring_ok_def vsync_simps eq_commute [of _ "mp_q s"])
    moreover have "mp_pcs s i = MpIdle" for i using that by (auto simp: mpmc_start_ok_def mpmc_start_def)
    ultimately show ?thesis using that by (auto simp: mp_inv_def mp_unique_def mpmc_start_ok_def mpmc_start_def)
  qed
  show "\<exists>b. (mp_inv n t \<and> b = (mp_ins t, mp_outs t)) \<and> (b = a \<or> fifo_spec (unat n) i a b)"
    if rel: "mp_inv n s \<and> a = (mp_ins s, mp_outs s)" and st: "mpmc_nstep n i s t" for n s a i t
  proof -
    have near: "\<forall>j. mp_near (unat n) (mp_pcs t j) (mp_pos t j) (mp_ph t) (length (mp_ins t))"
      and step: "mpmc_step i s t" using st by (auto simp: mpmc_nstep_def)
    note inv = conjunct1 [OF rel]
    from step show ?thesis
    proof cases
      case (mp_call p v)
      then have "mp_inv n t" by (intro mp_inv_local [OF inv _ _ _ _ _ _ _ _ _ near, of i]) auto
      then show ?thesis using mp_call(1) rel by simp
    next
      case (mp_enq v p r q)
      then have t: "t = mp_enq_after i v p r q s" by (simp add: mp_enq_after_def)
      have "accepted v r = [] \<or> accepted v r = [v]" by (cases "(v, r)" rule: accepted.cases) auto
      then show ?thesis
        using mp_enq_step [OF inv mp_enq(2,3) near t] rel by (auto simp: t mp_enq_after_def intro: f_enq)
    next
      case (mp_deq p r q)
      then have t: "t = mp_deq_after i p r q s" by (simp add: mp_deq_after_def)
      show ?thesis
        using mp_deq_step [OF inv mp_deq(2,3) near t] rel by (auto simp: t mp_deq_after_def intro: f_deq)
    qed
  qed
qed

lemma mpmc_reach:
  assumes "reach (mpmc_start b n) (mpmc_nstep n) s" and "unat n \<le> length b" and "unat n dvd 2 ^ 32"
  shows "reach (mpmc_start_ok n) (mpmc_nstep n) s"
  using assms(1)
proof (induction rule: reach.induct)
  case (reach_init s)
  then show ?case using assms(2,3) by (intro reach.reach_init) (auto simp: mpmc_start_ok_def)
next
  case (reach_step s i t)
  then show ?case by (blast intro: reach.reach_step)
qed

text \<open>The answers full and empty.\<close>

lemma mp_reports_full:
  assumes inv: "mp_inv n s" and pc: "mp_pcs s i = MpEnq v p" and r: "bounded_mpmc_enq v p (mp_q s) = (Ret (Inr QUEUE_BOUNDED_FULL), q)"
  shows "mp_ph s = length (mp_outs s) + unat n"
proof -
  obtain c where c: "p = QE_ctail c" "c - mp_ctail (mp_q s) = mp_size (mp_q s)"
    using r by (cases p) (auto simp: Let_def vsync_simps split: if_splits sum.splits prod.splits ctl.splits)
  then show ?thesis using mp_full_exact [OF inv, of i v c] pc by simp
qed

lemma mp_reports_empty:
  assumes inv: "mp_inv n s" and pc: "mp_pcs s i = MpDeq p" and r: "bounded_mpmc_deq p (mp_q s) = (Ret (Inr (QUEUE_BOUNDED_EMPTY, x)), q)"
  shows "mp_ch s = length (mp_ins s)"
proof -
  obtain c where c: "p = QD_ptail c" "c = mp_ptail (mp_q s)"
    using r by (cases p) (auto simp: Let_def vsync_simps split: if_splits sum.splits prod.splits ctl.splits)
  then show ?thesis using mp_empty_exact [OF inv, of i c] pc by simp
qed

text \<open>C2: the multi-producer multi-consumer queue is a bounded FIFO queue when its size divides
  \<open>2 ^ 32\<close>, for any number of threads and every interleaving of their accesses in which no thread
  stalls between reading a position and its compare-and-swap while about \<open>2 ^ 32\<close> positions pass: a thread
  in an enqueue is overtaken by fewer than \<open>2 ^ 32 - size\<close> reserved positions, a thread in a dequeue by fewer
  than \<open>2 ^ 32\<close> published ones. (After that many the 32-bit position has come round and the stale
  compare-and-swap can succeed.) In these executions the values delivered are the values accepted, in the
  order of publication, each once; at most \<open>size\<close> are in between; no slot is accessed out of bounds; an enqueue
  reports a full queue only when \<open>size\<close> positions are reserved that no dequeue has released, and a dequeue
  reports an empty queue only when every published value has been claimed by a dequeue.\<close>

lemma bounded_mpmc_fifo:
  assumes "reach (mpmc_start b n) (mpmc_nstep n) s" and "unat n \<le> length b" and "unat n dvd 2 ^ 32"
  shows "reach (\<lambda>a. a = ([], [])) (fifo_spec (unat n) :: tid \<Rightarrow> fifo \<Rightarrow> fifo \<Rightarrow> bool) (mp_ins s, mp_outs s) \<and>
    (\<exists>rest. mp_ins s = mp_outs s @ rest \<and> length rest \<le> unat n) \<and> (\<forall>i e. mp_pcs s i \<noteq> MpFault e) \<and>
    (\<forall>i v p q. mp_pcs s i = MpEnq v p \<and> bounded_mpmc_enq v p (mp_q s) = (Ret (Inr QUEUE_BOUNDED_FULL), q) \<longrightarrow>
       mp_ph s = length (mp_outs s) + unat n) \<and>
    (\<forall>i p x q. mp_pcs s i = MpDeq p \<and> bounded_mpmc_deq p (mp_q s) = (Ret (Inr (QUEUE_BOUNDED_EMPTY, x)), q) \<longrightarrow>
       mp_ch s = length (mp_ins s))"
proof -
  from mpmc.reach_simulates [OF mpmc_reach [OF assms]]
  have r: "reach (\<lambda>a. a = ([], [])) (fifo_spec (unat n) :: tid \<Rightarrow> fifo \<Rightarrow> fifo \<Rightarrow> bool) (mp_ins s, mp_outs s)"
    and inv: "mp_inv n s" by auto
  have "mp_pcs s i \<noteq> MpFault e" for i e using mp_invD(3) [OF inv, of i] by auto
  moreover have "\<exists>rest. mp_ins s = mp_outs s @ rest \<and> length rest \<le> unat n"
    using fifo.reach_inv [OF r] by (simp add: fifo_inv_def)
  ultimately show ?thesis using r mp_reports_full [OF inv] mp_reports_empty [OF inv] by blast
qed

text \<open>No two threads are ever at work on the same slot of the multi-producer multi-consumer
  queue: the slot an enqueue is about to fill, or has filled and not yet published, is not the slot
  of another enqueue in progress nor of a dequeue in progress.\<close>

lemma bounded_mpmc_slots_disjoint:
  assumes "reach (mpmc_start b n) (mpmc_nstep n) s" and "unat n \<le> length b" and "unat n dvd 2 ^ 32"
    and "producing (mp_pcs s i)" and "producing (mp_pcs s j) \<and> i \<noteq> j \<or> consuming (mp_pcs s j)"
  shows "mp_pos s i mod unat n \<noteq> mp_pos s j mod unat n"
proof -
  have inv: "mp_inv n s" using mpmc.reach_simulates [OF mpmc_reach [OF assms(1-3)]] by blast
  note h = mp_sharedD [OF mp_invD(1) [OF inv]]
  have p: "length (mp_ins s) \<le> mp_pos s k \<and> mp_pos s k < mp_ph s" if "producing (mp_pcs s k)" for k
    using mp_invD(3) [OF inv, of k] that
    by (cases "(unat n, s, mp_pcs s k, mp_pos s k)" rule: mp_pc_ok.cases) auto
  have c: "length (mp_outs s) \<le> mp_pos s k \<and> mp_pos s k < mp_ch s" if "consuming (mp_pcs s k)" for k
    using mp_invD(3) [OF inv, of k] that
    by (cases "(unat n, s, mp_pcs s k, mp_pos s k)" rule: mp_pc_ok.cases) auto
  have "mp_pos s i \<noteq> mp_pos s j"
    using assms(4,5) p [of i] c [of j] h(9) mp_invD(2) [OF inv] unfolding mp_unique_def by (metis leD less_le_trans)
  moreover have "length (mp_outs s) \<le> mp_pos s k \<and> mp_pos s k < length (mp_outs s) + unat n" if "k = i \<or> k = j" for k
    using that assms(4,5) p [of i] p [of j] c [of j] h(8-11) by (auto; linarith)
  then have "length (mp_outs s) \<le> mp_pos s i" "mp_pos s i < length (mp_outs s) + unat n"
    "length (mp_outs s) \<le> mp_pos s j" "mp_pos s j < length (mp_outs s) + unat n" by blast+
  ultimately consider "mp_pos s j < mp_pos s i" "mp_pos s i < mp_pos s j + unat n"
    | "mp_pos s i < mp_pos s j" "mp_pos s j < mp_pos s i + unat n" by linarith
  then show ?thesis using slot_distinct by cases metis+
qed

section \<open>A concrete execution\<close>

lemma mp_near_start:
  assumes "mp_ph t \<le> 9" and "(n :: u32) \<le> 9" and "length (mp_ins t) \<le> 9"
  shows "mp_near (unat n) (mp_pcs t j) (mp_pos t j) (mp_ph t) (length (mp_ins t))"
  using assms unfolding word_le_nat_alt
  by (cases "(unat n, mp_pcs t j, mp_pos t j, mp_ph t, length (mp_ins t))" rule: mp_near.cases) auto

fun mp_run :: "(tid \<times> mpmc_pc) list \<Rightarrow> mpmc_sys \<Rightarrow> mpmc_sys" where
  "mp_run [] s = s"
| "mp_run ((i, p) # xs) s = mp_run xs (case mp_pcs s i of
     MpIdle \<Rightarrow> s\<lparr>mp_pcs := (mp_pcs s)(i := p)\<rparr>
   | MpEnq v p' \<Rightarrow> (case bounded_mpmc_enq v p' (mp_q s) of (r, q) \<Rightarrow> mp_enq_after i v p' r q s)
   | MpDeq p' \<Rightarrow> (case bounded_mpmc_deq p' (mp_q s) of (r, q) \<Rightarrow> mp_deq_after i p' r q s)
   | MpFault e \<Rightarrow> s)"

fun mp_run_ok :: "u32 \<Rightarrow> (tid \<times> mpmc_pc) list \<Rightarrow> mpmc_sys \<Rightarrow> bool" where
  "mp_run_ok n [] s \<longleftrightarrow> True"
| "mp_run_ok n ((i, p) # xs) s \<longleftrightarrow>
     (p = MpDeq QD_chead \<or> (case p of MpEnq v QE_phead \<Rightarrow> True | _ \<Rightarrow> False)) \<and>
     (case mp_pcs s i of MpFault e \<Rightarrow> False | _ \<Rightarrow> True) \<and>
     (let t = mp_run [(i, p)] s in mp_ph t \<le> 9 \<and> n \<le> 9 \<and> length (mp_ins t) \<le> 9 \<and> mp_run_ok n xs t)"

lemma mp_run_reach:
  "reach I (mpmc_nstep n) s \<Longrightarrow> mp_run_ok n xs s \<Longrightarrow> reach I (mpmc_nstep n) (mp_run xs s)"
proof (induction xs s rule: mp_run.induct)
  case (2 i p xs s)
  let ?t = "mp_run [(i, p)] s"
  have ok: "mp_ph ?t \<le> 9" "n \<le> 9" "length (mp_ins ?t) \<le> 9" "mp_run_ok n xs ?t"
    using 2(3) by (simp_all add: Let_def)
  obtain v where p: "p \<in> {MpEnq v QE_phead, MpDeq QD_chead}"
    using 2(3) by (auto split: mpmc_pc.splits mpmc_enq_pc.splits)
  have "mpmc_step i s ?t"
  proof (cases "mp_pcs s i")
    case MpIdle
    then show ?thesis using mp_call [OF MpIdle p] by simp
  next
    case (MpEnq w p')
    obtain r q where "bounded_mpmc_enq w p' (mp_q s) = (r, q)" by fastforce
    then show ?thesis using mp_enq [OF MpEnq, of r q] MpEnq by (simp add: mp_enq_after_def)
  next
    case (MpDeq p')
    obtain r q where "bounded_mpmc_deq p' (mp_q s) = (r, q)" by fastforce
    then show ?thesis using mp_deq [OF MpDeq, of r q] MpDeq by (simp add: mp_deq_after_def)
  next
    case (MpFault e)
    then show ?thesis using 2(3) by simp
  qed
  then have "mpmc_nstep n i s ?t" using mp_near_start [OF ok(1-3)] by (simp add: mpmc_nstep_def)
  with 2(2) have r: "reach I (mpmc_nstep n) ?t" by (rule reach_step)
  show ?case using 2(1) r ok(4) by simp
qed simp

definition mp_w0 :: mpmc_sys where
  "mp_w0 = \<lparr>mp_q = \<lparr>mp_phead = 0, mp_ptail = 0, mp_chead = 0, mp_ctail = 0, mp_buf = [0, 0], mp_size = 2\<rparr>,
     mp_pcs = (\<lambda>_. MpIdle), mp_pos = (\<lambda>_. 0), mp_ph = 0, mp_ch = 0, mp_ins = [], mp_outs = []\<rparr>"

lemma mp_w0_reach: "mp_run_ok 2 xs mp_w0 \<Longrightarrow> reach (mpmc_start [0, 0] 2) (mpmc_nstep 2) (mp_run xs mp_w0)"
  by (intro mp_run_reach reach_init)
     (simp_all add: mpmc_start_def bounded_mpmc_init_def mp_w0_def vsync_simps)

text \<open>Thread 0 enqueues 7 and thread 1 enqueues 8; both have reserved a slot.\<close>

abbreviation mp_w_sched :: "(tid \<times> mpmc_pc) list" where
  "mp_w_sched \<equiv> [(0, MpEnq 7 QE_phead), (0, MpEnq 7 QE_phead), (0, MpEnq 7 QE_phead), (0, MpEnq 7 QE_phead),
     (1, MpEnq 8 QE_phead), (1, MpEnq 8 QE_phead), (1, MpEnq 8 QE_phead), (1, MpEnq 8 QE_phead)]"

definition mp_w :: mpmc_sys where
  "mp_w = mp_run mp_w_sched mp_w0"

lemma mp_w_reach: "reach (mpmc_start [0, 0] 2) (mpmc_nstep 2) mp_w"
  unfolding mp_w_def by (rule mp_w0_reach) code_simp

lemma mp_w_producing: "producing (mp_pcs mp_w 0)" "producing (mp_pcs mp_w 1)"
  by code_simp+

lemma bounded_mpmc_fifo_witness:
  "(\<exists>rest. mp_ins mp_w = mp_outs mp_w @ rest \<and> length rest \<le> 2) \<and> (\<forall>i e. mp_pcs mp_w i \<noteq> MpFault e)"
  using bounded_mpmc_fifo [OF mp_w_reach] by simp

end
