(* ===== verification/Bounded_Locked.thy ===== *)
theory Bounded_Locked
  imports Bounded_Spsc Spinlock
begin

text \<open>
  The lock-protected queue of \<^verbatim>\<open>queue/bounded_locked.h\<close>. Every operation runs under the
  queue's \<^verbatim>\<open>caslock_t\<close>, so an operation is one function of the whole queue, the lock word
  included; a lock that is taken by another thread makes the operations return early or block.
  The operations are characterised on every branch, the assertion that fails once the 32-bit tail
  has wrapped included.
\<close>

section \<open>Operations\<close>

record bounded_locked_t =
  bl_buf :: "ptr list"
  bl_head :: u32
  bl_tail :: u32
  bl_size :: u32
  bl_lock :: caslock_t

definition bounded_locked_init :: "ptr list option \<Rightarrow> u32 \<Rightarrow> bounded_locked_t res" where
  "bounded_locked_init b s =
     rbind (vassert (b \<noteq> None)) (\<lambda>_. rbind (vassert (s \<noteq> 0)) (\<lambda>_.
       Inr \<lparr>bl_buf = the b, bl_head = 0, bl_tail = 0, bl_size = s, bl_lock = caslock_init\<rparr>))"

definition bounded_locked_enq :: "bounded_locked_t \<Rightarrow> ptr \<Rightarrow> (bounded_ret_t \<times> bounded_locked_t) res" where
  "bounded_locked_enq q v = rbind (vassert (v \<noteq> NULL)) (\<lambda>_.
     let (ok, l) = caslock_tryacquire (bl_lock q); q = q\<lparr>bl_lock := l\<rparr>
     in if \<not> ok then Inr (QUEUE_BOUNDED_AGAIN, q)
        else rbind (vassert (bl_tail q - bl_head q \<le> bl_size q)) (\<lambda>_.
          if bl_tail q - bl_head q = bl_size q
          then Inr (QUEUE_BOUNDED_FULL, q\<lparr>bl_lock := caslock_release (bl_lock q)\<rparr>)
          else rbind (awrite (bl_buf q) (unat (bl_tail q mod bl_size q)) v) (\<lambda>b.
            Inr (QUEUE_BOUNDED_OK,
                 q\<lparr>bl_buf := b, bl_tail := bl_tail q + 1, bl_lock := caslock_release (bl_lock q)\<rparr>))))"

definition bounded_locked_deq :: "bounded_locked_t \<Rightarrow> ((bounded_ret_t \<times> ptr option) \<times> bounded_locked_t) res" where
  "bounded_locked_deq q =
     (let (ok, l) = caslock_tryacquire (bl_lock q); q = q\<lparr>bl_lock := l\<rparr>
      in if \<not> ok then Inr ((QUEUE_BOUNDED_AGAIN, None), q)
         else rbind (vassert (bl_head q \<le> bl_tail q)) (\<lambda>_.
           if bl_tail q - bl_head q = 0
           then Inr ((QUEUE_BOUNDED_EMPTY, None), q\<lparr>bl_lock := caslock_release (bl_lock q)\<rparr>)
           else rbind (aread (bl_buf q) (unat (bl_head q mod bl_size q))) (\<lambda>x.
             Inr ((QUEUE_BOUNDED_OK, Some x),
                  q\<lparr>bl_head := bl_head q + 1, bl_lock := caslock_release (bl_lock q)\<rparr>))))"

definition bounded_locked_empty :: "bounded_locked_t \<Rightarrow> (bool \<times> bounded_locked_t) res" where
  "bounded_locked_empty q = rbind (alone alone_fuel caslock_acquire ES_await (bl_lock q)) (\<lambda>(_, l).
     let q = q\<lparr>bl_lock := l\<rparr>
     in rbind (vassert (bl_head q \<le> bl_tail q)) (\<lambda>_.
          Inr (bl_tail q = bl_head q, q\<lparr>bl_lock := caslock_release (bl_lock q)\<rparr>)))"

section \<open>What the queue holds\<close>

text \<open>\<open>locked_rel k q xs\<close>: \<open>k\<close> values have been delivered and the queue holds \<open>xs\<close>, oldest first.\<close>

definition locked_rel :: "nat \<Rightarrow> bounded_locked_t \<Rightarrow> ptr list \<Rightarrow> bool" where
  "locked_rel k q xs \<longleftrightarrow> lock (bl_lock q) = 0 \<and> unat (bl_size q) dvd 2 ^ 32 \<and> unat (bl_size q) \<le> length (bl_buf q) \<and>
     bl_head q = of_nat k \<and> bl_tail q = of_nat (k + length xs) \<and> length xs \<le> unat (bl_size q) \<and>
     (\<forall>j<length xs. bl_buf q ! ((k + j) mod unat (bl_size q)) = xs ! j)"

lemma caslock_alone:
  "caslock_tryacquire c = (if lock c = 0 then (True, c\<lparr>lock := 1\<rparr>) else (False, c))"
  "lock c = 0 \<Longrightarrow> caslock_release (c\<lparr>lock := 1\<rparr>) = c"
  "lock c = 0 \<Longrightarrow> alone alone_fuel caslock_acquire ES_await c = Inr ((), c\<lparr>lock := 1\<rparr>)"
  "lock c \<noteq> 0 \<Longrightarrow> alone alone_fuel caslock_acquire ES_await c = Inl Blocked"
  by (simp_all add: caslock_tryacquire_def caslock_release_def alone_fuel_Suc caslock_acquire_def
      vatomic_await_eq_set_def vatomic_await_eq_def vsync_simps)

lemma of_nat_len:
  assumes "length xs \<le> unat (n :: u32)"
  shows "(of_nat (length xs) = n) \<longleftrightarrow> length xs = unat n" and "(of_nat (length xs) :: u32) \<le> n"
    and "(of_nat (length xs) = (0 :: u32)) \<longleftrightarrow> xs = []"
proof -
  have "length xs < 2 ^ 32" using assms unsigned_less [of n, where 'a = nat] by simp
  then have u: "unat (of_nat (length xs) :: u32) = length xs" by (simp add: unat_of_nat_small)
  show "(of_nat (length xs) = n) \<longleftrightarrow> length xs = unat n" using u by (metis word_unat_eq_iff)
  show "(of_nat (length xs) :: u32) \<le> n" using u assms by (simp add: word_le_nat_alt)
  show "(of_nat (length xs) = (0 :: u32)) \<longleftrightarrow> xs = []" using u by (metis length_0_conv unat_0 unat_eq_zero)
qed

text \<open>Enqueue on every branch: with the lock taken it changes nothing and says again; on a full
  queue it says full and changes nothing; otherwise it appends the value.\<close>

lemma bounded_locked_enq_spec:
  assumes "locked_rel k q xs" and "v \<noteq> NULL"
  shows "bounded_locked_enq (q\<lparr>bl_lock := \<lparr>lock = 1\<rparr>\<rparr>) v = Inr (QUEUE_BOUNDED_AGAIN, q\<lparr>bl_lock := \<lparr>lock = 1\<rparr>\<rparr>) \<and>
    (if length xs = unat (bl_size q) then bounded_locked_enq q v = Inr (QUEUE_BOUNDED_FULL, q)
     else \<exists>q'. bounded_locked_enq q v = Inr (QUEUE_BOUNDED_OK, q') \<and> locked_rel k q' (xs @ [v]) \<and> bl_size q' = bl_size q)"
proof -
  note r = assms(1) [unfolded locked_rel_def]
  have len: "length xs \<le> unat (bl_size q)" using r by simp
  have d: "bl_tail q - bl_head q = of_nat (length xs)" using r by simp
  let ?n = "unat (bl_size q)"
  let ?p = "(k + length xs) mod ?n"
  have slot: "unat (bl_tail q mod bl_size q) = ?p" "?p < length (bl_buf q)"
    using slot_in [of "bl_size q" "bl_buf q" "k + length xs"] r by auto
  let ?q = "q\<lparr>bl_buf := (bl_buf q)[?p := v], bl_tail := bl_tail q + 1\<rparr>"
  have "bounded_locked_enq q v = (if length xs = ?n then Inr (QUEUE_BOUNDED_FULL, q) else Inr (QUEUE_BOUNDED_OK, ?q))"
    using assms(2) r slot d of_nat_len [OF len]
    by (simp add: bounded_locked_enq_def caslock_alone Let_def)
  moreover have "locked_rel k ?q (xs @ [v])" if ne: "length xs \<noteq> ?n"
  proof -
    have "(bl_buf q)[?p := v] ! ((k + j) mod ?n) = (xs @ [v]) ! j" if "j < Suc (length xs)" for j
    proof (cases "j = length xs")
      case False
      then have "?p \<noteq> (k + j) mod ?n" "j < length xs"
        using slot_distinct [of "k + j" "k + length xs" ?n] that len ne by auto
      then show ?thesis using r by (simp add: nth_append)
    qed (use slot(2) in simp)
    then show ?thesis using r ne by (simp add: locked_rel_def algebra_simps)
  qed
  moreover have "bounded_locked_enq (q\<lparr>bl_lock := \<lparr>lock = 1\<rparr>\<rparr>) v = Inr (QUEUE_BOUNDED_AGAIN, q\<lparr>bl_lock := \<lparr>lock = 1\<rparr>\<rparr>)"
    using assms(2) by (simp add: bounded_locked_enq_def caslock_alone)
  ultimately show ?thesis by auto
qed

text \<open>Dequeue and the emptiness test on every branch. When the tail has wrapped past \<open>2 ^ 32\<close>
  and the head has not, both stop at a failed assertion although the queue is consistent; in every
  other state dequeue delivers the oldest value, or says empty exactly when there is none.\<close>

lemma bounded_locked_deq_spec:
  assumes "locked_rel k q xs"
  shows "if unat (bl_tail q) < unat (bl_head q)
    then bounded_locked_deq q = Inl AssertFail \<and> bounded_locked_empty q = Inl AssertFail \<and> xs \<noteq> []
    else bounded_locked_empty q = Inr (xs = [], q) \<and>
      (case xs of [] \<Rightarrow> bounded_locked_deq q = Inr ((QUEUE_BOUNDED_EMPTY, None), q)
       | x # ys \<Rightarrow> \<exists>q'. bounded_locked_deq q = Inr ((QUEUE_BOUNDED_OK, Some x), q') \<and> locked_rel (Suc k) q' ys \<and>
           bl_size q' = bl_size q)"
proof -
  note r = assms [unfolded locked_rel_def]
  have len: "length xs \<le> unat (bl_size q)" using r by simp
  have d: "bl_tail q - bl_head q = of_nat (length xs)" using r by simp
  have emp: "bl_tail q = bl_head q \<longleftrightarrow> xs = []" using d of_nat_len(3) [OF len] by (metis eq_iff_diff_eq_0)
  show ?thesis
  proof (cases "unat (bl_tail q) < unat (bl_head q)")
    case True
    then have "\<not> bl_head q \<le> bl_tail q" "xs \<noteq> []" using emp by (auto simp: word_le_nat_alt)
    with True r show ?thesis
      by (simp add: bounded_locked_deq_def bounded_locked_empty_def caslock_alone Let_def rbind_assert_fail)
  next
    case False
    then have le: "bl_head q \<le> bl_tail q" by (simp add: word_le_nat_alt)
    have e: "bounded_locked_empty q = Inr (xs = [], q)"
      using r le emp by (simp add: bounded_locked_empty_def caslock_alone Let_def)
    show ?thesis
    proof (cases xs)
      case Nil
      with False e show ?thesis
        using r le d by (simp add: bounded_locked_deq_def caslock_alone Let_def)
    next
      case (Cons x ys)
      let ?n = "unat (bl_size q)"
      let ?q = "q\<lparr>bl_head := bl_head q + 1\<rparr>"
      have slot: "unat (bl_head q mod bl_size q) = k mod ?n" "k mod ?n < length (bl_buf q)"
        using slot_in [of "bl_size q" "bl_buf q" k] r by auto
      have "bl_buf q ! (k mod ?n) = x" using r Cons by (metis add_0_right length_greater_0_conv list.discI nth_Cons_0)
      moreover have "bl_tail q - bl_head q \<noteq> 0" using emp Cons by simp
      ultimately have "bounded_locked_deq q = Inr ((QUEUE_BOUNDED_OK, Some x), ?q)"
        using r le slot by (simp add: bounded_locked_deq_def caslock_alone Let_def)
      moreover have "locked_rel (Suc k) ?q ys"
      proof -
        have "bl_buf q ! ((Suc k + j) mod ?n) = ys ! j" if "j < length ys" for j
          using r Cons that by (metis (no_types, lifting) Suc_less_eq add_Suc_right add_Suc length_Cons nth_Cons_Suc)
        then show ?thesis using r Cons by (simp add: locked_rel_def add.commute)
      qed
      ultimately show ?thesis using False e Cons by auto
    qed
  qed
qed

section \<open>The wrapped tail is reachable\<close>

text \<open>One thread that calls the operations one after the other.\<close>

inductive locked_step :: "unit \<Rightarrow> bounded_locked_t \<Rightarrow> bounded_locked_t \<Rightarrow> bool" where
  lk_enq: "v \<noteq> NULL \<Longrightarrow> bounded_locked_enq q v = Inr (r, q') \<Longrightarrow> locked_step u q q'"
| lk_deq: "bounded_locked_deq q = Inr (r, q') \<Longrightarrow> locked_step u q q'"

lemma locked_round:
  assumes "locked_rel k q []" and "k + 1 < 2 ^ 32" and "bl_size q \<noteq> 0"
  shows "\<exists>q'. steps locked_step q q' \<and> locked_rel (k + 1) q' [] \<and> bl_size q' \<noteq> 0"
proof -
  have n: "unat (bl_size q) \<noteq> 0" using assms(3) by (simp add: unat_eq_zero)
  obtain q1 where q1: "bounded_locked_enq q 1 = Inr (QUEUE_BOUNDED_OK, q1)" "locked_rel k q1 [1]" "bl_size q1 = bl_size q"
    using bounded_locked_enq_spec [OF assms(1), of 1] n by auto
  have "bl_head q1 = of_nat k" "bl_tail q1 = of_nat (k + 1)" using q1(2) by (simp_all add: locked_rel_def)
  then have "unat (bl_head q1) = k" "unat (bl_tail q1) = k + 1"
    using assms(2) unat_of_nat_small [of k, where 'a = 32] unat_of_nat_small [of "k + 1", where 'a = 32] by simp_all
  then obtain q2 where q2: "bounded_locked_deq q1 = Inr ((QUEUE_BOUNDED_OK, Some 1), q2)" "locked_rel (Suc k) q2 []"
      "bl_size q2 = bl_size q1"
    using bounded_locked_deq_spec [OF q1(2)] by auto
  have "steps locked_step q q2"
    using steps_cons [of locked_step, OF lk_enq [OF _ q1(1)] steps_single [of locked_step, OF lk_deq [OF q2(1)]]] by simp
  with q1(3) q2 assms(3) show ?thesis by auto
qed

lemma locked_rounds:
  assumes "locked_rel 0 q []" and "bl_size q \<noteq> 0" and "k < 2 ^ 32"
  shows "\<exists>q'. steps locked_step q q' \<and> locked_rel k q' [] \<and> bl_size q' \<noteq> 0"
  using assms(3)
proof (induction k)
  case 0
  then show ?case using assms(1,2) by (blast intro: steps_refl)
next
  case (Suc k)
  then obtain q1 where q1: "steps locked_step q q1" "locked_rel k q1 []" "bl_size q1 \<noteq> 0" by auto
  from locked_round [OF q1(2) _ q1(3)] Suc.prems
  obtain q2 where "steps locked_step q1 q2" "locked_rel (Suc k) q2 []" "bl_size q2 \<noteq> 0" by auto
  with steps_trans [OF _ q1(1)] show ?case by blast
qed

text \<open>C38: the failed assertion is reached from an initialised queue by ordinary calls: after
  \<open>2 ^ 32 - 1\<close> values have gone through the queue, the next value is accepted, and the dequeue that
  should deliver it stops at the assertion \<^verbatim>\<open>head <= tail\<close>.\<close>

lemma bounded_locked_wrap_asserts:
  assumes "bounded_locked_init (Some b) n = Inr q0" and "unat n \<le> length b" and "unat n dvd 2 ^ 32" and "v \<noteq> NULL"
  shows "\<exists>q q'. reach (\<lambda>q. q = q0) locked_step q \<and> bounded_locked_enq q v = Inr (QUEUE_BOUNDED_OK, q') \<and>
    locked_rel (2 ^ 32 - 1) q' [v] \<and> bounded_locked_deq q' = Inl AssertFail"
proof -
  have n: "n \<noteq> 0" and q0: "q0 = \<lparr>bl_buf = b, bl_head = 0, bl_tail = 0, bl_size = n, bl_lock = caslock_init\<rparr>"
    using assms(1) by (auto simp: bounded_locked_init_def rbind_Inr_iff)
  have "locked_rel 0 q0 []" using assms(2,3) by (simp add: q0 locked_rel_def caslock_init_def)
  then obtain q where q: "steps locked_step q0 q" "locked_rel (2 ^ 32 - 1) q []" "bl_size q \<noteq> 0"
    using locked_rounds [of q0 "2 ^ 32 - 1"] n q0 by auto
  have "unat (bl_size q) \<noteq> 0" using q(3) by (simp add: unat_eq_zero)
  then obtain q' where q': "bounded_locked_enq q v = Inr (QUEUE_BOUNDED_OK, q')" "locked_rel (2 ^ 32 - 1) q' [v]"
    using bounded_locked_enq_spec [OF q(2) assms(4)] by auto
  have "unat (bl_tail q') < unat (bl_head q')" using q'(2) by (simp add: locked_rel_def unsigned_minus_1_eq_mask)
  then have "bounded_locked_deq q' = Inl AssertFail" using bounded_locked_deq_spec [OF q'(2)] by simp
  moreover have "reach (\<lambda>q. q = q0) locked_step q" using reach_steps [OF q(1)] reach_init [of "\<lambda>q. q = q0"] by blast
  ultimately show ?thesis using q' by blast
qed

section \<open>Concrete inputs\<close>

definition bl_w :: bounded_locked_t where
  "bl_w = \<lparr>bl_buf = [8, 7], bl_head = 1, bl_tail = 3, bl_size = 2, bl_lock = caslock_init\<rparr>"

lemma bl_w_rel: "locked_rel 1 bl_w [7, 8]"
  by (auto simp: locked_rel_def bl_w_def caslock_init_def less_Suc_eq)

lemma bounded_locked_wrap_asserts_witness:
  "\<exists>q q'. reach (\<lambda>q. q = \<lparr>bl_buf = [0, 0], bl_head = 0, bl_tail = 0, bl_size = 2, bl_lock = caslock_init\<rparr>) locked_step q \<and>
    bounded_locked_enq q 5 = Inr (QUEUE_BOUNDED_OK, q') \<and> bounded_locked_deq q' = Inl AssertFail"
proof -
  have "bounded_locked_init (Some [0, 0]) 2 =
      Inr \<lparr>bl_buf = [0, 0], bl_head = 0, bl_tail = 0, bl_size = 2, bl_lock = caslock_init\<rparr>"
    by (simp add: bounded_locked_init_def)
  from bounded_locked_wrap_asserts [OF this, of 5] show ?thesis by auto
qed

end
