(* ===== verification/Map_Contract.thy ===== *)
theory Map_Contract
  imports Vsync_Prelude
begin

text \<open>
  The contract of the associative containers (the hash tables and the sets of
  \<^verbatim>\<open>vsync/map\<close>): a partial map with an add that refuses a key that is present, a lookup and a
  remove. The locale \<open>map_impl\<close> has the laws of the three operations; inside it, every
  sequence of operations is shown to behave as on the map.
\<close>

datatype ('k, 'v) map_op = OpAdd 'k 'v | OpGet 'k | OpRemove 'k
datatype 'v map_out = OutBool bool | OutVal "'v option"

fun map_spec :: "('k \<rightharpoonup> 'v) \<Rightarrow> ('k, 'v) map_op \<Rightarrow> 'v map_out \<times> ('k \<rightharpoonup> 'v)" where
  "map_spec m (OpAdd k v) = (OutBool (m k = None), if m k = None then m(k \<mapsto> v) else m)"
| "map_spec m (OpGet k) = (OutVal (m k), m)"
| "map_spec m (OpRemove k) = (OutBool (m k \<noteq> None), m(k := None))"

fun map_spec_run :: "('k \<rightharpoonup> 'v) \<Rightarrow> ('k, 'v) map_op list \<Rightarrow> 'v map_out list \<times> ('k \<rightharpoonup> 'v)" where
  "map_spec_run m [] = ([], m)"
| "map_spec_run m (x # xs) = (let (r, m') = map_spec m x; (rs, m'') = map_spec_run m' xs in (r # rs, m''))"

text \<open>The operations of a container; \<open>None\<close> is a fault, an unexpected error or no return.\<close>

fun map_call :: "('s \<Rightarrow> 'k \<Rightarrow> 'v \<Rightarrow> (bool \<times> 's) option) \<Rightarrow> ('s \<Rightarrow> 'k \<Rightarrow> ('v option \<times> 's) option) \<Rightarrow>
    ('s \<Rightarrow> 'k \<Rightarrow> (bool \<times> 's) option) \<Rightarrow> 's \<Rightarrow> ('k, 'v) map_op \<Rightarrow> ('v map_out \<times> 's) option" where
  "map_call add get remove s (OpAdd k v) = map_option (apfst OutBool) (add s k v)"
| "map_call add get remove s (OpGet k) = map_option (apfst OutVal) (get s k)"
| "map_call add get remove s (OpRemove k) = map_option (apfst OutBool) (remove s k)"

fun map_run :: "('s \<Rightarrow> ('k, 'v) map_op \<Rightarrow> ('v map_out \<times> 's) option) \<Rightarrow> 's \<Rightarrow> ('k, 'v) map_op list \<Rightarrow>
    ('v map_out list \<times> 's) option" where
  "map_run call s [] = Some ([], s)"
| "map_run call s (x # xs) = (case call s x of None \<Rightarrow> None
     | Some (r, s') \<Rightarrow> map_option (apfst ((#) r)) (map_run call s' xs))"

fun op_ok :: "('k \<Rightarrow> bool) \<Rightarrow> ('v \<Rightarrow> bool) \<Rightarrow> ('k, 'v) map_op \<Rightarrow> bool" where
  "op_ok P Q (OpAdd k v) \<longleftrightarrow> P k \<and> Q v"
| "op_ok P Q (OpGet k) \<longleftrightarrow> P k"
| "op_ok P Q (OpRemove k) \<longleftrightarrow> P k"

lemma map_eqI:
  assumes "\<And>k n. m k = Some n \<longleftrightarrow> m' k = Some n"
  shows "m = m'"
  using assms by (intro ext) (metis option.exhaust)

locale map_impl =
  fixes inv :: "'s \<Rightarrow> bool" and abs :: "'s \<Rightarrow> 'k \<rightharpoonup> 'v"
    and key_ok :: "'k \<Rightarrow> bool" and val_ok :: "'v \<Rightarrow> bool"
    and add :: "'s \<Rightarrow> 'k \<Rightarrow> 'v \<Rightarrow> (bool \<times> 's) option"
    and get :: "'s \<Rightarrow> 'k \<Rightarrow> ('v option \<times> 's) option"
    and remove :: "'s \<Rightarrow> 'k \<Rightarrow> (bool \<times> 's) option"
  assumes add_law: "inv s \<Longrightarrow> key_ok k \<Longrightarrow> val_ok v \<Longrightarrow>
      \<exists>s'. add s k v = Some (abs s k = None, s') \<and> inv s' \<and> abs s' = (if abs s k = None then (abs s)(k \<mapsto> v) else abs s)"
    and get_law: "inv s \<Longrightarrow> key_ok k \<Longrightarrow> \<exists>s'. get s k = Some (abs s k, s') \<and> inv s' \<and> abs s' = abs s"
    and remove_law: "inv s \<Longrightarrow> key_ok k \<Longrightarrow>
      \<exists>s'. remove s k = Some (abs s k \<noteq> None, s') \<and> inv s' \<and> abs s' = (abs s)(k := None)"
begin

lemma call_refines:
  assumes "inv s" and "op_ok key_ok val_ok x"
  shows "\<exists>s'. map_call add get remove s x = Some (fst (map_spec (abs s) x), s') \<and> inv s' \<and>
    abs s' = snd (map_spec (abs s) x)"
proof (cases x)
  case (OpAdd k v)
  with assms add_law [of s k v] show ?thesis by auto
next
  case (OpGet k)
  with assms get_law [of s k] show ?thesis by auto
next
  case (OpRemove k)
  with assms remove_law [of s k] show ?thesis by auto
qed

lemma run_refines:
  assumes "inv s" and "list_all (op_ok key_ok val_ok) xs"
  shows "\<exists>s'. map_run (map_call add get remove) s xs = Some (fst (map_spec_run (abs s) xs), s') \<and> inv s' \<and>
    abs s' = snd (map_spec_run (abs s) xs)"
  using assms
proof (induction xs arbitrary: s)
  case (Cons x xs)
  from Cons.prems(2) have ok: "op_ok key_ok val_ok x" "list_all (op_ok key_ok val_ok) xs" by simp_all
  obtain s' where s': "map_call add get remove s x = Some (fst (map_spec (abs s) x), s')" "inv s'"
    "abs s' = snd (map_spec (abs s) x)" using call_refines [OF Cons.prems(1) ok(1)] by blast
  from Cons.IH [OF s'(2) ok(2)] s' show ?case by (auto simp: Let_def split_beta)
qed simp

end

end
