(* ===== verification/Simpleht.thy ===== *)
theory Simpleht
  imports Rwlock Vmath Map_Contract
begin

text \<open>
  The open-addressing hash table of \<^verbatim>\<open>map/simpleht.h\<close>, with removal enabled, used by one
  registered thread. The state has the slots, the count of deleted entries, the readers-writer lock
  and the list of objects passed to the destroy callback. The key comparison and hash callbacks are
  parameters. The search loops of \<^verbatim>\<open>vsimpleht_get\<close> and \<^verbatim>\<open>vsimpleht_remove\<close> need not end:
  they are partial functions whose value is \<open>None\<close> when they do not.
\<close>

section \<open>Operations\<close>

record vsimpleht_entry_t =
  ht_key :: ptr
  ht_value :: ptr

record vsimpleht_t =
  ht_capacity :: vsize
  ht_entries :: "vsimpleht_entry_t list"
  cleaning_threshold :: vsize
  deleted_count :: vsize
  ht_lock :: rwlock_t
  ht_destroyed :: "ptr list"

record vsimpleht_iter_t =
  ht_idx :: vsize

datatype vsimpleht_ret_t = VSIMPLEHT_RET_OK | VSIMPLEHT_RET_TBL_FULL | VSIMPLEHT_RET_KEY_EXISTS | VSIMPLEHT_RET_KEY_DNE

type_synonym cmp_key = "ptr \<Rightarrow> ptr \<Rightarrow> int"
type_synonym hash_key = "ptr \<Rightarrow> u64"

definition VSIMPLEHT_RELATIVE_THRESHOLD :: vsize where
  "VSIMPLEHT_RELATIVE_THRESHOLD = 4"

definition vsimpleht_buff_size :: "vsize \<Rightarrow> vsize res" where
  "vsimpleht_buff_size capacity = rbind (vassert (capacity > 0)) (\<lambda>_.
     rbind (vassert (capacity AND (capacity - 1) = 0)) (\<lambda>_. Inr (16 * capacity)))"

text \<open>The buffer is an array of entries with arbitrary contents.\<close>

definition vsimpleht_init :: "vsimpleht_entry_t list option \<Rightarrow> vsize \<Rightarrow> vsimpleht_t res" where
  "vsimpleht_init buff capacity = rbind (vassert (buff \<noteq> None)) (\<lambda>_.
     rbind (vassert (capacity > 0)) (\<lambda>_. rbind (vassert (capacity AND (capacity - 1) = 0)) (\<lambda>_.
     if length (the buff) < unat capacity then Inl BadAccess
     else Inr \<lparr>ht_capacity = capacity,
            ht_entries = replicate (unat capacity) \<lparr>ht_key = NULL, ht_value = NULL\<rparr> @ drop (unat capacity) (the buff),
            cleaning_threshold = capacity div VSIMPLEHT_RELATIVE_THRESHOLD, deleted_count = 0,
            ht_lock = rwlock_init, ht_destroyed = []\<rparr>)))"

definition vsimpleht_destroy :: "vsimpleht_t \<Rightarrow> vsimpleht_t" where
  "vsimpleht_destroy tbl = tbl\<lparr>ht_destroyed := ht_destroyed tbl @
     filter (\<lambda>v. v \<noteq> NULL) (map ht_value (take (unat (ht_capacity tbl)) (ht_entries tbl)))\<rparr>"

definition vsimpleht_thread_register :: "vsimpleht_t \<Rightarrow> vsimpleht_t res" where
  "vsimpleht_thread_register tbl =
     rbind (alone alone_fuel rwlock_read_acquire RA_wb (ht_lock tbl)) (\<lambda>(_, l). Inr (tbl\<lparr>ht_lock := l\<rparr>))"

definition vsimpleht_thread_deregister :: "vsimpleht_t \<Rightarrow> vsimpleht_t" where
  "vsimpleht_thread_deregister tbl = tbl\<lparr>ht_lock := rwlock_read_release (ht_lock tbl)\<rparr>"

definition vsimpleht_give_cleanup_a_chance :: "vsimpleht_t \<Rightarrow> vsimpleht_t res" where
  "vsimpleht_give_cleanup_a_chance tbl =
     (if rwlock_acquired_by_writer (ht_lock tbl)
      then rbind (vassert (rwlock_acquired_by_readers (ht_lock tbl))) (\<lambda>_.
        rbind (alone alone_fuel rwlock_read_acquire RA_wb (rwlock_read_release (ht_lock tbl))) (\<lambda>(_, l).
          Inr (tbl\<lparr>ht_lock := l\<rparr>)))
      else Inr tbl)"

text \<open>
  \<^verbatim>\<open>_vsimpleht_add\<close>: at most \<open>capacity\<close> probes (\<open>n\<close> counts the remaining ones). A thread
  alone sees its compare-and-swap of an empty key succeed, so the branch that goes on after a lost
  race is not taken.
\<close>

fun vsimpleht_add_loop :: "cmp_key \<Rightarrow> ptr \<Rightarrow> ptr \<Rightarrow> nat \<Rightarrow> vsize \<Rightarrow> vsimpleht_t \<Rightarrow> (vsimpleht_ret_t \<times> vsimpleht_t) res" where
  "vsimpleht_add_loop cmp key val 0 index tbl = Inr (VSIMPLEHT_RET_TBL_FULL, tbl)"
| "vsimpleht_add_loop cmp key val (Suc n) index tbl =
     (let index = index AND (ht_capacity tbl - 1); i = unat index
      in rbind (vassert (index < ht_capacity tbl)) (\<lambda>_.
         rbind (aread (ht_entries tbl) i) (\<lambda>en.
         let (probed_key, k') = (if vatomic_read (ht_key en) = NULL then vatomic_cmpxchg (ht_key en) NULL key
                                 else (vatomic_read (ht_key en), ht_key en))
         in if probed_key \<noteq> NULL \<and> cmp key probed_key \<noteq> 0
            then vsimpleht_add_loop cmp key val n (index + 1) (tbl\<lparr>ht_entries := (ht_entries tbl)[i := en\<lparr>ht_key := k'\<rparr>]\<rparr>)
            else rbind (vassert (cmp key (vatomic_read k') = 0)) (\<lambda>_.
              let (v, v') = vatomic_cmpxchg (ht_value en) NULL val
              in Inr (if v = NULL then VSIMPLEHT_RET_OK else VSIMPLEHT_RET_KEY_EXISTS,
                      tbl\<lparr>ht_entries := (ht_entries tbl)[i := \<lparr>ht_key = k', ht_value = v'\<rparr>]\<rparr>)))))"

definition vsimpleht_add_internal :: "cmp_key \<Rightarrow> hash_key \<Rightarrow> vsimpleht_t \<Rightarrow> ptr \<Rightarrow> ptr \<Rightarrow> (vsimpleht_ret_t \<times> vsimpleht_t) res" where
  "vsimpleht_add_internal cmp hash tbl key val =
     rbind (vassert (key \<noteq> NULL)) (\<lambda>_. rbind (vassert (val \<noteq> NULL)) (\<lambda>_.
       vsimpleht_add_loop cmp key val (unat (ht_capacity tbl)) (hash key) tbl))"

definition vsimpleht_add :: "cmp_key \<Rightarrow> hash_key \<Rightarrow> vsimpleht_t \<Rightarrow> ptr \<Rightarrow> ptr \<Rightarrow> (vsimpleht_ret_t \<times> vsimpleht_t) res" where
  "vsimpleht_add cmp hash tbl key val =
     rbind (vassert (key \<noteq> NULL)) (\<lambda>_. rbind (vassert (val \<noteq> NULL)) (\<lambda>_.
       rbind (vsimpleht_give_cleanup_a_chance tbl) (\<lambda>tbl. vsimpleht_add_internal cmp hash tbl key val)))"

partial_function (option) vsimpleht_get_loop :: "cmp_key \<Rightarrow> ptr \<Rightarrow> vsimpleht_t \<Rightarrow> vsize \<Rightarrow> ptr res option" where
  "vsimpleht_get_loop cmp key tbl index =
     (let index = index AND (ht_capacity tbl - 1)
      in if \<not> index < ht_capacity tbl then Some (Inl AssertFail)
         else case aread (ht_entries tbl) (unat index) of Inl e \<Rightarrow> Some (Inl e)
         | Inr en \<Rightarrow>
           let probed_key = vatomic_read (ht_key en)
           in if probed_key = NULL then Some (Inr NULL)
              else if cmp key probed_key = 0 then Some (Inr (vatomic_read (ht_value en)))
              else vsimpleht_get_loop cmp key tbl (index + 1))"

declare vsimpleht_get_loop.simps [code]

definition vsimpleht_get :: "cmp_key \<Rightarrow> hash_key \<Rightarrow> vsimpleht_t \<Rightarrow> ptr \<Rightarrow> (ptr \<times> vsimpleht_t) res option" where
  "vsimpleht_get cmp hash tbl key =
     (case vsimpleht_give_cleanup_a_chance tbl of Inl e \<Rightarrow> Some (Inl e)
      | Inr tbl \<Rightarrow> (case vsimpleht_get_loop cmp key tbl (hash key) of None \<Rightarrow> None
          | Some (Inl e) \<Rightarrow> Some (Inl e) | Some (Inr v) \<Rightarrow> Some (Inr (v, tbl))))"

definition vsimpleht_iter_init :: "vsimpleht_iter_t" where
  "vsimpleht_iter_init = \<lparr>ht_idx = 0\<rparr>"

text \<open>The loop of \<^verbatim>\<open>vsimpleht_iter_next\<close>; \<open>n\<close> bounds the slots left.\<close>

fun vsimpleht_iter_loop :: "nat \<Rightarrow> vsimpleht_t \<Rightarrow> vsize \<Rightarrow> (vsize \<times> ptr \<times> ptr) option res" where
  "vsimpleht_iter_loop 0 tbl i = Inr None"
| "vsimpleht_iter_loop (Suc n) tbl i =
     (if \<not> i < ht_capacity tbl then Inr None
      else rbind (aread (ht_entries tbl) (unat i)) (\<lambda>en.
        if ht_key en \<noteq> NULL \<and> ht_value en \<noteq> NULL then Inr (Some (i + 1, ht_key en, ht_value en))
        else vsimpleht_iter_loop n tbl (i + 1)))"

definition vsimpleht_iter_next :: "vsimpleht_t \<Rightarrow> vsimpleht_iter_t \<Rightarrow> ((ptr \<times> ptr) option \<times> vsimpleht_iter_t) res" where
  "vsimpleht_iter_next tbl it =
     rbind (vsimpleht_iter_loop (unat (ht_capacity tbl)) tbl (ht_idx it)) (\<lambda>r.
       Inr (case r of None \<Rightarrow> (None, it) | Some (i, k, v) \<Rightarrow> (Some (k, v), it\<lparr>ht_idx := i\<rparr>)))"

text \<open>
  \<^verbatim>\<open>_vsimpleht_cleanup\<close>: find an empty slot to start from, then move every live entry as far
  towards its home slot as possible and clear the deleted ones.
\<close>

fun cleanup_start :: "nat list \<Rightarrow> vsimpleht_t \<Rightarrow> vsize \<Rightarrow> vsize res" where
  "cleanup_start [] tbl start_index = Inr start_index"
| "cleanup_start (e # es) tbl start_index =
     rbind (aread (ht_entries tbl) e) (\<lambda>en. if ht_key en = NULL then Inr (of_nat e) else cleanup_start es tbl start_index)"

fun cleanup_move :: "cmp_key \<Rightarrow> hash_key \<Rightarrow> nat list \<Rightarrow> vsize \<Rightarrow> vsimpleht_t \<Rightarrow> vsimpleht_t res" where
  "cleanup_move cmp hash [] start_index tbl = Inr tbl"
| "cleanup_move cmp hash (e # es) start_index tbl =
     (let i = unat ((of_nat e + start_index) AND (ht_capacity tbl - 1))
      in rbind (aread (ht_entries tbl) i) (\<lambda>en.
         if ht_key en \<noteq> NULL \<and> ht_value en \<noteq> NULL then
           rbind (vsimpleht_add_internal cmp hash tbl (ht_key en) (ht_value en)) (\<lambda>(ret, tbl).
             let tbl = (if ret = VSIMPLEHT_RET_OK
                        then tbl\<lparr>ht_entries := (ht_entries tbl)[i := \<lparr>ht_key = NULL, ht_value = NULL\<rparr>]\<rparr> else tbl)
             in rbind (vassert (ret \<noteq> VSIMPLEHT_RET_TBL_FULL)) (\<lambda>_. cleanup_move cmp hash es start_index tbl))
         else if ht_key en \<noteq> NULL \<and> ht_value en = NULL then
           cleanup_move cmp hash es start_index (tbl\<lparr>ht_entries := (ht_entries tbl)[i := en\<lparr>ht_key := NULL\<rparr>]\<rparr>)
         else cleanup_move cmp hash es start_index tbl))"

definition vsimpleht_cleanup :: "cmp_key \<Rightarrow> hash_key \<Rightarrow> vsimpleht_t \<Rightarrow> ptr \<Rightarrow> vsimpleht_t res" where
  "vsimpleht_cleanup cmp hash tbl val =
     rbind (alone alone_fuel rwlock_write_acquire (WA_wb ES_await) (ht_lock tbl)) (\<lambda>(_, l).
     let tbl = tbl\<lparr>ht_lock := l\<rparr>; es = [0..<unat (ht_capacity tbl)] in
     rbind (if deleted_count tbl < cleaning_threshold tbl then Inr tbl
            else rbind (cleanup_start es tbl (ht_capacity tbl - 1)) (\<lambda>start_index.
                 rbind (cleanup_move cmp hash es start_index tbl) (\<lambda>tbl. Inr (tbl\<lparr>deleted_count := 0\<rparr>)))) (\<lambda>tbl.
     rbind (alone alone_fuel rwlock_write_release WL_wb (ht_lock tbl)) (\<lambda>(_, l).
       Inr (tbl\<lparr>ht_destroyed := ht_destroyed tbl @ [val], ht_lock := l\<rparr>))))"

definition vsimpleht_trigger_cleanup :: "cmp_key \<Rightarrow> hash_key \<Rightarrow> vsimpleht_t \<Rightarrow> ptr \<Rightarrow> vsimpleht_t res" where
  "vsimpleht_trigger_cleanup cmp hash tbl val =
     rbind (vassert (rwlock_acquired_by_readers (ht_lock tbl))) (\<lambda>_.
     rbind (vsimpleht_cleanup cmp hash (tbl\<lparr>ht_lock := rwlock_read_release (ht_lock tbl)\<rparr>) val) (\<lambda>tbl.
     rbind (alone alone_fuel rwlock_read_acquire RA_wb (ht_lock tbl)) (\<lambda>(_, l). Inr (tbl\<lparr>ht_lock := l\<rparr>))))"

partial_function (option) vsimpleht_remove_loop :: "cmp_key \<Rightarrow> hash_key \<Rightarrow> ptr \<Rightarrow> vsimpleht_t \<Rightarrow> vsize \<Rightarrow> vsize \<Rightarrow>
    (vsimpleht_ret_t \<times> vsimpleht_t) res option" where
  "vsimpleht_remove_loop cmp hash key tbl start_index index =
     (case aread (ht_entries tbl) (unat index) of Inl e \<Rightarrow> Some (Inl e)
      | Inr en \<Rightarrow>
        let probed_key = vatomic_read (ht_key en)
        in if probed_key = NULL then Some (Inr (VSIMPLEHT_RET_KEY_DNE, tbl))
           else if cmp key probed_key = 0 then
             let probed_value = vatomic_read (ht_value en)
             in if probed_value = NULL then Some (Inr (VSIMPLEHT_RET_KEY_DNE, tbl))
                else let (old, v') = vatomic_cmpxchg (ht_value en) probed_value NULL;
                         tbl = tbl\<lparr>ht_entries := (ht_entries tbl)[unat index := en\<lparr>ht_value := v'\<rparr>]\<rparr>
                     in if old = probed_value
                        then Some (rbind (vsimpleht_trigger_cleanup cmp hash
                               (tbl\<lparr>deleted_count := vatomic_inc (deleted_count tbl)\<rparr>) probed_value) (\<lambda>tbl.
                               Inr (VSIMPLEHT_RET_OK, tbl)))
                        else Some (Inr (VSIMPLEHT_RET_KEY_DNE, tbl))
           else let index = (index + 1) AND (ht_capacity tbl - 1)
                in if index \<noteq> start_index then vsimpleht_remove_loop cmp hash key tbl start_index index
                   else Some (Inr (VSIMPLEHT_RET_KEY_DNE, tbl)))"

declare vsimpleht_remove_loop.simps [code]

definition vsimpleht_remove :: "cmp_key \<Rightarrow> hash_key \<Rightarrow> vsimpleht_t \<Rightarrow> ptr \<Rightarrow> (vsimpleht_ret_t \<times> vsimpleht_t) res option" where
  "vsimpleht_remove cmp hash tbl key =
     (let start_index = hash key; index = start_index AND (ht_capacity tbl - 1)
      in case vsimpleht_give_cleanup_a_chance tbl of Inl e \<Rightarrow> Some (Inl e)
         | Inr tbl \<Rightarrow> vsimpleht_remove_loop cmp hash key tbl start_index index)"

section \<open>Probing\<close>

text \<open>
  \<open>find_slot\<close> is the search all operations share: at most \<open>n\<close> slots from \<open>p\<close> on, around
  the end of the table of \<open>N\<close> slots, up to an empty one or one with the key.
\<close>

fun find_slot :: "nat \<Rightarrow> (nat \<Rightarrow> ptr) \<Rightarrow> ptr \<Rightarrow> nat \<Rightarrow> nat \<Rightarrow> nat option" where
  "find_slot N K k 0 p = None"
| "find_slot N K k (Suc n) p = (if K p = NULL \<or> K p = k then Some p else find_slot N K k n ((p + 1) mod N))"

lemma find_slot_offset:
  "p < N \<Longrightarrow> d < n \<Longrightarrow> (\<forall>d' < d. K ((p + d') mod N) \<notin> {NULL, k}) \<Longrightarrow> K ((p + d) mod N) \<in> {NULL, k} \<Longrightarrow>
   find_slot N K k n p = Some ((p + d) mod N)"
proof (induction n arbitrary: p d)
  case (Suc n)
  show ?case
  proof (cases d)
    case 0
    with Suc.prems show ?thesis by auto
  next
    case (Suc d')
    have "K p \<notin> {NULL, k}" using Suc.prems(1,3) Suc by (metis add_0_right mod_less zero_less_Suc)
    moreover have "K (((p + 1) mod N + e) mod N) \<notin> {NULL, k}" if "e < d'" for e
      using Suc.prems(3) Suc that by (simp add: mod_add_left_eq)
         (metis add_Suc_right Suc_less_eq)
    moreover have "K (((p + 1) mod N + d') mod N) \<in> {NULL, k}"
      using Suc.prems(4) Suc by (simp add: mod_add_left_eq)
    ultimately show ?thesis
      using Suc.IH [of "(p + 1) mod N" d'] Suc.prems(1,2) Suc by (simp add: mod_add_left_eq)
  qed
qed simp

lemma find_slot_Some:
  assumes "find_slot N K k n p = Some q" and "p < N"
  obtains d where "d < n" and "q = (p + d) mod N" and "\<And>d'. d' < d \<Longrightarrow> K ((p + d') mod N) \<notin> {NULL, k}"
    and "K q \<in> {NULL, k}"
  using assms
proof (induction n arbitrary: p thesis)
  case (Suc n)
  show ?case
  proof (cases "K p = NULL \<or> K p = k")
    case True
    with Suc.prems show ?thesis by (intro Suc.prems(1) [of 0]) auto
  next
    case False
    with Suc.prems(2) have "find_slot N K k n ((p + 1) mod N) = Some q" by simp
    then obtain d where d: "d < n" "q = ((p + 1) mod N + d) mod N" "K q \<in> {NULL, k}"
      "\<And>d'. d' < d \<Longrightarrow> K (((p + 1) mod N + d') mod N) \<notin> {NULL, k}"
      using Suc.IH [of "(p + 1) mod N"] Suc.prems(3) by (metis mod_less_divisor neq0_conv not_less0)
    have "K ((p + d') mod N) \<notin> {NULL, k}" if "d' < Suc d" for d'
      using that False Suc.prems(3) d(4) by (cases d') (auto simp: mod_add_left_eq)
    then show ?thesis using d by (intro Suc.prems(1) [of "Suc d"]) (auto simp: mod_add_left_eq)
  qed
qed simp

lemma find_slot_None:
  assumes "find_slot N K k n p = None" and "p < N" and "d < n"
  shows "K ((p + d) mod N) \<notin> {NULL, k}"
proof
  assume hit: "K ((p + d) mod N) \<in> {NULL, k}"
  define e where "e = (LEAST e. K ((p + e) mod N) \<in> {NULL, k})"
  have "K ((p + e) mod N) \<in> {NULL, k}" unfolding e_def using hit by (rule LeastI)
  moreover have "e \<le> d" unfolding e_def using hit by (rule Least_le)
  moreover have "\<forall>d' < e. K ((p + d') mod N) \<notin> {NULL, k}"
    unfolding e_def using not_less_Least by blast
  ultimately have "find_slot N K k n p = Some ((p + e) mod N)"
    using find_slot_offset [of p N e n K k] assms(2,3) by simp
  with assms(1) show False by simp
qed

lemma slot_offset:
  assumes "p < N" and "q < (N::nat)"
  obtains d where "d < N" and "q = (p + d) mod N"
proof (cases "p \<le> q")
  case True
  then show ?thesis using assms that [of "q - p"] by simp
next
  case False
  then have "(p + (N + q - p)) mod N = q" using assms by simp
  then show ?thesis using assms False that [of "N + q - p"] by simp
qed

lemma find_slot_all: "find_slot N K k N p = None \<Longrightarrow> p < N \<Longrightarrow> q < N \<Longrightarrow> K q \<notin> {NULL, k}"
  by (metis find_slot_None slot_offset)

lemma find_slot_None_iff: "p < N \<Longrightarrow> find_slot N K k N p = None \<longleftrightarrow> (\<forall>q < N. K q \<notin> {NULL, k})"
  by (metis find_slot_Some find_slot_all mod_less_divisor neq0_conv not_less0 not_None_eq)

lemma find_slot_lt: "find_slot N K k n p = Some q \<Longrightarrow> p < N \<Longrightarrow> q < N"
  by (metis find_slot_Some mod_less_divisor neq0_conv not_less0)

lemma find_slot_upd:
  assumes "find_slot N K k n p = Some q" and "p < N" and "K q = k" and "K r = NULL \<or> K r = x" and "x \<noteq> NULL" and "k \<noteq> x \<or> q = r" and "k \<noteq> NULL"
  shows "find_slot N (K(r := x)) k n p = Some q"
proof -
  from assms(1,2) obtain d where d: "d < n" "q = (p + d) mod N"
    "\<And>d'. d' < d \<Longrightarrow> K ((p + d') mod N) \<notin> {NULL, k}" by (rule find_slot_Some) blast
  have "(K(r := x)) ((p + d') mod N) \<notin> {NULL, k}" if "d' < d" for d'
    using d(3) [OF that] assms(3-7) by (cases "(p + d') mod N = r") auto
  moreover have "(K(r := x)) q \<in> {NULL, k}" using assms(3,4,6,7) by (cases "q = r") auto
  ultimately show ?thesis using find_slot_offset [of p N d n "K(r := x)" k] d(1,2) assms(2) by simp
qed

section \<open>Well-formed tables\<close>

definition ht_size :: "vsimpleht_t \<Rightarrow> nat" where
  "ht_size tbl = unat (ht_capacity tbl)"

definition ht_keys :: "vsimpleht_t \<Rightarrow> nat \<Rightarrow> ptr" where
  "ht_keys tbl i = ht_key (ht_entries tbl ! i)"

definition ht_vals :: "vsimpleht_t \<Rightarrow> nat \<Rightarrow> ptr" where
  "ht_vals tbl i = ht_value (ht_entries tbl ! i)"

definition ht_home :: "hash_key \<Rightarrow> vsimpleht_t \<Rightarrow> ptr \<Rightarrow> nat" where
  "ht_home hash tbl k = unat (hash k) mod ht_size tbl"

definition ht_shape :: "vsimpleht_t \<Rightarrow> bool" where
  "ht_shape tbl \<longleftrightarrow> V_IS_POWER_OF_TWO (ht_capacity tbl) \<and> ht_size tbl \<le> length (ht_entries tbl)"

text \<open>
  The invariant: an empty slot has no value, and the probe sequence of the key of every other slot
  ends in that slot. So every key has at most one slot.
\<close>

definition ht_wf :: "hash_key \<Rightarrow> vsimpleht_t \<Rightarrow> bool" where
  "ht_wf hash tbl \<longleftrightarrow> ht_shape tbl \<and>
     (\<forall>i < ht_size tbl. if ht_keys tbl i = NULL then ht_vals tbl i = NULL
        else find_slot (ht_size tbl) (ht_keys tbl) (ht_keys tbl i) (ht_size tbl) (ht_home hash tbl (ht_keys tbl i)) = Some i)"

text \<open>The map the table stands for.\<close>

definition ht_map :: "vsimpleht_t \<Rightarrow> ptr \<rightharpoonup> ptr" where
  "ht_map tbl = map_of (filter (\<lambda>(k, v). k \<noteq> NULL \<and> v \<noteq> NULL)
     (map (\<lambda>i. (ht_keys tbl i, ht_vals tbl i)) [0..<ht_size tbl]))"

definition ht_full :: "vsimpleht_t \<Rightarrow> bool" where
  "ht_full tbl \<longleftrightarrow> (\<forall>i < ht_size tbl. ht_keys tbl i \<noteq> NULL)"

definition ht_has_key :: "vsimpleht_t \<Rightarrow> ptr \<Rightarrow> bool" where
  "ht_has_key tbl k \<longleftrightarrow> (\<exists>i < ht_size tbl. ht_keys tbl i = k)"

text \<open>What the table relies on from its comparison callback.\<close>

definition cmp_key_ok :: "cmp_key \<Rightarrow> bool" where
  "cmp_key_ok cmp \<longleftrightarrow> (\<forall>a b. cmp a b = 0 \<longleftrightarrow> a = b)"

lemma cmp_key_ok_iff: "cmp_key_ok cmp \<Longrightarrow> cmp a b = 0 \<longleftrightarrow> a = b"
  by (simp add: cmp_key_ok_def)

lemma pow2_mask_mod:
  fixes p x :: "'a::len word"
  assumes "V_IS_POWER_OF_TWO p"
  shows "unat (x AND (p - 1)) = unat x mod unat p"
proof -
  from assms obtain k where "p = 2 ^ k" by (auto simp: V_IS_POWER_OF_TWO_iff)
  then have "x AND (p - 1) = x mod p"
    by (metis mask_eq_exp_minus_1 take_bit_eq_mask take_bit_eq_mod)
  then show ?thesis by (simp add: unat_mod_distrib)
qed

lemma pow2_unat:
  fixes p :: "'a::len word"
  assumes "V_IS_POWER_OF_TWO p"
  shows "unat p dvd 2 ^ LENGTH('a)"
proof -
  from assms obtain k where k: "k < LENGTH('a)" "p = push_bit k 1" by (auto simp: V_IS_POWER_OF_TWO_iff)
  then show ?thesis by (simp only: unat_pow2_word) (simp add: le_imp_power_dvd)
qed

lemma pow2_succ_mod:
  fixes p x :: "'a::len word"
  assumes "V_IS_POWER_OF_TWO p"
  shows "unat (x + 1) mod unat p = (unat x mod unat p + 1) mod unat p"
  using pow2_unat [OF assms] by (simp add: unat_word_ariths mod_mod_cancel mod_Suc_eq)

lemma ht_shape_pos: "ht_shape tbl \<Longrightarrow> 0 < ht_size tbl"
  by (simp add: ht_shape_def ht_size_def V_IS_POWER_OF_TWO_def unat_gt_0)

lemma ht_home_lt: "ht_shape tbl \<Longrightarrow> ht_home hash tbl k < ht_size tbl"
  using ht_shape_pos by (simp add: ht_home_def)

lemma ht_slot_lt: "ht_shape tbl \<Longrightarrow> p mod ht_size tbl < length (ht_entries tbl)"
  using ht_shape_pos [of tbl] mod_less_divisor [of "ht_size tbl" p] by (auto simp: ht_shape_def simp del: mod_less_divisor)

lemma ht_mask: "ht_shape tbl \<Longrightarrow> unat (index AND (ht_capacity tbl - 1)) = unat index mod ht_size tbl"
  by (simp add: ht_shape_def ht_size_def pow2_mask_mod)

lemma ht_mask_lt:
  assumes "ht_shape tbl"
  shows "index AND (ht_capacity tbl - 1) < ht_capacity tbl"
    and "unat index mod ht_size tbl < length (ht_entries tbl)"
proof -
  show "index AND (ht_capacity tbl - 1) < ht_capacity tbl"
    using assms ht_shape_pos [OF assms] by (simp add: word_less_nat_alt ht_mask) (simp add: ht_size_def)
  show "unat index mod ht_size tbl < length (ht_entries tbl)" using ht_slot_lt [OF assms] .
qed

lemma ht_mask_succ:
  assumes "ht_shape tbl"
  shows "unat ((index AND (ht_capacity tbl - 1)) + 1) mod ht_size tbl = (unat index mod ht_size tbl + 1) mod ht_size tbl"
  using pow2_succ_mod [of "ht_capacity tbl" "index AND (ht_capacity tbl - 1)"] assms ht_mask [OF assms, of index]
  by (simp add: ht_shape_def ht_size_def)

lemma ht_entry_id:
  "ht_entries tbl ! i = \<lparr>ht_key = ht_keys tbl i, ht_value = ht_vals tbl i\<rparr>"
  by (simp add: ht_keys_def ht_vals_def)

section \<open>The operations search with \<open>find_slot\<close>\<close>

definition ht_put :: "nat \<Rightarrow> ptr \<Rightarrow> ptr \<Rightarrow> vsimpleht_t \<Rightarrow> vsimpleht_t" where
  "ht_put p k v tbl = tbl\<lparr>ht_entries := (ht_entries tbl)[p := \<lparr>ht_key = k, ht_value = v\<rparr>]\<rparr>"

lemma ht_put_simps [simp]:
  "ht_capacity (ht_put p k v tbl) = ht_capacity tbl" "ht_lock (ht_put p k v tbl) = ht_lock tbl"
  "cleaning_threshold (ht_put p k v tbl) = cleaning_threshold tbl" "deleted_count (ht_put p k v tbl) = deleted_count tbl"
  "ht_destroyed (ht_put p k v tbl) = ht_destroyed tbl" "ht_size (ht_put p k v tbl) = ht_size tbl"
  "ht_shape (ht_put p k v tbl) = ht_shape tbl" "ht_home hash (ht_put p k v tbl) = ht_home hash tbl"
  by (simp_all add: ht_put_def ht_size_def ht_shape_def ht_home_def fun_eq_iff)

lemma ht_put_keys:
  assumes "ht_shape tbl" and "p < ht_size tbl"
  shows "ht_keys (ht_put p k v tbl) = (ht_keys tbl)(p := k)"
    and "ht_vals (ht_put p k v tbl) = (ht_vals tbl)(p := v)"
  using assms by (auto simp: ht_put_def ht_keys_def ht_vals_def ht_shape_def fun_eq_iff nth_list_update)

lemma ht_put_same: "ht_put p (ht_keys tbl p) (ht_vals tbl p) tbl = tbl"
  by (simp add: ht_put_def ht_entry_id [symmetric])

definition add_result :: "ptr \<Rightarrow> ptr \<Rightarrow> vsimpleht_t \<Rightarrow> nat option \<Rightarrow> vsimpleht_ret_t \<times> vsimpleht_t" where
  "add_result key val tbl r = (case r of None \<Rightarrow> (VSIMPLEHT_RET_TBL_FULL, tbl)
     | Some p \<Rightarrow> if ht_vals tbl p = NULL then (VSIMPLEHT_RET_OK, ht_put p key val tbl)
                 else (VSIMPLEHT_RET_KEY_EXISTS, ht_put p key (ht_vals tbl p) tbl))"

lemma add_loop_find:
  assumes "cmp_key_ok cmp" and "ht_shape tbl" and "key \<noteq> NULL"
  shows "vsimpleht_add_loop cmp key val n index tbl =
    Inr (add_result key val tbl (find_slot (ht_size tbl) (ht_keys tbl) key n (unat index mod ht_size tbl)))"
proof (induction n arbitrary: index)
  case (Suc n)
  note lt = ht_mask_lt [OF assms(2), of index]
  let ?p = "unat index mod ht_size tbl"
  note run = ht_mask [OF assms(2)] ht_mask_succ [OF assms(2)] Let_def cmp_key_ok_iff [OF assms(1)] vsync_simps
  show ?case
  proof (cases "ht_keys tbl ?p \<in> {NULL, key}")
    case True
    with lt assms(3) show ?thesis
      by (auto simp: run ht_entry_id add_result_def ht_put_def)
  next
    case False
    have "(ht_entries tbl)[?p := (ht_entries tbl ! ?p)\<lparr>ht_key := ht_keys tbl ?p\<rparr>] = ht_entries tbl"
      by (simp add: ht_keys_def)
    then show ?thesis
      using False Suc.IH [of "(index AND (ht_capacity tbl - 1)) + 1"] lt
      by (auto simp: run ht_keys_def [symmetric])
  qed
qed (simp add: add_result_def)

lemma get_loop_find:
  assumes "cmp_key_ok cmp" and "ht_shape tbl"
    and "find_slot (ht_size tbl) (ht_keys tbl) key n (unat index mod ht_size tbl) = Some p"
  shows "vsimpleht_get_loop cmp key tbl index = Some (Inr (if ht_keys tbl p = NULL then NULL else ht_vals tbl p))"
  using assms(3)
proof (induction n arbitrary: index)
  case (Suc n)
  note lt = ht_mask_lt [OF assms(2), of index]
  show ?case
    using Suc.IH [of "(index AND (ht_capacity tbl - 1)) + 1"] lt Suc.prems
    by (subst vsimpleht_get_loop.simps)
       (auto simp: ht_mask [OF assms(2)] ht_mask_succ [OF assms(2)] Let_def cmp_key_ok_iff [OF assms(1)] ht_entry_id
          vsync_simps split: if_splits)
qed simp

text \<open>A search that meets neither the key nor an empty slot does not end.\<close>

lemma get_loop_returns:
  assumes "vsimpleht_get_loop cmp key tbl index = Some r" and "cmp_key_ok cmp" and "ht_shape tbl"
  shows "\<exists>q < ht_size tbl. ht_keys tbl q \<in> {NULL, key}"
  using assms
proof (induction rule: vsimpleht_get_loop.raw_induct [rotated, consumes 1, case_names body])
  case (body loop cmp key tbl index r)
  let ?p = "unat index mod ht_size tbl"
  show ?case
  proof (cases "ht_keys tbl ?p \<in> {NULL, key}")
    case True
    then show ?thesis using ht_shape_pos [OF body.prems(2)] by (metis mod_less_divisor)
  next
    case False
    with body(2) ht_mask_lt [OF body.prems(2), of index]
    have "loop cmp key tbl ((index AND (ht_capacity tbl - 1)) + 1) = Some r"
      by (auto simp: Let_def ht_mask [OF body.prems(2)] cmp_key_ok_iff [OF body.prems(1)] vsync_simps ht_keys_def
            split: if_splits)
    from body(1) [OF this body.prems] show ?thesis .
  qed
qed

lemma get_loop_find_iff:
  assumes "cmp_key_ok cmp" and "ht_shape tbl"
  shows "vsimpleht_get_loop cmp key tbl (hash key) =
    (case find_slot (ht_size tbl) (ht_keys tbl) key (ht_size tbl) (ht_home hash tbl key) of
       None \<Rightarrow> None | Some p \<Rightarrow> Some (Inr (if ht_keys tbl p = NULL then NULL else ht_vals tbl p)))"
proof (cases "find_slot (ht_size tbl) (ht_keys tbl) key (ht_size tbl) (ht_home hash tbl key)")
  case None
  have "vsimpleht_get_loop cmp key tbl (hash key) = None"
    using get_loop_returns [OF _ assms] find_slot_all [OF None ht_home_lt [OF assms(2)]]
    by (metis not_None_eq)
  with None show ?thesis by simp
next
  case (Some p)
  then show ?thesis using get_loop_find [OF assms, of key "ht_size tbl" "hash key" p] by (simp add: ht_home_def)
qed

definition remove_result :: "cmp_key \<Rightarrow> hash_key \<Rightarrow> vsimpleht_t \<Rightarrow> nat \<Rightarrow> (vsimpleht_ret_t \<times> vsimpleht_t) res" where
  "remove_result cmp hash tbl p =
     (if ht_keys tbl p = NULL \<or> ht_vals tbl p = NULL then Inr (VSIMPLEHT_RET_KEY_DNE, tbl)
      else rbind (vsimpleht_trigger_cleanup cmp hash
             ((ht_put p (ht_keys tbl p) NULL tbl)\<lparr>deleted_count := deleted_count tbl + 1\<rparr>) (ht_vals tbl p))
           (\<lambda>tbl. Inr (VSIMPLEHT_RET_OK, tbl)))"

lemma remove_loop_find:
  assumes "cmp_key_ok cmp" and "ht_shape tbl"
    and "find_slot (ht_size tbl) (ht_keys tbl) key n (unat index) = Some p"
    and "unat index < ht_size tbl"
    and "\<And>j. 0 < j \<Longrightarrow> j < n \<Longrightarrow> (unat index + j) mod ht_size tbl \<noteq> unat start_index"
  shows "vsimpleht_remove_loop cmp hash key tbl start_index index = Some (remove_result cmp hash tbl p)"
  using assms(3-)
proof (induction n arbitrary: index)
  case (Suc n)
  have len: "unat index < length (ht_entries tbl)" using Suc.prems(2) assms(2) by (simp add: ht_shape_def)
  show ?case
  proof (cases "ht_keys tbl (unat index) \<in> {NULL, key}")
    case True
    then have p: "p = unat index" using Suc.prems(1) by auto
    show ?thesis
      using len True
      by (subst vsimpleht_remove_loop.simps)
         (auto simp: p Let_def cmp_key_ok_iff [OF assms(1)] vsync_simps remove_result_def ht_put_def ht_entry_id)
  next
    case False
    define next_index where "next_index = (index + 1) AND (ht_capacity tbl - 1)"
    have nxt: "unat next_index = (unat index + 1) mod ht_size tbl"
      using pow2_succ_mod [of "ht_capacity tbl" index] assms(2) Suc.prems(2)
      by (simp add: next_index_def ht_mask [OF assms(2)] ht_shape_def ht_size_def)
    have find: "find_slot (ht_size tbl) (ht_keys tbl) key n (unat next_index) = Some p"
      using Suc.prems(1) False nxt by simp
    then have "0 < n" by (cases n) auto
    then have "unat next_index \<noteq> unat start_index" using Suc.prems(3) [of 1] nxt by simp
    then have "next_index \<noteq> start_index" by blast
    moreover have "vsimpleht_remove_loop cmp hash key tbl start_index next_index = Some (remove_result cmp hash tbl p)"
    proof (rule Suc.IH [OF find])
      show "unat next_index < ht_size tbl" using nxt ht_shape_pos [OF assms(2)] by simp
      show "(unat next_index + j) mod ht_size tbl \<noteq> unat start_index" if "0 < j" "j < n" for j
        using Suc.prems(3) [of "Suc j"] that nxt by (simp add: mod_add_left_eq)
    qed
    ultimately show ?thesis
      using len False
      by (subst vsimpleht_remove_loop.simps)
         (auto simp: Let_def cmp_key_ok_iff [OF assms(1)] vsync_simps ht_keys_def next_index_def)
  qed
qed simp

lemma remove_loop_hit:
  assumes "cmp_key_ok cmp" and "ht_shape tbl"
    and "find_slot (ht_size tbl) (ht_keys tbl) key (ht_size tbl) (ht_home hash tbl key) = Some p"
  shows "vsimpleht_remove_loop cmp hash key tbl (hash key) (hash key AND (ht_capacity tbl - 1)) =
    Some (remove_result cmp hash tbl p)"
proof (rule remove_loop_find [OF assms(1,2), where n = "ht_size tbl"])
  let ?N = "ht_size tbl"
  have idx: "unat (hash key AND (ht_capacity tbl - 1)) = ht_home hash tbl key"
    by (simp add: ht_mask [OF assms(2)] ht_home_def)
  then show "find_slot ?N (ht_keys tbl) key ?N (unat (hash key AND (ht_capacity tbl - 1))) = Some p"
    and "unat (hash key AND (ht_capacity tbl - 1)) < ?N"
    using assms(3) ht_home_lt [OF assms(2)] by simp_all
  show "(unat (hash key AND (ht_capacity tbl - 1)) + j) mod ?N \<noteq> unat (hash key)" if "0 < j" "j < ?N" for j
  proof
    assume eq: "(unat (hash key AND (ht_capacity tbl - 1)) + j) mod ?N = unat (hash key)"
    then have "(unat (hash key) + j) mod ?N = unat (hash key) mod ?N"
      by (metis ht_home_def idx mod_add_left_eq mod_mod_trivial)
    then have "j mod ?N = 0" by (metis add_diff_cancel_left' mod_eq_dvd_iff_nat dvd_imp_mod_0 le_add1)
    with that show False by simp
  qed
qed

section \<open>The table as a map\<close>

lemma map_of_functional:
  assumes "\<And>k v v'. (k, v) \<in> set xs \<Longrightarrow> (k, v') \<in> set xs \<Longrightarrow> v = v'"
  shows "map_of xs k = Some v \<longleftrightarrow> (k, v) \<in> set xs"
  using assms by (metis map_of_SomeD weak_map_of_SomeI)

lemma ht_wf_shape: "ht_wf hash tbl \<Longrightarrow> ht_shape tbl"
  by (simp add: ht_wf_def)

lemma ht_wf_find:
  "ht_wf hash tbl \<Longrightarrow> i < ht_size tbl \<Longrightarrow> ht_keys tbl i = k \<Longrightarrow> k \<noteq> NULL \<Longrightarrow>
   find_slot (ht_size tbl) (ht_keys tbl) k (ht_size tbl) (ht_home hash tbl k) = Some i"
  by (auto simp: ht_wf_def)

lemma ht_wf_inj:
  "ht_wf hash tbl \<Longrightarrow> i < ht_size tbl \<Longrightarrow> j < ht_size tbl \<Longrightarrow> ht_keys tbl i = ht_keys tbl j \<Longrightarrow>
   ht_keys tbl j \<noteq> NULL \<Longrightarrow> i = j"
  by (metis ht_wf_find option.inject)

lemma ht_map_inj:
  assumes "\<And>i j. i < ht_size tbl \<Longrightarrow> j < ht_size tbl \<Longrightarrow> ht_keys tbl i = ht_keys tbl j \<Longrightarrow>
     ht_keys tbl j \<noteq> NULL \<Longrightarrow> i = j"
  shows "ht_map tbl k = Some v \<longleftrightarrow> k \<noteq> NULL \<and> v \<noteq> NULL \<and> (\<exists>i < ht_size tbl. ht_keys tbl i = k \<and> ht_vals tbl i = v)"
proof -
  let ?xs = "filter (\<lambda>(k, v). k \<noteq> NULL \<and> v \<noteq> NULL) (map (\<lambda>i. (ht_keys tbl i, ht_vals tbl i)) [0..<ht_size tbl])"
  have "map_of ?xs k = Some v \<longleftrightarrow> (k, v) \<in> set ?xs"
  proof (rule map_of_functional)
    fix k v v' assume "(k, v) \<in> set ?xs" "(k, v') \<in> set ?xs"
    then obtain i j where "i < ht_size tbl" "j < ht_size tbl" "ht_keys tbl i = k" "ht_keys tbl j = k" "k \<noteq> NULL"
      "v = ht_vals tbl i" "v' = ht_vals tbl j" by auto
    then show "v = v'" using assms [of i j] by simp
  qed
  then show ?thesis by (auto simp: ht_map_def)
qed

lemma ht_map_Some:
  "ht_wf hash tbl \<Longrightarrow> ht_map tbl k = Some v \<longleftrightarrow>
   k \<noteq> NULL \<and> v \<noteq> NULL \<and> (\<exists>i < ht_size tbl. ht_keys tbl i = k \<and> ht_vals tbl i = v)"
  by (rule ht_map_inj) (rule ht_wf_inj)

lemma find_slot_keys:
  "find_slot N K k n p = Some q \<Longrightarrow> p < N \<Longrightarrow> q < N \<and> K q \<in> {NULL, k}"
  by (metis find_slot_Some find_slot_lt)

lemma ht_map_find:
  assumes "ht_wf hash tbl" and "k \<noteq> NULL"
  shows "ht_map tbl k = (case find_slot (ht_size tbl) (ht_keys tbl) k (ht_size tbl) (ht_home hash tbl k) of
    None \<Rightarrow> None | Some p \<Rightarrow> if ht_keys tbl p = NULL \<or> ht_vals tbl p = NULL then None else Some (ht_vals tbl p))"
proof (cases "find_slot (ht_size tbl) (ht_keys tbl) k (ht_size tbl) (ht_home hash tbl k)")
  case None
  then have "ht_map tbl k \<noteq> Some v" for v
    using ht_map_Some [OF assms(1)] ht_wf_find [OF assms(1)] by (metis option.discI)
  with None show ?thesis by (cases "ht_map tbl k") auto
next
  case (Some p)
  note p = find_slot_keys [OF Some ht_home_lt [OF ht_wf_shape [OF assms(1)]]]
  have "ht_map tbl k = Some v \<longleftrightarrow> ht_keys tbl p = k \<and> ht_vals tbl p = v \<and> v \<noteq> NULL" for v
  proof -
    have "i = p" if "i < ht_size tbl" "ht_keys tbl i = k" for i
      using ht_wf_find [OF assms(1) that assms(2)] Some by simp
    then show ?thesis unfolding ht_map_Some [OF assms(1)] using p assms(2) by blast
  qed
  then have "ht_map tbl k = (if ht_keys tbl p = k \<and> ht_vals tbl p \<noteq> NULL then Some (ht_vals tbl p) else None)"
    by (metis not_None_eq)
  with Some p assms(2) show ?thesis by auto
qed

lemma find_slot_fill:
  assumes "find_slot N K k n p = Some q" and "p < N"
  shows "find_slot N (K(q := k)) k n p = Some q"
proof -
  from assms obtain d where d: "d < n" "q = (p + d) mod N" "K q \<in> {NULL, k}"
    "\<And>d'. d' < d \<Longrightarrow> K ((p + d') mod N) \<notin> {NULL, k}" by (rule find_slot_Some) blast
  then have "(K(q := k)) ((p + d') mod N) \<notin> {NULL, k}" if "d' < d" for d'
    using that by (metis fun_upd_other)
  then show ?thesis using find_slot_offset [of p N d n "K(q := k)" k] d(1,2) assms(2) by simp
qed

lemma ht_put_wf:
  assumes wf: "ht_wf hash tbl" and "k \<noteq> NULL"
    and find: "find_slot (ht_size tbl) (ht_keys tbl) k (ht_size tbl) (ht_home hash tbl k) = Some p"
  shows "ht_wf hash (ht_put p k v tbl)"
proof -
  note sh = ht_wf_shape [OF wf]
  note p = find_slot_keys [OF find ht_home_lt [OF sh]]
  note K = ht_put_keys [OF sh, of p k v]
  have "find_slot (ht_size tbl) ((ht_keys tbl)(p := k)) (ht_keys tbl i) (ht_size tbl) (ht_home hash tbl (ht_keys tbl i)) = Some i"
    if "i < ht_size tbl" "i \<noteq> p" "ht_keys tbl i \<noteq> NULL" for i
  proof (rule find_slot_upd)
    show "find_slot (ht_size tbl) (ht_keys tbl) (ht_keys tbl i) (ht_size tbl) (ht_home hash tbl (ht_keys tbl i)) = Some i"
      using ht_wf_find [OF wf that(1) refl that(3)] .
    then show "ht_keys tbl i \<noteq> k \<or> i = p" using find that(2) by auto
  qed (use that p assms(2) ht_home_lt [OF sh] in auto)
  moreover have "ht_vals tbl i = NULL" if "i < ht_size tbl" "ht_keys tbl i = NULL" for i
    using wf that by (auto simp: ht_wf_def)
  ultimately show ?thesis
    using p sh assms(2) find_slot_fill [OF find ht_home_lt [OF sh]] by (auto simp: ht_wf_def K)
qed

lemma ht_put_map:
  assumes wf: "ht_wf hash tbl" and "k \<noteq> NULL"
    and find: "find_slot (ht_size tbl) (ht_keys tbl) k (ht_size tbl) (ht_home hash tbl k) = Some p"
  shows "ht_map (ht_put p k v tbl) = (ht_map tbl)(k := if v = NULL then None else Some v)"
proof (rule ext)
  fix x
  note sh = ht_wf_shape [OF wf]
  note p = find_slot_keys [OF find ht_home_lt [OF sh]]
  note K = ht_put_keys [OF sh, of p k v]
  have "ht_map (ht_put p k v tbl) x = Some y \<longleftrightarrow> ((ht_map tbl)(k := if v = NULL then None else Some v)) x = Some y" for y
  proof (cases "x = k")
    case True
    have "i = p" if "i < ht_size tbl" "ht_keys tbl i = k" for i
      using ht_wf_find [OF wf that assms(2)] find by simp
    then show ?thesis using True p assms(2) by (auto simp: ht_map_Some [OF ht_put_wf [OF assms]] K)
  next
    case False
    then show ?thesis
      using p by (auto simp: ht_map_Some [OF ht_put_wf [OF assms]] ht_map_Some [OF wf] K)
  qed
  then show "ht_map (ht_put p k v tbl) x = ((ht_map tbl)(k := if v = NULL then None else Some v)) x"
    by (metis not_None_eq)
qed

section \<open>A registered thread\<close>

definition one_reader :: rwlock_t where
  "one_reader = \<lparr>rw_n = RWLOCK_N, rw_wb = 0, rw_rs = \<lparr>sem_s = RWLOCK_N - 1\<rparr>\<rparr>"

lemma read_acquire_one: "alone alone_fuel rwlock_read_acquire RA_wb rwlock_init = Inr ((), one_reader)"
  by code_simp

lemma read_release_one: "rwlock_read_release one_reader = rwlock_init"
  by code_simp

lemma write_acquire_one:
  "alone alone_fuel rwlock_write_acquire (WA_wb ES_await) rwlock_init =
   Inr ((), rwlock_init\<lparr>rw_wb := 1, rw_rs := semaphore_init 0\<rparr>)"
  by code_simp

lemma write_release_one:
  "alone alone_fuel rwlock_write_release WL_wb (rwlock_init\<lparr>rw_wb := 1, rw_rs := semaphore_init 0\<rparr>) =
   Inr ((), rwlock_init)"
  by code_simp

lemma one_reader_observed:
  "\<not> rwlock_acquired_by_writer one_reader" "rwlock_acquired_by_readers one_reader"
  by code_simp+

lemma give_cleanup_one: "ht_lock tbl = one_reader \<Longrightarrow> vsimpleht_give_cleanup_a_chance tbl = Inr tbl"
  by (simp add: vsimpleht_give_cleanup_a_chance_def one_reader_observed)

section \<open>Cleanup\<close>

text \<open>
  Cleanup starts at an empty slot. In offsets from that slot no probe sequence wraps around, so
  the table is two functions \<open>k\<close> (keys) and \<open>v\<close> (values) of the offset. \<open>cl_inv N H e k v\<close>
  is the state of the table when the entries at offsets below \<open>e\<close> have been handled: \<open>H\<close> is the
  home offset of a key; handled entries are live and reached from their home without a gap, the
  others without a gap among the offsets not yet handled.
\<close>

definition cl_inv :: "nat \<Rightarrow> (ptr \<Rightarrow> nat) \<Rightarrow> nat \<Rightarrow> (nat \<Rightarrow> ptr) \<Rightarrow> (nat \<Rightarrow> ptr) \<Rightarrow> bool" where
  "cl_inv N H e k v \<longleftrightarrow> (\<forall>a < N. k a = NULL \<longrightarrow> v a = NULL) \<and>
     (\<forall>a < N. \<forall>b < N. k a = k b \<longrightarrow> k b \<noteq> NULL \<longrightarrow> a = b) \<and>
     (\<forall>a < N. k a \<noteq> NULL \<longrightarrow> 0 < H (k a) \<and> H (k a) \<le> a \<and> (a < e \<longrightarrow> v a \<noteq> NULL) \<and>
        (\<forall>b. H (k a) \<le> b \<and> b < a \<and> (a < e \<or> e \<le> b) \<longrightarrow> k b \<noteq> NULL))"

definition cl_live :: "nat \<Rightarrow> (nat \<Rightarrow> ptr) \<Rightarrow> (nat \<Rightarrow> ptr) \<Rightarrow> ptr \<Rightarrow> ptr \<Rightarrow> bool" where
  "cl_live N k v x y \<longleftrightarrow> x \<noteq> NULL \<and> y \<noteq> NULL \<and> (\<exists>a < N. k a = x \<and> v a = y)"

lemma cl_invI:
  assumes "\<And>a. a < N \<Longrightarrow> k a = NULL \<Longrightarrow> v a = NULL"
    and "\<And>a b. a < N \<Longrightarrow> b < N \<Longrightarrow> k a = k b \<Longrightarrow> k b \<noteq> NULL \<Longrightarrow> a = b"
    and "\<And>a. a < N \<Longrightarrow> k a \<noteq> NULL \<Longrightarrow> 0 < H (k a) \<and> H (k a) \<le> a"
    and "\<And>a. a < N \<Longrightarrow> a < e \<Longrightarrow> k a \<noteq> NULL \<Longrightarrow> v a \<noteq> NULL"
    and "\<And>a b. a < N \<Longrightarrow> k a \<noteq> NULL \<Longrightarrow> H (k a) \<le> b \<Longrightarrow> b < a \<Longrightarrow> a < e \<or> e \<le> b \<Longrightarrow> k b \<noteq> NULL"
  shows "cl_inv N H e k v"
  unfolding cl_inv_def using assms by blast

lemma cl_invD:
  assumes "cl_inv N H e k v" and "a < N"
  shows "k a = NULL \<Longrightarrow> v a = NULL"
    and "b < N \<Longrightarrow> k a = k b \<Longrightarrow> k b \<noteq> NULL \<Longrightarrow> a = b"
    and "k a \<noteq> NULL \<Longrightarrow> 0 < H (k a) \<and> H (k a) \<le> a"
    and "a < e \<Longrightarrow> k a \<noteq> NULL \<Longrightarrow> v a \<noteq> NULL"
    and "k a \<noteq> NULL \<Longrightarrow> H (k a) \<le> b \<Longrightarrow> b < a \<Longrightarrow> a < e \<or> e \<le> b \<Longrightarrow> k b \<noteq> NULL"
  using assms unfolding cl_inv_def by blast+

lemma cl_inv_stay:
  assumes inv: "cl_inv N H e k v" and "k e \<noteq> NULL \<Longrightarrow> v e \<noteq> NULL"
    and gap: "\<And>b. k e \<noteq> NULL \<Longrightarrow> H (k e) \<le> b \<Longrightarrow> b < e \<Longrightarrow> k b \<noteq> NULL"
  shows "cl_inv N H (Suc e) k v"
proof (rule cl_invI)
  show "v a \<noteq> NULL" if "a < N" "a < Suc e" "k a \<noteq> NULL" for a
    using that cl_invD(4) [OF inv] assms(2) by (metis less_antisym)
  show "k b \<noteq> NULL" if "a < N" "k a \<noteq> NULL" "H (k a) \<le> b" "b < a" "a < Suc e \<or> Suc e \<le> b" for a b
    using that gap [of b] cl_invD(5) [OF inv that(1-4)] by (metis Suc_leD less_antisym)
qed (use cl_invD(1-3) [OF inv] in metis)+

lemma cl_inv_clear:
  assumes inv: "cl_inv N H e k v"
  shows "cl_inv N H (Suc e) (k(e := NULL)) (v(e := NULL))"
proof (rule cl_invI)
  show "(v(e := NULL)) a \<noteq> NULL" if "a < N" "a < Suc e" "(k(e := NULL)) a \<noteq> NULL" for a
    using that cl_invD(4) [OF inv, of a] by (auto simp: less_Suc_eq split: if_splits)
  show "(k(e := NULL)) b \<noteq> NULL" if "a < N" "(k(e := NULL)) a \<noteq> NULL" "H ((k(e := NULL)) a) \<le> b" "b < a" "a < Suc e \<or> Suc e \<le> b" for a b
    using that cl_invD(5) [OF inv that(1), of b] by (auto split: if_splits)
  show "0 < H ((k(e := NULL)) a) \<and> H ((k(e := NULL)) a) \<le> a" if "a < N" "(k(e := NULL)) a \<noteq> NULL" for a
    using that cl_invD(3) [OF inv that(1)] by (auto split: if_splits)
  show "a = b" if "a < N" "b < N" "(k(e := NULL)) a = (k(e := NULL)) b" "(k(e := NULL)) b \<noteq> NULL" for a b
    using that cl_invD(2) [OF inv that(1,2)] by (auto split: if_splits)
  show "(v(e := NULL)) a = NULL" if "a < N" "(k(e := NULL)) a = NULL" for a
    using that cl_invD(1) [OF inv that(1)] by auto
qed

text \<open>An entry moved to a free slot before it, and its old slot cleared.\<close>

lemma cl_inv_move:
  assumes inv: "cl_inv N H e k v" and "e < N" and "k e \<noteq> NULL" and "v e \<noteq> NULL" and "j < e"
    and "H (k e) \<le> j" and "k j = NULL" and gap: "\<And>b. H (k e) \<le> b \<Longrightarrow> b < j \<Longrightarrow> k b \<noteq> NULL"
  shows "cl_inv N H (Suc e) (k(j := k e, e := NULL)) (v(j := v e, e := NULL))" (is "cl_inv N H _ ?k ?v")
proof (rule cl_invI)
  show "?v a = NULL" if "a < N" "?k a = NULL" for a
    using that cl_invD(1) [OF inv that(1)] assms(3,5) by (auto split: if_splits)
  show "a = b" if "a < N" "b < N" "?k a = ?k b" "?k b \<noteq> NULL" for a b
    using that assms(2,3,5) cl_invD(2) [OF inv that(1,2)] cl_invD(2) [OF inv that(1), of e] cl_invD(2) [OF inv that(2), of e]
    by (auto split: if_splits)
  show "0 < H (?k a) \<and> H (?k a) \<le> a" if "a < N" "?k a \<noteq> NULL" for a
    using that cl_invD(3) [OF inv, of a] cl_invD(3) [OF inv assms(2,3)] assms(5,6) by (auto split: if_splits)
  show "?v a \<noteq> NULL" if "a < N" "a < Suc e" "?k a \<noteq> NULL" for a
    using that cl_invD(4) [OF inv that(1)] assms(4) by (auto simp: less_Suc_eq split: if_splits)
  show "?k b \<noteq> NULL"
    if "a < N" "?k a \<noteq> NULL" "H (?k a) \<le> b" "b < a" "a < Suc e \<or> Suc e \<le> b" for a b
  proof (cases "a = j")
    case True
    with that assms(5) gap [of b] show ?thesis by (auto split: if_splits)
  next
    case False
    with that have a: "k a \<noteq> NULL" "H (k a) \<le> b" "a < e \<or> e < b" by (auto split: if_splits)
    with cl_invD(5) [OF inv that(1) a(1,2) that(4)] have "k b \<noteq> NULL" by auto
    with a(3) that(4) assms(3) show ?thesis by auto
  qed
qed

lemma cl_live_clear:
  assumes "v e = NULL"
  shows "cl_live N (k(e := NULL)) (v(e := NULL)) = cl_live N k v"
  using assms by (intro ext) (auto simp: cl_live_def)

lemma cl_live_move:
  assumes "k j = NULL" and "j < e" and "e < N"
  shows "cl_live N (k(j := k e, e := NULL)) (v(j := v e, e := NULL)) = cl_live N k v"
proof (intro ext iffI)
  fix x y
  assume "cl_live N (k(j := k e, e := NULL)) (v(j := v e, e := NULL)) x y"
  then show "cl_live N k v x y" using assms by (auto simp: cl_live_def split: if_splits)
next
  fix x y
  assume "cl_live N k v x y"
  then obtain a where "a < N" "k a = x" "v a = y" "x \<noteq> NULL" "y \<noteq> NULL" by (auto simp: cl_live_def)
  with assms show "cl_live N (k(j := k e, e := NULL)) (v(j := v e, e := NULL)) x y"
    unfolding cl_live_def by (cases "a = e") (fastforce intro: exI [of _ j] exI [of _ a])+
qed

text \<open>The table seen from slot \<open>s\<close>.\<close>

definition rot_keys :: "nat \<Rightarrow> vsimpleht_t \<Rightarrow> nat \<Rightarrow> ptr" where
  "rot_keys s tbl a = (if a < ht_size tbl then ht_keys tbl ((s + a) mod ht_size tbl) else NULL)"

definition rot_vals :: "nat \<Rightarrow> vsimpleht_t \<Rightarrow> nat \<Rightarrow> ptr" where
  "rot_vals s tbl a = (if a < ht_size tbl then ht_vals tbl ((s + a) mod ht_size tbl) else NULL)"

definition rot_home :: "hash_key \<Rightarrow> nat \<Rightarrow> vsimpleht_t \<Rightarrow> ptr \<Rightarrow> nat" where
  "rot_home hash s tbl k = (ht_home hash tbl k + (ht_size tbl - s)) mod ht_size tbl"

abbreviation cl_tbl :: "hash_key \<Rightarrow> nat \<Rightarrow> nat \<Rightarrow> vsimpleht_t \<Rightarrow> bool" where
  "cl_tbl hash s e tbl \<equiv> ht_shape tbl \<and> s < ht_size tbl \<and>
     cl_inv (ht_size tbl) (rot_home hash s tbl) e (rot_keys s tbl) (rot_vals s tbl)"

lemma rot_mod: "s < N \<Longrightarrow> a < N \<Longrightarrow> (s + a) mod N = (if s + a < N then s + a else s + a - (N::nat))"
  by (simp add: le_mod_geq)

lemma rot_inj: "s < N \<Longrightarrow> a < N \<Longrightarrow> b < N \<Longrightarrow> (s + a) mod N = (s + b) mod N \<Longrightarrow> a = (b::nat)"
  by (simp add: rot_mod split: if_splits)

lemma rot_upd:
  assumes "s < N" and "j < (N::nat)"
  shows "(\<lambda>a. if a < N then (f((s + j) mod N := x)) ((s + a) mod N) else z) = (\<lambda>a. if a < N then f ((s + a) mod N) else z)(j := x)"
proof
  fix a
  show "(if a < N then (f((s + j) mod N := x)) ((s + a) mod N) else z) = ((\<lambda>a. if a < N then f ((s + a) mod N) else z)(j := x)) a"
    using rot_inj [OF assms(1) _ assms(2), of a] assms(2) by (cases "a = j") (simp, force)
qed

lemma rot_home_slot: "ht_shape tbl \<Longrightarrow> s < ht_size tbl \<Longrightarrow> (s + rot_home hash s tbl k) mod ht_size tbl = ht_home hash tbl k"
  using ht_home_lt [of tbl hash k] by (simp add: rot_home_def mod_add_right_eq)

lemma rot_home_lt: "ht_shape tbl \<Longrightarrow> rot_home hash s tbl k < ht_size tbl"
  using ht_shape_pos by (simp add: rot_home_def)

lemma rot_put:
  assumes "ht_shape tbl" and "s < ht_size tbl" and "j < ht_size tbl"
  shows "rot_keys s (ht_put ((s + j) mod ht_size tbl) x y tbl) = (rot_keys s tbl)(j := x)"
    and "rot_vals s (ht_put ((s + j) mod ht_size tbl) x y tbl) = (rot_vals s tbl)(j := y)"
proof -
  have p: "(s + j) mod ht_size tbl < ht_size tbl" using assms(2) by simp
  note rot = rot_upd [OF assms(2,3), where z = NULL]
  show "rot_keys s (ht_put ((s + j) mod ht_size tbl) x y tbl) = (rot_keys s tbl)(j := x)"
    using rot [of "ht_keys tbl" x] unfolding rot_keys_def [abs_def] ht_put_simps ht_put_keys [OF assms(1) p] .
  show "rot_vals s (ht_put ((s + j) mod ht_size tbl) x y tbl) = (rot_vals s tbl)(j := y)"
    using rot [of "ht_vals tbl" y] unfolding rot_vals_def [abs_def] ht_put_simps ht_put_keys [OF assms(1) p] .
qed

lemma rot_home_put [simp]: "rot_home hash s (ht_put p x y tbl) = rot_home hash s tbl"
  by (simp add: rot_home_def fun_eq_iff)

lemma rot_slot: "s < N \<Longrightarrow> i < (N::nat) \<Longrightarrow> \<exists>a < N. i = (s + a) mod N"
  by (metis slot_offset)

lemma cl_map:
  assumes "cl_tbl hash s e tbl"
  shows "ht_map tbl x = Some y \<longleftrightarrow> cl_live (ht_size tbl) (rot_keys s tbl) (rot_vals s tbl) x y"
proof -
  let ?N = "ht_size tbl"
  have "i = j" if ij: "i < ?N" "j < ?N" "ht_keys tbl i = ht_keys tbl j" "ht_keys tbl j \<noteq> NULL" for i j
  proof -
    from assms have s: "s < ?N" by simp
    obtain a b where ab: "a < ?N" "i = (s + a) mod ?N" "b < ?N" "j = (s + b) mod ?N"
      using rot_slot [OF s ij(1)] rot_slot [OF s ij(2)] by blast
    then have "a = b"
      using cl_invD(2) [of ?N "rot_home hash s tbl" e "rot_keys s tbl" "rot_vals s tbl" a b] assms ij(3,4)
      by (simp add: rot_keys_def)
    with ab show ?thesis by simp
  qed
  then have "ht_map tbl x = Some y \<longleftrightarrow> x \<noteq> NULL \<and> y \<noteq> NULL \<and> (\<exists>i < ?N. ht_keys tbl i = x \<and> ht_vals tbl i = y)"
    by (rule ht_map_inj)
  moreover have "(\<exists>i < ?N. ht_keys tbl i = x \<and> ht_vals tbl i = y) \<longleftrightarrow>
    (\<exists>a < ?N. rot_keys s tbl a = x \<and> rot_vals s tbl a = y)" (is "?L \<longleftrightarrow> ?R")
  proof
    assume ?L
    then obtain i where i: "i < ?N" "ht_keys tbl i = x" "ht_vals tbl i = y" by blast
    with rot_slot [of s ?N i] assms obtain a where "a < ?N" "i = (s + a) mod ?N" by blast
    with i show ?R by (auto simp: rot_keys_def rot_vals_def intro!: exI [of _ a])
  next
    assume ?R
    then obtain a where "a < ?N" "rot_keys s tbl a = x" "rot_vals s tbl a = y" by blast
    then show ?L using assms by (auto simp: rot_keys_def rot_vals_def intro!: exI [of _ "(s + a) mod ?N"])
  qed
  ultimately show ?thesis by (simp add: cl_live_def)
qed

lemma cl_tbl_start:
  assumes wf: "ht_wf hash tbl" and s: "s < ht_size tbl" and free: "ht_keys tbl s = NULL"
  shows "cl_tbl hash s 0 tbl"
proof (intro conjI)
  let ?N = "ht_size tbl" and ?k = "rot_keys s tbl" and ?v = "rot_vals s tbl" and ?H = "rot_home hash s tbl"
  note sh = ht_wf_shape [OF wf]
  have path: "0 < ?H (?k a) \<and> ?H (?k a) \<le> a \<and> (\<forall>b. ?H (?k a) \<le> b \<and> b < a \<longrightarrow> ?k b \<noteq> NULL)"
    if a: "a < ?N" "?k a \<noteq> NULL" for a
  proof -
    have "find_slot ?N (ht_keys tbl) (?k a) ?N (ht_home hash tbl (?k a)) = Some ((s + a) mod ?N)"
      using ht_wf_find [OF wf, of "(s + a) mod ?N"] a s by (simp add: rot_keys_def)
    then obtain d where d: "d < ?N" "(s + a) mod ?N = (ht_home hash tbl (?k a) + d) mod ?N"
      "\<And>d'. d' < d \<Longrightarrow> ht_keys tbl ((ht_home hash tbl (?k a) + d') mod ?N) \<notin> {NULL, ?k a}"
      using ht_home_lt [OF sh] by (elim find_slot_Some) blast+
    have slot: "(ht_home hash tbl (?k a) + d') mod ?N = (s + (?H (?k a) + d')) mod ?N" for d'
      using rot_home_slot [OF sh s, of hash "?k a"] by (metis add.assoc mod_add_left_eq)
    have "a \<noteq> 0" using a s free by (intro notI) (simp add: rot_keys_def)
    have nowrap: "?H (?k a) + d < ?N"
    proof (rule ccontr)
      assume "\<not> ?thesis"
      then have le: "?N - ?H (?k a) \<le> d" by simp
      have at: "(ht_home hash tbl (?k a) + (?N - ?H (?k a))) mod ?N = s"
        using slot [of "?N - ?H (?k a)"] rot_home_lt [OF sh, of hash s "?k a"] s by simp
      show False
      proof (cases "?N - ?H (?k a) < d")
        case True
        with d(3) [OF True] at free show False by simp
      next
        case False
        with le have "(s + a) mod ?N = s" using at d(2) by simp
        with a s free show False by (simp add: rot_keys_def)
      qed
    qed
    have "a = ?H (?k a) + d"
      using rot_inj [OF s a(1) nowrap] d(2) slot [of d] by simp
    moreover have "?k (?H (?k a) + d') \<noteq> NULL" if "d' < d" for d'
      using d(3) [OF that] slot [of d'] nowrap that by (auto simp: rot_keys_def)
    moreover have "?H (?k a) \<noteq> 0"
    proof
      assume H: "?H (?k a) = 0"
      with calculation(1) \<open>a \<noteq> 0\<close> have "0 < d" by simp
      with calculation(2) [of 0] H free s show False by (simp add: rot_keys_def)
    qed
    ultimately show ?thesis by (metis le_add1 le_iff_add nat_add_left_cancel_less neq0_conv)
  qed
  show "cl_inv ?N ?H 0 ?k ?v"
  proof (rule cl_invI)
    show "a = b" if "a < ?N" "b < ?N" "?k a = ?k b" "?k b \<noteq> NULL" for a b
      using ht_wf_inj [OF wf, of "(s + a) mod ?N" "(s + b) mod ?N"] rot_inj [OF s that(1,2)] that s
      by (simp add: rot_keys_def)
    show "?v a = NULL" if "a < ?N" "?k a = NULL" for a
      using wf that s by (auto simp: ht_wf_def rot_keys_def rot_vals_def)
  qed (use path in auto)
qed (use ht_wf_shape [OF wf] s in auto)

text \<open>From the home of an entry, the search stops at the first gap or at the entry itself.\<close>

lemma cl_find:
  assumes cl: "cl_tbl hash s e tbl" and a: "a < ht_size tbl" "rot_keys s tbl a \<noteq> NULL"
    and j: "rot_home hash s tbl (rot_keys s tbl a) \<le> j" "j \<le> a" "rot_keys s tbl j = NULL \<or> j = a"
    and gap: "\<And>b. rot_home hash s tbl (rot_keys s tbl a) \<le> b \<Longrightarrow> b < j \<Longrightarrow> rot_keys s tbl b \<noteq> NULL"
  shows "find_slot (ht_size tbl) (ht_keys tbl) (rot_keys s tbl a) (ht_size tbl) (ht_home hash tbl (rot_keys s tbl a)) =
    Some ((s + j) mod ht_size tbl)"
proof -
  let ?N = "ht_size tbl" and ?k = "rot_keys s tbl a"
  let ?H = "rot_home hash s tbl ?k"
  from cl have sh: "ht_shape tbl" and s: "s < ?N" by simp_all
  have slot: "(ht_home hash tbl ?k + d) mod ?N = (s + (?H + d)) mod ?N" for d
    using rot_home_slot [OF sh s, of hash ?k] by (metis add.assoc mod_add_left_eq)
  have at: "ht_keys tbl ((ht_home hash tbl ?k + d) mod ?N) = rot_keys s tbl (?H + d)" if "?H + d \<le> a" for d
    using that a(1) unfolding slot by (simp add: rot_keys_def [of s tbl "?H + d"])
  have "find_slot ?N (ht_keys tbl) ?k ?N (ht_home hash tbl ?k) = Some ((ht_home hash tbl ?k + (j - ?H)) mod ?N)"
  proof (rule find_slot_offset)
    show "\<forall>d < j - ?H. ht_keys tbl ((ht_home hash tbl ?k + d) mod ?N) \<notin> {NULL, ?k}"
    proof (intro allI impI)
      fix d assume "d < j - ?H"
      then have d: "?H + d < j" by simp
      then have "rot_keys s tbl (?H + d) \<noteq> ?k"
        using cl_invD(2) [of ?N "rot_home hash s tbl" e "rot_keys s tbl" "rot_vals s tbl" "?H + d" a] cl a j(2) by auto
      with gap [of "?H + d"] at [of d] d j(2) show "ht_keys tbl ((ht_home hash tbl ?k + d) mod ?N) \<notin> {NULL, ?k}"
        by simp
    qed
    show "ht_keys tbl ((ht_home hash tbl ?k + (j - ?H)) mod ?N) \<in> {NULL, ?k}"
      using at [of "j - ?H"] j by auto
  qed (use ht_home_lt [OF sh] j(2) a(1) in auto)
  then show ?thesis using slot [of "j - ?H"] j(1) by simp
qed

lemma cl_tbl_end:
  assumes cl: "cl_tbl hash s (ht_size tbl) tbl"
  shows "ht_wf hash tbl" and "\<And>i. i < ht_size tbl \<Longrightarrow> ht_keys tbl i \<noteq> NULL \<Longrightarrow> ht_vals tbl i \<noteq> NULL"
proof -
  let ?N = "ht_size tbl"
  from cl have sh: "ht_shape tbl" and s: "s < ?N"
    and inv: "cl_inv ?N (rot_home hash s tbl) ?N (rot_keys s tbl) (rot_vals s tbl)" by simp_all
  show live: "ht_vals tbl i \<noteq> NULL" if i: "i < ?N" "ht_keys tbl i \<noteq> NULL" for i
  proof -
    obtain a where "a < ?N" "i = (s + a) mod ?N" using rot_slot [OF s i(1)] by blast
    then show ?thesis using cl_invD(4) [OF inv, of a] i(2) by (simp add: rot_keys_def rot_vals_def)
  qed
  have "if ht_keys tbl i = NULL then ht_vals tbl i = NULL
        else find_slot ?N (ht_keys tbl) (ht_keys tbl i) ?N (ht_home hash tbl (ht_keys tbl i)) = Some i"
    if i: "i < ?N" for i
  proof -
    obtain a where a: "a < ?N" "i = (s + a) mod ?N" using rot_slot [OF s i] by blast
    then have k: "rot_keys s tbl a = ht_keys tbl i" "rot_vals s tbl a = ht_vals tbl i"
      by (simp_all add: rot_keys_def rot_vals_def)
    show ?thesis
    proof (cases "ht_keys tbl i = NULL")
      case True
      then show ?thesis using cl_invD(1) [OF inv a(1)] k by simp
    next
      case False
      then show ?thesis
        using cl_find [OF cl a(1), of a] cl_invD(3,5) [OF inv a(1)] a k by simp
    qed
  qed
  with sh show "ht_wf hash tbl" by (simp add: ht_wf_def)
qed

lemma cleanup_index:
  assumes "ht_shape tbl" and "s < ht_size tbl"
  shows "unat ((of_nat e + of_nat s) AND (ht_capacity tbl - 1)) = (s + e) mod ht_size tbl"
proof -
  have "ht_size tbl dvd 2 ^ 64" using pow2_unat [of "ht_capacity tbl"] assms(1) by (simp add: ht_shape_def ht_size_def)
  moreover have "of_nat e + of_nat s = (of_nat (s + e) :: vsize)" by simp
  ultimately show ?thesis
    by (simp add: ht_mask [OF assms(1)] unsigned_of_nat take_bit_eq_mod mod_mod_cancel del: of_nat_add)
qed

lemma add_internal_find:
  assumes "cmp_key_ok cmp" and "ht_shape tbl" and "key \<noteq> NULL" and "val \<noteq> NULL"
  shows "vsimpleht_add_internal cmp hash tbl key val =
    Inr (add_result key val tbl (find_slot (ht_size tbl) (ht_keys tbl) key (ht_size tbl) (ht_home hash tbl key)))"
  using add_loop_find [OF assms(1-3)] assms(3,4)
  by (simp add: vsimpleht_add_internal_def ht_size_def ht_home_def)

lemma cl_tbl_put:
  assumes "cl_tbl hash s e tbl" and "j < ht_size tbl"
    and "cl_inv (ht_size tbl) (rot_home hash s tbl) e' ((rot_keys s tbl)(j := x)) ((rot_vals s tbl)(j := y))"
  shows "cl_tbl hash s e' (ht_put ((s + j) mod ht_size tbl) x y tbl)"
  using assms by (simp add: rot_put)

abbreviation cl_same :: "nat \<Rightarrow> vsimpleht_t \<Rightarrow> vsimpleht_t \<Rightarrow> bool" where
  "cl_same s tbl tbl' \<equiv> tbl' = tbl\<lparr>ht_entries := ht_entries tbl'\<rparr> \<and>
     cl_live (ht_size tbl) (rot_keys s tbl') (rot_vals s tbl') = cl_live (ht_size tbl) (rot_keys s tbl) (rot_vals s tbl)"

lemma cleanup_move_live:
  assumes cmp: "cmp_key_ok cmp" and cl: "cl_tbl hash s e tbl" and e: "e < ht_size tbl"
    and k: "rot_keys s tbl e \<noteq> NULL" and v: "rot_vals s tbl e \<noteq> NULL"
  shows "\<exists>tbl'. cleanup_move cmp hash (e # es) (of_nat s) tbl = cleanup_move cmp hash es (of_nat s) tbl' \<and>
    cl_tbl hash s (Suc e) tbl' \<and> cl_same s tbl tbl'"
proof -
  let ?N = "ht_size tbl" and ?k = "rot_keys s tbl" and ?v = "rot_vals s tbl"
  let ?H = "rot_home hash s tbl (?k e)" and ?i = "(s + e) mod ht_size tbl"
  from cl have sh: "ht_shape tbl" and s: "s < ?N" and inv: "cl_inv ?N (rot_home hash s tbl) e ?k ?v" by simp_all
  have i: "?i < length (ht_entries tbl)" using ht_slot_lt [OF sh] .
  have en: "ht_entries tbl ! ?i = \<lparr>ht_key = ?k e, ht_value = ?v e\<rparr>"
    using e by (simp add: ht_entry_id rot_keys_def rot_vals_def)
  define j where "j = (LEAST j. ?H \<le> j \<and> (?k j = NULL \<or> j = e))"
  have "?H \<le> e \<and> (?k e = NULL \<or> e = e)" using cl_invD(3) [OF inv e k] by simp
  then have j: "?H \<le> j \<and> (?k j = NULL \<or> j = e)" "j \<le> e"
    unfolding j_def by (rule LeastI, rule Least_le)
  have gap: "?k b \<noteq> NULL" if "?H \<le> b" "b < j" for b
    using that not_less_Least [of b "\<lambda>j. ?H \<le> j \<and> (?k j = NULL \<or> j = e)"] unfolding j_def by blast
  have add: "vsimpleht_add_internal cmp hash tbl (?k e) (?v e) = Inr (add_result (?k e) (?v e) tbl (Some ((s + j) mod ?N)))"
    using add_internal_find [OF cmp sh k v] cl_find [OF cl e k _ j(2) _ gap] j(1) by simp
  show ?thesis
  proof (cases "j = e")
    case True
    have "ht_vals tbl ?i = ?v e" "ht_keys tbl ?i = ?k e" using e by (simp_all add: rot_vals_def rot_keys_def)
    with True have "add_result (?k e) (?v e) tbl (Some ((s + j) mod ?N)) = (VSIMPLEHT_RET_KEY_EXISTS, tbl)"
      using v ht_put_same [of ?i tbl] by (simp add: add_result_def)
    then have "cleanup_move cmp hash (e # es) (of_nat s) tbl = cleanup_move cmp hash es (of_nat s) tbl"
      using add i k v by (simp add: Let_def cleanup_index [OF sh s] en)
    moreover have "cl_tbl hash s (Suc e) tbl"
      using sh s cl_inv_stay [OF inv v gap] True by simp
    ultimately show ?thesis by auto
  next
    case False
    with j have jf: "j < e" "?k j = NULL" by auto
    then have "?v j = NULL" using cl_invD(1) [OF inv, of j] e by simp
    then have "ht_vals tbl ((s + j) mod ?N) = NULL" using jf(1) e by (simp add: rot_vals_def)
    then have res: "add_result (?k e) (?v e) tbl (Some ((s + j) mod ?N)) =
      (VSIMPLEHT_RET_OK, ht_put ((s + j) mod ?N) (?k e) (?v e) tbl)" by (simp add: add_result_def)
    let ?t = "ht_put ((s + j) mod ?N) (?k e) (?v e) tbl"
    have "cleanup_move cmp hash (e # es) (of_nat s) tbl = cleanup_move cmp hash es (of_nat s) (ht_put ?i NULL NULL ?t)"
      using add i k v by (simp add: Let_def cleanup_index [OF sh s] en res) (simp add: ht_put_def)
    moreover have rot: "rot_keys s (ht_put ?i NULL NULL ?t) = ?k(j := ?k e, e := NULL)"
      "rot_vals s (ht_put ?i NULL NULL ?t) = ?v(j := ?v e, e := NULL)"
      using rot_put [of ?t s e NULL NULL] rot_put [OF sh s, of j "?k e" "?v e"] sh s e jf(1) by simp_all
    moreover have "cl_tbl hash s (Suc e) (ht_put ?i NULL NULL ?t)"
      using sh s cl_inv_move [OF inv e k v jf(1) _ jf(2) gap] j(1) rot by simp
    moreover have "cl_same s tbl (ht_put ?i NULL NULL ?t)"
      unfolding rot cl_live_move [of ?k j e ?N ?v, OF jf(2,1) e] by (simp add: ht_put_def)
    ultimately show ?thesis by blast
  qed
qed

lemma cleanup_move_step:
  assumes cmp: "cmp_key_ok cmp" and cl: "cl_tbl hash s e tbl" and e: "e < ht_size tbl"
  shows "\<exists>tbl'. cleanup_move cmp hash (e # es) (of_nat s) tbl = cleanup_move cmp hash es (of_nat s) tbl' \<and>
    cl_tbl hash s (Suc e) tbl' \<and> cl_same s tbl tbl'"
proof -
  let ?N = "ht_size tbl" and ?k = "rot_keys s tbl" and ?v = "rot_vals s tbl"
  let ?i = "(s + e) mod ht_size tbl"
  from cl have sh: "ht_shape tbl" and s: "s < ?N" and inv: "cl_inv ?N (rot_home hash s tbl) e ?k ?v" by simp_all
  have i: "?i < length (ht_entries tbl)" using ht_slot_lt [OF sh] .
  have en: "ht_entries tbl ! ?i = \<lparr>ht_key = ?k e, ht_value = ?v e\<rparr>"
    using e by (simp add: ht_entry_id rot_keys_def rot_vals_def)
  consider (empty) "?k e = NULL" | (dead) "?k e \<noteq> NULL" "?v e = NULL" | (live) "?k e \<noteq> NULL" "?v e \<noteq> NULL" by blast
  then show ?thesis
  proof cases
    case empty
    then have "cleanup_move cmp hash (e # es) (of_nat s) tbl = cleanup_move cmp hash es (of_nat s) tbl"
      using i by (simp add: Let_def cleanup_index [OF sh s] en)
    moreover have "cl_tbl hash s (Suc e) tbl" using sh s cl_inv_stay [OF inv] empty by simp
    ultimately show ?thesis by auto
  next
    case dead
    then have "cleanup_move cmp hash (e # es) (of_nat s) tbl = cleanup_move cmp hash es (of_nat s) (ht_put ?i NULL NULL tbl)"
      using i by (simp add: Let_def cleanup_index [OF sh s] en) (simp add: ht_put_def)
    moreover have "cl_tbl hash s (Suc e) (ht_put ?i NULL NULL tbl)"
      using cl_tbl_put [OF cl e] cl_inv_clear [OF inv] by blast
    moreover have "cl_same s tbl (ht_put ?i NULL NULL tbl)"
      unfolding rot_put [OF sh s e] cl_live_clear [of ?v e ?N ?k, OF dead(2)] by (simp add: ht_put_def)
    ultimately show ?thesis by blast
  next
    case live
    with assms show ?thesis by (rule cleanup_move_live)
  qed
qed

lemma cleanup_move_all:
  assumes "cmp_key_ok cmp" and "cl_tbl hash s e tbl" and "e \<le> ht_size tbl"
  shows "\<exists>tbl'. cleanup_move cmp hash [e..<ht_size tbl] (of_nat s) tbl = Inr tbl' \<and>
    cl_tbl hash s (ht_size tbl) tbl' \<and> cl_same s tbl tbl'"
  using assms(2,3)
proof (induction "ht_size tbl - e" arbitrary: e tbl)
  case (Suc n)
  then have e: "e < ht_size tbl" by simp
  from cleanup_move_step [OF assms(1) Suc.prems(1) e, of "[Suc e..<ht_size tbl]"] obtain t where
    t: "cleanup_move cmp hash (e # [Suc e..<ht_size tbl]) (of_nat s) tbl = cleanup_move cmp hash [Suc e..<ht_size tbl] (of_nat s) t"
      "cl_tbl hash s (Suc e) t" "cl_same s tbl t" by blast
  have sz: "ht_size t = ht_size tbl"
    using t(3) by (metis ht_size_def vsimpleht_t.select_convs(1) vsimpleht_t.surjective vsimpleht_t.update_convs(2))
  have "n = ht_size t - Suc e" "Suc e \<le> ht_size t" using Suc.hyps(2) e sz by simp_all
  from Suc.hyps(1) [OF this(1) t(2) this(2)] obtain t' where
    t': "cleanup_move cmp hash [Suc e..<ht_size tbl] (of_nat s) t = Inr t'" "cl_tbl hash s (ht_size tbl) t'" "cl_same s t t'"
    unfolding sz by blast
  have "cl_same s tbl t'"
  proof
    show "t' = tbl\<lparr>ht_entries := ht_entries t'\<rparr>"
      using t(3) t'(3) by (metis vsimpleht_t.surjective vsimpleht_t.update_convs(2))
  qed (use t(3) t'(3) sz in simp)
  with t t' e show ?case by (metis upt_conv_Cons)
qed auto

lemma cleanup_start_free:
  assumes "e < unat (ht_capacity tbl)" and "unat (ht_capacity tbl) \<le> length (ht_entries tbl)"
    and "ht_keys tbl i = NULL" and "e \<le> i" and "i < unat (ht_capacity tbl)"
  shows "\<exists>s. cleanup_start [e..<unat (ht_capacity tbl)] tbl d = Inr (of_nat s) \<and> s < unat (ht_capacity tbl) \<and> ht_keys tbl s = NULL"
  using assms(1,4)
proof (induction "unat (ht_capacity tbl) - e" arbitrary: e)
  case (Suc n)
  then have "[e..<unat (ht_capacity tbl)] = e # [Suc e..<unat (ht_capacity tbl)]" by (simp add: upt_conv_Cons)
  moreover have "e \<noteq> i \<Longrightarrow> Suc e < unat (ht_capacity tbl)" using Suc.prems assms(5) by simp
  ultimately show ?case
    using Suc.hyps(1) [of "Suc e"] Suc.hyps(2) Suc.prems assms(2,3)
    by (cases "e = i") (auto simp: ht_keys_def)
qed simp

text \<open>The table between the write acquire and the write release of a cleanup with a free slot.\<close>

lemma cleanup_moves:
  assumes "cmp_key_ok cmp" and wf: "ht_wf hash tbl" and free: "\<not> ht_full tbl"
  obtains s tbl' where "cleanup_start [0..<ht_size tbl] tbl (ht_capacity tbl - 1) = Inr s"
    and "cleanup_move cmp hash [0..<ht_size tbl] s tbl = Inr tbl'"
    and "tbl' = tbl\<lparr>ht_entries := ht_entries tbl'\<rparr>" and "ht_wf hash tbl'" and "ht_map tbl' = ht_map tbl"
    and "\<And>i. i < ht_size tbl \<Longrightarrow> ht_keys tbl' i \<noteq> NULL \<Longrightarrow> ht_vals tbl' i \<noteq> NULL"
proof -
  note sh = ht_wf_shape [OF wf]
  from free obtain i where i: "i < ht_size tbl" "ht_keys tbl i = NULL" by (auto simp: ht_full_def)
  have le: "unat (ht_capacity tbl) \<le> length (ht_entries tbl)" using sh by (simp add: ht_shape_def ht_size_def)
  from cleanup_start_free [OF _ le i(2), of 0 "ht_capacity tbl - 1"] i(1) ht_shape_pos [OF sh] obtain s where
    s: "cleanup_start [0..<ht_size tbl] tbl (ht_capacity tbl - 1) = Inr (of_nat s)" "s < ht_size tbl" "ht_keys tbl s = NULL"
    unfolding ht_size_def by blast
  have cl0: "cl_tbl hash s 0 tbl" using cl_tbl_start [OF wf s(2,3)] .
  from cleanup_move_all [OF assms(1) cl0] obtain tbl' where
    m: "cleanup_move cmp hash [0..<ht_size tbl] (of_nat s) tbl = Inr tbl'" "cl_tbl hash s (ht_size tbl) tbl'" "cl_same s tbl tbl'"
    by auto
  have sz: "ht_size tbl' = ht_size tbl"
    using m(3) by (metis ht_size_def vsimpleht_t.select_convs(1) vsimpleht_t.surjective vsimpleht_t.update_convs(2))
  have fin: "cl_tbl hash s (ht_size tbl') tbl'" using m(2) sz by simp
  have "ht_map tbl' x = Some y \<longleftrightarrow> ht_map tbl x = Some y" for x y
    unfolding cl_map [OF fin] cl_map [OF cl0] using m(3) sz by simp
  then have "ht_map tbl' = ht_map tbl" by (intro ext) (metis not_None_eq)
  with that [OF s(1) m(1)] m(3) cl_tbl_end [OF fin] sz show thesis by simp
qed

section \<open>What the operations promise\<close>

lemma ht_fields_cong:
  assumes "ht_capacity t = ht_capacity tbl" and "ht_entries t = ht_entries tbl"
  shows "ht_wf hash t = ht_wf hash tbl" and "ht_map t = ht_map tbl" and "ht_full t = ht_full tbl"
    and "ht_size t = ht_size tbl" and "ht_keys t = ht_keys tbl" and "ht_vals t = ht_vals tbl"
proof -
  show sz: "ht_size t = ht_size tbl" using assms(1) by (simp add: ht_size_def)
  show K: "ht_keys t = ht_keys tbl" using assms(2) by (simp add: ht_keys_def fun_eq_iff)
  show V: "ht_vals t = ht_vals tbl" using assms(2) by (simp add: ht_vals_def fun_eq_iff)
  show "ht_wf hash t = ht_wf hash tbl" "ht_map t = ht_map tbl" "ht_full t = ht_full tbl"
    by (simp_all add: ht_wf_def ht_shape_def ht_home_def sz K V assms ht_map_def ht_full_def)
qed

lemma ht_full_find:
  assumes "ht_wf hash tbl" and "k \<noteq> NULL"
  shows "find_slot (ht_size tbl) (ht_keys tbl) k (ht_size tbl) (ht_home hash tbl k) = None \<longleftrightarrow>
    ht_full tbl \<and> \<not> ht_has_key tbl k"
  using find_slot_None_iff [OF ht_home_lt [OF ht_wf_shape [OF assms(1)]]]
  by (auto simp: ht_full_def ht_has_key_def)

text \<open>
  \<open>cleanup_effect\<close>: the lock is free before and after, the map is the same, the value is
  destroyed.
\<close>

definition cleanup_effect :: "hash_key \<Rightarrow> ptr \<Rightarrow> vsimpleht_t \<Rightarrow> vsimpleht_t \<Rightarrow> bool" where
  "cleanup_effect hash val tbl tbl' \<longleftrightarrow> ht_wf hash tbl' \<and> ht_size tbl' = ht_size tbl \<and> ht_map tbl' = ht_map tbl \<and> ht_lock tbl' = ht_lock tbl \<and>
     ht_destroyed tbl' = ht_destroyed tbl @ [val] \<and>
     (if deleted_count tbl < cleaning_threshold tbl then ht_entries tbl' = ht_entries tbl \<and> deleted_count tbl' = deleted_count tbl
      else deleted_count tbl' = 0 \<and> (\<forall>i < ht_size tbl. ht_keys tbl' i \<noteq> NULL \<longrightarrow> ht_vals tbl' i \<noteq> NULL))"

lemma cleanup_ok:
  assumes cmp: "cmp_key_ok cmp" and wf: "ht_wf hash tbl" and free: "\<not> ht_full tbl" and lock: "ht_lock tbl = rwlock_init"
  shows "\<exists>tbl'. vsimpleht_cleanup cmp hash tbl val = Inr tbl' \<and> cleanup_effect hash val tbl tbl'"
proof (cases "deleted_count tbl < cleaning_threshold tbl")
  case True
  let ?r = "tbl\<lparr>ht_destroyed := ht_destroyed tbl @ [val], ht_lock := rwlock_init\<rparr>"
  have "vsimpleht_cleanup cmp hash tbl val = Inr ?r"
    using True lock by (simp add: vsimpleht_cleanup_def write_acquire_one write_release_one)
  moreover have "cleanup_effect hash val tbl ?r"
    using True wf lock ht_fields_cong [of ?r tbl] by (simp add: cleanup_effect_def)
  ultimately show ?thesis by blast
next
  case False
  define t where "t = tbl\<lparr>ht_lock := rwlock_init\<lparr>rw_wb := 1, rw_rs := semaphore_init 0\<rparr>\<rparr>"
  have eq: "ht_wf hash t = ht_wf hash tbl" "ht_map t = ht_map tbl" "ht_full t = ht_full tbl" "ht_size t = ht_size tbl"
    by (rule ht_fields_cong; simp add: t_def)+
  from cleanup_moves [OF cmp, of hash t] wf free eq obtain s t' where
    m: "cleanup_start [0..<ht_size t] t (ht_capacity t - 1) = Inr s" "cleanup_move cmp hash [0..<ht_size t] s t = Inr t'"
      "t' = t\<lparr>ht_entries := ht_entries t'\<rparr>" "ht_wf hash t'" "ht_map t' = ht_map t"
      "\<And>i. i < ht_size t \<Longrightarrow> ht_keys t' i \<noteq> NULL \<Longrightarrow> ht_vals t' i \<noteq> NULL" by metis
  have fields: "ht_lock t' = ht_lock t" "ht_destroyed t' = ht_destroyed tbl" "ht_size t' = ht_size tbl"
    by (subst m(3), simp add: t_def ht_size_def)+
  let ?r = "t'\<lparr>deleted_count := 0, ht_destroyed := ht_destroyed tbl @ [val], ht_lock := rwlock_init\<rparr>"
  have "vsimpleht_cleanup cmp hash tbl val = Inr ?r"
    using False m(1,2) fields lock
    by (simp add: vsimpleht_cleanup_def write_acquire_one write_release_one flip: t_def)
       (simp add: ht_size_def write_release_one fields t_def)
  moreover have "cleanup_effect hash val tbl ?r"
    using False m(4-6) lock fields(3) ht_fields_cong [of ?r t'] by (simp add: cleanup_effect_def eq)
  ultimately show ?thesis by blast
qed

lemma trigger_cleanup_ok:
  assumes "cmp_key_ok cmp" and wf: "ht_wf hash tbl" and free: "\<not> ht_full tbl" and lock: "ht_lock tbl = one_reader"
  shows "\<exists>tbl'. vsimpleht_trigger_cleanup cmp hash tbl val = Inr tbl' \<and> cleanup_effect hash val tbl tbl'"
proof -
  let ?t = "tbl\<lparr>ht_lock := rwlock_init\<rparr>"
  have eq: "ht_wf hash ?t = ht_wf hash tbl" "ht_map ?t = ht_map tbl" "ht_full ?t = ht_full tbl" "ht_size ?t = ht_size tbl"
    by (rule ht_fields_cong; simp)+
  from cleanup_ok [OF assms(1), of hash ?t val] wf free eq obtain t' where
    t': "vsimpleht_cleanup cmp hash ?t val = Inr t'" "cleanup_effect hash val ?t t'" by auto
  let ?r = "t'\<lparr>ht_lock := one_reader\<rparr>"
  have "vsimpleht_trigger_cleanup cmp hash tbl val = Inr ?r"
    using t' lock by (simp add: vsimpleht_trigger_cleanup_def one_reader_observed read_release_one read_acquire_one cleanup_effect_def)
  moreover have "cleanup_effect hash val tbl ?r"
    using t'(2) lock ht_fields_cong [of ?r t'] eq by (simp add: cleanup_effect_def)
  ultimately show ?thesis by blast
qed

lemma ht_add_branches:
  assumes "cmp_key_ok cmp" and "ht_wf hash tbl" and "ht_lock tbl = one_reader" and "key \<noteq> NULL" and "val \<noteq> NULL"
  shows "\<exists>r tbl'. vsimpleht_add cmp hash tbl key val = Inr (r, tbl') \<and> ht_wf hash tbl' \<and> ht_lock tbl' = one_reader \<and>
    (if ht_full tbl \<and> \<not> ht_has_key tbl key then r = VSIMPLEHT_RET_TBL_FULL \<and> tbl' = tbl
     else if ht_map tbl key \<noteq> None then r = VSIMPLEHT_RET_KEY_EXISTS \<and> tbl' = tbl
     else r = VSIMPLEHT_RET_OK \<and> ht_map tbl' = (ht_map tbl)(key \<mapsto> val))"
proof -
  note wf = assms(2)
  let ?f = "find_slot (ht_size tbl) (ht_keys tbl) key (ht_size tbl) (ht_home hash tbl key)"
  have add: "vsimpleht_add cmp hash tbl key val = Inr (add_result key val tbl ?f)"
    using assms by (simp add: vsimpleht_add_def give_cleanup_one add_internal_find ht_wf_shape)
  note full = ht_full_find [OF wf assms(4)]
  note map = ht_map_find [OF wf assms(4)]
  show ?thesis
  proof (cases ?f)
    case None
    then have "ht_full tbl \<and> \<not> ht_has_key tbl key" using full by simp
    moreover have "vsimpleht_add cmp hash tbl key val = Inr (VSIMPLEHT_RET_TBL_FULL, tbl)"
      using None add by (simp add: add_result_def)
    ultimately show ?thesis using assms by simp
  next
    case (Some p)
    then have nf: "\<not> (ht_full tbl \<and> \<not> ht_has_key tbl key)" using full by simp
    note p = find_slot_keys [OF Some ht_home_lt [OF ht_wf_shape [OF wf]]]
    show ?thesis
    proof (cases "ht_vals tbl p = NULL")
      case True
      then have "vsimpleht_add cmp hash tbl key val = Inr (VSIMPLEHT_RET_OK, ht_put p key val tbl)" "ht_map tbl key = None"
        using Some add map by (simp_all add: add_result_def)
      then show ?thesis
        using nf ht_put_wf [OF wf assms(4) Some] ht_put_map [OF wf assms(4) Some] assms(3,5) by simp
    next
      case False
      then have "ht_keys tbl p = key" using p wf by (auto simp: ht_wf_def)
      then have "vsimpleht_add cmp hash tbl key val = Inr (VSIMPLEHT_RET_KEY_EXISTS, tbl)" "ht_map tbl key \<noteq> None"
        using False Some add map assms(4) ht_put_same [of p tbl] by (simp_all add: add_result_def)
      then show ?thesis using nf assms(2,3) by simp
    qed
  qed
qed

lemma ht_get_branches:
  assumes "cmp_key_ok cmp" and "ht_wf hash tbl" and "ht_lock tbl = one_reader" and "key \<noteq> NULL"
  shows "vsimpleht_get cmp hash tbl key =
    (if ht_full tbl \<and> \<not> ht_has_key tbl key then None
     else Some (Inr (case ht_map tbl key of None \<Rightarrow> NULL | Some v \<Rightarrow> v, tbl)))"
proof -
  let ?f = "find_slot (ht_size tbl) (ht_keys tbl) key (ht_size tbl) (ht_home hash tbl key)"
  have "vsimpleht_get cmp hash tbl key =
    (case ?f of None \<Rightarrow> None | Some p \<Rightarrow> Some (Inr (if ht_keys tbl p = NULL then NULL else ht_vals tbl p, tbl)))"
    using assms by (simp add: vsimpleht_get_def give_cleanup_one get_loop_find_iff ht_wf_shape split: option.split)
  then show ?thesis
    using ht_full_find [OF assms(2,4)] ht_map_find [OF assms(2,4)] by (cases ?f) auto
qed

lemma cleanup_effect_keys:
  assumes "cleanup_effect hash val tbl tbl'" and "ht_wf hash tbl" and "i < ht_size tbl"
  shows "\<exists>j < ht_size tbl. ht_keys tbl' i \<in> {NULL, ht_keys tbl j}"
proof (cases "ht_keys tbl' i = NULL \<or> ht_vals tbl' i = NULL")
  case True
  then have "ht_keys tbl' i = NULL \<or> ht_entries tbl' = ht_entries tbl"
    using assms(1,3) by (auto simp: cleanup_effect_def split: if_splits)
  then show ?thesis using assms(3) by (auto simp: ht_keys_def)
next
  case False
  then have "ht_map tbl' (ht_keys tbl' i) = Some (ht_vals tbl' i)"
    using assms(1,3) ht_map_Some [of hash tbl'] by (auto simp: cleanup_effect_def)
  then have "ht_map tbl (ht_keys tbl' i) = Some (ht_vals tbl' i)" using assms(1) by (simp add: cleanup_effect_def)
  then show ?thesis using ht_map_Some [OF assms(2)] by auto
qed

lemma ht_remove_branches:
  assumes "cmp_key_ok cmp" and "ht_wf hash tbl" and "ht_lock tbl = one_reader" and "key \<noteq> NULL" and "\<not> ht_full tbl"
  shows "\<exists>r tbl'. vsimpleht_remove cmp hash tbl key = Some (Inr (r, tbl')) \<and> ht_wf hash tbl' \<and> ht_lock tbl' = one_reader \<and>
    ht_size tbl' = ht_size tbl \<and> (\<forall>i < ht_size tbl. \<exists>j < ht_size tbl. ht_keys tbl' i \<in> {NULL, ht_keys tbl j}) \<and>
    (case ht_map tbl key of None \<Rightarrow> r = VSIMPLEHT_RET_KEY_DNE \<and> tbl' = tbl
     | Some v \<Rightarrow> r = VSIMPLEHT_RET_OK \<and> ht_map tbl' = (ht_map tbl)(key := None) \<and> ht_destroyed tbl' = ht_destroyed tbl @ [v])"
proof -
  note wf = assms(2)
  note sh = ht_wf_shape [OF wf]
  obtain p where p: "find_slot (ht_size tbl) (ht_keys tbl) key (ht_size tbl) (ht_home hash tbl key) = Some p"
    using ht_full_find [OF wf assms(4)] assms(5) by auto
  note pk = find_slot_keys [OF p ht_home_lt [OF sh]]
  note map = ht_map_find [OF wf assms(4)]
  have rem: "vsimpleht_remove cmp hash tbl key = Some (remove_result cmp hash tbl p)"
    using remove_loop_hit [OF assms(1) sh p] assms(3) by (simp add: vsimpleht_remove_def give_cleanup_one)
  show ?thesis
  proof (cases "ht_keys tbl p = NULL \<or> ht_vals tbl p = NULL")
    case True
    then show ?thesis using rem map p assms(2,3) by (auto simp: remove_result_def)
  next
    case False
    with pk have k: "ht_keys tbl p = key" by auto
    let ?u = "ht_put p key NULL tbl" and ?t = "(ht_put p key NULL tbl)\<lparr>deleted_count := deleted_count tbl + 1\<rparr>"
    have eq: "ht_wf hash ?t = ht_wf hash ?u" "ht_map ?t = ht_map ?u" "ht_full ?t = ht_full ?u"
      by (rule ht_fields_cong; simp)+
    have "\<not> ht_full ?u"
      using assms(5) k ht_put_keys(1) [OF sh, of p key NULL] pk by (auto simp: ht_full_def)
    with trigger_cleanup_ok [OF assms(1), of hash ?t "ht_vals tbl p"] eq ht_put_wf [OF wf assms(4) p] assms(3)
    obtain t' where t': "vsimpleht_trigger_cleanup cmp hash ?t (ht_vals tbl p) = Inr t'"
      "cleanup_effect hash (ht_vals tbl p) ?t t'" by auto
    then have "vsimpleht_remove cmp hash tbl key = Some (Inr (VSIMPLEHT_RET_OK, t'))"
      using rem False k by (simp add: remove_result_def)
    moreover have "ht_map tbl key = Some (ht_vals tbl p)" using map p False by simp
    moreover have "\<exists>j < ht_size tbl. ht_keys t' i \<in> {NULL, ht_keys tbl j}" if "i < ht_size tbl" for i
    proof -
      have "ht_size ?t = ht_size tbl" "ht_keys ?t = ht_keys tbl"
        using ht_fields_cong(4,5) [of ?t ?u] ht_put_keys(1) [OF sh, of p key NULL] pk k by (simp_all add: fun_eq_iff)
      then show ?thesis
        using cleanup_effect_keys [OF t'(2)] eq(1) ht_put_wf [OF wf assms(4) p] that by simp
    qed
    moreover have "ht_size t' = ht_size tbl" using t'(2) ht_fields_cong(4) [of ?t ?u] by (simp add: cleanup_effect_def)
    ultimately show ?thesis
      using t'(2) eq(2) ht_put_map [OF wf assms(4) p, of NULL] assms(3) by (simp add: cleanup_effect_def)
  qed
qed

section \<open>A client of the table\<close>

text \<open>
  A client that uses fewer keys than the table has slots never fills it. For such a client the
  table is a map.
\<close>

definition ht_client :: "cmp_key \<Rightarrow> hash_key \<Rightarrow> ptr set \<Rightarrow> vsimpleht_t \<Rightarrow> bool" where
  "ht_client cmp hash U tbl \<longleftrightarrow> cmp_key_ok cmp \<and> ht_wf hash tbl \<and> ht_lock tbl = one_reader \<and> finite U \<and> card U < ht_size tbl \<and>
     (\<forall>i < ht_size tbl. ht_keys tbl i \<in> insert NULL U)"

definition ht_op_add :: "cmp_key \<Rightarrow> hash_key \<Rightarrow> vsimpleht_t \<Rightarrow> ptr \<Rightarrow> ptr \<Rightarrow> (bool \<times> vsimpleht_t) option" where
  "ht_op_add cmp hash tbl k v = (case vsimpleht_add cmp hash tbl k v of
     Inr (VSIMPLEHT_RET_OK, t) \<Rightarrow> Some (True, t) | Inr (VSIMPLEHT_RET_KEY_EXISTS, t) \<Rightarrow> Some (False, t) | _ \<Rightarrow> None)"

definition ht_op_get :: "cmp_key \<Rightarrow> hash_key \<Rightarrow> vsimpleht_t \<Rightarrow> ptr \<Rightarrow> (ptr option \<times> vsimpleht_t) option" where
  "ht_op_get cmp hash tbl k = (case vsimpleht_get cmp hash tbl k of
     Some (Inr (v, t)) \<Rightarrow> Some (if v = NULL then None else Some v, t) | _ \<Rightarrow> None)"

definition ht_op_remove :: "cmp_key \<Rightarrow> hash_key \<Rightarrow> vsimpleht_t \<Rightarrow> ptr \<Rightarrow> (bool \<times> vsimpleht_t) option" where
  "ht_op_remove cmp hash tbl k = (case vsimpleht_remove cmp hash tbl k of
     Some (Inr (VSIMPLEHT_RET_OK, t)) \<Rightarrow> Some (True, t) | Some (Inr (VSIMPLEHT_RET_KEY_DNE, t)) \<Rightarrow> Some (False, t) | _ \<Rightarrow> None)"

lemma ht_client_not_full:
  assumes "ht_client cmp hash U tbl"
  shows "\<not> ht_full tbl"
proof
  assume full: "ht_full tbl"
  have "inj_on (ht_keys tbl) {..<ht_size tbl}"
    using assms full ht_wf_inj [of hash tbl] by (auto simp: inj_on_def ht_client_def ht_full_def)
  moreover have "ht_keys tbl ` {..<ht_size tbl} \<subseteq> U" using assms full by (auto simp: ht_client_def ht_full_def)
  ultimately have "ht_size tbl \<le> card U"
    using assms card_inj_on_le [of "ht_keys tbl" "{..<ht_size tbl}" U] by (simp add: ht_client_def)
  with assms show False by (simp add: ht_client_def)
qed

lemma ht_add_keys:
  assumes "vsimpleht_add_internal cmp hash tbl key val = Inr (r, tbl')" and "cmp_key_ok cmp" and "ht_wf hash tbl"
    and "key \<noteq> NULL" and "val \<noteq> NULL" and "i < ht_size tbl"
  shows "ht_size tbl' = ht_size tbl \<and> ht_keys tbl' i \<in> {ht_keys tbl i, key}"
proof -
  note sh = ht_wf_shape [OF assms(3)]
  show ?thesis
    using assms(1) add_internal_find [OF assms(2) sh assms(4,5), of hash] find_slot_lt [OF _ ht_home_lt [OF sh, of hash key]]
    by (auto simp: add_result_def ht_put_keys [OF sh] split: option.splits if_splits)
qed

lemma ht_op_add_law:
  assumes "ht_client cmp hash U tbl" and "k \<in> U \<and> k \<noteq> NULL" and "v \<noteq> NULL"
  shows "\<exists>t. ht_op_add cmp hash tbl k v = Some (ht_map tbl k = None, t) \<and> ht_client cmp hash U t \<and>
    ht_map t = (if ht_map tbl k = None then (ht_map tbl)(k \<mapsto> v) else ht_map tbl)"
proof -
  from assms(1) have c: "cmp_key_ok cmp" "ht_wf hash tbl" "ht_lock tbl = one_reader" by (simp_all add: ht_client_def)
  note nf = ht_client_not_full [OF assms(1)]
  from ht_add_branches [OF c _ assms(3), of k] assms(2) nf obtain r t where
    t: "vsimpleht_add cmp hash tbl k v = Inr (r, t)" "ht_wf hash t" "ht_lock t = one_reader"
      "if ht_map tbl k \<noteq> None then r = VSIMPLEHT_RET_KEY_EXISTS \<and> t = tbl
       else r = VSIMPLEHT_RET_OK \<and> ht_map t = (ht_map tbl)(k \<mapsto> v)" by auto
  have "vsimpleht_add_internal cmp hash tbl k v = Inr (r, t)"
    using t(1) assms(2,3) c(3) by (simp add: vsimpleht_add_def give_cleanup_one)
  then have keys: "ht_size t = ht_size tbl" "\<And>i. i < ht_size tbl \<Longrightarrow> ht_keys t i \<in> {ht_keys tbl i, k}"
    using ht_add_keys [OF _ c(1,2) _ assms(3)] assms(2) ht_shape_pos [OF ht_wf_shape [OF c(2)]] by blast+
  have "ht_client cmp hash U t"
    using assms(1,2) t(2,3) keys by (fastforce simp: ht_client_def)
  then show ?thesis using t(1,4) by (auto simp: ht_op_add_def split: if_splits)
qed

lemma ht_op_get_law:
  assumes "ht_client cmp hash U tbl" and "k \<in> U \<and> k \<noteq> NULL"
  shows "\<exists>t. ht_op_get cmp hash tbl k = Some (ht_map tbl k, t) \<and> ht_client cmp hash U t \<and> ht_map t = ht_map tbl"
proof -
  from assms(1) have c: "cmp_key_ok cmp" "ht_wf hash tbl" "ht_lock tbl = one_reader" by (simp_all add: ht_client_def)
  have "vsimpleht_get cmp hash tbl k = Some (Inr (case ht_map tbl k of None \<Rightarrow> NULL | Some v \<Rightarrow> v, tbl))"
    using ht_get_branches [OF c, of k] ht_client_not_full [OF assms(1)] assms(2) by simp
  moreover have "ht_map tbl k \<noteq> Some NULL" using ht_map_Some [OF c(2)] by blast
  ultimately show ?thesis using assms(1) by (auto simp: ht_op_get_def split: option.split)
qed

lemma ht_op_remove_law:
  assumes "ht_client cmp hash U tbl" and "k \<in> U \<and> k \<noteq> NULL"
  shows "\<exists>t. ht_op_remove cmp hash tbl k = Some (ht_map tbl k \<noteq> None, t) \<and> ht_client cmp hash U t \<and>
    ht_map t = (ht_map tbl)(k := None)"
proof -
  from assms(1) have c: "cmp_key_ok cmp" "ht_wf hash tbl" "ht_lock tbl = one_reader" by (simp_all add: ht_client_def)
  from ht_remove_branches [OF c _ ht_client_not_full [OF assms(1)], of k] assms(2) obtain r t where
    t: "vsimpleht_remove cmp hash tbl k = Some (Inr (r, t))" "ht_wf hash t" "ht_lock t = one_reader" "ht_size t = ht_size tbl"
      "\<forall>i < ht_size tbl. \<exists>j < ht_size tbl. ht_keys t i \<in> {NULL, ht_keys tbl j}"
      "case ht_map tbl k of None \<Rightarrow> r = VSIMPLEHT_RET_KEY_DNE \<and> t = tbl
       | Some v \<Rightarrow> r = VSIMPLEHT_RET_OK \<and> ht_map t = (ht_map tbl)(k := None) \<and> ht_destroyed t = ht_destroyed tbl @ [v]"
    by auto
  have "ht_client cmp hash U t"
    using assms(1) t(2-5) by (fastforce simp: ht_client_def)
  then show ?thesis using t(1,6) by (cases "ht_map tbl k") (auto simp: ht_op_remove_def fun_upd_idem)
qed

interpretation ht: map_impl "ht_client cmp hash U" ht_map "\<lambda>k. k \<in> U \<and> k \<noteq> NULL" "\<lambda>v. v \<noteq> NULL"
    "ht_op_add cmp hash" "ht_op_get cmp hash" "ht_op_remove cmp hash" for cmp hash U
  using ht_op_add_law ht_op_get_law ht_op_remove_law by unfold_locales fast+

lemma vsimpleht_init_client:
  assumes "vsimpleht_init buff capacity = Inr tbl" and "cmp_key_ok cmp" and "finite U" and "card U < unat capacity"
  shows "\<exists>tbl'. vsimpleht_thread_register tbl = Inr tbl' \<and> ht_client cmp hash U tbl' \<and> ht_map tbl' = Map.empty"
proof -
  let ?e = "\<lparr>ht_key = NULL, ht_value = NULL\<rparr> :: vsimpleht_entry_t"
  from assms(1) obtain es where tbl: "tbl = \<lparr>ht_capacity = capacity, ht_entries = replicate (unat capacity) ?e @ es,
      cleaning_threshold = capacity div VSIMPLEHT_RELATIVE_THRESHOLD, deleted_count = 0, ht_lock = rwlock_init, ht_destroyed = []\<rparr>"
    and cap: "0 < capacity" "capacity AND (capacity - 1) = 0"
    by (auto simp: vsimpleht_init_def rbind_Inr_iff split: if_splits)
  let ?t = "tbl\<lparr>ht_lock := one_reader\<rparr>"
  have reg: "vsimpleht_thread_register tbl = Inr ?t" by (simp add: vsimpleht_thread_register_def tbl read_acquire_one)
  have sz: "ht_size ?t = unat capacity" by (simp add: ht_size_def tbl)
  have empty: "ht_keys ?t i = NULL" "ht_vals ?t i = NULL" if "i < unat capacity" for i
    using that by (simp_all add: ht_keys_def ht_vals_def tbl nth_append)
  have "ht_shape ?t" using cap by (simp add: ht_shape_def ht_size_def V_IS_POWER_OF_TWO_def tbl word_gt_0)
  then have "ht_wf hash ?t" by (simp add: ht_wf_def sz empty)
  moreover have "ht_map ?t = Map.empty"
    unfolding ht_map_def sz by (simp add: empty cong: map_cong)
  ultimately show ?thesis using reg assms(2-4) by (auto simp: ht_client_def sz empty)
qed

text \<open>
  The loop of \<^verbatim>\<open>vsimpleht_remove\<close> compares its masked index with the hash value before masking.
  When that value is not below the capacity, a search of a full table for a key that is not there goes
  round for ever.
\<close>

lemma remove_loop_returns:
  assumes "vsimpleht_remove_loop cmp hash key tbl start_index index = Some r" and "cmp_key_ok cmp" and "ht_shape tbl"
    and "unat index < ht_size tbl" and "ht_size tbl \<le> unat start_index"
  shows "\<exists>q < ht_size tbl. ht_keys tbl q \<in> {NULL, key}"
  using assms
proof (induction rule: vsimpleht_remove_loop.raw_induct [rotated, consumes 1, case_names body])
  case (body loop cmp hash key tbl start_index index r)
  define next_index where "next_index = (index + 1) AND (ht_capacity tbl - 1)"
  have lt: "unat next_index < ht_size tbl"
    using ht_shape_pos [OF body.prems(2)] by (simp add: next_index_def ht_mask [OF body.prems(2)])
  have len: "unat index < length (ht_entries tbl)" using body.prems(2,3) by (simp add: ht_shape_def)
  show ?case
  proof (cases "ht_keys tbl (unat index) \<in> {NULL, key}")
    case True
    with body.prems(3) show ?thesis by blast
  next
    case False
    have "next_index \<noteq> start_index" using lt body.prems(4) by auto
    with False len body(2) have "loop cmp hash key tbl start_index next_index = Some r"
      by (auto simp: Let_def next_index_def cmp_key_ok_iff [OF body.prems(1)] vsync_simps ht_keys_def split: if_splits)
    from body(1) [OF this body.prems(1,2) lt body.prems(4)] show ?thesis .
  qed
qed

lemma vsimpleht_remove_diverges:
  assumes "cmp_key_ok cmp" and "ht_wf hash tbl" and "ht_lock tbl = one_reader"
    and "ht_full tbl" and "\<not> ht_has_key tbl key" and "ht_capacity tbl \<le> hash key"
  shows "vsimpleht_remove cmp hash tbl key = None"
proof (rule ccontr)
  note sh = ht_wf_shape [OF assms(2)]
  assume "\<not> ?thesis"
  then obtain r where "vsimpleht_remove_loop cmp hash key tbl (hash key) (hash key AND (ht_capacity tbl - 1)) = Some r"
    using assms(3) by (auto simp: vsimpleht_remove_def give_cleanup_one Let_def)
  from remove_loop_returns [OF this assms(1) sh] assms(4-6) ht_shape_pos [OF sh] show False
    by (auto simp: ht_mask [OF sh] ht_full_def ht_has_key_def word_le_nat_alt ht_size_def)
qed

section \<open>Properties\<close>

abbreviation ht_calls :: "cmp_key \<Rightarrow> hash_key \<Rightarrow> vsimpleht_t \<Rightarrow> (ptr, ptr) map_op \<Rightarrow> (ptr map_out \<times> vsimpleht_t) option" where
  "ht_calls cmp hash \<equiv> map_call (ht_op_add cmp hash) (ht_op_get cmp hash) (ht_op_remove cmp hash)"

text \<open>C5: a hash table that is initialised and used by a registered thread with fewer keys than it
  has slots is a map: every sequence of add, get and remove returns what the map returns, whatever
  the hash function, through all the cleanups it triggers.\<close>

theorem simpleht_refines_map:
  assumes "cmp_key_ok cmp" and "vsimpleht_init buff capacity = Inr tbl" and "vsimpleht_thread_register tbl = Inr tbl'"
    and "finite U" and "card U < unat capacity" and "list_all (op_ok (\<lambda>k. k \<in> U \<and> k \<noteq> NULL) (\<lambda>v. v \<noteq> NULL)) ops"
  shows "\<exists>t. map_run (ht_calls cmp hash) tbl' ops = Some (fst (map_spec_run Map.empty ops), t) \<and>
    ht_wf hash t \<and> ht_map t = snd (map_spec_run Map.empty ops)"
proof -
  from vsimpleht_init_client [OF assms(2,1,4,5), of hash] assms(3)
  have c: "ht_client cmp hash U tbl'" "ht_map tbl' = Map.empty" by simp_all
  from ht.run_refines [OF c(1) assms(6)] c(2) show ?thesis by (auto simp: ht_client_def)
qed

text \<open>Concrete callbacks and tables for the witnesses.\<close>

definition id_cmp :: cmp_key where
  "id_cmp a b = (if a = b then 0 else if a < b then - 1 else 1)"

lemma id_cmp_ok: "cmp_key_ok id_cmp"
  by (simp add: cmp_key_ok_def id_cmp_def)

definition ht_of :: "(ptr \<times> ptr) list \<Rightarrow> vsimpleht_t" where
  "ht_of kvs = \<lparr>ht_capacity = of_nat (length kvs), ht_entries = map (\<lambda>(k, v). \<lparr>ht_key = k, ht_value = v\<rparr>) kvs,
     cleaning_threshold = of_nat (length kvs) div VSIMPLEHT_RELATIVE_THRESHOLD, deleted_count = 0, ht_lock = one_reader,
     ht_destroyed = []\<rparr>"

lemma ht_of_empty: "vsimpleht_init (Some (replicate 4 \<lparr>ht_key = 3, ht_value = 5\<rparr>)) 4 = Inr ((ht_of (replicate 4 (0, 0)))\<lparr>ht_lock := rwlock_init\<rparr>)"
  by code_simp

lemma ht_of_registered:
  "vsimpleht_thread_register ((ht_of (replicate 4 (0, 0)))\<lparr>ht_lock := rwlock_init\<rparr>) = Inr (ht_of (replicate 4 (0, 0)))"
  by code_simp

lemma simpleht_refines_map_witness:
  "\<exists>t. map_run (ht_calls id_cmp id) (ht_of (replicate 4 (0, 0)))
       [OpAdd 2 7, OpAdd 6 8, OpGet 6, OpRemove 2, OpGet 6, OpRemove 2] =
     Some ([OutBool True, OutBool True, OutVal (Some 8), OutBool True, OutVal (Some 8), OutBool False], t) \<and> ht_map t 6 = Some 8"
  using simpleht_refines_map [OF id_cmp_ok ht_of_empty ht_of_registered, of "{2, 6}"
      "[OpAdd 2 7, OpAdd 6 8, OpGet 6, OpRemove 2, OpGet 6, OpRemove 2]" id] by auto

text \<open>C35: \<^verbatim>\<open>vsimpleht_add\<close> on a well-formed table, on every branch: a new key is added, a key
  with a value is refused and nothing changes, and the table is reported full exactly when every slot
  has a key and none of them is the one to add.\<close>

theorem vsimpleht_add_spec:
  assumes "cmp_key_ok cmp" and "ht_wf hash tbl" and "ht_lock tbl = one_reader" and "key \<noteq> NULL" and "val \<noteq> NULL"
  shows "\<exists>r tbl'. vsimpleht_add cmp hash tbl key val = Inr (r, tbl') \<and> ht_wf hash tbl' \<and> ht_lock tbl' = one_reader \<and>
    (if ht_full tbl \<and> \<not> ht_has_key tbl key then r = VSIMPLEHT_RET_TBL_FULL \<and> tbl' = tbl
     else if ht_map tbl key \<noteq> None then r = VSIMPLEHT_RET_KEY_EXISTS \<and> tbl' = tbl
     else r = VSIMPLEHT_RET_OK \<and> ht_map tbl' = (ht_map tbl)(key \<mapsto> val))"
  using assms by (rule ht_add_branches)

lemma vsimpleht_add_spec_witness:
  "\<exists>r t. vsimpleht_add id_cmp id (ht_of [(10, 1), (14, 0), (2, 1), (6, 1)]) 14 9 = Inr (r, t) \<and>
    r = VSIMPLEHT_RET_OK \<and> ht_map t 14 = Some 9"
proof -
  have wf: "ht_wf id (ht_of [(10, 1), (14, 0), (2, 1), (6, 1)])" by code_simp
  have map: "ht_map (ht_of [(10, 1), (14, 0), (2, 1), (6, 1)]) 14 = None" by code_simp
  have key: "ht_has_key (ht_of [(10, 1), (14, 0), (2, 1), (6, 1)]) 14" by code_simp
  show ?thesis using vsimpleht_add_spec [OF id_cmp_ok wf, of 14 9] map key by (auto simp: ht_of_def)
qed

text \<open>C34: \<^verbatim>\<open>vsimpleht_get\<close> returns the value of the key in the map, \<^verbatim>\<open>NULL\<close> when it has none,
  and changes nothing; it does not return exactly when every slot has a key other than the one looked
  up.\<close>

theorem vsimpleht_get_spec:
  assumes "cmp_key_ok cmp" and "ht_wf hash tbl" and "ht_lock tbl = one_reader" and "key \<noteq> NULL"
  shows "vsimpleht_get cmp hash tbl key =
    (if ht_full tbl \<and> \<not> ht_has_key tbl key then None
     else Some (Inr (case ht_map tbl key of None \<Rightarrow> NULL | Some v \<Rightarrow> v, tbl)))"
  using assms by (rule ht_get_branches)

lemma vsimpleht_get_spec_witness:
  "vsimpleht_get id_cmp id (ht_of [(10, 1), (14, 1), (2, 1), (6, 5)]) 6 = Some (Inr (5, ht_of [(10, 1), (14, 1), (2, 1), (6, 5)])) \<and>
   vsimpleht_get id_cmp id (ht_of [(10, 1), (14, 1), (2, 1), (6, 5)]) 7 = None"
proof -
  let ?t = "ht_of [(10, 1), (14, 1), (2, 1), (6, 5)]"
  have wf: "ht_wf id ?t" and full: "ht_full ?t" and key: "ht_has_key ?t 6" "\<not> ht_has_key ?t 7" and map: "ht_map ?t 6 = Some 5"
    by code_simp+
  have lock: "ht_lock ?t = one_reader" by (simp add: ht_of_def)
  show ?thesis
    using vsimpleht_get_spec [OF id_cmp_ok wf lock, of 6] vsimpleht_get_spec [OF id_cmp_ok wf lock, of 7] full key map by simp
qed

text \<open>\<^verbatim>\<open>vsimpleht_remove\<close> on a well-formed table with an empty slot removes the key from the
  map and destroys its value, or reports that the key does not exist and changes nothing. The cleanup
  it may start (which moves entries towards their home slots) leaves the rest of the map as it is.\<close>

theorem vsimpleht_remove_spec:
  assumes "cmp_key_ok cmp" and "ht_wf hash tbl" and "ht_lock tbl = one_reader" and "key \<noteq> NULL" and "\<not> ht_full tbl"
  shows "\<exists>r tbl'. vsimpleht_remove cmp hash tbl key = Some (Inr (r, tbl')) \<and> ht_wf hash tbl' \<and> ht_lock tbl' = one_reader \<and>
    (case ht_map tbl key of None \<Rightarrow> r = VSIMPLEHT_RET_KEY_DNE \<and> tbl' = tbl
     | Some v \<Rightarrow> r = VSIMPLEHT_RET_OK \<and> ht_map tbl' = (ht_map tbl)(key := None) \<and> ht_destroyed tbl' = ht_destroyed tbl @ [v])"
  using ht_remove_branches [OF assms] by blast

text \<open>C40: a cleanup that finds no empty slot to start from loses live entries. In a table of four
  slots filled by four keys with the same home slot, removing the first key makes the second one
  unreachable although it was never removed, so the table is not the map its client sees.\<close>

theorem simpleht_full_cleanup_loses:
  "\<exists>t. map_run (ht_calls id_cmp id) (ht_of (replicate 4 (0, 0)))
       [OpAdd 2 1, OpAdd 6 1, OpAdd 10 1, OpAdd 14 1, OpRemove 2, OpGet 6] =
     Some ([OutBool True, OutBool True, OutBool True, OutBool True, OutBool True, OutVal None], t) \<and>
   fst (map_spec_run Map.empty [OpAdd 2 1, OpAdd 6 1, OpAdd 10 1, OpAdd 14 1, OpRemove 2, OpGet (6 :: ptr)]) =
     [OutBool True, OutBool True, OutBool True, OutBool True, OutBool True, OutVal (Some (1 :: ptr))]"
proof -
  have "map_option fst (map_run (ht_calls id_cmp id) (ht_of (replicate 4 (0, 0)))
       [OpAdd 2 1, OpAdd 6 1, OpAdd 10 1, OpAdd 14 1, OpRemove 2, OpGet 6]) =
     Some [OutBool True, OutBool True, OutBool True, OutBool True, OutBool True, OutVal None]" by code_simp
  then show ?thesis by auto
qed

end
