(* ===== verification/Recursive_Lock.thy ===== *)
theory Recursive_Lock
  imports Spinlock
begin

text \<open>
  Recursive locks: the macros of \<^verbatim>\<open>utils/recursive_lock.h\<close>, whose parameters (the operations of
  the base lock) are parameters of the definitions here, and \<^verbatim>\<open>spinlock/rec_spinlock.h\<close>, their
  instance over \<^verbatim>\<open>caslock\<close>. What the recursive lock needs of the base lock is the contract
  \<^const>\<open>lock_impl\<close> of the prelude, for threads that use the base operations in any legal order; it
  is proved for \<^verbatim>\<open>caslock\<close> here.
\<close>

section \<open>Operations\<close>

record 'l recursive_lock_t =
  rl_lock :: 'l
  rl_owner :: u32
  rl_count :: u32

definition RECURSIVE_LOCK_NOCPU :: u32 where
  "RECURSIVE_LOCK_NOCPU = - 1"

definition recursive_lock_init :: "'l \<Rightarrow> 'l recursive_lock_t" where
  "recursive_lock_init l = \<lparr>rl_lock = l, rl_owner = vatomic_init 0 RECURSIVE_LOCK_NOCPU, rl_count = 0\<rparr>"

datatype 'a rec_acq_pc = RA_owner | RA_inc | RA_lock 'a | RA_write

fun recursive_lock_acquire :: "('a, 'l, unit) prog \<Rightarrow> 'a \<Rightarrow> u32 \<Rightarrow>
    ('a rec_acq_pc, 'l recursive_lock_t, unit res) prog" where
  "recursive_lock_acquire acq a0 cpu_id RA_owner l =
     (case vassert (cpu_id \<noteq> RECURSIVE_LOCK_NOCPU) of Inl e \<Rightarrow> (Ret (Inl e), l)
      | Inr _ \<Rightarrow> (if vatomic_read (rl_owner l) = cpu_id then Goto RA_inc else Goto (RA_lock a0), l))"
| "recursive_lock_acquire acq a0 cpu_id RA_inc l = (Ret (Inr ()), l\<lparr>rl_count := rl_count l + 1\<rparr>)"
| "recursive_lock_acquire acq a0 cpu_id (RA_lock a) l =
     (let (r, k) = acq a (rl_lock l)
      in ((case r of Goto a' \<Rightarrow> Goto (RA_lock a') | Ret _ \<Rightarrow> Goto RA_write), l\<lparr>rl_lock := k\<rparr>))"
| "recursive_lock_acquire acq a0 cpu_id RA_write l = (Ret (Inr ()), l\<lparr>rl_owner := vatomic_write (rl_owner l) cpu_id\<rparr>)"

datatype 't rec_try_pc = RT_owner | RT_inc | RT_lock 't | RT_write

fun recursive_lock_tryacquire :: "('t, 'l, bool) prog \<Rightarrow> 't \<Rightarrow> u32 \<Rightarrow>
    ('t rec_try_pc, 'l recursive_lock_t, bool res) prog" where
  "recursive_lock_tryacquire tryl t0 cpu_id RT_owner l =
     (let owner = vatomic_read (rl_owner l)
      in case vassert (cpu_id \<noteq> RECURSIVE_LOCK_NOCPU) of Inl e \<Rightarrow> (Ret (Inl e), l)
         | Inr _ \<Rightarrow> (if owner = cpu_id then Goto RT_inc
                     else if owner \<noteq> RECURSIVE_LOCK_NOCPU then Ret (Inr False)
                     else Goto (RT_lock t0), l))"
| "recursive_lock_tryacquire tryl t0 cpu_id RT_inc l = (Ret (Inr True), l\<lparr>rl_count := rl_count l + 1\<rparr>)"
| "recursive_lock_tryacquire tryl t0 cpu_id (RT_lock t) l =
     (let (r, k) = tryl t (rl_lock l)
      in ((case r of Goto t' \<Rightarrow> Goto (RT_lock t') | Ret ok \<Rightarrow> if \<not> ok then Ret (Inr False) else Goto RT_write),
          l\<lparr>rl_lock := k\<rparr>))"
| "recursive_lock_tryacquire tryl t0 cpu_id RT_write l = (Ret (Inr True), l\<lparr>rl_owner := vatomic_write (rl_owner l) cpu_id\<rparr>)"

datatype 'r rec_rel_pc = RR_count | RR_dec | RR_owner | RR_lock 'r

fun recursive_lock_release :: "('r, 'l, unit) prog \<Rightarrow> 'r \<Rightarrow> ('r rec_rel_pc, 'l recursive_lock_t, unit) prog" where
  "recursive_lock_release rel r0 RR_count l = (if rl_count l = 0 then Goto RR_owner else Goto RR_dec, l)"
| "recursive_lock_release rel r0 RR_dec l = (Ret (), l\<lparr>rl_count := rl_count l - 1\<rparr>)"
| "recursive_lock_release rel r0 RR_owner l =
     (Goto (RR_lock r0), l\<lparr>rl_owner := vatomic_write (rl_owner l) RECURSIVE_LOCK_NOCPU\<rparr>)"
| "recursive_lock_release rel r0 (RR_lock p) l =
     (let (r, k) = rel p (rl_lock l)
      in ((case r of Goto p' \<Rightarrow> Goto (RR_lock p') | Ret _ \<Rightarrow> Ret ()), l\<lparr>rl_lock := k\<rparr>))"

section \<open>Threads that use a base lock\<close>

datatype ('a, 't, 'r) base_pc = BIdle | BAcq 'a | BTry 't | BHeld | BRel 'r

type_synonym ('l, 'a, 't, 'r) base_sys = "'l \<times> (tid \<Rightarrow> ('a, 't, 'r) base_pc)"

record ('l, 'a, 't, 'r) base_ops =
  b_init :: 'l
  b_acq :: "('a, 'l, unit) prog"
  b_acq0 :: 'a
  b_try :: "('t, 'l, bool) prog"
  b_try0 :: 't
  b_rel :: "('r, 'l, unit) prog"
  b_rel0 :: 'r

inductive base_step :: "('l, 'a, 't, 'r) base_ops \<Rightarrow> tid \<Rightarrow> ('l, 'a, 't, 'r) base_sys \<Rightarrow> ('l, 'a, 't, 'r) base_sys \<Rightarrow> bool"
  for B where
  base_call: "pcs i = BIdle \<Longrightarrow> p \<in> {BAcq (b_acq0 B), BTry (b_try0 B)} \<Longrightarrow> base_step B i (l, pcs) (l, pcs(i := p))"
| base_acq: "pcs i = BAcq a \<Longrightarrow> b_acq B a l = (r, l') \<Longrightarrow>
     base_step B i (l, pcs) (l', pcs(i := case r of Goto a' \<Rightarrow> BAcq a' | Ret _ \<Rightarrow> BHeld))"
| base_try: "pcs i = BTry t \<Longrightarrow> b_try B t l = (r, l') \<Longrightarrow>
     base_step B i (l, pcs) (l', pcs(i := case r of Goto t' \<Rightarrow> BTry t' | Ret ok \<Rightarrow> if ok then BHeld else BIdle))"
| base_call_rel: "pcs i = BHeld \<Longrightarrow> base_step B i (l, pcs) (l, pcs(i := BRel (b_rel0 B)))"
| base_rel: "pcs i = BRel p \<Longrightarrow> b_rel B p l = (r, l') \<Longrightarrow>
     base_step B i (l, pcs) (l', pcs(i := case r of Goto p' \<Rightarrow> BRel p' | Ret _ \<Rightarrow> BIdle))"

lemma base_step_goto:
  "pcs i = BAcq a \<Longrightarrow> b_acq B a l = (Goto a', l') \<Longrightarrow> base_step B i (l, pcs) (l', pcs(i := BAcq a'))"
  "pcs i = BAcq a \<Longrightarrow> b_acq B a l = (Ret u, l') \<Longrightarrow> base_step B i (l, pcs) (l', pcs(i := BHeld))"
  "pcs i = BTry t \<Longrightarrow> b_try B t l = (Goto t', l') \<Longrightarrow> base_step B i (l, pcs) (l', pcs(i := BTry t'))"
  "pcs i = BTry t \<Longrightarrow> b_try B t l = (Ret True, l') \<Longrightarrow> base_step B i (l, pcs) (l', pcs(i := BHeld))"
  "pcs i = BTry t \<Longrightarrow> b_try B t l = (Ret False, l') \<Longrightarrow> base_step B i (l, pcs) (l', pcs(i := BIdle))"
  "pcs i = BRel p \<Longrightarrow> b_rel B p l = (Goto p', l') \<Longrightarrow> base_step B i (l, pcs) (l', pcs(i := BRel p'))"
  "pcs i = BRel p \<Longrightarrow> b_rel B p l = (Ret u, l') \<Longrightarrow> base_step B i (l, pcs) (l', pcs(i := BIdle))"
  using base_acq [of pcs i a B l "Goto a'"] base_acq [of pcs i a B l "Ret u"] base_try [of pcs i t B l "Goto t'"]
    base_try [of pcs i t B l "Ret True"] base_try [of pcs i t B l "Ret False"] base_rel [of pcs i p B l "Goto p'"] base_rel [of pcs i p B l "Ret u"]
  by simp_all

definition base_start :: "('l, 'a, 't, 'r) base_ops \<Rightarrow> ('l, 'a, 't, 'r) base_sys \<Rightarrow> bool" where
  "base_start B s \<longleftrightarrow> fst s = b_init B \<and> (\<forall>i. snd s i = BIdle)"

definition base_owns :: "('l, 'a, 't, 'r) base_sys \<Rightarrow> tid \<Rightarrow> bool" where
  "base_owns s i \<longleftrightarrow> (case snd s i of BHeld \<Rightarrow> True | BRel _ \<Rightarrow> True | _ \<Rightarrow> False)"

section \<open>Threads that use the recursive lock\<close>

text \<open>
  \<open>rc_depth i\<close> is auxiliary: the number of times thread \<open>i\<close> has the lock. Thread \<open>i\<close>
  passes \<open>cpu i\<close> as its identifier.
\<close>

datatype ('a, 't, 'r) rec_pc = RcIdle | RcAcq "'a rec_acq_pc" | RcTry "'t rec_try_pc" | RcHeld
  | RcRel "'r rec_rel_pc" | RcFault fault

record ('l, 'a, 't, 'r) rec_sys =
  rc_obj :: "'l recursive_lock_t"
  rc_pcs :: "tid \<Rightarrow> ('a, 't, 'r) rec_pc"
  rc_depth :: "tid \<Rightarrow> nat"

definition rec_start :: "('l, 'a, 't, 'r) base_ops \<Rightarrow> ('l, 'a, 't, 'r) rec_sys \<Rightarrow> bool" where
  "rec_start B s \<longleftrightarrow> rc_obj s = recursive_lock_init (b_init B) \<and> (\<forall>i. rc_pcs s i = RcIdle) \<and> (\<forall>i. rc_depth s i = 0)"

text \<open>One access of the operation a thread is in, with its program counter and its depth.\<close>

fun rec_access :: "('l, 'a, 't, 'r) base_ops \<Rightarrow> u32 \<Rightarrow> ('a, 't, 'r) rec_pc \<Rightarrow> nat \<Rightarrow> 'l recursive_lock_t \<Rightarrow>
    ('a, 't, 'r) rec_pc \<times> nat \<times> 'l recursive_lock_t" where
  "rec_access B cpu_id (RcAcq p) d l =
     (case recursive_lock_acquire (b_acq B) (b_acq0 B) cpu_id p l of (Goto p', l') \<Rightarrow> (RcAcq p', d, l')
      | (Ret (Inl e), l') \<Rightarrow> (RcFault e, d, l') | (Ret (Inr _), l') \<Rightarrow> (RcHeld, d + 1, l'))"
| "rec_access B cpu_id (RcTry p) d l =
     (case recursive_lock_tryacquire (b_try B) (b_try0 B) cpu_id p l of (Goto p', l') \<Rightarrow> (RcTry p', d, l')
      | (Ret (Inl e), l') \<Rightarrow> (RcFault e, d, l')
      | (Ret (Inr ok), l') \<Rightarrow> if ok then (RcHeld, d + 1, l') else (if d = 0 then RcIdle else RcHeld, d, l'))"
| "rec_access B cpu_id (RcRel p) d l =
     (case recursive_lock_release (b_rel B) (b_rel0 B) p l of (Goto p', l') \<Rightarrow> (RcRel p', d, l')
      | (Ret _, l') \<Rightarrow> (if d = 1 then RcIdle else RcHeld, d - 1, l'))"
| "rec_access B cpu_id p d l = (p, d, l)"

inductive rec_step :: "('l, 'a, 't, 'r) base_ops \<Rightarrow> (tid \<Rightarrow> u32) \<Rightarrow> nat \<Rightarrow> tid \<Rightarrow> ('l, 'a, 't, 'r) rec_sys \<Rightarrow> ('l, 'a, 't, 'r) rec_sys \<Rightarrow> bool"
  for B cpu N where
  rc_call: "i < N \<Longrightarrow> rc_pcs s i = RcIdle \<or> rc_pcs s i = RcHeld \<Longrightarrow> p \<in> {RcAcq RA_owner, RcTry RT_owner} \<Longrightarrow>
     rec_step B cpu N i s (s\<lparr>rc_pcs := (rc_pcs s)(i := p)\<rparr>)"
| rc_call_rel: "i < N \<Longrightarrow> rc_pcs s i = RcHeld \<Longrightarrow>
     rec_step B cpu N i s (s\<lparr>rc_pcs := (rc_pcs s)(i := RcRel RR_count)\<rparr>)"
| rc_run: "i < N \<Longrightarrow> rec_access B (cpu i) (rc_pcs s i) (rc_depth s i) (rc_obj s) = (p, d, l) \<Longrightarrow> d < 2 ^ 32 \<Longrightarrow>
     rec_step B cpu N i s (s\<lparr>rc_obj := l, rc_pcs := (rc_pcs s)(i := p), rc_depth := (rc_depth s)(i := d)\<rparr>)"

text \<open>The specification: a holder and how often it has the lock.\<close>

inductive rec_lock_spec :: "tid \<Rightarrow> (tid \<times> nat) option \<Rightarrow> (tid \<times> nat) option \<Rightarrow> bool" where
  rls_first: "rec_lock_spec i None (Some (i, 1))"
| rls_again: "0 < d \<Longrightarrow> rec_lock_spec i (Some (i, d)) (Some (i, Suc d))"
| rls_inner: "0 < d \<Longrightarrow> rec_lock_spec i (Some (i, Suc d)) (Some (i, d))"
| rls_last: "rec_lock_spec i (Some (i, 1)) None"
| rls_skip: "rec_lock_spec i h h"

definition rec_holder :: "('l, 'a, 't, 'r) rec_sys \<Rightarrow> (tid \<times> nat) option" where
  "rec_holder s = (if \<exists>i. 0 < rc_depth s i then (let i = (THE i. 0 < rc_depth s i) in Some (i, rc_depth s i)) else None)"

section \<open>The recursive lock over any base lock\<close>

text \<open>What a thread of the recursive lock is doing with the base lock.\<close>

fun rc_base :: "('a, 't, 'r) rec_pc \<Rightarrow> nat \<Rightarrow> ('a, 't, 'r) base_pc" where
  "rc_base RcIdle d = BIdle"
| "rc_base (RcAcq RA_owner) d = (if d = 0 then BIdle else BHeld)"
| "rc_base (RcAcq RA_inc) d = BHeld"
| "rc_base (RcAcq (RA_lock a)) d = BAcq a"
| "rc_base (RcAcq RA_write) d = BHeld"
| "rc_base (RcTry RT_owner) d = (if d = 0 then BIdle else BHeld)"
| "rc_base (RcTry RT_inc) d = BHeld"
| "rc_base (RcTry (RT_lock t)) d = BTry t"
| "rc_base (RcTry RT_write) d = BHeld"
| "rc_base RcHeld d = BHeld"
| "rc_base (RcRel (RR_lock p)) d = BRel p"
| "rc_base (RcRel _) d = BHeld"
| "rc_base (RcFault e) d = BIdle"

text \<open>Whether the owner field has the identifier of the thread.\<close>

fun rc_marked :: "('a, 't, 'r) rec_pc \<Rightarrow> nat \<Rightarrow> bool" where
  "rc_marked RcHeld d \<longleftrightarrow> True"
| "rc_marked (RcAcq RA_owner) d \<longleftrightarrow> 0 < d"
| "rc_marked (RcAcq RA_inc) d \<longleftrightarrow> True"
| "rc_marked (RcTry RT_owner) d \<longleftrightarrow> 0 < d"
| "rc_marked (RcTry RT_inc) d \<longleftrightarrow> True"
| "rc_marked (RcRel (RR_lock p)) d \<longleftrightarrow> False"
| "rc_marked (RcRel _) d \<longleftrightarrow> True"
| "rc_marked _ d \<longleftrightarrow> False"

fun rc_pc_ok :: "('a, 't, 'r) rec_pc \<Rightarrow> nat \<Rightarrow> bool" where
  "rc_pc_ok RcIdle d \<longleftrightarrow> d = 0"
| "rc_pc_ok (RcAcq RA_owner) d \<longleftrightarrow> True"
| "rc_pc_ok (RcAcq RA_inc) d \<longleftrightarrow> 0 < d"
| "rc_pc_ok (RcAcq _) d \<longleftrightarrow> d = 0"
| "rc_pc_ok (RcTry RT_owner) d \<longleftrightarrow> True"
| "rc_pc_ok (RcTry RT_inc) d \<longleftrightarrow> 0 < d"
| "rc_pc_ok (RcTry _) d \<longleftrightarrow> d = 0"
| "rc_pc_ok RcHeld d \<longleftrightarrow> 0 < d"
| "rc_pc_ok (RcRel RR_count) d \<longleftrightarrow> 0 < d"
| "rc_pc_ok (RcRel RR_dec) d \<longleftrightarrow> 1 < d"
| "rc_pc_ok (RcRel _) d \<longleftrightarrow> d = 1"
| "rc_pc_ok (RcFault e) d \<longleftrightarrow> False"

definition rc_bases :: "('l, 'a, 't, 'r) rec_sys \<Rightarrow> tid \<Rightarrow> ('a, 't, 'r) base_pc" where
  "rc_bases s i = rc_base (rc_pcs s i) (rc_depth s i)"

definition rc_fields :: "(tid \<Rightarrow> u32) \<Rightarrow> tid option \<Rightarrow> ('l, 'a, 't, 'r) rec_sys \<Rightarrow> bool" where
  "rc_fields cpu h s \<longleftrightarrow> (\<forall>i. rc_marked (rc_pcs s i) (rc_depth s i) \<longleftrightarrow> h = Some i) \<and>
     rl_owner (rc_obj s) = (case h of None \<Rightarrow> RECURSIVE_LOCK_NOCPU | Some i \<Rightarrow> cpu i) \<and>
     unat (rl_count (rc_obj s)) = (case h of None \<Rightarrow> 0 | Some i \<Rightarrow> rc_depth s i - 1)"

lemma rc_fieldsD:
  assumes "rc_fields cpu h s"
  shows "rc_marked (rc_pcs s i) (rc_depth s i) \<longleftrightarrow> h = Some i"
    and "rl_owner (rc_obj s) = (case h of None \<Rightarrow> RECURSIVE_LOCK_NOCPU | Some i \<Rightarrow> cpu i)"
    and "unat (rl_count (rc_obj s)) = (case h of None \<Rightarrow> 0 | Some i \<Rightarrow> rc_depth s i - 1)"
  using assms unfolding rc_fields_def by blast+

definition rc_inv :: "(('l, 'a, 't, 'r) base_sys \<Rightarrow> bool) \<Rightarrow> (tid \<Rightarrow> u32) \<Rightarrow> nat \<Rightarrow> ('l, 'a, 't, 'r) rec_sys \<Rightarrow> bool" where
  "rc_inv binv cpu N s \<longleftrightarrow> binv (rl_lock (rc_obj s), rc_bases s) \<and> (\<forall>i. rc_pc_ok (rc_pcs s i) (rc_depth s i)) \<and>
     (\<forall>i\<ge>N. rc_pcs s i = RcIdle) \<and> (\<exists>h. rc_fields cpu h s)"

definition cpu_ok :: "(tid \<Rightarrow> u32) \<Rightarrow> nat \<Rightarrow> bool" where
  "cpu_ok cpu N \<longleftrightarrow> inj_on cpu {..<N} \<and> (\<forall>i<N. cpu i \<noteq> RECURSIVE_LOCK_NOCPU)"

lemma rc_owns_cases:
  "rc_pc_ok p d \<Longrightarrow> 0 < d \<Longrightarrow> rc_base p d = BHeld \<or> (\<exists>q. rc_base p d = BRel q)"
  "rc_marked p d \<Longrightarrow> rc_base p d = BHeld"
  by (induction p d rule: rc_pc_ok.induct) auto

text \<open>One thread moves and the owner and count fields follow.\<close>

lemma rc_fields_move:
  assumes h: "rc_fields cpu h s" and other: "\<And>j. j \<noteq> i \<Longrightarrow> rc_pcs t j = rc_pcs s j \<and> rc_depth t j = rc_depth s j"
    and move: "rc_marked (rc_pcs t i) (rc_depth t i) = rc_marked (rc_pcs s i) (rc_depth s i) \<and> rl_owner (rc_obj t) = rl_owner (rc_obj s) \<and>
        (if rc_marked (rc_pcs s i) (rc_depth s i) then unat (rl_count (rc_obj t)) = rc_depth t i - 1 else rl_count (rc_obj t) = rl_count (rc_obj s)) \<or>
      h = None \<and> rc_marked (rc_pcs t i) (rc_depth t i) \<and> rl_owner (rc_obj t) = cpu i \<and> unat (rl_count (rc_obj t)) = rc_depth t i - 1 \<or>
      rc_marked (rc_pcs s i) (rc_depth s i) \<and> \<not> rc_marked (rc_pcs t i) (rc_depth t i) \<and> rl_owner (rc_obj t) = RECURSIVE_LOCK_NOCPU \<and> rl_count (rc_obj t) = 0"
  shows "\<exists>h. rc_fields cpu h t"
proof -
  have m: "rc_marked (rc_pcs s j) (rc_depth s j) \<longleftrightarrow> h = Some j" for j using h by (simp add: rc_fields_def)
  have mo: "rc_marked (rc_pcs t j) (rc_depth t j) \<longleftrightarrow> h = Some j" if "j \<noteq> i" for j using m other [OF that] by simp
  from move consider (same) "rc_marked (rc_pcs t i) (rc_depth t i) = rc_marked (rc_pcs s i) (rc_depth s i)" "rl_owner (rc_obj t) = rl_owner (rc_obj s)"
      "if rc_marked (rc_pcs s i) (rc_depth s i) then unat (rl_count (rc_obj t)) = rc_depth t i - 1 else rl_count (rc_obj t) = rl_count (rc_obj s)"
    | (take) "h = None" "rc_marked (rc_pcs t i) (rc_depth t i)" "rl_owner (rc_obj t) = cpu i" "unat (rl_count (rc_obj t)) = rc_depth t i - 1"
    | (give) "rc_marked (rc_pcs s i) (rc_depth s i)" "\<not> rc_marked (rc_pcs t i) (rc_depth t i)" "rl_owner (rc_obj t) = RECURSIVE_LOCK_NOCPU" "rl_count (rc_obj t) = 0"
    by blast
  then show ?thesis
  proof cases
    case same
    have "rc_marked (rc_pcs t j) (rc_depth t j) \<longleftrightarrow> h = Some j" for j using same(1) m mo by (cases "j = i") auto
    moreover have "unat (rl_count (rc_obj t)) = (case h of None \<Rightarrow> 0 | Some i \<Rightarrow> rc_depth t i - 1)"
      using same(3) m h other by (cases h) (auto simp: rc_fields_def split: if_splits)
    ultimately have "rc_fields cpu h t" using same(2) h by (simp add: rc_fields_def)
    then show ?thesis by blast
  next
    case take
    have "rc_marked (rc_pcs t j) (rc_depth t j) \<longleftrightarrow> Some i = Some j" for j using take mo by (cases "j = i") auto
    with take have "rc_fields cpu (Some i) t" by (simp add: rc_fields_def)
    then show ?thesis by blast
  next
    case give
    then have "h = Some i" using m by simp
    then have "\<not> rc_marked (rc_pcs t j) (rc_depth t j)" for j using give(2) mo by (cases "j = i") auto
    with give have "rc_fields cpu None t" by (simp add: rc_fields_def)
    then show ?thesis by blast
  qed
qed

text \<open>
  One access of a thread is at most one step of the base lock, and keeps the thread's program
  counter and depth in agreement.
\<close>

lemma rec_access_local:
  assumes acc: "rec_access B c p d l = (p', d', l')" and ok: "rc_pc_ok p d" and c: "c \<noteq> RECURSIVE_LOCK_NOCPU"
    and owner: "rl_owner l = c \<longleftrightarrow> rc_marked p d" and count: "rc_marked p d \<Longrightarrow> unat (rl_count l) = d - 1"
    and f: "f i = rc_base p d"
  shows "rc_pc_ok p' d'"
    and "rl_lock l' = rl_lock l \<and> rc_base p' d' = rc_base p d \<or> base_step B i (rl_lock l, f) (rl_lock l', f(i := rc_base p' d'))"
proof -
  have c0: "rl_count l = 0 \<longleftrightarrow> d = 1" if "rc_marked p d" "0 < d"
    using count [OF that(1)] that(2) by (auto simp: unat_eq_0 [symmetric])
  show "rc_pc_ok p' d'"
    using acc ok c owner c0
    by (induction p d rule: rc_pc_ok.induct)
       (auto simp: vsync_simps Let_def split: prod.splits ctl.splits sum.splits if_splits)
  show "rl_lock l' = rl_lock l \<and> rc_base p' d' = rc_base p d \<or> base_step B i (rl_lock l, f) (rl_lock l', f(i := rc_base p' d'))"
  proof (cases p)
    case (RcAcq q)
    then show ?thesis
      using acc ok c owner f
      by (cases q) (auto simp: vsync_simps Let_def intro: base_step.base_call base_step_goto split: prod.splits ctl.splits sum.splits if_splits)
  next
    case (RcTry q)
    then show ?thesis
      using acc ok c owner f
      by (cases q) (auto simp: vsync_simps Let_def intro: base_step.base_call base_step_goto split: prod.splits ctl.splits sum.splits if_splits)
  next
    case (RcRel q)
    then show ?thesis
      using acc ok c0 f
      by (cases q) (auto simp: vsync_simps Let_def intro: base_step.base_call_rel base_step_goto split: prod.splits ctl.splits sum.splits if_splits)
  qed (use acc in auto)
qed

lemma rec_access_fields:
  assumes acc: "rec_access B c p d l = (p', d', l')" and ok: "rc_pc_ok p d" and c: "c \<noteq> RECURSIVE_LOCK_NOCPU"
    and owner: "rl_owner l = c \<longleftrightarrow> rc_marked p d" and count: "rc_marked p d \<Longrightarrow> unat (rl_count l) = d - 1"
    and free: "rc_base p d = BHeld \<Longrightarrow> \<not> rc_marked p d \<Longrightarrow> rl_count l = 0" and d': "d' < 2 ^ 32"
  shows "rc_marked p' d' = rc_marked p d \<and> rl_owner l' = rl_owner l \<and>
      (if rc_marked p d then unat (rl_count l') = d' - 1 else rl_count l' = rl_count l) \<or>
    \<not> rc_marked p d \<and> rc_base p d = BHeld \<and> rc_marked p' d' \<and> rl_owner l' = c \<and> unat (rl_count l') = d' - 1 \<or>
    rc_marked p d \<and> \<not> rc_marked p' d' \<and> rl_owner l' = RECURSIVE_LOCK_NOCPU \<and> rl_count l' = 0"
proof -
  have inc: "unat (rl_count l + 1) = d' - 1" if "rc_marked p d" "0 < d" "d' = d + 1"
    using count [OF that(1)] that d' by (simp add: unat_word_ariths)
  have dec: "unat (rl_count l - 1) = d - 2" if "rc_marked p d" "1 < d"
  proof -
    have "rl_count l \<noteq> 0" using count [OF that(1)] that(2) by (auto simp: unat_eq_0 [symmetric])
    then show ?thesis using count [OF that(1)] by (simp add: unat_minus_one)
  qed
  have zero: "rl_count l = 0" if "rc_marked p d" "d = 1"
    using count [OF that(1)] that(2) by (simp add: unat_eq_0)
  show ?thesis
  proof (cases p)
    case (RcAcq q)
    show ?thesis
    proof (cases q)
      case RA_owner
      then show ?thesis using RcAcq acc ok c owner count by (auto simp: vsync_simps split: if_splits)
    next
      case RA_inc
      then show ?thesis using RcAcq acc ok inc by auto
    next
      case (RA_lock a)
      then show ?thesis using RcAcq acc ok by (auto simp: Let_def split: prod.splits ctl.splits)
    next
      case RA_write
      then show ?thesis using RcAcq acc ok free by (auto simp: vsync_simps)
    qed
  next
    case (RcTry q)
    show ?thesis
    proof (cases q)
      case RT_owner
      then show ?thesis using RcTry acc ok c owner count by (auto simp: vsync_simps Let_def split: if_splits)
    next
      case RT_inc
      then show ?thesis using RcTry acc ok inc by auto
    next
      case (RT_lock a)
      then show ?thesis using RcTry acc ok by (auto simp: Let_def split: prod.splits ctl.splits if_splits)
    next
      case RT_write
      then show ?thesis using RcTry acc ok free by (auto simp: vsync_simps)
    qed
  next
    case (RcRel q)
    show ?thesis
    proof (cases q)
      case RR_count
      then show ?thesis using RcRel acc ok count by (auto split: if_splits)
    next
      case RR_dec
      then have "rc_marked p d" "1 < d" "p' = RcHeld" "d' = d - 1" "l' = l\<lparr>rl_count := rl_count l - 1\<rparr>"
        using RcRel acc ok by auto
      with dec RcRel RR_dec show ?thesis by simp
    next
      case RR_owner
      then show ?thesis using RcRel acc ok zero by (auto simp: vsync_simps)
    next
      case (RR_lock a)
      then show ?thesis using RcRel acc ok by (auto simp: Let_def split: prod.splits ctl.splits)
    qed
  qed (use acc ok count in auto)
qed

locale recursive_over = lock_impl "base_start B" "base_step B" binv base_owns
  for B :: "('l, 'a, 't, 'r) base_ops" and binv :: "('l, 'a, 't, 'r) base_sys \<Rightarrow> bool"
begin

lemma rc_inv_excl:
  assumes "rc_inv binv cpu N s" and "rc_bases s i = BHeld \<or> (\<exists>q. rc_bases s i = BRel q)"
    and "rc_bases s j = BHeld \<or> (\<exists>q. rc_bases s j = BRel q)"
  shows "i = j"
  using assms inv_owns [of "(rl_lock (rc_obj s), rc_bases s)" i j] by (auto simp: rc_inv_def base_owns_def)

lemma rc_depth_excl:
  assumes "rc_inv binv cpu N s" and "0 < rc_depth s i" and "0 < rc_depth s j"
  shows "i = j"
  using rc_inv_excl [OF assms(1), of i j] rc_owns_cases(1) assms by (auto simp: rc_inv_def rc_bases_def)

lemma rc_holder_Some:
  assumes "rc_inv binv cpu N s" and "0 < rc_depth s i"
  shows "rec_holder s = Some (i, rc_depth s i)"
proof -
  have "(THE i. 0 < rc_depth s i) = i" using assms(2) rc_depth_excl [OF assms(1) _ assms(2)] by (rule the_equality)
  then show ?thesis using assms(2) by (auto simp: rec_holder_def)
qed

lemma rc_holder_None: "(\<And>i. rc_depth s i = 0) \<Longrightarrow> rec_holder s = None"
  by (simp add: rec_holder_def)

lemma rc_owner_iff:
  assumes "rc_inv binv cpu N s" and "cpu_ok cpu N" and "i < N" and h: "rc_fields cpu h s"
  shows "rl_owner (rc_obj s) = cpu i \<longleftrightarrow> rc_marked (rc_pcs s i) (rc_depth s i)"
proof (cases h)
  case None
  with rc_fieldsD(1,2) [OF h] assms(2,3) show ?thesis by (auto simp: cpu_ok_def)
next
  case (Some j)
  then have "rc_marked (rc_pcs s j) (rc_depth s j)" using rc_fieldsD(1) [OF h] by blast
  then have "rc_pcs s j \<noteq> RcIdle" by auto
  then have "j < N" using assms(1) by (auto simp: rc_inv_def not_le [symmetric])
  then have "cpu j = cpu i \<longleftrightarrow> j = i" using assms(2,3) by (auto simp: cpu_ok_def inj_on_def)
  moreover have "rl_owner (rc_obj s) = cpu j" "rc_marked (rc_pcs s i) (rc_depth s i) \<longleftrightarrow> j = i"
    using Some rc_fieldsD(1) [OF h, of i] rc_fieldsD(2) [OF h] by simp_all
  ultimately show ?thesis by simp
qed

lemma rc_inv_run:
  assumes inv: "rc_inv binv cpu N s" and cpu: "cpu_ok cpu N" and i: "i < N" and "d < 2 ^ 32"
    and acc: "rec_access B (cpu i) (rc_pcs s i) (rc_depth s i) (rc_obj s) = (p, d, l)"
  shows "rc_inv binv cpu N (s\<lparr>rc_obj := l, rc_pcs := (rc_pcs s)(i := p), rc_depth := (rc_depth s)(i := d)\<rparr>)"
    (is "rc_inv binv cpu N ?t")
proof -
  from inv obtain h where h: "rc_fields cpu h s" by (auto simp: rc_inv_def)
  have ok: "rc_pc_ok (rc_pcs s i) (rc_depth s i)" using inv by (simp add: rc_inv_def)
  note owner = rc_owner_iff [OF inv cpu i h]
  have count: "unat (rl_count (rc_obj s)) = rc_depth s i - 1" if "rc_marked (rc_pcs s i) (rc_depth s i)"
    using rc_fieldsD(1) [OF h, of i] rc_fieldsD(3) [OF h] that by simp
  have c: "cpu i \<noteq> RECURSIVE_LOCK_NOCPU" using cpu i by (simp add: cpu_ok_def)
  note loc = rec_access_local [OF acc ok c owner count, of "rc_bases s" i]
  have bases: "rc_bases ?t = (rc_bases s)(i := rc_base p d)" by (auto simp: rc_bases_def)
  have "binv (rl_lock (rc_obj ?t), rc_bases ?t)"
    using loc(2) inv inv_step [of "(rl_lock (rc_obj s), rc_bases s)" i]
    by (auto simp: rc_inv_def bases rc_bases_def [of s i] fun_upd_idem)
  moreover have "rc_pc_ok (rc_pcs ?t j) (rc_depth ?t j)" for j
    using loc(1) inv by (simp add: rc_inv_def rc_bases_def)
  moreover have "\<exists>h. rc_fields cpu h ?t"
  proof (rule rc_fields_move [OF h, of i])
    have free: "h = None" if "rc_base (rc_pcs s i) (rc_depth s i) = BHeld" "\<not> rc_marked (rc_pcs s i) (rc_depth s i)"
    proof (rule ccontr)
      assume "h \<noteq> None"
      then obtain j where j: "h = Some j" "rc_marked (rc_pcs s j) (rc_depth s j)" using rc_fieldsD(1) [OF h] by blast
      then have "i = j" using rc_inv_excl [OF inv, of i j] that(1) rc_owns_cases(2) [OF j(2)] by (simp add: rc_bases_def)
      with j(2) that(2) show False by simp
    qed
    then have zero: "rl_count (rc_obj s) = 0"
      if "rc_base (rc_pcs s i) (rc_depth s i) = BHeld" "\<not> rc_marked (rc_pcs s i) (rc_depth s i)"
      using rc_fieldsD(3) [OF h] that by (simp add: unat_eq_0)
    from rec_access_fields [OF acc ok c owner count zero assms(4)] free
    show "rc_marked (rc_pcs ?t i) (rc_depth ?t i) = rc_marked (rc_pcs s i) (rc_depth s i) \<and> rl_owner (rc_obj ?t) = rl_owner (rc_obj s) \<and>
        (if rc_marked (rc_pcs s i) (rc_depth s i) then unat (rl_count (rc_obj ?t)) = rc_depth ?t i - 1 else rl_count (rc_obj ?t) = rl_count (rc_obj s)) \<or>
      h = None \<and> rc_marked (rc_pcs ?t i) (rc_depth ?t i) \<and> rl_owner (rc_obj ?t) = cpu i \<and> unat (rl_count (rc_obj ?t)) = rc_depth ?t i - 1 \<or>
      rc_marked (rc_pcs s i) (rc_depth s i) \<and> \<not> rc_marked (rc_pcs ?t i) (rc_depth ?t i) \<and> rl_owner (rc_obj ?t) = RECURSIVE_LOCK_NOCPU \<and> rl_count (rc_obj ?t) = 0"
      by auto
  qed auto
  ultimately show ?thesis using inv i by (simp add: rc_inv_def)
qed

lemma rc_inv_pcs:
  assumes inv: "rc_inv binv cpu N s" and i: "i < N" and ok: "rc_pc_ok p (rc_depth s i)"
    and base: "rc_base p (rc_depth s i) = rc_base (rc_pcs s i) (rc_depth s i)"
    and marked: "rc_marked p (rc_depth s i) = rc_marked (rc_pcs s i) (rc_depth s i)"
  shows "rc_inv binv cpu N (s\<lparr>rc_pcs := (rc_pcs s)(i := p)\<rparr>)" (is "rc_inv binv cpu N ?t")
proof -
  from inv obtain h where h: "rc_fields cpu h s" by (auto simp: rc_inv_def)
  have "rc_bases ?t = rc_bases s" using base by (auto simp: rc_bases_def)
  moreover have "\<exists>h. rc_fields cpu h ?t"
    using marked rc_fieldsD(1) [OF h, of i] rc_fieldsD(3) [OF h] by (intro rc_fields_move [OF h, of i]) auto
  ultimately show ?thesis using inv i ok by (simp add: rc_inv_def)
qed

lemma rc_inv_step:
  assumes inv: "rc_inv binv cpu N s" and cpu: "cpu_ok cpu N" and step: "rec_step B cpu N i s t"
  shows "rc_inv binv cpu N t"
  using step
proof cases
  case (rc_call p)
  have "rc_pc_ok (rc_pcs s i) (rc_depth s i)" using inv by (simp add: rc_inv_def)
  with rc_call show ?thesis by (auto intro!: rc_inv_pcs [OF inv])
next
  case rc_call_rel
  have "rc_pc_ok (rc_pcs s i) (rc_depth s i)" using inv by (simp add: rc_inv_def)
  with rc_call_rel show ?thesis by (auto intro!: rc_inv_pcs [OF inv])
next
  case (rc_run p d l)
  then show ?thesis using rc_inv_run [OF inv cpu] by simp
qed

lemma rc_inv_start: "rec_start B s \<Longrightarrow> rc_inv binv cpu N s"
  using inv_init [of "(rl_lock (rc_obj s), rc_bases s)"]
  by (auto simp: rec_start_def rc_inv_def base_start_def recursive_lock_init_def rc_bases_def rc_fields_def vsync_simps intro!: exI [of _ None])

lemma rc_reach_inv:
  assumes "cpu_ok cpu N" and "reach (rec_start B) (rec_step B cpu N) s"
  shows "rc_inv binv cpu N s"
  using assms(2) by (induction rule: reach.induct) (blast intro: rc_inv_start rc_inv_step [OF _ assms(1)])+

lemma rec_access_depth:
  assumes "rec_access B c p d l = (p', d', l')" and "rc_pc_ok p d"
  shows "d' = d \<or> d' = Suc d \<or> 0 < d \<and> d' = d - 1"
proof (cases p)
  case (RcRel q)
  have "0 < d" using assms(2) RcRel by (cases q) auto
  with RcRel assms(1) show ?thesis by (auto split: prod.splits ctl.splits)
qed (use assms(1) in \<open>auto split: prod.splits ctl.splits sum.splits if_splits\<close>)

lemma rc_depth_step:
  assumes "rec_step B cpu N i s t" and "rc_inv binv cpu N s"
  shows "rc_depth t i = rc_depth s i \<or> rc_depth t i = Suc (rc_depth s i) \<or> 0 < rc_depth s i \<and> rc_depth t i = rc_depth s i - 1"
    and "j \<noteq> i \<Longrightarrow> rc_depth t j = rc_depth s j"
proof -
  have ok: "rc_pc_ok (rc_pcs s i) (rc_depth s i)" using assms(2) by (simp add: rc_inv_def)
  show "rc_depth t i = rc_depth s i \<or> rc_depth t i = Suc (rc_depth s i) \<or> 0 < rc_depth s i \<and> rc_depth t i = rc_depth s i - 1"
    using assms(1) by cases (use rec_access_depth [OF _ ok] in auto)
  show "j \<noteq> i \<Longrightarrow> rc_depth t j = rc_depth s j" using assms(1) by cases auto
qed

lemma rec_refines:
  assumes cpu: "cpu_ok cpu N" and r: "reach (rec_start B) (rec_step B cpu N) s" and step: "rec_step B cpu N i s t"
  shows "rec_lock_spec i (rec_holder s) (rec_holder t)"
proof -
  note s = rc_reach_inv [OF cpu r]
  note t = rc_inv_step [OF s cpu step]
  note own = rc_depth_step(1) [OF step s] and other = rc_depth_step(2) [OF step s]
  show ?thesis
  proof (cases "0 < rc_depth s i")
    case True
    note hs = rc_holder_Some [OF s True]
    show ?thesis
    proof (cases "0 < rc_depth t i")
      case T: True
      note ht = rc_holder_Some [OF t T]
      from own True T hs ht show ?thesis
        using rls_inner [of "rc_depth t i" i] rls_again [of "rc_depth s i" i] rls_skip by (elim disjE) auto
    next
      case False
      have "rc_depth t j = 0" for j
        using False other [of j] rc_depth_excl [OF s True, of j] by (cases "j = i") auto
      then have "rec_holder t = None" by (rule rc_holder_None)
      moreover have "rc_depth s i = 1" using own True False by auto
      ultimately show ?thesis using hs rls_last by simp
    qed
  next
    case False
    show ?thesis
    proof (cases "0 < rc_depth t i")
      case True
      then have one: "rc_depth t i = 1" using own False by auto
      have "rc_depth s j = 0" for j
        using False other [of j] rc_depth_excl [OF t True, of j] by (cases "j = i") auto
      then have "rec_holder s = None" by (rule rc_holder_None)
      with rc_holder_Some [OF t True] one show ?thesis using rls_first [of i] by simp
    next
      case F: False
      then have "rc_depth t j = rc_depth s j" for j using False other [of j] by (cases "j = i") auto
      then have "rec_holder t = rec_holder s" by (simp add: rec_holder_def)
      then show ?thesis by (simp add: rls_skip)
    qed
  qed
qed

lemma rec_count:
  assumes "cpu_ok cpu N" and "reach (rec_start B) (rec_step B cpu N) s" and "rc_pcs s i = RcHeld"
  shows "rl_owner (rc_obj s) = cpu i \<and> unat (rl_count (rc_obj s)) + 1 = rc_depth s i"
proof -
  note inv = rc_reach_inv [OF assms(1,2)]
  then obtain h where h: "rc_fields cpu h s" by (auto simp: rc_inv_def)
  have "h = Some i" using rc_fieldsD(1) [OF h, of i] assms(3) by simp
  moreover have "rc_pc_ok (rc_pcs s i) (rc_depth s i)" using inv by (simp add: rc_inv_def)
  ultimately show ?thesis using rc_fieldsD(2,3) [OF h] assms(3) by simp
qed

lemma rec_no_fault:
  assumes "cpu_ok cpu N" and "reach (rec_start B) (rec_step B cpu N) s"
  shows "rc_pcs s i \<noteq> RcFault e"
proof -
  have "rc_pc_ok (rc_pcs s i) (rc_depth s i)" using rc_reach_inv [OF assms] by (simp add: rc_inv_def)
  then show ?thesis by auto
qed

end

section \<open>rec_spinlock\<close>

definition caslock_try_prog :: "(unit, caslock_t, bool) prog" where
  "caslock_try_prog p c = (let (ok, c') = caslock_tryacquire c in (Ret ok, c'))"

definition caslock_rel_prog :: "(unit, caslock_t, unit) prog" where
  "caslock_rel_prog p c = (Ret (), caslock_release c)"

definition rec_spinlock_init :: "caslock_t recursive_lock_t" where
  "rec_spinlock_init = recursive_lock_init caslock_init"

definition rec_spinlock_acquire :: "u32 \<Rightarrow> (eq_rmw_pc rec_acq_pc, caslock_t recursive_lock_t, unit res) prog" where
  "rec_spinlock_acquire = recursive_lock_acquire caslock_acquire ES_await"

definition rec_spinlock_tryacquire :: "u32 \<Rightarrow> (unit rec_try_pc, caslock_t recursive_lock_t, bool res) prog" where
  "rec_spinlock_tryacquire = recursive_lock_tryacquire caslock_try_prog ()"

definition rec_spinlock_release :: "(unit rec_rel_pc, caslock_t recursive_lock_t, unit) prog" where
  "rec_spinlock_release = recursive_lock_release caslock_rel_prog ()"

definition cas_ops :: "(caslock_t, eq_rmw_pc, unit, unit) base_ops" where
  "cas_ops = \<lparr>b_init = caslock_init, b_acq = caslock_acquire, b_acq0 = ES_await, b_try = caslock_try_prog, b_try0 = (),
     b_rel = caslock_rel_prog, b_rel0 = ()\<rparr>"

fun cas_of :: "(eq_rmw_pc, unit, unit) base_pc \<Rightarrow> cas_pc" where
  "cas_of BIdle = CasIdle"
| "cas_of (BAcq l) = CasAcquire l"
| "cas_of (BTry t) = CasIdle"
| "cas_of BHeld = CasHeld"
| "cas_of (BRel r) = CasHeld"

definition cas_sys_of :: "(caslock_t, eq_rmw_pc, unit, unit) base_sys \<Rightarrow> cas_sys" where
  "cas_sys_of s = \<lparr>cas_lock = fst s, cas_pcs = (\<lambda>i. cas_of (snd s i))\<rparr>"

lemma cas_sys_of_upd:
  "cas_sys_of (l', pcs(i := p)) = (cas_sys_of (l, pcs))\<lparr>cas_lock := l', cas_pcs := (cas_pcs (cas_sys_of (l, pcs)))(i := cas_of p)\<rparr>"
  by (auto simp: cas_sys_of_def)

text \<open>Each step of the base lock as a parameter is a step of \<^verbatim>\<open>caslock\<close>, or none.\<close>

lemma cas_base_step:
  assumes "base_step cas_ops i s t"
  shows "cas_sys_of t = cas_sys_of s \<or> caslock_step i (cas_sys_of s) (cas_sys_of t)"
  using assms
proof cases
  case (base_call pcs p l)
  have "cas_pcs (cas_sys_of (l, pcs)) i = CasIdle" using base_call(3) by (simp add: cas_sys_of_def)
  note cas_call [OF this]
  moreover have "cas_sys_of (l, pcs(i := BAcq ES_await)) =
      (cas_sys_of (l, pcs))\<lparr>cas_pcs := (cas_pcs (cas_sys_of (l, pcs)))(i := CasAcquire ES_await)\<rparr>"
    "cas_sys_of (l, pcs(i := BTry ())) = cas_sys_of (l, pcs)" using base_call(3) by (auto simp: cas_sys_of_def)
  ultimately show ?thesis using base_call(1,2,4) by (auto simp: cas_ops_def)
next
  case (base_acq pcs a l r l')
  have "cas_pcs (cas_sys_of (l, pcs)) i = CasAcquire a" "caslock_acquire a (cas_lock (cas_sys_of (l, pcs))) = (r, l')"
    using base_acq by (simp_all add: cas_sys_of_def cas_ops_def)
  from cas_run [OF this] base_acq show ?thesis by (cases r) (simp_all add: cas_sys_of_upd [of l' _ _ _ l])
next
  case (base_try pcs x l r l')
  obtain ok where ok: "caslock_tryacquire l = (ok, l')" "r = Ret ok"
    using base_try(4) by (auto simp: cas_ops_def caslock_try_prog_def split: prod.splits)
  have "cas_pcs (cas_sys_of (l, pcs)) i = CasIdle" "caslock_tryacquire (cas_lock (cas_sys_of (l, pcs))) = (ok, l')"
    using base_try ok(1) by (simp_all add: cas_sys_of_def)
  from cas_try [OF this] base_try ok(2) show ?thesis by (cases ok) (simp_all add: cas_sys_of_upd [of l' _ _ _ l])
next
  case (base_call_rel pcs l)
  then show ?thesis by (auto simp: cas_sys_of_def)
next
  case (base_rel pcs p l r l')
  have "cas_pcs (cas_sys_of (l, pcs)) i = CasHeld" "cas_lock (cas_sys_of (l, pcs)) = l" using base_rel(3) by (simp_all add: cas_sys_of_def)
  from cas_release [OF this(1)] this(2) base_rel show ?thesis
    by (auto simp: cas_sys_of_upd [of l' _ _ _ l] cas_ops_def caslock_rel_prog_def)
qed

interpretation rec_spin: recursive_over cas_ops "\<lambda>s. cas_inv (cas_sys_of s)"
proof unfold_locales
  show "cas_inv (cas_sys_of s)" if "base_start cas_ops s" for s
    using that by (auto simp: base_start_def cas_inv_def cas_sys_of_def cas_ops_def caslock_init_def)
  show "cas_inv (cas_sys_of t)" if "cas_inv (cas_sys_of s)" "base_step cas_ops i s t" for s i t
    using that(1) cas_base_step [OF that(2)] cas_inv_step by auto
  have own: "base_owns s i \<longleftrightarrow> cas_owns (cas_sys_of s) i" for s i
    by (cases "snd s i") (auto simp: base_owns_def cas_owns_def cas_sys_of_def)
  show "i = j" if "cas_inv (cas_sys_of s)" "base_owns s i" "base_owns s j" for s i j
    using that cas.inv_owns own by blast
  show "base_owns t j \<longleftrightarrow> base_owns s j" if "base_step cas_ops i s t" "j \<noteq> i" for s i t j
    using that by cases (auto simp: base_owns_def)
qed

text \<open>C18: the recursive spinlock refines a recursive lock: each access of any number of threads
  (with distinct identifiers, nested fewer than 2 to the 32 times) that acquire, try to acquire and
  release it leaves the holder alone, or is the first acquisition of a free lock, one more acquisition
  or release by its holder, or the last release.\<close>

theorem rec_spinlock_refines:
  assumes "cpu_ok cpu N" and "reach (rec_start cas_ops) (rec_step cas_ops cpu N) s" and "rec_step cas_ops cpu N i s t"
  shows "rec_lock_spec i (rec_holder s) (rec_holder t)"
  using assms by (rule rec_spin.rec_refines)

text \<open>C31: the fields of the recursive spinlock: while a thread has the lock, the owner field is its
  identifier and the 32-bit counter is one less than the number of times it has the lock; the
  assertion on the identifier never fails.\<close>

theorem rec_spinlock_fields:
  assumes "cpu_ok cpu N" and "reach (rec_start cas_ops) (rec_step cas_ops cpu N) s"
  shows "(rc_pcs s i = RcHeld \<longrightarrow> rl_owner (rc_obj s) = cpu i \<and> unat (rl_count (rc_obj s)) + 1 = rc_depth s i) \<and>
    rc_pcs s i \<noteq> RcFault e"
  using rec_spin.rec_count [OF assms] rec_spin.rec_no_fault [OF assms] by blast

text \<open>An execution: thread 0 acquires the lock twice.\<close>

type_synonym spin_sys = "(caslock_t, eq_rmw_pc, unit, unit) rec_sys"

fun spin_move :: "spin_sys \<Rightarrow> tid \<times> (eq_rmw_pc, unit, unit) rec_pc option \<Rightarrow> spin_sys option" where
  "spin_move s (i, Some p) = (if i < 2 \<and> (rc_pcs s i = RcIdle \<or> rc_pcs s i = RcHeld) \<and> p \<in> {RcAcq RA_owner, RcTry RT_owner}
     then Some (s\<lparr>rc_pcs := (rc_pcs s)(i := p)\<rparr>) else None)"
| "spin_move s (i, None) = (case rec_access cas_ops (of_nat i) (rc_pcs s i) (rc_depth s i) (rc_obj s) of (p, d, l) \<Rightarrow>
     if i < 2 \<and> d < 2 ^ 32 then Some (s\<lparr>rc_obj := l, rc_pcs := (rc_pcs s)(i := p), rc_depth := (rc_depth s)(i := d)\<rparr>) else None)"

definition spin_w0 :: spin_sys where
  "spin_w0 = \<lparr>rc_obj = rec_spinlock_init, rc_pcs = (\<lambda>_. RcIdle), rc_depth = (\<lambda>_. 0)\<rparr>"

lemma spin_move_step:
  assumes "spin_move s x = Some t"
  shows "\<exists>i. rec_step cas_ops of_nat 2 i s t"
proof (cases x)
  case (Pair i c)
  obtain p d l where a: "rec_access cas_ops (of_nat i) (rc_pcs s i) (rc_depth s i) (rc_obj s) = (p, d, l)" by (metis prod_cases3)
  show ?thesis
  proof (cases c)
    case None
    with assms Pair a show ?thesis using rc_run [of i 2 cas_ops of_nat s p d l] by (auto split: if_splits)
  next
    case (Some q)
    with assms Pair show ?thesis using rc_call [of i 2 s q cas_ops of_nat] by (auto split: if_splits)
  qed
qed

lemma spin_w_reach: "play spin_move spin_w0 xs = Some t \<Longrightarrow> reach (rec_start cas_ops) (rec_step cas_ops of_nat 2) t"
  by (rule play_reach [OF spin_move_step]) (auto simp: rec_start_def spin_w0_def rec_spinlock_init_def cas_ops_def)

lemma cpu_ok_2: "cpu_ok of_nat 2"
proof -
  have "(of_nat i :: u32) \<noteq> RECURSIVE_LOCK_NOCPU" if "i < 2" for i
    using that by (auto simp: RECURSIVE_LOCK_NOCPU_def less_2_cases_iff)
  then show ?thesis by (auto simp: cpu_ok_def inj_on_def less_2_cases_iff)
qed

lemmas spin_eval = spin_w0_def rec_spinlock_init_def recursive_lock_init_def cas_ops_def caslock_init_def caslock_acquire_def
  vatomic_await_eq_set_def vatomic_await_eq_def vsync_simps Let_def RECURSIVE_LOCK_NOCPU_def caslock_try_prog_def caslock_tryacquire_def

lemma rec_spinlock_refines_witness:
  "case play spin_move spin_w0 [(0, Some (RcTry RT_owner)), (0, None), (0, None)] of None \<Rightarrow> False
   | Some s \<Rightarrow> (case spin_move s (0, None) of None \<Rightarrow> False
      | Some t \<Rightarrow> rec_lock_spec 0 (rec_holder s) (rec_holder t) \<and> rc_depth s 0 = 0 \<and> rc_depth t 0 = 1)"
proof -
  obtain s where s: "play spin_move spin_w0 [(0, Some (RcTry RT_owner)), (0, None), (0, None)] = Some s"
    "rc_pcs s 0 = RcTry RT_write" "rc_depth s 0 = 0" by (simp add: spin_eval)
  have "rec_step cas_ops of_nat 2 0 s
      (s\<lparr>rc_obj := (rc_obj s)\<lparr>rl_owner := 0\<rparr>, rc_pcs := (rc_pcs s)(0 := RcHeld), rc_depth := (rc_depth s)(0 := 1)\<rparr>)"
    by (rule rc_run) (simp_all add: s vsync_simps)
  from rec_spinlock_refines [OF cpu_ok_2 spin_w_reach [OF s(1)] this] s show ?thesis by (simp add: vsync_simps)
qed

lemma rec_spinlock_fields_witness:
  "case play spin_move spin_w0 [(0, Some (RcTry RT_owner)), (0, None), (0, None), (0, None), (0, Some (RcAcq RA_owner)), (0, None), (0, None)] of
     None \<Rightarrow> False | Some s \<Rightarrow> rc_depth s 0 = 2 \<and> unat (rl_count (rc_obj s)) + 1 = 2"
proof -
  obtain s where s: "play spin_move spin_w0 [(0, Some (RcTry RT_owner)), (0, None), (0, None), (0, None), (0, Some (RcAcq RA_owner)), (0, None), (0, None)] = Some s"
    "rc_pcs s 0 = RcHeld" "rc_depth s 0 = 2" by (simp add: spin_eval)
  from rec_spinlock_fields [OF cpu_ok_2 spin_w_reach [OF s(1)], of 0 AssertFail] s show ?thesis by simp
qed

end
