(* ===== verification/Mcslock.thy ===== *)
theory Mcslock
  imports Vatomic
begin

text \<open>
  The queue lock of Mellor-Crummey and Scott, \<^verbatim>\<open>spinlock/mcslock.h\<close>. Every thread brings one
  node; the address of the node of thread \<open>i\<close> is \<open>Some i\<close> and \<^verbatim>\<open>NULL\<close> is \<open>None\<close>. The
  lock and the nodes are one shared memory. Each operation is a program of single accesses. The
  simulation relation lays the queue of threads out in the memory: each thread's node points to the
  node of the next one as soon as that one has linked itself.
\<close>

section \<open>Operations\<close>

record mcs_node_t =
  mcs_next :: "tid option"
  mcs_locked :: u32

record mcslock_t =
  mcs_tail :: "tid option"

record mcs_mem =
  mcs_lock :: mcslock_t
  mcs_nodes :: "tid \<Rightarrow> mcs_node_t"

definition set_next :: "tid \<Rightarrow> tid option \<Rightarrow> mcs_mem \<Rightarrow> mcs_mem" where
  "set_next n v m = m\<lparr>mcs_nodes := (mcs_nodes m)(n := (mcs_nodes m n)\<lparr>mcs_next := vatomic_write (mcs_next (mcs_nodes m n)) v\<rparr>)\<rparr>"

definition set_locked :: "tid \<Rightarrow> u32 \<Rightarrow> mcs_mem \<Rightarrow> mcs_mem" where
  "set_locked n v m = m\<lparr>mcs_nodes := (mcs_nodes m)(n := (mcs_nodes m n)\<lparr>mcs_locked := vatomic_write (mcs_locked (mcs_nodes m n)) v\<rparr>)\<rparr>"

definition set_tail :: "tid option \<Rightarrow> mcs_mem \<Rightarrow> mcs_mem" where
  "set_tail v m = m\<lparr>mcs_lock := (mcs_lock m)\<lparr>mcs_tail := v\<rparr>\<rparr>"

definition mcslock_init :: mcslock_t where
  "mcslock_init = \<lparr>mcs_tail = vatomic_write None None\<rparr>"

datatype mcs_try_pc = MT_next | MT_locked | MT_cmpxchg

fun mcslock_tryacquire :: "tid \<Rightarrow> mcs_try_pc \<Rightarrow> mcs_mem \<Rightarrow> (mcs_try_pc, bool) ctl \<times> mcs_mem" where
  "mcslock_tryacquire node MT_next m = (Goto MT_locked, set_next node None m)"
| "mcslock_tryacquire node MT_locked m = (Goto MT_cmpxchg, set_locked node 1 m)"
| "mcslock_tryacquire node MT_cmpxchg m =
     (let (pred, t) = vatomic_cmpxchg (mcs_tail (mcs_lock m)) None (Some node) in (Ret (pred = None), set_tail t m))"

datatype mcs_acq_pc = MA_next | MA_locked | MA_xchg | MA_link tid | MA_await

fun mcslock_acquire :: "tid \<Rightarrow> mcs_acq_pc \<Rightarrow> mcs_mem \<Rightarrow> (mcs_acq_pc, unit) ctl \<times> mcs_mem" where
  "mcslock_acquire node MA_next m = (Goto MA_locked, set_next node None m)"
| "mcslock_acquire node MA_locked m = (Goto MA_xchg, set_locked node 1 m)"
| "mcslock_acquire node MA_xchg m =
     (let (pred, t) = vatomic_xchg (mcs_tail (mcs_lock m)) (Some node)
      in ((case pred of None \<Rightarrow> Ret () | Some p \<Rightarrow> Goto (MA_link p)), set_tail t m))"
| "mcslock_acquire node (MA_link pred) m = (Goto MA_await, set_next pred (Some node) m)"
| "mcslock_acquire node MA_await m =
     ((case vatomic_await_eq 0 0 (mcs_locked (mcs_nodes m node)) of Goto _ \<Rightarrow> Goto MA_await | Ret _ \<Rightarrow> Ret ()), m)"

datatype mcs_rel_pc = MR_next | MR_cmpxchg | MR_await | MR_read | MR_write "tid option"

fun mcslock_release :: "tid \<Rightarrow> mcs_rel_pc \<Rightarrow> mcs_mem \<Rightarrow> (mcs_rel_pc, unit res) ctl \<times> mcs_mem" where
  "mcslock_release node MR_next m =
     (if vatomic_read (mcs_next (mcs_nodes m node)) = None then Goto MR_cmpxchg else Goto MR_read, m)"
| "mcslock_release node MR_cmpxchg m =
     (let (nxt, t) = vatomic_cmpxchg (mcs_tail (mcs_lock m)) (Some node) None
      in (if nxt = Some node then Ret (Inr ()) else Goto MR_await, set_tail t m))"
| "mcslock_release node MR_await m =
     ((case vatomic_await_neq None (mcs_next (mcs_nodes m node)) of Goto _ \<Rightarrow> Goto MR_await | Ret _ \<Rightarrow> Goto MR_read), m)"
| "mcslock_release node MR_read m = (Goto (MR_write (vatomic_read (mcs_next (mcs_nodes m node)))), m)"
| "mcslock_release node (MR_write None) m = (Ret (Inl BadAccess), m)"
| "mcslock_release node (MR_write (Some nxt)) m = (Ret (Inr ()), set_locked nxt 0 m)"

definition mcslock_has_waiters :: "tid \<Rightarrow> mcs_mem \<Rightarrow> bool" where
  "mcslock_has_waiters node m \<longleftrightarrow> vatomic_read (mcs_next (mcs_nodes m node)) \<noteq> None"

section \<open>Threads\<close>

datatype mcs_pc = McsIdle | McsAcq mcs_acq_pc | McsTry mcs_try_pc | McsHeld | McsRel mcs_rel_pc | McsFault fault

record mcs_sys =
  mcs_mem_of :: mcs_mem
  mcs_pcs :: "tid \<Rightarrow> mcs_pc"

definition mcslock_start :: "mcs_sys \<Rightarrow> bool" where
  "mcslock_start s \<longleftrightarrow> mcs_lock (mcs_mem_of s) = mcslock_init \<and> (\<forall>i. mcs_pcs s i = McsIdle)"

fun mcs_access :: "tid \<Rightarrow> mcs_pc \<Rightarrow> mcs_mem \<Rightarrow> mcs_pc \<times> mcs_mem" where
  "mcs_access i (McsAcq p) m =
     (case mcslock_acquire i p m of (Goto p', m') \<Rightarrow> (McsAcq p', m') | (Ret _, m') \<Rightarrow> (McsHeld, m'))"
| "mcs_access i (McsTry p) m =
     (case mcslock_tryacquire i p m of (Goto p', m') \<Rightarrow> (McsTry p', m') | (Ret ok, m') \<Rightarrow> (if ok then McsHeld else McsIdle, m'))"
| "mcs_access i (McsRel p) m =
     (case mcslock_release i p m of (Goto p', m') \<Rightarrow> (McsRel p', m') | (Ret (Inr _), m') \<Rightarrow> (McsIdle, m')
      | (Ret (Inl e), m') \<Rightarrow> (McsFault e, m'))"
| "mcs_access i p m = (p, m)"

inductive mcslock_step :: "tid \<Rightarrow> mcs_sys \<Rightarrow> mcs_sys \<Rightarrow> bool" where
  mcs_call: "mcs_pcs s i = McsIdle \<and> p \<in> {McsAcq MA_next, McsTry MT_next} \<or> mcs_pcs s i = McsHeld \<and> p = McsRel MR_next \<Longrightarrow>
     mcslock_step i s (s\<lparr>mcs_pcs := (mcs_pcs s)(i := p)\<rparr>)"
| mcs_run: "mcs_access i (mcs_pcs s i) (mcs_mem_of s) = (p, m) \<Longrightarrow>
     mcslock_step i s (s\<lparr>mcs_mem_of := m, mcs_pcs := (mcs_pcs s)(i := p)\<rparr>)"

definition mcs_owns :: "mcs_sys \<Rightarrow> tid \<Rightarrow> bool" where
  "mcs_owns s i \<longleftrightarrow> (case mcs_pcs s i of McsHeld \<Rightarrow> True | McsRel _ \<Rightarrow> True | _ \<Rightarrow> False)"

text \<open>A thread has its place once it has exchanged the tail, until its release passes the lock on.\<close>

fun mcs_queued :: "mcs_pc \<Rightarrow> bool" where
  "mcs_queued (McsAcq p) \<longleftrightarrow> p = MA_await \<or> (\<exists>a. p = MA_link a)"
| "mcs_queued McsHeld = True"
| "mcs_queued (McsRel p) = True"
| "mcs_queued _ = False"

section \<open>The queue in memory\<close>

abbreviation nxt_of :: "mcs_mem \<Rightarrow> tid \<Rightarrow> tid option" where
  "nxt_of m a \<equiv> mcs_next (mcs_nodes m a)"

abbreviation locked_of :: "mcs_mem \<Rightarrow> tid \<Rightarrow> u32" where
  "locked_of m a \<equiv> mcs_locked (mcs_nodes m a)"

fun mcs_chain :: "mcs_mem \<Rightarrow> (tid \<Rightarrow> mcs_pc) \<Rightarrow> tid list \<Rightarrow> bool" where
  "mcs_chain m pcs [] \<longleftrightarrow> True"
| "mcs_chain m pcs [a] \<longleftrightarrow> nxt_of m a = None"
| "mcs_chain m pcs (a # b # q) \<longleftrightarrow> locked_of m b = 1 \<and>
     (pcs b = McsAcq (MA_link a) \<and> nxt_of m a = None \<or> pcs b = McsAcq MA_await \<and> nxt_of m a = Some b) \<and>
     mcs_chain m pcs (b # q)"

text \<open>The front of the queue has the lock, or is about to see that it has it.\<close>

fun mcs_front :: "mcs_mem \<Rightarrow> mcs_pc \<Rightarrow> tid list \<Rightarrow> bool" where
  "mcs_front m pc [] \<longleftrightarrow> True"
| "mcs_front m pc (a # q) \<longleftrightarrow> (case pc of McsAcq MA_await \<Rightarrow> locked_of m a = 0 | McsHeld \<Rightarrow> True
     | McsRel MR_next \<Rightarrow> True | McsRel MR_cmpxchg \<Rightarrow> True | McsRel MR_await \<Rightarrow> q \<noteq> [] | McsRel MR_read \<Rightarrow> nxt_of m a \<noteq> None
     | McsRel (MR_write n) \<Rightarrow> n \<noteq> None \<and> nxt_of m a = n | _ \<Rightarrow> False)"

text \<open>A thread outside the queue prepares its node.\<close>

fun mcs_outside :: "mcs_mem \<Rightarrow> tid \<Rightarrow> mcs_pc \<Rightarrow> bool" where
  "mcs_outside m a McsIdle \<longleftrightarrow> True"
| "mcs_outside m a (McsAcq MA_next) \<longleftrightarrow> True"
| "mcs_outside m a (McsAcq MA_locked) \<longleftrightarrow> nxt_of m a = None"
| "mcs_outside m a (McsAcq MA_xchg) \<longleftrightarrow> nxt_of m a = None \<and> locked_of m a = 1"
| "mcs_outside m a (McsTry MT_next) \<longleftrightarrow> True"
| "mcs_outside m a (McsTry MT_locked) \<longleftrightarrow> nxt_of m a = None"
| "mcs_outside m a (McsTry MT_cmpxchg) \<longleftrightarrow> nxt_of m a = None \<and> locked_of m a = 1"
| "mcs_outside m a _ \<longleftrightarrow> False"

definition mcs_rel :: "mcs_sys \<Rightarrow> tid list \<Rightarrow> bool" where
  "mcs_rel s q \<longleftrightarrow> distinct q \<and> mcs_tail (mcs_lock (mcs_mem_of s)) = (if q = [] then None else Some (last q)) \<and>
     mcs_chain (mcs_mem_of s) (mcs_pcs s) q \<and> mcs_front (mcs_mem_of s) (mcs_pcs s (hd q)) q \<and>
     (\<forall>i. i \<notin> set q \<longrightarrow> mcs_outside (mcs_mem_of s) i (mcs_pcs s i))"

lemma mem_simps [simp]:
  "nxt_of (set_next n v m) a = (if a = n then v else nxt_of m a)" "locked_of (set_next n v m) a = locked_of m a"
  "nxt_of (set_locked n w m) a = nxt_of m a" "locked_of (set_locked n w m) a = (if a = n then w else locked_of m a)"
  "nxt_of (set_tail t m) a = nxt_of m a" "locked_of (set_tail t m) a = locked_of m a"
  "mcs_lock (set_next n v m) = mcs_lock m" "mcs_lock (set_locked n w m) = mcs_lock m" "mcs_tail (mcs_lock (set_tail t m)) = t"
  by (simp_all add: set_next_def set_locked_def set_tail_def vsync_simps)

lemma in_set_tlD: "b \<in> set (tl q) \<Longrightarrow> b \<in> set q"
  by (cases q) auto

lemma mcs_chain_cong:
  assumes "\<And>a. a \<in> set q \<Longrightarrow> nxt_of m' a = nxt_of m a"
    and "\<And>b. b \<in> set (tl q) \<Longrightarrow> locked_of m' b = locked_of m b \<and> pcs' b = pcs b"
  shows "mcs_chain m' pcs' q = mcs_chain m pcs q"
  using assms by (induction m pcs q rule: mcs_chain.induct) auto

lemma mcs_chain_snoc:
  "mcs_chain m pcs q \<Longrightarrow> q \<noteq> [] \<Longrightarrow> nxt_of m i = None \<Longrightarrow> locked_of m i = 1 \<Longrightarrow> pcs i = McsAcq (MA_link (last q)) \<Longrightarrow>
   mcs_chain m pcs (q @ [i])"
  by (induction m pcs q rule: mcs_chain.induct) auto

lemma mcs_chain_last: "mcs_chain m pcs q \<Longrightarrow> q \<noteq> [] \<Longrightarrow> nxt_of m (last q) = None"
  by (induction m pcs q rule: mcs_chain.induct) auto

lemma mcs_chain_tl:
  "mcs_chain m pcs q \<Longrightarrow> b \<in> set (tl q) \<Longrightarrow>
   locked_of m b = 1 \<and> (pcs b = McsAcq MA_await \<or> (\<exists>a \<in> set q. pcs b = McsAcq (MA_link a)))"
  by (induction m pcs q rule: mcs_chain.induct) auto

lemma mcs_chain_link:
  "mcs_chain m pcs q \<Longrightarrow> distinct q \<Longrightarrow> i \<in> set (tl q) \<Longrightarrow> pcs i = McsAcq (MA_link p) \<Longrightarrow>
   p \<in> set q \<and> p \<noteq> i \<and> mcs_chain (set_next p (Some i) m) (pcs(i := McsAcq MA_await)) q"
proof (induction m pcs q rule: mcs_chain.induct)
  case (3 m pcs a b q)
  define pcs' where "pcs' = pcs(i := McsAcq MA_await)"
  have i: "pcs' i = McsAcq MA_await" "\<And>c. c \<noteq> i \<Longrightarrow> pcs' c = pcs c" by (simp_all add: pcs'_def)
  show ?case unfolding pcs'_def [symmetric]
  proof (cases "i = b")
    case True
    with 3 have p: "p = a" "nxt_of m a = None" by auto
    have "mcs_chain (set_next p (Some i) m) pcs' (b # q) = mcs_chain m pcs (b # q)"
      by (rule mcs_chain_cong) (use 3(3) True p in \<open>auto simp: pcs'_def\<close>)
    with 3 True p i show "p \<in> set (a # b # q) \<and> p \<noteq> i \<and> mcs_chain (set_next p (Some i) m) pcs' (a # b # q)" by auto
  next
    case False
    with 3 have "i \<in> set q" by auto
    with 3 have IH: "p \<in> set (b # q) \<and> p \<noteq> i \<and> mcs_chain (set_next p (Some i) m) pcs' (b # q)"
      by (intro "3.IH" [folded pcs'_def]) auto
    then have "p \<noteq> a" using 3(3) by auto
    with IH 3 False i show "p \<in> set (a # b # q) \<and> p \<noteq> i \<and> mcs_chain (set_next p (Some i) m) pcs' (a # b # q)" by auto
  qed
qed auto

section \<open>Simulation\<close>

text \<open>A thread outside the queue that touches only its own node.\<close>

lemma mcs_rel_outside:
  assumes rel: "mcs_rel s q" and i: "i \<notin> set q" and out: "mcs_outside m i p"
    and tail: "mcs_lock m = mcs_lock (mcs_mem_of s)" and "\<And>a. a \<noteq> i \<Longrightarrow> mcs_nodes m a = mcs_nodes (mcs_mem_of s) a"
  shows "mcs_rel (s\<lparr>mcs_mem_of := m, mcs_pcs := (mcs_pcs s)(i := p)\<rparr>) q"
proof -
  have nodes: "mcs_nodes m a = mcs_nodes (mcs_mem_of s) a" if "a \<in> set q" for a
    using assms(5) i that by metis
  have "mcs_chain m ((mcs_pcs s)(i := p)) q = mcs_chain (mcs_mem_of s) (mcs_pcs s) q"
    by (rule mcs_chain_cong) (use i nodes in \<open>auto dest: in_set_tlD\<close>)
  moreover have "mcs_front m (((mcs_pcs s)(i := p)) (hd q)) q = mcs_front (mcs_mem_of s) (mcs_pcs s (hd q)) q"
    using i nodes by (cases q) (auto split: mcs_pc.splits mcs_acq_pc.splits mcs_rel_pc.splits)
  moreover have "mcs_outside m j (mcs_pcs s j)" if "j \<notin> set q" "j \<noteq> i" for j
    using rel that assms(5) by (cases "(m, j, mcs_pcs s j)" rule: mcs_outside.cases) (auto simp: mcs_rel_def dest!: spec [of _ j])
  ultimately show ?thesis using rel out tail by (simp add: mcs_rel_def)
qed

text \<open>The front moves without changing the memory.\<close>

lemma mcs_rel_front:
  assumes rel: "mcs_rel s (i # q)" and "mcs_front (mcs_mem_of s) p (i # q)"
  shows "mcs_rel (s\<lparr>mcs_pcs := (mcs_pcs s)(i := p)\<rparr>) (i # q)"
proof -
  have "mcs_chain (mcs_mem_of s) ((mcs_pcs s)(i := p)) (i # q) = mcs_chain (mcs_mem_of s) (mcs_pcs s) (i # q)"
    by (rule mcs_chain_cong) (use rel in \<open>auto simp: mcs_rel_def\<close>)
  with assms show ?thesis by (simp add: mcs_rel_def)
qed

lemma mcs_in_queue:
  assumes "mcs_rel s q" and "\<not> mcs_outside (mcs_mem_of s) i (mcs_pcs s i)"
  shows "i \<in> set q"
  using assms by (auto simp: mcs_rel_def)

lemma mcs_is_front:
  assumes rel: "mcs_rel s q" and pc: "mcs_pcs s i = McsHeld \<or> (\<exists>r. mcs_pcs s i = McsRel r)"
  obtains r where "q = i # r"
proof -
  have i: "i \<in> set q" by (rule mcs_in_queue [OF rel]) (use pc in auto)
  moreover have "i \<notin> set (tl q)"
    using mcs_chain_tl [of "mcs_mem_of s" "mcs_pcs s" q i] rel pc by (auto simp: mcs_rel_def)
  ultimately show thesis by (cases q) (auto intro: that)
qed

lemma mcs_sim_enter:
  assumes rel: "mcs_rel s q" and i: "i \<notin> set q" and node: "nxt_of (mcs_mem_of s) i = None" "locked_of (mcs_mem_of s) i = 1"
    and p: "p = (if q = [] then McsHeld else McsAcq (MA_link (last q)))"
  shows "mcs_rel (s\<lparr>mcs_mem_of := set_tail (Some i) (mcs_mem_of s), mcs_pcs := (mcs_pcs s)(i := p)\<rparr>) (q @ [i])"
proof -
  let ?m = "set_tail (Some i) (mcs_mem_of s)" and ?pcs = "(mcs_pcs s)(i := p)"
  have out: "mcs_outside ?m j (mcs_pcs s j)" if "j \<notin> set q" for j
    using rel that by (cases "(?m, j, mcs_pcs s j)" rule: mcs_outside.cases) (auto simp: mcs_rel_def dest!: spec [of _ j])
  have "mcs_chain ?m ?pcs q = mcs_chain (mcs_mem_of s) (mcs_pcs s) q"
    by (rule mcs_chain_cong) (use i in \<open>auto dest: in_set_tlD\<close>)
  then have chain: "mcs_chain ?m ?pcs q" using rel by (simp add: mcs_rel_def)
  show ?thesis
  proof (cases q)
    case Nil
    with p node i out show ?thesis by (simp add: mcs_rel_def)
  next
    case (Cons a r)
    have "mcs_chain ?m ?pcs (q @ [i])" using chain Cons node p by (intro mcs_chain_snoc) auto
    moreover have "mcs_front ?m (?pcs (hd q)) (q @ [i])"
      using rel Cons i by (auto simp: mcs_rel_def split: mcs_pc.splits mcs_acq_pc.splits mcs_rel_pc.splits)
    ultimately show ?thesis using rel i out Cons by (simp add: mcs_rel_def)
  qed
qed

lemma mcs_sim_link:
  assumes rel: "mcs_rel s q" and pc: "mcs_pcs s i = McsAcq (MA_link p)"
  shows "mcs_rel (s\<lparr>mcs_mem_of := set_next p (Some i) (mcs_mem_of s), mcs_pcs := (mcs_pcs s)(i := McsAcq MA_await)\<rparr>) q"
proof -
  let ?m = "set_next p (Some i) (mcs_mem_of s)" and ?pcs = "(mcs_pcs s)(i := McsAcq MA_await)"
  have "i \<in> set q" by (rule mcs_in_queue [OF rel]) (simp add: pc)
  then have "hd q \<noteq> i"
    using rel pc \<open>i \<in> set q\<close> by (cases q) (auto simp: mcs_rel_def)
  with \<open>i \<in> set q\<close> have i: "i \<in> set (tl q)" by (cases q) auto
  have ch: "p \<in> set q" "mcs_chain ?m ?pcs q"
    using mcs_chain_link [of "mcs_mem_of s" "mcs_pcs s" q i p] rel i pc by (auto simp: mcs_rel_def)
  obtain a b r where q: "q = a # b # r" using i by (cases q; cases "tl q") auto
  have "i \<noteq> a" using \<open>hd q \<noteq> i\<close> q by simp
  then have "mcs_front ?m (?pcs (hd q)) q"
    using rel q ch by (auto simp: mcs_rel_def split: mcs_pc.splits mcs_acq_pc.splits mcs_rel_pc.splits option.splits)
  moreover have "mcs_outside ?m j (mcs_pcs s j)" if "j \<notin> set q" for j
  proof -
    have "j \<noteq> p" "mcs_outside (mcs_mem_of s) j (mcs_pcs s j)" using that ch rel by (auto simp: mcs_rel_def)
    then show ?thesis by (cases "(?m, j, mcs_pcs s j)" rule: mcs_outside.cases) auto
  qed
  ultimately show ?thesis using rel ch \<open>i \<in> set q\<close> by (simp add: mcs_rel_def)
qed

text \<open>The front hands the lock to the thread behind it.\<close>

lemma mcs_sim_pass:
  assumes rel: "mcs_rel s (i # q)" and n: "nxt_of (mcs_mem_of s) i = Some n"
  shows "mcs_rel (s\<lparr>mcs_mem_of := set_locked n 0 (mcs_mem_of s), mcs_pcs := (mcs_pcs s)(i := McsIdle)\<rparr>) q"
proof -
  let ?m = "set_locked n 0 (mcs_mem_of s)" and ?pcs = "(mcs_pcs s)(i := McsIdle)"
  have ch: "mcs_chain (mcs_mem_of s) (mcs_pcs s) (i # q)" and dist: "distinct (i # q)" using rel by (simp_all add: mcs_rel_def)
  then obtain r where q: "q = n # r" and pc: "mcs_pcs s n = McsAcq MA_await"
    using n by (cases q) auto
  have "mcs_chain ?m ?pcs q = mcs_chain (mcs_mem_of s) (mcs_pcs s) q"
    by (rule mcs_chain_cong) (use dist q in auto)
  then have "mcs_chain ?m ?pcs q" using ch q by simp
  moreover have "mcs_front ?m (?pcs (hd q)) q" using q pc dist by auto
  moreover have "mcs_outside ?m j (?pcs j)" if "j \<notin> set q" for j
  proof (cases "j = i")
    case False
    then have "mcs_outside (mcs_mem_of s) j (mcs_pcs s j)" "j \<noteq> n" using rel that q by (auto simp: mcs_rel_def)
    with False show ?thesis by (cases "(?m, j, mcs_pcs s j)" rule: mcs_outside.cases) auto
  qed simp
  ultimately show ?thesis using rel q by (simp add: mcs_rel_def)
qed

lemma mcs_sim_leave:
  assumes rel: "mcs_rel s [i]"
  shows "mcs_rel (s\<lparr>mcs_mem_of := set_tail None (mcs_mem_of s), mcs_pcs := (mcs_pcs s)(i := McsIdle)\<rparr>) []"
proof -
  have "mcs_outside (set_tail None (mcs_mem_of s)) j (((mcs_pcs s)(i := McsIdle)) j)" for j
  proof (cases "j = i")
    case False
    then have "mcs_outside (mcs_mem_of s) j (mcs_pcs s j)" using rel by (auto simp: mcs_rel_def)
    with False show ?thesis by (cases "(mcs_mem_of s, j, mcs_pcs s j)" rule: mcs_outside.cases) auto
  qed simp
  then show ?thesis by (simp add: mcs_rel_def)
qed

lemma set_tail_same: "set_tail (mcs_tail (mcs_lock m)) m = m"
  by (simp add: set_tail_def)

lemma mcs_sim_acquire:
  assumes rel: "mcs_rel s q" and pc: "mcs_pcs s i = McsAcq p" and acc: "mcs_access i (McsAcq p) (mcs_mem_of s) = (p', m)"
  shows "\<exists>q'. mcs_rel (s\<lparr>mcs_mem_of := m, mcs_pcs := (mcs_pcs s)(i := p')\<rparr>) q' \<and> (q' = q \<or> qlock_spec i q q')"
proof (cases p)
  case MA_next
  then have "i \<notin> set q"
    using mcs_chain_tl [of "mcs_mem_of s" "mcs_pcs s" q i] rel pc by (cases q) (auto simp: mcs_rel_def)
  then show ?thesis using acc MA_next by (intro exI [of _ q]) (auto intro!: mcs_rel_outside [OF rel] simp: set_next_def vsync_simps)
next
  case MA_locked
  then have i: "i \<notin> set q"
    using mcs_chain_tl [of "mcs_mem_of s" "mcs_pcs s" q i] rel pc by (cases q) (auto simp: mcs_rel_def)
  then have "mcs_outside (mcs_mem_of s) i (mcs_pcs s i)" using rel by (simp add: mcs_rel_def)
  with i show ?thesis using acc MA_locked pc by (intro exI [of _ q]) (auto intro!: mcs_rel_outside [OF rel] simp: set_locked_def vsync_simps)
next
  case MA_xchg
  then have i: "i \<notin> set q"
    using mcs_chain_tl [of "mcs_mem_of s" "mcs_pcs s" q i] rel pc by (cases q) (auto simp: mcs_rel_def)
  then have out: "mcs_outside (mcs_mem_of s) i (mcs_pcs s i)" using rel by (simp add: mcs_rel_def)
  have "m = set_tail (Some i) (mcs_mem_of s)" "p' = (if q = [] then McsHeld else McsAcq (MA_link (last q)))"
    using acc MA_xchg rel by (auto simp: vsync_simps mcs_rel_def split: if_splits)
  with mcs_sim_enter [OF rel i] out MA_xchg pc show ?thesis by (intro exI [of _ "q @ [i]"]) (simp add: q_enter i)
next
  case (MA_link a)
  with acc mcs_sim_link [OF rel] pc show ?thesis by (intro exI [of _ q]) auto
next
  case MA_await
  have "i \<in> set q" by (rule mcs_in_queue [OF rel]) (simp add: pc MA_await)
  show ?thesis
  proof (cases "locked_of (mcs_mem_of s) i = 0")
    case True
    then have "i \<notin> set (tl q)" using mcs_chain_tl [of "mcs_mem_of s" "mcs_pcs s" q i] rel by (auto simp: mcs_rel_def)
    with \<open>i \<in> set q\<close> obtain r where q: "q = i # r" by (cases q) auto
    have "m = mcs_mem_of s" "p' = McsHeld" using acc MA_await True by (auto simp: vatomic_await_eq_def vsync_simps)
    with mcs_rel_front [of s i r McsHeld] rel q show ?thesis by (intro exI [of _ q]) simp
  next
    case False
    then have "m = mcs_mem_of s" "p' = mcs_pcs s i" using acc MA_await pc by (auto simp: vatomic_await_eq_def vsync_simps)
    with rel show ?thesis by (intro exI [of _ q]) simp
  qed
qed

lemma mcs_sim_try:
  assumes rel: "mcs_rel s q" and pc: "mcs_pcs s i = McsTry p" and acc: "mcs_access i (McsTry p) (mcs_mem_of s) = (p', m)"
  shows "\<exists>q'. mcs_rel (s\<lparr>mcs_mem_of := m, mcs_pcs := (mcs_pcs s)(i := p')\<rparr>) q' \<and> (q' = q \<or> qlock_spec i q q')"
proof -
  have i: "i \<notin> set q"
    using mcs_chain_tl [of "mcs_mem_of s" "mcs_pcs s" q i] rel pc by (cases q) (auto simp: mcs_rel_def)
  then have out: "mcs_outside (mcs_mem_of s) i (McsTry p)" using rel pc unfolding mcs_rel_def by metis
  show ?thesis
  proof (cases p)
    case MT_next
    then show ?thesis using acc i by (intro exI [of _ q]) (auto intro!: mcs_rel_outside [OF rel] simp: set_next_def vsync_simps)
  next
    case MT_locked
    then show ?thesis using acc i out by (intro exI [of _ q]) (auto intro!: mcs_rel_outside [OF rel] simp: set_locked_def vsync_simps)
  next
    case MT_cmpxchg
    show ?thesis
    proof (cases "q = []")
      case True
      then have "m = set_tail (Some i) (mcs_mem_of s)" "p' = McsHeld"
        using acc MT_cmpxchg rel by (auto simp: vsync_simps mcs_rel_def)
      with mcs_sim_enter [OF rel i, of McsHeld] out MT_cmpxchg True q_enter [OF i] show ?thesis by (intro exI [of _ "q @ [i]"]) simp
    next
      case False
      then have "m = mcs_mem_of s" "p' = McsIdle"
        using acc MT_cmpxchg rel set_tail_same [of "mcs_mem_of s"] by (auto simp: vsync_simps mcs_rel_def)
      with mcs_rel_outside [OF rel i, of "mcs_mem_of s" McsIdle] show ?thesis by (intro exI [of _ q]) simp
    qed
  qed
qed

lemma mcs_sim_release:
  assumes rel: "mcs_rel s q" and pc: "mcs_pcs s i = McsRel p" and acc: "mcs_access i (McsRel p) (mcs_mem_of s) = (p', m)"
  shows "\<exists>q'. mcs_rel (s\<lparr>mcs_mem_of := m, mcs_pcs := (mcs_pcs s)(i := p')\<rparr>) q' \<and> (q' = q \<or> qlock_spec i q q')"
proof -
  obtain r where q: "q = i # r" using mcs_is_front [OF rel] pc by blast
  with rel have rel': "mcs_rel s (i # r)" by simp
  then have front: "mcs_front (mcs_mem_of s) (McsRel p) (i # r)" using pc by (simp add: mcs_rel_def)
  have stay: "mcs_rel (s\<lparr>mcs_mem_of := mcs_mem_of s, mcs_pcs := (mcs_pcs s)(i := p')\<rparr>) q" if "mcs_front (mcs_mem_of s) p' (i # r)"
    using mcs_rel_front [OF rel' that] q by simp
  show ?thesis
  proof (cases p)
    case MR_next
    then have "m = mcs_mem_of s" "mcs_front (mcs_mem_of s) p' (i # r)" using acc by (auto simp: vsync_simps split: if_splits)
    with stay show ?thesis by blast
  next
    case MR_cmpxchg
    have tail: "mcs_tail (mcs_lock (mcs_mem_of s)) = Some (last q)" "distinct q" using rel q by (simp_all add: mcs_rel_def)
    show ?thesis
    proof (cases r)
      case Nil
      then have "m = set_tail None (mcs_mem_of s)" "p' = McsIdle" using acc MR_cmpxchg tail q by (auto simp: vsync_simps)
      with mcs_sim_leave [of s i] rel' q Nil q_leave [of i "[]"] show ?thesis by (intro exI [of _ "[]"]) simp
    next
      case (Cons a r')
      then have "last q \<noteq> i" using tail(2) q by (metis distinct.simps(2) last_ConsR last_in_set list.distinct(1))
      then have "m = mcs_mem_of s" "p' = McsRel MR_await"
        using acc MR_cmpxchg tail set_tail_same [of "mcs_mem_of s"] by (auto simp: vsync_simps)
      with stay Cons show ?thesis by auto
    qed
  next
    case MR_await
    then have "m = mcs_mem_of s" "mcs_front (mcs_mem_of s) p' (i # r)"
      using acc front by (auto simp: vatomic_await_neq_def vsync_simps Let_def split: if_splits)
    with stay show ?thesis by blast
  next
    case MR_read
    then have "m = mcs_mem_of s" "mcs_front (mcs_mem_of s) p' (i # r)" using acc front by (auto simp: vsync_simps)
    with stay show ?thesis by blast
  next
    case (MR_write n)
    then obtain a where "n = Some a" "nxt_of (mcs_mem_of s) i = Some a" using front by auto
    with acc MR_write mcs_sim_pass [OF rel'] q q_leave [of i r] show ?thesis by (intro exI [of _ r]) auto
  qed
qed

lemma mcs_sim_step:
  assumes rel: "mcs_rel s q" and step: "mcslock_step i s t"
  shows "\<exists>q'. mcs_rel t q' \<and> (q' = q \<or> qlock_spec i q q')"
  using step
proof cases
  case (mcs_call p)
  show ?thesis
  proof (cases "mcs_pcs s i = McsIdle")
    case True
    then have "i \<notin> set q"
      using mcs_chain_tl [of "mcs_mem_of s" "mcs_pcs s" q i] rel by (cases q) (auto simp: mcs_rel_def)
    with mcs_rel_outside [OF rel this, of "mcs_mem_of s" p] mcs_call True show ?thesis by (intro exI [of _ q]) auto
  next
    case False
    with mcs_call have held: "mcs_pcs s i = McsHeld" "p = McsRel MR_next" by auto
    then obtain r where "q = i # r" using mcs_is_front [OF rel] by blast
    with mcs_rel_front [of s i r p] rel held mcs_call(1) show ?thesis by (intro exI [of _ q]) simp
  qed
next
  case (mcs_run p m)
  show ?thesis
  proof (cases "mcs_pcs s i")
    case (McsAcq x)
    with mcs_sim_acquire [OF rel McsAcq] mcs_run show ?thesis by simp
  next
    case (McsTry x)
    with mcs_sim_try [OF rel McsTry] mcs_run show ?thesis by simp
  next
    case (McsRel x)
    with mcs_sim_release [OF rel McsRel] mcs_run show ?thesis by simp
  qed (use mcs_run rel fun_upd_triv [of "mcs_pcs s" i] in \<open>auto intro!: exI [of _ q]\<close>)
qed

lemma mcs_rel_queued:
  assumes rel: "mcs_rel s q"
  shows "i \<in> set q \<longleftrightarrow> mcs_queued (mcs_pcs s i)"
proof
  assume i: "i \<in> set q"
  show "mcs_queued (mcs_pcs s i)"
  proof (cases "i \<in> set (tl q)")
    case True
    then show ?thesis using mcs_chain_tl [of "mcs_mem_of s" "mcs_pcs s" q i] rel by (auto simp: mcs_rel_def)
  next
    case False
    with i obtain r where "q = i # r" by (cases q) auto
    with rel have "mcs_front (mcs_mem_of s) (mcs_pcs s i) (i # r)" by (simp add: mcs_rel_def)
    then show ?thesis by (auto split: mcs_pc.splits mcs_acq_pc.splits)
  qed
next
  assume "mcs_queued (mcs_pcs s i)"
  then show "i \<in> set q"
    using mcs_in_queue [OF rel, of i] by (cases "(mcs_mem_of s, i, mcs_pcs s i)" rule: mcs_outside.cases) auto
qed

lemma mcs_access_leaves:
  assumes "mcs_access i p m = (p', m')" and "mcs_queued p" and "\<not> mcs_queued p'"
  shows "\<exists>x. p = McsRel x"
  using assms by (cases p) (auto simp: vatomic_await_eq_def vsync_simps Let_def split: if_splits)

interpretation mcs: fifo_lock mcslock_start mcslock_step mcs_rel mcs_owns "\<lambda>s i. mcs_queued (mcs_pcs s i)"
proof unfold_locales
  show "\<exists>q. q = [] \<and> mcs_rel s q" if "mcslock_start s" for s
    using that by (simp add: mcslock_start_def mcs_rel_def mcslock_init_def vsync_simps)
  show "\<exists>q'. mcs_rel t q' \<and> (q' = q \<or> qlock_spec i q q')" if "mcs_rel s q" "mcslock_step i s t" for s q i t
    using that by (rule mcs_sim_step)
  show "q \<noteq> [] \<and> hd q = i" if rel: "mcs_rel s q" and own: "mcs_owns s i" for s q i
  proof -
    have "mcs_pcs s i = McsHeld \<or> (\<exists>r. mcs_pcs s i = McsRel r)" using own by (simp add: mcs_owns_def split: mcs_pc.splits)
    then obtain r where "q = i # r" using mcs_is_front [OF rel] by blast
    then show ?thesis by simp
  qed
  show "distinct q \<and> set q = {i. mcs_queued (mcs_pcs s i)}" if "mcs_rel s q" for s q
    using that mcs_rel_queued [OF that] by (auto simp: mcs_rel_def)
  show "mcs_queued (mcs_pcs t j) = mcs_queued (mcs_pcs s j) \<and> mcs_owns t j = mcs_owns s j"
    if "mcslock_step i s t" "j \<noteq> i" for s t i j
    using that by (auto simp: mcs_owns_def elim!: mcslock_step.cases)
  show "mcs_owns t i" if st: "mcslock_step i s t" and o: "mcs_owns s i" "mcs_queued (mcs_pcs t i)" for s t i
    using st
  proof cases
    case (mcs_run p m)
    with o show ?thesis
      by (cases "mcs_pcs s i") (auto simp: mcs_owns_def split: prod.splits ctl.splits sum.splits)
  qed (use o in \<open>auto simp: mcs_owns_def\<close>)
  show "mcs_owns s i" if st: "mcslock_step i s t" and o: "mcs_queued (mcs_pcs s i)" "\<not> mcs_queued (mcs_pcs t i)" for s t i
    using st
  proof cases
    case (mcs_run p m)
    then show ?thesis using mcs_access_leaves [OF mcs_run(2) o(1)] o(2) by (auto simp: mcs_owns_def)
  qed (use o in \<open>auto simp: mcs_owns_def\<close>)
qed

section \<open>Properties\<close>

text \<open>C9: the MCS lock is a first-in-first-out lock for any number of threads that acquire, try to acquire
  and release in any interleaving. Over every execution, the threads entered the lock exactly in the order
  in which they exchanged the tail, and those that exchanged it and have not entered are waiting. The
  owner, if there is one, followed by the waiting threads is the queue laid out in the nodes: the tail is
  the node of the last one, each node points to the node of the next thread or that thread is about to
  write this pointer, and every thread behind the first has its flag set. When nobody owns the lock, the first
  waiting thread's next read of its flag gives it the lock; and \<^verbatim>\<open>mcslock_has_waiters\<close> of an owner is
  true exactly when the first waiting thread has linked itself.\<close>

theorem mcslock_fifo:
  assumes "lock_hist mcslock_start mcslock_step (\<lambda>s i. mcs_queued (mcs_pcs s i)) mcs_owns s joined entered"
  shows "\<exists>pre waiting. fifo_order (\<lambda>i. mcs_queued (mcs_pcs s i)) (mcs_owns s) joined entered waiting \<and>
    length pre = held (mcs_owns s) \<and> (\<forall>i \<in> set pre. mcs_owns s i) \<and>
    mcs_tail (mcs_lock (mcs_mem_of s)) = (if pre @ waiting = [] then None else Some (last (pre @ waiting))) \<and>
    mcs_chain (mcs_mem_of s) (mcs_pcs s) (pre @ waiting) \<and>
    ((\<nexists>i. mcs_owns s i) \<and> waiting \<noteq> [] \<longrightarrow> mcs_pcs s (hd waiting) = McsAcq MA_await \<and>
       mcslock_acquire (hd waiting) MA_await (mcs_mem_of s) = (Ret (), mcs_mem_of s)) \<and>
    (\<forall>i. mcs_owns s i \<longrightarrow> (mcslock_has_waiters i (mcs_mem_of s) \<longleftrightarrow>
       waiting \<noteq> [] \<and> mcs_pcs s (hd waiting) = McsAcq MA_await))"
proof -
  let ?m = "mcs_mem_of s"
  obtain pre waiting where w: "fifo_order (\<lambda>i. mcs_queued (mcs_pcs s i)) (mcs_owns s) joined entered waiting"
    and rel: "mcs_rel s (pre @ waiting)" and pre: "length pre = held (mcs_owns s)" "\<forall>i\<in>set pre. mcs_owns s i"
    using mcs.hist_fifo [OF assms] by blast
  have ch: "mcs_chain ?m (mcs_pcs s) (pre @ waiting)" and fr: "mcs_front ?m (mcs_pcs s (hd (pre @ waiting))) (pre @ waiting)"
    using rel by (simp_all add: mcs_rel_def)
  have front: "mcs_pcs s (hd waiting) = McsAcq MA_await" "mcslock_acquire (hd waiting) MA_await ?m = (Ret (), ?m)"
    if no: "\<nexists>i. mcs_owns s i" and ne: "waiting \<noteq> []"
  proof -
    obtain a r where a: "waiting = a # r" using ne by (cases waiting) auto
    have "pre = []" using pre(1) no by (auto simp: held_def)
    then have "mcs_front ?m (mcs_pcs s a) (a # r)" using fr a by simp
    moreover have "\<not> mcs_owns s a" using no by blast
    ultimately have "mcs_pcs s a = McsAcq MA_await \<and> locked_of ?m a = 0"
      by (auto simp: mcs_owns_def split: mcs_pc.splits mcs_acq_pc.splits)
    then show "mcs_pcs s (hd waiting) = McsAcq MA_await" "mcslock_acquire (hd waiting) MA_await ?m = (Ret (), ?m)"
      using a by (simp_all add: vatomic_await_eq_def vsync_simps)
  qed
  have waits: "mcslock_has_waiters i ?m \<longleftrightarrow> waiting \<noteq> [] \<and> mcs_pcs s (hd waiting) = McsAcq MA_await"
    if i: "mcs_owns s i" for i
  proof -
    have "length pre = 1" using pre(1) i by (auto simp: held_def)
    then obtain a where "pre = [a]" by (auto simp: length_Suc_conv)
    moreover from this have "a = i" using mcs.rel_owns [OF rel i] by simp
    ultimately show ?thesis using ch by (cases waiting) (auto simp: mcslock_has_waiters_def vsync_simps)
  qed
  have tail: "mcs_tail (mcs_lock ?m) = (if pre @ waiting = [] then None else Some (last (pre @ waiting)))"
    using rel by (simp add: mcs_rel_def)
  show ?thesis
    by (rule exI [of _ pre], rule exI [of _ waiting], intro conjI allI impI w pre tail ch front waits) auto
qed

text \<open>No two threads own the MCS lock, and \<^verbatim>\<open>mcslock_release\<close> never follows a \<^verbatim>\<open>NULL\<close>
  pointer to the next node.\<close>

theorem mcslock_safe:
  assumes "reach mcslock_start mcslock_step s"
  shows "(mcs_owns s i \<and> mcs_owns s j \<longrightarrow> i = j) \<and> mcs_pcs s i \<noteq> McsFault e"
proof -
  obtain q where q: "mcs_rel s q" using mcs.fifo [OF assms] by blast
  have "mcs_pcs s i \<noteq> McsFault e"
  proof
    assume f: "mcs_pcs s i = McsFault e"
    have "i \<in> set q" by (rule mcs_in_queue [OF q]) (simp add: f)
    then show False
      using mcs_chain_tl [of "mcs_mem_of s" "mcs_pcs s" q i] q f by (cases q) (auto simp: mcs_rel_def)
  qed
  with mcs.exclusion [OF assms] show ?thesis by blast
qed

text \<open>An execution: thread 0 has the lock, thread 1 is queued behind it and linked.\<close>

fun mcs_move :: "mcs_sys \<Rightarrow> tid \<times> mcs_pc option \<Rightarrow> mcs_sys option" where
  "mcs_move s (i, Some p) = (if mcs_pcs s i = McsIdle \<and> p \<in> {McsAcq MA_next, McsTry MT_next} \<or> mcs_pcs s i = McsHeld \<and> p = McsRel MR_next
     then Some (s\<lparr>mcs_pcs := (mcs_pcs s)(i := p)\<rparr>) else None)"
| "mcs_move s (i, None) = (case mcs_access i (mcs_pcs s i) (mcs_mem_of s) of (p, m) \<Rightarrow>
     Some (s\<lparr>mcs_mem_of := m, mcs_pcs := (mcs_pcs s)(i := p)\<rparr>))"

lemma mcs_move_step: "mcs_move s x = Some t \<Longrightarrow> mcslock_step (fst x) s t"
  by (cases x; cases "snd x") (auto split: if_splits prod.splits intro: mcs_call mcs_run)

definition mcs_w0 :: mcs_sys where
  "mcs_w0 = \<lparr>mcs_mem_of = \<lparr>mcs_lock = mcslock_init, mcs_nodes = (\<lambda>_. \<lparr>mcs_next = None, mcs_locked = 7\<rparr>)\<rparr>, mcs_pcs = (\<lambda>_. McsIdle)\<rparr>"

abbreviation mcs_run_w :: "(tid \<times> mcs_pc option) list" where
  "mcs_run_w \<equiv> [(0, Some (McsTry MT_next)), (0, None), (0, None), (0, None),
     (1, Some (McsAcq MA_next)), (1, None), (1, None), (1, None), (1, None)]"

definition mcs_w1 :: mcs_sys where "mcs_w1 = the (play mcs_move mcs_w0 mcs_run_w)"

lemmas mcs_eval = mcs_w0_def mcslock_init_def set_next_def set_locked_def set_tail_def vsync_simps Let_def

lemma mcs_w1_hist:
  "lock_hist mcslock_start mcslock_step (\<lambda>s i. mcs_queued (mcs_pcs s i)) mcs_owns mcs_w1 [0, 1] [0]"
proof -
  have "mcslock_start mcs_w0" by (simp add: mcslock_start_def mcs_w0_def)
  moreover have "play mcs_move mcs_w0 mcs_run_w = Some mcs_w1" by (simp add: mcs_w1_def mcs_eval)
  moreover have "play_hist mcs_move fst (\<lambda>s i. mcs_queued (mcs_pcs s i)) mcs_w0 mcs_run_w = [0, 1]"
    "play_hist mcs_move fst mcs_owns mcs_w0 mcs_run_w = [0]" by (simp_all add: mcs_eval turned_def mcs_owns_def)
  ultimately show ?thesis using play_lock_hist [of mcs_move mcslock_step fst, OF mcs_move_step] by metis
qed

lemma mcs_w1_state:
  "mcs_pcs mcs_w1 0 = McsHeld" "mcs_pcs mcs_w1 1 = McsAcq MA_await" "nxt_of (mcs_mem_of mcs_w1) 0 = Some 1"
  by (simp_all add: mcs_w1_def mcs_eval)

lemma mcslock_fifo_witness:
  "mcs_owns mcs_w1 0 \<and> mcslock_has_waiters 0 (mcs_mem_of mcs_w1) \<and>
   fifo_order (\<lambda>i. mcs_queued (mcs_pcs mcs_w1 i)) (mcs_owns mcs_w1) [0, 1] [0] [1]"
proof -
  have o: "mcs_owns mcs_w1 0" by (simp add: mcs_owns_def mcs_w1_state)
  obtain waiting where w: "fifo_order (\<lambda>i. mcs_queued (mcs_pcs mcs_w1 i)) (mcs_owns mcs_w1) [0, 1] [0] waiting"
    "mcslock_has_waiters 0 (mcs_mem_of mcs_w1) \<longleftrightarrow> waiting \<noteq> [] \<and> mcs_pcs mcs_w1 (hd waiting) = McsAcq MA_await"
    using mcslock_fifo [OF mcs_w1_hist] o by blast
  then have "waiting = [1]" by (simp add: fifo_order_def)
  with w o mcs_w1_state show ?thesis by simp
qed

end
