(* ===== verification/Mutex.thy ===== *)
theory Mutex
  imports Vatomic
begin

text \<open>
  The mutexes of \<^verbatim>\<open>thread/mutex\<close> (\<^verbatim>\<open>slim.h\<close>, \<^verbatim>\<open>tristate.h\<close>, \<^verbatim>\<open>musl.h\<close>). They put
  waiting threads to sleep with futex calls. The futex is a service of the operating system: the
  choice of the threads a wake-up wakes is a parameter \<open>wk\<close>, and \<open>futex_ok\<close> is what the mutexes
  rely on. A wait compares the word with the expected value and falls asleep in one step; a sleeping
  thread may also wake up without reason.
\<close>

section \<open>Programs with futex calls\<close>

datatype 'p fctl = FGoto 'p | FRet | FWait u32 'p | FWake nat

definition FUTEX_WAKE_ONE :: nat where "FUTEX_WAKE_ONE = 1"

definition futex_ok :: "(nat \<Rightarrow> tid set \<Rightarrow> tid set \<Rightarrow> bool) \<Rightarrow> bool" where
  "futex_ok wk \<longleftrightarrow> (\<forall>n S W. wk n S W \<longrightarrow> W \<subseteq> S \<and> (0 < n \<and> S \<noteq> {} \<longrightarrow> W \<noteq> {}) \<and> (finite S \<and> card S \<le> n \<longrightarrow> W = S))"

text \<open>
  A mutex implementation: the programs of acquire and release, where they start, and the futex
  word. \<^const>\<open>FWake\<close> is the last action of the calls that use it.
\<close>

record ('m, 'a, 'r) futex_mutex =
  fm_word :: "'m \<Rightarrow> u32"
  fm_acq :: "'a \<Rightarrow> 'm \<Rightarrow> 'a fctl \<times> 'm"
  fm_acq0 :: 'a
  fm_rel :: "'r \<Rightarrow> 'm \<Rightarrow> 'r fctl \<times> 'm"
  fm_rel0 :: 'r

datatype ('a, 'r) fpc = FxIdle | FxAcq 'a | FxSleep 'a | FxHeld | FxRel 'r | FxWake nat

record ('m, 'a, 'r) fx_sys =
  fx_mem :: 'm
  fx_pcs :: "tid \<Rightarrow> ('a, 'r) fpc"

inductive fx_step :: "('m, 'a, 'r) futex_mutex \<Rightarrow> (nat \<Rightarrow> tid set \<Rightarrow> tid set \<Rightarrow> bool) \<Rightarrow> nat \<Rightarrow> tid \<Rightarrow>
    ('m, 'a, 'r) fx_sys \<Rightarrow> ('m, 'a, 'r) fx_sys \<Rightarrow> bool" for F wk N where
  fx_call: "i < N \<Longrightarrow> fx_pcs s i = FxIdle \<Longrightarrow> fx_step F wk N i s (s\<lparr>fx_pcs := (fx_pcs s)(i := FxAcq (fm_acq0 F))\<rparr>)"
| fx_acq: "i < N \<Longrightarrow> fx_pcs s i = FxAcq a \<Longrightarrow> fm_acq F a (fx_mem s) = (c, m) \<Longrightarrow>
     (case c of FGoto a' \<Rightarrow> p = FxAcq a' | FRet \<Rightarrow> p = FxHeld | FWait v a' \<Rightarrow> p = (if fm_word F m = v then FxSleep a' else FxAcq a')
      | FWake n \<Rightarrow> False) \<Longrightarrow>
     fx_step F wk N i s (s\<lparr>fx_mem := m, fx_pcs := (fx_pcs s)(i := p)\<rparr>)"
| fx_spurious: "i < N \<Longrightarrow> fx_pcs s i = FxSleep a \<Longrightarrow> fx_step F wk N i s (s\<lparr>fx_pcs := (fx_pcs s)(i := FxAcq a)\<rparr>)"
| fx_unlock: "i < N \<Longrightarrow> fx_pcs s i = FxHeld \<Longrightarrow> fx_step F wk N i s (s\<lparr>fx_pcs := (fx_pcs s)(i := FxRel (fm_rel0 F))\<rparr>)"
| fx_rel: "i < N \<Longrightarrow> fx_pcs s i = FxRel r \<Longrightarrow> fm_rel F r (fx_mem s) = (c, m) \<Longrightarrow>
     (case c of FGoto r' \<Rightarrow> p = FxRel r' | FRet \<Rightarrow> p = FxIdle | FWake n \<Rightarrow> p = FxWake n | FWait v r' \<Rightarrow> False) \<Longrightarrow>
     fx_step F wk N i s (s\<lparr>fx_mem := m, fx_pcs := (fx_pcs s)(i := p)\<rparr>)"
| fx_wake: "i < N \<Longrightarrow> fx_pcs s i = FxWake n \<Longrightarrow> wk n {j. \<exists>a. fx_pcs s j = FxSleep a} W \<Longrightarrow>
     fx_step F wk N i s (s\<lparr>fx_pcs := (\<lambda>j. if j = i then FxIdle else if j \<in> W then (case fx_pcs s j of FxSleep a \<Rightarrow> FxAcq a | p \<Rightarrow> p) else fx_pcs s j)\<rparr>)"

text \<open>Whether a thread sleeps.\<close>

definition fx_asleep :: "('m, 'a, 'r) fx_sys \<Rightarrow> tid \<Rightarrow> bool" where
  "fx_asleep s i \<longleftrightarrow> (\<exists>a. fx_pcs s i = FxSleep a)"

section \<open>slim\<close>

type_synonym slim_vmutex_t = u32

definition slim_vmutex_init :: slim_vmutex_t where
  "slim_vmutex_init = vatomic_init 0 0"

datatype slim_acq_pc = SA_fast | SA_xchg | SA_wait

fun slim_vmutex_acquire :: "slim_acq_pc \<Rightarrow> slim_vmutex_t \<Rightarrow> slim_acq_pc fctl \<times> slim_vmutex_t" where
  "slim_vmutex_acquire SA_fast m = (let (old, m') = vatomic_cmpxchg m 0 1 in (if old = 0 then FRet else FGoto SA_xchg, m'))"
| "slim_vmutex_acquire SA_xchg m = (let (old, m') = vatomic_xchg m 2 in (if old \<noteq> 0 then FGoto SA_wait else FRet, m'))"
| "slim_vmutex_acquire SA_wait m = (FWait 2 SA_xchg, m)"

fun slim_vmutex_release :: "unit \<Rightarrow> slim_vmutex_t \<Rightarrow> unit fctl \<times> slim_vmutex_t" where
  "slim_vmutex_release u m = (let (old, m') = vatomic_xchg m 0 in (if old = 1 then FRet else FWake FUTEX_WAKE_ONE, m'))"

definition slim :: "(slim_vmutex_t, slim_acq_pc, unit) futex_mutex" where
  "slim = \<lparr>fm_word = id, fm_acq = slim_vmutex_acquire, fm_acq0 = SA_fast, fm_rel = slim_vmutex_release, fm_rel0 = ()\<rparr>"

section \<open>tristate\<close>

type_synonym tristate_vmutex_t = u32

definition tristate_vmutex_init :: tristate_vmutex_t where
  "tristate_vmutex_init = vatomic_init 0 0"

datatype tri_acq_pc = TA_fast | TA_mark | TA_wait | TA_take

fun tristate_vmutex_acquire :: "tri_acq_pc \<Rightarrow> tristate_vmutex_t \<Rightarrow> tri_acq_pc fctl \<times> tristate_vmutex_t" where
  "tristate_vmutex_acquire TA_fast m = (let (old, m') = vatomic_cmpxchg m 0 1 in (if old = 0 then FRet else FGoto TA_mark, m'))"
| "tristate_vmutex_acquire TA_mark m = (let (old, m') = vatomic_cmpxchg m 1 2 in (FGoto TA_wait, m'))"
| "tristate_vmutex_acquire TA_wait m = (FWait 2 TA_take, m)"
| "tristate_vmutex_acquire TA_take m = (let (old, m') = vatomic_cmpxchg m 0 2 in (if old \<noteq> 0 then FGoto TA_mark else FRet, m'))"

datatype tri_rel_pc = TR_cmpxchg | TR_write

fun tristate_vmutex_release :: "tri_rel_pc \<Rightarrow> tristate_vmutex_t \<Rightarrow> tri_rel_pc fctl \<times> tristate_vmutex_t" where
  "tristate_vmutex_release TR_cmpxchg m = (let (old, m') = vatomic_cmpxchg m 1 0 in (if old = 1 then FRet else FGoto TR_write, m'))"
| "tristate_vmutex_release TR_write m = (FWake FUTEX_WAKE_ONE, vatomic_write m 0)"

definition tristate :: "(tristate_vmutex_t, tri_acq_pc, tri_rel_pc) futex_mutex" where
  "tristate = \<lparr>fm_word = id, fm_acq = tristate_vmutex_acquire, fm_acq0 = TA_fast, fm_rel = tristate_vmutex_release, fm_rel0 = TR_cmpxchg\<rparr>"

section \<open>musl\<close>

record musl_vmutex_t =
  mu_lock :: u32
  mu_waiters :: u32

definition musl_vmutex_init :: musl_vmutex_t where
  "musl_vmutex_init = \<lparr>mu_lock = vatomic_init 0 0, mu_waiters = vatomic_init 0 0\<rparr>"

definition MUSL_MAX_SPIN :: nat where "MUSL_MAX_SPIN = 100"

datatype musl_acq_pc = UA_fast | UA_spin nat | UA_spin_waiters nat | UA_take | UA_inc | UA_mark | UA_wait | UA_dec

text \<open>\<^verbatim>\<open>spin--\<close> tests the counter and then decrements it.\<close>

definition musl_spin :: "nat \<Rightarrow> musl_acq_pc" where
  "musl_spin spin = (if spin = 0 then UA_take else UA_spin (spin - 1))"

fun musl_vmutex_acquire :: "musl_acq_pc \<Rightarrow> musl_vmutex_t \<Rightarrow> musl_acq_pc fctl \<times> musl_vmutex_t" where
  "musl_vmutex_acquire UA_fast m =
     (let (old, l) = vatomic_cmpxchg (mu_lock m) 0 1 in (if old = 0 then FRet else FGoto (musl_spin MUSL_MAX_SPIN), m\<lparr>mu_lock := l\<rparr>))"
| "musl_vmutex_acquire (UA_spin spin) m = (if vatomic_read (mu_lock m) \<noteq> 0 then FGoto (UA_spin_waiters spin) else FGoto UA_take, m)"
| "musl_vmutex_acquire (UA_spin_waiters spin) m = (if vatomic_read (mu_waiters m) = 0 then FGoto (musl_spin spin) else FGoto UA_take, m)"
| "musl_vmutex_acquire UA_take m =
     (let (old, l) = vatomic_cmpxchg (mu_lock m) 0 1 in (if old \<noteq> 0 then FGoto UA_inc else FRet, m\<lparr>mu_lock := l\<rparr>))"
| "musl_vmutex_acquire UA_inc m = (FGoto UA_mark, m\<lparr>mu_waiters := vatomic_inc (mu_waiters m)\<rparr>)"
| "musl_vmutex_acquire UA_mark m = (let (old, l) = vatomic_cmpxchg (mu_lock m) 1 2 in (FGoto UA_wait, m\<lparr>mu_lock := l\<rparr>))"
| "musl_vmutex_acquire UA_wait m = (FWait 2 UA_dec, m)"
| "musl_vmutex_acquire UA_dec m = (FGoto UA_take, m\<lparr>mu_waiters := vatomic_dec (mu_waiters m)\<rparr>)"

datatype musl_rel_pc = UR_xchg | UR_waiters u32

fun musl_vmutex_release :: "musl_rel_pc \<Rightarrow> musl_vmutex_t \<Rightarrow> musl_rel_pc fctl \<times> musl_vmutex_t" where
  "musl_vmutex_release UR_xchg m = (let (old, l) = vatomic_xchg (mu_lock m) 0 in (FGoto (UR_waiters old), m\<lparr>mu_lock := l\<rparr>))"
| "musl_vmutex_release (UR_waiters old) m =
     (if vatomic_read (mu_waiters m) > 0 \<or> old \<noteq> 1 then FWake FUTEX_WAKE_ONE else FRet, m)"

definition musl :: "(musl_vmutex_t, musl_acq_pc, musl_rel_pc) futex_mutex" where
  "musl = \<lparr>fm_word = mu_lock, fm_acq = musl_vmutex_acquire, fm_acq0 = UA_fast, fm_rel = musl_vmutex_release, fm_rel0 = UR_xchg\<rparr>"

section \<open>What makes a futex mutex correct\<close>

text \<open>
  \<open>ro\<close> says which steps of a release come before the lock is free, \<open>ba\<close> and \<open>br\<close> which
  steps of acquire and release are bound to set the word or to wake a sleeper. \<open>parked m\<close> is the
  state in which a release will wake somebody; \<open>some m\<close> holds when a thread sleeps, by the
  additional invariant \<open>extra\<close>.
\<close>

fun fx_owning :: "('r \<Rightarrow> bool) \<Rightarrow> ('a, 'r) fpc \<Rightarrow> bool" where
  "fx_owning ro FxHeld \<longleftrightarrow> True"
| "fx_owning ro (FxRel r) \<longleftrightarrow> ro r"
| "fx_owning ro _ \<longleftrightarrow> False"

fun fx_busy :: "('a \<Rightarrow> bool) \<Rightarrow> ('r \<Rightarrow> bool) \<Rightarrow> ('a, 'r) fpc \<Rightarrow> bool" where
  "fx_busy ba br (FxAcq a) \<longleftrightarrow> ba a"
| "fx_busy ba br (FxRel r) \<longleftrightarrow> br r"
| "fx_busy ba br (FxWake n) \<longleftrightarrow> 0 < n"
| "fx_busy ba br _ \<longleftrightarrow> False"

fun fx_pc_ok :: "('a \<Rightarrow> bool) \<Rightarrow> ('a, 'r) fpc \<Rightarrow> bool" where
  "fx_pc_ok ba (FxSleep a) \<longleftrightarrow> ba a"
| "fx_pc_ok ba (FxWake n) \<longleftrightarrow> 0 < n"
| "fx_pc_ok ba _ \<longleftrightarrow> True"

definition fx_start :: "'m \<Rightarrow> ('m, 'a, 'r) fx_sys \<Rightarrow> bool" where
  "fx_start m s \<longleftrightarrow> fx_mem s = m \<and> (\<forall>i. fx_pcs s i = FxIdle)"

definition fx_owns :: "('r \<Rightarrow> bool) \<Rightarrow> ('m, 'a, 'r) fx_sys \<Rightarrow> tid \<Rightarrow> bool" where
  "fx_owns ro s i \<longleftrightarrow> fx_owning ro (fx_pcs s i)"

definition fx_locked :: "('m \<Rightarrow> u32) \<Rightarrow> ('r \<Rightarrow> bool) \<Rightarrow> ('m, 'a, 'r) fx_sys \<Rightarrow> bool" where
  "fx_locked word ro s \<longleftrightarrow> (\<exists>h. (\<forall>i. fx_owning ro (fx_pcs s i) \<longleftrightarrow> h = Some i) \<and> (word (fx_mem s) = 0 \<longleftrightarrow> h = None))"

definition fx_awake :: "('m \<Rightarrow> bool) \<Rightarrow> ('a \<Rightarrow> bool) \<Rightarrow> ('r \<Rightarrow> bool) \<Rightarrow> ('m, 'a, 'r) fx_sys \<Rightarrow> bool" where
  "fx_awake parked ba br s \<longleftrightarrow> (\<forall>i. fx_pc_ok ba (fx_pcs s i)) \<and>
     ((\<exists>i. fx_asleep s i) \<longrightarrow> parked (fx_mem s) \<or> (\<exists>j. fx_busy ba br (fx_pcs s j)))"

lemma fx_locked_move:
  assumes h: "\<forall>i. fx_owning ro (pcs i) \<longleftrightarrow> h = Some i" "w = 0 \<longleftrightarrow> h = None"
    and other: "\<And>j. j \<noteq> i \<Longrightarrow> fx_owning ro (pcs' j) = fx_owning ro (pcs j)"
    and move: "(fx_owning ro (pcs' i) = fx_owning ro (pcs i) \<and> (w' = 0 \<longleftrightarrow> w = 0)) \<or>
      (fx_owning ro (pcs' i) \<and> w = 0 \<and> w' \<noteq> 0) \<or> (fx_owning ro (pcs i) \<and> \<not> fx_owning ro (pcs' i) \<and> w' = 0)"
  shows "\<exists>h. (\<forall>i. fx_owning ro (pcs' i) \<longleftrightarrow> h = Some i) \<and> ((w' :: u32) = 0 \<longleftrightarrow> h = None)"
proof -
  from move consider (same) "fx_owning ro (pcs' i) = fx_owning ro (pcs i)" "w' = 0 \<longleftrightarrow> w = 0"
    | (take) "fx_owning ro (pcs' i)" "w = 0" "w' \<noteq> 0" | (free) "fx_owning ro (pcs i)" "\<not> fx_owning ro (pcs' i)" "w' = 0" by blast
  then show ?thesis
  proof cases
    case same
    then have "fx_owning ro (pcs' j) = fx_owning ro (pcs j)" for j using other by (cases "j = i") auto
    with h same(2) show ?thesis by (intro exI [of _ h]) simp
  next
    case take
    then have "h = None" using h(2) by simp
    with h(1) other take(1) have "fx_owning ro (pcs' j) \<longleftrightarrow> Some i = Some j" for j by (cases "j = i") auto
    with take(3) show ?thesis by (intro exI [of _ "Some i"]) simp
  next
    case free
    then have "h = Some i" using h(1) by blast
    with h(1) other free(2) have "\<not> fx_owning ro (pcs' j)" for j by (cases "j = i") auto
    with free(3) show ?thesis by (intro exI [of _ None]) simp
  qed
qed

locale futex_laws =
  fixes F :: "('m, 'a, 'r) futex_mutex" and wk :: "nat \<Rightarrow> tid set \<Rightarrow> tid set \<Rightarrow> bool" and N :: nat and m0 :: 'm
    and ro :: "'r \<Rightarrow> bool" and ba :: "'a \<Rightarrow> bool" and br :: "'r \<Rightarrow> bool"
    and parked :: "'m \<Rightarrow> bool" and some :: "'m \<Rightarrow> bool" and extra :: "('m, 'a, 'r) fx_sys \<Rightarrow> bool"
  assumes word_init: "fm_word F m0 = 0"
    and acq_law: "fm_acq F a m = (c, m') \<Longrightarrow> (if c = FRet then fm_word F m = 0 \<and> fm_word F m' \<noteq> 0
        else fm_word F m' = 0 \<longleftrightarrow> fm_word F m = 0)"
    and acq_parked: "fm_acq F a m = (c, m') \<Longrightarrow> parked m \<Longrightarrow> parked m'"
    and acq_busy: "fm_acq F a m = (c, m') \<Longrightarrow> ba a \<Longrightarrow> \<not> parked m' \<Longrightarrow>
        (\<exists>a'. ba a' \<and> (c = FGoto a' \<or> (\<exists>v. c = FWait v a' \<and> fm_word F m' \<noteq> v)))"
    and acq_wait: "fm_acq F a m = (FWait v a', m') \<Longrightarrow> ba a' \<and> (fm_word F m' = v \<longrightarrow> parked m')"
    and rel_start: "ro (fm_rel0 F)"
    and rel_law: "fm_rel F r m = (d, m') \<Longrightarrow> ro r \<Longrightarrow> fm_word F m \<noteq> 0 \<Longrightarrow>
        (\<exists>r'. d = FGoto r' \<and> ro r') \<and> fm_word F m' \<noteq> 0 \<or> \<not> (\<exists>r'. d = FGoto r' \<and> ro r') \<and> fm_word F m' = 0"
    and rel_done: "fm_rel F r m = (d, m') \<Longrightarrow> \<not> ro r \<Longrightarrow> \<not> (\<exists>r'. d = FGoto r' \<and> ro r') \<and> fm_word F m' = fm_word F m"
    and rel_wakes: "fm_rel F r m = (d, m') \<Longrightarrow> parked m \<or> br r \<Longrightarrow> some m \<Longrightarrow> fm_word F m \<noteq> 0 \<or> \<not> ro r \<Longrightarrow>
        parked m' \<or> (\<exists>n. d = FWake n) \<or> (\<exists>r'. d = FGoto r' \<and> br r')"
    and rel_wake_pos: "fm_rel F r m = (FWake n, m') \<Longrightarrow> 0 < n"
    and extra_init: "fx_start m0 s \<Longrightarrow> extra s"
    and extra_step: "futex_ok wk \<Longrightarrow> extra s \<Longrightarrow> fx_step F wk N i s t \<Longrightarrow> extra t"
    and extra_some: "extra s \<Longrightarrow> fx_asleep s i \<Longrightarrow> some (fx_mem s)"
begin

definition fx_inv :: "('m, 'a, 'r) fx_sys \<Rightarrow> bool" where
  "fx_inv s \<longleftrightarrow> futex_ok wk \<and> fx_locked (fm_word F) ro s \<and> fx_awake parked ba br s \<and> extra s"

lemma locked_step:
  assumes "futex_ok wk" and "fx_locked (fm_word F) ro s" and "fx_step F wk N i s t"
  shows "fx_locked (fm_word F) ro t"
proof -
  obtain h where h: "\<forall>i. fx_owning ro (fx_pcs s i) \<longleftrightarrow> h = Some i" "fm_word F (fx_mem s) = 0 \<longleftrightarrow> h = None"
    using assms(2) by (auto simp: fx_locked_def)
  note move = fx_locked_move [OF h, of i "fx_pcs t" "fm_word F (fx_mem t)", folded fx_locked_def]
  from assms(3) show ?thesis
  proof cases
    case (fx_acq a c m p)
    then show ?thesis using acq_law [OF fx_acq(4)] by (intro move) (auto split: fctl.splits if_splits)
  next
    case (fx_rel r c m p)
    show ?thesis
    proof (cases "ro r")
      case True
      then have "fm_word F (fx_mem s) \<noteq> 0" using h fx_rel(3) by (metis fx_owning.simps(2) option.distinct(1))
      with rel_law [OF fx_rel(4) True] fx_rel True show ?thesis by (intro move) (auto split: fctl.splits)
    next
      case False
      with rel_done [OF fx_rel(4)] fx_rel show ?thesis by (intro move) (auto split: fctl.splits)
    qed
  next
    case (fx_wake n W)
    have own: "fx_owning ro (fx_pcs t j) = fx_owning ro (fx_pcs s j)" for j
      using fx_wake(3) by (cases "j = i"; cases "fx_pcs s j") (simp_all add: fx_wake(1))
    have "fx_mem t = fx_mem s" by (simp add: fx_wake(1))
    then show ?thesis by (intro move) (rule own, simp add: own)
  qed (use rel_start in \<open>intro move; simp\<close>)+
qed

lemma awake_step:
  assumes f: "futex_ok wk" and aw: "fx_awake parked ba br s" and lk: "fx_locked (fm_word F) ro s" and ex: "extra s"
    and "fx_step F wk N i s t"
  shows "fx_awake parked ba br t"
proof -
  have ok: "fx_pc_ok ba (fx_pcs s j)" for j using aw by (simp add: fx_awake_def)
  have rest: "parked (fx_mem s) \<or> (\<exists>j. fx_busy ba br (fx_pcs s j))" if "fx_asleep s k" for k
    using aw that by (auto simp: fx_awake_def)
  text \<open>Only thread \<open>i\<close> moves, to \<open>p\<close>.\<close>
  have one: "fx_awake parked ba br (s\<lparr>fx_mem := m, fx_pcs := (fx_pcs s)(i := p)\<rparr>)"
    if p: "fx_pc_ok ba p" and sleep: "\<And>a. p = FxSleep a \<Longrightarrow> parked m"
      and keep: "\<And>k. fx_asleep s k \<Longrightarrow> parked (fx_mem s) \<or> fx_busy ba br (fx_pcs s i) \<Longrightarrow> parked m \<or> fx_busy ba br p" for m p
  proof -
    have "parked m \<or> (\<exists>j. fx_busy ba br (((fx_pcs s)(i := p)) j))" if k: "\<exists>a. ((fx_pcs s)(i := p)) k = FxSleep a" for k
    proof (cases "k = i")
      case True
      with k sleep show ?thesis by auto
    next
      case False
      with k have old: "fx_asleep s k" by (simp add: fx_asleep_def)
      from rest [OF old] show ?thesis
      proof
        assume "parked (fx_mem s)"
        with keep [OF old] show ?thesis by (metis fun_upd_same)
      next
        assume "\<exists>j. fx_busy ba br (fx_pcs s j)"
        then obtain j where "fx_busy ba br (fx_pcs s j)" by blast
        then show ?thesis using keep [OF old] by (cases "j = i") (metis fun_upd_same, metis fun_upd_other)
      qed
    qed
    moreover have "fx_pc_ok ba (((fx_pcs s)(i := p)) j)" for j using ok p by simp
    moreover have "fx_pcs (s\<lparr>fx_mem := m, fx_pcs := (fx_pcs s)(i := p)\<rparr>) = (fx_pcs s)(i := p)"
      "fx_mem (s\<lparr>fx_mem := m, fx_pcs := (fx_pcs s)(i := p)\<rparr>) = m" by simp_all
    ultimately show ?thesis unfolding fx_awake_def fx_asleep_def by metis
  qed
  from assms(5) show ?thesis
  proof cases
    case fx_call
    then show ?thesis using one [of "FxAcq (fm_acq0 F)" "fx_mem s"] by simp
  next
    case (fx_acq a c m p)
    have "fx_pc_ok ba p" "\<And>a. p = FxSleep a \<Longrightarrow> parked m"
      using fx_acq(5) acq_wait [of a "fx_mem s"] fx_acq(4) by (auto split: fctl.splits if_splits)
    moreover have "parked m \<or> fx_busy ba br p" if "parked (fx_mem s) \<or> fx_busy ba br (fx_pcs s i)"
      using that acq_parked [OF fx_acq(4)] acq_busy [OF fx_acq(4)] fx_acq(3,5) by (auto split: fctl.splits)
    ultimately show ?thesis using one [of p m] fx_acq(1) by simp
  next
    case (fx_spurious a)
    then show ?thesis using one [of "FxAcq a" "fx_mem s"] ok [of i] by simp
  next
    case fx_unlock
    then show ?thesis using one [of "FxRel (fm_rel0 F)" "fx_mem s"] by simp
  next
    case (fx_rel r c m p)
    have word: "fm_word F (fx_mem s) \<noteq> 0 \<or> \<not> ro r"
      using lk fx_rel(3) unfolding fx_locked_def by (metis fx_owning.simps(2) option.distinct(1))
    have "fx_pc_ok ba p" using fx_rel(4,5) rel_wake_pos by (auto split: fctl.splits)
    moreover have "parked m \<or> fx_busy ba br p" if "fx_asleep s k" "parked (fx_mem s) \<or> fx_busy ba br (fx_pcs s i)" for k
      using rel_wakes [OF fx_rel(4) _ extra_some [OF ex that(1)] word] that(2) fx_rel(3-5) rel_wake_pos by (auto split: fctl.splits)
    moreover have "p \<noteq> FxSleep a" for a using fx_rel(5) by (auto split: fctl.splits)
    ultimately show ?thesis using one [of p m] fx_rel(1) by simp
  next
    case (fx_wake n W)
    let ?S = "{j. \<exists>a. fx_pcs s j = FxSleep a}"
    have W: "W \<subseteq> ?S" "?S \<noteq> {} \<Longrightarrow> W \<noteq> {}"
      using f fx_wake(3,4) ok [of i] unfolding futex_ok_def by (metis fx_pc_ok.simps(2))+
    have "\<exists>j. fx_busy ba br (fx_pcs t j)" if "fx_asleep t k" for k
    proof -
      have "k \<in> ?S" using that fx_wake(1) by (auto simp: fx_asleep_def split: if_splits fpc.splits)
      then obtain j a where j: "j \<in> W" "fx_pcs s j = FxSleep a" using W by blast
      then have "j \<noteq> i" "ba a" using fx_wake(3) ok [of j] by auto
      with j fx_wake(1) have "fx_busy ba br (fx_pcs t j)" by simp
      then show ?thesis by blast
    qed
    moreover have "fx_pc_ok ba (fx_pcs t j)" for j using ok [of j] fx_wake(1) by (auto split: fpc.splits)
    ultimately show ?thesis by (auto simp: fx_awake_def)
  qed
qed

lemma fx_inv_start: "futex_ok wk \<and> fx_start m0 s \<Longrightarrow> fx_inv s"
  using extra_init word_init
  by (auto simp: fx_inv_def fx_locked_def fx_awake_def fx_asleep_def fx_start_def intro!: exI [of _ None])

lemma fx_inv_step: "fx_inv s \<Longrightarrow> fx_step F wk N i s t \<Longrightarrow> fx_inv t"
  using locked_step awake_step extra_step unfolding fx_inv_def by blast

end

text \<open>Every futex mutex is an abstract lock.\<close>

sublocale futex_laws \<subseteq> lock_impl "\<lambda>s. futex_ok wk \<and> fx_start m0 s" "fx_step F wk N" fx_inv "fx_owns ro"
proof unfold_locales
  show "fx_inv s" if "futex_ok wk \<and> fx_start m0 s" for s using that by (rule fx_inv_start)
  show "fx_inv t" if "fx_inv s" "fx_step F wk N i s t" for s i t using that by (rule fx_inv_step)
  show "i = j" if "fx_inv s" "fx_owns ro s i" "fx_owns ro s j" for s i j
    using that by (auto simp: fx_inv_def fx_locked_def fx_owns_def)
  show "fx_owns ro t j \<longleftrightarrow> fx_owns ro s j" if "fx_step F wk N i s t" "j \<noteq> i" for s i t j
    using that by cases (auto simp: fx_owns_def split: fpc.splits)
qed

context futex_laws
begin

lemma fx_reach: "futex_ok wk \<Longrightarrow> reach (fx_start m0) (fx_step F wk N) s \<Longrightarrow> reach (\<lambda>s. futex_ok wk \<and> fx_start m0 s) (fx_step F wk N) s"
  by (rotate_tac, induction rule: reach.induct) (blast intro: reach.intros)+

lemma fx_refines:
  assumes "futex_ok wk" and "reach (fx_start m0) (fx_step F wk N) s" and "fx_step F wk N i s t"
  shows "lock_spec i (lock_holder (fx_owns ro) s) (lock_holder (fx_owns ro) t)"
  using refines_lock_spec [OF fx_reach [OF assms(1,2)] assms(3)] .

lemma fx_no_lost_wakeup:
  assumes "futex_ok wk" and "reach (fx_start m0) (fx_step F wk N) s" and "fx_asleep s i"
  shows "parked (fx_mem s) \<or> (\<exists>j. fx_busy ba br (fx_pcs s j))" and "some (fx_mem s)"
proof -
  have inv: "fx_inv s" by (rule reach_inv [OF fx_reach [OF assms(1,2)]])
  with assms(3) show "parked (fx_mem s) \<or> (\<exists>j. fx_busy ba br (fx_pcs s j))" by (auto simp: fx_inv_def fx_awake_def)
  show "some (fx_mem s)" using inv extra_some assms(3) by (auto simp: fx_inv_def)
qed

lemma fx_word_owner:
  assumes "futex_ok wk" and "reach (fx_start m0) (fx_step F wk N) s" and "fm_word F (fx_mem s) \<noteq> 0"
  shows "\<exists>j. fx_owns ro s j"
  using reach_inv [OF fx_reach [OF assms(1,2)]] assms(3) by (auto simp: fx_inv_def fx_locked_def fx_owns_def)

end

section \<open>The three mutexes\<close>

interpretation slim_m: futex_laws slim wk N slim_vmutex_init "\<lambda>_. True" "\<lambda>a. a = SA_xchg" "\<lambda>_. False"
    "\<lambda>m. m = 2" "\<lambda>_. True" "\<lambda>_. True" for wk N
proof unfold_locales
  fix a :: slim_acq_pc and m m' c
  assume acq: "fm_acq slim a m = (c, m')"
  show "if c = FRet then fm_word slim m = 0 \<and> fm_word slim m' \<noteq> 0 else fm_word slim m' = 0 \<longleftrightarrow> fm_word slim m = 0"
    using acq by (cases a) (auto simp: slim_def vsync_simps split: if_splits)
  show "m = 2 \<Longrightarrow> m' = 2" using acq by (cases a) (auto simp: slim_def vsync_simps)
  show "\<exists>a'. a' = SA_xchg \<and> (c = FGoto a' \<or> (\<exists>v. c = FWait v a' \<and> fm_word slim m' \<noteq> v))" if "a = SA_xchg" "m' \<noteq> 2"
    using acq that by (auto simp: slim_def vsync_simps)
next
  fix a a' :: slim_acq_pc and m m' v
  assume "fm_acq slim a m = (FWait v a', m')"
  then show "a' = SA_xchg \<and> (fm_word slim m' = v \<longrightarrow> m' = 2)" by (cases a) (auto simp: slim_def vsync_simps split: if_splits)
qed (auto simp: slim_def vsync_simps slim_vmutex_init_def FUTEX_WAKE_ONE_def split: if_splits)

interpretation tristate_m: futex_laws tristate wk N tristate_vmutex_init "\<lambda>_. True" "\<lambda>a. a \<noteq> TA_fast" "\<lambda>_. False"
    "\<lambda>m. m = 2" "\<lambda>_. True" "\<lambda>_. True" for wk N
proof unfold_locales
  fix a :: tri_acq_pc and m m' c
  assume acq: "fm_acq tristate a m = (c, m')"
  show "if c = FRet then fm_word tristate m = 0 \<and> fm_word tristate m' \<noteq> 0 else fm_word tristate m' = 0 \<longleftrightarrow> fm_word tristate m = 0"
    using acq by (cases a) (auto simp: tristate_def vsync_simps split: if_splits)
  show "m = 2 \<Longrightarrow> m' = 2" using acq by (cases a) (auto simp: tristate_def vsync_simps)
  show "\<exists>a'. a' \<noteq> TA_fast \<and> (c = FGoto a' \<or> (\<exists>v. c = FWait v a' \<and> fm_word tristate m' \<noteq> v))" if "a \<noteq> TA_fast" "m' \<noteq> 2"
    using acq that by (cases a) (auto simp: tristate_def vsync_simps split: if_splits)
next
  fix a a' :: tri_acq_pc and m m' v
  assume "fm_acq tristate a m = (FWait v a', m')"
  then show "a' \<noteq> TA_fast \<and> (fm_word tristate m' = v \<longrightarrow> m' = 2)" by (cases a) (auto simp: tristate_def vsync_simps split: if_splits)
next
  fix r :: tri_rel_pc and m m' d
  assume rel: "fm_rel tristate r m = (d, m')"
  show "(\<exists>r'. d = FGoto r' \<and> True) \<and> fm_word tristate m' \<noteq> 0 \<or> \<not> (\<exists>r'. d = FGoto r' \<and> True) \<and> fm_word tristate m' = 0"
    if "fm_word tristate m \<noteq> 0"
    using rel that by (cases r) (auto simp: tristate_def vsync_simps split: if_splits)
  show "m' = 2 \<or> (\<exists>n. d = FWake n) \<or> (\<exists>r'. d = FGoto r' \<and> False)" if "m = 2 \<or> False"
    using rel that by (cases r) (auto simp: tristate_def vsync_simps)
next
  fix r :: tri_rel_pc and m m' n
  assume "fm_rel tristate r m = (FWake n, m')"
  then show "0 < n" by (cases r) (auto simp: tristate_def vsync_simps FUTEX_WAKE_ONE_def split: if_splits)
qed (auto simp: tristate_def vsync_simps tristate_vmutex_init_def)

text \<open>The musl mutex counts its waiters.\<close>

definition mu_waiting :: "(musl_acq_pc, musl_rel_pc) fpc \<Rightarrow> nat" where
  "mu_waiting p = (case p of FxAcq a \<Rightarrow> if a \<in> {UA_mark, UA_wait, UA_dec} then 1 else 0 | FxSleep a \<Rightarrow> 1 | _ \<Rightarrow> 0)"

definition mu_extra :: "nat \<Rightarrow> (musl_vmutex_t, musl_acq_pc, musl_rel_pc) fx_sys \<Rightarrow> bool" where
  "mu_extra N s \<longleftrightarrow> unat (mu_waiters (fx_mem s)) = (\<Sum>t<N. mu_waiting (fx_pcs s t)) \<and>
     (\<forall>t\<ge>N. fx_pcs s t = FxIdle) \<and> (\<forall>t a. fx_pcs s t = FxSleep a \<longrightarrow> a = UA_dec)"

lemma mu_extra_move:
  assumes ex: "mu_extra N s" and i: "i < N" and "\<And>a. p = FxSleep a \<Longrightarrow> a = UA_dec"
    and w: "unat (mu_waiters m) + mu_waiting (fx_pcs s i) = unat (mu_waiters (fx_mem s)) + mu_waiting p"
  shows "mu_extra N (s\<lparr>fx_mem := m, fx_pcs := (fx_pcs s)(i := p)\<rparr>)"
proof -
  have eq: "(\<lambda>t. mu_waiting (((fx_pcs s)(i := p)) t)) = (\<lambda>t. mu_waiting (fx_pcs s t))(i := mu_waiting p)" by auto
  have "(\<Sum>t<N. mu_waiting (((fx_pcs s)(i := p)) t)) + mu_waiting (fx_pcs s i) = (\<Sum>t<N. mu_waiting (fx_pcs s t)) + mu_waiting p"
    unfolding eq by (rule sum_upd_lessThan [OF i])
  with assms show ?thesis by (simp add: mu_extra_def)
qed

lemma mu_waiting_le: "mu_waiting p \<le> 1"
  by (simp add: mu_waiting_def split: fpc.splits)

lemma mu_extra_bound: "mu_extra N s \<Longrightarrow> unat (mu_waiters (fx_mem s)) \<le> N"
  using sum_bounded_above [of "{..<N}" "\<lambda>t. mu_waiting (fx_pcs s t)" 1] mu_waiting_le by (simp add: mu_extra_def)

lemma mu_extra_acq:
  assumes ex: "mu_extra N s" and N: "N < 2 ^ 32" and i: "i < N" and pc: "fx_pcs s i = FxAcq a"
    and acq: "musl_vmutex_acquire a (fx_mem s) = (c, m)"
    and p: "case c of FGoto a' \<Rightarrow> p = FxAcq a' | FRet \<Rightarrow> p = FxHeld | FWait v a' \<Rightarrow> p = (if mu_lock m = v then FxSleep a' else FxAcq a') | FWake n \<Rightarrow> False"
  shows "mu_extra N (s\<lparr>fx_mem := m, fx_pcs := (fx_pcs s)(i := p)\<rparr>)"
proof (rule mu_extra_move [OF ex i])
  show "b = UA_dec" if "p = FxSleep b" for b using that acq p by (cases a) (auto simp: vsync_simps split: if_splits)
  have le: "(\<Sum>t<N. mu_waiting (fx_pcs s t)) = unat (mu_waiters (fx_mem s))" using ex by (simp add: mu_extra_def)
  show "unat (mu_waiters m) + mu_waiting (fx_pcs s i) = unat (mu_waiters (fx_mem s)) + mu_waiting p"
  proof (cases a)
    case UA_inc
    have "(\<Sum>t<N. mu_waiting (fx_pcs s t)) < N"
    proof -
      have "(\<Sum>t<N. mu_waiting (fx_pcs s t)) < (\<Sum>t<N. 1)"
        by (rule sum_strict_mono_ex1) (use mu_waiting_le i pc UA_inc in \<open>auto simp: mu_waiting_def intro!: bexI [of _ i]\<close>)
      then show ?thesis by simp
    qed
    with le N have "unat (mu_waiters (fx_mem s) + 1) = unat (mu_waiters (fx_mem s)) + 1" by (simp add: unat_word_ariths)
    with UA_inc acq p pc show ?thesis by (auto simp: vsync_simps mu_waiting_def)
  next
    case UA_dec
    have "mu_waiting (fx_pcs s i) \<le> unat (mu_waiters (fx_mem s))"
      using sum_member_le [OF i, of "\<lambda>t. mu_waiting (fx_pcs s t)"] le by simp
    then have "mu_waiters (fx_mem s) \<noteq> 0" using pc UA_dec by (auto simp: mu_waiting_def unat_eq_0)
    then have "unat (mu_waiters (fx_mem s) - 1) + 1 = unat (mu_waiters (fx_mem s))" by (simp add: unat_minus_one unat_gt_0)
    with UA_dec acq p pc show ?thesis by (auto simp: vsync_simps mu_waiting_def)
  next
    case UA_fast
    with acq p pc show ?thesis by (auto simp: vsync_simps mu_waiting_def musl_spin_def split: if_splits)
  next
    case (UA_spin_waiters x)
    with acq p pc show ?thesis by (auto simp: vsync_simps mu_waiting_def musl_spin_def split: if_splits)
  qed (use acq p pc in \<open>auto simp: vsync_simps mu_waiting_def split: if_splits\<close>)
qed

lemma mu_extra_step:
  assumes "N < 2 ^ 32" and f: "futex_ok wk" and ex: "mu_extra N s" and "fx_step musl wk N i s t"
  shows "mu_extra N t"
  using assms(4)
proof cases
  case (fx_acq a c m p)
  have eq: "fm_word musl = mu_lock" "fm_acq musl = musl_vmutex_acquire" by (simp_all add: musl_def)
  show ?thesis using mu_extra_acq [OF ex assms(1) fx_acq(2,3) fx_acq(4,5) [unfolded eq]] fx_acq(1) by simp
next
  case (fx_rel r c m p)
  have "mu_waiters m = mu_waiters (fx_mem s)" "mu_waiting p = 0" "\<And>a. p \<noteq> FxSleep a"
    using fx_rel(4,5) by (cases r; auto simp: musl_def vsync_simps mu_waiting_def split: if_splits)+
  with fx_rel show ?thesis by (auto intro!: mu_extra_move [OF ex] simp: mu_waiting_def)
next
  case (fx_wake n W)
  have sl: "a = UA_dec" if "fx_pcs s j = FxSleep a" for j a using ex that by (auto simp: mu_extra_def)
  have "mu_waiting (fx_pcs t j) = mu_waiting (fx_pcs s j)" for j
    using fx_wake(3) sl [of j] by (cases "fx_pcs s j") (auto simp: fx_wake(1) mu_waiting_def)
  moreover have "W \<subseteq> {j. \<exists>a. fx_pcs s j = FxSleep a}" using f fx_wake(4) by (auto simp: futex_ok_def)
  ultimately show ?thesis
    using ex fx_wake(1,2) sl by (auto simp: mu_extra_def split: fpc.splits)
next
  case fx_call
  then show ?thesis using mu_extra_move [OF ex, of i "FxAcq UA_fast" "fx_mem s"] by (simp add: mu_waiting_def musl_def)
next
  case (fx_spurious a)
  then have "a = UA_dec" using ex by (auto simp: mu_extra_def)
  then show ?thesis using mu_extra_move [OF ex, of i "FxAcq a" "fx_mem s"] fx_spurious by (simp add: mu_waiting_def)
next
  case fx_unlock
  then show ?thesis using mu_extra_move [OF ex, of i "FxRel UR_xchg" "fx_mem s"] by (simp add: mu_waiting_def musl_def)
qed

interpretation musl_m: futex_laws musl wk "min N (2 ^ 32 - 1)" musl_vmutex_init "\<lambda>r. r = UR_xchg" "\<lambda>a. a \<in> {UA_take, UA_dec}"
    "\<lambda>r. r \<noteq> UR_xchg" "\<lambda>m. mu_lock m \<noteq> 0" "\<lambda>m. mu_waiters m > 0" "mu_extra (min N (2 ^ 32 - 1))" for wk N
proof unfold_locales
  fix a :: musl_acq_pc and m m' c
  assume acq: "fm_acq musl a m = (c, m')"
  show "if c = FRet then fm_word musl m = 0 \<and> fm_word musl m' \<noteq> 0 else fm_word musl m' = 0 \<longleftrightarrow> fm_word musl m = 0"
    using acq by (cases a) (auto simp: musl_def vsync_simps split: if_splits)
  show "mu_lock m \<noteq> 0 \<Longrightarrow> mu_lock m' \<noteq> 0" using acq by (cases a) (auto simp: musl_def vsync_simps split: if_splits)
  show "\<exists>a'. a' \<in> {UA_take, UA_dec} \<and> (c = FGoto a' \<or> (\<exists>v. c = FWait v a' \<and> fm_word musl m' \<noteq> v))"
    if "a \<in> {UA_take, UA_dec}" "\<not> mu_lock m' \<noteq> 0"
    using acq that by (auto simp: musl_def vsync_simps split: if_splits)
next
  fix a a' :: musl_acq_pc and m m' v
  assume "fm_acq musl a m = (FWait v a', m')"
  then show "a' \<in> {UA_take, UA_dec} \<and> (fm_word musl m' = v \<longrightarrow> mu_lock m' \<noteq> 0)"
    by (cases a) (auto simp: musl_def vsync_simps split: if_splits)
next
  fix r :: musl_rel_pc and m m' d
  assume rel: "fm_rel musl r m = (d, m')"
  show "(\<exists>r'. d = FGoto r' \<and> r' = UR_xchg) \<and> fm_word musl m' \<noteq> 0 \<or> \<not> (\<exists>r'. d = FGoto r' \<and> r' = UR_xchg) \<and> fm_word musl m' = 0"
    if "r = UR_xchg" using rel that by (auto simp: musl_def vsync_simps)
  show "\<not> (\<exists>r'. d = FGoto r' \<and> r' = UR_xchg) \<and> fm_word musl m' = fm_word musl m" if "r \<noteq> UR_xchg"
    using rel that by (cases r) (auto simp: musl_def vsync_simps split: if_splits)
  show "mu_lock m' \<noteq> 0 \<or> (\<exists>n. d = FWake n) \<or> (\<exists>r'. d = FGoto r' \<and> r' \<noteq> UR_xchg)" if "mu_waiters m > 0"
    using rel that by (cases r) (auto simp: musl_def vsync_simps split: if_splits)
next
  fix r :: musl_rel_pc and m m' n
  assume "fm_rel musl r m = (FWake n, m')"
  then show "0 < n" by (cases r) (auto simp: musl_def vsync_simps FUTEX_WAKE_ONE_def split: if_splits)
next
  fix s i t
  assume "futex_ok wk" "mu_extra (min N (2 ^ 32 - 1)) s" "fx_step musl wk (min N (2 ^ 32 - 1)) i s t"
  then show "mu_extra (min N (2 ^ 32 - 1)) t" by (rule mu_extra_step [rotated]) simp
next
  fix s i
  assume ex: "mu_extra (min N (2 ^ 32 - 1)) s" and "fx_asleep s i"
  then obtain a where a: "fx_pcs s i = FxSleep a" by (auto simp: fx_asleep_def)
  then have "i < min N (2 ^ 32 - 1)" using ex by (metis fpc.distinct(3) mu_extra_def not_le)
  from sum_member_le [OF this, of "\<lambda>t. mu_waiting (fx_pcs s t)"] ex a show "mu_waiters (fx_mem s) > 0"
    by (simp add: mu_extra_def mu_waiting_def word_gt_0 unat_gt_0 [symmetric] del: unat_gt_0)
qed (auto simp: musl_def vsync_simps musl_vmutex_init_def fx_start_def mu_extra_def mu_waiting_def)

section \<open>Properties\<close>

abbreviation slim_reach :: "(nat \<Rightarrow> tid set \<Rightarrow> tid set \<Rightarrow> bool) \<Rightarrow> nat \<Rightarrow> (slim_vmutex_t, slim_acq_pc, unit) fx_sys \<Rightarrow> bool" where
  "slim_reach wk N \<equiv> reach (fx_start slim_vmutex_init) (fx_step slim wk N)"

abbreviation tristate_reach :: "(nat \<Rightarrow> tid set \<Rightarrow> tid set \<Rightarrow> bool) \<Rightarrow> nat \<Rightarrow> (tristate_vmutex_t, tri_acq_pc, tri_rel_pc) fx_sys \<Rightarrow> bool" where
  "tristate_reach wk N \<equiv> reach (fx_start tristate_vmutex_init) (fx_step tristate wk N)"

abbreviation musl_reach :: "(nat \<Rightarrow> tid set \<Rightarrow> tid set \<Rightarrow> bool) \<Rightarrow> nat \<Rightarrow> (musl_vmutex_t, musl_acq_pc, musl_rel_pc) fx_sys \<Rightarrow> bool" where
  "musl_reach wk N \<equiv> reach (fx_start musl_vmutex_init) (fx_step musl wk N)"

lemma min_threads: "N < 2 ^ 32 \<Longrightarrow> min N (2 ^ 32 - 1) = (N :: nat)"
  by simp

text \<open>C15: the slim, tristate and musl mutexes implement the abstract lock: each step of any number of
  threads below 2 to the 32, with any choice of the threads a futex wake-up wakes and with spurious
  wake-ups, leaves the holder alone, lets the stepping thread take a free lock, or frees the lock its
  holder has.\<close>

theorem vmutex_refines_lock:
  assumes "futex_ok wk" and "N < 2 ^ 32"
  shows "(\<forall>s i t. slim_reach wk N s \<and> fx_step slim wk N i s t \<longrightarrow>
      lock_spec i (lock_holder (fx_owns (\<lambda>_. True)) s) (lock_holder (fx_owns (\<lambda>_. True)) t)) \<and>
    (\<forall>s i t. tristate_reach wk N s \<and> fx_step tristate wk N i s t \<longrightarrow>
      lock_spec i (lock_holder (fx_owns (\<lambda>_. True)) s) (lock_holder (fx_owns (\<lambda>_. True)) t)) \<and>
    (\<forall>s i t. musl_reach wk N s \<and> fx_step musl wk N i s t \<longrightarrow>
      lock_spec i (lock_holder (fx_owns (\<lambda>r. r = UR_xchg)) s) (lock_holder (fx_owns (\<lambda>r. r = UR_xchg)) t))"
  using slim_m.fx_refines [OF assms(1)] tristate_m.fx_refines [OF assms(1)]
    musl_m.fx_refines [OF assms(1), where N = N, unfolded min_threads [OF assms(2)]] by blast

text \<open>C16: no wake-up is lost: while a thread sleeps in acquire, some thread has the mutex, or is about to
  wake a sleeper, or is awake in the part of acquire that marks the mutex as contended before it sleeps
  or takes it. (In the musl mutex the count of waiters is positive then.)\<close>

theorem vmutex_no_lost_wakeup:
  assumes "futex_ok wk" and "N < 2 ^ 32"
  shows "(\<forall>s i. slim_reach wk N s \<and> fx_asleep s i \<longrightarrow>
      (\<exists>j. fx_owns (\<lambda>_. True) s j \<or> fx_busy (\<lambda>a. a = SA_xchg) (\<lambda>_. False) (fx_pcs s j))) \<and>
    (\<forall>s i. tristate_reach wk N s \<and> fx_asleep s i \<longrightarrow>
      (\<exists>j. fx_owns (\<lambda>_. True) s j \<or> fx_busy (\<lambda>a. a \<noteq> TA_fast) (\<lambda>_. False) (fx_pcs s j))) \<and>
    (\<forall>s i. musl_reach wk N s \<and> fx_asleep s i \<longrightarrow> 0 < mu_waiters (fx_mem s) \<and>
      (\<exists>j. fx_owns (\<lambda>r. r = UR_xchg) s j \<or> fx_busy (\<lambda>a. a \<in> {UA_take, UA_dec}) (\<lambda>r. r \<noteq> UR_xchg) (fx_pcs s j)))"
proof (intro conjI allI impI; elim conjE)
  fix s :: "(slim_vmutex_t, slim_acq_pc, unit) fx_sys" and i
  assume r: "slim_reach wk N s" "fx_asleep s i"
  have "fm_word slim (fx_mem s) \<noteq> 0" if "fx_mem s = 2" using that by (simp add: slim_def)
  with slim_m.fx_no_lost_wakeup(1) [OF assms(1) r] slim_m.fx_word_owner [OF assms(1) r(1)]
  show "\<exists>j. fx_owns (\<lambda>_. True) s j \<or> fx_busy (\<lambda>a. a = SA_xchg) (\<lambda>_. False) (fx_pcs s j)" by blast
next
  fix s :: "(tristate_vmutex_t, tri_acq_pc, tri_rel_pc) fx_sys" and i
  assume r: "tristate_reach wk N s" "fx_asleep s i"
  have "fm_word tristate (fx_mem s) \<noteq> 0" if "fx_mem s = 2" using that by (simp add: tristate_def)
  with tristate_m.fx_no_lost_wakeup(1) [OF assms(1) r] tristate_m.fx_word_owner [OF assms(1) r(1)]
  show "\<exists>j. fx_owns (\<lambda>_. True) s j \<or> fx_busy (\<lambda>a. a \<noteq> TA_fast) (\<lambda>_. False) (fx_pcs s j)" by blast
next
  fix s :: "(musl_vmutex_t, musl_acq_pc, musl_rel_pc) fx_sys" and i
  assume r: "musl_reach wk N s" "fx_asleep s i"
  note musl = musl_m.fx_no_lost_wakeup [OF assms(1), where N = N, unfolded min_threads [OF assms(2)], OF r]
  show "0 < mu_waiters (fx_mem s)" by (rule musl(2))
  have "fm_word musl (fx_mem s) \<noteq> 0" if "mu_lock (fx_mem s) \<noteq> 0" using that by (simp add: musl_def)
  with musl(1) musl_m.fx_word_owner [OF assms(1), where N = N, unfolded min_threads [OF assms(2)], OF r(1)]
  show "\<exists>j. fx_owns (\<lambda>r. r = UR_xchg) s j \<or> fx_busy (\<lambda>a. a \<in> {UA_take, UA_dec}) (\<lambda>r. r \<noteq> UR_xchg) (fx_pcs s j)" by blast
qed

text \<open>An execution of the slim mutex: thread 0 has it, thread 1 sleeps. The futex wakes the sleeper with
  the least number.\<close>

definition wake_least :: "nat \<Rightarrow> tid set \<Rightarrow> tid set \<Rightarrow> bool" where
  "wake_least n S W \<longleftrightarrow> W = (if finite S \<and> card S \<le> n then S else if n = 0 then {} else {LEAST j. j \<in> S})"

lemma wake_least_ok: "futex_ok wake_least"
proof -
  have "(LEAST j. j \<in> S) \<in> S" if "\<not> (finite S \<and> card S \<le> n)" for S :: "tid set" and n
    using that by (metis LeastI card.empty equals0I finite.emptyI le0)
  then show ?thesis by (auto simp: futex_ok_def wake_least_def)
qed

fun slim_move :: "(slim_vmutex_t, slim_acq_pc, unit) fx_sys \<Rightarrow> tid \<Rightarrow> (slim_vmutex_t, slim_acq_pc, unit) fx_sys option" where
  "slim_move s i = (if \<not> i < 2 then None else case fx_pcs s i of
     FxIdle \<Rightarrow> Some (s\<lparr>fx_pcs := (fx_pcs s)(i := FxAcq SA_fast)\<rparr>)
   | FxAcq a \<Rightarrow> (case slim_vmutex_acquire a (fx_mem s) of (c, m) \<Rightarrow> (case c of
        FGoto a' \<Rightarrow> Some (s\<lparr>fx_mem := m, fx_pcs := (fx_pcs s)(i := FxAcq a')\<rparr>)
      | FRet \<Rightarrow> Some (s\<lparr>fx_mem := m, fx_pcs := (fx_pcs s)(i := FxHeld)\<rparr>)
      | FWait v a' \<Rightarrow> Some (s\<lparr>fx_mem := m, fx_pcs := (fx_pcs s)(i := if m = v then FxSleep a' else FxAcq a')\<rparr>)
      | FWake n \<Rightarrow> None))
   | _ \<Rightarrow> None)"

lemma slim_move_step:
  assumes "slim_move s i = Some t"
  shows "\<exists>i. fx_step slim wake_least 2 i s t"
proof (cases "fx_pcs s i")
  case FxIdle
  with assms show ?thesis using fx_call [of i 2 s slim wake_least] by (auto simp: slim_def split: if_splits)
next
  case (FxAcq a)
  obtain c m where c: "slim_vmutex_acquire a (fx_mem s) = (c, m)" by fastforce
  have "i < 2" using assms by (auto split: if_splits)
  note step = fx_acq [OF this FxAcq, of slim c m _ wake_least]
  show ?thesis
    using assms FxAcq c \<open>i < 2\<close> step by (cases c) (auto simp: slim_def intro!: exI [of _ i])
qed (use assms in \<open>auto split: if_splits\<close>)

definition slim_w0 :: "(slim_vmutex_t, slim_acq_pc, unit) fx_sys" where
  "slim_w0 = \<lparr>fx_mem = slim_vmutex_init, fx_pcs = (\<lambda>_. FxIdle)\<rparr>"

definition slim_w1 :: "(slim_vmutex_t, slim_acq_pc, unit) fx_sys" where
  "slim_w1 = \<lparr>fx_mem = 2, fx_pcs = (\<lambda>_. FxIdle)(0 := FxHeld, 1 := FxSleep SA_xchg)\<rparr>"

lemma slim_w_reach: "play slim_move slim_w0 xs = Some t \<Longrightarrow> slim_reach wake_least 2 t"
  by (rule play_reach [OF slim_move_step]) (auto simp: fx_start_def slim_w0_def)

lemma slim_w1_reach: "slim_reach wake_least 2 slim_w1"
  by (rule slim_w_reach [of "[0, 0, 1, 1, 1, 1]"])
     (simp add: slim_w0_def slim_w1_def slim_vmutex_init_def vsync_simps fun_eq_iff)

lemma vmutex_refines_lock_witness:
  "lock_spec 0 (lock_holder (fx_owns (\<lambda>_. True)) slim_w1) (lock_holder (fx_owns (\<lambda>_. True)) (slim_w1\<lparr>fx_pcs := (fx_pcs slim_w1)(0 := FxRel ())\<rparr>))"
proof -
  have "fx_step slim wake_least 2 0 slim_w1 (slim_w1\<lparr>fx_pcs := (fx_pcs slim_w1)(0 := FxRel ())\<rparr>)"
    using fx_unlock [of 0 2 slim_w1 slim wake_least] by (simp add: slim_w1_def slim_def)
  with vmutex_refines_lock [OF wake_least_ok, of 2] slim_w1_reach show ?thesis by auto
qed

lemma vmutex_no_lost_wakeup_witness:
  "fx_asleep slim_w1 1 \<and> (\<exists>j. fx_owns (\<lambda>_. True) slim_w1 j \<or> fx_busy (\<lambda>a. a = SA_xchg) (\<lambda>_. False) (fx_pcs slim_w1 j))"
proof -
  have "fx_asleep slim_w1 1" by (simp add: fx_asleep_def slim_w1_def)
  with vmutex_no_lost_wakeup [OF wake_least_ok, of 2] slim_w1_reach show ?thesis by auto
qed

end
