(* ===== verification/Once.thy ===== *)
theory Once
  imports Mutex
begin

text \<open>
  One-time initialisation, \<^verbatim>\<open>thread/once.h\<close>. The callback is a parameter \<open>cb\<close>; \<open>on_calls\<close>, the arguments
  it was called with, and \<open>on_ran\<close>, whether the running (or last) call of a thread is the one that called it, are auxiliary. The futex is the one of the mutexes.
\<close>

section \<open>Operation\<close>

definition FUTEX_WAKE_ALL :: nat where "FUTEX_WAKE_ALL = 2 ^ 31 - 1"

type_synonym vonce_t = u32

definition VONCE_ZERO :: u32 where "VONCE_ZERO = 0"
definition VONCE_CALL :: u32 where "VONCE_CALL = 1"
definition VONCE_DONE :: u32 where "VONCE_DONE = 2"

datatype once_pc = OC_read | OC_cmpxchg | OC_call | OC_write ptr | OC_wait | OC_reread

text \<open>What a step of the call does: go on, call the callback, wait, wake all waiters and return, or return.\<close>

datatype once_ctl = OGoto once_pc | OCall | OWait u32 once_pc | OWakeRet ptr | ORet ptr

fun vonce_call :: "once_pc \<Rightarrow> vonce_t \<Rightarrow> once_ctl \<times> vonce_t" where
  "vonce_call OC_read w = (if vatomic_read w = VONCE_DONE then ORet NULL else OGoto OC_cmpxchg, w)"
| "vonce_call OC_cmpxchg w =
     (let (state, w') = vatomic_cmpxchg w VONCE_ZERO VONCE_CALL
      in (if state = VONCE_ZERO then OGoto OC_call else if state = VONCE_CALL then OGoto OC_wait else ORet NULL, w'))"
| "vonce_call OC_call w = (OCall, w)"
| "vonce_call (OC_write ret) w = (OWakeRet ret, vatomic_write w VONCE_DONE)"
| "vonce_call OC_wait w = (OWait 1 OC_reread, w)"
| "vonce_call OC_reread w =
     (let state = vatomic_read w in (if state = VONCE_CALL then OGoto OC_wait else ORet NULL, w))"

datatype once_tpc = OnIdle | OnRun once_pc | OnSleep once_pc | OnWake ptr | OnDone ptr

text \<open>What the caller does after a step of its program.\<close>

fun once_next :: "(ptr \<Rightarrow> ptr) \<Rightarrow> ptr \<Rightarrow> once_ctl \<times> vonce_t \<Rightarrow> ptr list \<Rightarrow> once_tpc \<times> ptr list" where
  "once_next cb a (OGoto p, w) calls = (OnRun p, calls)"
| "once_next cb a (OCall, w) calls = (OnRun (OC_write (cb a)), calls @ [a])"
| "once_next cb a (OWait v p, w) calls = (if w = v then OnSleep p else OnRun p, calls)"
| "once_next cb a (OWakeRet r, w) calls = (OnWake r, calls)"
| "once_next cb a (ORet r, w) calls = (OnDone r, calls)"

record once_sys =
  on_word :: vonce_t
  on_pcs :: "tid \<Rightarrow> once_tpc"
  on_calls :: "ptr list"
  on_ran :: "tid \<Rightarrow> bool"

inductive once_step :: "(ptr \<Rightarrow> ptr) \<Rightarrow> (tid \<Rightarrow> ptr) \<Rightarrow> (nat \<Rightarrow> tid set \<Rightarrow> tid set \<Rightarrow> bool) \<Rightarrow> nat \<Rightarrow> tid \<Rightarrow> once_sys \<Rightarrow> once_sys \<Rightarrow> bool"
  for cb arg wk N where
  on_begin: "i < N \<Longrightarrow> on_pcs s i = OnIdle \<or> (\<exists>v. on_pcs s i = OnDone v) \<Longrightarrow>
     once_step cb arg wk N i s (s\<lparr>on_pcs := (on_pcs s)(i := OnRun OC_read), on_ran := (on_ran s)(i := False)\<rparr>)"
| on_run: "i < N \<Longrightarrow> on_pcs s i = OnRun p \<Longrightarrow> vonce_call p (on_word s) = (c, w) \<Longrightarrow>
     once_next cb (arg i) (c, w) (on_calls s) = (q, calls) \<Longrightarrow>
     once_step cb arg wk N i s (s\<lparr>on_word := w, on_pcs := (on_pcs s)(i := q), on_calls := calls,
       on_ran := (on_ran s)(i := on_ran s i \<or> c = OCall)\<rparr>)"
| on_spurious: "i < N \<Longrightarrow> on_pcs s i = OnSleep p \<Longrightarrow> once_step cb arg wk N i s (s\<lparr>on_pcs := (on_pcs s)(i := OnRun p)\<rparr>)"
| on_wake: "i < N \<Longrightarrow> on_pcs s i = OnWake r \<Longrightarrow> wk FUTEX_WAKE_ALL {j. \<exists>p. on_pcs s j = OnSleep p} W \<Longrightarrow>
     once_step cb arg wk N i s
       (s\<lparr>on_pcs := (\<lambda>j. if j = i then OnDone r else if j \<in> W then (case on_pcs s j of OnSleep p \<Rightarrow> OnRun p | q \<Rightarrow> q) else on_pcs s j)\<rparr>)"

definition once_start :: "once_sys \<Rightarrow> bool" where
  "once_start s \<longleftrightarrow> on_word s = VONCE_ZERO \<and> (\<forall>i. on_pcs s i = OnIdle) \<and> on_calls s = [] \<and> (\<forall>i. \<not> on_ran s i)"

section \<open>Invariant\<close>

text \<open>
  Three phases: nobody has won the exchange; thread \<open>h\<close> has won it and runs the callback; the callback
  of \<open>h\<close> is done.
\<close>

datatype once_phase = Fresh | Calling tid | Finished tid

definition once_common :: "once_tpc set" where
  "once_common = {OnIdle, OnRun OC_read, OnRun OC_cmpxchg}"

definition once_waiting :: "once_tpc set" where
  "once_waiting = {OnRun OC_wait, OnRun OC_reread, OnSleep OC_reread}"

fun once_at :: "(ptr \<Rightarrow> ptr) \<Rightarrow> (tid \<Rightarrow> ptr) \<Rightarrow> once_phase \<Rightarrow> tid \<Rightarrow> once_tpc \<Rightarrow> bool" where
  "once_at cb arg Fresh i p \<longleftrightarrow> p \<in> once_common"
| "once_at cb arg (Calling h) i p \<longleftrightarrow> (if i = h then p \<in> {OnRun OC_call, OnRun (OC_write (cb (arg h)))} else p \<in> once_common \<union> once_waiting)"
| "once_at cb arg (Finished h) i p \<longleftrightarrow> p \<in> once_common \<union> once_waiting \<union> {OnDone NULL} \<or> i = h \<and> p \<in> {OnWake (cb (arg h)), OnDone (cb (arg h))}"

fun once_phase_ok :: "(tid \<Rightarrow> ptr) \<Rightarrow> once_phase \<Rightarrow> vonce_t \<Rightarrow> ptr list \<Rightarrow> (tid \<Rightarrow> once_tpc) \<Rightarrow> bool" where
  "once_phase_ok arg Fresh w calls pcs \<longleftrightarrow> w = VONCE_ZERO \<and> calls = []"
| "once_phase_ok arg (Calling h) w calls pcs \<longleftrightarrow> w = VONCE_CALL \<and> calls = (if pcs h = OnRun OC_call then [] else [arg h])"
| "once_phase_ok arg (Finished h) w calls pcs \<longleftrightarrow> w = VONCE_DONE \<and> calls = [arg h] \<and>
     ((\<exists>i. pcs i = OnSleep OC_reread) \<longrightarrow> (\<exists>j r. pcs j = OnWake r))"

definition once_ok :: "(ptr \<Rightarrow> ptr) \<Rightarrow> (tid \<Rightarrow> ptr) \<Rightarrow> nat \<Rightarrow> once_phase \<Rightarrow> vonce_t \<Rightarrow> ptr list \<Rightarrow> (tid \<Rightarrow> once_tpc) \<Rightarrow> bool" where
  "once_ok cb arg N ph w calls pcs \<longleftrightarrow>
     (\<forall>i. once_at cb arg ph i (pcs i)) \<and> once_phase_ok arg ph w calls pcs \<and> (\<forall>i\<ge>N. pcs i = OnIdle)"

lemmas once_vals = VONCE_ZERO_def VONCE_CALL_def VONCE_DONE_def once_common_def once_waiting_def

lemma once_at_Sleep: "once_at cb arg ph i (OnSleep p) \<Longrightarrow> p = OC_reread"
  by (cases ph) (auto simp: once_vals split: if_splits)

lemma once_okD:
  assumes "once_ok cb arg N ph w calls pcs"
  shows "once_at cb arg ph j (pcs j)" "once_phase_ok arg ph w calls pcs" "N \<le> j \<Longrightarrow> pcs j = OnIdle"
  using assms unfolding once_ok_def by blast+

lemma once_okI:
  assumes "\<And>j. once_at cb arg ph j (pcs j)" "once_phase_ok arg ph w calls pcs" "\<And>j. N \<le> j \<Longrightarrow> pcs j = OnIdle"
  shows "once_ok cb arg N ph w calls pcs"
  using assms unfolding once_ok_def by blast

text \<open>A change of the program counters that keeps the phase.\<close>

lemma once_ok_pcs:
  assumes "once_ok cb arg N ph w calls pcs" "\<And>j. once_at cb arg ph j (pcs' j)" "\<And>j. N \<le> j \<Longrightarrow> pcs' j = OnIdle"
    and "\<And>h. ph = Calling h \<Longrightarrow> pcs' h = pcs h"
    and "\<And>h j. ph = Finished h \<Longrightarrow> pcs' j = OnSleep OC_reread \<Longrightarrow> \<exists>k r. pcs' k = OnWake r"
  shows "once_ok cb arg N ph w calls pcs'"
proof -
  have "once_phase_ok arg ph w calls pcs'" using assms(1,4,5) unfolding once_ok_def by (cases ph) auto
  then show ?thesis using assms(2,3) unfolding once_ok_def by blast
qed

lemma once_ok_move:
  assumes inv: "once_ok cb arg N ph w calls pcs" and i: "i < N" and at: "once_at cb arg ph i q"
    and caller: "\<And>h. ph = Calling h \<Longrightarrow> i \<noteq> h"
    and sleep: "\<And>h. ph = Finished h \<Longrightarrow> q \<noteq> OnSleep OC_reread" and wake: "\<And>r. pcs i \<noteq> OnWake r"
  shows "once_ok cb arg N ph w calls (pcs(i := q))"
proof (rule once_ok_pcs [OF inv])
  show "\<exists>k r. (pcs(i := q)) k = OnWake r" if ph: "ph = Finished h" and j: "(pcs(i := q)) j = OnSleep OC_reread" for h j
  proof -
    have "pcs j = OnSleep OC_reread" using j sleep [OF ph] by (auto split: if_splits)
    then obtain k r where k: "pcs k = OnWake r" using once_okD(2) [OF inv] unfolding ph once_phase_ok.simps by blast
    then have "k \<noteq> i" using wake by auto
    then show ?thesis using k by (metis fun_upd_other)
  qed
qed (use once_okD [OF inv] i at caller in auto)

text \<open>The steps of the program, by phase.\<close>

lemma once_ok_fresh:
  assumes inv: "once_ok cb arg N Fresh w calls pcs" and i: "i < N" and pc: "pcs i = OnRun p"
    and c: "vonce_call p w = (c, w')" and q: "once_next cb (arg i) (c, w') calls = (q, calls')"
  shows "\<exists>ph. once_ok cb arg N ph w' calls' (pcs(i := q))"
proof -
  have at: "once_at cb arg Fresh j (pcs j)" for j by (rule once_okD [OF inv])
  have w: "w = VONCE_ZERO" "calls = []" using once_okD(2) [OF inv] by simp_all
  from at [of i] pc consider "p = OC_read" | "p = OC_cmpxchg" by (auto simp: once_vals)
  then show ?thesis
  proof cases
    case 1
    then have e: "w' = w" "q = OnRun OC_cmpxchg" "calls' = calls" using c q w by (auto simp: vsync_simps once_vals)
    have "once_ok cb arg N Fresh w calls (pcs(i := q))"
      by (rule once_ok_move [OF inv i]) (simp_all add: e once_vals pc)
    then show ?thesis using e by blast
  next
    case 2
    then have e: "w' = VONCE_CALL" "q = OnRun OC_call" "calls' = []" using c q w by (auto simp: vsync_simps once_vals)
    have "once_at cb arg (Calling i) j ((pcs(i := q)) j)" for j using at [of j] e by auto
    moreover have "(pcs(i := q)) j = OnIdle" if "N \<le> j" for j using once_okD(3) [OF inv that] i that by simp
    ultimately have "once_ok cb arg N (Calling i) w' calls' (pcs(i := q))" by (intro once_okI) (simp_all only: e, simp)
    then show ?thesis by blast
  qed
qed

lemma once_ok_calling:
  assumes inv: "once_ok cb arg N (Calling h) w calls pcs" and i: "i < N" and pc: "pcs i = OnRun p"
    and c: "vonce_call p w = (c, w')" and q: "once_next cb (arg i) (c, w') calls = (q, calls')"
  shows "\<exists>ph. once_ok cb arg N ph w' calls' (pcs(i := q))"
proof -
  have at: "once_at cb arg (Calling h) j (pcs j)" for j by (rule once_okD [OF inv])
  have w: "w = VONCE_CALL" "calls = (if pcs h = OnRun OC_call then [] else [arg h])" using once_okD(2) [OF inv] by simp_all
  have idle: "(pcs(i := q)) j = OnIdle" if "N \<le> j" for j using once_okD(3) [OF inv that] i that by simp
  show ?thesis
  proof (cases "i = h")
    case False
    have "w' = w \<and> calls' = calls \<and> q \<in> once_common \<union> once_waiting"
      using at [of i] False pc c q w(1) by (auto simp: vsync_simps once_vals)
    moreover from this have "once_ok cb arg N (Calling h) w calls (pcs(i := q))"
      using False pc by (intro once_ok_move [OF inv i]) simp_all
    ultimately show ?thesis by blast
  next
    case True
    with at [of i] pc consider "p = OC_call" | "p = OC_write (cb (arg h))" by (auto simp: once_vals)
    then show ?thesis
    proof cases
      case 1
      then have e: "w' = w" "q = OnRun (OC_write (cb (arg h)))" "calls' = [arg h]" using c q w True pc by auto
      have "once_at cb arg (Calling h) j ((pcs(i := q)) j)" for j using at [of j] e True by auto
      then have "once_ok cb arg N (Calling h) w' calls' (pcs(i := q))"
        by (rule once_okI) (simp_all only: idle, simp add: e w True)
      then show ?thesis by blast
    next
      case 2
      then have e: "w' = VONCE_DONE" "q = OnWake (cb (arg h))" "calls' = [arg h]"
        using c q w True pc by (auto simp: vsync_simps)
      have "once_at cb arg (Finished h) j ((pcs(i := q)) j)" for j using at [of j] e True by auto
      moreover have "(pcs(i := q)) i = OnWake (cb (arg h))" using e by simp
      ultimately have "once_ok cb arg N (Finished h) w' calls' (pcs(i := q))"
        using e idle by (intro once_okI) (simp_all only: once_phase_ok.simps, blast)
      then show ?thesis by blast
    qed
  qed
qed

lemma once_ok_finished:
  assumes inv: "once_ok cb arg N (Finished h) w calls pcs" and i: "i < N" and pc: "pcs i = OnRun p"
    and c: "vonce_call p w = (c, w')" and q: "once_next cb (arg i) (c, w') calls = (q, calls')"
  shows "\<exists>ph. once_ok cb arg N ph w' calls' (pcs(i := q))"
proof -
  have at: "once_at cb arg (Finished h) i (pcs i)" by (rule once_okD [OF inv])
  have w: "w = VONCE_DONE" using once_okD(2) [OF inv] by simp
  have e: "w' = w" "calls' = calls" "q \<noteq> OnSleep OC_reread" "q \<in> once_common \<union> once_waiting \<union> {OnDone NULL}"
    using at pc c q w by (auto simp: vsync_simps once_vals)
  have "once_ok cb arg N (Finished h) w calls (pcs(i := q))"
    by (rule once_ok_move [OF inv i]) (use e pc in auto)
  then show ?thesis using e by blast
qed

text \<open>A waking caller wakes every sleeper.\<close>

lemma once_ok_wake:
  assumes inv: "once_ok cb arg N ph w calls pcs" and fx: "futex_ok wk" and N: "N \<le> FUTEX_WAKE_ALL" and i: "i < N"
    and pc: "pcs i = OnWake r" and W: "wk FUTEX_WAKE_ALL {j. \<exists>p. pcs j = OnSleep p} W"
  shows "once_ok cb arg N ph w calls (\<lambda>j. if j = i then OnDone r else if j \<in> W then (case pcs j of OnSleep p \<Rightarrow> OnRun p | q \<Rightarrow> q) else pcs j)"
    (is "once_ok cb arg N ph w calls ?pcs")
proof -
  have at: "once_at cb arg ph j (pcs j)" for j by (rule once_okD [OF inv])
  have idle: "pcs j = OnIdle" if "N \<le> j" for j using that by (rule once_okD(3) [OF inv])
  obtain h where h: "ph = Finished h" using at [of i] pc by (cases ph) (auto simp: once_vals split: if_splits)
  have sub: "{j. \<exists>p. pcs j = OnSleep p} \<subseteq> {..<N}" using idle by (force simp: not_le [symmetric])
  have "card {j. \<exists>p. pcs j = OnSleep p} \<le> FUTEX_WAKE_ALL" using card_mono [OF _ sub] N by simp
  then have WS: "W = {j. \<exists>p. pcs j = OnSleep p}"
    using fx W finite_subset [OF sub] unfolding futex_ok_def by blast
  have awake: "?pcs j \<noteq> OnSleep p" for j p unfolding WS by (auto split: once_tpc.splits)
  have at': "once_at cb arg ph j (?pcs j)" for j
  proof (cases "j = i")
    case True then show ?thesis using at [of i] pc h by (auto simp: once_vals)
  next
    case False then show ?thesis using at [of j] h by (auto simp: once_vals split: once_tpc.splits)
  qed
  show ?thesis by (rule once_ok_pcs [OF inv at']) (use idle i h awake in auto)
qed

lemma once_step_ok:
  assumes "once_step cb arg wk N i s t" "futex_ok wk" "N \<le> FUTEX_WAKE_ALL" "once_ok cb arg N ph (on_word s) (on_calls s) (on_pcs s)"
  shows "\<exists>ph. once_ok cb arg N ph (on_word t) (on_calls t) (on_pcs t)"
  using assms
proof cases
  case on_begin
  have "once_at cb arg ph i (on_pcs s i)" by (rule once_okD [OF assms(4)])
  then have "once_ok cb arg N ph (on_word s) (on_calls s) ((on_pcs s)(i := OnRun OC_read))"
    using on_begin by (intro once_ok_move [OF assms(4)]; cases ph) (auto simp: once_vals)
  then show ?thesis using on_begin by auto
next
  case (on_run p c w q calls)
  then show ?thesis
    using once_ok_fresh [of cb arg N "on_word s" "on_calls s" "on_pcs s" i p c w q calls]
      once_ok_calling [of cb arg N _ "on_word s" "on_calls s" "on_pcs s" i p c w q calls]
      once_ok_finished [of cb arg N _ "on_word s" "on_calls s" "on_pcs s" i p c w q calls] assms(4)
    by (cases ph) auto
next
  case (on_spurious p)
  have "once_at cb arg ph i (on_pcs s i)" by (rule once_okD [OF assms(4)])
  then have "once_ok cb arg N ph (on_word s) (on_calls s) ((on_pcs s)(i := OnRun p))"
    using on_spurious by (intro once_ok_move [OF assms(4)]; cases ph) (auto simp: once_vals)
  then show ?thesis using on_spurious by auto
next
  case (on_wake r W)
  then show ?thesis using once_ok_wake [OF assms(4,2,3), of i r W] by auto
qed

section \<open>Concrete executions\<close>

fun once_move :: "(ptr \<Rightarrow> ptr) \<Rightarrow> (tid \<Rightarrow> ptr) \<Rightarrow> nat \<Rightarrow> once_sys \<Rightarrow> tid \<Rightarrow> once_sys option" where
  "once_move cb arg N s i = (if i < N then (case on_pcs s i of
     OnIdle \<Rightarrow> Some (s\<lparr>on_pcs := (on_pcs s)(i := OnRun OC_read), on_ran := (on_ran s)(i := False)\<rparr>)
   | OnRun p \<Rightarrow> (let (c, w) = vonce_call p (on_word s); (q, calls) = once_next cb (arg i) (c, w) (on_calls s)
       in Some (s\<lparr>on_word := w, on_pcs := (on_pcs s)(i := q), on_calls := calls, on_ran := (on_ran s)(i := on_ran s i \<or> c = OCall)\<rparr>))
   | _ \<Rightarrow> None) else None)"

lemma once_move_step: "once_move cb arg N s i = Some t \<Longrightarrow> \<exists>j. once_step cb arg wk N j s t"
  by (auto split: if_splits once_tpc.splits prod.splits simp: Let_def intro: on_begin on_run)

section \<open>Main theorem\<close>

lemma once_reach_ok:
  assumes "futex_ok wk" "N \<le> FUTEX_WAKE_ALL" "reach once_start (once_step cb arg wk N) s"
  shows "\<exists>ph. once_ok cb arg N ph (on_word s) (on_calls s) (on_pcs s)"
  using assms(3)
proof (induction rule: reach.induct)
  case (reach_init s)
  then have "once_ok cb arg N Fresh (on_word s) (on_calls s) (on_pcs s)"
    by (auto simp: once_start_def once_ok_def once_vals)
  then show ?case by blast
next
  case (reach_step s i t)
  then show ?case using once_step_ok [OF _ assms(1,2)] by blast
qed

lemma once_sleeper:
  assumes ok: "once_ok cb arg N ph w calls pcs" and sl: "pcs i = OnSleep p"
  shows "\<exists>j<N. \<exists>r. pcs j \<in> {OnRun OC_call, OnRun (OC_write r), OnWake r}"
proof -
  note at = once_okD(1) [OF ok] and po = once_okD(2) [OF ok] and idle = once_okD(3) [OF ok]
  have "\<exists>j r. pcs j \<in> {OnRun OC_call, OnRun (OC_write r), OnWake r}"
  proof (cases ph)
    case Fresh then show ?thesis using at [of i] sl by (auto simp: once_vals)
  next
    case (Calling h) then show ?thesis using at [of h] by auto
  next
    case (Finished h)
    have "pcs i = OnSleep OC_reread" using at [of i] sl once_at_Sleep by metis
    then show ?thesis using po Finished by (auto simp: Finished)
  qed
  then obtain j r where j: "pcs j \<in> {OnRun OC_call, OnRun (OC_write r), OnWake r}" by blast
  then have "j < N" using idle [of j] by (cases "j < N") auto
  then show ?thesis using j by blast
qed

text \<open>The call that called the callback carries its result to the end; every other call has no result.\<close>

definition once_ran_at :: "(ptr \<Rightarrow> ptr) \<Rightarrow> ptr \<Rightarrow> once_tpc \<Rightarrow> bool \<Rightarrow> bool" where
  "once_ran_at cb a p b \<longleftrightarrow> (if b then p \<in> {OnRun (OC_write (cb a)), OnWake (cb a), OnDone (cb a)}
     else \<forall>r. p \<noteq> OnRun (OC_write r) \<and> p \<noteq> OnWake r \<and> (p = OnDone r \<longrightarrow> r = NULL))"

definition once_ran_ok :: "(ptr \<Rightarrow> ptr) \<Rightarrow> (tid \<Rightarrow> ptr) \<Rightarrow> once_sys \<Rightarrow> bool" where
  "once_ran_ok cb arg s \<longleftrightarrow> (\<forall>i. once_ran_at cb (arg i) (on_pcs s i) (on_ran s i)) \<and>
     (\<forall>i j. on_ran s i \<longrightarrow> on_ran s j \<longrightarrow> i = j) \<and> (\<forall>i. on_ran s i \<longrightarrow> on_calls s = [arg i])"

lemma once_ran_okD:
  assumes "once_ran_ok cb arg s"
  shows "once_ran_at cb (arg i) (on_pcs s i) (on_ran s i)" "on_ran s i \<Longrightarrow> on_ran s j \<Longrightarrow> i = j" "on_ran s i \<Longrightarrow> on_calls s = [arg i]"
  using assms unfolding once_ran_ok_def by blast+

lemma once_ran_ok_keep:
  assumes "once_ran_ok cb arg s" "on_calls t = on_calls s" "\<And>j. on_ran t j \<Longrightarrow> on_ran s j"
    and "\<And>j. once_ran_at cb (arg j) (on_pcs t j) (on_ran t j)"
  shows "once_ran_ok cb arg t"
  using assms unfolding once_ran_ok_def by metis

lemma once_ran_run:
  assumes ok: "once_ok cb arg N ph (on_word s) (on_calls s) (on_pcs s)" and R: "once_ran_ok cb arg s"
    and pc: "on_pcs s i = OnRun p" and c: "vonce_call p (on_word s) = (c, w)" and q: "once_next cb (arg i) (c, w) (on_calls s) = (q, calls)"
  shows "once_ran_ok cb arg (s\<lparr>on_word := w, on_pcs := (on_pcs s)(i := q), on_calls := calls, on_ran := (on_ran s)(i := on_ran s i \<or> c = OCall)\<rparr>)"
proof (cases "c = OCall")
  case True
  then have e: "p = OC_call" "q = OnRun (OC_write (cb (arg i)))" "calls = on_calls s @ [arg i]"
    using c q by (auto simp: Let_def elim!: vonce_call.elims split: if_splits prod.splits)
  have "on_calls s = []" using once_okD(1) [OF ok, of i] once_okD(2) [OF ok] pc e(1) by (cases ph) (auto simp: once_vals split: if_splits)
  then have "\<not> on_ran s j" for j using once_ran_okD(3) [OF R, of j] by auto
  then show ?thesis using once_ran_okD(1) [OF R] e \<open>on_calls s = []\<close> True by (auto simp: once_ran_ok_def once_ran_at_def)
next
  case False
  then have "calls = on_calls s" using q by (cases c) auto
  moreover have "once_ran_at cb (arg i) q (on_ran s i)"
    using once_ran_okD(1) [OF R, of i] pc c q False
    by (cases p) (auto simp: once_ran_at_def Let_def split: if_splits prod.splits)
  ultimately show ?thesis using once_ran_okD(1) [OF R] False by (intro once_ran_ok_keep [OF R]) (auto split: if_splits)
qed

lemma once_ran_step:
  assumes "once_step cb arg wk N i s t" and ok: "once_ok cb arg N ph (on_word s) (on_calls s) (on_pcs s)" and R: "once_ran_ok cb arg s"
  shows "once_ran_ok cb arg t"
  using assms(1)
proof cases
  case on_begin
  have "once_ran_at cb (arg j) (on_pcs t j) (on_ran t j)" for j
    using once_ran_okD(1) [OF R, of j] on_begin by (auto simp: once_ran_at_def)
  then show ?thesis by (rule once_ran_ok_keep [OF R, rotated 2]) (use on_begin in \<open>auto split: if_splits\<close>)
next
  case (on_run p c w q calls)
  then show ?thesis using once_ran_run [OF ok R] by simp
next
  case (on_spurious p)
  then have "once_ran_at cb (arg i) (OnRun p) (on_ran s i)"
    using once_ran_okD(1) [OF R, of i] once_okD(1) [OF ok, of i] once_at_Sleep [of cb arg ph i p] by (auto simp: once_ran_at_def split: if_splits)
  then show ?thesis using on_spurious once_ran_okD(1) [OF R] by (intro once_ran_ok_keep [OF R]) auto
next
  case (on_wake r W)
  have "once_ran_at cb (arg j) (on_pcs t j) (on_ran s j)" for j
    using once_ran_okD(1) [OF R, of j] once_okD(1) [OF ok, of j] once_at_Sleep [of cb arg ph j] on_wake
    by (fastforce simp: once_ran_at_def split: if_splits once_tpc.splits)
  then show ?thesis using on_wake by (intro once_ran_ok_keep [OF R]) auto
qed

lemma once_reach_ran:
  assumes "futex_ok wk" "N \<le> FUTEX_WAKE_ALL" "reach once_start (once_step cb arg wk N) s"
  shows "once_ran_ok cb arg s"
  using assms(3)
proof (induction rule: reach.induct)
  case (reach_init s)
  then show ?case by (simp add: once_start_def once_ran_ok_def once_ran_at_def)
next
  case (reach_step s i t)
  then show ?case using once_reach_ok [OF assms(1,2)] once_ran_step by blast
qed

text \<open>C17: In every interleaving of \<^verbatim>\<open>vonce_call\<close> by any number of threads up to the number a
  futex wake-up can reach, the callback is called at most once. When a call has returned, the callback
  has run to completion, exactly once and with the argument of the caller that ran it; a call returns
  the result of the callback if it is the one that ran it, and \<^verbatim>\<open>NULL\<close> otherwise, and at most one
  thread's call ran it. A thread sleeps in the call only while another one still runs the callback or
  is about to wake the sleepers.\<close>

theorem vonce_exactly_once:
  assumes "futex_ok wk" "N \<le> FUTEX_WAKE_ALL" "reach once_start (once_step cb arg wk N) s"
  shows "length (on_calls s) \<le> 1 \<and>
    (\<forall>i r. on_pcs s i = OnDone r \<longrightarrow>
       on_word s = VONCE_DONE \<and> (\<exists>h. on_calls s = [arg h]) \<and> r = (if on_ran s i then cb (arg i) else NULL)) \<and>
    (\<forall>i. on_ran s i \<longrightarrow> on_calls s = [arg i] \<and> (\<forall>j. on_ran s j \<longrightarrow> j = i)) \<and>
    (\<forall>i p. on_pcs s i = OnSleep p \<longrightarrow> (\<exists>j<N. \<exists>r. on_pcs s j \<in> {OnRun OC_call, OnRun (OC_write r), OnWake r}))"
proof (intro conjI allI impI)
  obtain ph where ok: "once_ok cb arg N ph (on_word s) (on_calls s) (on_pcs s)" using once_reach_ok [OF assms] by blast
  note at = once_okD(1) [OF ok] and po = once_okD(2) [OF ok] and ran = once_ran_okD [OF once_reach_ran [OF assms]]
  show "length (on_calls s) \<le> 1" using po by (cases ph) auto
  fix i j r p
  show "on_word s = VONCE_DONE" "\<exists>h. on_calls s = [arg h]"
    if "on_pcs s i = OnDone r" using at [of i] po that by (cases ph; auto simp: once_vals split: if_splits)+
  show "r = (if on_ran s i then cb (arg i) else NULL)" if "on_pcs s i = OnDone r"
    using ran(1) [of i] that by (auto simp: once_ran_at_def)
  show "on_calls s = [arg i]" if "on_ran s i" using ran(3) [OF that] .
  show "j = i" if "on_ran s i" "on_ran s j" using ran(2) [OF that] by simp
  show "\<exists>j<N. \<exists>r. on_pcs s j \<in> {OnRun OC_call, OnRun (OC_write r), OnWake r}" if "on_pcs s i = OnSleep p"
    using once_sleeper [OF ok that] .
qed

text \<open>An execution of three threads: thread 0 runs the callback and is about to wake thread 1, which
  sleeps; thread 2 comes late and returns at once. Then thread 0 wakes thread 1 and returns.\<close>

definition once_w0 :: once_sys where
  "once_w0 = \<lparr>on_word = VONCE_ZERO, on_pcs = \<lambda>_. OnIdle, on_calls = [], on_ran = \<lambda>_. False\<rparr>"

definition once_w1 :: once_sys where
  "once_w1 = \<lparr>on_word = VONCE_DONE, on_pcs = (\<lambda>_. OnIdle)(0 := OnWake 42, 1 := OnSleep OC_reread, 2 := OnDone NULL), on_calls = [7],
     on_ran = (\<lambda>_. False)(0 := True)\<rparr>"

lemma once_w1_reach: "reach once_start (once_step (\<lambda>a. 42) (\<lambda>i. 7) wk 3) once_w1"
proof -
  have w: "play (once_move (\<lambda>a. 42) (\<lambda>i. 7) 3) once_w0 [0, 1, 0, 1, 0, 1, 0, 1, 0, 2, 2] = Some once_w1"
    by (simp add: once_w0_def once_w1_def once_vals vsync_simps fun_upd_twist fun_upd_idem)
  have "once_start once_w0" by (simp add: once_start_def once_w0_def)
  from once_move_step [of "\<lambda>a. 42" "\<lambda>i. 7" 3] this w show ?thesis by (rule play_reach)
qed

definition once_w2 :: once_sys where
  "once_w2 = once_w1\<lparr>on_pcs := (\<lambda>_. OnIdle)(0 := OnDone 42, 1 := OnRun OC_reread, 2 := OnDone NULL)\<rparr>"

lemma once_w2_reach: "reach once_start (once_step (\<lambda>a. 42) (\<lambda>i. 7) wake_least 3) once_w2"
proof -
  have wk: "wake_least FUTEX_WAKE_ALL {j. \<exists>p. on_pcs once_w1 j = OnSleep p} {1}"
  proof -
    have "{j. \<exists>p. on_pcs once_w1 j = OnSleep p} = {1}" by (auto simp: once_w1_def split: if_splits)
    then show ?thesis by (simp add: wake_least_def FUTEX_WAKE_ALL_def)
  qed
  have pcs: "(\<lambda>_. OnIdle)(0 := OnDone 42, 1 := OnRun OC_reread, 2 := OnDone NULL) = (\<lambda>j. if j = 0 then OnDone 42
      else if j \<in> {1} then (case on_pcs once_w1 j of OnSleep p \<Rightarrow> OnRun p | q \<Rightarrow> q) else on_pcs once_w1 j)"
    by (simp add: fun_eq_iff once_w1_def)
  from on_wake [of 0 3 once_w1 42 wake_least "{1}" "\<lambda>a. 42" "\<lambda>i. 7", OF _ _ wk]
  have "once_step (\<lambda>a. 42) (\<lambda>i. 7) wake_least 3 0 once_w1 once_w2"
    unfolding once_w2_def pcs by (simp add: once_w1_def)
  with once_w1_reach show ?thesis by (rule reach_step)
qed

lemma vonce_exactly_once_witness:
  "on_pcs once_w2 0 = OnDone 42 \<and> on_ran once_w2 0 \<and> on_pcs once_w2 2 = OnDone NULL \<and> \<not> on_ran once_w2 2 \<and> on_calls once_w2 = [7]"
proof -
  have N: "3 \<le> FUTEX_WAKE_ALL" by (simp add: FUTEX_WAKE_ALL_def)
  have pcs: "on_pcs once_w2 0 = OnDone 42" "on_pcs once_w2 2 = OnDone NULL" by (simp_all add: once_w2_def)
  have ran: "on_ran once_w2 0" "\<not> on_ran once_w2 2" by (simp_all add: once_w2_def once_w1_def)
  from vonce_exactly_once [OF wake_least_ok N once_w2_reach] ran(1)
  have "on_calls once_w2 = [7]" by blast
  with pcs ran show ?thesis by blast
qed

end
