(* ===== verification/Atomicptr.thy ===== *)
theory Atomicptr
  imports Vatomic
begin

text \<open>
  Atomic pointers with a mark (\<^verbatim>\<open>atomic/atomicptr_markable.h\<close>) or a stamp
  (\<^verbatim>\<open>atomic/atomicptr_stamped.h\<close>) in the low bits of the address. The files repeat each
  operation for each memory order; one definition stands for all of them. The locale
  \<open>tagged_pointer\<close> states what the packing promises: address and tag come back, and two packed
  words are equal exactly when address and tag are.
\<close>

unbundle bit_operations_syntax

section \<open>Markable pointers\<close>

definition V_ATOMICPTR_MARKABLE_EXTRACT_ADDRESS :: ptr where
  "V_ATOMICPTR_MARKABLE_EXTRACT_ADDRESS = (- 1) - 3"

definition V_ATOMICPTR_MARKABLE_EXTRACT_MARK :: ptr where
  "V_ATOMICPTR_MARKABLE_EXTRACT_MARK = 1"

definition V_ATOMICPTR_MARKABLE_GET_ADDRESS :: "ptr \<Rightarrow> ptr" where
  "V_ATOMICPTR_MARKABLE_GET_ADDRESS a = a AND V_ATOMICPTR_MARKABLE_EXTRACT_ADDRESS"

definition V_ATOMICPTR_MARKABLE_GET_MARK :: "ptr \<Rightarrow> bool" where
  "V_ATOMICPTR_MARKABLE_GET_MARK a \<longleftrightarrow> a AND V_ATOMICPTR_MARKABLE_EXTRACT_MARK \<noteq> 0"

definition V_ATOMICPTR_MARKABLE_COMBINE_ADDRESS_MARK :: "ptr \<Rightarrow> bool \<Rightarrow> ptr" where
  "V_ATOMICPTR_MARKABLE_COMBINE_ADDRESS_MARK a m = a OR of_bool m"

definition V_ATOMICPTR_MARKABLE_IS_ALIGNED :: "ptr \<Rightarrow> bool" where
  "V_ATOMICPTR_MARKABLE_IS_ALIGNED p \<longleftrightarrow> p AND 3 = 0"

definition vatomicptr_markable_cmpxchg :: "ptr \<Rightarrow> ptr \<Rightarrow> bool \<Rightarrow> ptr \<Rightarrow> bool \<Rightarrow> (bool \<times> ptr) res" where
  "vatomicptr_markable_cmpxchg a e_v e_m v m =
     rbind (vassert (V_ATOMICPTR_MARKABLE_IS_ALIGNED e_v)) (\<lambda>_.
     rbind (vassert (V_ATOMICPTR_MARKABLE_IS_ALIGNED v)) (\<lambda>_.
       let e = V_ATOMICPTR_MARKABLE_COMBINE_ADDRESS_MARK e_v e_m;
           val = V_ATOMICPTR_MARKABLE_COMBINE_ADDRESS_MARK v m;
           (ret, a') = vatomic_cmpxchg a e val
       in Inr (ret = e, a')))"

text \<open>The attempts to change a tag make two accesses: they read the cell and exchange it.\<close>

datatype attempt_pc = AT_read | AT_cmpxchg ptr

fun vatomicptr_markable_attempt_mark :: "ptr \<Rightarrow> bool \<Rightarrow> (attempt_pc, ptr, bool res) prog" where
  "vatomicptr_markable_attempt_mark e_v m AT_read a =
     (let old_val = vatomic_read a
      in case vassert (V_ATOMICPTR_MARKABLE_IS_ALIGNED e_v) of Inl e \<Rightarrow> (Ret (Inl e), a)
         | Inr _ \<Rightarrow> (if V_ATOMICPTR_MARKABLE_GET_ADDRESS old_val \<noteq> e_v then Ret (Inr False) else Goto (AT_cmpxchg old_val), a))"
| "vatomicptr_markable_attempt_mark e_v m (AT_cmpxchg old_val) a =
     (let new_val = V_ATOMICPTR_MARKABLE_COMBINE_ADDRESS_MARK e_v m;
          (ret, a') = vatomic_cmpxchg a old_val new_val
      in (Ret (Inr (ret = old_val)), a'))"

definition vatomicptr_markable_set :: "ptr \<Rightarrow> ptr \<Rightarrow> bool \<Rightarrow> ptr res" where
  "vatomicptr_markable_set a v m =
     rbind (vassert (V_ATOMICPTR_MARKABLE_IS_ALIGNED v)) (\<lambda>_.
       Inr (vatomic_write a (V_ATOMICPTR_MARKABLE_COMBINE_ADDRESS_MARK v m)))"

definition vatomicptr_markable_get :: "ptr \<Rightarrow> ptr \<times> bool" where
  "vatomicptr_markable_get a =
     (let ret = vatomic_read a in (V_ATOMICPTR_MARKABLE_GET_ADDRESS ret, V_ATOMICPTR_MARKABLE_GET_MARK ret))"

definition vatomicptr_markable_get_pointer :: "ptr \<Rightarrow> ptr" where
  "vatomicptr_markable_get_pointer a = fst (vatomicptr_markable_get a)"

definition vatomicptr_markable_get_mark :: "ptr \<Rightarrow> bool" where
  "vatomicptr_markable_get_mark a = snd (vatomicptr_markable_get a)"

section \<open>Stamped pointers\<close>

definition V_ATOMICPTR_STAMPED_STAMP_MASK :: ptr where
  "V_ATOMICPTR_STAMPED_STAMP_MASK = 0x7F"

definition V_ATOMICPTR_STAMPED_ADDRESS_MASK :: ptr where
  "V_ATOMICPTR_STAMPED_ADDRESS_MASK = NOT V_ATOMICPTR_STAMPED_STAMP_MASK"

definition V_ATOMICPTR_STAMPED_GET_ADDRESS :: "ptr \<Rightarrow> ptr" where
  "V_ATOMICPTR_STAMPED_GET_ADDRESS a = a AND V_ATOMICPTR_STAMPED_ADDRESS_MASK"

definition V_ATOMICPTR_STAMPED_GET_STAMP :: "ptr \<Rightarrow> u8" where
  "V_ATOMICPTR_STAMPED_GET_STAMP a = ucast (a AND V_ATOMICPTR_STAMPED_STAMP_MASK)"

definition V_ATOMICPTR_STAMPED_COMBINE_ADDRESS_STAMP :: "ptr \<Rightarrow> u8 \<Rightarrow> ptr" where
  "V_ATOMICPTR_STAMPED_COMBINE_ADDRESS_STAMP a stamp = a OR ucast (V_ATOMICPTR_STAMPED_GET_STAMP (ucast stamp))"

definition V_ATOMICPTR_STAMPED_IS_ALIGNED :: "ptr \<Rightarrow> bool" where
  "V_ATOMICPTR_STAMPED_IS_ALIGNED p \<longleftrightarrow> p AND V_ATOMICPTR_STAMPED_STAMP_MASK = 0"

definition vatomicptr_stamped_cmpxchg :: "ptr \<Rightarrow> ptr \<Rightarrow> u8 \<Rightarrow> ptr \<Rightarrow> u8 \<Rightarrow> (bool \<times> ptr) res" where
  "vatomicptr_stamped_cmpxchg a e_v e_stamp v stamp =
     rbind (vassert (V_ATOMICPTR_STAMPED_IS_ALIGNED e_v)) (\<lambda>_.
     rbind (vassert (V_ATOMICPTR_STAMPED_IS_ALIGNED v)) (\<lambda>_.
       let exp = V_ATOMICPTR_STAMPED_COMBINE_ADDRESS_STAMP e_v e_stamp;
           val = V_ATOMICPTR_STAMPED_COMBINE_ADDRESS_STAMP v stamp;
           (old, a') = vatomic_cmpxchg a exp val
       in Inr (old = exp, a')))"

fun vatomicptr_stamped_attempt_stamp :: "ptr \<Rightarrow> u8 \<Rightarrow> (attempt_pc, ptr, bool res) prog" where
  "vatomicptr_stamped_attempt_stamp e_v stamp AT_read a =
     (let old_val = vatomic_read a
      in case vassert (V_ATOMICPTR_STAMPED_IS_ALIGNED e_v) of Inl e \<Rightarrow> (Ret (Inl e), a)
         | Inr _ \<Rightarrow> (if V_ATOMICPTR_STAMPED_GET_ADDRESS old_val \<noteq> e_v then Ret (Inr False) else Goto (AT_cmpxchg old_val), a))"
| "vatomicptr_stamped_attempt_stamp e_v stamp (AT_cmpxchg old_val) a =
     (let new_val = V_ATOMICPTR_STAMPED_COMBINE_ADDRESS_STAMP e_v stamp;
          (ret, a') = vatomic_cmpxchg a old_val new_val
      in (Ret (Inr (ret = old_val)), a'))"

definition vatomicptr_stamped_set :: "ptr \<Rightarrow> ptr \<Rightarrow> u8 \<Rightarrow> ptr res" where
  "vatomicptr_stamped_set a v stamp =
     rbind (vassert (V_ATOMICPTR_STAMPED_IS_ALIGNED v)) (\<lambda>_.
       Inr (vatomic_write a (V_ATOMICPTR_STAMPED_COMBINE_ADDRESS_STAMP v stamp)))"

definition vatomicptr_stamped_get :: "ptr \<Rightarrow> ptr \<times> u8" where
  "vatomicptr_stamped_get a =
     (let val = vatomic_read a in (V_ATOMICPTR_STAMPED_GET_ADDRESS val, V_ATOMICPTR_STAMPED_GET_STAMP val))"

definition vatomicptr_stamped_get_pointer :: "ptr \<Rightarrow> ptr" where
  "vatomicptr_stamped_get_pointer a = fst (vatomicptr_stamped_get a)"

definition vatomicptr_stamped_get_stamp :: "ptr \<Rightarrow> u8" where
  "vatomicptr_stamped_get_stamp a = snd (vatomicptr_stamped_get a)"

section \<open>What the packing promises\<close>

locale tagged_pointer =
  fixes aligned :: "ptr \<Rightarrow> bool" and combine :: "ptr \<Rightarrow> 't \<Rightarrow> ptr" and addr :: "ptr \<Rightarrow> ptr" and tag :: "ptr \<Rightarrow> 't"
    and norm :: "'t \<Rightarrow> 't"
  assumes addr_combine: "aligned v \<Longrightarrow> addr (combine v t) = v"
    and tag_combine: "aligned v \<Longrightarrow> tag (combine v t) = norm t"
    and combine_norm: "combine v (norm t) = combine v t"
begin

lemma combine_eq_iff:
  assumes "aligned v" "aligned w"
  shows "combine v t = combine w u \<longleftrightarrow> v = w \<and> norm t = norm u"
  using assms addr_combine tag_combine combine_norm by metis

text \<open>A compare-and-exchange of packed words is one of pairs of address and tag.\<close>

lemma cmpxchg_pair:
  assumes "aligned w" "aligned e"
  shows "vatomic_cmpxchg (combine w u) (combine e s) x =
    (combine w u, if (w, norm u) = (e, norm s) then x else combine w u)"
  using combine_eq_iff [OF assms] by (simp add: vatomic_cmpxchg_def)

end

lemma aligned_bit: "p AND mask k = 0 \<Longrightarrow> n < k \<Longrightarrow> \<not> bit p n" for p :: ptr
proof -
  assume "p AND mask k = 0" "n < k"
  then have "\<not> bit (p AND mask k) n" by simp
  with \<open>n < k\<close> show ?thesis using bit_imp_le_length [of p n] by (auto simp: bit_and_iff bit_mask_iff)
qed

lemma address_of_packed:
  fixes v t :: ptr
  assumes "v AND mask k = 0" "t AND mask k = t"
  shows "(v OR t) AND NOT (mask k) = v" "(v OR t) AND mask k = t"
proof -
  have t: "bit t n \<Longrightarrow> n < k" for n using assms(2) by (metis bit_and_iff bit_mask_iff)
  show "(v OR t) AND NOT (mask k) = v"
    using aligned_bit [OF assms(1)] t by (intro bit_word_eqI) (auto simp: bit_and_iff bit_or_iff bit_not_iff bit_mask_iff)
  show "(v OR t) AND mask k = t"
    using aligned_bit [OF assms(1)] t by (intro bit_word_eqI) (auto simp: bit_and_iff bit_or_iff bit_mask_iff)
qed

lemmas markable_defs = V_ATOMICPTR_MARKABLE_EXTRACT_ADDRESS_def V_ATOMICPTR_MARKABLE_EXTRACT_MARK_def
  V_ATOMICPTR_MARKABLE_GET_ADDRESS_def V_ATOMICPTR_MARKABLE_GET_MARK_def
  V_ATOMICPTR_MARKABLE_COMBINE_ADDRESS_MARK_def V_ATOMICPTR_MARKABLE_IS_ALIGNED_def

lemmas stamped_defs = V_ATOMICPTR_STAMPED_STAMP_MASK_def V_ATOMICPTR_STAMPED_ADDRESS_MASK_def
  V_ATOMICPTR_STAMPED_GET_ADDRESS_def V_ATOMICPTR_STAMPED_GET_STAMP_def
  V_ATOMICPTR_STAMPED_COMBINE_ADDRESS_STAMP_def V_ATOMICPTR_STAMPED_IS_ALIGNED_def

lemma mask2: "(3 :: ptr) = mask 2" and mask7: "(0x7F :: ptr) = mask 7"
  by (simp_all add: mask_eq_exp_minus_1)

interpretation mark: tagged_pointer V_ATOMICPTR_MARKABLE_IS_ALIGNED V_ATOMICPTR_MARKABLE_COMBINE_ADDRESS_MARK
  V_ATOMICPTR_MARKABLE_GET_ADDRESS V_ATOMICPTR_MARKABLE_GET_MARK id
proof unfold_locales
  fix v :: ptr and t
  assume al: "V_ATOMICPTR_MARKABLE_IS_ALIGNED v"
  then have v: "v AND mask 2 = 0" by (simp add: V_ATOMICPTR_MARKABLE_IS_ALIGNED_def mask2)
  have t: "of_bool t AND mask 2 = (of_bool t :: ptr)" by (cases t) (simp_all add: mask_eq_exp_minus_1)
  have "(- 1) - 3 = NOT (mask 2 :: ptr)" by (simp add: mask_eq_exp_minus_1 not_eq_complement)
  then show "V_ATOMICPTR_MARKABLE_GET_ADDRESS (V_ATOMICPTR_MARKABLE_COMBINE_ADDRESS_MARK v t) = v"
    using address_of_packed(1) [OF v t] by (simp add: markable_defs)
  have "(v OR of_bool t) AND 1 = of_bool t"
    using aligned_bit [OF v, of 0] by (intro bit_word_eqI) (auto simp: bit_and_iff bit_or_iff bit_1_iff bit_of_bool_iff)
  then show "V_ATOMICPTR_MARKABLE_GET_MARK (V_ATOMICPTR_MARKABLE_COMBINE_ADDRESS_MARK v t) = id t"
    by (simp add: markable_defs)
qed simp

text \<open>Only the low seven bits of a stamp are kept.\<close>

definition stamp_norm :: "u8 \<Rightarrow> u8" where "stamp_norm stamp = take_bit 7 stamp"

interpretation stamp: tagged_pointer V_ATOMICPTR_STAMPED_IS_ALIGNED V_ATOMICPTR_STAMPED_COMBINE_ADDRESS_STAMP
  V_ATOMICPTR_STAMPED_GET_ADDRESS V_ATOMICPTR_STAMPED_GET_STAMP stamp_norm
proof unfold_locales
  have pack: "ucast (V_ATOMICPTR_STAMPED_GET_STAMP (ucast t)) = (ucast t AND mask 7 :: ptr)" for t :: u8
    unfolding stamped_defs mask7 by (intro bit_word_eqI) (auto simp: bit_and_iff bit_mask_iff bit_unsigned_iff)
  show "V_ATOMICPTR_STAMPED_COMBINE_ADDRESS_STAMP v (stamp_norm t) = V_ATOMICPTR_STAMPED_COMBINE_ADDRESS_STAMP v t" for v t
  proof -
    have "(ucast (stamp_norm t) AND mask 7 :: ptr) = ucast t AND mask 7"
      unfolding stamp_norm_def by (intro bit_word_eqI) (auto simp: bit_simps)
    then show ?thesis by (simp add: V_ATOMICPTR_STAMPED_COMBINE_ADDRESS_STAMP_def pack)
  qed
  fix v :: ptr and t :: u8
  assume al: "V_ATOMICPTR_STAMPED_IS_ALIGNED v"
  then have v: "v AND mask 7 = 0" by (simp add: stamped_defs mask7)
  note p = address_of_packed [OF v, of "ucast t AND mask 7"]
  show "V_ATOMICPTR_STAMPED_GET_ADDRESS (V_ATOMICPTR_STAMPED_COMBINE_ADDRESS_STAMP v t) = v"
    using p(1) unfolding V_ATOMICPTR_STAMPED_COMBINE_ADDRESS_STAMP_def pack
    by (simp add: V_ATOMICPTR_STAMPED_GET_ADDRESS_def V_ATOMICPTR_STAMPED_ADDRESS_MASK_def V_ATOMICPTR_STAMPED_STAMP_MASK_def mask7 ac_simps)
  show "V_ATOMICPTR_STAMPED_GET_STAMP (V_ATOMICPTR_STAMPED_COMBINE_ADDRESS_STAMP v t) = stamp_norm t"
    using p(2) unfolding V_ATOMICPTR_STAMPED_COMBINE_ADDRESS_STAMP_def pack
    by (auto simp: V_ATOMICPTR_STAMPED_GET_STAMP_def V_ATOMICPTR_STAMPED_STAMP_MASK_def mask7 stamp_norm_def ac_simps bit_simps intro!: bit_word_eqI)
qed

section \<open>Properties\<close>

lemmas tagged_op_defs = vatomicptr_markable_cmpxchg_def vatomicptr_markable_set_def vatomicptr_markable_get_def
  vatomicptr_stamped_cmpxchg_def vatomicptr_stamped_set_def vatomicptr_stamped_get_def

text \<open>C26: what is set is what is read back. Setting a markable or stamped pointer fails its assertion
  exactly when the address is not aligned (to 4 or 128 bytes); otherwise reading gives the address and
  the mark, or the address and the stamp modulo 128.\<close>

theorem atomicptr_roundtrip:
  "(V_ATOMICPTR_MARKABLE_IS_ALIGNED v \<longrightarrow>
      (\<exists>a'. vatomicptr_markable_set a v m = Inr a' \<and> vatomicptr_markable_get a' = (v, m))) \<and>
   (\<not> V_ATOMICPTR_MARKABLE_IS_ALIGNED v \<longrightarrow> vatomicptr_markable_set a v m = Inl AssertFail) \<and>
   (V_ATOMICPTR_STAMPED_IS_ALIGNED v \<longrightarrow>
      (\<exists>a'. vatomicptr_stamped_set a v n = Inr a' \<and> vatomicptr_stamped_get a' = (v, n mod 128))) \<and>
   (\<not> V_ATOMICPTR_STAMPED_IS_ALIGNED v \<longrightarrow> vatomicptr_stamped_set a v n = Inl AssertFail)"
  by (simp add: tagged_op_defs vsync_simps mark.addr_combine mark.tag_combine stamp.addr_combine stamp.tag_combine
      stamp_norm_def take_bit_eq_mod)

lemma atomicptr_roundtrip_witness:
  "(\<exists>a'. vatomicptr_markable_set 5 0x1000 True = Inr a' \<and> vatomicptr_markable_get a' = (0x1000, True)) \<and>
   (\<exists>a'. vatomicptr_stamped_set 5 0x1000 130 = Inr a' \<and> vatomicptr_stamped_get a' = (0x1000, 2)) \<and>
   vatomicptr_stamped_set 5 0x1004 1 = Inl AssertFail"
  using atomicptr_roundtrip [of "0x1000" 5 True 130] atomicptr_roundtrip [of "0x1004" 5 True 1]
  by (simp add: V_ATOMICPTR_MARKABLE_IS_ALIGNED_def V_ATOMICPTR_STAMPED_IS_ALIGNED_def V_ATOMICPTR_STAMPED_STAMP_MASK_def)

text \<open>C25: on cells that hold an aligned address and a tag, the compare-and-exchange operations of both
  kinds of pointer compare and exchange the pair: they succeed exactly when address and tag are the
  expected ones (stamps modulo 128) and leave the cell alone otherwise.\<close>

theorem atomicptr_cmpxchg_pair:
  "(V_ATOMICPTR_MARKABLE_IS_ALIGNED w \<and> V_ATOMICPTR_MARKABLE_IS_ALIGNED e \<and> V_ATOMICPTR_MARKABLE_IS_ALIGNED v \<longrightarrow>
      vatomicptr_markable_cmpxchg (V_ATOMICPTR_MARKABLE_COMBINE_ADDRESS_MARK w u) e s v m =
        (if (w, u) = (e, s) then Inr (True, V_ATOMICPTR_MARKABLE_COMBINE_ADDRESS_MARK v m)
         else Inr (False, V_ATOMICPTR_MARKABLE_COMBINE_ADDRESS_MARK w u))) \<and>
   (V_ATOMICPTR_STAMPED_IS_ALIGNED w \<and> V_ATOMICPTR_STAMPED_IS_ALIGNED e \<and> V_ATOMICPTR_STAMPED_IS_ALIGNED v \<longrightarrow>
      vatomicptr_stamped_cmpxchg (V_ATOMICPTR_STAMPED_COMBINE_ADDRESS_STAMP w p) e q v n =
        (if (w, p mod 128) = (e, q mod 128) then Inr (True, V_ATOMICPTR_STAMPED_COMBINE_ADDRESS_STAMP v n)
         else Inr (False, V_ATOMICPTR_STAMPED_COMBINE_ADDRESS_STAMP w p)))"
  by (auto simp: tagged_op_defs mark.cmpxchg_pair stamp.cmpxchg_pair mark.combine_eq_iff stamp.combine_eq_iff
      stamp_norm_def take_bit_eq_mod)

lemma atomicptr_cmpxchg_pair_witness:
  "vatomicptr_markable_cmpxchg (V_ATOMICPTR_MARKABLE_COMBINE_ADDRESS_MARK 8 False) 8 True 16 False =
     Inr (False, V_ATOMICPTR_MARKABLE_COMBINE_ADDRESS_MARK 8 False) \<and>
   vatomicptr_stamped_cmpxchg (V_ATOMICPTR_STAMPED_COMBINE_ADDRESS_STAMP 128 2) 128 130 256 3 =
     Inr (True, V_ATOMICPTR_STAMPED_COMBINE_ADDRESS_STAMP 256 3)"
  using atomicptr_cmpxchg_pair [of 8 8 16 False True False] atomicptr_cmpxchg_pair [of 128 128 256 False False False 2 130 3]
  by (simp add: V_ATOMICPTR_MARKABLE_IS_ALIGNED_def V_ATOMICPTR_STAMPED_IS_ALIGNED_def V_ATOMICPTR_STAMPED_STAMP_MASK_def)

text \<open>The attempts to change a tag, with any change of the cell between their two accesses (the
  cell holds address \<open>w1\<close> and tag \<open>u1\<close> at the read, \<open>w2\<close> and \<open>u2\<close> at the exchange). The attempt
  succeeds exactly when the address is the expected one at the read and nothing changed in between, and
  then only the tag changes. It fails without effect also when the address is still the expected one
  and only the tag was changed in between.\<close>

theorem atomicptr_attempt_interference:
  fixes w1 w2 e :: ptr
  defines "mk \<equiv> V_ATOMICPTR_MARKABLE_COMBINE_ADDRESS_MARK" and "st \<equiv> V_ATOMICPTR_STAMPED_COMBINE_ADDRESS_STAMP"
  shows "(V_ATOMICPTR_MARKABLE_IS_ALIGNED w1 \<and> V_ATOMICPTR_MARKABLE_IS_ALIGNED w2 \<and> V_ATOMICPTR_MARKABLE_IS_ALIGNED e \<longrightarrow>
      vatomicptr_markable_attempt_mark e m AT_read (mk w1 u1) =
        (if w1 = e then Goto (AT_cmpxchg (mk w1 u1)) else Ret (Inr False), mk w1 u1) \<and>
      vatomicptr_markable_attempt_mark e m (AT_cmpxchg (mk w1 u1)) (mk w2 u2) =
        (if (w1, u1) = (w2, u2) then (Ret (Inr True), mk e m) else (Ret (Inr False), mk w2 u2))) \<and>
    (V_ATOMICPTR_STAMPED_IS_ALIGNED w1 \<and> V_ATOMICPTR_STAMPED_IS_ALIGNED w2 \<and> V_ATOMICPTR_STAMPED_IS_ALIGNED e \<longrightarrow>
      vatomicptr_stamped_attempt_stamp e n AT_read (st w1 p1) =
        (if w1 = e then Goto (AT_cmpxchg (st w1 p1)) else Ret (Inr False), st w1 p1) \<and>
      vatomicptr_stamped_attempt_stamp e n (AT_cmpxchg (st w1 p1)) (st w2 p2) =
        (if (w1, p1 mod 128) = (w2, p2 mod 128) then (Ret (Inr True), st e n) else (Ret (Inr False), st w2 p2)))"
proof (intro conjI impI; elim conjE)
  assume al: "V_ATOMICPTR_MARKABLE_IS_ALIGNED w1" "V_ATOMICPTR_MARKABLE_IS_ALIGNED w2" "V_ATOMICPTR_MARKABLE_IS_ALIGNED e"
  show "vatomicptr_markable_attempt_mark e m AT_read (mk w1 u1) =
      (if w1 = e then Goto (AT_cmpxchg (mk w1 u1)) else Ret (Inr False), mk w1 u1)"
    using al by (simp add: mk_def mark.addr_combine vatomic_read_def Let_def)
  show "vatomicptr_markable_attempt_mark e m (AT_cmpxchg (mk w1 u1)) (mk w2 u2) =
      (if (w1, u1) = (w2, u2) then (Ret (Inr True), mk e m) else (Ret (Inr False), mk w2 u2))"
    using mark.combine_eq_iff [OF al(2,1), of u2 u1] by (auto simp: mk_def vatomic_cmpxchg_def)
next
  assume al: "V_ATOMICPTR_STAMPED_IS_ALIGNED w1" "V_ATOMICPTR_STAMPED_IS_ALIGNED w2" "V_ATOMICPTR_STAMPED_IS_ALIGNED e"
  show "vatomicptr_stamped_attempt_stamp e n AT_read (st w1 p1) =
      (if w1 = e then Goto (AT_cmpxchg (st w1 p1)) else Ret (Inr False), st w1 p1)"
    using al by (simp add: st_def stamp.addr_combine vatomic_read_def Let_def)
  show "vatomicptr_stamped_attempt_stamp e n (AT_cmpxchg (st w1 p1)) (st w2 p2) =
      (if (w1, p1 mod 128) = (w2, p2 mod 128) then (Ret (Inr True), st e n) else (Ret (Inr False), st w2 p2))"
    using stamp.combine_eq_iff [OF al(2,1), of p2 p1]
    by (auto simp: st_def vatomic_cmpxchg_def stamp_norm_def take_bit_eq_mod)
qed

end
