(* ===== verification/Prio_Contract.thy ===== *)
theory Prio_Contract
  imports Vsync_Prelude "HOL-Library.Multiset"
begin

text \<open>
  The contract of the priority queues: a bounded multiset of pairs of priority and value, with an add
  that refuses when the queue is full and a removal of some element of least priority. Inside the
  locale \<open>prio_queue\<close>, filling and draining a queue is shown to sort.
\<close>

type_synonym prio_item = "u32 \<times> ptr"

fun add_all :: "('s \<Rightarrow> ptr \<Rightarrow> vsize \<Rightarrow> (bool \<times> 's) res) \<Rightarrow> prio_item list \<Rightarrow> 's \<Rightarrow> 's res" where
  "add_all add [] s = Inr s"
| "add_all add ((p, d) # xs) s = rbind (add s d (ucast p)) (\<lambda>(ok, s'). add_all add xs s')"

fun drain :: "('s \<Rightarrow> (ptr \<times> 's) res) \<Rightarrow> nat \<Rightarrow> 's \<Rightarrow> (ptr list \<times> 's) res" where
  "drain rm 0 s = Inr ([], s)"
| "drain rm (Suc n) s = rbind (rm s) (\<lambda>(d, s'). rbind (drain rm n s') (\<lambda>(ds, s''). Inr (d # ds, s'')))"

lemma ucast_u32: "unat (ucast (p :: u32) :: vsize) = unat p" "ucast (ucast p :: vsize) = p"
proof -
  have "unat p < 2 ^ 64" using unsigned_less [of p, where 'a = nat] by simp
  then show "unat (ucast p :: vsize) = unat p" by (simp add: unsigned_ucast_eq take_bit_nat_eq_self)
  show "ucast (ucast p :: vsize) = p" by (rule bit_word_eqI) (simp add: bit_simps)
qed

locale prio_queue =
  fixes inv :: "'s \<Rightarrow> bool" and items :: "'s \<Rightarrow> prio_item multiset" and cap :: nat
    and add :: "'s \<Rightarrow> ptr \<Rightarrow> vsize \<Rightarrow> (bool \<times> 's) res" and remove_min :: "'s \<Rightarrow> (ptr \<times> 's) res"
  assumes add_law: "inv s \<Longrightarrow> p \<le> 2 ^ 32 - 1 \<Longrightarrow> \<exists>s'. add s d p = Inr (size (items s) < cap, s') \<and> inv s' \<and>
      items s' = (if size (items s) < cap then add_mset (ucast p, d) (items s) else items s)"
    and remove_law: "inv s \<Longrightarrow> items s \<noteq> {#} \<Longrightarrow> \<exists>x s'. x \<in># items s \<and> (\<forall>y\<in>#items s. fst x \<le> fst y) \<and>
      remove_min s = Inr (snd x, s') \<and> inv s' \<and> items s' = items s - {#x#}"
    and remove_empty_law: "inv s \<Longrightarrow> items s = {#} \<Longrightarrow> \<exists>s'. remove_min s = Inr (NULL, s') \<and> inv s' \<and> items s' = {#}"
begin

lemma add_all_items:
  assumes "inv s" and "size (items s) + length xs \<le> cap"
  shows "\<exists>s'. add_all add xs s = Inr s' \<and> inv s' \<and> items s' = items s + mset xs"
  using assms
proof (induction xs arbitrary: s)
  case (Cons x xs)
  obtain p d where x: "x = (p, d)" by (cases x)
  have "(ucast p :: vsize) \<le> 2 ^ 32 - 1"
    using unsigned_less [of p, where 'a = nat] by (simp add: word_le_nat_alt ucast_u32)
  from add_law [OF Cons.prems(1) this, of d] Cons.prems(2)
  obtain s' where s': "add s d (ucast p) = Inr (True, s')" "inv s'" "items s' = add_mset (p, d) (items s)"
    by (auto simp: ucast_u32)
  with Cons.IH [OF s'(2)] Cons.prems(2) show ?case by (auto simp: x)
qed simp

lemma drain_sorted:
  assumes "inv s" and "size (items s) = n"
  shows "\<exists>xs s'. drain remove_min n s = Inr (map snd xs, s') \<and> inv s' \<and> items s' = {#} \<and> mset xs = items s \<and> sorted (map fst xs)"
  using assms
proof (induction n arbitrary: s)
  case (Suc n)
  then have "items s \<noteq> {#}" by auto
  then obtain x s' where x: "x \<in># items s" "\<forall>y\<in>#items s. fst x \<le> fst y" "remove_min s = Inr (snd x, s')" "inv s'"
    "items s' = items s - {#x#}" using remove_law Suc.prems(1) by blast
  with Suc.prems(2) have "size (items s') = n" by (simp add: size_Diff_singleton)
  from Suc.IH [OF x(4) this] obtain xs t where xs: "drain remove_min n s' = Inr (map snd xs, t)" "inv t" "items t = {#}"
    "mset xs = items s'" "sorted (map fst xs)" by blast
  have "fst x \<le> fst y" if "y \<in> set xs" for y
    using that x(2) xs(4) x(5) by (metis in_diffD set_mset_mset)
  then have "sorted (map fst (x # xs))" using xs(5) by auto
  moreover have "mset (x # xs) = items s" using x(1,5) xs(4) by simp
  ultimately show ?case using x(3) xs(1-3) by (intro exI [of _ "x # xs"] exI [of _ t]) simp
qed (auto intro: exI [of _ "[]"])

text \<open>Filling an empty queue and draining it sorts.\<close>

lemma fill_drain_sorts:
  assumes "inv s" "items s = {#}" "length xs \<le> cap"
  shows "\<exists>s1 ys s2. add_all add xs s = Inr s1 \<and> drain remove_min (length xs) s1 = Inr (map snd ys, s2) \<and>
    mset ys = mset xs \<and> sorted (map fst ys) \<and> items s2 = {#}"
proof -
  obtain s1 where s1: "add_all add xs s = Inr s1" "inv s1" "items s1 = mset xs"
    using add_all_items [OF assms(1), of xs] assms(2,3) by auto
  then show ?thesis using drain_sorted [OF s1(2), of "length xs"] by fastforce
qed

end

end
