(* ===== verification/Prio_Heap.thy ===== *)
theory Prio_Heap
  imports Prio_Contract Recursive_Lock
begin

text \<open>
  The heap-based priority queue, \<^verbatim>\<open>queue/vqueue_prio_heap_based.h\<close>, as one thread runs it
  while no other operation is under way; the locks of the nodes are the recursive locks of
  \<^verbatim>\<open>spinlock/rec_spinlock.h\<close> and every acquisition and release is part of the model. The capacity
  is the macro \<^verbatim>\<open>VQUEUE_PRIO_HEAP_CAPACITY\<close>, a parameter here. Indices are natural numbers: they
  stay below twice the capacity, a 32-bit constant, so the 64-bit arithmetic of the code does not wrap.
  A loop that waits for another thread is \<^const>\<open>Blocked\<close>.
\<close>

section \<open>Operations\<close>

datatype vqueue_prio_node_tag_t = NODE_TAG_EMPTY | NODE_TAG_AVAILABLE | NODE_TAG_BUSY

record vqueue_prio_node_t =
  pn_lock :: "caslock_t recursive_lock_t"
  pn_tag :: vqueue_prio_node_tag_t
  pn_score :: u32
  pn_owner :: u32
  pn_data :: ptr

record vqueue_prio_t =
  pq_next :: nat
  pq_heap :: "vqueue_prio_node_t list"

definition VQUEUE_PRIO_HEAP_LEN :: "nat \<Rightarrow> nat" where "VQUEUE_PRIO_HEAP_LEN cap = cap + 1"
definition VQUEUE_PRIO_ROOT :: nat where "VQUEUE_PRIO_ROOT = 1"
definition VQUEUE_PRIO_NO_ONE :: u32 where "VQUEUE_PRIO_NO_ONE = - 1"
definition VQUEUE_PRIO_HEAP_LCK_IDX :: nat where "VQUEUE_PRIO_HEAP_LCK_IDX = 0"
definition VQUEUE_PRIO_CALC_LCHILD :: "nat \<Rightarrow> nat" where "VQUEUE_PRIO_CALC_LCHILD p = p * 2"
definition VQUEUE_PRIO_CALC_RCHILD :: "nat \<Rightarrow> nat" where "VQUEUE_PRIO_CALC_RCHILD p = p * 2 + 1"
definition VQUEUE_PRIO_CALC_PARENT :: "nat \<Rightarrow> nat" where "VQUEUE_PRIO_CALC_PARENT c = c div 2"
definition VQUEUE_PRIO_MID_IDX :: "nat \<Rightarrow> nat" where "VQUEUE_PRIO_MID_IDX cap = cap div 2"

lemmas prio_consts = VQUEUE_PRIO_HEAP_LEN_def VQUEUE_PRIO_ROOT_def VQUEUE_PRIO_HEAP_LCK_IDX_def
  VQUEUE_PRIO_CALC_LCHILD_def VQUEUE_PRIO_CALC_RCHILD_def VQUEUE_PRIO_CALC_PARENT_def VQUEUE_PRIO_MID_IDX_def

text \<open>The locks of the nodes, \<^verbatim>\<open>queue/internal/vqueue_prio_lock.h\<close>.\<close>

definition vqueue_prio_lock_init :: "caslock_t recursive_lock_t" where
  "vqueue_prio_lock_init = rec_spinlock_init"

definition vqueue_prio_lock_acquire :: "caslock_t recursive_lock_t \<Rightarrow> u32 \<Rightarrow> caslock_t recursive_lock_t res" where
  "vqueue_prio_lock_acquire l tid =
     rbind (alone alone_fuel (rec_spinlock_acquire tid) RA_owner l) (\<lambda>(r, l'). rbind r (\<lambda>_. Inr l'))"

definition vqueue_prio_lock_release :: "caslock_t recursive_lock_t \<Rightarrow> u32 \<Rightarrow> caslock_t recursive_lock_t res" where
  "vqueue_prio_lock_release l tid = rbind (alone alone_fuel rec_spinlock_release RR_count l) (\<lambda>(_, l'). Inr l')"

definition heap_upd :: "vqueue_prio_t \<Rightarrow> nat \<Rightarrow> (vqueue_prio_node_t \<Rightarrow> vqueue_prio_node_t) \<Rightarrow> vqueue_prio_t res" where
  "heap_upd pq idx f = rbind (aread (pq_heap pq) idx) (\<lambda>n. Inr (pq\<lparr>pq_heap := (pq_heap pq)[idx := f n]\<rparr>))"

definition vqueue_prio_lock :: "nat \<Rightarrow> u32 \<Rightarrow> vqueue_prio_t \<Rightarrow> nat \<Rightarrow> vqueue_prio_t res" where
  "vqueue_prio_lock cap tid pq idx = rbind (vassert (idx < VQUEUE_PRIO_HEAP_LEN cap)) (\<lambda>_.
     rbind (aread (pq_heap pq) idx) (\<lambda>n. rbind (vqueue_prio_lock_acquire (pn_lock n) tid) (\<lambda>l.
       heap_upd pq idx (\<lambda>n. n\<lparr>pn_lock := l\<rparr>))))"

definition vqueue_prio_unlock :: "nat \<Rightarrow> u32 \<Rightarrow> vqueue_prio_t \<Rightarrow> nat \<Rightarrow> vqueue_prio_t res" where
  "vqueue_prio_unlock cap tid pq idx = rbind (vassert (idx < VQUEUE_PRIO_HEAP_LEN cap)) (\<lambda>_.
     rbind (aread (pq_heap pq) idx) (\<lambda>n. rbind (vqueue_prio_lock_release (pn_lock n) tid) (\<lambda>l.
       heap_upd pq idx (\<lambda>n. n\<lparr>pn_lock := l\<rparr>))))"

definition vqueue_prio_node_am_owner :: "nat \<Rightarrow> u32 \<Rightarrow> vqueue_prio_t \<Rightarrow> nat \<Rightarrow> bool res" where
  "vqueue_prio_node_am_owner cap tid pq idx =
     rbind (vassert (idx \<ge> VQUEUE_PRIO_ROOT)) (\<lambda>_. rbind (vassert (idx < VQUEUE_PRIO_HEAP_LEN cap)) (\<lambda>_.
     rbind (aread (pq_heap pq) idx) (\<lambda>n. Inr (pn_tag n = NODE_TAG_BUSY \<and> pn_owner n = tid))))"

definition vqueue_prio_node_swap :: "vqueue_prio_t \<Rightarrow> nat \<Rightarrow> nat \<Rightarrow> vqueue_prio_t res" where
  "vqueue_prio_node_swap pq i j = rbind (aread (pq_heap pq) i) (\<lambda>a. rbind (aread (pq_heap pq) j) (\<lambda>b.
     rbind (heap_upd pq i (\<lambda>n. n\<lparr>pn_score := pn_score b, pn_owner := pn_owner b, pn_tag := pn_tag b, pn_data := pn_data b\<rparr>)) (\<lambda>pq.
     heap_upd pq j (\<lambda>n. n\<lparr>pn_score := pn_score a, pn_owner := pn_owner a, pn_tag := pn_tag a, pn_data := pn_data a\<rparr>))))"

definition vqueue_prio_node_occupy :: "nat \<Rightarrow> u32 \<Rightarrow> vqueue_prio_t \<Rightarrow> nat \<Rightarrow> ptr \<Rightarrow> u32 \<Rightarrow> vqueue_prio_t res" where
  "vqueue_prio_node_occupy cap tid pq idx data priority =
     rbind (vassert (idx \<ge> VQUEUE_PRIO_ROOT)) (\<lambda>_. rbind (vassert (idx < VQUEUE_PRIO_HEAP_LEN cap)) (\<lambda>_.
     heap_upd pq idx (\<lambda>n. n\<lparr>pn_score := priority, pn_data := data, pn_owner := tid, pn_tag := NODE_TAG_BUSY\<rparr>)))"

text \<open>The score of a node is not initialised.\<close>

definition vqueue_prio_node_init :: "vqueue_prio_node_t \<Rightarrow> vqueue_prio_node_t" where
  "vqueue_prio_node_init node =
     node\<lparr>pn_tag := NODE_TAG_EMPTY, pn_owner := VQUEUE_PRIO_NO_ONE, pn_data := NULL, pn_lock := vqueue_prio_lock_init\<rparr>"

text \<open>\<open>mem\<close> is the memory of the heap array before the initialisation.\<close>

definition vqueue_prio_init :: "nat \<Rightarrow> vqueue_prio_node_t list \<Rightarrow> bool \<Rightarrow> vqueue_prio_t res" where
  "vqueue_prio_init cap mem get_tid_fun =
     rbind (vassert get_tid_fun) (\<lambda>_. Inr \<lparr>pq_next = VQUEUE_PRIO_ROOT, pq_heap = map vqueue_prio_node_init mem\<rparr>)"

text \<open>The values the destructor hands to its callback, in order.\<close>

definition vqueue_prio_destroy :: "vqueue_prio_t \<Rightarrow> bool \<Rightarrow> ptr list" where
  "vqueue_prio_destroy pq destroy_cb =
     (if destroy_cb then map pn_data (filter (\<lambda>n. pn_tag n \<noteq> NODE_TAG_EMPTY) (drop 1 (pq_heap pq))) else [])"

text \<open>The loop of add moves the new node up; the flag of the result says that the function returned.\<close>

function vqueue_prio_add_loop :: "nat \<Rightarrow> u32 \<Rightarrow> nat \<Rightarrow> vqueue_prio_t \<Rightarrow> (bool \<times> nat \<times> vqueue_prio_t) res" where
  "vqueue_prio_add_loop cap tid child pq =
     (if child > VQUEUE_PRIO_ROOT then
        let parent = VQUEUE_PRIO_CALC_PARENT child in
        rbind (vqueue_prio_lock cap tid pq parent) (\<lambda>pq. rbind (vqueue_prio_lock cap tid pq child) (\<lambda>pq.
        rbind (aread (pq_heap pq) parent) (\<lambda>np. rbind (aread (pq_heap pq) child) (\<lambda>nc.
        rbind (vqueue_prio_node_am_owner cap tid pq child) (\<lambda>mine.
          if pn_tag np = NODE_TAG_AVAILABLE \<and> mine then
            if pn_score nc < pn_score np then
              rbind (vqueue_prio_node_swap pq child parent) (\<lambda>pq.
              rbind (vqueue_prio_unlock cap tid pq child) (\<lambda>pq. rbind (vqueue_prio_unlock cap tid pq parent) (\<lambda>pq.
                vqueue_prio_add_loop cap tid parent pq)))
            else
              rbind (heap_upd pq child (\<lambda>n. n\<lparr>pn_tag := NODE_TAG_AVAILABLE, pn_owner := VQUEUE_PRIO_NO_ONE\<rparr>)) (\<lambda>pq.
              rbind (vqueue_prio_unlock cap tid pq child) (\<lambda>pq. rbind (vqueue_prio_unlock cap tid pq parent) (\<lambda>pq.
                Inr (True, child, pq))))
          else if \<not> mine then
            rbind (vqueue_prio_unlock cap tid pq child) (\<lambda>pq. rbind (vqueue_prio_unlock cap tid pq parent) (\<lambda>pq.
              vqueue_prio_add_loop cap tid parent pq))
          else Inl Blocked)))))
      else Inr (False, child, pq))"
  by pat_completeness auto
termination
  by (relation "measure (\<lambda>(cap, tid, child, pq). child)") (auto simp: prio_consts)

declare vqueue_prio_add_loop.simps [simp del]

definition vqueue_prio_add :: "nat \<Rightarrow> u32 \<Rightarrow> vqueue_prio_t \<Rightarrow> ptr \<Rightarrow> vsize \<Rightarrow> (bool \<times> vqueue_prio_t) res" where
  "vqueue_prio_add cap tid pq data priority =
     rbind (vqueue_prio_lock cap tid pq VQUEUE_PRIO_HEAP_LCK_IDX) (\<lambda>pq.
     if pq_next pq \<ge> VQUEUE_PRIO_HEAP_LEN cap then
       rbind (vqueue_prio_unlock cap tid pq VQUEUE_PRIO_HEAP_LCK_IDX) (\<lambda>pq. Inr (False, pq))
     else
       let child = pq_next pq; pq = pq\<lparr>pq_next := pq_next pq + 1\<rparr> in
       rbind (vqueue_prio_lock cap tid pq child) (\<lambda>pq.
       rbind (vassert (priority \<le> 2 ^ 32 - 1)) (\<lambda>_.
       rbind (vqueue_prio_node_occupy cap tid pq child data (ucast priority)) (\<lambda>pq.
       rbind (vqueue_prio_unlock cap tid pq VQUEUE_PRIO_HEAP_LCK_IDX) (\<lambda>pq.
       rbind (vqueue_prio_unlock cap tid pq child) (\<lambda>pq.
       rbind (vqueue_prio_add_loop cap tid child pq) (\<lambda>(returned, child, pq).
         if \<not> returned \<and> child = VQUEUE_PRIO_ROOT then
           rbind (vqueue_prio_lock cap tid pq VQUEUE_PRIO_ROOT) (\<lambda>pq.
           rbind (vqueue_prio_node_am_owner cap tid pq VQUEUE_PRIO_ROOT) (\<lambda>mine.
           rbind (if mine then heap_upd pq VQUEUE_PRIO_ROOT (\<lambda>n. n\<lparr>pn_tag := NODE_TAG_AVAILABLE, pn_owner := VQUEUE_PRIO_NO_ONE\<rparr>)
                  else Inr pq) (\<lambda>pq.
           rbind (vqueue_prio_unlock cap tid pq VQUEUE_PRIO_ROOT) (\<lambda>pq. Inr (True, pq)))))
         else Inr (True, pq))))))))"

text \<open>The loop of the removal moves the former last element down; \<open>parent\<close> is locked at its start. The
  loop starts at the root; the lower bound of \<open>parent\<close>, which the code does not test, only makes the
  function total.\<close>

function vqueue_prio_remove_loop :: "nat \<Rightarrow> u32 \<Rightarrow> nat \<Rightarrow> vqueue_prio_t \<Rightarrow> (nat \<times> vqueue_prio_t) res" where
  "vqueue_prio_remove_loop cap tid parent pq =
     (if VQUEUE_PRIO_ROOT \<le> parent \<and> parent < VQUEUE_PRIO_MID_IDX cap then
        let left = VQUEUE_PRIO_CALC_LCHILD parent; right = VQUEUE_PRIO_CALC_RCHILD parent in
        rbind (vassert (left < cap)) (\<lambda>_. rbind (vassert (right < cap)) (\<lambda>_.
        rbind (vqueue_prio_lock cap tid pq left) (\<lambda>pq. rbind (vqueue_prio_lock cap tid pq right) (\<lambda>pq.
        rbind (aread (pq_heap pq) left) (\<lambda>nl. rbind (aread (pq_heap pq) right) (\<lambda>nr.
        if pn_tag nl = NODE_TAG_EMPTY then
          rbind (vqueue_prio_unlock cap tid pq right) (\<lambda>pq. rbind (vqueue_prio_unlock cap tid pq left) (\<lambda>pq. Inr (parent, pq)))
        else
          let go_left = (pn_tag nr = NODE_TAG_EMPTY \<or> pn_score nl < pn_score nr);
              child = (if go_left then left else right) in
          rbind (vqueue_prio_unlock cap tid pq (if go_left then right else left)) (\<lambda>pq.
          rbind (aread (pq_heap pq) child) (\<lambda>nc. rbind (aread (pq_heap pq) parent) (\<lambda>np.
          if pn_score nc < pn_score np \<and> pn_tag nc \<noteq> NODE_TAG_EMPTY then
            rbind (vqueue_prio_node_swap pq parent child) (\<lambda>pq.
            rbind (aread (pq_heap pq) child) (\<lambda>nc. rbind (aread (pq_heap pq) parent) (\<lambda>np.
            rbind (vassert (pn_score nc \<ge> pn_score np)) (\<lambda>_.
            rbind (vqueue_prio_unlock cap tid pq parent) (\<lambda>pq. vqueue_prio_remove_loop cap tid child pq)))))
          else
            rbind (vassert (pn_score nc \<ge> pn_score np)) (\<lambda>_.
            rbind (vqueue_prio_unlock cap tid pq child) (\<lambda>pq. Inr (parent, pq))))))))))))
      else Inr (parent, pq))"
  by pat_completeness auto
termination
  by (relation "measure (\<lambda>(cap, tid, parent, pq). cap - parent)") (auto simp: prio_consts)

declare vqueue_prio_remove_loop.simps [simp del]

definition vqueue_prio_remove_min :: "nat \<Rightarrow> u32 \<Rightarrow> vqueue_prio_t \<Rightarrow> (ptr \<times> vqueue_prio_t) res" where
  "vqueue_prio_remove_min cap tid pq =
     rbind (vqueue_prio_lock cap tid pq VQUEUE_PRIO_HEAP_LCK_IDX) (\<lambda>pq.
     if pq_next pq = VQUEUE_PRIO_ROOT then
       rbind (vqueue_prio_unlock cap tid pq VQUEUE_PRIO_HEAP_LCK_IDX) (\<lambda>pq. Inr (NULL, pq))
     else
       rbind (vassert (pq_next pq > VQUEUE_PRIO_ROOT)) (\<lambda>_.
       let bottom = pq_next pq - 1; pq = pq\<lparr>pq_next := pq_next pq - 1\<rparr> in
       rbind (vqueue_prio_lock cap tid pq VQUEUE_PRIO_ROOT) (\<lambda>pq.
       rbind (vqueue_prio_lock cap tid pq bottom) (\<lambda>pq.
       rbind (vqueue_prio_unlock cap tid pq VQUEUE_PRIO_HEAP_LCK_IDX) (\<lambda>pq.
       rbind (aread (pq_heap pq) VQUEUE_PRIO_ROOT) (\<lambda>root.
       if pn_tag root = NODE_TAG_EMPTY then
         rbind (vqueue_prio_unlock cap tid pq VQUEUE_PRIO_ROOT) (\<lambda>pq.
         rbind (vqueue_prio_unlock cap tid pq bottom) (\<lambda>pq. Inr (NULL, pq)))
       else
         let data = pn_data root in
         rbind (heap_upd pq VQUEUE_PRIO_ROOT (\<lambda>n. n\<lparr>pn_tag := NODE_TAG_EMPTY, pn_owner := VQUEUE_PRIO_NO_ONE\<rparr>)) (\<lambda>pq.
         rbind (aread (pq_heap pq) bottom) (\<lambda>nb.
         rbind (if pn_tag nb = NODE_TAG_BUSY \<and> pn_owner nb \<noteq> VQUEUE_PRIO_NO_ONE
                then heap_upd pq bottom (\<lambda>n. n\<lparr>pn_tag := NODE_TAG_AVAILABLE, pn_owner := VQUEUE_PRIO_NO_ONE\<rparr>) else Inr pq) (\<lambda>pq.
         rbind (vqueue_prio_node_swap pq bottom VQUEUE_PRIO_ROOT) (\<lambda>pq.
         rbind (vqueue_prio_unlock cap tid pq bottom) (\<lambda>pq.
         rbind (aread (pq_heap pq) VQUEUE_PRIO_ROOT) (\<lambda>root.
         if pn_tag root = NODE_TAG_EMPTY then rbind (vqueue_prio_unlock cap tid pq VQUEUE_PRIO_ROOT) (\<lambda>pq. Inr (data, pq))
         else
           rbind (vqueue_prio_remove_loop cap tid VQUEUE_PRIO_ROOT pq) (\<lambda>(parent, pq).
           rbind (vqueue_prio_unlock cap tid pq parent) (\<lambda>pq. Inr (data, pq)))))))))))))))"

text \<open>The visitor of the tests: the assertions on the children of a node, and the values it hands out.\<close>

definition vqueue_prio_visit_check :: "nat \<Rightarrow> vqueue_prio_t \<Rightarrow> nat \<Rightarrow> vqueue_prio_node_t \<Rightarrow> unit res" where
  "vqueue_prio_visit_check cap pq i n =
     (let left = VQUEUE_PRIO_CALC_LCHILD i; right = VQUEUE_PRIO_CALC_RCHILD i in
      if left < cap \<and> right < cap then
        rbind (aread (pq_heap pq) left) (\<lambda>nl. rbind (aread (pq_heap pq) right) (\<lambda>nr.
        if pn_tag nl = NODE_TAG_AVAILABLE then
          rbind (vassert (pn_score nl \<ge> pn_score n)) (\<lambda>_.
          if pn_tag nr = NODE_TAG_AVAILABLE then vassert (pn_score nr \<ge> pn_score n) else Inr ())
        else vassert (pn_tag nr = NODE_TAG_EMPTY)))
      else Inr ())"

fun vqueue_prio_visit :: "nat \<Rightarrow> vqueue_prio_t \<Rightarrow> nat list \<Rightarrow> ptr list res" where
  "vqueue_prio_visit cap pq [] = Inr []"
| "vqueue_prio_visit cap pq (i # is) = rbind (aread (pq_heap pq) i) (\<lambda>n.
     rbind (vassert (pn_tag n \<noteq> NODE_TAG_BUSY)) (\<lambda>_. rbind (vassert (pn_owner n = VQUEUE_PRIO_NO_ONE)) (\<lambda>_.
     rbind (vqueue_prio_visit_check cap pq i n) (\<lambda>_.
     rbind (vqueue_prio_visit cap pq is) (\<lambda>ds. Inr (if pn_tag n = NODE_TAG_AVAILABLE then pn_data n # ds else ds))))))"

section \<open>States with locks held\<close>

text \<open>
  \<open>hq tid n cs L\<close> is the queue with the cells \<open>cs\<close> in which thread \<open>tid\<close> holds the lock of node
  \<open>i\<close> exactly \<open>L i\<close> times and nobody else holds a lock. Every action of the operations maps such a
  state to such a state; their proofs run the operations on these states.
\<close>

fun held :: "u32 \<Rightarrow> nat \<Rightarrow> caslock_t recursive_lock_t" where
  "held tid 0 = rec_spinlock_init"
| "held tid (Suc k) = \<lparr>rl_lock = \<lparr>lock = 1\<rparr>, rl_owner = tid, rl_count = of_nat k\<rparr>"

definition hq :: "u32 \<Rightarrow> nat \<Rightarrow> vqueue_prio_node_t list \<Rightarrow> (nat \<Rightarrow> nat) \<Rightarrow> vqueue_prio_t" where
  "hq tid n cs L = \<lparr>pq_next = n, pq_heap = map (\<lambda>i. (cs ! i)\<lparr>pn_lock := held tid (L i)\<rparr>) [0..<length cs]\<rparr>"

lemma acquire_held:
  "tid \<noteq> RECURSIVE_LOCK_NOCPU \<Longrightarrow> vqueue_prio_lock_acquire (held tid k) tid = Inr (held tid (Suc k))"
proof (cases k)
  case 0
  assume "tid \<noteq> RECURSIVE_LOCK_NOCPU"
  with 0 show ?thesis
    by (simp add: vqueue_prio_lock_acquire_def rec_spinlock_acquire_def alone_fuel_Suc rec_spinlock_init_def
        recursive_lock_init_def caslock_init_def caslock_acquire_def vatomic_await_eq_set_def vatomic_await_eq_def vsync_simps)
next
  case (Suc m)
  assume "tid \<noteq> RECURSIVE_LOCK_NOCPU"
  with Suc show ?thesis
    by (simp add: vqueue_prio_lock_acquire_def rec_spinlock_acquire_def alone_fuel_Suc vatomic_read_def)
qed

lemma release_held:
  "k < 2 ^ 32 \<Longrightarrow> vqueue_prio_lock_release (held tid (Suc k)) tid = Inr (held tid k)"
proof -
  assume "k < 2 ^ 32"
  then have "(of_nat k :: u32) = 0 \<longleftrightarrow> k = 0" by (auto simp: word_of_nat_eq_0_iff dest: dvd_imp_le)
  then show ?thesis
    by (cases k) (simp_all add: vqueue_prio_lock_release_def rec_spinlock_release_def alone_fuel_Suc rec_spinlock_init_def
      recursive_lock_init_def caslock_init_def caslock_rel_prog_def caslock_release_def vsync_simps)
qed

lemma hq_sel [simp]: "pq_next (hq tid n cs L) = n" "(hq tid n cs L)\<lparr>pq_next := m\<rparr> = hq tid m cs L"
  "length (pq_heap (hq tid n cs L)) = length cs"
  by (simp_all add: hq_def)

lemma hq_nth [simp]: "i < length cs \<Longrightarrow> pq_heap (hq tid n cs L) ! i = (cs ! i)\<lparr>pn_lock := held tid (L i)\<rparr>"
  by (simp add: hq_def)

lemma heap_upd_hq:
  assumes "i < length cs" and "\<And>x l. f (x\<lparr>pn_lock := l\<rparr>) = (f x)\<lparr>pn_lock := l\<rparr>"
  shows "heap_upd (hq tid n cs L) i f = Inr (hq tid n (cs[i := f (cs ! i)]) L)"
  using assms by (auto simp: heap_upd_def hq_def nth_list_update intro!: nth_equalityI)

lemma relock_hq:
  assumes "i < length cs"
  shows "heap_upd (hq tid n cs L) i (\<lambda>x. x\<lparr>pn_lock := held tid k\<rparr>) = Inr (hq tid n cs (L(i := k)))"
  using assms by (auto simp: heap_upd_def hq_def nth_list_update intro!: nth_equalityI)

lemma lock_hq:
  assumes "tid \<noteq> RECURSIVE_LOCK_NOCPU" "length cs = cap + 1" "i \<le> cap"
  shows "vqueue_prio_lock cap tid (hq tid n cs L) i = Inr (hq tid n cs (L(i := Suc (L i))))"
  using assms by (simp add: vqueue_prio_lock_def prio_consts acquire_held relock_hq del: held.simps)

lemma unlock_hq:
  assumes "length cs = cap + 1" "i \<le> cap" "L i = Suc k" "k < 2 ^ 32"
  shows "vqueue_prio_unlock cap tid (hq tid n cs L) i = Inr (hq tid n cs (L(i := k)))"
  using assms by (simp add: vqueue_prio_unlock_def prio_consts release_held relock_hq del: held.simps)

text \<open>A cell without its lock, and the exchange of two cells.\<close>

definition put_cell :: "vqueue_prio_node_t \<Rightarrow> vqueue_prio_node_t \<Rightarrow> vqueue_prio_node_t" where
  "put_cell b a = a\<lparr>pn_score := pn_score b, pn_owner := pn_owner b, pn_tag := pn_tag b, pn_data := pn_data b\<rparr>"

definition swap_cells :: "nat \<Rightarrow> nat \<Rightarrow> vqueue_prio_node_t list \<Rightarrow> vqueue_prio_node_t list" where
  "swap_cells i j cs = cs[i := put_cell (cs ! j) (cs ! i), j := put_cell (cs ! i) (cs ! j)]"

lemma put_cell_sel [simp]:
  "pn_score (put_cell b a) = pn_score b" "pn_owner (put_cell b a) = pn_owner b" "pn_tag (put_cell b a) = pn_tag b"
  "pn_data (put_cell b a) = pn_data b" "put_cell (b\<lparr>pn_lock := l\<rparr>) a = put_cell b a"
  by (simp_all add: put_cell_def)

lemma put_cell_self: "put_cell a a = a"
  by (cases a) (simp add: put_cell_def)

lemma length_swap_cells [simp]: "length (swap_cells i j cs) = length cs"
  by (simp add: swap_cells_def)

lemma swap_cells_nth:
  assumes "i < length cs" "j < length cs"
  shows "pn_score (swap_cells i j cs ! k) = pn_score (cs ! (if k = i then j else if k = j then i else k))"
    "pn_tag (swap_cells i j cs ! k) = pn_tag (cs ! (if k = i then j else if k = j then i else k))"
    "pn_owner (swap_cells i j cs ! k) = pn_owner (cs ! (if k = i then j else if k = j then i else k))"
    "pn_data (swap_cells i j cs ! k) = pn_data (cs ! (if k = i then j else if k = j then i else k))"
  using assms by (auto simp: swap_cells_def nth_list_update)

lemma swap_hq:
  assumes "i < length cs" "j < length cs"
  shows "vqueue_prio_node_swap (hq tid n cs L) i j = Inr (hq tid n (swap_cells i j cs) L)"
proof -
  have "vqueue_prio_node_swap (hq tid n cs L) i j =
      rbind (heap_upd (hq tid n cs L) i (put_cell (cs ! j))) (\<lambda>pq. heap_upd pq j (put_cell (cs ! i)))"
    using assms by (simp add: vqueue_prio_node_swap_def put_cell_def [abs_def])
  also have "\<dots> = Inr (hq tid n ((cs[i := put_cell (cs ! j) (cs ! i)])[j := put_cell (cs ! i) (cs[i := put_cell (cs ! j) (cs ! i)] ! j)]) L)"
    using assms by (subst heap_upd_hq, simp, simp add: put_cell_def, simp, subst heap_upd_hq, simp, simp add: put_cell_def, simp)
  also have "(cs[i := put_cell (cs ! j) (cs ! i)])[j := put_cell (cs ! i) (cs[i := put_cell (cs ! j) (cs ! i)] ! j)] = swap_cells i j cs"
    using assms by (auto simp: swap_cells_def nth_list_update put_cell_def)
  finally show ?thesis .
qed

section \<open>Contents\<close>

definition item_of :: "vqueue_prio_node_t \<Rightarrow> prio_item multiset" where
  "item_of x = (if pn_tag x = NODE_TAG_EMPTY then {#} else {#(pn_score x, pn_data x)#})"

definition items_of :: "vqueue_prio_node_t list \<Rightarrow> prio_item multiset" where
  "items_of cs = sum_list (map item_of cs)"

lemma items_of_update:
  "i < length cs \<Longrightarrow> items_of (cs[i := x]) + item_of (cs ! i) = items_of cs + item_of x"
  unfolding items_of_def by (induction cs arbitrary: i) (auto simp: nth_Cons' less_Suc_eq_0_disj split: nat.splits)

lemma items_of_swap:
  assumes "i < length cs" "j < length cs"
  shows "items_of (swap_cells i j cs) = items_of cs"
proof -
  let ?a = "put_cell (cs ! j) (cs ! i)" and ?b = "put_cell (cs ! i) (cs ! j)"
  have e: "item_of ?a = item_of (cs ! j)" "item_of ?b = item_of (cs ! i)" by (simp_all add: item_of_def)
  have "items_of (cs[i := ?a, j := ?b]) + item_of (cs[i := ?a] ! j) = items_of (cs[i := ?a]) + item_of ?b"
    using assms by (intro items_of_update) simp
  moreover have "items_of (cs[i := ?a]) + item_of (cs ! i) = items_of cs + item_of ?a" using assms by (intro items_of_update)
  moreover have "item_of (cs[i := ?a] ! j) = item_of (cs ! j)" using assms e by (cases "i = j") auto
  ultimately show ?thesis by (simp add: swap_cells_def e)
qed

lemma items_of_mem: "x \<in># items_of cs \<longleftrightarrow> (\<exists>i<length cs. pn_tag (cs ! i) \<noteq> NODE_TAG_EMPTY \<and> x = (pn_score (cs ! i), pn_data (cs ! i)))"
  unfolding items_of_def by (induction cs) (auto simp: item_of_def less_Suc_eq_0_disj)

lemma size_items_of: "size (items_of cs) = card {i. i < length cs \<and> pn_tag (cs ! i) \<noteq> NODE_TAG_EMPTY}"
proof -
  have "size (items_of cs) = length (filter (\<lambda>x. pn_tag x \<noteq> NODE_TAG_EMPTY) cs)"
    unfolding items_of_def by (induction cs) (auto simp: item_of_def)
  then show ?thesis by (simp add: length_filter_conv_card)
qed

section \<open>Adding\<close>

definition tags_ok :: "nat \<Rightarrow> nat \<Rightarrow> nat set \<Rightarrow> vqueue_prio_node_t list \<Rightarrow> bool" where
  "tags_ok cap n X cs \<longleftrightarrow> length cs = cap + 1 \<and> 1 \<le> n \<and> n \<le> cap + 1 \<and>
     (\<forall>i\<le>cap. i \<notin> X \<longrightarrow> pn_tag (cs ! i) = (if 1 \<le> i \<and> i < n then NODE_TAG_AVAILABLE else NODE_TAG_EMPTY) \<and>
       pn_owner (cs ! i) = VQUEUE_PRIO_NO_ONE)"

definition heap_cells :: "nat \<Rightarrow> nat \<Rightarrow> vqueue_prio_node_t list \<Rightarrow> bool" where
  "heap_cells cap n cs \<longleftrightarrow> tags_ok cap n {} cs \<and>
     (\<forall>i. 2 \<le> i \<and> i < n \<longrightarrow> pn_score (cs ! (i div 2)) \<le> pn_score (cs ! i))"

text \<open>The heap while thread \<open>tid\<close> moves node \<open>c\<close> up.\<close>

definition up_cells :: "nat \<Rightarrow> u32 \<Rightarrow> nat \<Rightarrow> nat \<Rightarrow> vqueue_prio_node_t list \<Rightarrow> bool" where
  "up_cells cap tid n c cs \<longleftrightarrow> tags_ok cap n {c} cs \<and> 1 \<le> c \<and> c < n \<and>
     pn_tag (cs ! c) = NODE_TAG_BUSY \<and> pn_owner (cs ! c) = tid \<and>
     (\<forall>i. 2 \<le> i \<and> i < n \<and> i \<noteq> c \<longrightarrow> pn_score (cs ! (i div 2)) \<le> pn_score (cs ! i)) \<and>
     (\<forall>i. 2 \<le> c \<and> i < n \<and> i div 2 = c \<longrightarrow> pn_score (cs ! (c div 2)) \<le> pn_score (cs ! i))"

definition set_avail :: "vqueue_prio_node_t \<Rightarrow> vqueue_prio_node_t" where
  "set_avail x = x\<lparr>pn_tag := NODE_TAG_AVAILABLE, pn_owner := VQUEUE_PRIO_NO_ONE\<rparr>"

lemma set_avail_sel [simp]: "pn_tag (set_avail x) = NODE_TAG_AVAILABLE" "pn_owner (set_avail x) = VQUEUE_PRIO_NO_ONE"
  "pn_score (set_avail x) = pn_score x" "pn_data (set_avail x) = pn_data x"
  by (simp_all add: set_avail_def)

lemma avail_hq:
  "i < length cs \<Longrightarrow> heap_upd (hq tid n cs L) i (\<lambda>x. x\<lparr>pn_tag := NODE_TAG_AVAILABLE, pn_owner := VQUEUE_PRIO_NO_ONE\<rparr>) =
    Inr (hq tid n (cs[i := set_avail (cs ! i)]) L)"
  by (simp add: heap_upd_hq set_avail_def)

lemma items_of_avail:
  assumes "c < length cs" "pn_tag (cs ! c) \<noteq> NODE_TAG_EMPTY"
  shows "items_of (cs[c := set_avail (cs ! c)]) = items_of cs"
  using items_of_update [OF assms(1), of "set_avail (cs ! c)"] assms(2) by (simp add: item_of_def)

lemma no_locks: "(\<lambda>_. 0 :: nat)(c := 0) = (\<lambda>_. 0)" "p \<noteq> c \<Longrightarrow> (\<lambda>_. 0 :: nat)(p := k, c := 0, p := 0) = (\<lambda>_. 0)"
  by auto

lemma add_loop_step:
  assumes tid: "tid \<noteq> RECURSIVE_LOCK_NOCPU" and up: "up_cells cap tid n c cs" and c: "1 < c"
  shows "vqueue_prio_add_loop cap tid c (hq tid n cs (\<lambda>_. 0)) =
    (if pn_score (cs ! c) < pn_score (cs ! (c div 2)) then
       vqueue_prio_add_loop cap tid (c div 2) (hq tid n (swap_cells c (c div 2) cs) (\<lambda>_. 0))
     else Inr (True, c, hq tid n (cs[c := set_avail (cs ! c)]) (\<lambda>_. 0)))"
proof -
  let ?p = "c div 2"
  have b: "length cs = cap + 1" "c \<le> cap" "?p \<le> cap" "?p \<noteq> c" "c \<noteq> ?p" "?p < c" "1 \<le> ?p"
    using up c by (auto simp: up_cells_def tags_ok_def)
  have t: "pn_tag (cs ! ?p) = NODE_TAG_AVAILABLE" "pn_tag (cs ! c) = NODE_TAG_BUSY" "pn_owner (cs ! c) = tid"
    using up b by (auto simp: up_cells_def tags_ok_def)
  show ?thesis
    using b t c tid
    by (subst vqueue_prio_add_loop.simps)
      (simp add: lock_hq unlock_hq swap_hq avail_hq vqueue_prio_node_am_owner_def prio_consts no_locks Let_def)
qed

lemma up_cells_swap:
  assumes up: "up_cells cap tid n c cs" and c: "1 < c" and lt: "pn_score (cs ! c) < pn_score (cs ! (c div 2))"
  shows "up_cells cap tid n (c div 2) (swap_cells c (c div 2) cs)"
proof -
  let ?p = "c div 2" and ?s = "\<lambda>k. pn_score (cs ! k)"
  have len: "c < length cs" "?p < length cs" "?p < c" "1 \<le> ?p" "c < n" using up c by (auto simp: up_cells_def tags_ok_def)
  have ord: "?s (i div 2) \<le> ?s i" if "2 \<le> i" "i < n" "i \<noteq> c" for i using up that by (simp add: up_cells_def)
  have kids: "?s ?p \<le> ?s i" if "i < n" "i div 2 = c" for i using up that c by (simp add: up_cells_def)
  note nth = swap_cells_nth [OF len(1,2)]
  have "pn_score (swap_cells c ?p cs ! (i div 2)) \<le> pn_score (swap_cells c ?p cs ! i)" if i: "2 \<le> i" "i < n" "i \<noteq> ?p" for i
  proof (cases "i = c")
    case True
    then show ?thesis using lt len by (simp add: nth less_imp_le)
  next
    case False
    consider "i div 2 = c" | "i div 2 = ?p" | "i div 2 \<noteq> c" "i div 2 \<noteq> ?p" by blast
    then show ?thesis
    proof cases
      case 1 then show ?thesis using False i kids by (simp add: nth)
    next
      case 2 then show ?thesis using False i ord [OF i(1,2) False] lt len by (simp add: nth)
    next
      case 3 then show ?thesis using False i ord by (simp add: nth)
    qed
  qed
  moreover have "pn_score (swap_cells c ?p cs ! (?p div 2)) \<le> pn_score (swap_cells c ?p cs ! i)"
    if i: "2 \<le> ?p" "i < n" "i div 2 = ?p" for i
  proof -
    have "?p < n" "?p \<noteq> c" using len by auto
    then have p: "?s (?p div 2) \<le> ?s ?p" using ord [of ?p] i(1) by blast
    have q: "?p div 2 \<noteq> c" "?p div 2 \<noteq> ?p" "i \<noteq> ?p" using i len by auto
    have "2 \<le> i" using i by linarith
    then have "?s (?p div 2) \<le> ?s i" if "i \<noteq> c" using ord [of i] i that order_trans [OF p] by simp
    then show ?thesis using p q by (simp add: nth)
  qed
  moreover have "tags_ok cap n {?p} (swap_cells c ?p cs)"
    using up len by (auto simp: up_cells_def tags_ok_def nth)
  ultimately show ?thesis using up len by (auto simp: up_cells_def nth)
qed

lemma up_cells_done:
  assumes up: "up_cells cap tid n c cs" and ge: "c = 1 \<or> pn_score (cs ! (c div 2)) \<le> pn_score (cs ! c)"
  shows "heap_cells cap n (cs[c := set_avail (cs ! c)])"
proof -
  have len: "c < length cs" using up by (auto simp: up_cells_def tags_ok_def)
  have s: "pn_score (cs[c := set_avail (cs ! c)] ! k) = pn_score (cs ! k)" for k
    using len by (cases "k = c") auto
  have "pn_score (cs ! (i div 2)) \<le> pn_score (cs ! i)" if "2 \<le> i" "i < n" for i
    using up ge that by (cases "i = c") (auto simp: up_cells_def)
  moreover have "tags_ok cap n {} (cs[c := set_avail (cs ! c)])"
    using up len by (auto simp: up_cells_def tags_ok_def nth_list_update)
  ultimately show ?thesis by (simp add: heap_cells_def s)
qed

lemma add_loop_ok:
  assumes tid: "tid \<noteq> RECURSIVE_LOCK_NOCPU" and up: "up_cells cap tid n c cs"
  shows "\<exists>r c' cs'. vqueue_prio_add_loop cap tid c (hq tid n cs (\<lambda>_. 0)) = Inr (r, c', hq tid n cs' (\<lambda>_. 0)) \<and>
    items_of cs' = items_of cs \<and> (if r then heap_cells cap n cs' else c' = 1 \<and> up_cells cap tid n 1 cs')"
  using up
proof (induction c arbitrary: cs rule: less_induct)
  case (less c)
  have len: "c < length cs" "c div 2 < length cs" "pn_tag (cs ! c) \<noteq> NODE_TAG_EMPTY" "1 \<le> c"
    using less.prems by (auto simp: up_cells_def tags_ok_def)
  show ?case
  proof (cases "1 < c")
    case True
    note step = add_loop_step [OF tid less.prems True]
    show ?thesis
    proof (cases "pn_score (cs ! c) < pn_score (cs ! (c div 2))")
      case lt: True
      from less.IH [OF _ up_cells_swap [OF less.prems True lt]] True
      show ?thesis unfolding step using lt items_of_swap [OF len(1,2)] by simp
    next
      case False
      then have "heap_cells cap n (cs[c := set_avail (cs ! c)])" using up_cells_done [OF less.prems] linorder_not_less by blast
      then show ?thesis unfolding step using False items_of_avail [OF len(1,3)]
        by (intro exI [of _ True] exI [of _ c] exI [of _ "cs[c := set_avail (cs ! c)]"]) simp
    qed
  next
    case False
    then have "c = 1" using len by simp
    then show ?thesis using less.prems
      by (intro exI [of _ False] exI [of _ 1] exI [of _ cs]) (simp add: vqueue_prio_add_loop.simps prio_consts)
  qed
qed

text \<open>The queue with contents in heap order and all locks free.\<close>

definition prio_heap_inv :: "nat \<Rightarrow> u32 \<Rightarrow> vqueue_prio_t \<Rightarrow> bool" where
  "prio_heap_inv cap tid pq \<longleftrightarrow> tid \<noteq> RECURSIVE_LOCK_NOCPU \<and> (even cap \<or> cap = 1) \<and>
     (\<exists>n cs. pq = hq tid n cs (\<lambda>_. 0) \<and> heap_cells cap n cs)"

definition prio_items :: "vqueue_prio_t \<Rightarrow> prio_item multiset" where
  "prio_items pq = items_of (pq_heap pq)"

lemma prio_items_hq [simp]: "prio_items (hq tid n cs L) = items_of cs"
proof -
  have "map item_of (pq_heap (hq tid n cs L)) = map item_of cs"
    by (rule nth_equalityI) (simp_all add: item_of_def)
  then show ?thesis by (simp add: prio_items_def items_of_def)
qed

lemma tags_okD:
  assumes "tags_ok cap n X cs" "i \<le> cap" "i \<notin> X"
  shows "pn_tag (cs ! i) = (if 1 \<le> i \<and> i < n then NODE_TAG_AVAILABLE else NODE_TAG_EMPTY)" "pn_owner (cs ! i) = VQUEUE_PRIO_NO_ONE"
  using assms unfolding tags_ok_def by blast+

lemma size_heap_cells: "heap_cells cap n cs \<Longrightarrow> size (items_of cs) = n - 1"
proof -
  assume "heap_cells cap n cs"
  then have t: "tags_ok cap n {} cs" by (simp add: heap_cells_def)
  then have l: "length cs = cap + 1" "n \<le> cap + 1" by (auto simp: tags_ok_def)
  have "i < length cs \<and> pn_tag (cs ! i) \<noteq> NODE_TAG_EMPTY \<longleftrightarrow> i \<in> {1..<n}" for i
    using tags_okD(1) [OF t, of i] l by (cases "i \<le> cap") auto
  then have "{i. i < length cs \<and> pn_tag (cs ! i) \<noteq> NODE_TAG_EMPTY} = {1..<n}" by blast
  then show ?thesis by (simp add: size_items_of)
qed

definition occupied :: "u32 \<Rightarrow> ptr \<Rightarrow> u32 \<Rightarrow> vqueue_prio_node_t \<Rightarrow> vqueue_prio_node_t" where
  "occupied tid data score x = x\<lparr>pn_score := score, pn_data := data, pn_owner := tid, pn_tag := NODE_TAG_BUSY\<rparr>"

lemma occupied_sel [simp]: "pn_score (occupied tid d p x) = p" "pn_data (occupied tid d p x) = d"
  "pn_owner (occupied tid d p x) = tid" "pn_tag (occupied tid d p x) = NODE_TAG_BUSY"
  by (simp_all add: occupied_def)

lemma occupy_hq:
  assumes "length cs = cap + 1" "1 \<le> i" "i \<le> cap"
  shows "vqueue_prio_node_occupy cap tid (hq tid n cs L) i d p = Inr (hq tid n (cs[i := occupied tid d p (cs ! i)]) L)"
  using assms by (simp add: vqueue_prio_node_occupy_def prio_consts heap_upd_hq occupied_def)

lemma heap_cells_occupy:
  assumes h: "heap_cells cap n cs" and n: "n \<le> cap"
  shows "up_cells cap tid (n + 1) n (cs[n := occupied tid d p (cs ! n)])"
    and "items_of (cs[n := occupied tid d p (cs ! n)]) = add_mset (p, d) (items_of cs)"
proof -
  have t: "tags_ok cap n {} cs" and l: "length cs = cap + 1" "1 \<le> n" using h by (auto simp: heap_cells_def tags_ok_def)
  have "pn_tag (cs ! n) = NODE_TAG_EMPTY" using tags_okD(1) [OF t n] by simp
  then show "items_of (cs[n := occupied tid d p (cs ! n)]) = add_mset (p, d) (items_of cs)"
    using items_of_update [of n cs "occupied tid d p (cs ! n)"] l n by (simp add: item_of_def)
  have "tags_ok cap (n + 1) {n} (cs[n := occupied tid d p (cs ! n)])"
    unfolding tags_ok_def using l n tags_okD [OF t] by (auto simp: nth_list_update)
  moreover have "i div 2 \<noteq> n" if "i < n + 1" for i using that l by linarith
  moreover have "pn_score (cs ! (i div 2)) \<le> pn_score (cs ! i)" if "2 \<le> i" "i < n" for i
    using h that by (simp add: heap_cells_def)
  moreover have "n < length cs" using l n by simp
  ultimately show "up_cells cap tid (n + 1) n (cs[n := occupied tid d p (cs ! n)])"
    using l n nth_list_update_eq [of n cs] by (auto simp: up_cells_def less_Suc_eq)
qed

lemma add_finish:
  assumes tid: "tid \<noteq> RECURSIVE_LOCK_NOCPU" and up: "up_cells cap tid n 1 cs"
  shows "rbind (vqueue_prio_lock cap tid (hq tid n cs (\<lambda>_. 0)) VQUEUE_PRIO_ROOT) (\<lambda>pq.
      rbind (vqueue_prio_node_am_owner cap tid pq VQUEUE_PRIO_ROOT) (\<lambda>mine.
      rbind (if mine then heap_upd pq VQUEUE_PRIO_ROOT (\<lambda>n. n\<lparr>pn_tag := NODE_TAG_AVAILABLE, pn_owner := VQUEUE_PRIO_NO_ONE\<rparr>)
             else Inr pq) (\<lambda>pq.
      rbind (vqueue_prio_unlock cap tid pq VQUEUE_PRIO_ROOT) (\<lambda>pq. Inr (True, pq))))) =
    Inr (True, hq tid n (cs[1 := set_avail (cs ! 1)]) (\<lambda>_. 0))"
proof -
  have b: "length cs = cap + 1" "1 \<le> cap" "pn_tag (cs ! 1) = NODE_TAG_BUSY" "pn_owner (cs ! 1) = tid"
    using up by (auto simp: up_cells_def tags_ok_def)
  then show ?thesis using tid
    by (simp add: lock_hq unlock_hq avail_hq vqueue_prio_node_am_owner_def prio_consts no_locks)
qed

lemma add_ok:
  assumes tid: "tid \<noteq> RECURSIVE_LOCK_NOCPU" and h: "heap_cells cap n cs" and p: "p \<le> 2 ^ 32 - 1"
  shows "if n \<le> cap then \<exists>cs'. vqueue_prio_add cap tid (hq tid n cs (\<lambda>_. 0)) d p = Inr (True, hq tid (n + 1) cs' (\<lambda>_. 0)) \<and>
      heap_cells cap (n + 1) cs' \<and> items_of cs' = add_mset (ucast p, d) (items_of cs)
    else vqueue_prio_add cap tid (hq tid n cs (\<lambda>_. 0)) d p = Inr (False, hq tid n cs (\<lambda>_. 0))"
proof -
  have l: "length cs = cap + 1" "1 \<le> n" "n \<le> cap + 1" using h by (auto simp: heap_cells_def tags_ok_def)
  show ?thesis
  proof (cases "n \<le> cap")
    case False
    then show ?thesis using l tid by (simp add: vqueue_prio_add_def lock_hq unlock_hq prio_consts no_locks)
  next
    case n: True
    let ?cs = "cs[n := occupied tid d (ucast p) (cs ! n)]"
    note occ = heap_cells_occupy [OF h n, of tid d "ucast p"]
    obtain r c' cs' where loop: "vqueue_prio_add_loop cap tid n (hq tid (n + 1) ?cs (\<lambda>_. 0)) = Inr (r, c', hq tid (n + 1) cs' (\<lambda>_. 0))"
      "items_of cs' = items_of ?cs" "if r then heap_cells cap (n + 1) cs' else c' = 1 \<and> up_cells cap tid (n + 1) 1 cs'"
      using add_loop_ok [OF tid occ(1)] by blast
    have "vqueue_prio_add cap tid (hq tid n cs (\<lambda>_. 0)) d p =
        (if \<not> r then Inr (True, hq tid (n + 1) (cs'[1 := set_avail (cs' ! 1)]) (\<lambda>_. 0)) else Inr (True, hq tid (n + 1) cs' (\<lambda>_. 0)))"
    proof -
      have pre: "vqueue_prio_add cap tid (hq tid n cs (\<lambda>_. 0)) d p =
          rbind (vqueue_prio_add_loop cap tid n (hq tid (n + 1) ?cs (\<lambda>_. 0))) (\<lambda>(returned, child, pq).
            if \<not> returned \<and> child = VQUEUE_PRIO_ROOT then
              rbind (vqueue_prio_lock cap tid pq VQUEUE_PRIO_ROOT) (\<lambda>pq.
              rbind (vqueue_prio_node_am_owner cap tid pq VQUEUE_PRIO_ROOT) (\<lambda>mine.
              rbind (if mine then heap_upd pq VQUEUE_PRIO_ROOT (\<lambda>n. n\<lparr>pn_tag := NODE_TAG_AVAILABLE, pn_owner := VQUEUE_PRIO_NO_ONE\<rparr>)
                     else Inr pq) (\<lambda>pq.
              rbind (vqueue_prio_unlock cap tid pq VQUEUE_PRIO_ROOT) (\<lambda>pq. Inr (True, pq)))))
            else Inr (True, pq))"
        using l n tid p
        by (simp add: vqueue_prio_add_def lock_hq unlock_hq occupy_hq VQUEUE_PRIO_HEAP_LCK_IDX_def VQUEUE_PRIO_HEAP_LEN_def no_locks Let_def
            del: hq_nth)
      show ?thesis
      proof (cases r)
        case False
        then have "c' = VQUEUE_PRIO_ROOT" "up_cells cap tid (n + 1) 1 cs'" using loop(3) by (auto simp: prio_consts)
        then show ?thesis unfolding pre loop(1) using False add_finish [OF tid] by simp
      next
        case True
        then show ?thesis unfolding pre loop(1) by simp
      qed
    qed
    moreover have "heap_cells cap (n + 1) (cs'[1 := set_avail (cs' ! 1)]) \<and> items_of (cs'[1 := set_avail (cs' ! 1)]) = items_of ?cs" if "\<not> r"
      using that loop up_cells_done [of cap tid "n + 1" 1 cs'] items_of_avail [of 1 cs'] n l
      by (auto simp: up_cells_def tags_ok_def)
    ultimately show ?thesis using n loop occ(2) by (cases r) auto
  qed
qed

section \<open>Removing\<close>

text \<open>The heap while the element of node \<open>p\<close> moves down; the last node of the array is free.\<close>

definition down_cells :: "nat \<Rightarrow> nat \<Rightarrow> nat \<Rightarrow> vqueue_prio_node_t list \<Rightarrow> bool" where
  "down_cells cap n p cs \<longleftrightarrow> tags_ok cap n {} cs \<and> 1 \<le> p \<and> p < n \<and> n \<le> cap \<and>
     (\<forall>i. 2 \<le> i \<and> i < n \<and> i div 2 \<noteq> p \<longrightarrow> pn_score (cs ! (i div 2)) \<le> pn_score (cs ! i)) \<and>
     (\<forall>i. 2 \<le> p \<and> i < n \<and> i div 2 = p \<longrightarrow> pn_score (cs ! (p div 2)) \<le> pn_score (cs ! i))"

definition low_child :: "nat \<Rightarrow> nat \<Rightarrow> vqueue_prio_node_t list \<Rightarrow> nat" where
  "low_child n p cs = (if n \<le> p * 2 + 1 \<or> pn_score (cs ! (p * 2)) < pn_score (cs ! (p * 2 + 1)) then p * 2 else p * 2 + 1)"

lemma upd_drop: "f x = (0 :: nat) \<Longrightarrow> f(x := 0) = f"
  and upd_twice: "x \<noteq> y \<Longrightarrow> f(x := a, y := b, x := c) = f(x := c, y := b :: nat)"
  by auto

lemma remove_loop_step:
  assumes tid: "tid \<noteq> RECURSIVE_LOCK_NOCPU" and d: "down_cells cap n p cs" and ev: "even cap" and p: "p < cap div 2"
  shows "vqueue_prio_remove_loop cap tid p (hq tid n cs ((\<lambda>_. 0)(p := 1))) =
    (if n \<le> p * 2 then Inr (p, hq tid n cs ((\<lambda>_. 0)(p := 1)))
     else let c = low_child n p cs in
       if pn_score (cs ! c) < pn_score (cs ! p)
       then vqueue_prio_remove_loop cap tid c (hq tid n (swap_cells p c cs) ((\<lambda>_. 0)(c := 1)))
       else Inr (p, hq tid n cs ((\<lambda>_. 0)(p := 1))))"
proof -
  let ?l = "p * 2" and ?r = "p * 2 + 1"
  have t: "tags_ok cap n {} cs" and b: "length cs = cap + 1" "1 \<le> p" "p < n" "n \<le> cap"
    using d by (auto simp: down_cells_def tags_ok_def)
  have i: "?l < cap" "?r < cap" "p \<le> cap" "p \<noteq> ?l" "p \<noteq> ?r" "?l \<noteq> ?r" using p ev b by (auto elim!: evenE)
  have tag: "pn_tag (cs ! k) = (if k < n then NODE_TAG_AVAILABLE else NODE_TAG_EMPTY)" if "k \<in> {?l, ?r}" for k
    using tags_okD(1) [OF t, of k] that i b by auto
  have tl: "pn_tag (cs ! ?l) = (if ?l < n then NODE_TAG_AVAILABLE else NODE_TAG_EMPTY)"
    and tr: "pn_tag (cs ! ?r) = (if ?r < n then NODE_TAG_AVAILABLE else NODE_TAG_EMPTY)"
    and tp: "pn_tag (cs ! p) = NODE_TAG_AVAILABLE"
    using tags_okD(1) [OF t, of ?l] tags_okD(1) [OF t, of ?r] tags_okD(1) [OF t, of p] i b by auto
  note run = lock_hq unlock_hq swap_hq prio_consts upd_drop upd_twice Let_def
  have cmp: "pn_score (cs ! c) < pn_score (cs ! p) \<or> pn_score (cs ! p) \<le> pn_score (cs ! c) \<and> \<not> pn_score (cs ! c) < pn_score (cs ! p)" for c
    by auto
  show ?thesis
  proof (cases "n \<le> ?l")
    case True
    then show ?thesis using p i b tl tid by (subst vqueue_prio_remove_loop.simps) (simp add: run)
  next
    case ne: False
    show ?thesis
    proof (cases "n \<le> ?r \<or> pn_score (cs ! ?l) < pn_score (cs ! ?r)")
      case True
      then have c: "low_child n p cs = ?l" and go: "pn_tag (cs ! ?r) = NODE_TAG_EMPTY \<or> pn_score (cs ! ?l) < pn_score (cs ! ?r)"
        using tr by (auto simp: low_child_def)
      from cmp [of ?l] show ?thesis unfolding c using p ne i b tl tid go
        by (subst vqueue_prio_remove_loop.simps, elim disjE) (simp_all add: run swap_cells_nth less_imp_le)
    next
      case False
      then have c: "low_child n p cs = ?r" and go: "pn_tag (cs ! ?r) \<noteq> NODE_TAG_EMPTY" "\<not> pn_score (cs ! ?l) < pn_score (cs ! ?r)"
        using tr by (auto simp: low_child_def)
      from cmp [of ?r] show ?thesis unfolding c using p ne i b tl tid go
        by (subst vqueue_prio_remove_loop.simps, elim disjE) (simp_all add: run swap_cells_nth less_imp_le)
    qed
  qed
qed

lemma low_childD:
  assumes "p * 2 < n" "1 \<le> p"
  shows "low_child n p cs div 2 = p" "low_child n p cs < n" "p < low_child n p cs"
    "i < n \<Longrightarrow> i div 2 = p \<Longrightarrow> pn_score (cs ! low_child n p cs) \<le> pn_score (cs ! i)"
proof -
  show "low_child n p cs div 2 = p" "low_child n p cs < n" "p < low_child n p cs"
    using assms by (auto simp: low_child_def)
  assume i: "i < n" "i div 2 = p"
  then have "i = p * 2 \<or> i = p * 2 + 1" by linarith
  then show "pn_score (cs ! low_child n p cs) \<le> pn_score (cs ! i)" using i by (auto simp: low_child_def less_imp_le)
qed

lemma down_cells_swap:
  assumes d: "down_cells cap n p cs" and ne: "p * 2 < n" and lt: "pn_score (cs ! low_child n p cs) < pn_score (cs ! p)"
  shows "down_cells cap n (low_child n p cs) (swap_cells p (low_child n p cs) cs)"
proof -
  let ?c = "low_child n p cs" and ?s = "\<lambda>k. pn_score (cs ! k)" and ?s' = "\<lambda>k. pn_score (swap_cells p (low_child n p cs) cs ! k)"
  have t: "tags_ok cap n {} cs" and p: "1 \<le> p" "p < n" "n \<le> cap" using d by (auto simp: down_cells_def)
  have len: "length cs = cap + 1" "p < length cs" "?c < length cs" using t p low_childD(2) [OF ne p(1), of cs] by (auto simp: tags_ok_def)
  have ord: "?s (i div 2) \<le> ?s i" if "2 \<le> i" "i < n" "i div 2 \<noteq> p" for i using d that by (simp add: down_cells_def)
  have up: "?s (p div 2) \<le> ?s i" if "2 \<le> p" "i < n" "i div 2 = p" for i using d that by (simp add: down_cells_def)
  note c = low_childD [OF ne p(1), where cs = cs]
  have nth: "?s' k = ?s (if k = p then ?c else if k = ?c then p else k)" for k by (rule swap_cells_nth(1) [OF len(2,3)])
  have "?s' (i div 2) \<le> ?s' i" if i: "2 \<le> i" "i < n" "i div 2 \<noteq> ?c" for i
  proof -
    consider "i = ?c" | "i div 2 = p" "i \<noteq> ?c" | "i = p" | "i div 2 \<noteq> p" "i \<noteq> p" "i \<noteq> ?c" by blast
    then show ?thesis
    proof cases
      case 1 then show ?thesis using c lt by (simp add: nth less_imp_le)
    next
      case 2 then show ?thesis using c(4) [OF i(2)] c(3) i by (auto simp: nth)
    next
      case 3
      have "i div 2 < i" using i by simp
      then show ?thesis using 3 up [OF _ c(2,1)] i c by (simp add: nth)
    next
      case 4 then show ?thesis using ord [OF i(1,2)] i by (simp add: nth)
    qed
  qed
  moreover have "?s' (?c div 2) \<le> ?s' i" if "i < n" "i div 2 = ?c" for i
  proof -
    have "2 \<le> i" "i \<noteq> p" "i \<noteq> ?c" "i div 2 \<noteq> p" using that c p by auto
    then show ?thesis using ord [of i] that c by (simp add: nth)
  qed
  moreover have "tags_ok cap n {} (swap_cells p ?c cs)"
    unfolding tags_ok_def using t len p c tags_okD [OF t] by (auto simp: tags_ok_def swap_cells_nth [OF len(2,3)])
  ultimately show ?thesis using p c by (auto simp: down_cells_def)
qed

lemma down_cells_done:
  assumes d: "down_cells cap n p cs" and le: "n \<le> p * 2 \<or> pn_score (cs ! p) \<le> pn_score (cs ! low_child n p cs)"
  shows "heap_cells cap n cs"
proof -
  have p: "1 \<le> p" using d by (simp add: down_cells_def)
  have "pn_score (cs ! (i div 2)) \<le> pn_score (cs ! i)" if i: "2 \<le> i" "i < n" for i
  proof (cases "i div 2 = p")
    case True
    then have "p * 2 < n" using i by auto
    then show ?thesis using le low_childD(4) [OF _ p i(2) True, where cs = cs] True order_trans by auto
  next
    case False then show ?thesis using d i by (simp add: down_cells_def)
  qed
  then show ?thesis using d by (simp add: heap_cells_def down_cells_def)
qed

lemma remove_loop_ok:
  assumes tid: "tid \<noteq> RECURSIVE_LOCK_NOCPU" and ev: "even cap" and d: "down_cells cap n p cs"
  shows "\<exists>p' cs'. vqueue_prio_remove_loop cap tid p (hq tid n cs ((\<lambda>_. 0)(p := 1))) = Inr (p', hq tid n cs' ((\<lambda>_. 0)(p' := 1))) \<and>
    p' \<le> cap \<and> heap_cells cap n cs' \<and> items_of cs' = items_of cs"
  using d
proof (induction "n - p" arbitrary: p cs rule: less_induct)
  case less
  have p: "1 \<le> p" "p < n" "n \<le> cap" "length cs = cap + 1" using less.prems by (auto simp: down_cells_def tags_ok_def)
  let ?c = "low_child n p cs"
  consider "cap div 2 \<le> p" | "p < cap div 2" "n \<le> p * 2" | "p < cap div 2" "p * 2 < n" "pn_score (cs ! p) \<le> pn_score (cs ! ?c)"
    | "p < cap div 2" "p * 2 < n" "pn_score (cs ! ?c) < pn_score (cs ! p)" by fastforce
  then show ?case
  proof cases
    case 1
    then have "n \<le> p * 2" using p(3) ev by (auto elim!: evenE)
    then have "heap_cells cap n cs" using down_cells_done [OF less.prems] by simp
    moreover have "vqueue_prio_remove_loop cap tid p (hq tid n cs ((\<lambda>_. 0)(p := 1))) = Inr (p, hq tid n cs ((\<lambda>_. 0)(p := 1)))"
      using 1 by (subst vqueue_prio_remove_loop.simps) (simp add: prio_consts)
    ultimately show ?thesis using p by (intro exI [of _ p] exI [of _ cs]) simp
  next
    case 2
    then have "heap_cells cap n cs" using down_cells_done [OF less.prems] by simp
    then show ?thesis unfolding remove_loop_step [OF tid less.prems ev 2(1)] using 2 p
      by (intro exI [of _ p] exI [of _ cs]) simp
  next
    case 3
    then have "heap_cells cap n cs" using down_cells_done [OF less.prems] by simp
    then show ?thesis unfolding remove_loop_step [OF tid less.prems ev 3(1)] using 3 p
      by (intro exI [of _ p] exI [of _ cs]) (simp add: Let_def leD)
  next
    case 4
    note c = low_childD [OF 4(2) p(1), where cs = cs]
    have "n - ?c < n - p" using c by simp
    from less.hyps [OF this down_cells_swap [OF less.prems 4(2,3)]]
    obtain p' cs' where r: "vqueue_prio_remove_loop cap tid ?c (hq tid n (swap_cells p ?c cs) ((\<lambda>_. 0)(?c := 1))) = Inr (p', hq tid n cs' ((\<lambda>_. 0)(p' := 1)))"
      "p' \<le> cap" "heap_cells cap n cs'" "items_of cs' = items_of (swap_cells p ?c cs)" by blast
    moreover have "items_of (swap_cells p ?c cs) = items_of cs" using p c by (intro items_of_swap) auto
    ultimately show ?thesis unfolding remove_loop_step [OF tid less.prems ev 4(1)] using 4 by (auto simp: Let_def)
  qed
qed

definition set_empty :: "vqueue_prio_node_t \<Rightarrow> vqueue_prio_node_t" where
  "set_empty x = x\<lparr>pn_tag := NODE_TAG_EMPTY, pn_owner := VQUEUE_PRIO_NO_ONE\<rparr>"

lemma set_empty_sel [simp]: "pn_tag (set_empty x) = NODE_TAG_EMPTY" "pn_owner (set_empty x) = VQUEUE_PRIO_NO_ONE"
  "pn_score (set_empty x) = pn_score x" "pn_data (set_empty x) = pn_data x"
  by (simp_all add: set_empty_def)

lemma empty_hq:
  "i < length cs \<Longrightarrow> heap_upd (hq tid n cs L) i (\<lambda>x. x\<lparr>pn_tag := NODE_TAG_EMPTY, pn_owner := VQUEUE_PRIO_NO_ONE\<rparr>) =
    Inr (hq tid n (cs[i := set_empty (cs ! i)]) L)"
  by (simp add: heap_upd_hq set_empty_def)

lemma heap_root_min:
  assumes "heap_cells cap n cs" "1 \<le> i" "i < n"
  shows "pn_score (cs ! 1) \<le> pn_score (cs ! i)"
  using assms(2,3)
proof (induction i rule: less_induct)
  case (less i)
  show ?case
  proof (cases "i = 1")
    case False
    then have "i div 2 < i" "1 \<le> i div 2" "i div 2 < n" "2 \<le> i" using less.prems by auto
    then have "pn_score (cs ! 1) \<le> pn_score (cs ! (i div 2))" "pn_score (cs ! (i div 2)) \<le> pn_score (cs ! i)"
      using less.IH less.prems assms(1) by (auto simp: heap_cells_def)
    then show ?thesis by (rule order_trans)
  qed simp
qed

lemma items_of_root:
  assumes h: "heap_cells cap n cs" and n: "1 < n"
  defines "x \<equiv> (pn_score (cs ! 1), pn_data (cs ! 1))"
  shows "x \<in># items_of cs" "y \<in># items_of cs \<Longrightarrow> fst x \<le> fst y"
    "items_of (cs[1 := set_empty (cs ! 1)]) = items_of cs - {#x#}"
proof -
  have t: "tags_ok cap n {} cs" and l: "length cs = cap + 1" "n \<le> cap + 1" using h by (auto simp: heap_cells_def tags_ok_def)
  have r: "pn_tag (cs ! 1) = NODE_TAG_AVAILABLE" using tags_okD(1) [OF t, of 1] n l by auto
  then show "x \<in># items_of cs" using l n by (auto simp: items_of_mem x_def intro!: exI [of _ 1])
  show "fst x \<le> fst y" if y: "y \<in># items_of cs"
  proof -
    obtain i where i: "i < length cs" "pn_tag (cs ! i) \<noteq> NODE_TAG_EMPTY" "y = (pn_score (cs ! i), pn_data (cs ! i))"
      using y unfolding items_of_mem by blast
    then have "1 \<le> i" "i < n" using tags_okD(1) [OF t, of i] l by (auto split: if_splits)
    then show ?thesis using heap_root_min [OF h] i by (simp add: x_def)
  qed
  have "items_of (cs[1 := set_empty (cs ! 1)]) + item_of (cs ! 1) = items_of cs + item_of (set_empty (cs ! 1))"
    using l n by (intro items_of_update) simp
  then show "items_of (cs[1 := set_empty (cs ! 1)]) = items_of cs - {#x#}"
    using r by (simp add: item_of_def x_def) (metis add_mset_remove_trivial)
qed

lemma down_cells_start:
  assumes h: "heap_cells cap n cs" and n: "2 < n"
  shows "down_cells cap (n - 1) 1 (swap_cells (n - 1) 1 (cs[1 := set_empty (cs ! 1)]))"
proof -
  let ?e = "cs[1 := set_empty (cs ! 1)]"
  have t: "tags_ok cap n {} cs" and l: "length cs = cap + 1" "n \<le> cap + 1" using h by (auto simp: heap_cells_def tags_ok_def)
  have len: "n - 1 < length ?e" "1 < length ?e" using l n by auto
  note nth = swap_cells_nth [OF len]
  have s: "pn_score (?e ! k) = pn_score (cs ! k)" for k using len by (cases "k = 1") auto
  have "tags_ok cap (n - 1) {} (swap_cells (n - 1) 1 ?e)"
    unfolding tags_ok_def using l n tags_okD [OF t] by (auto simp: nth nth_list_update simp del: One_nat_def)
  moreover have "pn_score (swap_cells (n - 1) 1 ?e ! (i div 2)) \<le> pn_score (swap_cells (n - 1) 1 ?e ! i)"
    if "2 \<le> i" "i < n - 1" "i div 2 \<noteq> 1" for i
    using h that by (auto simp: nth s heap_cells_def simp del: One_nat_def)
  moreover have "1 < n - 1" "n - 1 \<le> cap" using n l by auto
  ultimately show ?thesis by (simp add: down_cells_def)
qed

lemma remove_min_ok:
  assumes tid: "tid \<noteq> RECURSIVE_LOCK_NOCPU" and ev: "even cap \<or> cap = 1" and h: "heap_cells cap n cs" and n: "1 < n"
  shows "\<exists>cs'. vqueue_prio_remove_min cap tid (hq tid n cs (\<lambda>_. 0)) = Inr (pn_data (cs ! 1), hq tid (n - 1) cs' (\<lambda>_. 0)) \<and>
    heap_cells cap (n - 1) cs' \<and> items_of cs' = items_of cs - {#(pn_score (cs ! 1), pn_data (cs ! 1))#}"
proof -
  have t: "tags_ok cap n {} cs" and l: "length cs = cap + 1" "n \<le> cap + 1" using h by (auto simp: heap_cells_def tags_ok_def)
  have r: "pn_tag (cs ! 1) = NODE_TAG_AVAILABLE" "pn_tag (cs ! (n - 1)) = NODE_TAG_AVAILABLE"
    using tags_okD(1) [OF t, of 1] tags_okD(1) [OF t, of "n - 1"] n l by auto
  let ?e = "cs[1 := set_empty (cs ! 1)]"
  note run = lock_hq unlock_hq swap_hq empty_hq VQUEUE_PRIO_ROOT_def VQUEUE_PRIO_HEAP_LCK_IDX_def upd_drop upd_twice Let_def
  show ?thesis
  proof (cases "n = 2")
    case True
    have sw: "swap_cells 1 1 ?e = ?e" using l n by (simp add: swap_cells_def put_cell_self)
    have "vqueue_prio_remove_min cap tid (hq tid n cs (\<lambda>_. 0)) = Inr (pn_data (cs ! 1), hq tid (n - 1) ?e (\<lambda>_. 0))"
      using tid True l r sw by (simp add: vqueue_prio_remove_min_def run)
    moreover have "heap_cells cap (n - 1) ?e"
      unfolding heap_cells_def tags_ok_def using True l tags_okD [OF t] by (auto simp: nth_list_update)
    ultimately show ?thesis using items_of_root(3) [OF h n] by blast
  next
    case False
    then have n2: "2 < n" using n by simp
    let ?s = "swap_cells (n - 1) 1 ?e"
    have ev: "even cap" using ev n2 l by auto
    note d = down_cells_start [OF h n2]
    from remove_loop_ok [OF tid ev d] obtain p' cs' where
      loop: "vqueue_prio_remove_loop cap tid 1 (hq tid (n - 1) ?s ((\<lambda>_. 0)(1 := 1))) = Inr (p', hq tid (n - 1) cs' ((\<lambda>_. 0)(p' := 1)))"
        "p' \<le> cap" "heap_cells cap (n - 1) cs'" "items_of cs' = items_of ?s" by blast
    have n3: "n - 1 \<noteq> 1" using n2 by simp
    have "length cs' = cap + 1" using loop(3) by (simp add: heap_cells_def tags_ok_def)
    moreover have "pn_tag (?s ! 1) = NODE_TAG_AVAILABLE" using r n2 l by (simp add: swap_cells_nth)
    ultimately have "vqueue_prio_remove_min cap tid (hq tid n cs (\<lambda>_. 0)) = Inr (pn_data (cs ! 1), hq tid (n - 1) cs' (\<lambda>_. 0))"
      using tid n2 n3 l r loop(1,2) by (simp add: vqueue_prio_remove_min_def run)
    moreover have "items_of ?s = items_of ?e" using l n by (intro items_of_swap) auto
    ultimately show ?thesis using loop(3,4) items_of_root(3) [OF h n] by auto
  qed
qed

section \<open>The priority queue\<close>

text \<open>The invariant does not depend on the thread: any thread may run the next operation.\<close>

lemma prio_heap_inv_thread:
  "prio_heap_inv cap tid pq \<Longrightarrow> tid' \<noteq> RECURSIVE_LOCK_NOCPU \<Longrightarrow> prio_heap_inv cap tid' pq"
  by (auto simp: prio_heap_inv_def hq_def)

interpretation heap_pq: prio_queue "prio_heap_inv cap tid" prio_items cap "vqueue_prio_add cap tid" "vqueue_prio_remove_min cap tid"
  for cap tid
proof unfold_locales
  fix s :: vqueue_prio_t and d :: ptr and p :: vsize
  assume "prio_heap_inv cap tid s"
  then obtain n cs where s: "s = hq tid n cs (\<lambda>_. 0)" and h: "heap_cells cap n cs"
    and c: "tid \<noteq> RECURSIVE_LOCK_NOCPU" "even cap \<or> cap = 1" by (auto simp: prio_heap_inv_def)
  have n: "1 \<le> n" "n \<le> cap + 1" using h by (auto simp: heap_cells_def tags_ok_def)
  have sz: "size (prio_items s) = n - 1" using size_heap_cells [OF h] by (simp add: s)
  show "\<exists>s'. vqueue_prio_add cap tid s d p = Inr (size (prio_items s) < cap, s') \<and> prio_heap_inv cap tid s' \<and>
      prio_items s' = (if size (prio_items s) < cap then add_mset (ucast p, d) (prio_items s) else prio_items s)"
    if p: "p \<le> 2 ^ 32 - 1"
  proof (cases "n \<le> cap")
    case True
    then have "size (prio_items s) < cap" using sz n by simp
    moreover obtain cs' where cs': "vqueue_prio_add cap tid s d p = Inr (True, hq tid (n + 1) cs' (\<lambda>_. 0))"
      "heap_cells cap (n + 1) cs'" "items_of cs' = add_mset (ucast p, d) (items_of cs)"
      using add_ok [OF c(1) h p, of d] True s by auto
    moreover have "prio_heap_inv cap tid (hq tid (n + 1) cs' (\<lambda>_. 0))" using c cs'(2) by (auto simp: prio_heap_inv_def)
    ultimately show ?thesis using s by (intro exI [of _ "hq tid (n + 1) cs' (\<lambda>_. 0)"]) simp
  next
    case False
    then have "\<not> size (prio_items s) < cap" using sz n by simp
    with False add_ok [OF c(1) h p, of d] c h show ?thesis unfolding s prio_heap_inv_def by auto
  qed
  show "\<exists>x s'. x \<in># prio_items s \<and> (\<forall>y\<in>#prio_items s. fst x \<le> fst y) \<and> vqueue_prio_remove_min cap tid s = Inr (snd x, s') \<and>
      prio_heap_inv cap tid s' \<and> prio_items s' = prio_items s - {#x#}" if "prio_items s \<noteq> {#}"
  proof -
    have "size (prio_items s) \<noteq> 0" using that by simp
    then have n1: "1 < n" using sz by linarith
    obtain cs' where cs': "vqueue_prio_remove_min cap tid s = Inr (pn_data (cs ! 1), hq tid (n - 1) cs' (\<lambda>_. 0))" "heap_cells cap (n - 1) cs'"
      "items_of cs' = items_of cs - {#(pn_score (cs ! 1), pn_data (cs ! 1))#}" using remove_min_ok [OF c h n1] s by blast
    have "prio_heap_inv cap tid (hq tid (n - 1) cs' (\<lambda>_. 0))" using c cs'(2) by (auto simp: prio_heap_inv_def)
    then show ?thesis using cs'(1,3) items_of_root(1,2) [OF h n1] s
      by (intro exI [of _ "(pn_score (cs ! 1), pn_data (cs ! 1))"] exI [of _ "hq tid (n - 1) cs' (\<lambda>_. 0)"]) auto
  qed
  show "\<exists>s'. vqueue_prio_remove_min cap tid s = Inr (NULL, s') \<and> prio_heap_inv cap tid s' \<and> prio_items s' = {#}" if e: "prio_items s = {#}"
  proof -
    have "n = 1" using sz e n by simp
    then have "vqueue_prio_remove_min cap tid s = Inr (NULL, s)" using s c h
      by (simp add: vqueue_prio_remove_min_def lock_hq unlock_hq prio_consts no_locks heap_cells_def tags_ok_def)
    then show ?thesis using e s c h by (auto simp: prio_heap_inv_def)
  qed
qed

lemma prio_heap_init:
  assumes "length mem = cap + 1" "tid \<noteq> RECURSIVE_LOCK_NOCPU" "even cap \<or> cap = 1"
  shows "\<exists>pq. vqueue_prio_init cap mem True = Inr pq \<and> prio_heap_inv cap tid pq \<and> prio_items pq = {#}"
proof -
  let ?cs = "map vqueue_prio_node_init mem"
  have "\<lparr>pq_next = VQUEUE_PRIO_ROOT, pq_heap = ?cs\<rparr> = hq tid 1 ?cs (\<lambda>_. 0)"
    by (auto simp: hq_def prio_consts vqueue_prio_node_init_def vqueue_prio_lock_init_def intro!: nth_equalityI)
  moreover have "heap_cells cap 1 ?cs" using assms(1) by (simp add: heap_cells_def tags_ok_def vqueue_prio_node_init_def)
  moreover have "items_of ?cs = {#}" unfolding items_of_def by (induction mem) (simp_all add: item_of_def vqueue_prio_node_init_def)
  ultimately show ?thesis using assms(2,3) by (auto simp: vqueue_prio_init_def prio_heap_inv_def)
qed

lemma visit_hq:
  assumes h: "heap_cells cap n cs" and "\<forall>i\<in>set is. 1 \<le> i \<and> i \<le> cap"
  shows "vqueue_prio_visit cap (hq tid n cs L) is = Inr (map (\<lambda>i. pn_data (cs ! i)) (filter (\<lambda>i. i < n) is))"
  using assms(2)
proof (induction "is")
  case (Cons i "is")
  have t: "tags_ok cap n {} cs" and l: "length cs = cap + 1" using h by (auto simp: heap_cells_def tags_ok_def)
  have i: "1 \<le> i" "i \<le> cap" using Cons.prems by auto
  have ord: "pn_score (cs ! i) \<le> pn_score (cs ! k)" if "k div 2 = i" "k < n" for k
    using h that i by (auto simp: heap_cells_def)
  have tag: "pn_tag (cs ! k) = (if k < n then NODE_TAG_AVAILABLE else NODE_TAG_EMPTY)" if "1 \<le> k" "k \<le> cap" for k
    using tags_okD(1) [OF t that(2)] that(1) by simp
  have tr: "pn_tag (cs ! (i * 2 + 1)) = NODE_TAG_EMPTY" if "\<not> i * 2 < n" "i * 2 + 1 < cap" using tag [of "i * 2 + 1"] that by simp
  have "vqueue_prio_visit_check cap (hq tid n cs L) i ((cs ! i)\<lparr>pn_lock := l\<rparr>) = Inr ()" for l
    using l i ord [of "i * 2"] ord [of "i * 2 + 1"] tag [of "i * 2"] tag [of "i * 2 + 1"] tr
    by (cases "i * 2 < n"; cases "i * 2 + 1 < n") (simp_all add: prio_consts vqueue_prio_visit_check_def Let_def)
  then show ?case using Cons.IH Cons.prems l i tag [OF i] tags_okD(2) [OF t i(2)] by simp
qed simp

lemma heap_data_list:
  assumes "heap_cells cap n cs"
  shows "map pn_data (filter (\<lambda>x. pn_tag x \<noteq> NODE_TAG_EMPTY) (drop 1 cs)) = map (\<lambda>i. pn_data (cs ! i)) [1..<n]"
proof -
  have t: "tags_ok cap n {} cs" and l: "length cs = cap + 1" "1 \<le> n" "n \<le> cap + 1" using assms by (auto simp: heap_cells_def tags_ok_def)
  have "drop 1 cs = map ((!) cs) [1..<cap + 1]" using l by (intro nth_equalityI) (simp_all del: upt_Suc)
  also have "\<dots> = map ((!) cs) ([1..<n] @ [n..<cap + 1])" using upt_split [OF l(2,3)] by simp
  finally have "drop 1 cs = map ((!) cs) ([1..<n] @ [n..<cap + 1])" .
  moreover have "\<forall>i\<in>set [1..<n]. pn_tag (cs ! i) \<noteq> NODE_TAG_EMPTY" "\<forall>i\<in>set [n..<cap + 1]. pn_tag (cs ! i) = NODE_TAG_EMPTY"
    using tags_okD(1) [OF t] l by auto
  ultimately show ?thesis by (simp add: filter_map o_def filter_id_conv [THEN iffD2] filter_False)
qed

text \<open>C6: run by one thread after another, the heap-based priority queue is a bounded multiset with
  priorities. In every state with its invariant (nodes tagged as they should, parents before children,
  no lock held), an add with a 32-bit priority puts the element in, or refuses when the capacity is
  reached; a removal takes out some element of least priority, or returns \<^verbatim>\<open>NULL\<close> when there is none.
  No assertion fails, no lock is left held, and the invariant holds afterwards.\<close>

theorem prio_heap_refines:
  assumes "prio_heap_inv cap tid s"
  shows "(\<forall>d p. p \<le> 2 ^ 32 - 1 \<longrightarrow> (\<exists>s'. vqueue_prio_add cap tid s d p = Inr (size (prio_items s) < cap, s') \<and> prio_heap_inv cap tid s' \<and>
      prio_items s' = (if size (prio_items s) < cap then add_mset (ucast p, d) (prio_items s) else prio_items s))) \<and>
    (if prio_items s = {#} then \<exists>s'. vqueue_prio_remove_min cap tid s = Inr (NULL, s') \<and> prio_heap_inv cap tid s' \<and> prio_items s' = {#}
     else \<exists>x s'. x \<in># prio_items s \<and> (\<forall>y\<in>#prio_items s. fst x \<le> fst y) \<and> vqueue_prio_remove_min cap tid s = Inr (snd x, s') \<and>
       prio_heap_inv cap tid s' \<and> prio_items s' = prio_items s - {#x#})"
  using heap_pq.add_law [OF assms] heap_pq.remove_law [OF assms] heap_pq.remove_empty_law [OF assms] by auto

text \<open>An initialised queue whose capacity is a power of two sorts: adding the elements of a list
  that fits and removing as many elements returns the values in the order of their priorities.\<close>

theorem prio_heap_sorts:
  assumes "cap = 2 ^ k" "length mem = cap + 1" "tid \<noteq> RECURSIVE_LOCK_NOCPU" "length xs \<le> cap"
  shows "\<exists>pq s1 ys s2. vqueue_prio_init cap mem True = Inr pq \<and> add_all (vqueue_prio_add cap tid) xs pq = Inr s1 \<and>
    drain (vqueue_prio_remove_min cap tid) (length xs) s1 = Inr (map snd ys, s2) \<and> mset ys = mset xs \<and> sorted (map fst ys)"
proof -
  have "even cap \<or> cap = 1" using assms(1) by (cases k) auto
  then obtain pq where pq: "vqueue_prio_init cap mem True = Inr pq" "prio_heap_inv cap tid pq" "prio_items pq = {#}"
    using prio_heap_init assms by blast
  with heap_pq.fill_drain_sorts [OF pq(2,3) assms(4)] show ?thesis by blast
qed

text \<open>The visitor of the queue, with its assertions on tags, owners and the order of parents and
  children, succeeds in every state with the invariant and hands out exactly the values the queue holds,
  in the same order as the destructor.\<close>

theorem prio_heap_visit:
  assumes "prio_heap_inv cap tid pq"
  shows "vqueue_prio_visit cap pq [VQUEUE_PRIO_ROOT..<VQUEUE_PRIO_HEAP_LEN cap] = Inr (vqueue_prio_destroy pq True) \<and>
    mset (vqueue_prio_destroy pq True) = image_mset snd (prio_items pq)"
proof
  obtain n cs where pq: "pq = hq tid n cs (\<lambda>_. 0)" and h: "heap_cells cap n cs" using assms by (auto simp: prio_heap_inv_def)
  have l: "length cs = cap + 1" "1 \<le> n" "n \<le> cap + 1" using h by (auto simp: heap_cells_def tags_ok_def)
  let ?h = "pq_heap pq" and ?ne = "\<lambda>x. pn_tag x \<noteq> NODE_TAG_EMPTY"
  have h': "heap_cells cap n ?h" using h l by (auto simp: pq heap_cells_def tags_ok_def)
  have sel: "pn_data (?h ! i) = pn_data (cs ! i)" if "i < length cs" for i using that by (simp add: pq)
  have d: "vqueue_prio_destroy pq True = map (\<lambda>i. pn_data (cs ! i)) [1..<n]"
    using heap_data_list [OF h'] sel l by (auto simp: vqueue_prio_destroy_def)
  have "[1..<cap + 1] = [1..<n] @ [n..<cap + 1]" using upt_split [OF l(2,3)] .
  then have "filter (\<lambda>i. i < n) [1..<cap + 1] = [1..<n]" by (simp add: filter_id_conv [THEN iffD2] filter_False)
  then show "vqueue_prio_visit cap pq [VQUEUE_PRIO_ROOT..<VQUEUE_PRIO_HEAP_LEN cap] = Inr (vqueue_prio_destroy pq True)"
    using visit_hq [OF h, of "[1..<cap + 1]" tid "\<lambda>_. 0"] by (simp add: pq d [unfolded pq] prio_consts del: upt_Suc)
  have "pn_tag (?h ! 0) = NODE_TAG_EMPTY" using h' tags_okD(1) [of cap n "{}" ?h 0] by (simp add: heap_cells_def)
  moreover obtain x xs where "?h = x # xs" using l by (metis hq_sel(3) pq length_0_conv neq_Nil_conv add_is_0 one_neq_zero)
  ultimately have "filter ?ne ?h = filter ?ne (drop 1 ?h)" by simp
  moreover have "items_of ys = mset (map (\<lambda>x. (pn_score x, pn_data x)) (filter ?ne ys))" for ys
    unfolding items_of_def by (induction ys) (simp_all add: item_of_def)
  ultimately show "mset (vqueue_prio_destroy pq True) = image_mset snd (prio_items pq)"
    by (simp add: prio_items_def vqueue_prio_destroy_def image_mset.compositionality o_def del: mset_filter)
qed

section \<open>Examples\<close>

lemma prio_heap_example:
  "\<exists>pq. vqueue_prio_init 4 (replicate 5 (undefined :: vqueue_prio_node_t)) True = Inr pq \<and> prio_heap_inv 4 7 pq \<and> prio_items pq = {#}"
  by (rule prio_heap_init) (simp_all add: RECURSIVE_LOCK_NOCPU_def)

lemma prio_heap_refines_witness:
  "\<exists>pq s'. vqueue_prio_init 4 (replicate 5 (undefined :: vqueue_prio_node_t)) True = Inr pq \<and>
    vqueue_prio_add 4 7 pq 30 5 = Inr (True, s') \<and> prio_items s' = {#(5, 30)#}"
proof -
  obtain pq where pq: "vqueue_prio_init 4 (replicate 5 (undefined :: vqueue_prio_node_t)) True = Inr pq" "prio_heap_inv 4 7 pq" "prio_items pq = {#}"
    using prio_heap_example by blast
  have "(5 :: vsize) \<le> 2 ^ 32 - 1" by (simp add: word_le_nat_alt)
  then have "\<exists>s'. vqueue_prio_add 4 7 pq 30 5 = Inr (True, s') \<and> prio_items s' = {#(5, 30)#}"
    using prio_heap_refines [OF pq(2)] pq(3) by fastforce
  then show ?thesis using pq(1) by blast
qed

end
