(* ===== verification/Linked_List.thy ===== *)
theory Linked_List
  imports Vsync_Prelude
begin

text \<open>
  Linked lists in memory: \<open>chain nxt p xs\<close> says that the pointer \<open>p\<close> starts a list of the nodes
  \<open>xs\<close> that ends with \<^verbatim>\<open>NULL\<close>, where \<open>nxt\<close> is the contents of the next fields.
\<close>

fun chain :: "(ptr \<Rightarrow> ptr) \<Rightarrow> ptr \<Rightarrow> ptr list \<Rightarrow> bool" where
  "chain nxt p [] \<longleftrightarrow> p = NULL"
| "chain nxt p (x # xs) \<longleftrightarrow> p = x \<and> x \<noteq> NULL \<and> chain nxt (nxt x) xs"

lemma chain_upd [simp]: "n \<notin> set xs \<Longrightarrow> chain (nxt(n := v)) p xs = chain nxt p xs"
  by (induction xs arbitrary: p) auto

lemma chain_unique: "chain nxt p xs \<Longrightarrow> chain nxt p ys \<Longrightarrow> xs = ys"
proof (induction xs arbitrary: p ys)
  case (Cons x xs)
  then show ?case by (cases ys) auto
qed (metis chain.simps list.exhaust)

lemma chain_not_NULL: "chain nxt p xs \<Longrightarrow> NULL \<notin> set xs"
  by (induction xs arbitrary: p) auto

lemma chain_NULL: "chain nxt p xs \<Longrightarrow> p = NULL \<longleftrightarrow> xs = []"
  by (cases xs) auto

lemma chain_cong: "(\<And>x. x \<in> set xs \<Longrightarrow> nxt' x = nxt x) \<Longrightarrow> chain nxt' p xs = chain nxt p xs"
  by (induction xs arbitrary: p) auto

lemma chain_drop:
  "k < length xs \<Longrightarrow> chain nxt p (drop k xs) \<longleftrightarrow> p = xs ! k \<and> p \<noteq> NULL \<and> chain nxt (nxt p) (drop (Suc k) xs)"
  by (auto simp: Cons_nth_drop_Suc [symmetric])

lemma chain_last: "chain nxt p xs \<Longrightarrow> xs \<noteq> [] \<Longrightarrow> nxt (last xs) = NULL"
  by (induction xs arbitrary: p) auto

lemma chain_next:
  assumes "chain nxt p xs" and "x \<in> set xs"
  shows "nxt x = NULL \<and> x = last xs \<or> nxt x \<in> set (tl xs)"
  using assms
proof (induction xs arbitrary: p)
  case (Cons a xs)
  then show ?case by (cases xs) (auto dest: chain_NULL)
qed simp

lemma chain_next_nth: "chain nxt p xs \<Longrightarrow> Suc k < length xs \<Longrightarrow> nxt (xs ! k) = xs ! Suc k"
proof (induction xs arbitrary: p k)
  case (Cons a xs)
  then show ?case by (cases xs; cases k) auto
qed simp

lemma chain_snoc:
  "chain nxt p xs \<Longrightarrow> xs \<noteq> [] \<Longrightarrow> distinct (xs @ [n]) \<Longrightarrow> n \<noteq> NULL \<Longrightarrow> nxt n = NULL \<Longrightarrow> chain (nxt(last xs := n)) p (xs @ [n])"
proof (induction xs arbitrary: p)
  case (Cons a xs)
  then show ?case by (cases "xs = []") auto
qed simp

text \<open>\<open>segment nxt p xs e\<close>: the nodes from \<open>p\<close> up to \<open>e\<close>, which is not one of them, are \<open>xs\<close>.\<close>

fun segment :: "(ptr \<Rightarrow> ptr) \<Rightarrow> ptr \<Rightarrow> ptr list \<Rightarrow> ptr \<Rightarrow> bool" where
  "segment nxt p [] e \<longleftrightarrow> p = e"
| "segment nxt p (x # xs) e \<longleftrightarrow> p = x \<and> segment nxt (nxt x) xs e"

lemma segment_append: "segment nxt p (xs @ ys) e \<longleftrightarrow> (\<exists>q. segment nxt p xs q \<and> segment nxt q ys e)"
  by (induction xs arbitrary: p) auto

lemma segment_upd [simp]: "n \<notin> set xs \<Longrightarrow> segment (nxt(n := v)) p xs e = segment nxt p xs e"
  by (induction xs arbitrary: p) auto

lemma segment_relink:
  assumes "segment nxt p us q" "us \<noteq> []" "distinct us"
  shows "segment (nxt(last us := v)) p us v"
  using assms
proof (induction us arbitrary: p)
  case (Cons x us)
  show ?case
  proof (cases "us = []")
    case False
    then have "last us \<in> set us" by simp
    with Cons.prems(3) have "x \<noteq> last us" by auto
    then show ?thesis using Cons False by simp
  qed (use Cons in simp)
qed simp

lemma segment_first: "segment nxt p xs e \<Longrightarrow> p = hd (xs @ [e])"
  by (cases xs) auto

end
