(* ===== verification/Quack.thy ===== *)
theory Quack
  imports Vatomic Linked_List
begin

text \<open>
  The lock-free stack \<^verbatim>\<open>stack/quack.h\<close>: threads push nodes of their own with a
  compare-and-swap loop and take the whole stack at once. The memory is the head and the next field of
  every node address; one access is one step. \<open>qk_stack\<close> (the nodes on the stack, top first) and
  \<open>qk_own\<close> (the nodes each thread may write) are auxiliary: no access depends on them. A thread pushes
  only nodes it owns, as the documentation requires, and owns the nodes it pops.
\<close>

section \<open>Operations\<close>

type_synonym quack_next = "ptr \<Rightarrow> ptr"

record quack_mem =
  qk_head :: ptr
  qk_next :: quack_next

definition quack_init :: "quack_next \<Rightarrow> quack_mem" where
  "quack_init nxt = \<lparr>qk_head = vatomic_init 0 NULL, qk_next = nxt\<rparr>"

datatype quack_push_pc = PU_read | PU_write ptr | PU_cmpxchg ptr

fun quack_push :: "ptr \<Rightarrow> (quack_push_pc, quack_mem, unit) prog" where
  "quack_push n PU_read q = (Goto (PU_write (vatomic_read (qk_head q))), q)"
| "quack_push n (PU_write nxt) q = (Goto (PU_cmpxchg nxt), q\<lparr>qk_next := (qk_next q)(n := nxt)\<rparr>)"
| "quack_push n (PU_cmpxchg nxt) q =
     (let (old, h) = vatomic_cmpxchg (qk_head q) nxt n
      in (if old \<noteq> nxt then Goto PU_read else Ret (), q\<lparr>qk_head := h\<rparr>))"

definition quack_is_empty :: "quack_mem \<Rightarrow> bool" where
  "quack_is_empty q \<longleftrightarrow> vatomic_read (qk_head q) = NULL"

definition quack_popall :: "quack_mem \<Rightarrow> ptr \<times> quack_mem" where
  "quack_popall q = (let (old, h) = vatomic_xchg (qk_head q) NULL in (old, q\<lparr>qk_head := h\<rparr>))"

text \<open>The loop of the reversal, with its locals \<open>prev\<close> and \<open>curr\<close> (and \<open>next\<close> between its two accesses).\<close>

datatype quack_rev_pc = RV_load ptr ptr | RV_store ptr ptr ptr

definition quack_rev_test :: "ptr \<Rightarrow> ptr \<Rightarrow> (quack_rev_pc, ptr) ctl" where
  "quack_rev_test prev cur = (if cur \<noteq> NULL then Goto (RV_load prev cur) else Ret prev)"

fun quack_reverse :: "(quack_rev_pc, quack_mem, ptr) prog" where
  "quack_reverse (RV_load prev cur) q = (Goto (RV_store prev cur (qk_next q cur)), q)"
| "quack_reverse (RV_store prev cur nxt) q = (quack_rev_test cur nxt, q\<lparr>qk_next := (qk_next q)(cur := prev)\<rparr>)"

section \<open>Threads\<close>

text \<open>\<open>QkGot h xs\<close>: the thread has a private list that starts at \<open>h\<close>; \<open>xs\<close> and the arguments \<open>xs k\<close> of
  \<open>QkRev\<close> (the list being reversed and the number of nodes done) are auxiliary.\<close>

datatype quack_pc = QkIdle | QkPush ptr quack_push_pc | QkGot ptr "ptr list" | QkRev "ptr list" nat quack_rev_pc

record quack_sys =
  qk_mem :: quack_mem
  qk_pcs :: "tid \<Rightarrow> quack_pc"
  qk_own :: "tid \<Rightarrow> ptr set"
  qk_stack :: "ptr list"

definition quack_start :: "quack_sys \<Rightarrow> bool" where
  "quack_start s \<longleftrightarrow> (\<exists>nxt. qk_mem s = quack_init nxt) \<and> (\<forall>i. qk_pcs s i = QkIdle) \<and> qk_stack s = [] \<and>
     (\<forall>i. NULL \<notin> qk_own s i) \<and> (\<forall>i j. i \<noteq> j \<longrightarrow> qk_own s i \<inter> qk_own s j = {})"

inductive quack_step :: "tid \<Rightarrow> quack_sys \<Rightarrow> quack_sys \<Rightarrow> bool" where
  qk_call_push: "qk_pcs s i = QkIdle \<or> qk_pcs s i = QkGot h xs \<Longrightarrow> n \<in> qk_own s i \<Longrightarrow>
     quack_step i s (s\<lparr>qk_pcs := (qk_pcs s)(i := QkPush n PU_read)\<rparr>)"
| qk_push: "qk_pcs s i = QkPush n p \<Longrightarrow> quack_push n p (qk_mem s) = (Goto p', m) \<Longrightarrow>
     quack_step i s (s\<lparr>qk_mem := m, qk_pcs := (qk_pcs s)(i := QkPush n p')\<rparr>)"
| qk_pushed: "qk_pcs s i = QkPush n p \<Longrightarrow> quack_push n p (qk_mem s) = (Ret (), m) \<Longrightarrow>
     quack_step i s (s\<lparr>qk_mem := m, qk_pcs := (qk_pcs s)(i := QkIdle),
       qk_own := (qk_own s)(i := qk_own s i - {n}), qk_stack := n # qk_stack s\<rparr>)"
| qk_popall: "qk_pcs s i = QkIdle \<or> qk_pcs s i = QkGot h xs \<Longrightarrow> quack_popall (qk_mem s) = (r, m) \<Longrightarrow>
     quack_step i s (s\<lparr>qk_mem := m, qk_pcs := (qk_pcs s)(i := QkGot r (qk_stack s)),
       qk_own := (qk_own s)(i := qk_own s i \<union> set (qk_stack s)), qk_stack := []\<rparr>)"
| qk_call_rev: "qk_pcs s i = QkGot h xs \<Longrightarrow>
     quack_step i s (s\<lparr>qk_pcs := (qk_pcs s)(i := case quack_rev_test NULL h of Goto p \<Rightarrow> QkRev xs 0 p | Ret r \<Rightarrow> QkGot r (rev xs))\<rparr>)"
| qk_rev: "qk_pcs s i = QkRev xs k p \<Longrightarrow> quack_reverse p (qk_mem s) = (c, m) \<Longrightarrow>
     quack_step i s (s\<lparr>qk_mem := m, qk_pcs := (qk_pcs s)(i := case c of
        Goto (RV_load prev cur) \<Rightarrow> QkRev xs (k + 1) (RV_load prev cur)
      | Goto (RV_store prev cur nxt) \<Rightarrow> QkRev xs k (RV_store prev cur nxt) | Ret r \<Rightarrow> QkGot r (rev xs))\<rparr>)"

section \<open>Invariant\<close>

fun quack_pc_ok :: "quack_mem \<Rightarrow> ptr set \<Rightarrow> quack_pc \<Rightarrow> bool" where
  "quack_pc_ok m O1 QkIdle \<longleftrightarrow> True"
| "quack_pc_ok m O1 (QkPush n p) \<longleftrightarrow> n \<in> O1 \<and> (\<forall>nxt. p = PU_cmpxchg nxt \<longrightarrow> qk_next m n = nxt)"
| "quack_pc_ok m O1 (QkGot h xs) \<longleftrightarrow> distinct xs \<and> set xs \<subseteq> O1 \<and> chain (qk_next m) h xs"
| "quack_pc_ok m O1 (QkRev xs k (RV_load prev cur)) \<longleftrightarrow> distinct xs \<and> set xs \<subseteq> O1 \<and> k < length xs \<and>
     chain (qk_next m) prev (rev (take k xs)) \<and> chain (qk_next m) cur (drop k xs)"
| "quack_pc_ok m O1 (QkRev xs k (RV_store prev cur nxt)) \<longleftrightarrow> distinct xs \<and> set xs \<subseteq> O1 \<and> k < length xs \<and>
     chain (qk_next m) prev (rev (take k xs)) \<and> chain (qk_next m) cur (drop k xs) \<and> nxt = qk_next m cur"

text \<open>Only the next fields of the nodes a thread owns matter to it.\<close>

lemma quack_pc_ok_frame:
  assumes ok: "quack_pc_ok m X p" and eq: "\<And>x. x \<in> X \<Longrightarrow> qk_next m' x = qk_next m x" and sub: "X \<subseteq> Y"
  shows "quack_pc_ok m' Y p"
proof -
  have ch: "chain (qk_next m') q ys = chain (qk_next m) q ys" if "set ys \<subseteq> X" for q ys
    using that eq by (intro chain_cong) auto
  have parts: "set (rev (take k xs)) \<subseteq> X" "set (drop k xs) \<subseteq> X" if "set xs \<subseteq> X" for k xs
    using that set_take_subset [of k xs] set_drop_subset [of k xs] by auto
  show ?thesis using ok
  proof (cases "(m, X, p)" rule: quack_pc_ok.cases)
    case (5 m1 X1 xs k prev cur nxt)
    then have "cur \<in> set xs" using ok by (auto simp: chain_drop)
    then show ?thesis using ok 5 sub eq ch parts [of xs k] by auto
  qed (use ok sub eq ch parts in auto)
qed

definition quack_inv :: "quack_sys \<Rightarrow> bool" where
  "quack_inv s \<longleftrightarrow> chain (qk_next (qk_mem s)) (qk_head (qk_mem s)) (qk_stack s) \<and> distinct (qk_stack s) \<and>
     (\<forall>i. NULL \<notin> qk_own s i) \<and> (\<forall>i j. i \<noteq> j \<longrightarrow> qk_own s i \<inter> qk_own s j = {}) \<and>
     (\<forall>i. qk_own s i \<inter> set (qk_stack s) = {}) \<and> (\<forall>i. quack_pc_ok (qk_mem s) (qk_own s i) (qk_pcs s i))"

lemma quack_inv_local:
  assumes inv: "quack_inv s" and head: "qk_head m = qk_head (qk_mem s)"
    and nxt: "\<And>x. x \<notin> qk_own s i \<Longrightarrow> qk_next m x = qk_next (qk_mem s) x" and ok: "quack_pc_ok m (qk_own s i) q"
  shows "quack_inv (s\<lparr>qk_mem := m, qk_pcs := (qk_pcs s)(i := q)\<rparr>)"
proof -
  have "qk_next m x = qk_next (qk_mem s) x" if "x \<in> set (qk_stack s)" for x
    using inv nxt that unfolding quack_inv_def by blast
  then have "chain (qk_next m) (qk_head m) (qk_stack s)"
    using inv head chain_cong [of "qk_stack s" "qk_next m" "qk_next (qk_mem s)"] by (simp add: quack_inv_def)
  moreover have "quack_pc_ok m (qk_own s j) (((qk_pcs s)(i := q)) j)" for j
  proof (cases "j = i")
    case False
    have "quack_pc_ok (qk_mem s) (qk_own s j) (qk_pcs s j)" using inv by (simp add: quack_inv_def)
    moreover have "qk_next m x = qk_next (qk_mem s) x" if "x \<in> qk_own s j" for x
      using inv nxt that False unfolding quack_inv_def by blast
    ultimately show ?thesis using False quack_pc_ok_frame [of "qk_mem s" "qk_own s j" "qk_pcs s j" m "qk_own s j"] by simp
  qed (use ok in simp)
  ultimately show ?thesis using inv unfolding quack_inv_def by simp
qed

lemma quack_rev_test_ok:
  assumes "distinct xs" "set xs \<subseteq> X" "k \<le> length xs" "chain (qk_next m) prev (rev (take k xs))" "chain (qk_next m) cur (drop k xs)"
  shows "quack_pc_ok m X (case quack_rev_test prev cur of Goto p \<Rightarrow> QkRev xs k p | Ret r \<Rightarrow> QkGot r (rev xs))"
proof (cases "cur = NULL")
  case True
  then have "drop k xs = []" using assms(5) chain_NULL by blast
  then show ?thesis using assms True by (simp add: quack_rev_test_def)
next
  case False
  then have "drop k xs \<noteq> []" using assms(5) chain_NULL by blast
  then show ?thesis using assms False by (simp add: quack_rev_test_def)
qed

lemma quack_rev_store_ok:
  assumes ok: "quack_pc_ok m X (QkRev xs k (RV_store prev cur nxt))"
  shows "quack_pc_ok (m\<lparr>qk_next := (qk_next m)(cur := prev)\<rparr>) X
    (case quack_rev_test cur nxt of Goto p \<Rightarrow> QkRev xs (k + 1) p | Ret r \<Rightarrow> QkGot r (rev xs))"
proof (rule quack_rev_test_ok)
  have o: "distinct xs" "set xs \<subseteq> X" "k < length xs" "chain (qk_next m) prev (rev (take k xs))" "cur = xs ! k" "cur \<noteq> NULL"
    "chain (qk_next m) nxt (drop (Suc k) xs)" using ok by (auto simp: chain_drop)
  then show "distinct xs" "set xs \<subseteq> X" "k + 1 \<le> length xs" by simp_all
  have d: "distinct (take k xs @ xs ! k # drop (Suc k) xs)" using o(1,3) by (simp add: id_take_nth_drop [symmetric])
  show "chain (qk_next (m\<lparr>qk_next := (qk_next m)(cur := prev)\<rparr>)) cur (rev (take (k + 1) xs))"
    using o d by (simp add: take_Suc_conv_app_nth)
  show "chain (qk_next (m\<lparr>qk_next := (qk_next m)(cur := prev)\<rparr>)) nxt (drop (k + 1) xs)"
    using o d by simp
qed

lemma quack_inv_own:
  assumes "quack_inv s"
  shows "quack_pc_ok (qk_mem s) (qk_own s i) (qk_pcs s i)" "NULL \<notin> qk_own s i" "qk_own s i \<inter> set (qk_stack s) = {}"
    "i \<noteq> j \<Longrightarrow> qk_own s i \<inter> qk_own s j = {}"
  using assms unfolding quack_inv_def by blast+

lemma quack_inv_pushed:
  assumes inv: "quack_inv s" and pc: "qk_pcs s i = QkPush n (PU_cmpxchg nxt)" and eq: "qk_head (qk_mem s) = nxt"
  shows "quack_inv (s\<lparr>qk_mem := (qk_mem s)\<lparr>qk_head := n\<rparr>, qk_pcs := (qk_pcs s)(i := QkIdle),
    qk_own := (qk_own s)(i := qk_own s i - {n}), qk_stack := n # qk_stack s\<rparr>)"
proof -
  note o = quack_inv_own [OF inv]
  have n: "n \<in> qk_own s i" "qk_next (qk_mem s) n = nxt" using o(1) [of i] pc by auto
  then have nn: "n \<noteq> NULL" "n \<notin> set (qk_stack s)" "n \<notin> qk_own s j" if "j \<noteq> i" for j using o(2,3) [of i] o(4) [of i j] that by auto
  have "quack_pc_ok ((qk_mem s)\<lparr>qk_head := n\<rparr>) (qk_own s j) (qk_pcs s j)" for j
    using quack_pc_ok_frame [OF o(1) [of j], of "(qk_mem s)\<lparr>qk_head := n\<rparr>"] by simp
  moreover have "(((qk_own s)(i := qk_own s i - {n})) j) \<inter> set (n # qk_stack s) = {}" for j
    using o(3) [of j] nn [of j] by (cases "j = i") auto
  moreover have "((qk_own s)(i := qk_own s i - {n})) j \<inter> ((qk_own s)(i := qk_own s i - {n})) l = {}" if "j \<noteq> l" for j l
    using o(4) [of j l] that by (cases "j = i"; cases "l = i") auto
  ultimately show ?thesis using inv n nn [of "Suc i"] eq unfolding quack_inv_def by simp
qed

lemma quack_inv_popall:
  assumes inv: "quack_inv s"
  shows "quack_inv (s\<lparr>qk_mem := (qk_mem s)\<lparr>qk_head := NULL\<rparr>, qk_pcs := (qk_pcs s)(i := QkGot (qk_head (qk_mem s)) (qk_stack s)),
    qk_own := (qk_own s)(i := qk_own s i \<union> set (qk_stack s)), qk_stack := []\<rparr>)"
proof -
  note o = quack_inv_own [OF inv]
  have st: "chain (qk_next (qk_mem s)) (qk_head (qk_mem s)) (qk_stack s)" "distinct (qk_stack s)" using inv by (simp_all add: quack_inv_def)
  have "quack_pc_ok ((qk_mem s)\<lparr>qk_head := NULL\<rparr>) (qk_own s j) (qk_pcs s j)" for j
    using quack_pc_ok_frame [OF o(1) [of j], of "(qk_mem s)\<lparr>qk_head := NULL\<rparr>"] by simp
  moreover have "((qk_own s)(i := qk_own s i \<union> set (qk_stack s))) j \<inter> ((qk_own s)(i := qk_own s i \<union> set (qk_stack s))) l = {}" if "j \<noteq> l" for j l
    using o(4) [of j l] o(3) [of j] o(3) [of l] that by (cases "j = i"; cases "l = i") auto
  moreover have "NULL \<notin> set (qk_stack s)" using st(1) by (rule chain_not_NULL)
  ultimately show ?thesis using o(2) st unfolding quack_inv_def by auto
qed

lemma quack_inv_step:
  assumes "quack_step i s t" and inv: "quack_inv s"
  shows "quack_inv t"
  using assms(1)
proof cases
  case (qk_call_push h xs n)
  then show ?thesis using quack_inv_local [OF inv, of "qk_mem s" i] by simp
next
  case (qk_push n p p' m)
  then have "qk_head m = qk_head (qk_mem s)" "\<And>x. x \<notin> qk_own s i \<Longrightarrow> qk_next m x = qk_next (qk_mem s) x"
    "quack_pc_ok m (qk_own s i) (QkPush n p')"
    using quack_inv_own(1) [OF inv, of i] by (cases p; auto simp: vsync_simps split: if_splits)+
  then show ?thesis unfolding qk_push(1) by (rule quack_inv_local [OF inv])
next
  case (qk_pushed n p m)
  then obtain nxt where "p = PU_cmpxchg nxt" "qk_head (qk_mem s) = nxt" "m = (qk_mem s)\<lparr>qk_head := n\<rparr>"
    by (cases p) (auto simp: vsync_simps split: if_splits)
  then show ?thesis using qk_pushed quack_inv_pushed [OF inv] by simp
next
  case (qk_popall h xs r m)
  then show ?thesis using quack_inv_popall [OF inv, of i] by (auto simp: quack_popall_def vsync_simps)
next
  case (qk_call_rev h xs)
  then have "quack_pc_ok (qk_mem s) (qk_own s i) (case quack_rev_test NULL h of Goto p \<Rightarrow> QkRev xs 0 p | Ret r \<Rightarrow> QkGot r (rev xs))"
    using quack_inv_own(1) [OF inv, of i] by (intro quack_rev_test_ok) auto
  then show ?thesis using qk_call_rev quack_inv_local [OF inv, of "qk_mem s" i] by simp
next
  case (qk_rev xs k p c m)
  note ok = quack_inv_own(1) [OF inv, of i]
  show ?thesis
  proof (cases p)
    case (RV_load prev cur)
    then show ?thesis using qk_rev ok quack_inv_local [OF inv, of m i] by auto
  next
    case (RV_store prev cur nxt)
    have st: "quack_pc_ok (qk_mem s) (qk_own s i) (QkRev xs k (RV_store prev cur nxt))" using ok qk_rev RV_store by simp
    then have "cur \<in> qk_own s i" by (auto simp: chain_drop)
    then have m: "qk_head m = qk_head (qk_mem s)" "\<And>x. x \<notin> qk_own s i \<Longrightarrow> qk_next m x = qk_next (qk_mem s) x"
      using qk_rev RV_store by auto
    show ?thesis unfolding qk_rev(1)
      by (rule quack_inv_local [OF inv m]) (use qk_rev RV_store quack_rev_store_ok [OF st] in \<open>auto simp: quack_rev_test_def split: if_splits\<close>)
  qed
qed

lemma quack_inv_start: "quack_start s \<Longrightarrow> quack_inv s"
  by (auto simp: quack_start_def quack_inv_def quack_init_def vsync_simps)

interpretation quack: inductive_invariant quack_start quack_step quack_inv
  by unfold_locales (blast intro: quack_inv_start quack_inv_step)+

section \<open>Properties\<close>

text \<open>C20: the stack refines an abstract stack in every interleaving. The head always starts a list of
  exactly the nodes on the stack, so \<^verbatim>\<open>quack_is_empty\<close> is true exactly when the stack is empty (the comment above the
  function says that it returns true if there is an element), and every access of a thread leaves
  the stack alone, pushes the node it was called with on top, or takes all nodes away; in that case the
  returned pointer starts a list of exactly these nodes, in stack order.\<close>

theorem quack_refines_stack:
  assumes "reach quack_start quack_step s" and "quack_step i s t"
  shows "chain (qk_next (qk_mem s)) (qk_head (qk_mem s)) (qk_stack s) \<and> (quack_is_empty (qk_mem s) \<longleftrightarrow> qk_stack s = []) \<and>
    (qk_stack t = qk_stack s \<or>
     (\<exists>n p. qk_pcs s i = QkPush n p \<and> qk_pcs t i = QkIdle \<and> qk_stack t = n # qk_stack s) \<or>
     (\<exists>h. qk_pcs t i = QkGot h (qk_stack s) \<and> qk_stack t = [] \<and> chain (qk_next (qk_mem t)) h (qk_stack s)))"
proof -
  have inv: "quack_inv s" using quack.reach_inv [OF assms(1)] .
  then have ch: "chain (qk_next (qk_mem s)) (qk_head (qk_mem s)) (qk_stack s)" by (simp add: quack_inv_def)
  then have "quack_is_empty (qk_mem s) \<longleftrightarrow> qk_stack s = []" using chain_NULL by (simp add: quack_is_empty_def vsync_simps)
  moreover from assms(2) have "qk_stack t = qk_stack s \<or>
     (\<exists>n p. qk_pcs s i = QkPush n p \<and> qk_pcs t i = QkIdle \<and> qk_stack t = n # qk_stack s) \<or>
     (\<exists>h. qk_pcs t i = QkGot h (qk_stack s) \<and> qk_stack t = [] \<and> chain (qk_next (qk_mem t)) h (qk_stack s))"
    by cases (use ch in \<open>auto simp: quack_popall_def vsync_simps\<close>)
  ultimately show ?thesis using ch by blast
qed

text \<open>The nodes that are in the hands of a thread: the one it pushes, those of the list it popped or reverses.\<close>

fun quack_holds :: "quack_pc \<Rightarrow> ptr set" where
  "quack_holds QkIdle = {}"
| "quack_holds (QkPush n p) = {n}"
| "quack_holds (QkGot h xs) = set xs"
| "quack_holds (QkRev xs k p) = set xs"

lemma quack_holds_own: "quack_inv s \<Longrightarrow> quack_holds (qk_pcs s i) \<subseteq> qk_own s i"
  using quack_inv_own(1) [of s i] by (cases "(qk_mem s, qk_own s i, qk_pcs s i)" rule: quack_pc_ok.cases) auto

text \<open>C32: the nodes a thread has taken off the stack are its own until it pushes them again: while it
  keeps the list, also during and after \<^verbatim>\<open>quack_reverse\<close>, the list stays intact whatever the other
  threads do. The reversal takes one iteration per node and returns the reversed list. No node is ever in
  two places: the nodes in the hands of a thread (the node it pushes, the list it popped or reverses) are
  not on the stack and not in the hands of another thread, and a list has no node twice.\<close>

theorem quack_private_lists:
  assumes "reach quack_start quack_step s"
  shows "(\<forall>i h xs. qk_pcs s i = QkGot h xs \<longrightarrow> chain (qk_next (qk_mem s)) h xs \<and> distinct xs) \<and>
    (\<forall>i xs k prev cur. qk_pcs s i = QkRev xs k (RV_load prev cur) \<or> (\<exists>nxt. qk_pcs s i = QkRev xs k (RV_store prev cur nxt)) \<longrightarrow>
       distinct xs \<and> k < length xs \<and> chain (qk_next (qk_mem s)) prev (rev (take k xs)) \<and> chain (qk_next (qk_mem s)) cur (drop k xs)) \<and>
    (\<forall>i. quack_holds (qk_pcs s i) \<inter> set (qk_stack s) = {} \<and> NULL \<notin> quack_holds (qk_pcs s i)) \<and>
    (\<forall>i j. i \<noteq> j \<longrightarrow> quack_holds (qk_pcs s i) \<inter> quack_holds (qk_pcs s j) = {}) \<and> distinct (qk_stack s)"
proof (intro conjI allI impI)
  have inv: "quack_inv s" using quack.reach_inv [OF assms] .
  note o = quack_inv_own [OF inv] and own = quack_holds_own [OF inv]
  fix i j h xs k prev cur
  show "chain (qk_next (qk_mem s)) h xs" "distinct xs" if "qk_pcs s i = QkGot h xs"
    using o(1) [of i] that by auto
  show "distinct xs" "k < length xs" "chain (qk_next (qk_mem s)) prev (rev (take k xs))" "chain (qk_next (qk_mem s)) cur (drop k xs)"
    if "qk_pcs s i = QkRev xs k (RV_load prev cur) \<or> (\<exists>nxt. qk_pcs s i = QkRev xs k (RV_store prev cur nxt))"
    using o(1) [of i] that by auto
  show "quack_holds (qk_pcs s i) \<inter> set (qk_stack s) = {}" "NULL \<notin> quack_holds (qk_pcs s i)" using own [of i] o(2,3) [of i] by auto
  show "quack_holds (qk_pcs s i) \<inter> quack_holds (qk_pcs s j) = {}" if "i \<noteq> j" using own [of i] own [of j] o(4) [OF that] by blast
  show "distinct (qk_stack s)" using inv by (simp add: quack_inv_def)
qed

section \<open>A concrete execution\<close>

text \<open>A move: the thread and what it does when it is between operations.\<close>

datatype quack_choice = ChPush ptr | ChPop | ChRev | ChGo

fun quack_move :: "quack_sys \<Rightarrow> tid \<times> quack_choice \<Rightarrow> quack_sys option" where
  "quack_move s (i, ch) = (case (qk_pcs s i, ch) of
     (QkIdle, ChPush n) \<Rightarrow> if n \<in> qk_own s i then Some (s\<lparr>qk_pcs := (qk_pcs s)(i := QkPush n PU_read)\<rparr>) else None
   | (QkIdle, ChPop) \<Rightarrow> (let (r, m) = quack_popall (qk_mem s) in Some (s\<lparr>qk_mem := m, qk_pcs := (qk_pcs s)(i := QkGot r (qk_stack s)),
       qk_own := (qk_own s)(i := qk_own s i \<union> set (qk_stack s)), qk_stack := []\<rparr>))
   | (QkPush n p, ChGo) \<Rightarrow> (case quack_push n p (qk_mem s) of
       (Goto p', m) \<Rightarrow> Some (s\<lparr>qk_mem := m, qk_pcs := (qk_pcs s)(i := QkPush n p')\<rparr>)
     | (Ret u, m) \<Rightarrow> Some (s\<lparr>qk_mem := m, qk_pcs := (qk_pcs s)(i := QkIdle),
         qk_own := (qk_own s)(i := qk_own s i - {n}), qk_stack := n # qk_stack s\<rparr>))
   | _ \<Rightarrow> None)"

lemma quack_move_step: "quack_move s x = Some t \<Longrightarrow> \<exists>i. quack_step i s t"
  by (cases x) (auto split: quack_pc.splits quack_choice.splits if_splits prod.splits ctl.splits
      intro: qk_call_push qk_push qk_pushed qk_popall)

definition quack_w0 :: quack_sys where
  "quack_w0 = \<lparr>qk_mem = quack_init (\<lambda>_. NULL), qk_pcs = \<lambda>_. QkIdle, qk_own = (\<lambda>_. {})(0 := {8}, 1 := {16}), qk_stack = []\<rparr>"

definition quack_w1 :: quack_sys where
  "quack_w1 = \<lparr>qk_mem = \<lparr>qk_head = 16, qk_next = (\<lambda>_. NULL)(16 := 8)\<rparr>, qk_pcs = \<lambda>_. QkIdle, qk_own = \<lambda>_. {}, qk_stack = [16, 8]\<rparr>"

definition quack_w2 :: quack_sys where
  "quack_w2 = \<lparr>qk_mem = \<lparr>qk_head = NULL, qk_next = (\<lambda>_. NULL)(16 := 8)\<rparr>, qk_pcs = (\<lambda>_. QkIdle)(2 := QkGot 16 [16, 8]),
     qk_own = (\<lambda>_. {})(2 := {16, 8}), qk_stack = []\<rparr>"

text \<open>Threads 0 and 1 push; the compare-and-swap of thread 1 fails once. Then thread 2 pops.\<close>

lemma quack_w1_reach: "reach quack_start quack_step quack_w1"
proof -
  have w: "play quack_move quack_w0 [(0, ChPush 8), (0, ChGo), (1, ChPush 16), (1, ChGo), (0, ChGo), (0, ChGo), (1, ChGo), (1, ChGo),
      (1, ChGo), (1, ChGo), (1, ChGo)] = Some quack_w1"
    by (simp add: quack_w0_def quack_w1_def quack_init_def vsync_simps fun_upd_idem)
  have "quack_start quack_w0" by (auto simp: quack_start_def quack_w0_def)
  with quack_move_step show ?thesis using w by (rule play_reach)
qed

lemma quack_w2_step: "quack_step 2 quack_w1 quack_w2"
  using qk_popall [of quack_w1 2 NULL "[]" 16 "\<lparr>qk_head = NULL, qk_next = (\<lambda>_. NULL)(16 := 8)\<rparr>"]
  by (simp add: quack_w1_def quack_w2_def quack_popall_def vsync_simps)

lemma quack_refines_stack_witness:
  "chain (qk_next (qk_mem quack_w1)) (qk_head (qk_mem quack_w1)) [16, 8] \<and> \<not> quack_is_empty (qk_mem quack_w1)"
  using quack_refines_stack [OF quack_w1_reach quack_w2_step] by (simp add: quack_w1_def)

lemma quack_private_lists_witness: "chain (qk_next (qk_mem quack_w2)) 16 [16, 8] \<and> quack_holds (qk_pcs quack_w2 2) \<inter> quack_holds (qk_pcs quack_w2 0) = {}"
  using quack_private_lists [OF reach_step [OF quack_w1_reach quack_w2_step]] by (simp add: quack_w2_def)

end
