(* ===== verification/Arraylock.thy ===== *)
theory Arraylock
  imports Vmath Vatomic
begin

text \<open>
  The array lock, \<^verbatim>\<open>spinlock/arraylock.h\<close>: a thread draws a slot of a circular array of flags and
  waits for its flag; the release passes the permission to the next slot. The counter of slots has
  8 bits. The lock is a queue of threads when the array has at least as many flags as there are threads
  and at most 256; a larger power of two is accepted by the initialisation and makes the lock stop.
\<close>

section \<open>Operations\<close>

record arraylock_t =
  al_tail :: u8
  al_flags :: "u8 list"
  al_len :: u32

fun arraylock_clear :: "nat list \<Rightarrow> u8 list \<Rightarrow> u8 list res" where
  "arraylock_clear [] flags = Inr flags"
| "arraylock_clear (i # is) flags = rbind (awrite flags i (vatomic_init 0 0)) (arraylock_clear is)"

definition arraylock_init :: "u8 list \<Rightarrow> u32 \<Rightarrow> arraylock_t res" where
  "arraylock_init flags len = rbind (vassert (len > 0)) (\<lambda>_. rbind (vassert (V_IS_POWER_OF_TWO len)) (\<lambda>_.
     rbind (awrite flags 0 (vatomic_init 0 1)) (\<lambda>flags. rbind (arraylock_clear [1..<unat len] flags) (\<lambda>flags.
       Inr \<lparr>al_tail = vatomic_init 0 0, al_flags = flags, al_len = len\<rparr>))))"

datatype al_acq_pc = AA_inc | AA_await u32

fun arraylock_acquire :: "(al_acq_pc, arraylock_t, u32 res) prog" where
  "arraylock_acquire AA_inc l =
     (let (tail, t) = vatomic_get_inc (al_tail l); slot = ucast tail mod al_len l in (Goto (AA_await slot), l\<lparr>al_tail := t\<rparr>))"
| "arraylock_acquire (AA_await slot) l =
     (case aread (al_flags l) (unat slot) of Inl e \<Rightarrow> Ret (Inl e)
      | Inr f \<Rightarrow> if vatomic_read f = 0 then Goto (AA_await slot) else Ret (Inr slot), l)"

datatype al_rel_pc = AL_clear | AL_set

fun arraylock_release :: "u32 \<Rightarrow> (al_rel_pc, arraylock_t, unit res) prog" where
  "arraylock_release slot AL_clear l =
     (case awrite (al_flags l) (unat slot) 0 of Inl e \<Rightarrow> (Ret (Inl e), l) | Inr fs \<Rightarrow> (Goto AL_set, l\<lparr>al_flags := fs\<rparr>))"
| "arraylock_release slot AL_set l =
     (let nxt = (slot + 1) mod al_len l
      in case awrite (al_flags l) (unat nxt) 1 of Inl e \<Rightarrow> (Ret (Inl e), l) | Inr fs \<Rightarrow> (Ret (Inr ()), l\<lparr>al_flags := fs\<rparr>))"

section \<open>Threads\<close>

datatype al_pc = AlIdle | AlAcq al_acq_pc | AlHeld u32 | AlRel u32 al_rel_pc | AlFault fault

record al_sys =
  al_lock :: arraylock_t
  al_pcs :: "tid \<Rightarrow> al_pc"

definition arraylock_start :: "u8 list \<Rightarrow> u32 \<Rightarrow> al_sys \<Rightarrow> bool" where
  "arraylock_start flags len s \<longleftrightarrow> arraylock_init flags len = Inr (al_lock s) \<and> (\<forall>i. al_pcs s i = AlIdle)"

inductive arraylock_step :: "nat \<Rightarrow> tid \<Rightarrow> al_sys \<Rightarrow> al_sys \<Rightarrow> bool" for N where
  al_call: "i < N \<Longrightarrow> al_pcs s i = AlIdle \<Longrightarrow> arraylock_step N i s (s\<lparr>al_pcs := (al_pcs s)(i := AlAcq AA_inc)\<rparr>)"
| al_acquire: "i < N \<Longrightarrow> al_pcs s i = AlAcq p \<Longrightarrow> arraylock_acquire p (al_lock s) = (r, l) \<Longrightarrow>
     arraylock_step N i s (s\<lparr>al_lock := l, al_pcs := (al_pcs s)(i :=
       case r of Goto p' \<Rightarrow> AlAcq p' | Ret (Inr slot) \<Rightarrow> AlHeld slot | Ret (Inl e) \<Rightarrow> AlFault e)\<rparr>)"
| al_unlock: "i < N \<Longrightarrow> al_pcs s i = AlHeld slot \<Longrightarrow> arraylock_step N i s (s\<lparr>al_pcs := (al_pcs s)(i := AlRel slot AL_clear)\<rparr>)"
| al_release: "i < N \<Longrightarrow> al_pcs s i = AlRel slot p \<Longrightarrow> arraylock_release slot p (al_lock s) = (r, l) \<Longrightarrow>
     arraylock_step N i s (s\<lparr>al_lock := l, al_pcs := (al_pcs s)(i :=
       case r of Goto p' \<Rightarrow> AlRel slot p' | Ret (Inr _) \<Rightarrow> AlIdle | Ret (Inl e) \<Rightarrow> AlFault e)\<rparr>)"

definition al_owns :: "al_sys \<Rightarrow> tid \<Rightarrow> bool" where
  "al_owns s i \<longleftrightarrow> (\<exists>slot. al_pcs s i = AlHeld slot \<or> (\<exists>p. al_pcs s i = AlRel slot p))"

section \<open>The queue of threads\<close>

text \<open>A thread has its place once it has drawn a slot, until its release has set the next flag.\<close>

fun al_queued :: "al_pc \<Rightarrow> bool" where
  "al_queued AlIdle = False"
| "al_queued (AlAcq AA_inc) = False"
| "al_queued _ = True"

text \<open>\<open>h\<close> releases are complete; the thread at place \<open>k\<close> of the queue has the slot \<open>h + k\<close>.\<close>

fun al_place :: "nat \<Rightarrow> nat \<Rightarrow> nat \<Rightarrow> al_pc \<Rightarrow> bool" where
  "al_place n h k (AlAcq (AA_await slot)) \<longleftrightarrow> unat slot = (h + k) mod n"
| "al_place n h k (AlHeld slot) \<longleftrightarrow> k = 0 \<and> unat slot = h mod n"
| "al_place n h k (AlRel slot p) \<longleftrightarrow> k = 0 \<and> unat slot = h mod n"
| "al_place n h k _ \<longleftrightarrow> False"

definition al_passing :: "(tid \<Rightarrow> al_pc) \<Rightarrow> tid list \<Rightarrow> bool" where
  "al_passing pcs q \<longleftrightarrow> q \<noteq> [] \<and> (\<exists>slot. pcs (hd q) = AlRel slot AL_set)"

definition al_flags_ok :: "nat \<Rightarrow> nat \<Rightarrow> bool \<Rightarrow> u8 list \<Rightarrow> bool" where
  "al_flags_ok n h passing fs \<longleftrightarrow> n \<le> length fs \<and> (\<forall>j<n. fs ! j = (if j = h mod n \<and> \<not> passing then 1 else 0))"

definition al_at :: "nat \<Rightarrow> u32 \<Rightarrow> nat \<Rightarrow> tid list \<Rightarrow> arraylock_t \<Rightarrow> (tid \<Rightarrow> al_pc) \<Rightarrow> bool" where
  "al_at N len h q l pcs \<longleftrightarrow> distinct q \<and> set q \<subseteq> {..<N} \<and> (\<forall>i. i \<in> set q \<longleftrightarrow> al_queued (pcs i)) \<and>
     al_len l = len \<and> al_tail l = of_nat (h + length q) \<and>
     (\<forall>k<length q. al_place (unat len) h k (pcs (q ! k))) \<and> al_flags_ok (unat len) h (al_passing pcs q) (al_flags l)"

definition al_rel :: "nat \<Rightarrow> u32 \<Rightarrow> al_sys \<Rightarrow> tid list \<Rightarrow> bool" where
  "al_rel N len s q \<longleftrightarrow> (\<exists>h. al_at N len h q (al_lock s) (al_pcs s))"

lemma al_atD:
  assumes "al_at N len h q l pcs"
  shows "distinct q" "set q \<subseteq> {..<N}" "i \<in> set q \<longleftrightarrow> al_queued (pcs i)" "al_len l = len" "al_tail l = of_nat (h + length q)"
    "k < length q \<Longrightarrow> al_place (unat len) h k (pcs (q ! k))" "al_flags_ok (unat len) h (al_passing pcs q) (al_flags l)" "length q \<le> N"
proof -
  show d: "distinct q" "set q \<subseteq> {..<N}" "i \<in> set q \<longleftrightarrow> al_queued (pcs i)" "al_len l = len" "al_tail l = of_nat (h + length q)"
    "k < length q \<Longrightarrow> al_place (unat len) h k (pcs (q ! k))" "al_flags_ok (unat len) h (al_passing pcs q) (al_flags l)"
    using assms unfolding al_at_def by blast+
  show "length q \<le> N" using d(1,2) by (metis card_lessThan card_mono distinct_card finite_lessThan)
qed

lemma al_slot:
  assumes "unat len dvd 256" "0 < len"
  shows "unat (ucast (of_nat m :: u8) mod len :: u32) = m mod unat len"
proof -
  have "unat (ucast (of_nat m :: u8) :: u32) = m mod 256" by (simp add: unsigned_ucast_eq take_bit_eq_mod unat_of_nat)
  then show ?thesis using assms(1) by (simp add: unat_mod mod_mod_cancel)
qed

lemma al_next:
  fixes slot len :: u32
  assumes "unat slot = h mod unat len" "0 < len" "unat len dvd 256"
  shows "unat ((slot + 1) mod len) = (h + 1) mod unat len"
proof -
  have l: "unat len \<le> 256" using assms(3) by (auto dest: dvd_imp_le)
  have "0 < unat len" using assms(2) by (simp add: unat_gt_0 word_neq_0_conv)
  then have "unat slot < 256" using assms(1) l by (metis mod_less_divisor order_less_le_trans)
  then have "unat (slot + 1) = unat slot + 1" by (simp add: unat_word_ariths)
  then show ?thesis using assms(1) by (simp add: unat_mod mod_simps)
qed

text \<open>A thread that keeps its place.\<close>

lemma al_at_keep:
  assumes at: "al_at N len h q l pcs" and qd: "al_queued p \<longleftrightarrow> al_queued (pcs i)"
    and pl: "\<And>k. k < length q \<Longrightarrow> q ! k = i \<Longrightarrow> al_place (unat len) h k p"
    and ps: "al_passing (pcs(i := p)) q \<longleftrightarrow> al_passing pcs q"
  shows "al_at N len h q l (pcs(i := p))"
proof -
  have "al_place (unat len) h k ((pcs(i := p)) (q ! k))" if "k < length q" for k
    using pl al_atD(6) [OF at] that by simp
  moreover have "j \<in> set q \<longleftrightarrow> al_queued ((pcs(i := p)) j)" for j using al_atD(3) [OF at] qd by simp
  ultimately show ?thesis using at ps unfolding al_at_def by auto
qed

lemma al_where:
  assumes at: "al_at N len h q l pcs" and qd: "al_queued (pcs i)"
  obtains k where "k < length q" "q ! k = i" "al_place (unat len) h k (pcs i)"
  using al_atD(3,6) [OF at] qd by (metis in_set_conv_nth)

lemma al_front:
  assumes at: "al_at N len h q l pcs" and pc: "pcs i = AlHeld slot \<or> pcs i = AlRel slot p"
  obtains r where "q = i # r" "unat slot = h mod unat len"
proof -
  have "al_queued (pcs i)" using pc by auto
  from al_where [OF at this] obtain k where k: "k < length q" "q ! k = i" "al_place (unat len) h k (pcs i)" by blast
  then have "k = 0" "unat slot = h mod unat len" using pc by auto
  then show thesis using k by (intro that [of "tl q"]) (cases q; simp)+
qed

lemma al_sim_draw:
  assumes at: "al_at N len h q l pcs" and len: "unat len dvd 256" "0 < len" and i: "i < N" and pc: "pcs i = AlAcq AA_inc"
    and r: "arraylock_acquire AA_inc l = (r, l')"
  shows "al_at N len h (q @ [i]) l' (pcs(i := case r of Goto p' \<Rightarrow> AlAcq p' | Ret (Inr slot) \<Rightarrow> AlHeld slot | Ret (Inl e) \<Rightarrow> AlFault e))
    \<and> qlock_spec i q (q @ [i])"
proof -
  let ?slot = "ucast (al_tail l) mod len :: u32"
  have e: "r = Goto (AA_await ?slot)" "l' = l\<lparr>al_tail := al_tail l + 1\<rparr>"
    using r al_atD(4) [OF at] by (auto simp: vsync_simps)
  have ni: "i \<notin> set q" using al_atD(3) [OF at, of i] pc by simp
  have slot: "unat ?slot = (h + length q) mod unat len" using al_slot [OF len, of "h + length q"] al_atD(5) [OF at] by simp
  have ne: "q ! k \<noteq> i" if "k < length q" for k using ni that nth_mem by metis
  have pl: "al_place (unat len) h k ((pcs(i := AlAcq (AA_await ?slot))) ((q @ [i]) ! k))" if "k < length (q @ [i])" for k
    using that al_atD(6) [OF at, of k] slot ne [of k] by (cases "k < length q") (auto simp: nth_append less_Suc_eq)
  have ps: "al_passing (pcs(i := AlAcq (AA_await ?slot))) (q @ [i]) \<longleftrightarrow> al_passing pcs q"
    using ni by (cases q) (auto simp: al_passing_def)
  have "al_at N len h (q @ [i]) l' (pcs(i := AlAcq (AA_await ?slot)))"
    unfolding al_at_def ps using al_atD [OF at] i ni pl by (auto simp: e)
  then show ?thesis using ni by (simp add: e q_enter)
qed

lemma al_sim_await:
  assumes at: "al_at N len h q l pcs" and N: "N \<le> unat len" and pc: "pcs i = AlAcq (AA_await slot)"
    and r: "arraylock_acquire (AA_await slot) l = (r, l')"
  shows "al_at N len h q l' (pcs(i := case r of Goto p' \<Rightarrow> AlAcq p' | Ret (Inr slot) \<Rightarrow> AlHeld slot | Ret (Inl e) \<Rightarrow> AlFault e))"
proof -
  have "al_queued (pcs i)" using pc by simp
  from al_where [OF at this] obtain k where k: "k < length q" "q ! k = i" "unat slot = (h + k) mod unat len" using pc by auto
  note fl = al_atD(7) [OF at, unfolded al_flags_ok_def]
  have kn: "k < unat len" using k(1) al_atD(8) [OF at] N by simp
  then have "unat slot < unat len" using k(3) by simp
  then have b: "unat slot < unat len" "unat slot < length (al_flags l)" using fl by linarith+
  show ?thesis
  proof (cases "al_flags l ! unat slot = 0")
    case True
    then have "r = Goto (AA_await slot)" "l' = l" using r b by (auto simp: vsync_simps)
    then have "pcs(i := case r of Goto p' \<Rightarrow> AlAcq p' | Ret (Inr slot) \<Rightarrow> AlHeld slot | Ret (Inl e) \<Rightarrow> AlFault e) = pcs" using pc by auto
    then show ?thesis using at \<open>l' = l\<close> by simp
  next
    case False
    then have e: "r = Ret (Inr slot)" "l' = l" using r b by (auto simp: vsync_simps)
    have "unat slot = h mod unat len" "\<not> al_passing pcs q" using False fl b by (auto split: if_splits)
    then have "k = 0" using kn k(3) slot_distinct [of h "h + k" "unat len"] by (cases "k = 0") auto
    then have "al_place (unat len) h j (AlHeld slot)" if "j < length q" "q ! j = i" for j
      using that k al_atD(1) [OF at] \<open>unat slot = h mod unat len\<close> nth_eq_iff_index_eq by fastforce
    then have "al_at N len h q l (pcs(i := AlHeld slot))"
      by (intro al_at_keep [OF at]) (use pc in \<open>auto simp: al_passing_def\<close>)
    then show ?thesis by (simp add: e)
  qed
qed

lemma al_sim_clear:
  assumes at: "al_at N len h q l pcs" and len: "0 < len" and pc: "pcs i = AlRel slot AL_clear"
    and r: "arraylock_release slot AL_clear l = (r, l')"
  shows "al_at N len h q l' (pcs(i := case r of Goto p' \<Rightarrow> AlRel slot p' | Ret (Inr _) \<Rightarrow> AlIdle | Ret (Inl e) \<Rightarrow> AlFault e))"
proof -
  obtain rest where q: "q = i # rest" and slot: "unat slot = h mod unat len" using al_front [OF at, of i slot AL_clear] pc by blast
  note fl = al_atD(7) [OF at, unfolded al_flags_ok_def]
  have "0 < unat len" using len by (simp add: unat_gt_0 word_neq_0_conv)
  then have "unat slot < unat len" using slot by simp
  then have b: "unat slot < unat len" "unat slot < length (al_flags l)" using fl by linarith+
  then have e: "r = Goto AL_set" "l' = l\<lparr>al_flags := (al_flags l)[unat slot := 0]\<rparr>" using r by auto
  have np: "\<not> al_passing pcs q" using q pc by (simp add: al_passing_def)
  have "al_flags_ok (unat len) h True ((al_flags l)[unat slot := 0])"
    using fl slot b by (auto simp: al_flags_ok_def nth_list_update)
  moreover have "al_place (unat len) h k ((pcs(i := AlRel slot AL_set)) (q ! k))" if "k < length q" for k
    using al_atD(6) [OF at that] al_atD(1) [OF at] slot pc that q by (cases k) auto
  moreover have "j \<in> set q \<longleftrightarrow> al_queued ((pcs(i := AlRel slot AL_set)) j)" for j using al_atD(3) [OF at] pc by simp
  moreover have "al_passing (pcs(i := AlRel slot AL_set)) q" using q by (simp add: al_passing_def)
  ultimately show ?thesis using al_atD(1,2,4,5) [OF at] by (simp add: al_at_def e)
qed

lemma al_sim_set:
  assumes at: "al_at N len h q l pcs" and len: "unat len dvd 256" "0 < len" and N: "N \<le> unat len" and pc: "pcs i = AlRel slot AL_set"
    and r: "arraylock_release slot AL_set l = (r, l')"
  shows "\<exists>rest. q = i # rest \<and>
    al_at N len (h + 1) rest l' (pcs(i := case r of Goto p' \<Rightarrow> AlRel slot p' | Ret (Inr _) \<Rightarrow> AlIdle | Ret (Inl e) \<Rightarrow> AlFault e))"
proof -
  obtain rest where q: "q = i # rest" and slot: "unat slot = h mod unat len" using al_front [OF at, of i slot AL_set] pc by blast
  note fl = al_atD(7) [OF at, unfolded al_flags_ok_def]
  have n0: "0 < unat len" using len by (simp add: unat_gt_0 word_neq_0_conv)
  have nx: "unat ((slot + 1) mod len) = (h + 1) mod unat len" using al_next [OF slot len(2,1)] .
  have b: "(h + 1) mod unat len < length (al_flags l)" using fl n0 by (meson mod_less_divisor order_less_le_trans)
  have e: "r = Ret (Inr ())" "l' = l\<lparr>al_flags := (al_flags l)[(h + 1) mod unat len := 1]\<rparr>"
    using r b nx al_atD(4) [OF at] by auto
  have "al_passing pcs q" using q pc by (simp add: al_passing_def)
  then have "al_flags_ok (unat len) (h + 1) False ((al_flags l)[(h + 1) mod unat len := 1])"
    using fl b by (auto simp: al_flags_ok_def nth_list_update)
  moreover have ni: "i \<notin> set rest" using al_atD(1) [OF at] q by simp
  have pl: "al_place (unat len) (h + 1) k ((pcs(i := AlIdle)) (rest ! k))" if "k < length rest" for k
  proof -
    have "rest ! k \<noteq> i" using ni that nth_mem by metis
    moreover have "al_place (unat len) h (Suc k) (pcs (rest ! k))" using al_atD(6) [OF at, of "Suc k"] that q by simp
    ultimately show ?thesis by (cases "(unat len, h, Suc k, pcs (rest ! k))" rule: al_place.cases) auto
  qed
  moreover have "\<not> al_passing (pcs(i := AlIdle)) rest"
  proof
    assume ps: "al_passing (pcs(i := AlIdle)) rest"
    then have "0 < length rest" by (simp add: al_passing_def)
    moreover from this have "hd rest \<noteq> i" "hd rest = q ! 1" using ni q by (auto simp: hd_conv_nth)
    ultimately show False using ps al_atD(6) [OF at, of 1] q by (auto simp: al_passing_def)
  qed
  moreover have "j \<in> set rest \<longleftrightarrow> al_queued ((pcs(i := AlIdle)) j)" for j using al_atD(3) [OF at, of j] ni q by auto
  ultimately have "al_at N len (h + 1) rest l' (pcs(i := AlIdle))"
    using al_atD(1,2,4,5) [OF at] q by (auto simp: al_at_def e algebra_simps)
  then show ?thesis using q by (simp add: e)
qed

lemma al_sim_step:
  assumes rel: "al_rel N len s q" and st: "arraylock_step N i s t" and len: "unat len dvd 256" "0 < len" and N: "N \<le> unat len"
  shows "\<exists>q'. al_rel N len t q' \<and> (q' = q \<or> qlock_spec i q q')"
proof -
  obtain h where at: "al_at N len h q (al_lock s) (al_pcs s)" using rel by (auto simp: al_rel_def)
  from st show ?thesis
  proof cases
    case al_call
    have "al_at N len h q (al_lock s) ((al_pcs s)(i := AlAcq AA_inc))"
      by (rule al_at_keep [OF at]) (use al_call al_atD(3) [OF at, of i] nth_mem in \<open>auto simp: al_passing_def\<close>)
    then show ?thesis using al_call by (auto simp: al_rel_def)
  next
    case (al_acquire p r l)
    show ?thesis
    proof (cases p)
      case AA_inc
      then show ?thesis using al_sim_draw [OF at len, of i r l] al_acquire by (auto simp: al_rel_def)
    next
      case (AA_await slot)
      then show ?thesis using al_sim_await [OF at N, of i slot r l] al_acquire by (auto simp: al_rel_def)
    qed
  next
    case (al_unlock slot)
    obtain r where q: "q = i # r" "unat slot = h mod unat len" using al_front [OF at] al_unlock by blast
    have "al_at N len h q (al_lock s) ((al_pcs s)(i := AlRel slot AL_clear))"
    proof (rule al_at_keep [OF at])
      show "al_place (unat len) h k (AlRel slot AL_clear)" if "k < length q" "q ! k = i" for k
        using that q al_atD(1) [OF at] by (cases k) (auto simp: nth_mem)
    qed (use al_unlock q in \<open>auto simp: al_passing_def\<close>)
    then show ?thesis using al_unlock by (auto simp: al_rel_def)
  next
    case (al_release slot p r l)
    show ?thesis
    proof (cases p)
      case AL_clear
      then show ?thesis using al_sim_clear [OF at len(2), of i slot r l] al_release by (auto simp: al_rel_def)
    next
      case AL_set
      then show ?thesis using al_sim_set [OF at len N, of i slot r l] al_release by (fastforce simp: al_rel_def intro: q_leave)
    qed
  qed
qed

lemma arraylock_clear_ok:
  assumes "arraylock_clear is fs = Inr fs'"
  shows "length fs' = length fs" "\<forall>i\<in>set is. i < length fs" "fs' ! j = (if j \<in> set is then 0 else fs ! j)"
proof -
  have "length fs' = length fs \<and> (\<forall>i\<in>set is. i < length fs) \<and> fs' ! j = (if j \<in> set is then 0 else fs ! j)" using assms
  proof (induction "is" arbitrary: fs)
    case (Cons a "is")
    then have "a < length fs" "arraylock_clear is (fs[a := 0]) = Inr fs'" by (auto simp: awrite_Inr_iff rbind_Inr_iff vsync_simps)
    with Cons.IH [OF this(2)] show ?case by (auto simp: nth_list_update)
  qed simp
  then show "length fs' = length fs" "\<forall>i\<in>set is. i < length fs" "fs' ! j = (if j \<in> set is then 0 else fs ! j)" by blast+
qed

lemma arraylock_clear_total: "\<forall>i\<in>set is. i < length fs \<Longrightarrow> \<exists>fs'. arraylock_clear is fs = Inr fs'"
  by (induction "is" arbitrary: fs) (auto simp: vsync_simps)

lemma arraylock_init_ok:
  assumes "arraylock_init flags len = Inr l"
  shows "0 < len" "V_IS_POWER_OF_TWO len" "al_len l = len" "al_tail l = 0" "al_flags_ok (unat len) 0 False (al_flags l)"
proof -
  obtain fs where fs: "0 < len" "V_IS_POWER_OF_TWO len" "0 < length flags" "arraylock_clear [1..<unat len] (flags[0 := 1]) = Inr fs"
    "l = \<lparr>al_tail = 0, al_flags = fs, al_len = len\<rparr>"
    using assms by (auto simp: arraylock_init_def rbind_Inr_iff awrite_Inr_iff vsync_simps)
  then show "0 < len" "V_IS_POWER_OF_TWO len" "al_len l = len" "al_tail l = 0" by simp_all
  note c = arraylock_clear_ok [OF fs(4)]
  have "unat len \<le> length fs"
  proof (cases "unat len \<le> 1")
    case True
    moreover have "length fs = length flags" using c(1) by simp
    ultimately show ?thesis using fs(3) by linarith
  next
    case False
    then have "unat len - 1 \<in> set [1..<unat len]" by auto
    then have "unat len - 1 < length (flags[0 := 1])" using c(2) by blast
    then show ?thesis using c(1) by simp
  qed
  moreover have "fs ! j = (if j = 0 then 1 else 0)" if "j < unat len" for j using c(3) [of j] that fs(3) by auto
  ultimately show "al_flags_ok (unat len) 0 False (al_flags l)" by (simp add: al_flags_ok_def fs(5))
qed

lemma pow2_dvd_256:
  assumes "V_IS_POWER_OF_TWO (len :: u32)" "unat len \<le> 256"
  shows "unat len dvd 256"
proof -
  obtain k where k: "k < 32" "len = 2 ^ k" using assms(1) by (auto simp: V_IS_POWER_OF_TWO_iff)
  have "unat (of_nat (2 ^ k) :: u32) = 2 ^ k"
    by (rule unat_of_nat_small) (use k power_strict_increasing [of k 32 "2 :: nat"] in simp)
  then have u: "unat len = 2 ^ k" using k by simp
  then have "2 ^ k \<le> (2 :: nat) ^ 8" using assms(2) by simp
  then have "k \<le> 8" by (rule power_le_imp_le_exp [rotated]) simp
  then have "(2 :: nat) ^ k dvd 2 ^ 8" by (rule le_imp_power_dvd)
  then show ?thesis using u by simp
qed

definition al_sizes :: "nat \<Rightarrow> u32 \<Rightarrow> bool" where
  "al_sizes N len \<longleftrightarrow> unat len dvd 256 \<and> 0 < len \<and> N \<le> unat len"

lemma al_no_fault: "al_at N len h q l pcs \<Longrightarrow> pcs i \<noteq> AlFault e"
  using al_where [of N len h q l pcs i] by force

text \<open>The flag a waiting thread reads is set exactly at the front of the queue.\<close>

lemma al_waiter_flag:
  assumes at: "al_at N len h q l pcs" and sz: "0 < len" "N \<le> unat len" and k: "k < length q" and slot: "unat slot = (h + k) mod unat len"
    and pc: "pcs (q ! k) = AlAcq (AA_await slot)"
  shows "al_flags l ! unat slot = (if k = 0 then 1 else 0)" "unat slot < length (al_flags l)"
proof -
  have kn: "k < unat len" using k al_atD(8) [OF at] sz(2) by simp
  then have b: "unat slot < unat len" using slot by simp
  note fl = al_atD(7) [OF at, unfolded al_flags_ok_def]
  from fl b show "unat slot < length (al_flags l)" by linarith
  have "(h + k) mod unat len = h mod unat len \<longleftrightarrow> k = 0" using slot_distinct [of h "h + k" "unat len"] kn by (cases k) auto
  moreover have "k = 0 \<Longrightarrow> \<not> al_passing pcs q" using pc k by (auto simp: al_passing_def hd_conv_nth)
  ultimately show "al_flags l ! unat slot = (if k = 0 then 1 else 0)" using fl b slot by auto
qed

interpretation al: fifo_lock "\<lambda>s. arraylock_start flags len s \<and> al_sizes N len" "arraylock_step N"
  "\<lambda>s q. al_sizes N len \<and> al_rel N len s q" al_owns "\<lambda>s i. al_queued (al_pcs s i)" for N flags len
proof unfold_locales
  show "\<exists>q. q = [] \<and> al_sizes N len \<and> al_rel N len s q" if "arraylock_start flags len s \<and> al_sizes N len" for s
    using that arraylock_init_ok [of flags len "al_lock s"]
    by (auto simp: arraylock_start_def al_rel_def al_at_def al_passing_def intro!: exI [of _ 0])
  show "\<exists>q'. (al_sizes N len \<and> al_rel N len t q') \<and> (q' = q \<or> qlock_spec i q q')"
    if "al_sizes N len \<and> al_rel N len s q" "arraylock_step N i s t" for s q i t
    using that al_sim_step by (auto simp: al_sizes_def)
  show "q \<noteq> [] \<and> hd q = i" if rel: "al_sizes N len \<and> al_rel N len s q" and own: "al_owns s i" for s q i
  proof -
    obtain h where "al_at N len h q (al_lock s) (al_pcs s)" using rel by (auto simp: al_rel_def)
    moreover obtain slot p where "al_pcs s i = AlHeld slot \<or> al_pcs s i = AlRel slot p" using own by (auto simp: al_owns_def)
    ultimately show ?thesis using al_front by (metis list.sel(1) list.distinct(1))
  qed
  show "distinct q \<and> set q = {i. al_queued (al_pcs s i)}" if "al_sizes N len \<and> al_rel N len s q" for s q
    using that al_atD(1,3) by (auto simp: al_rel_def)
  show "al_queued (al_pcs t j) = al_queued (al_pcs s j) \<and> al_owns t j = al_owns s j"
    if "arraylock_step N i s t" "j \<noteq> i" for s t i j
    using that by (auto simp: al_owns_def elim!: arraylock_step.cases)
  show "al_owns t i" if rel: "al_sizes N len \<and> al_rel N len t q'" and st: "arraylock_step N i s t"
    and o: "al_owns s i" "al_queued (al_pcs t i)" for s t q' i
  proof -
    have nf: "al_pcs t i \<noteq> AlFault e" for e using rel al_no_fault by (auto simp: al_rel_def)
    from st show ?thesis
    proof cases
      case (al_release slot p r l)
      with nf o(2) show ?thesis by (auto simp: al_owns_def split: ctl.splits sum.splits)
    qed (use o in \<open>auto simp: al_owns_def\<close>)
  qed
  show "al_owns s i" if st: "arraylock_step N i s t" and o: "al_queued (al_pcs s i)" "\<not> al_queued (al_pcs t i)" for s t i
    using st
  proof cases
    case (al_acquire p r l)
    with o show ?thesis by (cases p) (auto split: ctl.splits sum.splits if_splits)
  qed (use o in \<open>auto simp: al_owns_def\<close>)
qed

section \<open>Properties\<close>

text \<open>C11: with at most 256 flags and no more threads than flags, the array lock is a first-in-first-out
  lock in every interleaving, across the wrap-around of its 8-bit counter. Over every execution, the threads
  entered the lock exactly in the order in which they drew their slots, and those that drew a slot and have
  not entered are waiting for its flag. When nobody owns the lock, the next read of the first waiting
  thread finds its flag set and gives it the lock; every other waiting thread's next read finds its flag
  cleared. No access is out of the array.\<close>

theorem arraylock_fifo:
  assumes "lock_hist (arraylock_start flags len) (arraylock_step N) (\<lambda>s i. al_queued (al_pcs s i)) al_owns s joined entered"
    and "unat len \<le> 256" "N \<le> unat len"
  shows "\<exists>waiting. fifo_order (\<lambda>i. al_queued (al_pcs s i)) (al_owns s) joined entered waiting \<and>
    (\<forall>i \<in> set waiting. \<exists>slot. al_pcs s i = AlAcq (AA_await slot) \<and> arraylock_acquire (AA_await slot) (al_lock s) =
       (if (\<nexists>j. al_owns s j) \<and> i = hd waiting then Ret (Inr slot) else Goto (AA_await slot), al_lock s)) \<and>
    (\<forall>i e. al_pcs s i \<noteq> AlFault e)"
proof -
  have "\<exists>s. arraylock_start flags len s" using assms(1) by (induction rule: lock_hist.induct) blast+
  then have "V_IS_POWER_OF_TWO len" "0 < len" using arraylock_init_ok(1,2) by (auto simp: arraylock_start_def)
  then have sz: "al_sizes N len" using pow2_dvd_256 assms(2,3) by (simp add: al_sizes_def)
  then have h: "lock_hist (\<lambda>s. arraylock_start flags len s \<and> al_sizes N len) (arraylock_step N) (\<lambda>s i. al_queued (al_pcs s i)) al_owns
      s joined entered" using assms(1) by simp
  obtain pre waiting h where w: "fifo_order (\<lambda>i. al_queued (al_pcs s i)) (al_owns s) joined entered waiting"
    and at: "al_at N len h (pre @ waiting) (al_lock s) (al_pcs s)" and pre: "length pre = held (al_owns s)" "\<forall>i\<in>set pre. al_owns s i"
    using al.hist_fifo [OF h] by (auto simp: al_rel_def)
  have "\<exists>slot. al_pcs s i = AlAcq (AA_await slot) \<and> arraylock_acquire (AA_await slot) (al_lock s) =
      (if (\<nexists>j. al_owns s j) \<and> i = hd waiting then Ret (Inr slot) else Goto (AA_await slot), al_lock s)"
    if i: "i \<in> set waiting" for i
  proof -
    have nq: "al_queued (al_pcs s i)" "\<not> al_owns s i" using w i by (auto simp: fifo_order_def)
    obtain k where k: "k < length (pre @ waiting)" "(pre @ waiting) ! k = i" "al_place (unat len) h k (al_pcs s i)"
      using al_where [OF at nq(1)] by blast
    with nq(2) obtain slot where pc: "al_pcs s i = AlAcq (AA_await slot)" and slot: "unat slot = (h + k) mod unat len"
      by (cases "(unat len, h, k, al_pcs s i)" rule: al_place.cases) (auto simp: al_owns_def)
    have "al_flags (al_lock s) ! unat slot = (if k = 0 then 1 else 0)" "unat slot < length (al_flags (al_lock s))"
      using al_waiter_flag [OF at _ _ k(1) slot] sz k(2) pc by (auto simp: al_sizes_def)
    moreover have "k = 0 \<longleftrightarrow> (\<nexists>j. al_owns s j) \<and> i = hd waiting"
      using waiting_place [OF al_atD(1) [OF at] pre i k(1,2)] .
    ultimately show ?thesis using pc by (auto simp: vsync_simps)
  qed
  with w al_no_fault [OF at] show ?thesis by blast
qed

definition no_flags :: "u8 list" where "no_flags = replicate 512 0"

lemma no_flags_nth [simp]: "length no_flags = 512" "i < 512 \<Longrightarrow> no_flags ! i = 0"
  unfolding no_flags_def by (simp_all only: length_replicate nth_replicate)

text \<open>One thread that uses a lock with 512 flags, between two operations: \<open>k\<close> acquisitions are done.\<close>

definition al_cycle :: "nat \<Rightarrow> al_sys" where
  "al_cycle k = \<lparr>al_lock = \<lparr>al_tail = of_nat k, al_flags = no_flags[k := 1], al_len = 512\<rparr>, al_pcs = \<lambda>_. AlIdle\<rparr>"

lemma al_one_cycle:
  assumes r: "reach I (arraylock_step 1) (al_cycle k)" and k: "k < 256"
  shows "reach I (arraylock_step 1) (al_cycle (k + 1))"
proof -
  let ?l = "al_lock (al_cycle k)" and ?slot = "of_nat k :: u32"
  define st where "st l p = \<lparr>al_lock = l, al_pcs = (\<lambda>_. AlIdle)(0 := p)\<rparr>" for l p
  have slot: "ucast (of_nat k :: u8) mod 512 = ?slot" "unat ?slot = k" "unat ((?slot + 1) mod 512) = k + 1"
  proof -
    show u: "unat ?slot = k" using k by (simp add: unat_of_nat_small)
    have "unat (ucast (of_nat k :: u8) mod 512 :: u32) = k" using k by (simp add: unat_mod unsigned_ucast_eq take_bit_eq_mod unat_of_nat)
    then show "ucast (of_nat k :: u8) mod 512 = ?slot" using u by (metis word_unat_eq_iff)
    show "unat ((?slot + 1) mod 512) = k + 1" using k u by (simp add: unat_mod unat_word_ariths)
  qed
  have rep: "no_flags[k := 0] = no_flags" using k by (simp add: list_update_same_conv)
  let ?l1 = "?l\<lparr>al_tail := of_nat k + 1\<rparr>"
  let ?l2 = "?l1\<lparr>al_flags := no_flags\<rparr>"
  have "reach I (arraylock_step 1) (st ?l AlIdle)" using r by (simp add: al_cycle_def st_def fun_upd_idem)
  moreover have "arraylock_step 1 0 (st ?l AlIdle) (st ?l (AlAcq AA_inc))"
    using al_call [of 0 1 "st ?l AlIdle"] by (simp add: st_def)
  ultimately have "reach I (arraylock_step 1) (st ?l (AlAcq AA_inc))" by (rule reach_step)
  moreover have "arraylock_step 1 0 (st ?l (AlAcq AA_inc)) (st ?l1 (AlAcq (AA_await ?slot)))"
    using al_acquire [of 0 1 "st ?l (AlAcq AA_inc)" AA_inc "Goto (AA_await ?slot)" ?l1] slot
    by (simp add: st_def vsync_simps al_cycle_def)
  ultimately have "reach I (arraylock_step 1) (st ?l1 (AlAcq (AA_await ?slot)))" by (rule reach_step)
  moreover have "arraylock_step 1 0 (st ?l1 (AlAcq (AA_await ?slot))) (st ?l1 (AlHeld ?slot))"
    using al_acquire [of 0 1 "st ?l1 (AlAcq (AA_await ?slot))" "AA_await ?slot" "Ret (Inr ?slot)" ?l1] slot k
    by (simp add: st_def vsync_simps al_cycle_def)
  ultimately have "reach I (arraylock_step 1) (st ?l1 (AlHeld ?slot))" by (rule reach_step)
  moreover have "arraylock_step 1 0 (st ?l1 (AlHeld ?slot)) (st ?l1 (AlRel ?slot AL_clear))"
    using al_unlock [of 0 1 "st ?l1 (AlHeld ?slot)"] by (simp add: st_def)
  ultimately have "reach I (arraylock_step 1) (st ?l1 (AlRel ?slot AL_clear))" by (rule reach_step)
  moreover have "arraylock_step 1 0 (st ?l1 (AlRel ?slot AL_clear)) (st ?l2 (AlRel ?slot AL_set))"
    using al_release [of 0 1 "st ?l1 (AlRel ?slot AL_clear)" ?slot AL_clear "Goto AL_set" ?l2] slot k rep
    by (simp add: st_def al_cycle_def)
  ultimately have "reach I (arraylock_step 1) (st ?l2 (AlRel ?slot AL_set))" by (rule reach_step)
  moreover have "arraylock_step 1 0 (st ?l2 (AlRel ?slot AL_set)) (al_cycle (k + 1))"
    using al_release [of 0 1 "st ?l2 (AlRel ?slot AL_set)" ?slot AL_set "Ret (Inr ())" "al_lock (al_cycle (k + 1))"] slot k
    by (simp add: st_def al_cycle_def fun_upd_idem add.commute)
  ultimately have "reach I (arraylock_step 1) (al_cycle (k + 1))" by (rule reach_step)
  then show ?thesis .
qed

text \<open>C37: the initialisation accepts every power of two as the number of flags, but the counter of slots
  has 8 bits: with 512 flags a single thread gets stuck in its 257th acquisition. It waits for flag 0
  while the permission is in flag 256, nobody owns the lock, and no step of the system changes the state
  any more.\<close>

theorem arraylock_512_stuck:
  "\<exists>s. reach (arraylock_start no_flags 512) (arraylock_step 1) s \<and> al_pcs s 0 = AlAcq (AA_await 0) \<and>
    (\<nexists>i. al_owns s i) \<and> (\<nexists>i t. arraylock_step 1 i s t \<and> t \<noteq> s)"
proof -
  have start: "arraylock_start no_flags 512 (al_cycle 0)"
  proof -
    let ?fs = "no_flags[0 := 1]"
    have "\<forall>i\<in>set [1..<512]. i < length ?fs" by (simp del: upt_rec_numeral)
    then obtain fs where fs: "arraylock_clear [1..<512] ?fs = Inr fs" using arraylock_clear_total by blast
    have "fs = ?fs"
    proof (rule nth_equalityI)
      show "fs ! i = ?fs ! i" if "i < length fs" for i
        using arraylock_clear_ok(1) [OF fs] arraylock_clear_ok(3) [OF fs, of i] that by (cases i) (auto simp del: upt_rec_numeral)
    qed (use arraylock_clear_ok(1) [OF fs] in \<open>simp del: upt_rec_numeral\<close>)
    moreover have "V_IS_POWER_OF_TWO (512 :: u32)" by (auto simp: V_IS_POWER_OF_TWO_iff intro!: exI [of _ 9])
    ultimately show ?thesis using fs by (simp add: arraylock_start_def arraylock_init_def al_cycle_def vsync_simps del: upt_rec_numeral)
  qed
  have "reach (arraylock_start no_flags 512) (arraylock_step 1) (al_cycle k)" if "k \<le> 256" for k
    using that
  proof (induction k)
    case 0
    show ?case using start by (rule reach_init)
  next
    case (Suc k)
    then show ?case using al_one_cycle by simp
  qed
  then have r: "reach (arraylock_start no_flags 512) (arraylock_step 1) (al_cycle 256)" by simp
  let ?s1 = "(al_cycle 256)\<lparr>al_pcs := (\<lambda>_. AlIdle)(0 := AlAcq AA_inc)\<rparr>"
  let ?s = "(al_cycle 256)\<lparr>al_lock := (al_lock (al_cycle 256))\<lparr>al_tail := 1\<rparr>, al_pcs := (\<lambda>_. AlIdle)(0 := AlAcq (AA_await 0))\<rparr>"
  have "arraylock_step 1 0 (al_cycle 256) ?s1" using al_call [of 0 1 "al_cycle 256"] by (simp add: al_cycle_def)
  moreover have "arraylock_step 1 0 ?s1 ?s"
    using al_acquire [of 0 1 ?s1 AA_inc "Goto (AA_await 0)" "(al_lock (al_cycle 256))\<lparr>al_tail := 1\<rparr>"]
    by (simp add: al_cycle_def vsync_simps)
  ultimately have "reach (arraylock_start no_flags 512) (arraylock_step 1) ?s" using r by (meson reach_step)
  moreover have "t = ?s" if "arraylock_step 1 i ?s t" for i t
    using that by cases (auto simp: al_cycle_def vsync_simps fun_upd_idem)
  ultimately show ?thesis by (intro exI [of _ ?s]) (auto simp: al_owns_def al_cycle_def)
qed

definition al_w :: "arraylock_t \<Rightarrow> al_pc \<Rightarrow> al_sys" where
  "al_w l p = \<lparr>al_lock = l, al_pcs = (\<lambda>_. AlIdle)(0 := p)\<rparr>"

lemma arraylock_fifo_witness:
  "fifo_order (\<lambda>i. al_queued (al_pcs (al_w \<lparr>al_tail = 1, al_flags = [1, 0], al_len = 2\<rparr> (AlAcq (AA_await 0))) i))
     (al_owns (al_w \<lparr>al_tail = 1, al_flags = [1, 0], al_len = 2\<rparr> (AlAcq (AA_await 0)))) [0] [] [0] \<and>
   fst (arraylock_acquire (AA_await 0) \<lparr>al_tail = 1, al_flags = [1, 0], al_len = 2\<rparr>) = Ret (Inr 0)"
proof -
  let ?s = "al_w \<lparr>al_tail = 1, al_flags = [1, 0], al_len = 2\<rparr> (AlAcq (AA_await 0))"
  let ?l = "\<lparr>al_tail = 0, al_flags = [1, 0], al_len = 2\<rparr>" and ?l1 = "\<lparr>al_tail = 1, al_flags = [1, 0], al_len = 2\<rparr>"
  let ?H = "lock_hist (arraylock_start [0, 0] 2) (arraylock_step 2) (\<lambda>s i. al_queued (al_pcs s i)) al_owns"
  have "V_IS_POWER_OF_TWO (2 :: u32)" by (auto simp: V_IS_POWER_OF_TWO_iff intro!: exI [of _ 1])
  then have "arraylock_start [0, 0] 2 (al_w ?l AlIdle)"
    by (simp add: arraylock_start_def arraylock_init_def al_w_def vsync_simps awrite_def upt_rec [of "Suc 0" 2])
  then have "?H (al_w ?l AlIdle) [] []" by (rule lh_init)
  moreover have "arraylock_step 2 0 (al_w ?l AlIdle) (al_w ?l (AlAcq AA_inc))"
    using al_call [of 0 2 "al_w ?l AlIdle"] by (simp add: al_w_def)
  ultimately have "?H (al_w ?l (AlAcq AA_inc)) [] []" by (auto dest: lh_step simp: turned_def al_w_def al_owns_def)
  moreover have "arraylock_step 2 0 (al_w ?l (AlAcq AA_inc)) (al_w ?l1 (AlAcq (AA_await 0)))"
    using al_acquire [of 0 2 "al_w ?l (AlAcq AA_inc)" AA_inc] by (simp add: al_w_def vsync_simps)
  ultimately have "?H (al_w ?l1 (AlAcq (AA_await 0))) [0] []" by (auto dest: lh_step simp: turned_def al_w_def al_owns_def)
  from arraylock_fifo [OF this] obtain waiting where w: "fifo_order (\<lambda>i. al_queued (al_pcs ?s i)) (al_owns ?s) [0] [] waiting"
    "\<forall>i \<in> set waiting. \<exists>slot. al_pcs ?s i = AlAcq (AA_await slot) \<and> arraylock_acquire (AA_await slot) (al_lock ?s) =
       (if (\<nexists>j. al_owns ?s j) \<and> i = hd waiting then Ret (Inr slot) else Goto (AA_await slot), al_lock ?s)" by auto
  then have "waiting = [0]" "\<nexists>j. al_owns ?s j" by (auto simp: fifo_order_def al_owns_def al_w_def)
  with w show ?thesis by (auto simp: al_w_def)
qed

end
