(* ===== verification/Clhlock.thy ===== *)
theory Clhlock
  imports Vatomic
begin

text \<open>
  The CLH lock, \<^verbatim>\<open>spinlock/clhlock.h\<close>. Every thread has a node with a queue node inside; a thread
  waits on the queue node of its predecessor and, when it releases the lock, leaves its own queue node to
  its successor and keeps its predecessor's. The lock and all nodes are one memory; one access is one
  step. The fields \<^verbatim>\<open>pred\<close> and \<^verbatim>\<open>qnode\<close> of a node are only used by its thread.
\<close>

section \<open>Operations\<close>

text \<open>Addresses of queue nodes: the one inside the lock and the ones inside the nodes of the threads.\<close>

datatype clh_addr = InitialQ | NodeQ tid

record clh_node_t =
  clh_pred :: "clh_addr option"
  clh_qnode :: clh_addr

record clh_mem =
  clh_tail :: clh_addr
  clh_locked :: "clh_addr \<Rightarrow> u32"
  clh_nodes :: "tid \<Rightarrow> clh_node_t"

definition clhlock_node_init :: "tid \<Rightarrow> clh_mem \<Rightarrow> clh_mem" where
  "clhlock_node_init i m = m\<lparr>clh_locked := (clh_locked m)(NodeQ i := vatomic_init 0 0),
     clh_nodes := (clh_nodes m)(i := \<lparr>clh_pred = None, clh_qnode = NodeQ i\<rparr>)\<rparr>"

definition clhlock_init :: "clh_mem \<Rightarrow> clh_mem" where
  "clhlock_init m = m\<lparr>clh_locked := (clh_locked m)(InitialQ := vatomic_init 0 0), clh_tail := InitialQ\<rparr>"

datatype clh_acq_pc = CA_write | CA_xchg | CA_await

fun clhlock_acquire :: "tid \<Rightarrow> (clh_acq_pc, clh_mem, unit res) prog" where
  "clhlock_acquire i CA_write m =
     (Goto CA_xchg, m\<lparr>clh_locked := (clh_locked m)(clh_qnode (clh_nodes m i) := 1)\<rparr>)"
| "clhlock_acquire i CA_xchg m =
     (let (old, t) = vatomic_xchg (clh_tail m) (clh_qnode (clh_nodes m i))
      in (Goto CA_await, m\<lparr>clh_tail := t, clh_nodes := (clh_nodes m)(i := (clh_nodes m i)\<lparr>clh_pred := Some old\<rparr>)\<rparr>))"
| "clhlock_acquire i CA_await m =
     (case clh_pred (clh_nodes m i) of None \<Rightarrow> Ret (Inl BadAccess)
      | Some p \<Rightarrow> (case vatomic_await_eq 0 0 (clh_locked m p) of Goto _ \<Rightarrow> Goto CA_await | Ret _ \<Rightarrow> Ret (Inr ())), m)"

datatype clh_rel_pc = CR_write | CR_swap

fun clhlock_release :: "tid \<Rightarrow> (clh_rel_pc, clh_mem, unit res) prog" where
  "clhlock_release i CR_write m = (Goto CR_swap, m\<lparr>clh_locked := (clh_locked m)(clh_qnode (clh_nodes m i) := 0)\<rparr>)"
| "clhlock_release i CR_swap m =
     (case clh_pred (clh_nodes m i) of None \<Rightarrow> (Ret (Inl BadAccess), m)
      | Some p \<Rightarrow> (Ret (Inr ()), m\<lparr>clh_nodes := (clh_nodes m)(i := (clh_nodes m i)\<lparr>clh_qnode := p\<rparr>)\<rparr>))"

definition clhlock_has_waiters :: "tid \<Rightarrow> clh_mem \<Rightarrow> bool" where
  "clhlock_has_waiters i m \<longleftrightarrow> vatomic_read (clh_tail m) \<noteq> clh_qnode (clh_nodes m i)"

section \<open>Threads\<close>

datatype clh_pc = ClIdle | ClAcq clh_acq_pc | ClHeld | ClRel clh_rel_pc | ClFault fault

record clh_sys =
  clh_mem_of :: clh_mem
  clh_pcs :: "tid \<Rightarrow> clh_pc"

text \<open>The lock and the nodes of all threads are initialised.\<close>

definition clhlock_start :: "clh_sys \<Rightarrow> bool" where
  "clhlock_start s \<longleftrightarrow> (\<exists>m. clh_mem_of s = clhlock_init m \<and> (\<forall>i. clhlock_node_init i m = m)) \<and> (\<forall>i. clh_pcs s i = ClIdle)"

inductive clhlock_step :: "tid \<Rightarrow> clh_sys \<Rightarrow> clh_sys \<Rightarrow> bool" where
  clh_call: "clh_pcs s i = ClIdle \<Longrightarrow> clhlock_step i s (s\<lparr>clh_pcs := (clh_pcs s)(i := ClAcq CA_write)\<rparr>)"
| clh_acquire: "clh_pcs s i = ClAcq p \<Longrightarrow> clhlock_acquire i p (clh_mem_of s) = (r, m) \<Longrightarrow>
     clhlock_step i s (s\<lparr>clh_mem_of := m, clh_pcs := (clh_pcs s)(i :=
       case r of Goto p' \<Rightarrow> ClAcq p' | Ret (Inr _) \<Rightarrow> ClHeld | Ret (Inl e) \<Rightarrow> ClFault e)\<rparr>)"
| clh_unlock: "clh_pcs s i = ClHeld \<Longrightarrow> clhlock_step i s (s\<lparr>clh_pcs := (clh_pcs s)(i := ClRel CR_write)\<rparr>)"
| clh_release: "clh_pcs s i = ClRel p \<Longrightarrow> clhlock_release i p (clh_mem_of s) = (r, m) \<Longrightarrow>
     clhlock_step i s (s\<lparr>clh_mem_of := m, clh_pcs := (clh_pcs s)(i :=
       case r of Goto p' \<Rightarrow> ClRel p' | Ret (Inr _) \<Rightarrow> ClIdle | Ret (Inl e) \<Rightarrow> ClFault e)\<rparr>)"

text \<open>A thread owns the lock until the release has written its flag.\<close>

definition clh_owns :: "clh_sys \<Rightarrow> tid \<Rightarrow> bool" where
  "clh_owns s i \<longleftrightarrow> clh_pcs s i \<in> {ClHeld, ClRel CR_write}"

section \<open>The queue of threads\<close>

abbreviation qn :: "clh_mem \<Rightarrow> tid \<Rightarrow> clh_addr" where "qn m i \<equiv> clh_qnode (clh_nodes m i)"
abbreviation pn :: "clh_mem \<Rightarrow> tid \<Rightarrow> clh_addr option" where "pn m i \<equiv> clh_pred (clh_nodes m i)"

text \<open>A thread has its place once it has exchanged the tail, until its release has written its flag.\<close>

definition clh_queued :: "clh_pc \<Rightarrow> bool" where
  "clh_queued p \<longleftrightarrow> p \<in> {ClAcq CA_await, ClHeld, ClRel CR_write}"

text \<open>The queue node a thread will use next: after the first access of a release it is the predecessor's.\<close>

definition clh_mine :: "clh_mem \<Rightarrow> clh_pc \<Rightarrow> tid \<Rightarrow> clh_addr option" where
  "clh_mine m p i = (if p = ClRel CR_swap then pn m i else Some (qn m i))"

text \<open>\<open>f\<close> is the free queue node at the front; the queue nodes of the threads and \<open>f\<close> are all different.\<close>

definition clh_nodes_ok :: "clh_addr \<Rightarrow> clh_mem \<Rightarrow> (tid \<Rightarrow> clh_pc) \<Rightarrow> bool" where
  "clh_nodes_ok f m pcs \<longleftrightarrow> inj (\<lambda>i. clh_mine m (pcs i) i) \<and>
     (\<forall>i. clh_mine m (pcs i) i \<notin> {None, Some f}) \<and> clh_locked m f = 0 \<and>
     (\<forall>i. pcs i = ClAcq CA_xchg \<longrightarrow> clh_locked m (qn m i) = 1) \<and> (\<forall>i e. pcs i \<noteq> ClFault e)"

definition clh_place :: "clh_addr \<Rightarrow> clh_mem \<Rightarrow> (tid \<Rightarrow> clh_pc) \<Rightarrow> tid list \<Rightarrow> nat \<Rightarrow> bool" where
  "clh_place f m pcs q k \<longleftrightarrow> pn m (q ! k) = Some (if k = 0 then f else qn m (q ! (k - 1))) \<and>
     clh_locked m (qn m (q ! k)) = 1 \<and> (0 < k \<longrightarrow> pcs (q ! k) = ClAcq CA_await)"

definition clh_at :: "clh_addr \<Rightarrow> clh_mem \<Rightarrow> (tid \<Rightarrow> clh_pc) \<Rightarrow> tid list \<Rightarrow> bool" where
  "clh_at f m pcs q \<longleftrightarrow> distinct q \<and> (\<forall>i. i \<in> set q \<longleftrightarrow> clh_queued (pcs i)) \<and> clh_nodes_ok f m pcs \<and>
     clh_tail m = (if q = [] then f else qn m (last q)) \<and> (\<forall>k<length q. clh_place f m pcs q k)"

definition clh_rel :: "clh_sys \<Rightarrow> tid list \<Rightarrow> bool" where
  "clh_rel s q \<longleftrightarrow> (\<exists>f. clh_at f (clh_mem_of s) (clh_pcs s) q)"

lemma clh_atD:
  assumes "clh_at f m pcs q"
  shows "distinct q" "i \<in> set q \<longleftrightarrow> clh_queued (pcs i)" "clh_nodes_ok f m pcs" "clh_tail m = (if q = [] then f else qn m (last q))"
    "k < length q \<Longrightarrow> clh_place f m pcs q k"
  using assms by (simp_all add: clh_at_def)

lemma clh_nodes_okD:
  assumes "clh_nodes_ok f m pcs"
  shows "inj (\<lambda>i. clh_mine m (pcs i) i)" "clh_mine m (pcs i) i \<noteq> None" "clh_mine m (pcs i) i \<noteq> Some f"
    "clh_locked m f = 0" "pcs i = ClAcq CA_xchg \<Longrightarrow> clh_locked m (qn m i) = 1" "pcs i \<noteq> ClFault e"
  using assms by (simp_all add: clh_nodes_ok_def)

lemma clh_qn_front: "clh_nodes_ok f m pcs \<Longrightarrow> pcs i \<noteq> ClRel CR_swap \<Longrightarrow> qn m i \<noteq> f"
  using clh_nodes_okD(3) [of f m pcs i] by (simp add: clh_mine_def)

lemma clh_qn_eq:
  assumes ok: "clh_nodes_ok f m pcs" and "pcs i \<noteq> ClRel CR_swap" "pcs j \<noteq> ClRel CR_swap"
  shows "qn m i = qn m j \<longleftrightarrow> i = j"
  using inj_eq [OF clh_nodes_okD(1) [OF ok], of i j] assms(2,3) by (simp add: clh_mine_def)

lemma clh_in_queue:
  assumes at: "clh_at f m pcs q" and "clh_queued (pcs i)"
  obtains k where "k < length q" "q ! k = i" "clh_place f m pcs q k"
  using clh_atD(2,5) [OF at] assms(2) by (metis in_set_conv_nth)

lemma clh_owner_front:
  assumes at: "clh_at f m pcs q" and own: "pcs i \<in> {ClHeld, ClRel CR_write}"
  obtains r where "q = i # r" "pn m i = Some f"
proof -
  have "clh_queued (pcs i)" using own by (auto simp: clh_queued_def)
  then obtain k where k: "k < length q" "q ! k = i" "clh_place f m pcs q k" using clh_in_queue [OF at] by blast
  with own have "k = 0" by (auto simp: clh_place_def)
  with k that show thesis by (cases q) (simp_all add: clh_place_def)
qed

text \<open>A thread that changes its program counter only.\<close>

lemma clh_at_pc:
  assumes at: "clh_at f m pcs q" and qd: "clh_queued p \<longleftrightarrow> clh_queued (pcs i)" and sw: "p = ClRel CR_swap \<longleftrightarrow> pcs i = ClRel CR_swap"
    and x: "p = ClAcq CA_xchg \<Longrightarrow> clh_locked m (qn m i) = 1" and nf: "\<And>e. p \<noteq> ClFault e"
    and pl: "\<And>k. 0 < k \<Longrightarrow> k < length q \<Longrightarrow> q ! k = i \<Longrightarrow> p = ClAcq CA_await"
  shows "clh_at f m (pcs(i := p)) q"
proof -
  have mine: "clh_mine m ((pcs(i := p)) j) j = clh_mine m (pcs j) j" for j using sw by (simp add: clh_mine_def)
  have "clh_nodes_ok f m (pcs(i := p))"
    using clh_atD(3) [OF at] x nf unfolding clh_nodes_ok_def mine by simp
  moreover have "clh_place f m (pcs(i := p)) q k" if "k < length q" for k
    using clh_atD(5) [OF at that] pl [of k] that by (simp add: clh_place_def)
  moreover have "j \<in> set q \<longleftrightarrow> clh_queued ((pcs(i := p)) j)" for j using clh_atD(2) [OF at, of j] qd by simp
  ultimately show ?thesis using clh_atD(1,4) [OF at] by (simp add: clh_at_def)
qed

text \<open>Raising a flag that is not the one at the front.\<close>

lemma clh_at_raise:
  assumes at: "clh_at f m pcs q" and "a \<noteq> f"
  shows "clh_at f (m\<lparr>clh_locked := (clh_locked m)(a := 1)\<rparr>) pcs q"
proof -
  have mine: "clh_mine (m\<lparr>clh_locked := l\<rparr>) = clh_mine m" for l by (intro ext) (simp add: clh_mine_def)
  show ?thesis using assms unfolding clh_at_def clh_nodes_ok_def clh_place_def mine by simp
qed

lemma clh_at_enter:
  assumes at: "clh_at f m pcs q" and i: "pcs i = ClAcq CA_xchg"
  defines "m' \<equiv> m\<lparr>clh_tail := qn m i, clh_nodes := (clh_nodes m)(i := (clh_nodes m i)\<lparr>clh_pred := Some (clh_tail m)\<rparr>)\<rparr>"
  shows "i \<notin> set q" "clh_at f m' (pcs(i := ClAcq CA_await)) (q @ [i])"
proof -
  show iq: "i \<notin> set q" using clh_atD(2) [OF at, of i] i by (simp add: clh_queued_def)
  note ok = clh_atD(3) [OF at]
  have node: "qn m' j = qn m j" "j \<noteq> i \<Longrightarrow> pn m' j = pn m j" "pn m' i = Some (clh_tail m)" "clh_locked m' = clh_locked m"
    "clh_tail m' = qn m i" for j by (simp_all add: m'_def)
  have mine: "clh_mine m' ((pcs(i := ClAcq CA_await)) j) j = clh_mine m (pcs j) j" for j
    using i node by (cases "j = i") (simp_all add: clh_mine_def)
  have "clh_nodes_ok f m' (pcs(i := ClAcq CA_await))"
    using ok unfolding clh_nodes_ok_def mine node by simp
  moreover have "clh_place f m' (pcs(i := ClAcq CA_await)) (q @ [i]) k" if k: "k < length (q @ [i])" for k
  proof (cases "k = length q")
    case True
    with clh_atD(4) [OF at] clh_nodes_okD(5) [OF ok i] show ?thesis
      by (simp add: clh_place_def node nth_append last_conv_nth)
  next
    case False
    with k have "k < length q" by simp
    moreover from this iq have "q ! k \<noteq> i" by (metis nth_mem)
    ultimately show ?thesis using clh_atD(5) [OF at, of k] by (cases k) (simp_all add: clh_place_def node nth_append)
  qed
  moreover have "j \<in> set (q @ [i]) \<longleftrightarrow> clh_queued ((pcs(i := ClAcq CA_await)) j)" for j
    using clh_atD(2) [OF at, of j] by (simp add: clh_queued_def)
  ultimately show "clh_at f m' (pcs(i := ClAcq CA_await)) (q @ [i])"
    using clh_atD(1) [OF at] iq by (simp add: clh_at_def node)
qed

lemma clh_at_leave:
  assumes at: "clh_at f m pcs (i # r)" and i: "pcs i = ClRel CR_write" and p: "pn m i = Some f"
  shows "clh_at (qn m i) (m\<lparr>clh_locked := (clh_locked m)(qn m i := 0)\<rparr>) (pcs(i := ClRel CR_swap)) r"
proof -
  let ?m = "m\<lparr>clh_locked := (clh_locked m)(qn m i := 0)\<rparr>" and ?pcs = "pcs(i := ClRel CR_swap)"
  note ok = clh_atD(3) [OF at]
  have mine: "(\<lambda>j. clh_mine ?m (?pcs j) j) = (\<lambda>j. clh_mine m (pcs j) j)(i := Some f)"
    using p by (auto simp: clh_mine_def)
  have own: "clh_mine m (pcs i) i = Some (qn m i)" using i by (simp add: clh_mine_def)
  have neq: "clh_mine m (pcs j) j \<noteq> Some (qn m i)" if "j \<noteq> i" for j
    using inj_eq [OF clh_nodes_okD(1) [OF ok], of j i] that own by simp
  have other: "qn m j \<noteq> qn m i" if "j \<noteq> i" "pcs j \<noteq> ClRel CR_swap" for j
    using neq [OF that(1)] that(2) by (simp add: clh_mine_def)
  have "inj (\<lambda>j. clh_mine ?m (?pcs j) j)"
    unfolding mine by (rule inj_on_fun_updI) (use clh_nodes_okD(1) [OF ok] clh_nodes_okD(3) [OF ok, THEN not_sym] in \<open>simp_all add: image_iff\<close>)
  moreover have "clh_mine ?m (?pcs j) j \<notin> {None, Some (qn m i)}" for j
    using fun_cong [OF mine, of j] neq [of j] clh_nodes_okD(2) [OF ok, of j] clh_qn_front [OF ok, of i] i by auto
  ultimately have "clh_nodes_ok (qn m i) ?m ?pcs"
    using clh_nodes_okD(5,6) [OF ok] other unfolding clh_nodes_ok_def by auto
  moreover have r: "i \<notin> set r" "distinct r" using clh_atD(1) [OF at] by auto
  moreover have "clh_place (qn m i) ?m ?pcs r k" if k: "k < length r" for k
  proof -
    have "r ! k \<noteq> i" using k r by (metis nth_mem)
    moreover have "clh_place f m pcs (i # r) (Suc k)" using clh_atD(5) [OF at, of "Suc k"] k by simp
    ultimately show ?thesis using other [of "r ! k"] by (cases k) (simp_all add: clh_place_def)
  qed
  moreover have "j \<in> set r \<longleftrightarrow> clh_queued (?pcs j)" for j
    using clh_atD(2) [OF at, of j] r by (cases "j = i") (simp_all add: clh_queued_def)
  ultimately show ?thesis using clh_atD(4) [OF at] by (simp add: clh_at_def)
qed

lemma clh_at_swap:
  assumes at: "clh_at f m pcs q" and i: "pcs i = ClRel CR_swap" and p: "pn m i = Some p"
  shows "clh_at f (m\<lparr>clh_nodes := (clh_nodes m)(i := (clh_nodes m i)\<lparr>clh_qnode := p\<rparr>)\<rparr>) (pcs(i := ClIdle)) q"
proof -
  let ?m = "m\<lparr>clh_nodes := (clh_nodes m)(i := (clh_nodes m i)\<lparr>clh_qnode := p\<rparr>)\<rparr>" and ?pcs = "pcs(i := ClIdle)"
  note ok = clh_atD(3) [OF at]
  have iq: "i \<notin> set q" using clh_atD(2) [OF at, of i] i by (simp add: clh_queued_def)
  have mine: "clh_mine ?m (?pcs j) j = clh_mine m (pcs j) j" for j using i p by (simp add: clh_mine_def)
  have "clh_nodes_ok f ?m ?pcs" using ok unfolding clh_nodes_ok_def mine by simp
  moreover have "clh_place f ?m ?pcs q k" if k: "k < length q" for k
  proof -
    have "q ! k \<noteq> i" "q ! (k - 1) \<noteq> i" using k iq by (metis nth_mem less_imp_diff_less)+
    then show ?thesis using clh_atD(5) [OF at k] by (simp add: clh_place_def)
  qed
  moreover have "j \<in> set q \<longleftrightarrow> clh_queued (?pcs j)" for j
    using clh_atD(2) [OF at, of j] iq by (cases "j = i") (simp_all add: clh_queued_def)
  moreover have "q \<noteq> [] \<Longrightarrow> last q \<noteq> i" using iq last_in_set by metis
  ultimately show ?thesis using clh_atD(1,4) [OF at] by (simp add: clh_at_def)
qed

lemma clh_sim_acquire:
  assumes at: "clh_at f (clh_mem_of s) (clh_pcs s) q" and pc: "clh_pcs s i = ClAcq p"
    and run: "clhlock_acquire i p (clh_mem_of s) = (r, m)"
  defines "p' \<equiv> case r of Goto p' \<Rightarrow> ClAcq p' | Ret (Inr _) \<Rightarrow> ClHeld | Ret (Inl e) \<Rightarrow> ClFault e"
  shows "\<exists>q'. clh_at f m ((clh_pcs s)(i := p')) q' \<and> (q' = q \<or> qlock_spec i q q')"
proof (cases p)
  case CA_write
  have "qn (clh_mem_of s) i \<noteq> f" using clh_qn_front [OF clh_atD(3) [OF at], of i] pc by simp
  from clh_at_raise [OF at this] have "clh_at f m (clh_pcs s) q" using run CA_write by simp
  then have "clh_at f m ((clh_pcs s)(i := ClAcq CA_xchg)) q"
    by (rule clh_at_pc) (use run CA_write pc clh_atD(5) [OF at] in \<open>auto simp: clh_queued_def clh_place_def\<close>)
  then show ?thesis using run CA_write by (auto simp: p'_def)
next
  case CA_xchg
  with clh_at_enter [OF at, of i] pc run show ?thesis
    by (auto simp: p'_def vsync_simps intro: q_enter)
next
  case CA_await
  with pc obtain k where k: "k < length q" "q ! k = i" "clh_place f (clh_mem_of s) (clh_pcs s) q k"
    using clh_in_queue [OF at, of i] by (auto simp: clh_queued_def)
  define a where "a = (if k = 0 then f else qn (clh_mem_of s) (q ! (k - 1)))"
  have pn: "pn (clh_mem_of s) i = Some a" using k(2,3) by (simp add: clh_place_def a_def)
  show ?thesis
  proof (cases "k = 0")
    case True
    then have "clh_locked (clh_mem_of s) a = 0" using clh_nodes_okD(4) [OF clh_atD(3) [OF at]] by (simp add: a_def)
    then have "p' = ClHeld" "m = clh_mem_of s" using run CA_await pn by (auto simp: p'_def vatomic_await_eq_def vsync_simps)
    moreover have "clh_at f (clh_mem_of s) ((clh_pcs s)(i := ClHeld)) q"
      using at by (rule clh_at_pc) (use pc CA_await k True clh_atD(1) [OF at] in \<open>auto simp: clh_queued_def nth_eq_iff_index_eq\<close>)
    ultimately show ?thesis by blast
  next
    case False
    then have "clh_locked (clh_mem_of s) a = 1"
      using clh_atD(5) [OF at, of "k - 1"] k(1) by (simp add: a_def clh_place_def)
    then have "p' = ClAcq CA_await" "m = clh_mem_of s" using run CA_await pn by (auto simp: p'_def vatomic_await_eq_def vsync_simps)
    then have "(clh_pcs s)(i := p') = clh_pcs s" "m = clh_mem_of s" using pc CA_await by auto
    then show ?thesis using at by auto
  qed
qed

lemma clh_sim_release:
  assumes at: "clh_at f (clh_mem_of s) (clh_pcs s) q" and pc: "clh_pcs s i = ClRel p"
    and run: "clhlock_release i p (clh_mem_of s) = (r, m)"
  defines "p' \<equiv> case r of Goto p' \<Rightarrow> ClRel p' | Ret (Inr _) \<Rightarrow> ClIdle | Ret (Inl e) \<Rightarrow> ClFault e"
  shows "\<exists>f' q'. clh_at f' m ((clh_pcs s)(i := p')) q' \<and> (q' = q \<or> qlock_spec i q q')"
proof (cases p)
  case CR_write
  with pc obtain l where q: "q = i # l" and f: "pn (clh_mem_of s) i = Some f" using clh_owner_front [OF at, of i] by auto
  have "qlock_spec i q l" unfolding q by (rule q_leave)
  moreover from clh_at_leave [OF at [unfolded q] _ f] pc run CR_write
  have "clh_at (qn (clh_mem_of s) i) m ((clh_pcs s)(i := p')) l" by (auto simp: p'_def)
  ultimately show ?thesis by blast
next
  case CR_swap
  then obtain a where "pn (clh_mem_of s) i = Some a"
    using clh_nodes_okD(2) [OF clh_atD(3) [OF at], of i] pc by (auto simp: clh_mine_def)
  with clh_at_swap [OF at, of i a] pc run CR_swap have "clh_at f m ((clh_pcs s)(i := p')) q" by (auto simp: p'_def)
  then show ?thesis by blast
qed

lemma clh_sim_step:
  assumes rel: "clh_rel s q" and step: "clhlock_step i s t"
  shows "\<exists>q'. clh_rel t q' \<and> (q' = q \<or> qlock_spec i q q')"
proof -
  obtain f where at: "clh_at f (clh_mem_of s) (clh_pcs s) q" using rel by (auto simp: clh_rel_def)
  from step show ?thesis
  proof cases
    case clh_call
    from at have "clh_at f (clh_mem_of s) ((clh_pcs s)(i := ClAcq CA_write)) q"
      by (rule clh_at_pc) (use clh_call clh_atD(5) [OF at] in \<open>auto simp: clh_queued_def clh_place_def\<close>)
    then show ?thesis using clh_call by (auto simp: clh_rel_def)
  next
    case (clh_acquire p r m)
    with clh_sim_acquire [OF at clh_acquire(2,3)] show ?thesis by (auto simp: clh_rel_def)
  next
    case clh_unlock
    from at have "clh_at f (clh_mem_of s) ((clh_pcs s)(i := ClRel CR_write)) q"
      by (rule clh_at_pc) (use clh_unlock clh_atD(5) [OF at] in \<open>auto simp: clh_queued_def clh_place_def\<close>)
    then show ?thesis using clh_unlock by (auto simp: clh_rel_def)
  next
    case (clh_release p r m)
    with clh_sim_release [OF at clh_release(2,3)] show ?thesis by (auto simp: clh_rel_def)
  qed
qed

lemma clh_start_rel:
  assumes "clhlock_start s"
  shows "clh_rel s []"
proof -
  obtain m where m: "clh_mem_of s = clhlock_init m" and n: "\<And>i. clhlock_node_init i m = m" and pc: "\<And>i. clh_pcs s i = ClIdle"
    using assms by (auto simp: clhlock_start_def)
  have node: "clh_nodes m i = \<lparr>clh_pred = None, clh_qnode = NodeQ i\<rparr>" for i
    using arg_cong [OF n [of i], of "\<lambda>m. clh_nodes m i"] by (simp add: clhlock_node_init_def)
  have "clh_at InitialQ (clh_mem_of s) (clh_pcs s) []"
    using node pc by (simp add: m clh_at_def clh_nodes_ok_def clhlock_init_def clh_mine_def clh_queued_def inj_def vsync_simps)
  then show ?thesis by (auto simp: clh_rel_def)
qed

interpretation clh: fifo_lock clhlock_start clhlock_step clh_rel clh_owns "\<lambda>s i. clh_queued (clh_pcs s i)"
proof unfold_locales
  show "\<exists>q. q = [] \<and> clh_rel s q" if "clhlock_start s" for s using clh_start_rel [OF that] by blast
  show "\<exists>q'. clh_rel t q' \<and> (q' = q \<or> qlock_spec i q q')" if "clh_rel s q" "clhlock_step i s t" for s q i t
    using that by (rule clh_sim_step)
  show "q \<noteq> [] \<and> hd q = i" if rel: "clh_rel s q" and own: "clh_owns s i" for s q i
  proof -
    obtain f where "clh_at f (clh_mem_of s) (clh_pcs s) q" using rel by (auto simp: clh_rel_def)
    then obtain r where "q = i # r" by (rule clh_owner_front) (use own in \<open>auto simp: clh_owns_def\<close>)
    then show ?thesis by simp
  qed
  show "distinct q \<and> set q = {i. clh_queued (clh_pcs s i)}" if "clh_rel s q" for s q
    using that clh_atD(1,2) by (auto simp: clh_rel_def)
  show "clh_queued (clh_pcs t j) = clh_queued (clh_pcs s j) \<and> clh_owns t j = clh_owns s j"
    if "clhlock_step i s t" "j \<noteq> i" for s t i j
    using that by (auto simp: clh_owns_def elim!: clhlock_step.cases)
  show "clh_owns t i" if st: "clhlock_step i s t" and o: "clh_owns s i" "clh_queued (clh_pcs t i)" for s t i
    using st
  proof cases
    case (clh_release p r m)
    with o show ?thesis by (cases p) (auto simp: clh_owns_def clh_queued_def)
  qed (use o in \<open>auto simp: clh_owns_def\<close>)
  show "clh_owns s i" if rel: "clh_rel s q" and st: "clhlock_step i s t" and o: "clh_queued (clh_pcs s i)" "\<not> clh_queued (clh_pcs t i)"
    for s q t i
    using st
  proof cases
    case (clh_acquire p r m)
    with o have p: "p = CA_await" by (auto simp: clh_queued_def)
    obtain f where at: "clh_at f (clh_mem_of s) (clh_pcs s) q" using rel by (auto simp: clh_rel_def)
    have "pn (clh_mem_of s) i \<noteq> None" using clh_in_queue [OF at o(1)] by (auto simp: clh_place_def)
    with clh_acquire(3) p have "r \<in> {Goto CA_await, Ret (Inr ())}" by (auto simp: vatomic_await_eq_def vsync_simps Let_def split: if_splits)
    with o(2) clh_acquire(1) show ?thesis by (auto simp: clh_queued_def)
  qed (use o in \<open>auto simp: clh_owns_def clh_queued_def\<close>)
qed

section \<open>Properties\<close>

text \<open>C10: the CLH lock is a first-in-first-out lock for any number of threads that acquire and release in any
  interleaving, although the queue nodes move from thread to thread. Over every execution, the threads
  entered the lock exactly in the order in which they exchanged the tail, and those that exchanged it and
  have not entered are waiting. When nobody owns the lock, the first waiting thread finds the flag of its
  predecessor lowered and enters with its next access; every other waiting thread's next access finds the flag
  it waits for raised. No thread follows a \<^verbatim>\<open>NULL\<close> pointer, and \<^verbatim>\<open>clhlock_has_waiters\<close> of the owner is
  true exactly when another thread is waiting.\<close>

theorem clhlock_fifo:
  assumes "lock_hist clhlock_start clhlock_step (\<lambda>s i. clh_queued (clh_pcs s i)) clh_owns s joined entered"
  shows "\<exists>waiting. fifo_order (\<lambda>i. clh_queued (clh_pcs s i)) (clh_owns s) joined entered waiting \<and>
    (\<forall>i. clh_owns s i \<longrightarrow> clhlock_has_waiters i (clh_mem_of s) = (waiting \<noteq> [])) \<and>
    (\<forall>i \<in> set waiting. clh_pcs s i = ClAcq CA_await \<and> clhlock_acquire i CA_await (clh_mem_of s) =
       (if (\<nexists>j. clh_owns s j) \<and> i = hd waiting then Ret (Inr ()) else Goto CA_await, clh_mem_of s)) \<and>
    (\<forall>i e. clh_pcs s i \<noteq> ClFault e)"
proof -
  let ?m = "clh_mem_of s"
  obtain pre waiting where w: "fifo_order (\<lambda>i. clh_queued (clh_pcs s i)) (clh_owns s) joined entered waiting"
    and rel: "clh_rel s (pre @ waiting)" and pre: "length pre = held (clh_owns s)" "\<forall>i\<in>set pre. clh_owns s i"
    using clh.hist_fifo [OF assms] by blast
  obtain f where at: "clh_at f ?m (clh_pcs s) (pre @ waiting)" using rel by (auto simp: clh_rel_def)
  note ok = clh_atD(3) [OF at]
  have own: "clhlock_has_waiters i ?m = (waiting \<noteq> [])" if i: "clh_owns s i" for i
  proof -
    have "length pre = 1" using pre(1) i by (auto simp: held_def)
    then obtain a where "pre = [a]" by (auto simp: length_Suc_conv)
    moreover from this have "a = i" using clh.rel_owns [OF rel i] by simp
    ultimately have q: "pre @ waiting = i # waiting" by simp
    then have d: "distinct (i # waiting)" using clh_atD(1) [OF at] by simp
    have "clh_queued (clh_pcs s (last (i # waiting)))" using clh_atD(2) [OF at, of "last (i # waiting)"] q
      by (metis last_in_set list.distinct(1))
    then have "qn ?m (last (i # waiting)) = qn ?m i \<longleftrightarrow> last (i # waiting) = i"
      using i by (intro clh_qn_eq [OF ok]) (auto simp: clh_owns_def clh_queued_def)
    moreover have "last (i # waiting) = i \<longleftrightarrow> waiting = []" using d last_in_set [of waiting] by (cases "waiting = []") auto
    ultimately show ?thesis using clh_atD(4) [OF at] q by (simp add: clhlock_has_waiters_def vsync_simps)
  qed
  have acq: "clh_pcs s i = ClAcq CA_await \<and> clhlock_acquire i CA_await ?m =
      (if (\<nexists>j. clh_owns s j) \<and> i = hd waiting then Ret (Inr ()) else Goto CA_await, ?m)" if i: "i \<in> set waiting" for i
  proof -
    have nq: "clh_queued (clh_pcs s i)" "\<not> clh_owns s i" using w i by (auto simp: fifo_order_def)
    then have pc: "clh_pcs s i = ClAcq CA_await" by (auto simp: clh_queued_def clh_owns_def)
    obtain k where k: "k < length (pre @ waiting)" "(pre @ waiting) ! k = i" "clh_place f ?m (clh_pcs s) (pre @ waiting) k"
      using clh_in_queue [OF at nq(1)] by blast
    have "k = 0 \<longleftrightarrow> (\<nexists>j. clh_owns s j) \<and> i = hd waiting"
      using waiting_place [OF clh_atD(1) [OF at] pre i k(1,2)] .
    moreover have "clh_locked ?m (the (pn ?m i)) = (if k = 0 then 0 else 1) \<and> pn ?m i \<noteq> None"
      using k clh_nodes_okD(4) [OF ok] clh_atD(5) [OF at, of "k - 1"] by (auto simp: clh_place_def)
    ultimately show ?thesis using pc by (auto simp: vatomic_await_eq_def vsync_simps Let_def)
  qed
  show ?thesis
    by (rule exI [of _ waiting], intro conjI allI impI ballI w own clh_nodes_okD(6) [OF ok]) (use acq in auto)
qed

text \<open>An execution: thread 0 had the lock and released it; thread 1 owns it and thread 0 waits with the
  queue node that was inside the lock.\<close>

fun clh_move :: "clh_sys \<Rightarrow> tid \<Rightarrow> clh_sys option" where
  "clh_move s i = (case clh_pcs s i of ClIdle \<Rightarrow> Some (s\<lparr>clh_pcs := (clh_pcs s)(i := ClAcq CA_write)\<rparr>)
     | ClAcq p \<Rightarrow> (case clhlock_acquire i p (clh_mem_of s) of (r, m) \<Rightarrow> Some (s\<lparr>clh_mem_of := m, clh_pcs := (clh_pcs s)(i :=
         case r of Goto p' \<Rightarrow> ClAcq p' | Ret (Inr _) \<Rightarrow> ClHeld | Ret (Inl e) \<Rightarrow> ClFault e)\<rparr>))
     | ClHeld \<Rightarrow> Some (s\<lparr>clh_pcs := (clh_pcs s)(i := ClRel CR_write)\<rparr>)
     | ClRel p \<Rightarrow> (case clhlock_release i p (clh_mem_of s) of (r, m) \<Rightarrow> Some (s\<lparr>clh_mem_of := m, clh_pcs := (clh_pcs s)(i :=
         case r of Goto p' \<Rightarrow> ClRel p' | Ret (Inr _) \<Rightarrow> ClIdle | Ret (Inl e) \<Rightarrow> ClFault e)\<rparr>))
     | ClFault e \<Rightarrow> None)"

lemma clh_move_step: "clh_move s i = Some t \<Longrightarrow> clhlock_step i s t"
  by (cases "clh_pcs s i") (auto split: prod.splits intro: clhlock_step.intros)

definition clh_w0 :: clh_sys where
  "clh_w0 = \<lparr>clh_mem_of = clhlock_init \<lparr>clh_tail = NodeQ 9, clh_locked = (\<lambda>_. 0),
     clh_nodes = (\<lambda>i. \<lparr>clh_pred = None, clh_qnode = NodeQ i\<rparr>)\<rparr>, clh_pcs = (\<lambda>_. ClIdle)\<rparr>"

abbreviation clh_run_w :: "tid list" where
  "clh_run_w \<equiv> [0, 0, 0, 0, 1, 1, 1, 0, 0, 0, 0, 0, 0, 1]"

definition clh_w1 :: clh_sys where "clh_w1 = the (play clh_move clh_w0 clh_run_w)"

lemmas clh_eval = clh_w0_def clhlock_init_def vatomic_await_eq_def vsync_simps Let_def

lemma clh_w1_hist:
  "lock_hist clhlock_start clhlock_step (\<lambda>s i. clh_queued (clh_pcs s i)) clh_owns clh_w1 [0, 1, 0] [0, 1]"
proof -
  have "clhlock_start clh_w0"
    by (auto simp: clhlock_start_def clh_w0_def clhlock_node_init_def vsync_simps
        intro!: exI [of _ "\<lparr>clh_tail = NodeQ 9, clh_locked = (\<lambda>_. 0), clh_nodes = (\<lambda>i. \<lparr>clh_pred = None, clh_qnode = NodeQ i\<rparr>)\<rparr>"])
  moreover have "play clh_move clh_w0 clh_run_w = Some clh_w1" by (simp add: clh_w1_def clh_eval)
  moreover have "play_hist clh_move (\<lambda>i. i) (\<lambda>s i. clh_queued (clh_pcs s i)) clh_w0 clh_run_w = [0, 1, 0]"
    "play_hist clh_move (\<lambda>i. i) clh_owns clh_w0 clh_run_w = [0, 1]"
    by (simp_all add: clh_eval turned_def clh_owns_def clh_queued_def)
  ultimately show ?thesis using play_lock_hist [of clh_move clhlock_step "\<lambda>i. i", OF clh_move_step] by metis
qed

lemma clh_w1_state:
  "clh_pcs clh_w1 1 = ClHeld" "clh_pcs clh_w1 0 = ClAcq CA_await" "qn (clh_mem_of clh_w1) 0 = InitialQ" "clh_tail (clh_mem_of clh_w1) = InitialQ"
  "qn (clh_mem_of clh_w1) 1 = NodeQ 1"
  by (simp_all add: clh_w1_def clh_eval)

lemma clhlock_fifo_witness:
  "clh_owns clh_w1 1 \<and> clhlock_has_waiters 1 (clh_mem_of clh_w1) \<and>
   fifo_order (\<lambda>i. clh_queued (clh_pcs clh_w1 i)) (clh_owns clh_w1) [0, 1, 0] [0, 1] [0]"
proof -
  have o: "clh_owns clh_w1 1" by (simp add: clh_owns_def clh_w1_state del: One_nat_def)
  obtain waiting where w: "fifo_order (\<lambda>i. clh_queued (clh_pcs clh_w1 i)) (clh_owns clh_w1) [0, 1, 0] [0, 1] waiting"
    "clhlock_has_waiters 1 (clh_mem_of clh_w1) = (waiting \<noteq> [])"
    using clhlock_fifo [OF clh_w1_hist] o by blast
  then have "waiting = [0]" by (simp add: fifo_order_def)
  with w o show ?thesis by simp
qed

end
