(* ===== verification/Chaselev.thy ===== *)
theory Chaselev
  imports Vatomic
begin

text \<open>
  The work-stealing deque of Chase and Lev, \<^verbatim>\<open>queue/chaselev.h\<close>. Thread 0 owns the deque: it pushes
  and pops at the bottom; any number of other threads steal at the top. The array and its size do not
  change after the initialisation and are read together with the access before. The positions are
  64-bit counters; the development assumes that fewer than \<open>2 ^ 64 - 1\<close> values are pushed in all.
\<close>

section \<open>Operations\<close>

datatype vdeque_state_t = VDEQUE_STATE_OK | VDEQUE_STATE_EMPTY | VDEQUE_STATE_FULL | VDEQUE_STATE_ABORT

record vdeque_array_t =
  dq_size :: vsize
  dq_buffer :: "ptr list"

record vdeque_t =
  dq_top :: vsize
  dq_bottom :: vsize
  dq_array :: vdeque_array_t

fun vdeque_clear :: "nat list \<Rightarrow> ptr list \<Rightarrow> ptr list res" where
  "vdeque_clear [] b = Inr b"
| "vdeque_clear (i # is) b = rbind (awrite b i (vatomic_init NULL NULL)) (vdeque_clear is)"

definition vdeque_init :: "ptr list \<Rightarrow> vsize \<Rightarrow> vdeque_t res" where
  "vdeque_init buffer len = rbind (vassert (len \<noteq> 0)) (\<lambda>_. rbind (vdeque_clear [0..<unat len] buffer) (\<lambda>b.
     Inr \<lparr>dq_top = vatomic_init 0 0, dq_bottom = vatomic_init 0 0, dq_array = \<lparr>dq_size = vatomic_init 0 len, dq_buffer = b\<rparr>\<rparr>))"

definition vdeque_buffer_read :: "vdeque_t \<Rightarrow> vsize \<Rightarrow> ptr res" where
  "vdeque_buffer_read q pos = aread (dq_buffer (dq_array q)) (unat (pos mod dq_size (dq_array q)))"

definition vdeque_buffer_write :: "vdeque_t \<Rightarrow> vsize \<Rightarrow> ptr \<Rightarrow> vdeque_t res" where
  "vdeque_buffer_write q pos v = rbind (awrite (dq_buffer (dq_array q)) (unat (pos mod dq_size (dq_array q))) v) (\<lambda>b.
     Inr (q\<lparr>dq_array := (dq_array q)\<lparr>dq_buffer := b\<rparr>\<rparr>))"

datatype push_pc = PB_bottom | PB_top vsize | PB_write vsize | PB_publish vsize

fun vdeque_push_bottom :: "ptr \<Rightarrow> (push_pc, vdeque_t, vdeque_state_t res) prog" where
  "vdeque_push_bottom in_obj PB_bottom q = (Goto (PB_top (vatomic_read (dq_bottom q))), q)"
| "vdeque_push_bottom in_obj (PB_top bottom) q =
     (let tp = vatomic_read (dq_top q); size = vatomic_read (dq_size (dq_array q))
      in if size = 0 then Ret (Inl AssertFail)
         else if bottom - tp > size - 1 then Ret (Inr VDEQUE_STATE_FULL) else Goto (PB_write bottom), q)"
| "vdeque_push_bottom in_obj (PB_write bottom) q =
     (case vdeque_buffer_write q bottom in_obj of Inl e \<Rightarrow> (Ret (Inl e), q) | Inr q' \<Rightarrow> (Goto (PB_publish bottom), q'))"
| "vdeque_push_bottom in_obj (PB_publish bottom) q =
     (Ret (Inr VDEQUE_STATE_OK), q\<lparr>dq_bottom := vatomic_write (dq_bottom q) (bottom + 1)\<rparr>)"

text \<open>The results of the two operations that take a value: the state and what was stored to \<^verbatim>\<open>*out_obj\<close>.\<close>

datatype pop_pc = PP_bottom | PP_write vsize | PP_top vsize | PP_read vsize vsize | PP_cas vsize ptr
  | PP_restore vsize vdeque_state_t "ptr option"

fun vdeque_pop_bottom :: "(pop_pc, vdeque_t, (vdeque_state_t \<times> ptr option) res) prog" where
  "vdeque_pop_bottom PP_bottom q =
     (let bottom = vatomic_read (dq_bottom q)
      in if bottom = 0 then Ret (Inr (VDEQUE_STATE_EMPTY, None)) else Goto (PP_write (bottom - 1)), q)"
| "vdeque_pop_bottom (PP_write bottom) q = (Goto (PP_top bottom), q\<lparr>dq_bottom := vatomic_write (dq_bottom q) bottom\<rparr>)"
| "vdeque_pop_bottom (PP_top bottom) q =
     (let tp = vatomic_read (dq_top q)
      in if tp \<le> bottom then Goto (PP_read bottom tp) else Goto (PP_restore bottom VDEQUE_STATE_EMPTY None), q)"
| "vdeque_pop_bottom (PP_read bottom tp) q =
     (case vdeque_buffer_read q bottom of Inl e \<Rightarrow> Ret (Inl e)
      | Inr v \<Rightarrow> if tp = bottom then Goto (PP_cas bottom v) else Ret (Inr (VDEQUE_STATE_OK, Some v)), q)"
| "vdeque_pop_bottom (PP_cas bottom v) q =
     (let (old, t) = vatomic_cmpxchg (dq_top q) bottom (bottom + 1)
      in (Goto (PP_restore bottom (if old \<noteq> bottom then VDEQUE_STATE_EMPTY else VDEQUE_STATE_OK) (Some v)), q\<lparr>dq_top := t\<rparr>))"
| "vdeque_pop_bottom (PP_restore bottom state v) q =
     (Ret (Inr (state, v)), q\<lparr>dq_bottom := vatomic_write (dq_bottom q) (bottom + 1)\<rparr>)"

datatype steal_pc = ST_top | ST_bottom vsize | ST_read vsize | ST_cas vsize ptr

fun vdeque_steal :: "(steal_pc, vdeque_t, (vdeque_state_t \<times> ptr option) res) prog" where
  "vdeque_steal ST_top q = (Goto (ST_bottom (vatomic_read (dq_top q))), q)"
| "vdeque_steal (ST_bottom tp) q =
     (if tp < vatomic_read (dq_bottom q) then Goto (ST_read tp) else Ret (Inr (VDEQUE_STATE_EMPTY, None)), q)"
| "vdeque_steal (ST_read tp) q = (case vdeque_buffer_read q tp of Inl e \<Rightarrow> Ret (Inl e) | Inr v \<Rightarrow> Goto (ST_cas tp v), q)"
| "vdeque_steal (ST_cas tp v) q =
     (let (old, t) = vatomic_cmpxchg (dq_top q) tp (tp + 1)
      in (Ret (Inr (if old \<noteq> tp then VDEQUE_STATE_ABORT else VDEQUE_STATE_OK, Some v)), q\<lparr>dq_top := t\<rparr>))"

section \<open>Threads\<close>

datatype dq_pc = DqIdle | DqPush ptr push_pc | DqPop pop_pc | DqSteal steal_pc | DqFault fault

text \<open>\<open>dq_in\<close> and \<open>dq_out\<close> are the values of the calls that have returned \<^verbatim>\<open>VDEQUE_STATE_OK\<close>.\<close>

record dq_sys =
  dq_q :: vdeque_t
  dq_pcs :: "tid \<Rightarrow> dq_pc"
  dq_in :: "ptr list"
  dq_out :: "(tid \<times> ptr) list"

definition vdeque_start :: "ptr list \<Rightarrow> vsize \<Rightarrow> dq_sys \<Rightarrow> bool" where
  "vdeque_start buffer len s \<longleftrightarrow> vdeque_init buffer len = Inr (dq_q s) \<and> (\<forall>i. dq_pcs s i = DqIdle) \<and> dq_in s = [] \<and> dq_out s = []"

fun dq_taken :: "tid \<Rightarrow> ('l, (vdeque_state_t \<times> ptr option) res) ctl \<Rightarrow> (tid \<times> ptr) list" where
  "dq_taken i (Ret (Inr (VDEQUE_STATE_OK, Some v))) = [(i, v)]"
| "dq_taken i _ = []"

inductive vdeque_step :: "tid \<Rightarrow> dq_sys \<Rightarrow> dq_sys \<Rightarrow> bool" where
  dq_call: "dq_pcs s i = DqIdle \<Longrightarrow> (if i = 0 then p = DqPop PP_bottom \<or> (\<exists>v. p = DqPush v PB_bottom) else p = DqSteal ST_top) \<Longrightarrow>
     vdeque_step i s (s\<lparr>dq_pcs := (dq_pcs s)(i := p)\<rparr>)"
| dq_push: "dq_pcs s i = DqPush v p \<Longrightarrow> vdeque_push_bottom v p (dq_q s) = (r, q) \<Longrightarrow>
     vdeque_step i s (s\<lparr>dq_q := q, dq_in := dq_in s @ (if r = Ret (Inr VDEQUE_STATE_OK) then [v] else []), dq_pcs := (dq_pcs s)(i :=
       case r of Goto p' \<Rightarrow> DqPush v p' | Ret (Inr _) \<Rightarrow> DqIdle | Ret (Inl e) \<Rightarrow> DqFault e)\<rparr>)"
| dq_pop: "dq_pcs s i = DqPop p \<Longrightarrow> vdeque_pop_bottom p (dq_q s) = (r, q) \<Longrightarrow>
     vdeque_step i s (s\<lparr>dq_q := q, dq_out := dq_out s @ dq_taken i r, dq_pcs := (dq_pcs s)(i :=
       case r of Goto p' \<Rightarrow> DqPop p' | Ret (Inr _) \<Rightarrow> DqIdle | Ret (Inl e) \<Rightarrow> DqFault e)\<rparr>)"
| dq_steal: "dq_pcs s i = DqSteal p \<Longrightarrow> vdeque_steal p (dq_q s) = (r, q) \<Longrightarrow>
     vdeque_step i s (s\<lparr>dq_q := q, dq_out := dq_out s @ dq_taken i r, dq_pcs := (dq_pcs s)(i :=
       case r of Goto p' \<Rightarrow> DqSteal p' | Ret (Inr _) \<Rightarrow> DqIdle | Ret (Inl e) \<Rightarrow> DqFault e)\<rparr>)"

text \<open>Fewer than \<open>2 ^ 64 - 1\<close> values are pushed.\<close>

definition vdeque_nstep :: "tid \<Rightarrow> dq_sys \<Rightarrow> dq_sys \<Rightarrow> bool" where
  "vdeque_nstep i s t \<longleftrightarrow> vdeque_step i s t \<and> length (dq_in t) < 2 ^ 64 - 1"

section \<open>The abstract deque\<close>

text \<open>The values pushed so far, the contents and the values taken so far, with their takers.\<close>

type_synonym deque = "ptr list \<times> ptr list \<times> (tid \<times> ptr) list"

inductive deque_spec :: "nat \<Rightarrow> tid \<Rightarrow> deque \<Rightarrow> deque \<Rightarrow> bool" for cap where
  d_push: "length d < cap \<Longrightarrow> deque_spec cap 0 (ins, d, outs) (ins @ [v], d @ [v], outs)"
| d_pop: "deque_spec cap 0 (ins, d @ [v], outs) (ins, d, outs @ [(0, v)])"
| d_steal: "i \<noteq> 0 \<Longrightarrow> deque_spec cap i (ins, v # d, outs) (ins, d, outs @ [(i, v)])"

definition deque_inv :: "nat \<Rightarrow> deque \<Rightarrow> bool" where
  "deque_inv cap a \<longleftrightarrow> (case a of (ins, d, outs) \<Rightarrow> mset ins = mset d + mset (map snd outs) \<and> length d \<le> cap)"

interpretation deque: inductive_invariant "\<lambda>a. a = ([], [], [])" "deque_spec cap" "deque_inv cap" for cap
proof unfold_locales
  show "deque_inv cap t" if inv: "deque_inv cap s" and st: "deque_spec cap i s t" for s i t cap
    using st inv by cases (auto simp: deque_inv_def)
qed (simp add: deque_inv_def)

text \<open>
  The contents are the positions from the top to the bottom; while the owner pops, its decrement of
  the bottom does not count until the value is taken.
\<close>

fun dq_reserving :: "dq_pc \<Rightarrow> bool" where
  "dq_reserving (DqPop (PP_top b)) = True"
| "dq_reserving (DqPop (PP_read b t)) = True"
| "dq_reserving (DqPop (PP_cas b v)) = True"
| "dq_reserving (DqPop (PP_restore b st v)) = True"
| "dq_reserving _ = False"

definition dq_end :: "vdeque_t \<Rightarrow> dq_pc \<Rightarrow> nat" where
  "dq_end q p = unat (dq_bottom q) + (if dq_reserving p then 1 else 0)"

definition dq_slot :: "vdeque_t \<Rightarrow> nat \<Rightarrow> ptr" where
  "dq_slot q k = dq_buffer (dq_array q) ! (k mod unat (dq_size (dq_array q)))"

definition dq_contents :: "dq_sys \<Rightarrow> ptr list" where
  "dq_contents s = map (dq_slot (dq_q s)) [unat (dq_top (dq_q s))..<dq_end (dq_q s) (dq_pcs s 0)]"

text \<open>The value the owner has won with its compare-and-exchange but not returned yet.\<close>

fun dq_won :: "dq_pc \<Rightarrow> (tid \<times> ptr) list" where
  "dq_won (DqPop (PP_restore b VDEQUE_STATE_OK (Some v))) = [(0, v)]"
| "dq_won _ = []"

fun dq_owner_ok :: "vdeque_t \<Rightarrow> dq_pc \<Rightarrow> bool" where
  "dq_owner_ok q DqIdle \<longleftrightarrow> True"
| "dq_owner_ok q (DqPush v PB_bottom) \<longleftrightarrow> True"
| "dq_owner_ok q (DqPush v (PB_top b)) \<longleftrightarrow> b = dq_bottom q"
| "dq_owner_ok q (DqPush v (PB_write b)) \<longleftrightarrow> b = dq_bottom q \<and> unat b < unat (dq_top q) + unat (dq_size (dq_array q))"
| "dq_owner_ok q (DqPush v (PB_publish b)) \<longleftrightarrow> b = dq_bottom q \<and> unat b < unat (dq_top q) + unat (dq_size (dq_array q)) \<and> dq_slot q (unat b) = v"
| "dq_owner_ok q (DqPop PP_bottom) \<longleftrightarrow> True"
| "dq_owner_ok q (DqPop (PP_write b)) \<longleftrightarrow> unat (dq_bottom q) = unat b + 1"
| "dq_owner_ok q (DqPop (PP_top b)) \<longleftrightarrow> b = dq_bottom q"
| "dq_owner_ok q (DqPop (PP_read b t)) \<longleftrightarrow> b = dq_bottom q \<and> unat t \<le> unat (dq_top q) \<and> t \<le> b \<and> (t \<noteq> b \<longrightarrow> unat (dq_top q) \<le> unat b)"
| "dq_owner_ok q (DqPop (PP_cas b v)) \<longleftrightarrow> b = dq_bottom q \<and> unat b \<le> unat (dq_top q) \<and> (dq_top q = b \<longrightarrow> dq_slot q (unat b) = v)"
| "dq_owner_ok q (DqPop (PP_restore b st v)) \<longleftrightarrow> b = dq_bottom q \<and> unat (dq_top q) = unat b + 1 \<and>
     (st = VDEQUE_STATE_EMPTY \<or> st = VDEQUE_STATE_OK \<and> v \<noteq> None)"
| "dq_owner_ok q _ \<longleftrightarrow> False"

text \<open>A thief with position \<open>t\<close>: as long as the top is \<open>t\<close>, position \<open>t\<close> is in the deque and its value stays.\<close>

fun dq_thief_ok :: "vdeque_t \<Rightarrow> nat \<Rightarrow> dq_pc \<Rightarrow> bool" where
  "dq_thief_ok q e DqIdle \<longleftrightarrow> True"
| "dq_thief_ok q e (DqSteal ST_top) \<longleftrightarrow> True"
| "dq_thief_ok q e (DqSteal (ST_bottom t)) \<longleftrightarrow> unat t \<le> unat (dq_top q)"
| "dq_thief_ok q e (DqSteal (ST_read t)) \<longleftrightarrow> unat t \<le> unat (dq_top q) \<and> (dq_top q = t \<longrightarrow> unat t < e)"
| "dq_thief_ok q e (DqSteal (ST_cas t v)) \<longleftrightarrow> unat t \<le> unat (dq_top q) \<and> (dq_top q = t \<longrightarrow> unat t < e \<and> dq_slot q (unat t) = v)"
| "dq_thief_ok q e _ \<longleftrightarrow> False"

text \<open>Thieves that have seen a bottom above their position have positions below \<open>b\<close>.\<close>

fun dq_below :: "vsize \<Rightarrow> dq_pc \<Rightarrow> bool" where
  "dq_below b (DqSteal (ST_read t)) \<longleftrightarrow> unat t < unat b"
| "dq_below b (DqSteal (ST_cas t v)) \<longleftrightarrow> unat t < unat b"
| "dq_below b _ \<longleftrightarrow> True"

definition dq_private :: "(tid \<Rightarrow> dq_pc) \<Rightarrow> bool" where
  "dq_private pcs \<longleftrightarrow> (\<forall>b t i. pcs 0 = DqPop (PP_read b t) \<longrightarrow> t \<noteq> b \<longrightarrow> 0 < i \<longrightarrow> dq_below b (pcs i))"

definition dq_inv :: "nat \<Rightarrow> dq_sys \<Rightarrow> bool" where
  "dq_inv n s \<longleftrightarrow> unat (dq_size (dq_array (dq_q s))) = n \<and> 0 < n \<and> n \<le> length (dq_buffer (dq_array (dq_q s))) \<and>
     unat (dq_top (dq_q s)) \<le> dq_end (dq_q s) (dq_pcs s 0) \<and> dq_end (dq_q s) (dq_pcs s 0) \<le> unat (dq_top (dq_q s)) + n \<and>
     dq_end (dq_q s) (dq_pcs s 0) \<le> length (dq_in s) \<and> length (dq_in s) < 2 ^ 64 - 1 \<and>
     dq_owner_ok (dq_q s) (dq_pcs s 0) \<and> (\<forall>i>0. dq_thief_ok (dq_q s) (dq_end (dq_q s) (dq_pcs s 0)) (dq_pcs s i)) \<and>
     dq_private (dq_pcs s)"

definition dq_rel :: "nat \<Rightarrow> dq_sys \<Rightarrow> deque \<Rightarrow> bool" where
  "dq_rel n s a \<longleftrightarrow> dq_inv n s \<and> a = (dq_in s, dq_contents s, dq_out s @ dq_won (dq_pcs s 0))"

section \<open>Simulation\<close>

lemma dq_invD:
  assumes "dq_inv n s"
  shows "unat (dq_size (dq_array (dq_q s))) = n" "0 < n" "n \<le> length (dq_buffer (dq_array (dq_q s)))"
    "unat (dq_top (dq_q s)) \<le> dq_end (dq_q s) (dq_pcs s 0)" "dq_end (dq_q s) (dq_pcs s 0) \<le> unat (dq_top (dq_q s)) + n"
    "dq_end (dq_q s) (dq_pcs s 0) \<le> length (dq_in s)" "length (dq_in s) < 2 ^ 64 - 1" "dq_owner_ok (dq_q s) (dq_pcs s 0)"
    "0 < i \<Longrightarrow> dq_thief_ok (dq_q s) (dq_end (dq_q s) (dq_pcs s 0)) (dq_pcs s i)"
    "dq_private (dq_pcs s)"
  using assms by (simp_all add: dq_inv_def)

lemma dq_privateI: "(\<And>b t i. pcs 0 = DqPop (PP_read b t) \<Longrightarrow> t \<noteq> b \<Longrightarrow> 0 < i \<Longrightarrow> dq_below b (pcs i)) \<Longrightarrow> dq_private pcs"
  and dq_privateD: "dq_private pcs \<Longrightarrow> pcs 0 = DqPop (PP_read b t) \<Longrightarrow> t \<noteq> b \<Longrightarrow> 0 < i \<Longrightarrow> dq_below b (pcs i)"
  unfolding dq_private_def by blast+

lemma dq_private_upd:
  assumes "dq_private pcs" and "0 < i" and "\<And>b t. pcs 0 = DqPop (PP_read b t) \<Longrightarrow> t \<noteq> b \<Longrightarrow> dq_below b p"
  shows "dq_private (pcs(i := p))"
  using assms(2,3) dq_privateD [OF assms(1)] by (intro dq_privateI) (auto split: if_splits)

lemma unat_Suc64: "unat (b :: vsize) + 1 < 2 ^ 64 \<Longrightarrow> unat (b + 1) = unat b + 1"
  by (simp add: unat_word_ariths)

text \<open>Reading and writing a slot.\<close>

lemma buffer_read:
  assumes "unat (dq_size (dq_array q)) = n" "0 < n" "n \<le> length (dq_buffer (dq_array q))"
  shows "vdeque_buffer_read q pos = Inr (dq_slot q (unat pos))"
proof -
  have "unat pos mod n < length (dq_buffer (dq_array q))" using assms(2,3) mod_less_divisor [of n "unat pos"] by linarith
  then show ?thesis using assms(1) by (simp add: vdeque_buffer_read_def dq_slot_def unat_mod)
qed

lemma buffer_write:
  assumes "unat (dq_size (dq_array q)) = n" "0 < n" "n \<le> length (dq_buffer (dq_array q))"
  obtains q' where "vdeque_buffer_write q pos v = Inr q'" "dq_top q' = dq_top q" "dq_bottom q' = dq_bottom q"
    "dq_size (dq_array q') = dq_size (dq_array q)" "length (dq_buffer (dq_array q')) = length (dq_buffer (dq_array q))"
    "dq_slot q' (unat pos) = v" "\<And>k. k mod n \<noteq> unat pos mod n \<Longrightarrow> dq_slot q' k = dq_slot q k"
proof -
  have i: "unat pos mod n < length (dq_buffer (dq_array q))" using assms(2,3) mod_less_divisor [of n "unat pos"] by linarith
  show thesis
    by (rule that [of "q\<lparr>dq_array := (dq_array q)\<lparr>dq_buffer := (dq_buffer (dq_array q))[unat pos mod n := v]\<rparr>\<rparr>"])
      (use assms(1) i in \<open>auto simp: vdeque_buffer_write_def dq_slot_def unat_mod\<close>)
qed

lemma dq_thief_cong:
  assumes "dq_thief_ok q e p" and "dq_top q' = dq_top q"
    and "unat (dq_top q) < e \<Longrightarrow> unat (dq_top q) < e' \<and> dq_slot q' (unat (dq_top q)) = dq_slot q (unat (dq_top q))"
  shows "dq_thief_ok q' e' p"
  using assms by (cases "(q, e, p)" rule: dq_thief_ok.cases) auto

lemma dq_thief_shrink:
  assumes "dq_thief_ok q e p" and "dq_below b p"
  shows "dq_thief_ok q (unat b) p"
  using assms by (cases "(q, e, p)" rule: dq_thief_ok.cases) auto

text \<open>A thief moves without an effect on the deque.\<close>

lemma dq_thief_move:
  assumes inv: "dq_inv n s" and i: "0 < i" and ok: "dq_thief_ok (dq_q s) (dq_end (dq_q s) (dq_pcs s 0)) p"
    and below: "\<And>b t. dq_pcs s 0 = DqPop (PP_read b t) \<Longrightarrow> t \<noteq> b \<Longrightarrow> dq_below b p"
  shows "dq_rel n (s\<lparr>dq_pcs := (dq_pcs s)(i := p)\<rparr>) (dq_in s, dq_contents s, dq_out s @ dq_won (dq_pcs s 0))"
  using inv i ok dq_private_upd [OF dq_invD(10) [OF inv] i below] unfolding dq_rel_def dq_inv_def dq_contents_def by simp

text \<open>The owner moves without an effect on the deque.\<close>

lemma dq_owner_move:
  assumes inv: "dq_inv n s" and ok: "dq_owner_ok (dq_q s) p" and res: "dq_reserving p = dq_reserving (dq_pcs s 0)"
    and won: "dq_won p = dq_won (dq_pcs s 0)"
    and priv: "dq_private ((dq_pcs s)(0 := p))"
  shows "dq_rel n (s\<lparr>dq_pcs := (dq_pcs s)(0 := p)\<rparr>) (dq_in s, dq_contents s, dq_out s @ dq_won (dq_pcs s 0))"
  using assms unfolding dq_rel_def dq_inv_def dq_contents_def dq_end_def by simp

lemma dq_thief_steal:
  assumes inv: "dq_inv n s" and i: "0 < i" and pc: "dq_pcs s i = DqSteal (ST_cas t v)" and top: "dq_top (dq_q s) = t"
  defines "s' \<equiv> s\<lparr>dq_q := (dq_q s)\<lparr>dq_top := t + 1\<rparr>, dq_out := dq_out s @ [(i, v)], dq_pcs := (dq_pcs s)(i := DqIdle)\<rparr>"
  shows "\<exists>d. dq_contents s = v # d \<and> dq_won (dq_pcs s 0) = [] \<and> dq_rel n s' (dq_in s, d, dq_out s @ [(i, v)])"
proof -
  let ?q = "dq_q s" and ?q' = "(dq_q s)\<lparr>dq_top := t + 1\<rparr>" and ?e = "dq_end (dq_q s) (dq_pcs s 0)"
  have t: "unat t < ?e" "dq_slot ?q (unat t) = v" using dq_invD(9) [OF inv i] pc top by auto
  then have t1: "unat (t + 1) = unat t + 1" using dq_invD(6,7) [OF inv] by (intro unat_Suc64) linarith
  then have ne: "t \<noteq> t + 1" by (metis Suc_eq_plus1 n_not_Suc_n)
  have e: "dq_end ?q' p = dq_end ?q p" and slot: "dq_slot ?q' = dq_slot ?q" for p by (auto simp: dq_end_def dq_slot_def)
  have c: "dq_contents s = v # map (dq_slot ?q) [unat t + 1..<?e]"
    using t top by (simp add: dq_contents_def upt_conv_Cons)
  have thief: "dq_thief_ok ?q' ?e (dq_pcs s j)" if "0 < j" for j
    using dq_invD(9) [OF inv that] t1 ne top by (cases "(?q, ?e, dq_pcs s j)" rule: dq_thief_ok.cases) auto
  have own: "dq_owner_ok ?q' (dq_pcs s 0)"
    using dq_invD(8) [OF inv] dq_privateD [OF dq_invD(10) [OF inv] _ _ i] pc t t1 top
    by (cases "(?q, dq_pcs s 0)" rule: dq_owner_ok.cases) (auto simp: slot dq_end_def)
  have won: "dq_won (dq_pcs s 0) = []"
    using dq_invD(8) [OF inv] t top by (cases "dq_pcs s 0" rule: dq_won.cases) (auto simp: dq_end_def)
  have "dq_inv n s'"
    using dq_invD(1-7) [OF inv] dq_private_upd [OF dq_invD(10) [OF inv] i, of DqIdle] thief own t t1 top i unfolding dq_inv_def s'_def
    by (simp add: e)
  then show ?thesis using c won t1 i by (auto simp: dq_rel_def s'_def dq_contents_def e slot)
qed

lemma dq_sim_steal:
  assumes inv: "dq_inv n s" and i: "0 < i" and pc: "dq_pcs s i = DqSteal p" and run: "vdeque_steal p (dq_q s) = (r, q)"
  defines "s' \<equiv> s\<lparr>dq_q := q, dq_out := dq_out s @ dq_taken i r, dq_pcs := (dq_pcs s)(i :=
       case r of Goto p' \<Rightarrow> DqSteal p' | Ret (Inr _) \<Rightarrow> DqIdle | Ret (Inl e) \<Rightarrow> DqFault e)\<rparr>"
    and "a \<equiv> (dq_in s, dq_contents s, dq_out s @ dq_won (dq_pcs s 0))"
  shows "\<exists>b. dq_rel n s' b \<and> (b = a \<or> deque_spec n i a b)"
proof -
  note ok = dq_invD(9) [OF inv i, unfolded pc]
  have same: "s\<lparr>dq_q := dq_q s, dq_out := dq_out s @ [], dq_pcs := f\<rparr> = s\<lparr>dq_pcs := f\<rparr>" for f by simp
  have quiet: ?thesis if "q = dq_q s" "dq_taken i r = []"
      "dq_thief_ok (dq_q s) (dq_end (dq_q s) (dq_pcs s 0)) (case r of Goto p' \<Rightarrow> DqSteal p' | Ret (Inr _) \<Rightarrow> DqIdle | Ret (Inl e) \<Rightarrow> DqFault e)"
      "\<And>b t. dq_pcs s 0 = DqPop (PP_read b t) \<Longrightarrow> t \<noteq> b \<Longrightarrow> dq_below b (case r of Goto p' \<Rightarrow> DqSteal p' | Ret (Inr _) \<Rightarrow> DqIdle | Ret (Inl e) \<Rightarrow> DqFault e)"
    using dq_thief_move [OF inv i that(3)] that(4) unfolding s'_def a_def that(1,2) same by blast
  show ?thesis
  proof (cases p)
    case ST_top
    then show ?thesis using run by (intro quiet) (auto simp: vsync_simps)
  next
    case (ST_bottom t)
    have "b = dq_bottom (dq_q s)" if "dq_pcs s 0 = DqPop (PP_read b t)" for b t using dq_invD(8) [OF inv] that by simp
    then show ?thesis using run ST_bottom ok by (intro quiet) (auto simp: vsync_simps word_less_nat_alt dq_end_def)
  next
    case (ST_read t)
    then show ?thesis using run ok buffer_read [OF dq_invD(1-3) [OF inv]] dq_privateD [OF dq_invD(10) [OF inv] _ _ i] pc
      by (intro quiet) auto
  next
    case (ST_cas t v)
    show ?thesis
    proof (cases "dq_top (dq_q s) = t")
      case True
      then have r: "r = Ret (Inr (VDEQUE_STATE_OK, Some v))" "q = (dq_q s)\<lparr>dq_top := t + 1\<rparr>"
        using run ST_cas by (auto simp: vsync_simps)
      from dq_thief_steal [OF inv i _ True] pc ST_cas obtain d where
        d: "dq_contents s = v # d" "dq_won (dq_pcs s 0) = []" "dq_rel n s' (dq_in s, d, dq_out s @ [(i, v)])"
        by (auto simp: s'_def r)
      then show ?thesis using i by (auto simp: a_def intro: d_steal)
    next
      case False
      then show ?thesis using run ST_cas by (intro quiet) (auto simp: vsync_simps)
    qed
  qed
qed

lemma dq_private_0: "(\<And>b t. p \<noteq> DqPop (PP_read b t)) \<Longrightarrow> dq_private (pcs(0 := p))"
  by (rule dq_privateI) auto

text \<open>The test for a full deque is exact.\<close>

lemma dq_full_test:
  assumes inv: "dq_inv n s" and pc: "dq_pcs s 0 = DqPush v (PB_top b)"
  shows "b - dq_top (dq_q s) > dq_size (dq_array (dq_q s)) - 1 \<longleftrightarrow> length (dq_contents s) = n"
    "length (dq_contents s) = n \<longleftrightarrow> unat (dq_top (dq_q s)) + n \<le> unat b" "dq_size (dq_array (dq_q s)) \<noteq> 0"
proof -
  have b: "b = dq_bottom (dq_q s)" using dq_invD(8) [OF inv] pc by simp
  have e: "dq_end (dq_q s) (dq_pcs s 0) = unat b" by (simp add: dq_end_def pc b)
  note d = dq_invD(1-7) [OF inv, unfolded e]
  show z: "dq_size (dq_array (dq_q s)) \<noteq> 0" using d(1,2) by auto
  show "length (dq_contents s) = n \<longleftrightarrow> unat (dq_top (dq_q s)) + n \<le> unat b" using d(4,5) by (auto simp: dq_contents_def e)
  have "unat (b - dq_top (dq_q s)) = unat b - unat (dq_top (dq_q s))" using d(4) by (intro unat_sub) (simp add: word_le_nat_alt)
  moreover have "unat (dq_size (dq_array (dq_q s)) - 1) = n - 1" using z d(1) by (simp add: unat_minus_one)
  ultimately show "b - dq_top (dq_q s) > dq_size (dq_array (dq_q s)) - 1 \<longleftrightarrow> length (dq_contents s) = n"
    using d(2,4,5) by (auto simp: word_less_nat_alt dq_contents_def e)
qed

lemma dq_push_write:
  assumes inv: "dq_inv n s" and pc: "dq_pcs s 0 = DqPush v (PB_write b)" and run: "vdeque_buffer_write (dq_q s) b v = Inr q"
  defines "s' \<equiv> s\<lparr>dq_q := q, dq_pcs := (dq_pcs s)(0 := DqPush v (PB_publish b))\<rparr>"
  shows "dq_rel n s' (dq_in s, dq_contents s, dq_out s @ dq_won (dq_pcs s 0))"
proof -
  note d = dq_invD [OF inv]
  have b: "b = dq_bottom (dq_q s)" "unat b < unat (dq_top (dq_q s)) + n" using d(1,8) pc by auto
  have e: "dq_end (dq_q s) (dq_pcs s 0) = unat b" by (simp add: dq_end_def pc b(1))
  obtain q' where q': "vdeque_buffer_write (dq_q s) b v = Inr q'" "dq_top q' = dq_top (dq_q s)" "dq_bottom q' = dq_bottom (dq_q s)"
    "dq_size (dq_array q') = dq_size (dq_array (dq_q s))" "length (dq_buffer (dq_array q')) = length (dq_buffer (dq_array (dq_q s)))"
    "dq_slot q' (unat b) = v" "\<And>k. k mod n \<noteq> unat b mod n \<Longrightarrow> dq_slot q' k = dq_slot (dq_q s) k"
    by (rule buffer_write [OF d(1-3), of b v]) (rule that)
  have q: "q' = q" using q'(1) run by simp
  have slot: "dq_slot q k = dq_slot (dq_q s) k" if "unat (dq_top (dq_q s)) \<le> k" "k < unat b" for k
    using q'(7) [OF slot_distinct [of k "unat b" n]] that b(2) q by simp
  have e': "dq_end q (DqPush v (PB_publish b)) = unat b" using q'(3) b(1) by (simp add: dq_end_def q)
  have thief: "dq_thief_ok q (unat b) (dq_pcs s i)" if "0 < i" for i
    by (rule dq_thief_cong [OF d(9) [OF that, unfolded e]]) (use q' q slot in auto)
  have "dq_inv n s'"
    using d(1-7) b(1) [symmetric] b(2) q'(2-6) thief dq_private_0 [of "DqPush v (PB_publish b)"] unfolding dq_inv_def s'_def q by (simp add: e e')
  moreover have "dq_contents s' = dq_contents s"
    using slot q'(2) by (auto simp: dq_contents_def s'_def e e' q)
  ultimately show ?thesis by (simp add: dq_rel_def s'_def pc)
qed

lemma dq_push_publish:
  assumes inv: "dq_inv n s" and pc: "dq_pcs s 0 = DqPush v (PB_publish b)" and len: "length (dq_in s) + 1 < 2 ^ 64 - 1"
  defines "s' \<equiv> s\<lparr>dq_q := (dq_q s)\<lparr>dq_bottom := b + 1\<rparr>, dq_in := dq_in s @ [v], dq_pcs := (dq_pcs s)(0 := DqIdle)\<rparr>"
  shows "dq_rel n s' (dq_in s @ [v], dq_contents s @ [v], dq_out s @ dq_won (dq_pcs s 0)) \<and> length (dq_contents s) < n"
proof -
  note d = dq_invD [OF inv]
  let ?q = "(dq_q s)\<lparr>dq_bottom := b + 1\<rparr>"
  have b: "b = dq_bottom (dq_q s)" "unat b < unat (dq_top (dq_q s)) + n" "dq_slot (dq_q s) (unat b) = v" using d(1,8) pc by auto
  have e: "dq_end (dq_q s) (dq_pcs s 0) = unat b" by (simp add: dq_end_def pc b(1))
  have b1: "unat (b + 1) = unat b + 1" using d(6) len e by (intro unat_Suc64) linarith
  have e': "dq_end ?q DqIdle = unat b + 1" by (simp add: dq_end_def b1)
  have slot: "dq_slot ?q = dq_slot (dq_q s)" by (rule ext) (simp add: dq_slot_def)
  have thief: "dq_thief_ok ?q (unat b + 1) (dq_pcs s i)" if "0 < i" for i
    by (rule dq_thief_cong [OF d(9) [OF that, unfolded e]]) (simp_all add: slot)
  have "dq_inv n s'"
    using d(1-7) b(2,3) thief dq_private_0 [of DqIdle] len unfolding dq_inv_def s'_def by (simp add: e e')
  moreover have "dq_contents s' = dq_contents s @ [v]"
    using d(4) b(3) by (simp add: dq_contents_def s'_def e e' slot)
  moreover have "length (dq_contents s) < n" using b(2) d(2) by (simp add: dq_contents_def e)
  ultimately show ?thesis by (simp add: dq_rel_def s'_def pc)
qed

lemma dq_sim_push:
  assumes inv: "dq_inv n s" and pc: "dq_pcs s 0 = DqPush v p" and run: "vdeque_push_bottom v p (dq_q s) = (r, q)"
  defines "s' \<equiv> s\<lparr>dq_q := q, dq_in := dq_in s @ (if r = Ret (Inr VDEQUE_STATE_OK) then [v] else []), dq_pcs := (dq_pcs s)(0 :=
       case r of Goto p' \<Rightarrow> DqPush v p' | Ret (Inr _) \<Rightarrow> DqIdle | Ret (Inl e) \<Rightarrow> DqFault e)\<rparr>"
    and "a \<equiv> (dq_in s, dq_contents s, dq_out s @ dq_won (dq_pcs s 0))"
  assumes len: "length (dq_in s') < 2 ^ 64 - 1"
  shows "\<exists>b. dq_rel n s' b \<and> (b = a \<or> deque_spec n 0 a b)"
proof -
  note d = dq_invD [OF inv]
  have quiet: ?thesis if "q = dq_q s" "r \<noteq> Ret (Inr VDEQUE_STATE_OK)"
      "p' = (case r of Goto p' \<Rightarrow> DqPush v p' | Ret (Inr _) \<Rightarrow> DqIdle | Ret (Inl e) \<Rightarrow> DqFault e)" "dq_owner_ok (dq_q s) p'"
      "\<not> dq_reserving p'" "dq_won p' = []" for p'
  proof -
    have "dq_private ((dq_pcs s)(0 := p'))" using that(5) by (intro dq_private_0) auto
    with dq_owner_move [OF inv that(4)] that(5,6) pc have "dq_rel n (s\<lparr>dq_pcs := (dq_pcs s)(0 := p')\<rparr>) a" by (simp add: a_def)
    moreover have "s' = s\<lparr>dq_pcs := (dq_pcs s)(0 := p')\<rparr>" using that(1,2,3) by (simp add: s'_def)
    ultimately show ?thesis by blast
  qed
  show ?thesis
  proof (cases p)
    case PB_bottom
    then show ?thesis using run by (intro quiet [OF _ _ refl]) (auto simp: vsync_simps)
  next
    case (PB_top b)
    note f = dq_full_test [OF inv pc [unfolded PB_top]]
    have "b = dq_bottom (dq_q s)" using d(8) pc PB_top by simp
    with f run PB_top d(1) show ?thesis by (intro quiet [OF _ _ refl]) (auto simp: vsync_simps Let_def split: if_splits)
  next
    case (PB_write b)
    obtain q' where q': "vdeque_buffer_write (dq_q s) b v = Inr q'" by (rule buffer_write [OF d(1-3), of b v])
    then have "r = Goto (PB_publish b)" "q = q'" using run PB_write by auto
    with dq_push_write [OF inv _ q'] pc PB_write have "dq_rel n s' a" by (simp add: s'_def a_def)
    then show ?thesis by blast
  next
    case (PB_publish b)
    then have r: "r = Ret (Inr VDEQUE_STATE_OK)" "q = (dq_q s)\<lparr>dq_bottom := b + 1\<rparr>" using run by (auto simp: vsync_simps)
    with dq_push_publish [OF inv] pc PB_publish len
    have "dq_rel n s' (dq_in s @ [v], dq_contents s @ [v], dq_out s @ dq_won (dq_pcs s 0))" "length (dq_contents s) < n"
      by (simp_all add: s'_def)
    then show ?thesis unfolding a_def using d_push by blast
  qed
qed

text \<open>The owner lowers the bottom, and raises it again.\<close>

lemma dq_bottom_move:
  assumes inv: "dq_inv n s" and res: "dq_end q p = dq_end (dq_q s) (dq_pcs s 0)" and ok: "dq_owner_ok q p"
    and q: "q = (dq_q s)\<lparr>dq_bottom := b\<rparr>" and priv: "\<And>b t. p \<noteq> DqPop (PP_read b t)"
    and out: "outs @ dq_won p = dq_out s @ dq_won (dq_pcs s 0)"
  shows "dq_rel n (s\<lparr>dq_q := q, dq_out := outs, dq_pcs := (dq_pcs s)(0 := p)\<rparr>) (dq_in s, dq_contents s, dq_out s @ dq_won (dq_pcs s 0))"
proof -
  note d = dq_invD [OF inv]
  have slot: "dq_slot q = dq_slot (dq_q s)" by (rule ext) (simp add: dq_slot_def q)
  have "dq_thief_ok q (dq_end (dq_q s) (dq_pcs s 0)) (dq_pcs s i)" if "0 < i" for i
    by (rule dq_thief_cong [OF d(9) [OF that]]) (simp_all add: slot, simp add: q)
  then show ?thesis
    using d(1-7) ok out dq_private_0 [OF priv] unfolding dq_rel_def dq_inv_def dq_contents_def by (simp add: res slot) (simp add: q)
qed

lemma dq_pop_take:
  assumes inv: "dq_inv n s" and pc: "dq_pcs s 0 = DqPop (PP_read b t)" and t: "t \<noteq> b"
  defines "v \<equiv> dq_slot (dq_q s) (unat b)"
  shows "\<exists>d. dq_contents s = d @ [v] \<and>
    dq_rel n (s\<lparr>dq_out := dq_out s @ [(0, v)], dq_pcs := (dq_pcs s)(0 := DqIdle)\<rparr>) (dq_in s, d, dq_out s @ [(0, v)])"
proof -
  note d = dq_invD [OF inv]
  have b: "b = dq_bottom (dq_q s)" "unat (dq_top (dq_q s)) \<le> unat b" using d(8) pc t by auto
  have e: "dq_end (dq_q s) (dq_pcs s 0) = unat b + 1" "dq_end (dq_q s) DqIdle = unat b" by (simp_all add: dq_end_def pc b(1))
  have "dq_thief_ok (dq_q s) (unat b) (dq_pcs s i)" if "0 < i" for i
    using dq_thief_shrink [OF d(9) [OF that] dq_privateD [OF d(10) pc t that]] .
  then have "dq_inv n (s\<lparr>dq_out := dq_out s @ [(0, v)], dq_pcs := (dq_pcs s)(0 := DqIdle)\<rparr>)"
    using d(1-7) b(2) dq_private_0 [of DqIdle] unfolding dq_inv_def by (simp add: e)
  moreover have "dq_contents s = map (dq_slot (dq_q s)) [unat (dq_top (dq_q s))..<unat b] @ [v]"
    using b(2) by (simp add: dq_contents_def e v_def)
  ultimately show ?thesis by (auto simp: dq_rel_def dq_contents_def e)
qed

lemma dq_pop_win:
  assumes inv: "dq_inv n s" and pc: "dq_pcs s 0 = DqPop (PP_cas b v)" and top: "dq_top (dq_q s) = b"
  shows "dq_contents s = [v] \<and> dq_rel n (s\<lparr>dq_q := (dq_q s)\<lparr>dq_top := b + 1\<rparr>, dq_pcs := (dq_pcs s)(0 := DqPop (PP_restore b VDEQUE_STATE_OK (Some v)))\<rparr>)
    (dq_in s, [], dq_out s @ [(0, v)])"
proof -
  let ?q = "(dq_q s)\<lparr>dq_top := b + 1\<rparr>" and ?p = "DqPop (PP_restore b VDEQUE_STATE_OK (Some v))"
  note d = dq_invD [OF inv]
  have b: "b = dq_bottom (dq_q s)" "dq_slot (dq_q s) (unat b) = v" using d(8) pc top by auto
  have e: "dq_end (dq_q s) (dq_pcs s 0) = unat b + 1" "dq_end ?q ?p = unat b + 1" by (simp_all add: dq_end_def pc b(1))
  have b1: "unat (b + 1) = unat b + 1" using d(6,7) e by (intro unat_Suc64) linarith
  then have ne: "b \<noteq> b + 1" by (metis Suc_eq_plus1 n_not_Suc_n)
  have "dq_thief_ok ?q (unat b + 1) (dq_pcs s i)" if "0 < i" for i
    using d(9) [OF that] top b1 ne by (cases "(dq_q s, unat b + 1, dq_pcs s i)" rule: dq_thief_ok.cases) auto
  then have "dq_inv n (s\<lparr>dq_q := ?q, dq_pcs := (dq_pcs s)(0 := ?p)\<rparr>)"
    using d(1-7) b(1) [symmetric] top b1 dq_private_0 [of ?p] unfolding dq_inv_def by (simp add: e)
  moreover have "dq_contents s = [v]" using b(2) top by (simp add: dq_contents_def e)
  ultimately show ?thesis using b1 by (auto simp: dq_rel_def dq_contents_def e)
qed

lemma dq_sim_pop:
  assumes inv: "dq_inv n s" and pc: "dq_pcs s 0 = DqPop p" and run: "vdeque_pop_bottom p (dq_q s) = (r, q)"
  defines "s' \<equiv> s\<lparr>dq_q := q, dq_out := dq_out s @ dq_taken 0 r, dq_pcs := (dq_pcs s)(0 :=
       case r of Goto p' \<Rightarrow> DqPop p' | Ret (Inr _) \<Rightarrow> DqIdle | Ret (Inl e) \<Rightarrow> DqFault e)\<rparr>"
    and "a \<equiv> (dq_in s, dq_contents s, dq_out s @ dq_won (dq_pcs s 0))"
  shows "\<exists>b. dq_rel n s' b \<and> (b = a \<or> deque_spec n 0 a b)"
proof -
  note d = dq_invD [OF inv]
  have same: "s\<lparr>dq_q := dq_q s, dq_out := dq_out s @ [], dq_pcs := f\<rparr> = s\<lparr>dq_pcs := f\<rparr>" for f by simp
  have quiet: ?thesis if "q = dq_q s" "dq_taken 0 r = []"
      "p' = (case r of Goto p' \<Rightarrow> DqPop p' | Ret (Inr _) \<Rightarrow> DqIdle | Ret (Inl e) \<Rightarrow> DqFault e)" "dq_owner_ok (dq_q s) p'"
      "dq_reserving p' = dq_reserving (DqPop p)" "dq_won p' = []" "dq_won (DqPop p) = []"
      "\<And>b t i. p' = DqPop (PP_read b t) \<Longrightarrow> t \<noteq> b \<Longrightarrow> 0 < i \<Longrightarrow> dq_below b (dq_pcs s i)" for p'
  proof -
    have "dq_private ((dq_pcs s)(0 := p'))" using that(8) by (intro dq_privateI) auto
    with dq_owner_move [OF inv that(4)] that(5-7) pc have "dq_rel n (s\<lparr>dq_pcs := (dq_pcs s)(0 := p')\<rparr>) a" by (simp add: a_def)
    then show ?thesis unfolding s'_def that(1,2) same that(3) [symmetric] by blast
  qed
  show ?thesis
  proof (cases p)
    case PP_bottom
    have "unat (dq_bottom (dq_q s) - 1) + 1 = unat (dq_bottom (dq_q s))" if "dq_bottom (dq_q s) \<noteq> 0"
      using that unat_minus_one [OF that] unat_gt_0 [of "dq_bottom (dq_q s)"] by linarith
    then show ?thesis using run PP_bottom by (intro quiet [OF _ _ refl]) (auto simp: vsync_simps Let_def split: if_splits)
  next
    case (PP_write b)
    have "dq_rel n s' a" unfolding s'_def a_def
      by (rule dq_bottom_move [OF inv, of _ _ b]) (use run PP_write d(8) pc in \<open>auto simp: vsync_simps dq_end_def\<close>)
    then show ?thesis by blast
  next
    case (PP_top b)
    have b: "b = dq_bottom (dq_q s)" using d(8) pc PP_top by simp
    have below: "dq_below b (dq_pcs s i)" if "dq_top (dq_q s) \<le> b" "dq_top (dq_q s) \<noteq> b" "0 < i" for i
      using d(9) [OF that(3)] that(1,2) word_le_less_eq [of "dq_top (dq_q s)" b]
      by (cases "(b, dq_pcs s i)" rule: dq_below.cases) (auto simp: word_less_nat_alt)
    have "unat (dq_top (dq_q s)) \<le> unat b + 1" using d(4) pc PP_top b by (simp add: dq_end_def)
    then show ?thesis using run PP_top b below
      by (intro quiet [OF _ _ refl]) (auto simp: vsync_simps Let_def word_le_nat_alt split: if_splits)
  next
    case (PP_read b t)
    then have b: "b = dq_bottom (dq_q s)" "unat t \<le> unat (dq_top (dq_q s))" using d(8) pc by auto
    note rd = buffer_read [OF d(1-3), of b]
    show ?thesis
    proof (cases "t = b")
      case True
      then show ?thesis using run PP_read rd b by (intro quiet [OF _ _ refl]) auto
    next
      case False
      then have r: "r = Ret (Inr (VDEQUE_STATE_OK, Some (dq_slot (dq_q s) (unat b))))" "q = dq_q s" using run PP_read rd by auto
      from dq_pop_take [OF inv pc [unfolded PP_read] False] obtain c where
        "dq_contents s = c @ [dq_slot (dq_q s) (unat b)]" "dq_rel n s' (dq_in s, c, dq_out s @ [(0, dq_slot (dq_q s) (unat b))])"
        by (auto simp: s'_def r)
      then show ?thesis using pc PP_read by (auto simp: a_def intro: d_pop)
    qed
  next
    case (PP_cas b v)
    show ?thesis
    proof (cases "dq_top (dq_q s) = b")
      case True
      then have r: "r = Goto (PP_restore b VDEQUE_STATE_OK (Some v))" "q = (dq_q s)\<lparr>dq_top := b + 1\<rparr>"
        using run PP_cas by (auto simp: vsync_simps)
      from dq_pop_win [OF inv pc [unfolded PP_cas] True] have "dq_contents s = [] @ [v]" "dq_rel n s' (dq_in s, [], dq_out s @ [(0, v)])"
        by (auto simp: s'_def r)
      then show ?thesis using pc PP_cas d_pop [of n "dq_in s" "[]" v "dq_out s"] by (auto simp: a_def)
    next
      case False
      have b: "b = dq_bottom (dq_q s)" "unat b \<le> unat (dq_top (dq_q s))" using d(8) pc PP_cas by auto
      moreover have "unat (dq_top (dq_q s)) \<noteq> unat b" using False by (simp add: word_unat_eq_iff)
      moreover have "unat (dq_top (dq_q s)) \<le> unat b + 1" using d(4) pc PP_cas b by (simp add: dq_end_def)
      ultimately show ?thesis using run PP_cas False by (intro quiet [OF _ _ refl]) (auto simp: vsync_simps)
    qed
  next
    case (PP_restore b st v)
    have b: "b = dq_bottom (dq_q s)" "st = VDEQUE_STATE_EMPTY \<or> st = VDEQUE_STATE_OK \<and> v \<noteq> None" using d(8) pc PP_restore by auto
    have "unat (b + 1) = unat b + 1" using d(6,7) pc PP_restore b by (intro unat_Suc64) (simp add: dq_end_def)
    then have "dq_rel n s' a" unfolding s'_def a_def
      by (intro dq_bottom_move [OF inv, of _ _ "b + 1"]) (use run PP_restore pc b in \<open>auto simp: vsync_simps dq_end_def\<close>)
    then show ?thesis by blast
  qed
qed

lemma dq_sim_step:
  assumes rel: "dq_rel n s a" and step: "vdeque_nstep i s t"
  shows "\<exists>b. dq_rel n t b \<and> (b = a \<or> deque_spec n i a b)"
proof -
  have inv: "dq_inv n s" and a: "a = (dq_in s, dq_contents s, dq_out s @ dq_won (dq_pcs s 0))" using rel by (auto simp: dq_rel_def)
  have owner: "i = 0" if "(\<exists>v p. dq_pcs s i = DqPush v p) \<or> (\<exists>p. dq_pcs s i = DqPop p)"
    using dq_invD(9) [OF inv, of i] that by (cases "i = 0") auto
  have thief: "0 < i" if "dq_pcs s i = DqSteal p" for p using dq_invD(8) [OF inv] that by (cases "i = 0") auto
  from step have "vdeque_step i s t" and len: "length (dq_in t) < 2 ^ 64 - 1" by (auto simp: vdeque_nstep_def)
  then show ?thesis
  proof cases
    case (dq_call p)
    show ?thesis
    proof (cases "i = 0")
      case True
      with dq_call have p: "p = DqPop PP_bottom \<or> (\<exists>v. p = DqPush v PB_bottom)" and idle: "dq_pcs s 0 = DqIdle" by auto
      have "dq_rel n t a" unfolding a dq_call(1) True by (rule dq_owner_move [OF inv]) (use p idle in \<open>auto intro!: dq_private_0\<close>)
      then show ?thesis by blast
    next
      case False
      then have "dq_rel n t a" using dq_call unfolding a dq_call(1) by (intro dq_thief_move [OF inv]) auto
      then show ?thesis by blast
    qed
  next
    case (dq_push v p r q)
    with owner have i: "i = 0" by blast
    show ?thesis unfolding a dq_push(1) i
      by (rule dq_sim_push [OF inv]) (use dq_push i len in simp_all)
  next
    case (dq_pop p r q)
    with owner have i: "i = 0" by blast
    show ?thesis unfolding a dq_pop(1) i by (rule dq_sim_pop [OF inv]) (use dq_pop i in simp_all)
  next
    case (dq_steal p r q)
    show ?thesis unfolding a dq_steal(1) by (rule dq_sim_steal [OF inv thief]) (use dq_steal in simp_all)
  qed
qed

lemma vdeque_clear_ok:
  "vdeque_clear is b = Inr b' \<Longrightarrow> length b' = length b \<and> (\<forall>i\<in>set is. i < length b)"
  by (induction "is" arbitrary: b) (fastforce simp: rbind_Inr_iff awrite_Inr_iff)+

lemma vdeque_start_rel:
  assumes "vdeque_start buffer len s"
  shows "dq_rel (unat len) s ([], [], [])"
proof -
  obtain b where b: "len \<noteq> 0" "vdeque_clear [0..<unat len] buffer = Inr b" "dq_q s = \<lparr>dq_top = 0, dq_bottom = 0, dq_array = \<lparr>dq_size = len, dq_buffer = b\<rparr>\<rparr>"
    and i: "\<And>i. dq_pcs s i = DqIdle" "dq_in s = []" "dq_out s = []"
    using assms by (auto simp: vdeque_start_def vdeque_init_def rbind_Inr_iff vsync_simps)
  have "0 < unat len" using b(1) by (simp add: unat_gt_0)
  moreover have "unat len \<le> length b"
  proof -
    have "unat len - 1 \<in> set [0..<unat len]" using \<open>0 < unat len\<close> by simp
    then show ?thesis using vdeque_clear_ok [OF b(2)] by fastforce
  qed
  ultimately show ?thesis using b(3) i by (simp add: dq_rel_def dq_inv_def dq_contents_def dq_end_def dq_private_def)
qed

lemma dq_pop_empty:
  assumes inv: "dq_inv n s" and pc: "dq_pcs s 0 = DqPop p"
    and r: "fst (vdeque_pop_bottom p (dq_q s)) \<in> {Ret (Inr (VDEQUE_STATE_EMPTY, None)), Goto (PP_restore b VDEQUE_STATE_EMPTY v)}"
  shows "dq_contents s = []"
proof -
  note d = dq_invD(4,8) [OF inv, unfolded pc]
  show ?thesis
  proof (cases p)
    case PP_bottom
    with r d(1) show ?thesis by (auto simp: dq_contents_def pc dq_end_def vsync_simps Let_def split: if_splits)
  next
    case (PP_top x)
    with r d show ?thesis by (auto simp: dq_contents_def pc dq_end_def vsync_simps word_le_nat_alt Let_def split: if_splits)
  next
    case (PP_read x t)
    with r buffer_read [OF dq_invD(1-3) [OF inv], of x] show ?thesis by (auto split: if_splits)
  next
    case (PP_cas x w)
    with r have "dq_top (dq_q s) \<noteq> x" by (auto simp: vsync_simps split: if_splits)
    then have "unat (dq_top (dq_q s)) \<noteq> unat x" by (simp add: word_unat_eq_iff)
    with PP_cas d show ?thesis by (auto simp: dq_contents_def pc dq_end_def)
  next
    case (PP_restore x st w)
    with d show ?thesis by (auto simp: dq_contents_def pc dq_end_def)
  qed (use r in auto)
qed

lemma dq_steal_empty:
  assumes inv: "dq_inv n s" and i: "0 < i \<and> dq_pcs s i = DqSteal (ST_bottom t) \<and> fst (vdeque_steal (ST_bottom t) (dq_q s)) = Ret (Inr (VDEQUE_STATE_EMPTY, None))"
  shows "dq_contents s = [] \<or> dq_reserving (dq_pcs s 0) \<and> length (dq_contents s) = 1"
proof -
  have "unat t \<le> unat (dq_top (dq_q s))" using dq_invD(9) [OF inv, of i] i by simp
  moreover have "unat (dq_bottom (dq_q s)) \<le> unat t" using i by (auto simp: vsync_simps word_less_nat_alt split: if_splits)
  ultimately show ?thesis using dq_invD(4) [OF inv] by (auto simp: dq_contents_def dq_end_def)
qed

interpretation chaselev: forward_simulation "vdeque_start buffer len" vdeque_nstep "\<lambda>a. a = ([], [], [])" "deque_spec (unat len)"
  "dq_rel (unat len)" for buffer len
proof unfold_locales
  show "\<exists>a. a = ([], [], []) \<and> dq_rel (unat len) s a" if "vdeque_start buffer len s" for buffer len s
    using vdeque_start_rel [OF that] by blast
  show "\<exists>b. dq_rel (unat len) t b \<and> (b = a \<or> deque_spec (unat len) i a b)" if "dq_rel (unat len) s a" "vdeque_nstep i s t" for len s a i t
    using that by (rule dq_sim_step)
qed

section \<open>Properties\<close>

text \<open>C8: the work-stealing deque refines the abstract deque, for one owner and any number of thieves in any
  interleaving: the owner pushes and pops at one end, thieves take from the other end, the contents never
  exceed the size of the array, and no value is lost, invented or taken twice: the values pushed are
  exactly those in the deque, those returned, and the one the owner has won and is about to return. No
  access is outside the array and no assertion fails.\<close>

theorem chaselev_refines_deque:
  assumes "reach (vdeque_start buffer len) vdeque_nstep s"
  shows "reach (\<lambda>a. a = ([], [], [])) (deque_spec (unat len)) (dq_in s, dq_contents s, dq_out s @ dq_won (dq_pcs s 0)) \<and>
    mset (dq_in s) = mset (dq_contents s) + mset (map snd (dq_out s @ dq_won (dq_pcs s 0))) \<and>
    length (dq_contents s) \<le> unat len \<and> (\<forall>i e. dq_pcs s i \<noteq> DqFault e)"
proof -
  let ?a = "(dq_in s, dq_contents s, dq_out s @ dq_won (dq_pcs s 0))"
  obtain a where a: "reach (\<lambda>a. a = ([], [], [])) (deque_spec (unat len)) a" "dq_rel (unat len) s a"
    using chaselev.reach_simulates [OF assms] by blast
  then have inv: "dq_inv (unat len) s" and eq: "a = ?a" by (auto simp: dq_rel_def)
  have "deque_inv (unat len) ?a" using deque.reach_inv [OF a(1)] eq by simp
  moreover have "dq_pcs s i \<noteq> DqFault e" for i e using dq_invD(8) [OF inv] dq_invD(9) [OF inv, of i] by (cases "i = 0") auto
  ultimately show ?thesis using a(1) eq by (simp add: deque_inv_def)
qed

text \<open>The results that report no value are right at the access that decides them: a push reports that
  the deque is full exactly when the contents fill the array; a pop reports that it is empty only when it
  is; a thief reports that the deque is empty only when nothing is in it or the owner is about to take the
  last value, and it aborts only when another thread has taken the value it was after.\<close>

theorem chaselev_results:
  assumes "reach (vdeque_start buffer len) vdeque_nstep s"
  shows "(\<forall>v b. dq_pcs s 0 = DqPush v (PB_top b) \<longrightarrow>
      (fst (vdeque_push_bottom v (PB_top b) (dq_q s)) = Ret (Inr VDEQUE_STATE_FULL)) = (length (dq_contents s) = unat len)) \<and>
    (\<forall>p b v. dq_pcs s 0 = DqPop p \<and>
      fst (vdeque_pop_bottom p (dq_q s)) \<in> {Ret (Inr (VDEQUE_STATE_EMPTY, None)), Goto (PP_restore b VDEQUE_STATE_EMPTY v)} \<longrightarrow> dq_contents s = []) \<and>
    (\<forall>i t. 0 < i \<and> dq_pcs s i = DqSteal (ST_bottom t) \<and> fst (vdeque_steal (ST_bottom t) (dq_q s)) = Ret (Inr (VDEQUE_STATE_EMPTY, None)) \<longrightarrow>
      dq_contents s = [] \<or> dq_reserving (dq_pcs s 0) \<and> length (dq_contents s) = 1) \<and>
    (\<forall>i t v. 0 < i \<and> dq_pcs s i = DqSteal (ST_cas t v) \<longrightarrow>
      (fst (vdeque_steal (ST_cas t v) (dq_q s)) = Ret (Inr (VDEQUE_STATE_ABORT, Some v))) = (unat t < unat (dq_top (dq_q s))))"
  (is "?full \<and> ?pop \<and> ?steal \<and> ?abort")
proof -
  obtain a where "dq_rel (unat len) s a" using chaselev.reach_simulates [OF assms] by blast
  then have inv: "dq_inv (unat len) s" by (auto simp: dq_rel_def)
  have ?full using dq_full_test [OF inv] by (auto simp: vsync_simps Let_def)
  moreover have ?pop using dq_pop_empty [OF inv] by blast
  moreover have ?steal using dq_steal_empty [OF inv] by blast
  moreover have ?abort
  proof (intro allI impI)
    fix i t v assume i: "0 < i \<and> dq_pcs s i = DqSteal (ST_cas t v)"
    then have "unat t \<le> unat (dq_top (dq_q s))" using dq_invD(9) [OF inv, of i] by simp
    then show "(fst (vdeque_steal (ST_cas t v) (dq_q s)) = Ret (Inr (VDEQUE_STATE_ABORT, Some v))) = (unat t < unat (dq_top (dq_q s)))"
      by (auto simp: vsync_simps le_less word_unat_eq_iff)
  qed
  ultimately show ?thesis by blast
qed

text \<open>An execution on an array of two slots: two pushes, a thief steals the first value while the owner pops the
  second one; then the owner pushes again and is about to read the top for a fourth push.\<close>

fun dq_move :: "dq_sys \<Rightarrow> tid \<times> dq_pc option \<Rightarrow> dq_sys option" where
  "dq_move s (i, Some p) = (if dq_pcs s i = DqIdle \<and> length (dq_in s) < 9 \<and>
      (if i = 0 then p = DqPop PP_bottom \<or> (case p of DqPush v PB_bottom \<Rightarrow> True | _ \<Rightarrow> False) else p = DqSteal ST_top)
     then Some (s\<lparr>dq_pcs := (dq_pcs s)(i := p)\<rparr>) else None)"
| "dq_move s (i, None) = (if length (dq_in s) < 9 then case dq_pcs s i of
       DqPush v p \<Rightarrow> (case vdeque_push_bottom v p (dq_q s) of (r, q) \<Rightarrow>
         Some (s\<lparr>dq_q := q, dq_in := dq_in s @ (if r = Ret (Inr VDEQUE_STATE_OK) then [v] else []), dq_pcs := (dq_pcs s)(i :=
           case r of Goto p' \<Rightarrow> DqPush v p' | Ret (Inr _) \<Rightarrow> DqIdle | Ret (Inl e) \<Rightarrow> DqFault e)\<rparr>))
     | DqPop p \<Rightarrow> (case vdeque_pop_bottom p (dq_q s) of (r, q) \<Rightarrow>
         Some (s\<lparr>dq_q := q, dq_out := dq_out s @ dq_taken i r, dq_pcs := (dq_pcs s)(i :=
           case r of Goto p' \<Rightarrow> DqPop p' | Ret (Inr _) \<Rightarrow> DqIdle | Ret (Inl e) \<Rightarrow> DqFault e)\<rparr>))
     | DqSteal p \<Rightarrow> (case vdeque_steal p (dq_q s) of (r, q) \<Rightarrow>
         Some (s\<lparr>dq_q := q, dq_out := dq_out s @ dq_taken i r, dq_pcs := (dq_pcs s)(i :=
           case r of Goto p' \<Rightarrow> DqSteal p' | Ret (Inr _) \<Rightarrow> DqIdle | Ret (Inl e) \<Rightarrow> DqFault e)\<rparr>))
     | _ \<Rightarrow> None else None)"

lemma dq_move_step:
  assumes "dq_move s x = Some t"
  shows "\<exists>i. vdeque_nstep i s t"
proof (cases x)
  case (Pair i c)
  have "vdeque_step i s t \<and> length (dq_in t) < 10"
  proof (cases c)
    case None
    show ?thesis
    proof (cases "dq_pcs s i")
      case (DqPush v p)
      obtain r q where "vdeque_push_bottom v p (dq_q s) = (r, q)" by fastforce
      with dq_push [OF DqPush this] DqPush assms Pair None show ?thesis by (auto split: if_splits)
    qed (use assms Pair None in \<open>auto split: prod.splits if_splits intro: dq_pop dq_steal\<close>)
  next
    case (Some p)
    with assms Pair show ?thesis by (auto split: if_splits dq_pc.splits push_pc.splits intro!: dq_call)
  qed
  then show ?thesis by (auto simp: vdeque_nstep_def)
qed

definition dq_w0 :: dq_sys where
  "dq_w0 = \<lparr>dq_q = \<lparr>dq_top = 0, dq_bottom = 0, dq_array = \<lparr>dq_size = 2, dq_buffer = [0, 0]\<rparr>\<rparr>, dq_pcs = (\<lambda>_. DqIdle), dq_in = [], dq_out = []\<rparr>"

abbreviation dq_run :: "(tid \<times> dq_pc option) list" where
  "dq_run \<equiv> (0, Some (DqPush 7 PB_bottom)) # replicate 4 (0, None) @ (0, Some (DqPush 8 PB_bottom)) # replicate 4 (0, None) @
     [(1, Some (DqSteal ST_top)), (1, None), (1, None), (0, Some (DqPop PP_bottom)), (0, None), (0, None), (0, None), (1, None), (1, None),
      (0, None)] @ (0, Some (DqPush 9 PB_bottom)) # replicate 4 (0, None) @ (0, Some (DqPush 5 PB_bottom)) # replicate 4 (0, None) @
     [(0, Some (DqPush 6 PB_bottom)), (0, None)]"

definition dq_w :: dq_sys where "dq_w = the (play dq_move dq_w0 dq_run)"

lemma dq_w_play: "play dq_move dq_w0 dq_run = Some dq_w"
proof -
  have "\<not> Option.is_none (play dq_move dq_w0 dq_run)" by code_simp
  then show ?thesis by (simp add: dq_w_def Option.is_none_def del: play.simps)
qed

lemma dq_w_reach: "reach (vdeque_start [3, 4] 2) vdeque_nstep dq_w"
proof -
  have "vdeque_start [3, 4] 2 dq_w0" by (simp add: vdeque_start_def dq_w0_def vdeque_init_def vsync_simps upt_rec)
  then show ?thesis using dq_w_play by (intro play_reach [of dq_move vdeque_nstep, OF dq_move_step])
qed

lemma dq_w_state:
  "dq_in dq_w = [7, 8, 9, 5]" "dq_contents dq_w = [9, 5]" "dq_out dq_w = [(1, 7), (0, 8)]" "dq_pcs dq_w 0 = DqPush 6 (PB_top 3)"
  by code_simp+

lemma chaselev_refines_deque_witness:
  "reach (\<lambda>a. a = ([], [], [])) (deque_spec (unat (2 :: vsize))) ([7, 8, 9, 5], [9, 5], [(1, 7), (0, 8)])"
  using chaselev_refines_deque [OF dq_w_reach] by (simp add: dq_w_state)

end
