(* ===== verification/Hemlock.thy ===== *)
theory Hemlock
  imports Vatomic
begin

text \<open>
  The queue lock with one word per thread, \<^verbatim>\<open>spinlock/hemlock.h\<close>. The node of a thread is one word,
  \<^verbatim>\<open>grant\<close>, in which the releasing thread stores the address \<open>l\<close> of the lock for its successor and
  which the successor clears; the releasing thread waits for that. The parameter \<open>ctr\<close> says
  whether \<^verbatim>\<open>HEMLOCK_USE_CTR\<close> is defined. One access is one step; the address of the node of thread \<open>i\<close> is \<open>Some i\<close>.
\<close>

section \<open>Operations\<close>

record hem_mem =
  hem_tail :: "tid option"
  hem_grant :: "tid \<Rightarrow> ptr"

definition set_grant :: "tid \<Rightarrow> ptr \<Rightarrow> hem_mem \<Rightarrow> hem_mem" where
  "set_grant n v m = m\<lparr>hem_grant := (hem_grant m)(n := vatomic_write (hem_grant m n) v)\<rparr>"

definition hemlock_init :: "hem_mem \<Rightarrow> hem_mem" where
  "hemlock_init m = m\<lparr>hem_tail := vatomic_write (hem_tail m) None\<rparr>"

datatype hem_try_pc = HT_write | HT_cmpxchg

fun hemlock_tryacquire :: "tid \<Rightarrow> (hem_try_pc, hem_mem, bool) prog" where
  "hemlock_tryacquire node HT_write m = (Goto HT_cmpxchg, set_grant node NULL m)"
| "hemlock_tryacquire node HT_cmpxchg m =
     (let (pred, t) = vatomic_cmpxchg (hem_tail m) None (Some node) in (Ret (pred = None), m\<lparr>hem_tail := t\<rparr>))"

datatype hem_acq_pc = HA_write | HA_xchg | HA_wait tid | HA_clear tid

fun hemlock_acquire :: "bool \<Rightarrow> ptr \<Rightarrow> tid \<Rightarrow> (hem_acq_pc, hem_mem, unit) prog" where
  "hemlock_acquire ctr l node HA_write m = (Goto HA_xchg, set_grant node NULL m)"
| "hemlock_acquire ctr l node HA_xchg m =
     (let (pred, t) = vatomic_xchg (hem_tail m) (Some node)
      in (case pred of None \<Rightarrow> Ret () | Some p \<Rightarrow> Goto (HA_wait p), m\<lparr>hem_tail := t\<rparr>))"
| "hemlock_acquire ctr l node (HA_wait pred) m =
     (if ctr then let (old, g) = vatomic_cmpxchg (hem_grant m pred) l NULL
        in (if old \<noteq> l then Goto (HA_wait pred) else Ret (), m\<lparr>hem_grant := (hem_grant m)(pred := g)\<rparr>)
      else (case vatomic_await_eq l l (hem_grant m pred) of Goto _ \<Rightarrow> Goto (HA_wait pred) | Ret _ \<Rightarrow> Goto (HA_clear pred), m))"
| "hemlock_acquire ctr l node (HA_clear pred) m = (Ret (), set_grant pred NULL m)"

datatype hem_rel_pc = HR_tail | HR_cmpxchg | HR_write | HR_await

fun hemlock_release :: "bool \<Rightarrow> ptr \<Rightarrow> tid \<Rightarrow> (hem_rel_pc, hem_mem, unit) prog" where
  "hemlock_release ctr l node HR_tail m =
     (if vatomic_read (hem_tail m) = Some node then Goto HR_cmpxchg else Goto HR_write, m)"
| "hemlock_release ctr l node HR_cmpxchg m =
     (let (old, t) = vatomic_cmpxchg (hem_tail m) (Some node) None
      in (if old = Some node then Ret () else Goto HR_write, m\<lparr>hem_tail := t\<rparr>))"
| "hemlock_release ctr l node HR_write m = (Goto HR_await, set_grant node l m)"
| "hemlock_release ctr l node HR_await m =
     (if ctr then let (old, g) = vatomic_get_add (hem_grant m node) 0
        in (if old \<noteq> NULL then Goto HR_await else Ret (), m\<lparr>hem_grant := (hem_grant m)(node := g)\<rparr>)
      else (case vatomic_await_eq NULL NULL (hem_grant m node) of Goto _ \<Rightarrow> Goto HR_await | Ret _ \<Rightarrow> Ret (), m))"

definition hemlock_has_waiters :: "tid \<Rightarrow> hem_mem \<Rightarrow> bool" where
  "hemlock_has_waiters node m \<longleftrightarrow> vatomic_read (hem_tail m) \<noteq> Some node"

section \<open>Threads\<close>

datatype hem_pc = HmIdle | HmTry hem_try_pc | HmAcq hem_acq_pc | HmHeld | HmRel hem_rel_pc

record hem_sys =
  hem_mem_of :: hem_mem
  hem_pcs :: "tid \<Rightarrow> hem_pc"

definition hemlock_start :: "ptr \<Rightarrow> hem_sys \<Rightarrow> bool" where
  "hemlock_start l s \<longleftrightarrow> l \<noteq> NULL \<and> hemlock_init (hem_mem_of s) = hem_mem_of s \<and> (\<forall>i. hem_pcs s i = HmIdle)"

fun hem_access :: "bool \<Rightarrow> ptr \<Rightarrow> tid \<Rightarrow> hem_pc \<Rightarrow> hem_mem \<Rightarrow> hem_pc \<times> hem_mem" where
  "hem_access ctr l i (HmTry p) m =
     (case hemlock_tryacquire i p m of (Goto p', m') \<Rightarrow> (HmTry p', m') | (Ret ok, m') \<Rightarrow> (if ok then HmHeld else HmIdle, m'))"
| "hem_access ctr l i (HmAcq p) m =
     (case hemlock_acquire ctr l i p m of (Goto p', m') \<Rightarrow> (HmAcq p', m') | (Ret _, m') \<Rightarrow> (HmHeld, m'))"
| "hem_access ctr l i (HmRel p) m =
     (case hemlock_release ctr l i p m of (Goto p', m') \<Rightarrow> (HmRel p', m') | (Ret _, m') \<Rightarrow> (HmIdle, m'))"
| "hem_access ctr l i p m = (p, m)"

inductive hemlock_step :: "bool \<Rightarrow> ptr \<Rightarrow> tid \<Rightarrow> hem_sys \<Rightarrow> hem_sys \<Rightarrow> bool" for ctr l where
  hem_call: "hem_pcs s i = HmIdle \<and> p \<in> {HmAcq HA_write, HmTry HT_write} \<or> hem_pcs s i = HmHeld \<and> p = HmRel HR_tail \<Longrightarrow>
     hemlock_step ctr l i s (s\<lparr>hem_pcs := (hem_pcs s)(i := p)\<rparr>)"
| hem_run: "hem_access ctr l i (hem_pcs s i) (hem_mem_of s) = (p, m) \<Longrightarrow>
     hemlock_step ctr l i s (s\<lparr>hem_mem_of := m, hem_pcs := (hem_pcs s)(i := p)\<rparr>)"

text \<open>A thread owns the lock until its release has granted it to the successor or emptied the queue.\<close>

definition hem_owns :: "hem_sys \<Rightarrow> tid \<Rightarrow> bool" where
  "hem_owns s i \<longleftrightarrow> hem_pcs s i \<in> {HmHeld, HmRel HR_tail, HmRel HR_cmpxchg, HmRel HR_write}"

section \<open>The queue of threads\<close>

text \<open>A thread has its place once it has exchanged the tail, until its release has granted the lock to the
  next thread or emptied the queue.\<close>

fun hem_queued :: "hem_pc \<Rightarrow> bool" where
  "hem_queued (HmAcq (HA_wait p)) = True"
| "hem_queued (HmAcq (HA_clear p)) = True"
| "hem_queued HmHeld = True"
| "hem_queued (HmRel p) \<longleftrightarrow> p \<noteq> HR_await"
| "hem_queued _ = False"

text \<open>The front owns the lock, or waits for a grant that its predecessor has written.\<close>

definition hem_granted :: "ptr \<Rightarrow> (tid \<Rightarrow> ptr) \<Rightarrow> (tid \<Rightarrow> hem_pc) \<Rightarrow> tid \<Rightarrow> bool" where
  "hem_granted l g pcs p \<longleftrightarrow> pcs p = HmRel HR_await \<and> g p = l"

fun hem_front :: "ptr \<Rightarrow> (tid \<Rightarrow> ptr) \<Rightarrow> (tid \<Rightarrow> hem_pc) \<Rightarrow> nat \<Rightarrow> hem_pc \<Rightarrow> bool" where
  "hem_front l g pcs n (HmAcq (HA_wait p)) \<longleftrightarrow> hem_granted l g pcs p"
| "hem_front l g pcs n (HmAcq (HA_clear p)) \<longleftrightarrow> hem_granted l g pcs p"
| "hem_front l g pcs n HmHeld \<longleftrightarrow> True"
| "hem_front l g pcs n (HmRel HR_write) \<longleftrightarrow> 1 < n"
| "hem_front l g pcs n (HmRel p) \<longleftrightarrow> p \<noteq> HR_await"
| "hem_front l g pcs n _ \<longleftrightarrow> False"

text \<open>The words of the threads: empty in the queue and before the exchange of the tail; after a
  release either empty or granted to the front.\<close>

definition hem_words :: "ptr \<Rightarrow> (tid \<Rightarrow> ptr) \<Rightarrow> (tid \<Rightarrow> hem_pc) \<Rightarrow> tid list \<Rightarrow> bool" where
  "hem_words l g pcs q \<longleftrightarrow> (\<forall>i. hem_queued (pcs i) \<or> pcs i \<in> {HmAcq HA_xchg, HmTry HT_cmpxchg} \<longrightarrow> g i = NULL) \<and>
     (\<forall>i. pcs i = HmRel HR_await \<longrightarrow> g i = NULL \<or> g i = l \<and> q \<noteq> [] \<and> pcs (hd q) \<in> {HmAcq (HA_wait i), HmAcq (HA_clear i)})"

definition hem_at :: "ptr \<Rightarrow> hem_mem \<Rightarrow> (tid \<Rightarrow> hem_pc) \<Rightarrow> tid list \<Rightarrow> bool" where
  "hem_at l m pcs q \<longleftrightarrow> l \<noteq> NULL \<and> distinct q \<and> (\<forall>i. i \<in> set q \<longleftrightarrow> hem_queued (pcs i)) \<and>
     hem_tail m = (if q = [] then None else Some (last q)) \<and> (q \<noteq> [] \<longrightarrow> hem_front l (hem_grant m) pcs (length q) (pcs (hd q))) \<and>
     (\<forall>k. 0 < k \<and> k < length q \<longrightarrow> pcs (q ! k) = HmAcq (HA_wait (q ! (k - 1)))) \<and> hem_words l (hem_grant m) pcs q"

definition hem_rel :: "ptr \<Rightarrow> hem_sys \<Rightarrow> tid list \<Rightarrow> bool" where
  "hem_rel l s q \<longleftrightarrow> hem_at l (hem_mem_of s) (hem_pcs s) q"

lemma hem_atD:
  assumes "hem_at l m pcs q"
  shows "l \<noteq> NULL" "distinct q" "i \<in> set q \<longleftrightarrow> hem_queued (pcs i)" "hem_tail m = (if q = [] then None else Some (last q))"
    "q \<noteq> [] \<Longrightarrow> hem_front l (hem_grant m) pcs (length q) (pcs (hd q))"
    "0 < k \<Longrightarrow> k < length q \<Longrightarrow> pcs (q ! k) = HmAcq (HA_wait (q ! (k - 1)))"
    "hem_queued (pcs i) \<or> pcs i \<in> {HmAcq HA_xchg, HmTry HT_cmpxchg} \<Longrightarrow> hem_grant m i = NULL"
    "pcs i = HmRel HR_await \<Longrightarrow> hem_grant m i = NULL \<or> hem_grant m i = l \<and> q \<noteq> [] \<and> pcs (hd q) \<in> {HmAcq (HA_wait i), HmAcq (HA_clear i)}"
  using assms unfolding hem_at_def hem_words_def by (simp_all, blast)

lemma hem_atI:
  assumes "l \<noteq> NULL" "distinct q" "\<And>i. i \<in> set q \<longleftrightarrow> hem_queued (pcs i)" "hem_tail m = (if q = [] then None else Some (last q))"
    "q \<noteq> [] \<Longrightarrow> hem_front l (hem_grant m) pcs (length q) (pcs (hd q))"
    "\<And>k. 0 < k \<Longrightarrow> k < length q \<Longrightarrow> pcs (q ! k) = HmAcq (HA_wait (q ! (k - 1)))"
    "\<And>i. hem_queued (pcs i) \<or> pcs i \<in> {HmAcq HA_xchg, HmTry HT_cmpxchg} \<Longrightarrow> hem_grant m i = NULL"
    "\<And>i. pcs i = HmRel HR_await \<Longrightarrow> hem_grant m i = NULL \<or> hem_grant m i = l \<and> q \<noteq> [] \<and> pcs (hd q) \<in> {HmAcq (HA_wait i), HmAcq (HA_clear i)}"
  shows "hem_at l m pcs q"
  using assms unfolding hem_at_def hem_words_def by simp

lemma hem_front_cong:
  assumes "hem_front l g pcs n p" and "\<And>j. hem_granted l g pcs j \<Longrightarrow> hem_granted l g' pcs' j" and "n \<le> n'"
  shows "hem_front l g' pcs' n' p"
  using assms by (cases "(l, g, pcs, n, p)" rule: hem_front.cases) auto

lemma hem_front_waits:
  assumes at: "hem_at l m pcs q" and j: "hem_granted l (hem_grant m) pcs j"
  shows "q \<noteq> [] \<and> pcs (hd q) \<in> {HmAcq (HA_wait j), HmAcq (HA_clear j)}"
  using hem_atD(8) [OF at, of j] hem_atD(1) [OF at] j by (auto simp: hem_granted_def)

text \<open>A thread outside the queue, other than one that waits for its grant to be cleared.\<close>

lemma hem_at_outside:
  assumes at: "hem_at l m pcs q" and i: "\<not> hem_queued (pcs i)" "\<not> hem_granted l (hem_grant m) pcs i"
    and p: "\<not> hem_queued p" "p \<noteq> HmRel HR_await" "p \<in> {HmAcq HA_xchg, HmTry HT_cmpxchg} \<Longrightarrow> x = NULL"
    and m': "hem_tail m' = hem_tail m" "hem_grant m' = (hem_grant m)(i := x)"
  shows "hem_at l m' (pcs(i := p)) q"
proof -
  have iq: "i \<notin> set q" using hem_atD(3) [OF at] i(1) by simp
  then have hd: "q \<noteq> [] \<Longrightarrow> hd q \<noteq> i" using hd_in_set [of q] by auto
  have gr: "hem_granted l (hem_grant m') (pcs(i := p)) j" if "hem_granted l (hem_grant m) pcs j" for j
    using that i(2) m'(2) by (auto simp: hem_granted_def)
  show ?thesis
  proof (rule hem_atI)
    show "j \<in> set q \<longleftrightarrow> hem_queued ((pcs(i := p)) j)" for j using hem_atD(3) [OF at, of j] p(1) i(1) iq by (cases "j = i") simp_all
    show "hem_front l (hem_grant m') (pcs(i := p)) (length q) ((pcs(i := p)) (hd q))" if "q \<noteq> []"
      using hem_front_cong [OF hem_atD(5) [OF at that] gr] hd [OF that] by simp
    show "(pcs(i := p)) (q ! k) = HmAcq (HA_wait (q ! (k - 1)))" if "0 < k" "k < length q" for k
      using hem_atD(6) [OF at that] iq nth_mem [OF that(2)] by auto
    show "hem_grant m' j = NULL" if "hem_queued ((pcs(i := p)) j) \<or> (pcs(i := p)) j \<in> {HmAcq HA_xchg, HmTry HT_cmpxchg}" for j
      using hem_atD(7) [OF at, of j] that p m'(2) by (cases "j = i") auto
    show "hem_grant m' j = NULL \<or> hem_grant m' j = l \<and> q \<noteq> [] \<and> (pcs(i := p)) (hd q) \<in> {HmAcq (HA_wait j), HmAcq (HA_clear j)}"
      if "(pcs(i := p)) j = HmRel HR_await" for j
      using hem_atD(8) [OF at, of j] that p(2) m'(2) hd by (cases "j = i") auto
  qed (use hem_atD(1,2,4) [OF at] m' in simp_all)
qed

text \<open>The front moves and stays in the queue.\<close>

lemma hem_at_front:
  assumes at: "hem_at l m pcs (i # r)" and p: "hem_queued p" "hem_front l g' pcs (length (i # r)) p"
    and m': "m' = m\<lparr>hem_grant := g'\<rparr>" and g': "\<And>j. pcs j \<noteq> HmRel HR_await \<Longrightarrow> g' j = hem_grant m j"
    and w: "\<And>j. pcs j = HmRel HR_await \<Longrightarrow> g' j = NULL \<or> g' j = l \<and> p \<in> {HmAcq (HA_wait j), HmAcq (HA_clear j)}"
  shows "hem_at l m' (pcs(i := p)) (i # r)"
proof -
  have iq: "hem_queued (pcs i)" using hem_atD(3) [OF at, of i] by simp
  have ir: "i \<notin> set r" using hem_atD(2) [OF at] by simp
  show ?thesis
  proof (rule hem_atI)
    show "j \<in> set (i # r) \<longleftrightarrow> hem_queued ((pcs(i := p)) j)" for j using hem_atD(3) [OF at, of j] p(1) iq by (cases "j = i") simp_all
    show "hem_front l (hem_grant m') (pcs(i := p)) (length (i # r)) ((pcs(i := p)) (hd (i # r)))"
    proof -
      have "hem_granted l g' (pcs(i := p)) j" if "hem_granted l g' pcs j" for j using that iq by (auto simp: hem_granted_def)
      from hem_front_cong [OF p(2) this order_refl] show ?thesis using m' by simp
    qed
    show "(pcs(i := p)) ((i # r) ! k) = HmAcq (HA_wait ((i # r) ! (k - 1)))" if "0 < k" "k < length (i # r)" for k
    proof -
      have "(i # r) ! k \<noteq> i" using that ir by (cases k) (auto dest: nth_mem)
      then show ?thesis using hem_atD(6) [OF at that] by simp
    qed
    show "hem_grant m' j = NULL" if j: "hem_queued ((pcs(i := p)) j) \<or> (pcs(i := p)) j \<in> {HmAcq HA_xchg, HmTry HT_cmpxchg}" for j
    proof -
      have "hem_queued (pcs j) \<or> pcs j \<in> {HmAcq HA_xchg, HmTry HT_cmpxchg}" using j iq by (cases "j = i") auto
      moreover from this have "pcs j \<noteq> HmRel HR_await" by auto
      ultimately show ?thesis using hem_atD(7) [OF at, of j] g' m' by simp
    qed
    show "hem_grant m' j = NULL \<or> hem_grant m' j = l \<and> i # r \<noteq> [] \<and> (pcs(i := p)) (hd (i # r)) \<in> {HmAcq (HA_wait j), HmAcq (HA_clear j)}"
      if "(pcs(i := p)) j = HmRel HR_await" for j
      using w [of j] that p(1) m' by (cases "j = i") auto
  qed (use hem_atD(1,2,4) [OF at] m' in simp_all)
qed

lemma hem_at_enter:
  assumes at: "hem_at l m pcs q" and i: "pcs i \<in> {HmAcq HA_xchg, HmTry HT_cmpxchg}"
    and p: "p = (if q = [] then HmHeld else HmAcq (HA_wait (last q)))"
  shows "i \<notin> set q" "hem_at l (m\<lparr>hem_tail := Some i\<rparr>) (pcs(i := p)) (q @ [i])"
proof -
  show iq: "i \<notin> set q" using hem_atD(3) [OF at, of i] i by auto
  have pq: "hem_queued p" by (simp add: p)
  have hd: "q \<noteq> [] \<Longrightarrow> hd q \<noteq> i" using iq hd_in_set [of q] by auto
  have gr: "hem_granted l (hem_grant m) (pcs(i := p)) j" if "hem_granted l (hem_grant m) pcs j" for j
    using that i by (auto simp: hem_granted_def)
  show "hem_at l (m\<lparr>hem_tail := Some i\<rparr>) (pcs(i := p)) (q @ [i])"
  proof (rule hem_atI)
    show "j \<in> set (q @ [i]) \<longleftrightarrow> hem_queued ((pcs(i := p)) j)" for j using hem_atD(3) [OF at, of j] pq by simp
    show "hem_front l (hem_grant (m\<lparr>hem_tail := Some i\<rparr>)) (pcs(i := p)) (length (q @ [i])) ((pcs(i := p)) (hd (q @ [i])))"
    proof (cases "q = []")
      case False
      then show ?thesis using hem_front_cong [OF hem_atD(5) [OF at False] gr, of "length (q @ [i])"] hd by simp
    qed (simp add: p)
    show "(pcs(i := p)) ((q @ [i]) ! k) = HmAcq (HA_wait ((q @ [i]) ! (k - 1)))" if k: "0 < k" "k < length (q @ [i])" for k
    proof (cases "k = length q")
      case True
      then show ?thesis using k by (auto simp: nth_append p last_conv_nth)
    next
      case False
      then have "k < length q" "q ! k \<noteq> i" "k - 1 < length q" using k iq nth_mem [of k q] by auto
      then show ?thesis using hem_atD(6) [OF at k(1)] by (simp add: nth_append)
    qed
    show "hem_grant (m\<lparr>hem_tail := Some i\<rparr>) j = NULL"
      if "hem_queued ((pcs(i := p)) j) \<or> (pcs(i := p)) j \<in> {HmAcq HA_xchg, HmTry HT_cmpxchg}" for j
      using that hem_atD(7) [OF at, of j] i by (cases "j = i") auto
    show "hem_grant (m\<lparr>hem_tail := Some i\<rparr>) j = NULL \<or> hem_grant (m\<lparr>hem_tail := Some i\<rparr>) j = l \<and> q @ [i] \<noteq> [] \<and>
        (pcs(i := p)) (hd (q @ [i])) \<in> {HmAcq (HA_wait j), HmAcq (HA_clear j)}" if j: "(pcs(i := p)) j = HmRel HR_await" for j
    proof -
      have "j \<noteq> i" using j by (auto simp: p split: if_splits)
      then show ?thesis using hem_atD(8) [OF at, of j] j hd by auto
    qed
  qed (use hem_atD(1,2) [OF at] iq in simp_all)
qed

text \<open>The owner leaves: the queue becomes empty, or the lock is granted to the next thread.\<close>

lemma hem_at_leave:
  assumes at: "hem_at l m pcs (i # r)" and i: "pcs i \<in> {HmRel HR_cmpxchg, HmRel HR_write}"
    and p: "p = (if r = [] then HmIdle else HmRel HR_await)"
    and m': "hem_tail m' = (if r = [] then None else hem_tail m)" "hem_grant m' = (if r = [] then hem_grant m else (hem_grant m)(i := l))"
  shows "hem_at l m' (pcs(i := p)) r"
proof -
  have ir: "i \<notin> set r" using hem_atD(2) [OF at] by simp
  have pq: "\<not> hem_queued p" by (simp add: p)
  have hd: "r \<noteq> [] \<Longrightarrow> hd r \<noteq> i" using ir hd_in_set [of r] by auto
  have nx: "r \<noteq> [] \<Longrightarrow> pcs (hd r) = HmAcq (HA_wait i)" using hem_atD(6) [OF at, of 1] by (cases r) auto
  have none: "\<not> hem_granted l (hem_grant m) pcs j" for j using hem_front_waits [OF at, of j] i by auto
  show ?thesis
  proof (rule hem_atI)
    show "j \<in> set r \<longleftrightarrow> hem_queued ((pcs(i := p)) j)" for j using hem_atD(3) [OF at, of j] pq ir by (cases "j = i") auto
    show "hem_front l (hem_grant m') (pcs(i := p)) (length r) ((pcs(i := p)) (hd r))" if "r \<noteq> []"
      using that nx hd m' p by (simp add: hem_granted_def)
    show "(pcs(i := p)) (r ! k) = HmAcq (HA_wait (r ! (k - 1)))" if k: "0 < k" "k < length r" for k
    proof -
      have "r ! k \<noteq> i" using ir nth_mem [OF k(2)] by auto
      then show ?thesis using hem_atD(6) [OF at, of "Suc k"] k by (cases k) auto
    qed
    show "hem_grant m' j = NULL" if j: "hem_queued ((pcs(i := p)) j) \<or> (pcs(i := p)) j \<in> {HmAcq HA_xchg, HmTry HT_cmpxchg}" for j
    proof -
      have "j \<noteq> i" using j pq by (auto simp: p split: if_splits)
      then show ?thesis using hem_atD(7) [OF at, of j] j m' by simp
    qed
    show "hem_grant m' j = NULL \<or> hem_grant m' j = l \<and> r \<noteq> [] \<and> (pcs(i := p)) (hd r) \<in> {HmAcq (HA_wait j), HmAcq (HA_clear j)}"
      if j: "(pcs(i := p)) j = HmRel HR_await" for j
    proof (cases "j = i")
      case True
      with j have "r \<noteq> []" by (auto simp: p)
      with True show ?thesis using nx hd m' by simp
    next
      case False
      with j none [of j] hem_atD(8) [OF at, of j] have "hem_grant m j = NULL" by (auto simp: hem_granted_def)
      with False show ?thesis using m' by simp
    qed
  qed (use hem_atD(1,2,4) [OF at] m' in \<open>auto split: if_splits\<close>)
qed

section \<open>Simulation\<close>

lemma hem_is_front:
  assumes at: "hem_at l m pcs q" and i: "hem_queued (pcs i)" and w: "\<And>p. pcs i \<noteq> HmAcq (HA_wait p)"
  obtains r where "q = i # r"
proof -
  have "i \<in> set q" using hem_atD(3) [OF at] i by simp
  then obtain k where k: "k < length q" "q ! k = i" by (auto simp: in_set_conv_nth)
  have "k = 0" using hem_atD(6) [OF at, of k] k w by (cases k) auto
  then show thesis using k that by (cases q) auto
qed

text \<open>A waiting thread has its grant exactly when it is the front.\<close>

lemma hem_waiter:
  assumes at: "hem_at l m pcs q" and i: "pcs i = HmAcq (HA_wait p)"
  shows "(hem_grant m p = l \<and> (\<exists>r. q = i # r) \<and> hem_granted l (hem_grant m) pcs p) \<or> hem_grant m p = NULL"
proof -
  have "i \<in> set q" using hem_atD(3) [OF at] i by simp
  then obtain k where k: "k < length q" "q ! k = i" by (auto simp: in_set_conv_nth)
  show ?thesis
  proof (cases "k = 0")
    case True
    then obtain r where "q = i # r" using k by (cases q) auto
    then show ?thesis using hem_atD(5) [OF at] i by (simp add: hem_granted_def)
  next
    case False
    then have "p = q ! (k - 1)" using hem_atD(6) [OF at, of k] k i by simp
    then have "hem_queued (pcs p)" using hem_atD(3) [OF at, of p] k by simp
    then show ?thesis using hem_atD(7) [OF at] by simp
  qed
qed

lemma hem_no_grant:
  assumes at: "hem_at l m pcs (i # r)" and i: "\<And>p. pcs i \<noteq> HmAcq (HA_wait p)" "\<And>p. pcs i \<noteq> HmAcq (HA_clear p)"
    and j: "pcs j = HmRel HR_await"
  shows "hem_grant m j = NULL"
  using hem_atD(8) [OF at j] i by simp

lemma hem_at_take:
  assumes at: "hem_at l m pcs (i # r)" and i: "pcs i \<in> {HmAcq (HA_wait p), HmAcq (HA_clear p)}"
  shows "hem_at l (m\<lparr>hem_grant := (hem_grant m)(p := NULL)\<rparr>) (pcs(i := HmHeld)) (i # r)"
proof (rule hem_at_front [OF at, where g' = "(hem_grant m)(p := NULL)"])
  have gr: "hem_granted l (hem_grant m) pcs p" using hem_atD(5) [OF at] i by auto
  show "((hem_grant m)(p := NULL)) j = hem_grant m j" if "pcs j \<noteq> HmRel HR_await" for j
    using gr that by (auto simp: hem_granted_def)
  show "((hem_grant m)(p := NULL)) j = NULL \<or> ((hem_grant m)(p := NULL)) j = l \<and> HmHeld \<in> {HmAcq (HA_wait j), HmAcq (HA_clear j)}"
    if "pcs j = HmRel HR_await" for j
    using hem_atD(8) [OF at that] i by auto
qed simp_all

abbreviation (input) hem_matches :: "ptr \<Rightarrow> tid \<Rightarrow> hem_mem \<Rightarrow> (tid \<Rightarrow> hem_pc) \<Rightarrow> tid list \<Rightarrow> bool" where
  "hem_matches l i m pcs q \<equiv> \<exists>q'. hem_at l m pcs q' \<and> (q' = q \<or> qlock_spec i q q')"

lemma hem_sim_try:
  assumes at: "hem_at l m pcs q" and pc: "pcs i = HmTry x" and acc: "hem_access ctr l i (HmTry x) m = (p, m')"
  shows "hem_matches l i m' (pcs(i := p)) q"
proof (cases x)
  case HT_write
  have "hem_at l m' (pcs(i := p)) q"
    by (rule hem_at_outside [OF at, of _ _ NULL]) (use acc pc HT_write in \<open>auto simp: hem_granted_def set_grant_def vsync_simps\<close>)
  then show ?thesis by blast
next
  case HT_cmpxchg
  show ?thesis
  proof (cases "q = []")
    case True
    then have "p = HmHeld" "m' = m\<lparr>hem_tail := Some i\<rparr>" using acc HT_cmpxchg hem_atD(4) [OF at] by (auto simp: vsync_simps)
    then have "hem_at l m' (pcs(i := p)) (q @ [i])" "qlock_spec i q (q @ [i])"
      using hem_at_enter [OF at, of i HmHeld] q_enter [of i q] True pc HT_cmpxchg by simp_all
    then show ?thesis by blast
  next
    case False
    then have p: "p = HmIdle" "m' = m" using acc HT_cmpxchg hem_atD(4) [OF at] by (auto simp: vsync_simps)
    have "hem_at l m' (pcs(i := p)) q"
      by (rule hem_at_outside [OF at, of _ _ "hem_grant m i"]) (use p pc in \<open>auto simp: hem_granted_def\<close>)
    then show ?thesis by blast
  qed
qed

lemma hem_sim_acquire:
  assumes at: "hem_at l m pcs q" and pc: "pcs i = HmAcq x" and acc: "hem_access ctr l i (HmAcq x) m = (p, m')"
  shows "hem_matches l i m' (pcs(i := p)) q"
proof (cases x)
  case HA_write
  have "hem_at l m' (pcs(i := p)) q"
    by (rule hem_at_outside [OF at, of _ _ NULL]) (use acc pc HA_write in \<open>auto simp: hem_granted_def set_grant_def vsync_simps\<close>)
  then show ?thesis by blast
next
  case HA_xchg
  have "p = (if q = [] then HmHeld else HmAcq (HA_wait (last q)))" "m' = m\<lparr>hem_tail := Some i\<rparr>"
    using acc HA_xchg hem_atD(4) [OF at] by (auto simp: vsync_simps split: if_splits)
  then have "hem_at l m' (pcs(i := p)) (q @ [i])" "qlock_spec i q (q @ [i])"
    using hem_at_enter [OF at, of i p] pc HA_xchg by (auto intro: q_enter)
  then show ?thesis by blast
next
  case (HA_wait y)
  note w = hem_waiter [OF at pc [unfolded HA_wait]]
  show ?thesis
  proof (cases "hem_grant m y = l")
    case True
    then obtain r where r: "q = i # r" and gr: "hem_granted l (hem_grant m) pcs y" using w hem_atD(1) [OF at] by auto
    have "hem_at l m' (pcs(i := p)) q"
    proof (cases ctr)
      case True
      then have "p = HmHeld" "m' = m\<lparr>hem_grant := (hem_grant m)(y := NULL)\<rparr>"
        using acc HA_wait \<open>hem_grant m y = l\<close> by (auto simp: vsync_simps)
      then show ?thesis using hem_at_take [OF at [unfolded r], of y] pc HA_wait r by simp
    next
      case False
      then have p: "p = HmAcq (HA_clear y)" "m' = m"
        using acc HA_wait True by (auto simp: vatomic_await_eq_def vsync_simps)
      show ?thesis unfolding r
        by (rule hem_at_front [OF at [unfolded r], where g' = "hem_grant m"])
          (use p gr hem_atD(8) [OF at] pc HA_wait r in auto)
    qed
    then show ?thesis by blast
  next
    case False
    then have "p = HmAcq (HA_wait y)" "m' = m"
      using acc HA_wait by (auto simp: vatomic_await_eq_def vsync_simps split: if_splits)
    then have "pcs(i := p) = pcs" "m' = m" using pc HA_wait by auto
    then show ?thesis using at by auto
  qed
next
  case (HA_clear y)
  obtain r where r: "q = i # r" using hem_is_front [OF at, of i] pc HA_clear by auto
  have "p = HmHeld" "m' = m\<lparr>hem_grant := (hem_grant m)(y := NULL)\<rparr>" using acc HA_clear by (auto simp: set_grant_def vsync_simps)
  then show ?thesis using hem_at_take [OF at [unfolded r], of y] pc HA_clear r by auto
qed

lemma hem_sim_release:
  assumes at: "hem_at l m pcs q" and pc: "pcs i = HmRel x" and acc: "hem_access ctr l i (HmRel x) m = (p, m')"
  shows "hem_matches l i m' (pcs(i := p)) q"
proof (cases "x = HR_await")
  case True
  show ?thesis
  proof (cases "hem_grant m i = NULL")
    case n: True
    then have p: "p = HmIdle" "hem_tail m' = hem_tail m" "hem_grant m' = (hem_grant m)(i := NULL)"
      using acc True by (auto simp: vatomic_await_eq_def vsync_simps split: if_splits)
    have "hem_at l m' (pcs(i := p)) q"
      by (rule hem_at_outside [OF at, of _ _ NULL]) (use p pc True n hem_atD(1) [OF at] in \<open>auto simp: hem_granted_def\<close>)
    then show ?thesis by blast
  next
    case False
    then have "p = HmRel HR_await" "m' = m"
      using acc True by (auto simp: vatomic_await_eq_def vsync_simps split: if_splits)
    then have "pcs(i := p) = pcs" "m' = m" using pc True by auto
    then show ?thesis using at by auto
  qed
next
  case False
  then obtain r where r: "q = i # r" using hem_is_front [OF at, of i] pc by auto
  note none = hem_no_grant [OF at [unfolded r], unfolded pc, simplified]
  have tail: "hem_tail m = Some (last (i # r))" using hem_atD(4) [OF at] r by simp
  have last: "last (i # r) = i \<longleftrightarrow> r = []" using hem_atD(2) [OF at] r last_in_set [of r] by (cases "r = []") auto
  have stay: ?thesis if "m' = m" "hem_queued p" "hem_front l (hem_grant m) pcs (length (i # r)) p"
    using hem_at_front [OF at [unfolded r] that(2,3), of m'] none that(1) r by auto
  have leave: ?thesis if "p = (if r = [] then HmIdle else HmRel HR_await)" "x \<in> {HR_cmpxchg, HR_write}"
      "hem_tail m' = (if r = [] then None else hem_tail m)" "hem_grant m' = (if r = [] then hem_grant m else (hem_grant m)(i := l))"
  proof -
    have "hem_at l m' (pcs(i := p)) r" by (rule hem_at_leave [OF at [unfolded r] _ that(1,3,4)]) (use pc that(2) in auto)
    moreover have "qlock_spec i q r" unfolding r by (rule q_leave)
    ultimately show ?thesis by blast
  qed
  have more: "x = HR_write \<Longrightarrow> r \<noteq> []" using hem_atD(5) [OF at] r pc by auto
  show ?thesis
  proof (cases x)
    case HR_tail
    show ?thesis by (rule stay) (use acc HR_tail tail last in \<open>auto simp: vsync_simps split: if_splits\<close>)
  next
    case HR_cmpxchg
    show ?thesis
    proof (cases "r = []")
      case True
      show ?thesis by (rule leave) (use acc HR_cmpxchg tail True in \<open>auto simp: vsync_simps\<close>)
    next
      case False
      show ?thesis by (rule stay) (use acc HR_cmpxchg tail last False in \<open>auto simp: vsync_simps split: if_splits\<close>)
    qed
  next
    case HR_write
    show ?thesis by (rule leave) (use acc HR_write more in \<open>auto simp: set_grant_def vsync_simps\<close>)
  next
    case HR_await
    then show ?thesis using \<open>x \<noteq> HR_await\<close> by simp
  qed
qed

lemma hem_sim_step:
  assumes rel: "hem_rel l s q" and step: "hemlock_step ctr l i s t"
  shows "\<exists>q'. hem_rel l t q' \<and> (q' = q \<or> qlock_spec i q q')"
proof -
  have at: "hem_at l (hem_mem_of s) (hem_pcs s) q" using rel by (simp add: hem_rel_def)
  from step show ?thesis
  proof cases
    case (hem_call p)
    show ?thesis
    proof (cases "hem_pcs s i = HmIdle")
      case True
      have "hem_at l (hem_mem_of s) ((hem_pcs s)(i := p)) q"
        by (rule hem_at_outside [OF at, of _ _ "hem_grant (hem_mem_of s) i"]) (use hem_call True in \<open>auto simp: hem_granted_def\<close>)
      then show ?thesis using hem_call by (auto simp: hem_rel_def)
    next
      case False
      with hem_call have held: "hem_pcs s i = HmHeld" "p = HmRel HR_tail" by auto
      then obtain r where r: "q = i # r" using hem_is_front [OF at, of i] by auto
      have "hem_at l (hem_mem_of s) ((hem_pcs s)(i := p)) (i # r)"
        by (rule hem_at_front [OF at [unfolded r], where g' = "hem_grant (hem_mem_of s)"])
          (use held hem_no_grant [OF at [unfolded r]] in auto)
      then show ?thesis using hem_call r by (auto simp: hem_rel_def)
    qed
  next
    case (hem_run p m)
    show ?thesis
    proof (cases "hem_pcs s i")
      case (HmTry x)
      with hem_sim_try [OF at HmTry, of ctr p m] hem_run show ?thesis by (auto simp: hem_rel_def simp del: hem_access.simps)
    next
      case (HmAcq x)
      with hem_sim_acquire [OF at HmAcq, of ctr p m] hem_run show ?thesis by (auto simp: hem_rel_def simp del: hem_access.simps)
    next
      case (HmRel x)
      with hem_sim_release [OF at HmRel, of ctr p m] hem_run show ?thesis by (auto simp: hem_rel_def simp del: hem_access.simps)
    qed (use hem_run rel fun_upd_triv [of "hem_pcs s" i] in \<open>auto simp: hem_rel_def\<close>)
  qed
qed

text \<open>The next access of a thread that waits: at the front of the queue, and behind the front.\<close>

lemma hem_first:
  assumes at: "hem_at l m pcs (a # r)" and no: "pcs a \<notin> {HmHeld, HmRel HR_tail, HmRel HR_cmpxchg, HmRel HR_write}"
  shows "\<exists>p. pcs a \<in> {HmAcq (HA_wait p), HmAcq (HA_clear p)} \<and>
    fst (hemlock_acquire ctr l a (HA_wait p) m) = (if ctr then Ret () else Goto (HA_clear p))"
proof -
  have "hem_front l (hem_grant m) pcs (length (a # r)) (pcs a)" using hem_atD(5) [OF at] by simp
  with no obtain p where p: "pcs a \<in> {HmAcq (HA_wait p), HmAcq (HA_clear p)}" "hem_grant m p = l"
    by (cases "(l, hem_grant m, pcs, length (a # r), pcs a)" rule: hem_front.cases) (auto simp: hem_granted_def)
  then show ?thesis by (intro exI [of _ p]) (simp add: vatomic_await_eq_def vsync_simps)
qed

lemma hem_later:
  assumes at: "hem_at l m pcs q" and k: "0 < k" "k < length q"
  shows "\<exists>p. pcs (q ! k) = HmAcq (HA_wait p) \<and> hemlock_acquire ctr l (q ! k) (HA_wait p) m = (Goto (HA_wait p), m)"
proof -
  let ?p = "q ! (k - 1)"
  have "?p \<in> set q" using k by (intro nth_mem) simp
  then have "hem_queued (pcs ?p)" using hem_atD(3) [OF at] by blast
  then have "hem_grant m ?p \<noteq> l" using hem_atD(1,7) [OF at] by metis
  then have "hemlock_acquire ctr l (q ! k) (HA_wait ?p) m = (Goto (HA_wait ?p), m)"
    by (simp add: vatomic_await_eq_def vsync_simps)
  with hem_atD(6) [OF at k] show ?thesis by blast
qed

lemma hem_access_leaves:
  assumes "hem_access ctr l i p m = (p', m')" and "hem_queued p" and "\<not> hem_queued p'"
  shows "\<exists>x. p = HmRel x \<and> x \<noteq> HR_await"
  using assms by (cases p) (auto simp: vatomic_await_eq_def vsync_simps Let_def elim!: hem_queued.elims(2) split: if_splits)

lemma hem_access_keeps:
  assumes "hem_access ctr l i (HmRel x) m = (p', m')" and "x \<noteq> HR_await" and "hem_queued p'"
  shows "p' \<in> {HmRel HR_tail, HmRel HR_cmpxchg, HmRel HR_write}"
  using assms by (cases x) (auto simp: vsync_simps split: if_splits)

interpretation hem: fifo_lock "hemlock_start l" "hemlock_step ctr l" "hem_rel l" hem_owns "\<lambda>s i. hem_queued (hem_pcs s i)" for ctr l
proof unfold_locales
  show "\<exists>q. q = [] \<and> hem_rel l s q" if st: "hemlock_start l s" for s l
  proof -
    have "hemlock_init (hem_mem_of s) = hem_mem_of s" using st by (simp add: hemlock_start_def)
    then have "hem_tail (hem_mem_of s) = hem_tail (hemlock_init (hem_mem_of s))" by simp
    then have "hem_tail (hem_mem_of s) = None" by (simp add: hemlock_init_def vsync_simps)
    with st have "hem_at l (hem_mem_of s) (hem_pcs s) []" by (intro hem_atI) (auto simp: hemlock_start_def)
    then show ?thesis by (simp add: hem_rel_def)
  qed
  show "\<exists>q'. hem_rel l t q' \<and> (q' = q \<or> qlock_spec i q q')" if "hem_rel l s q" "hemlock_step ctr l i s t" for l ctr s q i t
    using that by (rule hem_sim_step)
  show "q \<noteq> [] \<and> hd q = i" if rel: "hem_rel l s q" and own: "hem_owns s i" for l s q i
  proof -
    have "hem_at l (hem_mem_of s) (hem_pcs s) q" using rel by (simp add: hem_rel_def)
    then obtain r where "q = i # r" by (rule hem_is_front [of _ _ _ _ i]) (use own in \<open>auto simp: hem_owns_def\<close>)
    then show ?thesis by simp
  qed
  show "distinct q \<and> set q = {i. hem_queued (hem_pcs s i)}" if "hem_rel l s q" for l s q
    using that hem_atD(2,3) by (auto simp: hem_rel_def)
  show "hem_queued (hem_pcs t j) = hem_queued (hem_pcs s j) \<and> hem_owns t j = hem_owns s j"
    if "hemlock_step ctr l i s t" "j \<noteq> i" for ctr l s t i j
    using that by (auto simp: hem_owns_def elim!: hemlock_step.cases)
  show "hem_owns t i" if st: "hemlock_step ctr l i s t" and o: "hem_owns s i" "hem_queued (hem_pcs t i)" for ctr l s t i
    using st
  proof cases
    case (hem_run p m)
    show ?thesis
    proof (cases "hem_pcs s i = HmHeld")
      case False
      then obtain x where "hem_pcs s i = HmRel x" "x \<noteq> HR_await" using o(1) by (auto simp: hem_owns_def)
      with hem_access_keeps [of ctr l i x "hem_mem_of s" p m] hem_run o(2) show ?thesis by (auto simp: hem_owns_def simp del: hem_access.simps)
    qed (use hem_run in \<open>auto simp: hem_owns_def\<close>)
  qed (use o in \<open>auto simp: hem_owns_def\<close>)
  show "hem_owns s i" if st: "hemlock_step ctr l i s t" and o: "hem_queued (hem_pcs s i)" "\<not> hem_queued (hem_pcs t i)" for ctr l s t i
    using st
  proof cases
    case (hem_run p m)
    with hem_access_leaves [OF hem_run(2) o(1)] o(2) obtain x where "hem_pcs s i = HmRel x" "x \<noteq> HR_await" by auto
    then show ?thesis by (cases x) (auto simp: hem_owns_def)
  qed (use o in \<open>auto simp: hem_owns_def\<close>)
qed

section \<open>Properties\<close>

text \<open>C12: hemlock is a first-in-first-out lock, with and without \<^verbatim>\<open>HEMLOCK_USE_CTR\<close>, for any number of threads
  that acquire, try to acquire and release in any interleaving. Over every execution, the threads entered
  the lock exactly in the order in which they exchanged the tail, and those that exchanged it and have not
  entered are waiting. When nobody owns the lock, the first waiting thread finds the lock granted in the
  node of its predecessor (or has found it and clears it now), so its next access succeeds; every other
  waiting thread's next access leaves it waiting. \<^verbatim>\<open>hemlock_has_waiters\<close> of the owner is exact, and a
  releasing thread that waits for its node to be cleared finds it cleared or is waited for by the first
  waiting thread, which will clear it.\<close>

theorem hemlock_fifo:
  assumes "lock_hist (hemlock_start l) (hemlock_step ctr l) (\<lambda>s i. hem_queued (hem_pcs s i)) hem_owns s joined entered"
  shows "\<exists>waiting. fifo_order (\<lambda>i. hem_queued (hem_pcs s i)) (hem_owns s) joined entered waiting \<and>
    (\<forall>i. hem_owns s i \<longrightarrow> hemlock_has_waiters i (hem_mem_of s) = (waiting \<noteq> [])) \<and>
    ((\<nexists>j. hem_owns s j) \<and> waiting \<noteq> [] \<longrightarrow> (\<exists>p. hem_pcs s (hd waiting) \<in> {HmAcq (HA_wait p), HmAcq (HA_clear p)} \<and>
       fst (hemlock_acquire ctr l (hd waiting) (HA_wait p) (hem_mem_of s)) = (if ctr then Ret () else Goto (HA_clear p)))) \<and>
    (\<forall>i \<in> set waiting. (\<exists>j. hem_owns s j) \<or> i \<noteq> hd waiting \<longrightarrow> (\<exists>p. hem_pcs s i = HmAcq (HA_wait p) \<and>
       hemlock_acquire ctr l i (HA_wait p) (hem_mem_of s) = (Goto (HA_wait p), hem_mem_of s))) \<and>
    (\<forall>i. hem_pcs s i = HmRel HR_await \<longrightarrow> hem_grant (hem_mem_of s) i = NULL \<or>
       hem_grant (hem_mem_of s) i = l \<and> waiting \<noteq> [] \<and> hem_pcs s (hd waiting) \<in> {HmAcq (HA_wait i), HmAcq (HA_clear i)})"
proof -
  let ?m = "hem_mem_of s"
  obtain pre waiting where w: "fifo_order (\<lambda>i. hem_queued (hem_pcs s i)) (hem_owns s) joined entered waiting"
    and rel: "hem_rel l s (pre @ waiting)" and pre: "length pre = held (hem_owns s)" "\<forall>i\<in>set pre. hem_owns s i"
    using hem.hist_fifo [OF assms] by blast
  have at: "hem_at l ?m (hem_pcs s) (pre @ waiting)" using rel by (simp add: hem_rel_def)
  have none: "pre = []" if "\<nexists>j. hem_owns s j" using pre(1) that by (simp add: held_def)
  have own: "hemlock_has_waiters i ?m = (waiting \<noteq> [])" if i: "hem_owns s i" for i
  proof -
    have "length pre = 1" using pre(1) i by (auto simp: held_def)
    then obtain a where "pre = [a]" by (auto simp: length_Suc_conv)
    moreover from this have "a = i" using hem.rel_owns [OF rel i] by simp
    ultimately have "pre @ waiting = i # waiting" by simp
    then show ?thesis using hem_atD(2,4) [OF at] last_in_set [of waiting]
      by (cases "waiting = []") (auto simp: hemlock_has_waiters_def vsync_simps)
  qed
  have first: "\<exists>p. hem_pcs s (hd waiting) \<in> {HmAcq (HA_wait p), HmAcq (HA_clear p)} \<and>
      fst (hemlock_acquire ctr l (hd waiting) (HA_wait p) ?m) = (if ctr then Ret () else Goto (HA_clear p))"
    if no: "\<nexists>j. hem_owns s j" and ne: "waiting \<noteq> []"
  proof -
    obtain a r where "waiting = a # r" using ne by (cases waiting) auto
    moreover have "\<not> hem_owns s (hd waiting)" using no by blast
    ultimately show ?thesis using hem_first [of l ?m "hem_pcs s" a r ctr] at none [OF no] by (simp add: hem_owns_def)
  qed
  have later: "\<exists>p. hem_pcs s i = HmAcq (HA_wait p) \<and> hemlock_acquire ctr l i (HA_wait p) ?m = (Goto (HA_wait p), ?m)"
    if i: "i \<in> set waiting" and x: "(\<exists>j. hem_owns s j) \<or> i \<noteq> hd waiting" for i
  proof -
    obtain k where k: "k < length (pre @ waiting)" "(pre @ waiting) ! k = i" using i
      by (metis in_set_conv_nth Un_iff set_append)
    have "k \<noteq> 0" using waiting_place [OF hem_atD(2) [OF at] pre i k] x by blast
    then show ?thesis using hem_later [OF at, of k ctr] k by simp
  qed
  have granted: "hem_grant ?m i = NULL \<or> hem_grant ?m i = l \<and> waiting \<noteq> [] \<and> hem_pcs s (hd waiting) \<in> {HmAcq (HA_wait i), HmAcq (HA_clear i)}"
    if i: "hem_pcs s i = HmRel HR_await" for i
  proof -
    have "pre = []" if "hem_pcs s (hd (pre @ waiting)) \<in> {HmAcq (HA_wait i), HmAcq (HA_clear i)}"
    proof (rule ccontr)
      assume "pre \<noteq> []"
      then have "hem_owns s (hd (pre @ waiting))" using pre(2) by (simp add: hd_in_set)
      with that show False by (auto simp: hem_owns_def)
    qed
    then show ?thesis using hem_atD(8) [OF at i] by (metis append_Nil)
  qed
  show ?thesis
  proof (rule exI [of _ waiting], intro conjI)
    show "\<forall>i. hem_pcs s i = HmRel HR_await \<longrightarrow> hem_grant ?m i = NULL \<or>
        hem_grant ?m i = l \<and> waiting \<noteq> [] \<and> hem_pcs s (hd waiting) \<in> {HmAcq (HA_wait i), HmAcq (HA_clear i)}"
      using granted by blast
  qed (use w own first later in \<open>simp_all only: simp_thms ball_simps, blast+\<close>)
qed

text \<open>An execution: thread 0 has granted the lock to thread 1, which has seen it and has not cleared it.\<close>

fun hem_move :: "hem_sys \<Rightarrow> tid \<times> hem_pc option \<Rightarrow> hem_sys option" where
  "hem_move s (i, Some p) = (if hem_pcs s i = HmIdle \<and> p \<in> {HmAcq HA_write, HmTry HT_write} \<or> hem_pcs s i = HmHeld \<and> p = HmRel HR_tail
     then Some (s\<lparr>hem_pcs := (hem_pcs s)(i := p)\<rparr>) else None)"
| "hem_move s (i, None) = (case hem_access False 5 i (hem_pcs s i) (hem_mem_of s) of (p, m) \<Rightarrow>
     Some (s\<lparr>hem_mem_of := m, hem_pcs := (hem_pcs s)(i := p)\<rparr>))"

lemma hem_move_step: "hem_move s x = Some t \<Longrightarrow> hemlock_step False 5 (fst x) s t"
  by (cases x; cases "snd x") (auto split: if_splits prod.splits intro: hem_call hem_run)

definition hem_w0 :: hem_sys where
  "hem_w0 = \<lparr>hem_mem_of = \<lparr>hem_tail = None, hem_grant = (\<lambda>_. 9)\<rparr>, hem_pcs = (\<lambda>_. HmIdle)\<rparr>"

abbreviation hem_run_w :: "(tid \<times> hem_pc option) list" where
  "hem_run_w \<equiv> [(0, Some (HmTry HT_write)), (0, None), (0, None), (1, Some (HmAcq HA_write)), (1, None), (1, None),
     (0, Some (HmRel HR_tail)), (0, None), (0, None), (1, None)]"

definition hem_w1 :: hem_sys where "hem_w1 = the (play hem_move hem_w0 hem_run_w)"

lemmas hem_eval = hem_w1_def hem_w0_def set_grant_def vatomic_await_eq_def vsync_simps

lemma hem_w1_hist:
  "lock_hist (hemlock_start 5) (hemlock_step False 5) (\<lambda>s i. hem_queued (hem_pcs s i)) hem_owns hem_w1 [0, 1] [0]"
proof -
  have "hemlock_start 5 hem_w0" by (simp add: hemlock_start_def hemlock_init_def hem_w0_def vsync_simps)
  moreover have "play hem_move hem_w0 hem_run_w = Some hem_w1" by (simp add: hem_eval)
  moreover have "play_hist hem_move fst (\<lambda>s i. hem_queued (hem_pcs s i)) hem_w0 hem_run_w = [0, 1]"
    "play_hist hem_move fst hem_owns hem_w0 hem_run_w = [0]" by (simp_all add: hem_eval turned_def hem_owns_def)
  ultimately show ?thesis using play_lock_hist [of hem_move "hemlock_step False 5" fst, OF hem_move_step] by metis
qed

lemma hem_w1_state: "hem_pcs hem_w1 0 = HmRel HR_await" "hem_pcs hem_w1 1 = HmAcq (HA_clear 0)" "hem_grant (hem_mem_of hem_w1) 0 = 5"
  by (simp_all add: hem_eval)

lemma hemlock_fifo_witness:
  "\<exists>waiting. fifo_order (\<lambda>i. hem_queued (hem_pcs hem_w1 i)) (hem_owns hem_w1) [0, 1] [0] waiting \<and> waiting = [1] \<and>
     hem_pcs hem_w1 (hd waiting) \<in> {HmAcq (HA_wait 0), HmAcq (HA_clear 0)}"
proof -
  obtain waiting where w: "fifo_order (\<lambda>i. hem_queued (hem_pcs hem_w1 i)) (hem_owns hem_w1) [0, 1] [0] waiting"
    "waiting \<noteq> [] \<and> hem_pcs hem_w1 (hd waiting) \<in> {HmAcq (HA_wait 0), HmAcq (HA_clear 0)}"
    using hemlock_fifo [OF hem_w1_hist] hem_w1_state by force
  then have "waiting = [1]" by (simp add: fifo_order_def)
  with w show ?thesis by blast
qed

end
