(* ===== verification/Mpsc.thy ===== *)
theory Mpsc
  imports Vatomic Linked_List
begin

text \<open>
  The queue for many producers and one consumer, \<^verbatim>\<open>queue/mpsc.h\<close>. A producer appends its node with an
  exchange of the tail and links it to the node before with a second access; the consumer (thread 0)
  waits for that link if it has to. The memory is the queue object and the two fields of every node
  address; one atomic access is one step, and the plain accesses of a thread go with its atomic access.
  \<open>ms_nodes\<close> (the nodes behind the head, in the order of the exchanges), \<open>ms_own\<close> (the nodes each thread may
  use), \<open>ms_ins\<close> and \<open>ms_outs\<close> (the values appended and the values returned) are auxiliary: no access
  depends on them. A producer uses only nodes it owns; the consumer owns the nodes it has discarded.
\<close>

section \<open>Operations\<close>

record vmpsc_mem =
  ms_data :: "ptr \<Rightarrow> ptr"
  ms_next :: "ptr \<Rightarrow> ptr"
  ms_tail :: ptr
  ms_head :: ptr
  ms_sentinel :: ptr

definition vmpsc_init :: "vmpsc_mem \<Rightarrow> vmpsc_mem" where
  "vmpsc_init m = m\<lparr>ms_data := (ms_data m)(ms_sentinel m := NULL), ms_next := (ms_next m)(ms_sentinel m := vatomic_write (ms_next m (ms_sentinel m)) NULL),
     ms_head := ms_sentinel m, ms_tail := vatomic_write (ms_tail m) (ms_sentinel m)\<rparr>"

datatype enq_pc = EN_init | EN_xchg | EN_link ptr

fun vmpsc_enq :: "ptr \<Rightarrow> ptr \<Rightarrow> (enq_pc, vmpsc_mem, unit res) prog" where
  "vmpsc_enq node data EN_init m =
     (if node = NULL \<or> data = NULL then (Ret (Inl AssertFail), m)
      else (Goto EN_xchg, m\<lparr>ms_data := (ms_data m)(node := data), ms_next := (ms_next m)(node := vatomic_write (ms_next m node) NULL)\<rparr>))"
| "vmpsc_enq node data EN_xchg m =
     (let (tail, t) = vatomic_xchg (ms_tail m) node
      in (if tail = NULL then Ret (Inl AssertFail) else Goto (EN_link tail), m\<lparr>ms_tail := t\<rparr>))"
| "vmpsc_enq node data (EN_link tail) m =
     (Ret (Inr ()), m\<lparr>ms_next := (ms_next m)(tail := vatomic_write (ms_next m tail) node)\<rparr>)"

text \<open>The result of \<^verbatim>\<open>vmpsc_deq\<close>: the value and the discarded node.\<close>

datatype deq_pc = DE_next | DE_tail | DE_await | DE_take ptr

fun vmpsc_deq :: "(deq_pc, vmpsc_mem, (ptr \<times> ptr) res) prog" where
  "vmpsc_deq DE_next m =
     (let nxt = vatomic_read (ms_next m (ms_head m)) in if nxt = NULL then Goto DE_tail else Goto (DE_take nxt), m)"
| "vmpsc_deq DE_tail m = (if vatomic_read (ms_tail m) = ms_head m then Ret (Inr (NULL, NULL)) else Goto DE_await, m)"
| "vmpsc_deq DE_await m =
     (case vatomic_await_neq NULL (ms_next m (ms_head m)) of Goto _ \<Rightarrow> Goto DE_await | Ret nxt \<Rightarrow> Goto (DE_take nxt), m)"
| "vmpsc_deq (DE_take nxt) m =
     (let entry = ms_data m nxt
      in if entry = NULL then (Ret (Inl AssertFail), m)
         else (Ret (Inr (entry, if ms_head m \<noteq> ms_sentinel m then ms_head m else NULL)),
               m\<lparr>ms_data := (ms_data m)(nxt := NULL), ms_head := nxt\<rparr>))"

datatype empty_pc = EM_tail | EM_next ptr

fun vmpsc_empty :: "(empty_pc, vmpsc_mem, bool) prog" where
  "vmpsc_empty EM_tail m = (Goto (EM_next (vatomic_read (ms_tail m))), m)"
| "vmpsc_empty (EM_next tail) m = (Ret (vatomic_read (ms_next m tail) = NULL \<and> ms_head m = tail), m)"

text \<open>The loop of \<^verbatim>\<open>vmpsc_length\<close> with its locals \<open>curr\<close> (not \<^verbatim>\<open>NULL\<close>) and \<open>len\<close>.\<close>

fun vmpsc_length :: "(ptr \<times> vsize, vmpsc_mem, vsize) prog" where
  "vmpsc_length (cur, len) m =
     (let nxt = vatomic_read (ms_next m cur)
      in if nxt = NULL then Ret len else Goto (nxt, len + 1), m)"

text \<open>
  The two walks that are called when no other thread uses the queue. The callbacks are called with the
  listed data or nodes; \<open>f\<close> is the answer of the callback of \<^verbatim>\<open>vmpsc_foreach\<close>.
\<close>

partial_function (option) vmpsc_foreach :: "(ptr \<Rightarrow> bool) \<Rightarrow> vmpsc_mem \<Rightarrow> ptr \<Rightarrow> ptr list option" where
  "vmpsc_foreach f m cur =
     (if cur = NULL then Some []
      else let nxt = vatomic_read (ms_next m cur) in
        if nxt = NULL then Some []
        else if \<not> f (ms_data m nxt) then Some [ms_data m nxt]
        else Option.bind (vmpsc_foreach f m nxt) (\<lambda>ds. Some (ms_data m nxt # ds)))"

partial_function (option) vmpsc_destroy :: "vmpsc_mem \<Rightarrow> ptr \<Rightarrow> ptr list option" where
  "vmpsc_destroy m cur =
     (if cur = NULL then Some []
      else let nxt = vatomic_read (ms_next m cur) in
        Option.bind (vmpsc_destroy m nxt) (\<lambda>ns. Some (if cur \<noteq> ms_sentinel m then cur # ns else ns)))"

section \<open>Threads\<close>

datatype ms_pc = MsIdle | MsEnq ptr ptr enq_pc | MsDeq deq_pc | MsEmpty empty_pc | MsLength ptr vsize | MsFault fault

record ms_sys =
  ms_mem :: vmpsc_mem
  ms_pcs :: "tid \<Rightarrow> ms_pc"
  ms_own :: "tid \<Rightarrow> ptr set"
  ms_nodes :: "ptr list"
  ms_ins :: "ptr list"
  ms_outs :: "ptr list"

definition ms_owned_ok :: "(tid \<Rightarrow> ptr set) \<Rightarrow> ptr set \<Rightarrow> bool" where
  "ms_owned_ok own X \<longleftrightarrow> (\<forall>i. NULL \<notin> own i) \<and> (\<forall>i. own i \<inter> X = {}) \<and> (\<forall>i j. i \<noteq> j \<longrightarrow> own i \<inter> own j = {})"

definition vmpsc_start :: "ms_sys \<Rightarrow> bool" where
  "vmpsc_start s \<longleftrightarrow> (\<exists>m. ms_mem s = vmpsc_init m) \<and> (\<forall>i. ms_pcs s i = MsIdle) \<and> ms_sentinel (ms_mem s) \<noteq> NULL \<and>
     ms_owned_ok (ms_own s) {ms_sentinel (ms_mem s)} \<and> ms_nodes s = [] \<and> ms_ins s = [] \<and> ms_outs s = []"

inductive vmpsc_step :: "tid \<Rightarrow> ms_sys \<Rightarrow> ms_sys \<Rightarrow> bool" where
  ms_call_enq: "ms_pcs s i = MsIdle \<Longrightarrow> n \<in> ms_own s i \<Longrightarrow> d \<noteq> NULL \<Longrightarrow>
     vmpsc_step i s (s\<lparr>ms_pcs := (ms_pcs s)(i := MsEnq n d EN_init)\<rparr>)"
| ms_call_consumer: "ms_pcs s 0 = MsIdle \<Longrightarrow> p \<in> {MsDeq DE_next, MsEmpty EM_tail, MsLength (ms_head (ms_mem s)) 0} \<Longrightarrow>
     vmpsc_step 0 s (s\<lparr>ms_pcs := (ms_pcs s)(0 := p)\<rparr>)"
| ms_enq: "ms_pcs s i = MsEnq n d p \<Longrightarrow> vmpsc_enq n d p (ms_mem s) = (r, m) \<Longrightarrow>
     vmpsc_step i s (s\<lparr>ms_mem := m,
       ms_nodes := ms_nodes s @ (if p = EN_xchg then [n] else []), ms_ins := ms_ins s @ (if p = EN_xchg then [d] else []),
       ms_own := (ms_own s)(i := ms_own s i - (if p = EN_xchg then {n} else {})), ms_pcs := (ms_pcs s)(i :=
       case r of Goto p' \<Rightarrow> MsEnq n d p' | Ret (Inr _) \<Rightarrow> MsIdle | Ret (Inl e) \<Rightarrow> MsFault e)\<rparr>)"
| ms_deq: "ms_pcs s i = MsDeq p \<Longrightarrow> vmpsc_deq p (ms_mem s) = (Goto p', m) \<Longrightarrow>
     vmpsc_step i s (s\<lparr>ms_mem := m, ms_pcs := (ms_pcs s)(i := MsDeq p')\<rparr>)"
| ms_deq_fault: "ms_pcs s i = MsDeq p \<Longrightarrow> vmpsc_deq p (ms_mem s) = (Ret (Inl e), m) \<Longrightarrow>
     vmpsc_step i s (s\<lparr>ms_mem := m, ms_pcs := (ms_pcs s)(i := MsFault e)\<rparr>)"
| ms_deq_ret: "ms_pcs s i = MsDeq p \<Longrightarrow> vmpsc_deq p (ms_mem s) = (Ret (Inr (v, dn)), m) \<Longrightarrow>
     vmpsc_step i s (s\<lparr>ms_mem := m, ms_nodes := (if v = NULL then ms_nodes s else tl (ms_nodes s)),
       ms_outs := ms_outs s @ (if v = NULL then [] else [v]), ms_own := (ms_own s)(i := ms_own s i \<union> (if dn = NULL then {} else {dn})),
       ms_pcs := (ms_pcs s)(i := MsIdle)\<rparr>)"
| ms_empty: "ms_pcs s i = MsEmpty p \<Longrightarrow> vmpsc_empty p (ms_mem s) = (r, m) \<Longrightarrow>
     vmpsc_step i s (s\<lparr>ms_mem := m, ms_pcs := (ms_pcs s)(i := case r of Goto p' \<Rightarrow> MsEmpty p' | Ret _ \<Rightarrow> MsIdle)\<rparr>)"
| ms_length: "ms_pcs s i = MsLength c n \<Longrightarrow> vmpsc_length (c, n) (ms_mem s) = (r, m) \<Longrightarrow>
     vmpsc_step i s (s\<lparr>ms_mem := m, ms_pcs := (ms_pcs s)(i := case r of Goto (c', n') \<Rightarrow> MsLength c' n' | Ret _ \<Rightarrow> MsIdle)\<rparr>)"

section \<open>Invariant\<close>

text \<open>Some thread has appended \<open>b\<close> behind \<open>a\<close> and not linked it yet.\<close>

definition ms_pending :: "(tid \<Rightarrow> ms_pc) \<Rightarrow> ptr \<Rightarrow> ptr \<Rightarrow> bool" where
  "ms_pending pcs a b \<longleftrightarrow> (\<exists>i d. pcs i = MsEnq b d (EN_link a))"

fun ms_chain :: "(ptr \<Rightarrow> ptr) \<Rightarrow> (ptr \<Rightarrow> ptr \<Rightarrow> bool) \<Rightarrow> ptr list \<Rightarrow> bool" where
  "ms_chain nxt pend [] \<longleftrightarrow> False"
| "ms_chain nxt pend [a] \<longleftrightarrow> a \<noteq> NULL \<and> nxt a = NULL \<and> (\<forall>b. \<not> pend a b)"
| "ms_chain nxt pend (a # b # xs) \<longleftrightarrow> a \<noteq> NULL \<and> nxt a = (if pend a b then NULL else b) \<and>
     (\<forall>c. pend a c \<longrightarrow> c = b) \<and> ms_chain nxt pend (b # xs)"

fun ms_enq_ok :: "vmpsc_mem \<Rightarrow> ptr list \<Rightarrow> ptr set \<Rightarrow> ms_pc \<Rightarrow> bool" where
  "ms_enq_ok m L X (MsEnq n d EN_init) \<longleftrightarrow> n \<in> X \<and> d \<noteq> NULL"
| "ms_enq_ok m L X (MsEnq n d EN_xchg) \<longleftrightarrow> n \<in> X \<and> d \<noteq> NULL \<and> ms_next m n = NULL \<and> ms_data m n = d"
| "ms_enq_ok m L X (MsEnq n d (EN_link a)) \<longleftrightarrow> n \<in> set L \<and> a \<in> set L"
| "ms_enq_ok m L X (MsFault e) \<longleftrightarrow> False"
| "ms_enq_ok m L X _ \<longleftrightarrow> True"

fun ms_cons_ok :: "vmpsc_mem \<Rightarrow> ptr list \<Rightarrow> ms_pc \<Rightarrow> bool" where
  "ms_cons_ok m L (MsDeq DE_await) \<longleftrightarrow> 1 < length L"
| "ms_cons_ok m L (MsDeq (DE_take n)) \<longleftrightarrow> n \<noteq> NULL \<and> ms_next m (hd L) = n"
| "ms_cons_ok m L (MsEmpty (EM_next t)) \<longleftrightarrow> t \<in> set L"
| "ms_cons_ok m L (MsLength c k) \<longleftrightarrow> (\<exists>j<length L. L ! j = c \<and> k = of_nat j)"
| "ms_cons_ok m L _ \<longleftrightarrow> True"

definition ms_consumer :: "ms_pc \<Rightarrow> bool" where
  "ms_consumer p \<longleftrightarrow> (case p of MsDeq _ \<Rightarrow> True | MsEmpty _ \<Rightarrow> True | MsLength _ _ \<Rightarrow> True | _ \<Rightarrow> False)"

definition ms_single :: "(tid \<Rightarrow> ms_pc) \<Rightarrow> bool" where
  "ms_single pcs \<longleftrightarrow> (\<forall>i. ms_consumer (pcs i) \<longrightarrow> i = 0)"

definition ms_list :: "ms_sys \<Rightarrow> ptr list" where
  "ms_list s = ms_head (ms_mem s) # ms_nodes s"

definition ms_link_once :: "(tid \<Rightarrow> ms_pc) \<Rightarrow> bool" where
  "ms_link_once pcs \<longleftrightarrow> (\<forall>i j a a' n d d'. pcs i = MsEnq n d (EN_link a) \<longrightarrow> pcs j = MsEnq n d' (EN_link a') \<longrightarrow> i = j)"

definition ms_inv :: "ms_sys \<Rightarrow> bool" where
  "ms_inv s \<longleftrightarrow> ms_chain (ms_next (ms_mem s)) (ms_pending (ms_pcs s)) (ms_list s) \<and> distinct (ms_list s) \<and>
     ms_tail (ms_mem s) = last (ms_list s) \<and> ms_owned_ok (ms_own s) (insert (ms_sentinel (ms_mem s)) (set (ms_list s))) \<and>
     ms_sentinel (ms_mem s) \<notin> set (ms_nodes s) \<and> ms_ins s = ms_outs s @ map (ms_data (ms_mem s)) (ms_nodes s) \<and> NULL \<notin> set (ms_ins s) \<and>
     (\<forall>i. ms_enq_ok (ms_mem s) (ms_list s) (ms_own s i) (ms_pcs s i)) \<and> ms_link_once (ms_pcs s) \<and>
     ms_cons_ok (ms_mem s) (ms_list s) (ms_pcs s 0) \<and> ms_single (ms_pcs s)"

subsection \<open>The linked list with gaps\<close>

lemma ms_chain_cong:
  assumes "\<And>a. a \<in> set L \<Longrightarrow> nxt' a = nxt a" and "\<And>a b. a \<in> set L \<Longrightarrow> pend' a b = pend a b"
  shows "ms_chain nxt' pend' L = ms_chain nxt pend L"
  using assms by (induction nxt pend L rule: ms_chain.induct) auto

lemma ms_chain_Cons:
  assumes "ms_chain nxt pend (a # b # xs)"
  shows "a \<noteq> NULL" "nxt a = (if pend a b then NULL else b)" "ms_chain nxt pend (b # xs)"
proof -
  note c = assms [unfolded ms_chain.simps(3)]
  from c show "a \<noteq> NULL" by (elim conjE)
  from c show "nxt a = (if pend a b then NULL else b)" by (elim conjE)
  from c show "ms_chain nxt pend (b # xs)" by (elim conjE)
qed

lemma ms_chain_last: "ms_chain nxt pend L \<Longrightarrow> nxt (last L) = NULL \<and> \<not> pend (last L) b"
  by (induction nxt pend L rule: ms_chain.induct) auto

lemma ms_chain_NULL: "ms_chain nxt pend L \<Longrightarrow> NULL \<notin> set L"
  by (induction nxt pend L rule: ms_chain.induct) auto

lemma ms_chain_snoc:
  assumes "ms_chain nxt pend L" and "n \<notin> set L" "n \<noteq> NULL" "nxt n = NULL" "\<And>b. \<not> pend n b" and "distinct L"
  shows "ms_chain nxt (\<lambda>a b. pend a b \<or> a = last L \<and> b = n) (L @ [n])"
  using assms
proof (induction nxt pend L rule: ms_chain.induct)
  case (3 nxt pend a b xs)
  then have "ms_chain nxt (\<lambda>x y. pend x y \<or> x = last (b # xs) \<and> y = n) (b # xs @ [n])" by simp
  moreover have "a \<noteq> last (b # xs)" using 3(7) last_in_set [of "b # xs"] by auto
  ultimately show ?case using 3 by auto
qed auto

lemma ms_chain_link:
  assumes "ms_chain nxt pend L" "distinct L" "a \<in> set L" "pend a b"
  shows "b \<in> set L \<and> ms_chain (nxt(a := b)) (\<lambda>x y. pend x y \<and> \<not> (x = a \<and> y = b)) L"
  using assms
proof (induction nxt pend L rule: ms_chain.induct)
  case (3 nxt pend x y xs)
  show ?case
  proof (cases "a = x")
    case True
    then have "a \<notin> set (y # xs)" using 3(3) by auto
    then have tl: "ms_chain (nxt(a := b)) (\<lambda>u v. pend u v \<and> \<not> (u = a \<and> v = b)) (y # xs) = ms_chain nxt pend (y # xs)"
      by (intro ms_chain_cong) auto
    have b: "b = y" "x \<noteq> NULL" "\<And>c. pend x c \<Longrightarrow> c = y" "ms_chain nxt pend (y # xs)" using 3(2,5) True by auto
    define nxt' where "nxt' = nxt(a := b)"
    have "nxt' x = y" using True b(1) by (simp add: nxt'_def)
    then show ?thesis using tl b True unfolding nxt'_def [symmetric] by auto
  next
    case False
    then show ?thesis using 3 by auto
  qed
qed auto

lemma ms_chain_nth:
  "ms_chain nxt pend L \<Longrightarrow> k < length L \<Longrightarrow> nxt (L ! k) \<noteq> NULL \<Longrightarrow> Suc k < length L \<and> L ! Suc k = nxt (L ! k)"
proof (induction nxt pend L arbitrary: k rule: ms_chain.induct)
  case (3 nxt pend a b xs)
  note c = ms_chain_Cons(2,3) [OF "3.prems"(1)]
  show ?case
  proof (cases k)
    case 0
    then show ?thesis using c(1) "3.prems"(3) by (simp split: if_splits)
  next
    case (Suc j)
    then show ?thesis using "3.IH" [OF c(2), of j] "3.prems"(2,3) by simp
  qed
qed auto

text \<open>Without pending links the queue is a linked list.\<close>

lemma ms_chain_chain:
  "ms_chain nxt pend (a # xs) \<Longrightarrow> (\<And>x y. \<not> pend x y) \<Longrightarrow> chain nxt (nxt a) xs"
proof (induction xs arbitrary: a)
  case (Cons b xs)
  note b = ms_chain_Cons(2,3) [OF Cons.prems(1)]
  have "nxt a = b" using b(1) Cons.prems(2) [of a b] by simp
  note b = this b(2)
  then have "chain nxt (nxt b) xs" using Cons.IH Cons.prems(2) by blast
  moreover have "b \<noteq> NULL" using ms_chain_NULL [OF b(2)] by auto
  ultimately show ?case using b(1) by simp
qed simp

subsection \<open>Preservation\<close>

lemma ms_pending_same:
  assumes "\<And>n d a. pcs i \<noteq> MsEnq n d (EN_link a)" "\<And>n d a. p \<noteq> MsEnq n d (EN_link a)"
  shows "ms_pending (pcs(i := p)) = ms_pending pcs"
  using assms unfolding ms_pending_def by (intro ext) (metis fun_upd_apply)

lemma ms_invD:
  assumes "ms_inv s"
  shows "ms_chain (ms_next (ms_mem s)) (ms_pending (ms_pcs s)) (ms_list s)" "distinct (ms_list s)" "ms_tail (ms_mem s) = last (ms_list s)"
    "ms_owned_ok (ms_own s) (insert (ms_sentinel (ms_mem s)) (set (ms_list s)))" "ms_sentinel (ms_mem s) \<notin> set (ms_nodes s)"
    "ms_ins s = ms_outs s @ map (ms_data (ms_mem s)) (ms_nodes s)" "NULL \<notin> set (ms_ins s)"
    "ms_enq_ok (ms_mem s) (ms_list s) (ms_own s i) (ms_pcs s i)" "ms_link_once (ms_pcs s)"
    "ms_cons_ok (ms_mem s) (ms_list s) (ms_pcs s 0)" "ms_single (ms_pcs s)"
  using assms unfolding ms_inv_def by blast+

lemma ms_ownedD:
  assumes "ms_owned_ok own X"
  shows "x \<in> own i \<Longrightarrow> x \<noteq> NULL" "x \<in> own i \<Longrightarrow> x \<notin> X" "x \<in> own i \<Longrightarrow> x \<in> own j \<Longrightarrow> j = i"
  using assms unfolding ms_owned_ok_def by blast+

lemma ms_link_onceD: "ms_link_once pcs \<Longrightarrow> pcs i = MsEnq n d (EN_link a) \<Longrightarrow> pcs j = MsEnq n d' (EN_link a') \<Longrightarrow> i = j"
  unfolding ms_link_once_def by blast

lemma ms_link_once_upd:
  assumes "ms_link_once pcs" and "\<And>n d a. p = MsEnq n d (EN_link a) \<Longrightarrow> \<forall>j d' a'. j \<noteq> i \<longrightarrow> pcs j \<noteq> MsEnq n d' (EN_link a')"
  shows "ms_link_once (pcs(i := p))"
  using assms unfolding ms_link_once_def by (metis fun_upd_apply)

lemma ms_singleD: "ms_single pcs \<Longrightarrow> ms_consumer (pcs i) \<Longrightarrow> i = 0"
  and ms_single_upd: "ms_single pcs \<Longrightarrow> (ms_consumer p \<Longrightarrow> i = 0) \<Longrightarrow> ms_single (pcs(i := p))"
  unfolding ms_single_def by (blast, metis fun_upd_apply)

lemma ms_pending_new:
  assumes "\<And>n d a. pcs i \<noteq> MsEnq n d (EN_link a)"
  shows "ms_pending (pcs(i := MsEnq n d (EN_link a))) = (\<lambda>x y. ms_pending pcs x y \<or> x = a \<and> y = n)"
proof (intro ext)
  fix x y
  have "pcs j = MsEnq y e (EN_link x) \<Longrightarrow> (pcs(i := MsEnq n d (EN_link a))) j = MsEnq y e (EN_link x)" for j e
    using assms by (cases "j = i") auto
  moreover have "(pcs(i := MsEnq n d (EN_link a))) i = MsEnq n d (EN_link a)" by simp
  moreover have "(pcs(i := MsEnq n d (EN_link a))) j = MsEnq y e (EN_link x) \<Longrightarrow> pcs j = MsEnq y e (EN_link x) \<or> x = a \<and> y = n" for j e
    by (cases "j = i") auto
  ultimately show "ms_pending (pcs(i := MsEnq n d (EN_link a))) x y = (ms_pending pcs x y \<or> x = a \<and> y = n)"
    unfolding ms_pending_def by blast
qed

lemma ms_pending_done:
  assumes once: "ms_link_once pcs" and pc: "pcs i = MsEnq b d (EN_link a)"
  shows "ms_pending (pcs(i := MsIdle)) = (\<lambda>x y. ms_pending pcs x y \<and> \<not> (x = a \<and> y = b))"
proof (intro ext iffI)
  fix x y
  assume "ms_pending (pcs(i := MsIdle)) x y"
  then obtain j e where j: "(pcs(i := MsIdle)) j = MsEnq y e (EN_link x)" by (auto simp: ms_pending_def)
  then have "j \<noteq> i" "pcs j = MsEnq y e (EN_link x)" by (auto split: if_splits)
  moreover from this have "y \<noteq> b" using ms_link_onceD [OF once pc, of j] by blast
  ultimately show "ms_pending pcs x y \<and> \<not> (x = a \<and> y = b)" by (auto simp: ms_pending_def)
next
  fix x y
  assume "ms_pending pcs x y \<and> \<not> (x = a \<and> y = b)"
  then obtain j e where "pcs j = MsEnq y e (EN_link x)" "\<not> (x = a \<and> y = b)" by (auto simp: ms_pending_def)
  then have "(pcs(i := MsIdle)) j = MsEnq y e (EN_link x)" using pc by auto
  then show "ms_pending (pcs(i := MsIdle)) x y" unfolding ms_pending_def by blast
qed

lemma ms_owned_give:
  assumes "ms_owned_ok own X" and "n \<in> own i" and "Y \<subseteq> insert n X"
  shows "ms_owned_ok (own(i := own i - {n})) Y"
  unfolding ms_owned_ok_def
proof (intro conjI allI impI)
  show "NULL \<notin> (own(i := own i - {n})) j" for j using ms_ownedD(1) [OF assms(1), of NULL j] by auto
  show "(own(i := own i - {n})) j \<inter> Y = {}" for j
    using ms_ownedD(2) [OF assms(1), of _ j] ms_ownedD(3) [OF assms(1,2), of j] assms(3) by (cases "j = i") auto
  show "(own(i := own i - {n})) j \<inter> (own(i := own i - {n})) k = {}" if "j \<noteq> k" for j k
    using ms_ownedD(3) [OF assms(1), of _ j k] that by (cases "j = i"; cases "k = i") auto
qed

lemma ms_owned_take:
  assumes "ms_owned_ok own X" and "h \<in> X" "h \<noteq> NULL" and "Y \<subseteq> X" and "h \<notin> Y \<or> Z = {}" and "Z \<subseteq> {h}"
  shows "ms_owned_ok (own(i := own i \<union> Z)) Y"
  unfolding ms_owned_ok_def
proof (intro conjI allI impI)
  have h: "h \<notin> own j" for j using ms_ownedD(2) [OF assms(1), of h j] assms(2) by blast
  show "NULL \<notin> (own(i := own i \<union> Z)) j" for j using ms_ownedD(1) [OF assms(1), of NULL j] assms(3,6) by auto
  show "(own(i := own i \<union> Z)) j \<inter> Y = {}" for j using ms_ownedD(2) [OF assms(1), of _ j] assms(4,5,6) by auto
  show "(own(i := own i \<union> Z)) j \<inter> (own(i := own i \<union> Z)) k = {}" if "j \<noteq> k" for j k
    using ms_ownedD(3) [OF assms(1), of _ j k] h [of j] h [of k] assms(6) that by (cases "j = i"; cases "k = i") auto
qed

lemma ms_enq_ok_frame:
  assumes "ms_enq_ok m L X p" and "\<And>x. x \<in> X \<Longrightarrow> ms_next m' x = ms_next m x \<and> ms_data m' x = ms_data m x" and "set L \<subseteq> set L'"
  shows "ms_enq_ok m' L' X p"
  using assms by (cases "(m, L, X, p)" rule: ms_enq_ok.cases) auto

text \<open>A thread that writes at most its own nodes.\<close>

lemma ms_inv_local:
  assumes inv: "ms_inv s" and m: "ms_head m = ms_head (ms_mem s)" "ms_tail m = ms_tail (ms_mem s)" "ms_sentinel m = ms_sentinel (ms_mem s)"
    and out: "\<And>x. x \<notin> ms_own s i \<Longrightarrow> ms_next m x = ms_next (ms_mem s) x \<and> ms_data m x = ms_data (ms_mem s) x"
    and nl: "\<And>n d a. ms_pcs s i \<noteq> MsEnq n d (EN_link a)" "\<And>n d a. p \<noteq> MsEnq n d (EN_link a)"
    and ok: "ms_enq_ok m (ms_list s) (ms_own s i) p" "i = 0 \<Longrightarrow> ms_cons_ok m (ms_list s) p" "ms_consumer p \<Longrightarrow> i = 0"
  shows "ms_inv (s\<lparr>ms_mem := m, ms_pcs := (ms_pcs s)(i := p)\<rparr>)"
proof -
  note d = ms_invD [OF inv]
  let ?s = "s\<lparr>ms_mem := m, ms_pcs := (ms_pcs s)(i := p)\<rparr>"
  have L: "ms_list ?s = ms_list s" by (simp add: ms_list_def m)
  have node: "ms_next m x = ms_next (ms_mem s) x" "ms_data m x = ms_data (ms_mem s) x" if "x \<in> set (ms_list s)" for x
    using out [of x] ms_ownedD(2) [OF d(4), of x i] that by auto
  have "ms_chain (ms_next m) (ms_pending ((ms_pcs s)(i := p))) (ms_list s)"
    using d(1) node ms_pending_same [of "ms_pcs s" i p] nl ms_chain_cong [of "ms_list s" "ms_next m" "ms_next (ms_mem s)"] by simp
  moreover have "ms_enq_ok m (ms_list s) (ms_own s j) (((ms_pcs s)(i := p)) j)" for j
  proof (cases "j = i")
    case False
    have "ms_enq_ok m (ms_list s) (ms_own s j) (ms_pcs s j)"
      by (rule ms_enq_ok_frame [OF d(8)]) (use out ms_ownedD(3) [OF d(4)] False in blast)+
    then show ?thesis using False by simp
  qed (use ok in simp)
  moreover have "ms_cons_ok m (ms_list s) (((ms_pcs s)(i := p)) 0)"
  proof (cases "i = 0")
    case False
    have "ms_next m (hd (ms_list s)) = ms_next (ms_mem s) (hd (ms_list s))" by (rule node) (simp add: ms_list_def)
    then show ?thesis using False d(10) by (cases "(m, ms_list s, ms_pcs s 0)" rule: ms_cons_ok.cases) auto
  qed (use ok in simp)
  moreover have "map (ms_data m) (ms_nodes s) = map (ms_data (ms_mem s)) (ms_nodes s)" using node by (simp add: ms_list_def)
  moreover have "ms_link_once ((ms_pcs s)(i := p))" using nl(2) by (intro ms_link_once_upd [OF d(9)]) blast
  moreover have "ms_single ((ms_pcs s)(i := p))" using ok(3) by (rule ms_single_upd [OF d(11)])
  ultimately show ?thesis using d(2-7) m unfolding ms_inv_def L by simp
qed

lemma ms_chain_pend:
  "ms_chain nxt pend L \<Longrightarrow> a \<in> set L \<Longrightarrow> pend a b \<Longrightarrow> nxt a = NULL \<and> b \<in> set (tl L)"
proof (induction nxt pend L rule: ms_chain.induct)
  case (3 nxt pend x y xs)
  note c = ms_chain_Cons(2,3) [OF "3.prems"(1)]
  have y: "pend x c \<Longrightarrow> c = y" for c using "3.prems"(1) unfolding ms_chain.simps(3) by (elim conjE allE impE)
  show ?case
  proof (cases "a = x")
    case True
    then have "b = y" using y "3.prems"(3) by blast
    then show ?thesis using c(1) True "3.prems"(3) by simp
  next
    case False
    then have "nxt a = NULL \<and> b \<in> set (tl (y # xs))" using "3.IH" [OF c(2)] "3.prems"(2,3) by simp
    then show ?thesis by simp
  qed
qed auto

lemma ms_pending_in:
  assumes inv: "ms_inv s" and "ms_pending (ms_pcs s) a b"
  shows "a \<in> set (ms_list s)" "b \<in> set (ms_nodes s)" "ms_next (ms_mem s) a = NULL"
proof -
  obtain i d where "ms_pcs s i = MsEnq b d (EN_link a)" using assms(2) by (auto simp: ms_pending_def)
  then show a: "a \<in> set (ms_list s)" using ms_invD(8) [OF inv, of i] by simp
  then show "b \<in> set (ms_nodes s)" "ms_next (ms_mem s) a = NULL"
    using ms_chain_pend [OF ms_invD(1) [OF inv] a assms(2)] by (auto simp: ms_list_def)
qed

lemma ms_cons_ok_snoc:
  assumes "ms_cons_ok m L p" and "L \<noteq> []" and "ms_next m' (hd L) = ms_next m (hd L)"
  shows "ms_cons_ok m' (L @ X) p"
  using assms
proof (cases "(m, L, p)" rule: ms_cons_ok.cases)
  case (4 m1 L1 c k)
  then obtain j where "j < length L" "L ! j = c" "k = of_nat j" using assms(1) by auto
  then show ?thesis using 4 by (auto simp: nth_append intro!: exI [of _ j])
qed auto

lemma ms_inv_xchg:
  assumes inv: "ms_inv s" and pc: "ms_pcs s i = MsEnq n d EN_xchg"
  shows "ms_inv (s\<lparr>ms_mem := (ms_mem s)\<lparr>ms_tail := n\<rparr>, ms_nodes := ms_nodes s @ [n], ms_ins := ms_ins s @ [d],
    ms_own := (ms_own s)(i := ms_own s i - {n}), ms_pcs := (ms_pcs s)(i := MsEnq n d (EN_link (ms_tail (ms_mem s))))\<rparr>)" (is "ms_inv ?s")
proof -
  note o = ms_invD [OF inv]
  let ?L = "ms_list s" and ?pcs = "(ms_pcs s)(i := MsEnq n d (EN_link (ms_tail (ms_mem s))))"
  have n: "n \<in> ms_own s i" "d \<noteq> NULL" "ms_next (ms_mem s) n = NULL" "ms_data (ms_mem s) n = d" using o(8) [of i] pc by auto
  have fresh: "n \<noteq> NULL" "n \<notin> set ?L" "n \<noteq> ms_sentinel (ms_mem s)"
    using ms_ownedD(1,2) [OF o(4) n(1)] by auto
  have priv: "n \<notin> ms_own s j" if "j \<noteq> i" for j using ms_ownedD(3) [OF o(4) n(1)] that by blast
  have L: "ms_list ?s = ?L @ [n]" by (simp add: ms_list_def)
  have np: "\<not> ms_pending (ms_pcs s) n b" for b using ms_pending_in(1) [OF inv] fresh(2) by blast
  have "ms_pending ?pcs = (\<lambda>a b. ms_pending (ms_pcs s) a b \<or> a = last ?L \<and> b = n)"
    using ms_pending_new [of "ms_pcs s" i n d "ms_tail (ms_mem s)"] pc o(3) by simp
  then have "ms_chain (ms_next (ms_mem s)) (ms_pending ?pcs) (?L @ [n])"
    using ms_chain_snoc [OF o(1) fresh(2,1) n(3) np o(2)] by simp
  moreover have "ms_owned_ok ((ms_own s)(i := ms_own s i - {n})) (insert (ms_sentinel (ms_mem s)) (set (?L @ [n])))"
    by (rule ms_owned_give [OF o(4) n(1)]) auto
  moreover have "ms_enq_ok ((ms_mem s)\<lparr>ms_tail := n\<rparr>) (?L @ [n]) (((ms_own s)(i := ms_own s i - {n})) j) (?pcs j)" for j
    using ms_enq_ok_frame [OF o(8) [of j], of "(ms_mem s)\<lparr>ms_tail := n\<rparr>" "?L @ [n]"] o(3)
    by (cases "j = i") (auto simp: ms_list_def)
  moreover have "ms_link_once ?pcs"
  proof (rule ms_link_once_upd [OF o(9)])
    show "\<forall>j d' a'. j \<noteq> i \<longrightarrow> ms_pcs s j \<noteq> MsEnq m d' (EN_link a')" if "MsEnq n d (EN_link (ms_tail (ms_mem s))) = MsEnq m e (EN_link a)" for m e a
      using o(8) fresh(2) that by (metis ms_enq_ok.simps(3) ms_pc.inject(1))
  qed
  moreover have "ms_cons_ok ((ms_mem s)\<lparr>ms_tail := n\<rparr>) (?L @ [n]) (?pcs 0)"
    using ms_cons_ok_snoc [OF o(10)] by (cases "i = 0") (simp_all add: ms_list_def)
  moreover have "ms_single ?pcs" by (rule ms_single_upd [OF o(11)]) (simp add: ms_consumer_def)
  ultimately show ?thesis using o(2,5,6,7) n fresh unfolding ms_inv_def L by simp
qed

lemma ms_inv_link:
  assumes inv: "ms_inv s" and pc: "ms_pcs s i = MsEnq b d (EN_link a)"
  shows "ms_inv (s\<lparr>ms_mem := (ms_mem s)\<lparr>ms_next := (ms_next (ms_mem s))(a := b)\<rparr>, ms_pcs := (ms_pcs s)(i := MsIdle)\<rparr>)" (is "ms_inv ?s")
proof -
  note o = ms_invD [OF inv]
  let ?L = "ms_list s" and ?pcs = "(ms_pcs s)(i := MsIdle)" and ?m = "(ms_mem s)\<lparr>ms_next := (ms_next (ms_mem s))(a := b)\<rparr>"
  have pend: "ms_pending (ms_pcs s) a b" using pc by (auto simp: ms_pending_def)
  note a = ms_pending_in [OF inv pend]
  have L: "ms_list ?s = ?L" by (simp add: ms_list_def)
  have "ms_pending ?pcs = (\<lambda>x y. ms_pending (ms_pcs s) x y \<and> \<not> (x = a \<and> y = b))"
    by (rule ms_pending_done [OF o(9) pc])
  then have "ms_chain (ms_next ?m) (ms_pending ?pcs) ?L" using ms_chain_link [OF o(1,2) a(1) pend] by simp
  moreover have "ms_enq_ok ?m ?L (ms_own s j) (?pcs j)" for j
  proof (cases "j = i")
    case False
    have "ms_enq_ok ?m ?L (ms_own s j) (ms_pcs s j)"
      by (rule ms_enq_ok_frame [OF o(8)]) (use ms_ownedD(2) [OF o(4), of a j] a(1) in auto)
    then show ?thesis using False by simp
  qed simp
  moreover have "ms_link_once ?pcs" by (rule ms_link_once_upd [OF o(9)]) simp
  moreover have "ms_cons_ok ?m ?L (?pcs 0)"
    using o(10) a(3) by (cases "(ms_mem s, ?L, ms_pcs s 0)" rule: ms_cons_ok.cases) auto
  moreover have "ms_single ?pcs" by (rule ms_single_upd [OF o(11)]) (simp add: ms_consumer_def)
  ultimately show ?thesis using o(2-7) unfolding ms_inv_def L by simp
qed

lemma ms_take_node:
  assumes inv: "ms_inv s" and pc: "ms_pcs s 0 = MsDeq (DE_take x)"
  obtains xs where "ms_nodes s = x # xs" "ms_data (ms_mem s) x \<noteq> NULL" "ms_next (ms_mem s) (ms_head (ms_mem s)) = x" "x \<noteq> NULL"
proof -
  note o = ms_invD [OF inv]
  have x: "x \<noteq> NULL" "ms_next (ms_mem s) (ms_head (ms_mem s)) = x" using o(10) pc by (auto simp: ms_list_def)
  then obtain xs where xs: "ms_nodes s = x # xs" using ms_chain_nth [OF o(1), of 0] by (cases "ms_nodes s") (auto simp: ms_list_def)
  then have "ms_data (ms_mem s) x \<in> set (ms_ins s)" using o(6) by simp
  then have "ms_data (ms_mem s) x \<noteq> NULL" using o(7) by metis
  then show thesis using that xs x by blast
qed

lemma ms_inv_take:
  assumes inv: "ms_inv s" and pc: "ms_pcs s 0 = MsDeq (DE_take x)"
  defines "h \<equiv> ms_head (ms_mem s)"
  shows "ms_inv (s\<lparr>ms_mem := (ms_mem s)\<lparr>ms_data := (ms_data (ms_mem s))(x := NULL), ms_head := x\<rparr>, ms_nodes := tl (ms_nodes s),
    ms_outs := ms_outs s @ [ms_data (ms_mem s) x], ms_own := (ms_own s)(0 := ms_own s 0 \<union> (if h = ms_sentinel (ms_mem s) then {} else {h})),
    ms_pcs := (ms_pcs s)(0 := MsIdle)\<rparr>)" (is "ms_inv ?s")
proof -
  note o = ms_invD [OF inv]
  obtain xs where x: "ms_nodes s = x # xs" "ms_data (ms_mem s) x \<noteq> NULL" "ms_next (ms_mem s) h = x" "x \<noteq> NULL"
    using ms_take_node [OF inv pc] unfolding h_def by blast
  let ?m = "(ms_mem s)\<lparr>ms_data := (ms_data (ms_mem s))(x := NULL), ms_head := x\<rparr>" and ?pcs = "(ms_pcs s)(0 := MsIdle)"
  have L0: "ms_list s = h # x # xs" and L: "ms_list ?s = x # xs" using x(1) by (simp_all add: ms_list_def h_def)
  have d: "h \<noteq> x" "h \<notin> set xs" "x \<notin> set xs" "distinct xs" using o(2) L0 by auto
  have h: "h \<noteq> NULL" using ms_chain_NULL [OF o(1)] L0 by auto
  have "ms_pending ?pcs = ms_pending (ms_pcs s)" by (rule ms_pending_same) (use pc in auto)
  then have "ms_chain (ms_next ?m) (ms_pending ?pcs) (x # xs)" using ms_chain_Cons(3) o(1) L0 by simp
  moreover have "ms_owned_ok ((ms_own s)(0 := ms_own s 0 \<union> (if h = ms_sentinel (ms_mem s) then {} else {h})))
      (insert (ms_sentinel (ms_mem s)) (set (x # xs)))"
    using L0 d h by (intro ms_owned_take [OF o(4), of h]) auto
  moreover have "ms_enq_ok ?m (x # xs) (((ms_own s)(0 := ms_own s 0 \<union> (if h = ms_sentinel (ms_mem s) then {} else {h}))) j) (?pcs j)" for j
  proof (cases "j = 0")
    case False
    have "n \<in> set (x # xs) \<and> a \<in> set (x # xs)" if "ms_pcs s j = MsEnq n e (EN_link a)" for n e a
    proof -
      have "ms_pending (ms_pcs s) a n" using that by (auto simp: ms_pending_def)
      note p = ms_pending_in [OF inv this]
      have "a \<noteq> h" using p(3) x(3,4) by auto
      then show ?thesis using p L0 x(1) by simp
    qed
    moreover have "x \<notin> ms_own s j" using ms_ownedD(2) [OF o(4), of x j] L0 by auto
    ultimately show ?thesis using o(8) [of j] False by (cases "(ms_mem s, ms_list s, ms_own s j, ms_pcs s j)" rule: ms_enq_ok.cases) auto
  qed simp
  moreover have "ms_link_once ?pcs" by (rule ms_link_once_upd [OF o(9)]) simp
  moreover have "ms_ins s = (ms_outs s @ [ms_data (ms_mem s) x]) @ map (ms_data ?m) xs" using d(3) o(6) x(1) by simp
  moreover have "ms_single ?pcs" by (rule ms_single_upd [OF o(11)]) (simp add: ms_consumer_def)
  moreover have "ms_tail (ms_mem s) = last (x # xs)" "ms_sentinel (ms_mem s) \<notin> set xs" using o(3,5) L0 x(1) by auto
  moreover have "tl (ms_nodes s) = xs" "distinct (x # xs)" using x(1) d by auto
  ultimately show ?thesis using o(7) unfolding ms_inv_def L by simp
qed

text \<open>A step of the consumer that changes no memory.\<close>

lemma ms_inv_read:
  assumes inv: "ms_inv s" and pc: "ms_consumer (ms_pcs s i)" and ok: "ms_cons_ok (ms_mem s) (ms_list s) p"
    and p: "p = MsIdle \<or> ms_consumer p"
  shows "ms_inv (s\<lparr>ms_mem := ms_mem s, ms_pcs := (ms_pcs s)(i := p)\<rparr>)"
proof -
  have i: "i = 0" using ms_singleD [OF ms_invD(11) [OF inv]] pc .
  show ?thesis
    by (rule ms_inv_local [OF inv]) (use pc p ok i in \<open>auto simp: ms_consumer_def split: ms_pc.splits\<close>)
qed

lemma ms_list_nth: "k < length (ms_list s) \<Longrightarrow> ms_list s ! k \<in> set (ms_list s)"
  by simp

lemma ms_inv_step:
  assumes step: "vmpsc_step i s t" and inv: "ms_inv s"
  shows "ms_inv t"
proof -
  note o = ms_invD [OF inv]
  have own: "n \<in> ms_own s i \<Longrightarrow> n \<noteq> NULL" for n using ms_ownedD(1) [OF o(4)] .
  have h: "hd (ms_list s) = ms_head (ms_mem s)" "ms_list s \<noteq> []" "last (ms_list s) \<in> set (ms_list s)" by (simp_all add: ms_list_def)
  from step show ?thesis
  proof cases
    case (ms_call_enq n d)
    then show ?thesis using ms_inv_local [OF inv, of "ms_mem s" i "MsEnq n d EN_init"] by (simp add: ms_consumer_def)
  next
    case (ms_call_consumer p)
    then have "ms_cons_ok (ms_mem s) (ms_list s) p" "\<And>n d a. p \<noteq> MsEnq n d (EN_link a)" "ms_enq_ok (ms_mem s) (ms_list s) (ms_own s 0) p"
      by (auto simp: ms_list_def intro!: exI [of _ 0])
    then show ?thesis using ms_call_consumer ms_inv_local [OF inv, of "ms_mem s" 0 p] by simp
  next
    case (ms_enq n d p r m)
    note ok = o(8) [of i, unfolded ms_enq]
    show ?thesis
    proof (cases p)
      case EN_init
      then have r: "r = Goto EN_xchg" "m = (ms_mem s)\<lparr>ms_data := (ms_data (ms_mem s))(n := d), ms_next := (ms_next (ms_mem s))(n := NULL)\<rparr>"
        using ms_enq(3) ok own by (auto simp: vsync_simps)
      have "ms_inv (s\<lparr>ms_mem := m, ms_pcs := (ms_pcs s)(i := MsEnq n d EN_xchg)\<rparr>)"
        by (rule ms_inv_local [OF inv]) (use ok ms_enq(2) EN_init r(2) in \<open>auto simp: ms_consumer_def\<close>)
      then show ?thesis unfolding ms_enq(1) r(1) using EN_init by simp
    next
      case EN_xchg
      have "ms_tail (ms_mem s) \<noteq> NULL" using ms_chain_NULL [OF o(1)] h(3) o(3) by metis
      then have "r = Goto (EN_link (ms_tail (ms_mem s)))" "m = (ms_mem s)\<lparr>ms_tail := n\<rparr>"
        using ms_enq(3) EN_xchg by (auto simp: vsync_simps)
      then show ?thesis using ms_inv_xchg [OF inv] ms_enq EN_xchg by simp
    next
      case (EN_link a)
      then have "r = Ret (Inr ())" "m = (ms_mem s)\<lparr>ms_next := (ms_next (ms_mem s))(a := n)\<rparr>"
        using ms_enq(3) by (auto simp: vsync_simps)
      then show ?thesis using ms_inv_link [OF inv] ms_enq EN_link by simp
    qed
  next
    case (ms_deq p p' m)
    then have m: "m = ms_mem s" by (cases p) (auto simp: Let_def vsync_simps split: if_splits ctl.splits)
    have i: "i = 0" using ms_singleD [OF o(11), of i] ms_deq by (simp add: ms_consumer_def)
    have "ms_cons_ok (ms_mem s) (ms_list s) (MsDeq p')"
    proof (cases p)
      case DE_tail
      then have "last (ms_list s) \<noteq> ms_head (ms_mem s)" "p' = DE_await" using ms_deq(3) o(3) by (auto simp: vsync_simps split: if_splits)
      then show ?thesis by (cases "ms_nodes s") (auto simp: ms_list_def)
    qed (use ms_deq o(10) h i in \<open>auto simp: Let_def vsync_simps vatomic_await_neq_def split: if_splits\<close>)
    then show ?thesis using ms_deq(1,2) ms_inv_read [OF inv, of i "MsDeq p'"] m by (simp add: ms_consumer_def)
  next
    case (ms_deq_fault p e m)
    have i: "i = 0" using ms_singleD [OF o(11), of i] ms_deq_fault by (simp add: ms_consumer_def)
    from ms_deq_fault obtain x where "p = DE_take x" "ms_data (ms_mem s) x = NULL"
      by (cases p) (auto simp: Let_def vsync_simps split: if_splits ctl.splits)
    then show ?thesis using ms_take_node [OF inv, of x] ms_deq_fault i by metis
  next
    case (ms_deq_ret p v dn m)
    have i: "i = 0" using ms_singleD [OF o(11), of i] ms_deq_ret by (simp add: ms_consumer_def)
    show ?thesis
    proof (cases p)
      case DE_tail
      then have "v = NULL" "dn = NULL" "m = ms_mem s" using ms_deq_ret(3) by (auto split: if_splits)
      then show ?thesis using ms_deq_ret(1,2) ms_inv_read [OF inv, of i MsIdle] by (simp add: ms_consumer_def)
    next
      case (DE_take x)
      have hn: "ms_head (ms_mem s) \<noteq> NULL" using ms_chain_NULL [OF o(1)] h(2) by (auto simp: ms_list_def)
      obtain xs where x: "ms_data (ms_mem s) x \<noteq> NULL" using ms_take_node [OF inv, of x] ms_deq_ret DE_take i by metis
      then have "v = ms_data (ms_mem s) x" "dn = (if ms_head (ms_mem s) = ms_sentinel (ms_mem s) then NULL else ms_head (ms_mem s))"
        "m = (ms_mem s)\<lparr>ms_data := (ms_data (ms_mem s))(x := NULL), ms_head := x\<rparr>"
        using ms_deq_ret(3) DE_take by (auto simp: Let_def)
      then show ?thesis using ms_inv_take [OF inv, of x] ms_deq_ret(1,2) DE_take i x hn by (simp split: if_splits)
    qed (use ms_deq_ret in \<open>auto simp: Let_def split: if_splits ctl.splits\<close>)
  next
    case (ms_empty p r m)
    then have "m = ms_mem s" by (cases p) auto
    moreover have "ms_cons_ok (ms_mem s) (ms_list s) (case r of Goto p' \<Rightarrow> MsEmpty p' | Ret _ \<Rightarrow> MsIdle)"
      using ms_empty(3) o(3) h(3) by (cases p) (auto simp: vsync_simps)
    ultimately show ?thesis using ms_empty(1,2) ms_inv_read [OF inv, of i "case r of Goto p' \<Rightarrow> MsEmpty p' | Ret _ \<Rightarrow> MsIdle"]
      by (simp add: ms_consumer_def split: ctl.splits)
  next
    case (ms_length c n r m)
    have i: "i = 0" using ms_singleD [OF o(11), of i] ms_length by (simp add: ms_consumer_def)
    obtain k where k: "k < length (ms_list s)" "ms_list s ! k = c" "n = of_nat k" using o(10) ms_length(2) i by auto
    have "ms_cons_ok (ms_mem s) (ms_list s) (case r of Goto (c', n') \<Rightarrow> MsLength c' n' | Ret _ \<Rightarrow> MsIdle)"
    proof (cases "ms_next (ms_mem s) c = NULL")
      case False
      then have "r = Goto (ms_next (ms_mem s) c, n + 1)" using ms_length(3) by (auto simp: vsync_simps Let_def)
      then show ?thesis using ms_chain_nth [OF o(1) k(1)] k False by (auto intro!: exI [of _ "Suc k"])
    qed (use ms_length(3) in \<open>auto simp: vsync_simps Let_def\<close>)
    moreover have "m = ms_mem s" using ms_length(3) by simp
    ultimately show ?thesis using ms_length(1,2) ms_inv_read [OF inv, of i "case r of Goto (c', n') \<Rightarrow> MsLength c' n' | Ret _ \<Rightarrow> MsIdle"]
      by (simp add: ms_consumer_def split: ctl.splits prod.splits)
  qed
qed

lemma ms_inv_start:
  assumes "vmpsc_start s"
  shows "ms_inv s"
proof -
  obtain m where m: "ms_mem s = vmpsc_init m" using assms by (auto simp: vmpsc_start_def)
  have pcs: "ms_pcs s = (\<lambda>_. MsIdle)" using assms by (auto simp: vmpsc_start_def)
  have "ms_list s = [ms_sentinel m]" using assms m by (simp add: ms_list_def vmpsc_start_def vmpsc_init_def)
  then show ?thesis using assms unfolding ms_inv_def pcs
    by (simp add: m vmpsc_start_def vmpsc_init_def vsync_simps ms_pending_def ms_link_once_def ms_single_def ms_consumer_def)
qed

interpretation mpsc: inductive_invariant vmpsc_start vmpsc_step ms_inv
  by unfold_locales (blast intro: ms_inv_start ms_inv_step)+

section \<open>Properties\<close>

text \<open>C21: the queue is first-in-first-out for any number of producers and one consumer in any interleaving: the
  values returned are, in order, the first of the values appended (in the order of the exchanges of the
  tail), and the rest are the data of the nodes in the queue. The dequeue reports an empty queue only when
  all values have been returned; when it waits for a link, a producer is about to write it. No assertion
  fails. A node that is handed back needs no deferred reclamation: no thread is about to write to a node
  that some thread owns, and the tail does not point to it.\<close>

theorem mpsc_fifo:
  assumes "reach vmpsc_start vmpsc_step s"
  shows "ms_ins s = ms_outs s @ map (ms_data (ms_mem s)) (ms_nodes s) \<and>
    (ms_pcs s 0 = MsDeq DE_tail \<and> fst (vmpsc_deq DE_tail (ms_mem s)) = Ret (Inr (NULL, NULL)) \<longrightarrow> ms_outs s = ms_ins s) \<and>
    (ms_pcs s 0 = MsDeq DE_await \<and> fst (vmpsc_deq DE_await (ms_mem s)) = Goto DE_await \<longrightarrow>
       (\<exists>i n d. ms_pcs s i = MsEnq n d (EN_link (ms_head (ms_mem s))))) \<and> (\<forall>i e. ms_pcs s i \<noteq> MsFault e) \<and>
    (\<forall>i x. x \<in> ms_own s i \<longrightarrow> x \<noteq> ms_tail (ms_mem s) \<and> (\<forall>j n d. ms_pcs s j \<noteq> MsEnq n d (EN_link x)))"
proof -
  have inv: "ms_inv s" using mpsc.reach_inv [OF assms] .
  note o = ms_invD [OF inv]
  have "ms_outs s = ms_ins s" if "fst (vmpsc_deq DE_tail (ms_mem s)) = Ret (Inr (NULL, NULL))"
  proof -
    have "last (ms_list s) = ms_head (ms_mem s)" using that o(3) by (auto simp: vsync_simps split: if_splits)
    then have "ms_nodes s = []" using o(2) last_in_set [of "ms_nodes s"] by (cases "ms_nodes s = []") (auto simp: ms_list_def)
    then show ?thesis using o(6) by simp
  qed
  moreover have "\<exists>i n d. ms_pcs s i = MsEnq n d (EN_link (ms_head (ms_mem s)))"
    if w: "ms_pcs s 0 = MsDeq DE_await \<and> fst (vmpsc_deq DE_await (ms_mem s)) = Goto DE_await"
  proof -
    have "ms_next (ms_mem s) (ms_head (ms_mem s)) = NULL" using w by (auto simp: vatomic_await_neq_def vsync_simps Let_def split: if_splits)
    moreover obtain x xs where L: "ms_list s = ms_head (ms_mem s) # x # xs" using o(10) w by (cases "ms_nodes s") (auto simp: ms_list_def)
    moreover have "x \<noteq> NULL" using ms_chain_NULL [OF o(1)] L by auto
    ultimately have "ms_pending (ms_pcs s) (ms_head (ms_mem s)) x" using ms_chain_Cons(2) [OF o(1) [unfolded L]] by (metis)
    then show ?thesis by (auto simp: ms_pending_def)
  qed
  moreover have "ms_pcs s i \<noteq> MsFault e" for i e using o(8) [of i] by auto
  moreover have "x \<noteq> ms_tail (ms_mem s)" if "x \<in> ms_own s i" for i x
    using ms_ownedD(2) [OF o(4) that] o(3) last_in_set [of "ms_list s"] by (auto simp: ms_list_def)
  moreover have "ms_pcs s j \<noteq> MsEnq n d (EN_link x)" if "x \<in> ms_own s i" for i j n d x
    using ms_ownedD(2) [OF o(4) that] o(8) [of j] by auto
  ultimately show ?thesis using o(6) by blast
qed

lemma foreach_chain:
  assumes "chain (ms_next m) (ms_next m a) xs" and "a \<noteq> NULL"
  shows "vmpsc_foreach f m a = Some (takeWhile f (map (ms_data m) xs) @ take 1 (dropWhile f (map (ms_data m) xs)))"
  using assms
proof (induction xs arbitrary: a)
  case Nil
  then show ?case by (subst vmpsc_foreach.simps) (simp add: vsync_simps)
next
  case (Cons x xs)
  then show ?case by (subst vmpsc_foreach.simps) (simp add: vsync_simps)
qed

lemma destroy_chain: "chain (ms_next m) a xs \<Longrightarrow> vmpsc_destroy m a = Some (filter (\<lambda>x. x \<noteq> ms_sentinel m) xs)"
proof (induction xs arbitrary: a)
  case Nil
  then show ?case by (subst vmpsc_destroy.simps) simp
next
  case (Cons x xs)
  then show ?case by (subst vmpsc_destroy.simps) (simp add: vsync_simps)
qed

text \<open>The observers of the queue. The consumer's test for emptiness says no only when a value is queued, and
  yes only when none is available; the length it computes counts no node that is not queued. When no
  producer is between its two accesses, the walks end: \<^verbatim>\<open>vmpsc_foreach\<close> visits the values in queue order up
  to the first one its callback declines, and \<^verbatim>\<open>vmpsc_destroy\<close> hands out exactly the nodes of the queue and
  the last discarded one.\<close>

theorem mpsc_observers:
  assumes "reach vmpsc_start vmpsc_step s"
  shows "(\<forall>t r. ms_pcs s 0 = MsEmpty (EM_next t) \<and> fst (vmpsc_empty (EM_next t) (ms_mem s)) = Ret r \<longrightarrow>
      (if r then ms_next (ms_mem s) (ms_head (ms_mem s)) = NULL else ms_nodes s \<noteq> [])) \<and>
    (\<forall>c n. ms_pcs s 0 = MsLength c n \<longrightarrow> unat n \<le> length (ms_nodes s)) \<and>
    ((\<forall>i n d a. ms_pcs s i \<noteq> MsEnq n d (EN_link a)) \<longrightarrow>
      vmpsc_foreach f (ms_mem s) (ms_head (ms_mem s)) = Some (let ds = map (ms_data (ms_mem s)) (ms_nodes s) in takeWhile f ds @ take 1 (dropWhile f ds)) \<and>
      vmpsc_destroy (ms_mem s) (ms_head (ms_mem s)) = Some (filter (\<lambda>x. x \<noteq> ms_sentinel (ms_mem s)) (ms_head (ms_mem s) # ms_nodes s)))"
proof -
  have inv: "ms_inv s" using mpsc.reach_inv [OF assms] .
  note o = ms_invD [OF inv]
  have "if r then ms_next (ms_mem s) (ms_head (ms_mem s)) = NULL else ms_nodes s \<noteq> []"
    if r: "ms_pcs s 0 = MsEmpty (EM_next t) \<and> fst (vmpsc_empty (EM_next t) (ms_mem s)) = Ret r" for t r
  proof -
    have r: "r = (ms_next (ms_mem s) t = NULL \<and> ms_head (ms_mem s) = t)" and t: "t \<in> set (ms_list s)" using r o(10) by (auto simp: vsync_simps)
    have "ms_nodes s \<noteq> []" if "\<not> r"
      using t r that o(1) by (cases "ms_nodes s") (auto simp: ms_list_def)
    then show ?thesis using r by auto
  qed
  moreover have "unat n \<le> length (ms_nodes s)" if n: "ms_pcs s 0 = MsLength c n" for c n
  proof -
    obtain j where j: "j < length (ms_list s)" "n = of_nat j" using o(10) n by auto
    then have "j \<le> length (ms_nodes s)" by (simp add: ms_list_def)
    note j = this j(2)
    then show ?thesis by (simp add: unat_of_nat take_bit_eq_mod mod_le_divisor le_trans [OF mod_less_eq_dividend])
  qed
  moreover have "vmpsc_foreach f (ms_mem s) (ms_head (ms_mem s)) = Some (let ds = map (ms_data (ms_mem s)) (ms_nodes s) in takeWhile f ds @ take 1 (dropWhile f ds)) \<and>
      vmpsc_destroy (ms_mem s) (ms_head (ms_mem s)) = Some (filter (\<lambda>x. x \<noteq> ms_sentinel (ms_mem s)) (ms_head (ms_mem s) # ms_nodes s))"
    if "\<forall>i n d a. ms_pcs s i \<noteq> MsEnq n d (EN_link a)"
  proof -
    have "\<not> ms_pending (ms_pcs s) x y" for x y using that by (simp add: ms_pending_def)
    with ms_chain_chain [OF o(1) [unfolded ms_list_def]]
    have ch: "chain (ms_next (ms_mem s)) (ms_next (ms_mem s) (ms_head (ms_mem s))) (ms_nodes s)" by blast
    have h: "ms_head (ms_mem s) \<noteq> NULL" using ms_chain_NULL [OF o(1)] by (auto simp: ms_list_def)
    show ?thesis using foreach_chain [OF ch h, of f] destroy_chain [of "ms_mem s" "ms_head (ms_mem s)" "ms_head (ms_mem s) # ms_nodes s"] ch h
      by (simp add: Let_def)
  qed
  ultimately show ?thesis by blast
qed

section \<open>A concrete execution\<close>

text \<open>Producer 1 appends 5 and producer 2 appends 6; the consumer takes 5. Producer 1 has appended 7
  and not linked it; the consumer has taken 6 and waits for that link.\<close>

fun ms_move :: "ms_sys \<Rightarrow> tid \<times> (ptr \<times> ptr) option \<Rightarrow> ms_sys option" where
  "ms_move s (i, c) = (case ms_pcs s i of
     MsIdle \<Rightarrow> (case c of Some (n, d) \<Rightarrow> (if n \<in> ms_own s i \<and> d \<noteq> NULL then Some (s\<lparr>ms_pcs := (ms_pcs s)(i := MsEnq n d EN_init)\<rparr>) else None)
       | None \<Rightarrow> (if i = 0 then Some (s\<lparr>ms_pcs := (ms_pcs s)(0 := MsDeq DE_next)\<rparr>) else None))
   | MsEnq n d p \<Rightarrow> (case vmpsc_enq n d p (ms_mem s) of (r, m) \<Rightarrow> Some (s\<lparr>ms_mem := m,
       ms_nodes := ms_nodes s @ (if p = EN_xchg then [n] else []), ms_ins := ms_ins s @ (if p = EN_xchg then [d] else []),
       ms_own := (ms_own s)(i := ms_own s i - (if p = EN_xchg then {n} else {})), ms_pcs := (ms_pcs s)(i :=
       case r of Goto p' \<Rightarrow> MsEnq n d p' | Ret (Inr _) \<Rightarrow> MsIdle | Ret (Inl e) \<Rightarrow> MsFault e)\<rparr>))
   | MsDeq p \<Rightarrow> (case vmpsc_deq p (ms_mem s) of
       (Goto p', m) \<Rightarrow> Some (s\<lparr>ms_mem := m, ms_pcs := (ms_pcs s)(i := MsDeq p')\<rparr>)
     | (Ret (Inr (v, dn)), m) \<Rightarrow> Some (s\<lparr>ms_mem := m, ms_nodes := (if v = NULL then ms_nodes s else tl (ms_nodes s)),
         ms_outs := ms_outs s @ (if v = NULL then [] else [v]), ms_own := (ms_own s)(i := ms_own s i \<union> (if dn = NULL then {} else {dn})),
         ms_pcs := (ms_pcs s)(i := MsIdle)\<rparr>)
     | _ \<Rightarrow> None)
   | _ \<Rightarrow> None)"

lemma ms_move_step:
  assumes "ms_move s x = Some t"
  shows "\<exists>i. vmpsc_step i s t"
proof (cases x)
  case (Pair i c)
  have "vmpsc_step i s t"
  proof (cases "ms_pcs s i")
    case MsIdle
    with assms Pair show ?thesis by (auto split: option.splits if_splits intro: ms_call_enq ms_call_consumer)
  next
    case (MsEnq n d p)
    obtain r m where "vmpsc_enq n d p (ms_mem s) = (r, m)" by fastforce
    with ms_enq [OF MsEnq this] MsEnq assms Pair show ?thesis by simp
  next
    case (MsDeq p)
    obtain r m where r: "vmpsc_deq p (ms_mem s) = (r, m)" by fastforce
    show ?thesis
    proof (cases r)
      case (Goto p')
      with ms_deq [OF MsDeq] r MsDeq assms Pair show ?thesis by simp
    next
      case (Ret v)
      with ms_deq_ret [OF MsDeq] r MsDeq assms Pair show ?thesis by (cases v) auto
    qed
  qed (use assms Pair in auto)
  then show ?thesis by blast
qed

definition ms_w0 :: ms_sys where
  "ms_w0 = \<lparr>ms_mem = vmpsc_init \<lparr>ms_data = (\<lambda>_. 1), ms_next = (\<lambda>_. 1), ms_tail = 0, ms_head = 0, ms_sentinel = 8\<rparr>,
     ms_pcs = (\<lambda>_. MsIdle), ms_own = (\<lambda>_. {})(1 := {16, 24}, 2 := {32}), ms_nodes = [], ms_ins = [], ms_outs = []\<rparr>"

abbreviation ms_run :: "(tid \<times> (ptr \<times> ptr) option) list" where
  "ms_run \<equiv> [(1, Some (16, 5)), (1, None), (1, None), (2, Some (32, 6)), (2, None), (2, None), (1, None), (0, None), (0, None), (0, None),
     (1, Some (24, 7)), (1, None), (1, None), (2, None), (0, None), (0, None), (0, None), (0, None), (0, None), (0, None)]"

definition ms_w :: ms_sys where "ms_w = the (play ms_move ms_w0 ms_run)"

lemmas ms_eval = ms_w0_def vmpsc_init_def vatomic_await_neq_def vsync_simps Let_def

lemma ms_w_play: "play ms_move ms_w0 ms_run = Some ms_w"
  by (simp add: ms_w_def ms_eval)

lemma ms_w_state:
  "ms_pcs ms_w 0 = MsDeq DE_await" "ms_outs ms_w = [5, 6]" "ms_ins ms_w = [5, 6, 7]" "16 \<in> ms_own ms_w 0" "ms_next (ms_mem ms_w) 32 = NULL"
  "ms_head (ms_mem ms_w) = 32"
  by (simp_all add: ms_w_def ms_eval)

lemma ms_w0_start: "vmpsc_start ms_w0"
proof -
  have "\<exists>m. ms_mem ms_w0 = vmpsc_init m" unfolding ms_w0_def by simp (rule exI, rule refl)
  then show ?thesis by (auto simp: vmpsc_start_def ms_w0_def vmpsc_init_def ms_owned_ok_def)
qed

lemma ms_play_reach: "play ms_move ms_w0 xs = Some t \<Longrightarrow> reach vmpsc_start vmpsc_step t"
  using ms_w0_start by (intro play_reach [of ms_move vmpsc_step, OF ms_move_step])

lemma mpsc_fifo_witness: "16 \<noteq> ms_tail (ms_mem ms_w) \<and> (\<exists>i n d. ms_pcs ms_w i = MsEnq n d (EN_link 32))"
proof -
  have "fst (vmpsc_deq DE_await (ms_mem ms_w)) = Goto DE_await" by (simp add: ms_w_state vatomic_await_neq_def vsync_simps)
  then show ?thesis using mpsc_fifo [OF ms_play_reach [OF ms_w_play]] ms_w_state by simp
qed

abbreviation ms_run2 :: "(tid \<times> (ptr \<times> ptr) option) list" where
  "ms_run2 \<equiv> [(1, Some (16, 5)), (1, None), (1, None), (2, Some (32, 6)), (2, None), (2, None), (1, None), (2, None)]"

definition ms_w2 :: ms_sys where "ms_w2 = the (play ms_move ms_w0 ms_run2)"

lemma ms_w2_play: "play ms_move ms_w0 ms_run2 = Some ms_w2"
  by (simp add: ms_w2_def ms_eval)

lemma ms_w2_state: "ms_pcs ms_w2 i = MsIdle" "ms_head (ms_mem ms_w2) = 8" "ms_sentinel (ms_mem ms_w2) = 8" "ms_nodes ms_w2 = [16, 32]"
  "ms_data (ms_mem ms_w2) 16 = 5" "ms_data (ms_mem ms_w2) 32 = 6"
  by (simp_all add: ms_w2_def ms_eval)

end
