(* ===== verification/Guarded.thy ===== *)
theory Guarded
  imports Vatomic
begin

text \<open>
  Objects protected by a lock. Threads call operations of an object; each takes the lock, runs the
  operation access by access on the object, and gives the lock back. For every lock of the interface
  \<^const>\<open>lock_impl\<close>, whatever its algorithm, the operations take effect one after the other: the
  locale \<open>guarded\<close> shows that the completed operations, in the order of their completion, are a sequential
  history of the object with the results they returned.
\<close>

section \<open>Runs of one thread\<close>

inductive prog_steps :: "('l, 'o, 'r) prog \<Rightarrow> 'l \<times> 'o \<Rightarrow> 'l \<times> 'o \<Rightarrow> bool" for f where
  ps_refl: "prog_steps f c c"
| ps_goto: "prog_steps f c (l, x) \<Longrightarrow> f l x = (Goto l', x') \<Longrightarrow> prog_steps f c (l', x')"

definition prog_runs :: "('l, 'o, 'r) prog \<Rightarrow> 'l \<Rightarrow> 'o \<Rightarrow> 'r \<Rightarrow> 'o \<Rightarrow> bool" where
  "prog_runs f l x r y \<longleftrightarrow> (\<exists>l' x'. prog_steps f (l, x) (l', x') \<and> f l' x' = (Ret r, y))"

text \<open>A program is deterministic: its run is the one found by executing it.\<close>

inductive prog_exec :: "('l, 'o, 'r) prog \<Rightarrow> 'l \<Rightarrow> 'o \<Rightarrow> 'r \<Rightarrow> 'o \<Rightarrow> bool" for f where
  pe_ret: "f l x = (Ret r, y) \<Longrightarrow> prog_exec f l x r y"
| pe_goto: "f l x = (Goto l', x') \<Longrightarrow> prog_exec f l' x' r y \<Longrightarrow> prog_exec f l x r y"

lemma prog_exec_steps:
  assumes "prog_exec f l x r y" and "prog_steps f (l, x) (l', x')"
  shows "prog_exec f l' x' r y"
  using assms(2,1)
proof (induction "(l, x)" "(l', x')" arbitrary: l' x' rule: prog_steps.induct)
  case (ps_goto l1 x1 l2 x2)
  from ps_goto.hyps(2) [OF ps_goto.prems] ps_goto.hyps(3) show ?case by cases simp_all
qed

lemma prog_runs_det:
  assumes "prog_exec f l x r y" and "prog_runs f l x r' y'"
  shows "r' = r \<and> y' = y"
proof -
  obtain l1 x1 where s: "prog_steps f (l, x) (l1, x1)" "f l1 x1 = (Ret r', y')" using assms(2) by (auto simp: prog_runs_def)
  from prog_exec_steps [OF assms(1) s(1)] s(2) show ?thesis by cases simp_all
qed

text \<open>A sequential history: the operations with their threads and results, from one object to another.\<close>

inductive seq_history :: "('op \<Rightarrow> ('l, 'o, 'r) prog) \<Rightarrow> ('op \<Rightarrow> 'l) \<Rightarrow> 'o \<Rightarrow> (tid \<times> 'op \<times> 'r) list \<Rightarrow> 'o \<Rightarrow> bool" for body start x where
  sh_nil: "seq_history body start x [] x"
| sh_snoc: "seq_history body start x h y \<Longrightarrow> prog_runs (body op) (start op) y r z \<Longrightarrow> seq_history body start x (h @ [(i, op, r)]) z"

section \<open>The system\<close>

text \<open>
  \<open>GOut\<close>: between operations; \<open>GEnter op\<close>: acquiring the lock for \<open>op\<close>; \<open>GIn op l\<close>: in the critical section;
  \<open>GLeave op r\<close>: releasing the lock. \<open>g_log\<close> has the operations whose body is complete.
\<close>

datatype ('op, 'l, 'r) guard_pc = GOut | GEnter 'op | GIn 'op 'l | GLeave 'op 'r

record ('ls, 'o, 'op, 'l, 'r) guard_sys =
  g_lock :: 'ls
  g_obj :: 'o
  g_pcs :: "tid \<Rightarrow> ('op, 'l, 'r) guard_pc"
  g_log :: "(tid \<times> 'op \<times> 'r) list"

definition guard_start :: "('ls \<Rightarrow> bool) \<Rightarrow> ('o \<Rightarrow> bool) \<Rightarrow> ('ls, 'o, 'op, 'l, 'r) guard_sys \<Rightarrow> bool" where
  "guard_start linit oinit s \<longleftrightarrow> linit (g_lock s) \<and> oinit (g_obj s) \<and> (\<forall>i. g_pcs s i = GOut) \<and> g_log s = []"

text \<open>A step of the lock that makes a thread its owner begins the critical section of the thread's operation; one
  that ends the ownership is only made by a thread that has completed its operation.\<close>

inductive guard_step :: "(tid \<Rightarrow> 'ls \<Rightarrow> 'ls \<Rightarrow> bool) \<Rightarrow> ('ls \<Rightarrow> tid \<Rightarrow> bool) \<Rightarrow> ('op \<Rightarrow> ('l, 'o, 'r) prog) \<Rightarrow> ('op \<Rightarrow> 'l) \<Rightarrow> tid \<Rightarrow>
    ('ls, 'o, 'op, 'l, 'r) guard_sys \<Rightarrow> ('ls, 'o, 'op, 'l, 'r) guard_sys \<Rightarrow> bool" for lstep owns body start where
  g_call: "g_pcs s i = GOut \<Longrightarrow> guard_step lstep owns body start i s (s\<lparr>g_pcs := (g_pcs s)(i := GEnter op)\<rparr>)"
| g_wait: "lstep i (g_lock s) l \<Longrightarrow> owns l i = owns (g_lock s) i \<Longrightarrow> guard_step lstep owns body start i s (s\<lparr>g_lock := l\<rparr>)"
| g_enter: "g_pcs s i = GEnter op \<Longrightarrow> lstep i (g_lock s) l \<Longrightarrow> \<not> owns (g_lock s) i \<Longrightarrow> owns l i \<Longrightarrow>
     guard_step lstep owns body start i s (s\<lparr>g_lock := l, g_pcs := (g_pcs s)(i := GIn op (start op))\<rparr>)"
| g_access: "g_pcs s i = GIn op p \<Longrightarrow> body op p (g_obj s) = (Goto p', x) \<Longrightarrow>
     guard_step lstep owns body start i s (s\<lparr>g_obj := x, g_pcs := (g_pcs s)(i := GIn op p')\<rparr>)"
| g_done: "g_pcs s i = GIn op p \<Longrightarrow> body op p (g_obj s) = (Ret r, x) \<Longrightarrow>
     guard_step lstep owns body start i s (s\<lparr>g_obj := x, g_pcs := (g_pcs s)(i := GLeave op r), g_log := g_log s @ [(i, op, r)]\<rparr>)"
| g_leave: "g_pcs s i = GLeave op r \<Longrightarrow> lstep i (g_lock s) l \<Longrightarrow> owns (g_lock s) i \<Longrightarrow> \<not> owns l i \<Longrightarrow>
     guard_step lstep owns body start i s (s\<lparr>g_lock := l, g_pcs := (g_pcs s)(i := GOut)\<rparr>)"

fun g_inside :: "('op, 'l, 'r) guard_pc \<Rightarrow> bool" where
  "g_inside (GIn op l) = True"
| "g_inside (GLeave op r) = True"
| "g_inside _ = False"

definition guard_inv :: "('ls \<Rightarrow> bool) \<Rightarrow> ('ls \<Rightarrow> tid \<Rightarrow> bool) \<Rightarrow> ('op \<Rightarrow> ('l, 'o, 'r) prog) \<Rightarrow> ('op \<Rightarrow> 'l) \<Rightarrow> ('o \<Rightarrow> bool) \<Rightarrow>
    ('ls, 'o, 'op, 'l, 'r) guard_sys \<Rightarrow> bool" where
  "guard_inv linv owns body start oinit s \<longleftrightarrow> linv (g_lock s) \<and> (\<forall>i. owns (g_lock s) i \<longleftrightarrow> g_inside (g_pcs s i)) \<and>
     (\<exists>x y. oinit x \<and> seq_history body start x (g_log s) y \<and>
       (\<forall>i op l. g_pcs s i = GIn op l \<longrightarrow> prog_steps (body op) (start op, y) (l, g_obj s)) \<and>
       ((\<forall>i op l. g_pcs s i \<noteq> GIn op l) \<longrightarrow> g_obj s = y))"

lemma guard_invI:
  assumes "linv (g_lock s)" "\<And>i. owns (g_lock s) i \<longleftrightarrow> g_inside (g_pcs s i)" "oinit x" "seq_history body start x (g_log s) y"
    "\<And>i op l. g_pcs s i = GIn op l \<Longrightarrow> prog_steps (body op) (start op, y) (l, g_obj s)"
    "(\<And>i op l. g_pcs s i \<noteq> GIn op l) \<Longrightarrow> g_obj s = y"
  shows "guard_inv linv owns body start oinit s"
  unfolding guard_inv_def using assms by blast

locale guarded = lock_impl linit lstep linv owns
  for linit :: "'ls \<Rightarrow> bool" and lstep :: "tid \<Rightarrow> 'ls \<Rightarrow> 'ls \<Rightarrow> bool" and linv owns +
  fixes body :: "'op \<Rightarrow> ('l, 'o, 'r) prog" and start :: "'op \<Rightarrow> 'l" and oinit :: "'o \<Rightarrow> bool"
  assumes init_free: "linit l \<Longrightarrow> \<not> owns l i"
begin

lemma guard_owner:
  assumes "guard_inv linv owns body start oinit s" and "g_inside (g_pcs s i)" and "g_inside (g_pcs s j)"
  shows "i = j"
  using assms inv_owns [of "g_lock s" i j] by (auto simp: guard_inv_def)

lemma guard_inv_step:
  assumes inv: "guard_inv linv owns body start oinit s" and step: "guard_step lstep owns body start i s t"
  shows "guard_inv linv owns body start oinit t"
proof -
  have li: "linv (g_lock s)" and ow: "\<And>j. owns (g_lock s) j \<longleftrightarrow> g_inside (g_pcs s j)" using inv by (auto simp: guard_inv_def)
  obtain x y where h: "oinit x" "seq_history body start x (g_log s) y"
    and cs: "\<And>j op l. g_pcs s j = GIn op l \<Longrightarrow> prog_steps (body op) (start op, y) (l, g_obj s)"
    and free: "(\<And>j op l. g_pcs s j \<noteq> GIn op l) \<Longrightarrow> g_obj s = y" using inv unfolding guard_inv_def by metis
  have alone: "g_pcs s j \<noteq> GIn op l" if "g_inside (g_pcs s i)" "j \<noteq> i" for j op l
    using guard_owner [OF inv that(1), of j] that(2) by auto
  have lock: "linv l \<and> (\<forall>j. j \<noteq> i \<longrightarrow> owns l j = g_inside (g_pcs s j))" if "lstep i (g_lock s) l" for l
    using inv_step [OF li that] step_local [OF li that] ow by blast
  note I = guard_invI [where x = x]
  from step show ?thesis
  proof cases
    case (g_call op)
    have "g_obj s = y" if "\<And>j op' l. ((g_pcs s)(i := GEnter op)) j \<noteq> GIn op' l"
      using free that g_call(2) by (metis fun_upd_apply guard_pc.distinct(3))
    then show ?thesis unfolding g_call(1) by (intro I [where y = y]) (use li ow g_call(2) h cs in \<open>auto split: if_splits\<close>)
  next
    case (g_wait l)
    have "owns l j = g_inside (g_pcs s j)" for j using lock [OF g_wait(2)] g_wait(3) ow by (cases "j = i") auto
    then show ?thesis unfolding g_wait(1) by (intro I [where y = y]) (use lock [OF g_wait(2)] h cs free in auto)
  next
    case (g_enter op l)
    have own: "owns l j = g_inside (((g_pcs s)(i := GIn op (start op))) j)" for j
      using lock [OF g_enter(3)] g_enter(5) by (cases "j = i") auto
    have out: "\<not> g_inside (g_pcs s j)" if "j \<noteq> i" for j
      using lock [OF g_enter(3)] inv_owns [of l j i] g_enter(5) that by blast
    have none: "g_pcs s j \<noteq> GIn op' l'" for j op' l' using g_enter(2) out [of j] by (cases "j = i") auto
    then have obj: "g_obj s = y" using free by blast
    show ?thesis unfolding g_enter(1)
      by (rule I [where y = y]) (use lock [OF g_enter(3)] own h none obj in \<open>auto intro: ps_refl split: if_splits\<close>)
  next
    case (g_access op p p' x')
    have run: "prog_steps (body op) (start op, y) (p', x')" using ps_goto [OF cs [OF g_access(2)] g_access(3)] .
    have "\<exists>j op' l. ((g_pcs s)(i := GIn op p')) j = GIn op' l" by (intro exI [of _ i]) simp
    then show ?thesis unfolding g_access(1)
      by (intro I [where y = y]) (use run li ow h alone g_access(2) in \<open>auto split: if_splits\<close>)
  next
    case (g_done op p r x')
    have "prog_runs (body op) (start op) y r x'" using cs [OF g_done(2)] g_done(3) by (auto simp: prog_runs_def)
    then have "seq_history body start x (g_log s @ [(i, op, r)]) x'" by (rule sh_snoc [OF h(2)])
    then show ?thesis unfolding g_done(1)
      by (intro I [where y = x']) (use li ow h(1) alone g_done(2) in \<open>auto split: if_splits\<close>)
  next
    case (g_leave op r l)
    have own: "owns l j = g_inside (((g_pcs s)(i := GOut)) j)" for j
      using lock [OF g_leave(3)] g_leave(5) by (cases "j = i") auto
    have none: "g_pcs s j \<noteq> GIn op' l'" for j op' l' using alone [of j] g_leave(2) by (cases "j = i") auto
    then have obj: "g_obj s = y" using free by blast
    show ?thesis unfolding g_leave(1)
      by (rule I [where y = y]) (use lock [OF g_leave(3)] own h none obj in \<open>auto split: if_splits\<close>)
  qed
qed

lemma guard_inv_start: "guard_start linit oinit s \<Longrightarrow> guard_inv linv owns body start oinit s"
  by (rule guard_invI [where x = "g_obj s" and y = "g_obj s"])
    (auto simp: guard_start_def init_free intro: inv_init sh_nil)

lemma reach_guard_inv:
  "reach (guard_start linit oinit) (guard_step lstep owns body start) s \<Longrightarrow> guard_inv linv owns body start oinit s"
  by (induction rule: reach.induct) (blast intro: guard_inv_start guard_inv_step)+

text \<open>The completed operations are a sequential history; between operations the object is its result.\<close>

lemma linearizable:
  assumes "reach (guard_start linit oinit) (guard_step lstep owns body start) s"
  obtains x y where "oinit x" "seq_history body start x (g_log s) y"
    "\<And>i op l. g_pcs s i = GIn op l \<Longrightarrow> prog_steps (body op) (start op, y) (l, g_obj s)"
    "(\<And>i op l. g_pcs s i \<noteq> GIn op l) \<Longrightarrow> g_obj s = y"
  using reach_guard_inv [OF assms] unfolding guard_inv_def by metis

end

section \<open>Histories of a specification\<close>

text \<open>\<open>legal spec a h b\<close>: the history \<open>h\<close> is what the specification does from \<open>a\<close>, with the same results, and it ends in \<open>b\<close>.\<close>

fun legal :: "('a \<Rightarrow> 'op \<Rightarrow> 'r \<times> 'a) \<Rightarrow> 'a \<Rightarrow> (tid \<times> 'op \<times> 'r) list \<Rightarrow> 'a \<Rightarrow> bool" where
  "legal spec a [] b \<longleftrightarrow> b = a"
| "legal spec a ((i, op, r) # h) b \<longleftrightarrow> fst (spec a op) = r \<and> legal spec (snd (spec a op)) h b"

lemma legal_snoc: "legal spec a h b \<Longrightarrow> fst (spec b op) = r \<Longrightarrow> legal spec a (h @ [(i, op, r)]) (snd (spec b op))"
  by (induction spec a h b rule: legal.induct) auto

lemma seq_history_legal:
  assumes "seq_history body start x h y" and "P x a"
    and "\<And>op x a. P x a \<Longrightarrow> op \<in> fst ` snd ` set h \<Longrightarrow> \<exists>y. prog_exec (body op) (start op) x (fst (spec a op)) y \<and> P y (snd (spec a op))"
  shows "\<exists>b. P y b \<and> legal spec a h b"
  using assms(1,3)
proof (induction rule: seq_history.induct)
  case sh_nil
  then show ?case using assms(2) by auto
next
  case (sh_snoc h y op r z i)
  obtain b where b: "P y b" "legal spec a h b" using sh_snoc.IH sh_snoc.prems by force
  obtain y' where y': "prog_exec (body op) (start op) y (fst (spec b op)) y'" "P y' (snd (spec b op))"
    using sh_snoc.prems [OF b(1), of op] by auto
  from prog_runs_det [OF y'(1) sh_snoc.hyps(2)] have "r = fst (spec b op)" "z = y'" by auto
  then show ?case using y'(2) legal_snoc [OF b(2), of op r i] by auto
qed

end
