(* ===== verification/Listset_Coarse.thy ===== *)
theory Listset_Coarse
  imports Guarded Spinlock Map_Contract Linked_List
begin

text \<open>
  The sorted list set with one lock, \<^verbatim>\<open>map/listset_coarse.h\<close>: a linked list between two sentinels, in the
  order of the keys, whose operations run under a \<^verbatim>\<open>ttaslock\<close>. Every operation is a program of accesses to the
  next fields; the calls that take and release the lock are the steps of the guarded system. The comparison function is a
  parameter \<open>cmp\<close> of which the documented behaviour is assumed (\<open>cmp_fun_ok\<close>); the nodes given to the retire function
  are recorded.
\<close>

section \<open>Operations\<close>

record vlistset_t =
  ls_next :: "ptr \<Rightarrow> ptr"
  head_sentinel :: ptr
  tail_sentinel :: ptr
  ls_retired :: "ptr list"

definition vlistset_init :: "vlistset_t \<Rightarrow> vlistset_t" where
  "vlistset_init l = l\<lparr>ls_next := (ls_next l)(head_sentinel l := tail_sentinel l)\<rparr>"

text \<open>The loop \<^verbatim>\<open>while (curr != tail && cmp_fun(curr, key) < 0)\<close> and the test for the key that follows it.\<close>

definition ls_before :: "(ptr \<Rightarrow> ptr \<Rightarrow> int) \<Rightarrow> ptr \<Rightarrow> vlistset_t \<Rightarrow> ptr \<Rightarrow> bool" where
  "ls_before cmp key l cur \<longleftrightarrow> cur \<noteq> tail_sentinel l \<and> cmp cur key < 0"

definition ls_found :: "(ptr \<Rightarrow> ptr \<Rightarrow> int) \<Rightarrow> ptr \<Rightarrow> vlistset_t \<Rightarrow> ptr \<Rightarrow> bool" where
  "ls_found cmp key l cur \<longleftrightarrow> cur \<noteq> tail_sentinel l \<and> cmp cur key = 0"

datatype ls_pc = LS_first | LS_loop ptr ptr | LS_link ptr

fun vlistset_add :: "(ptr \<Rightarrow> ptr \<Rightarrow> int) \<Rightarrow> ptr \<Rightarrow> ptr \<Rightarrow> (ls_pc, vlistset_t, bool) prog" where
  "vlistset_add cmp key node LS_first l = (Goto (LS_loop (head_sentinel l) (ls_next l (head_sentinel l))), l)"
| "vlistset_add cmp key node (LS_loop pred cur) l =
     (if ls_before cmp key l cur then (Goto (LS_loop cur (ls_next l cur)), l)
      else if ls_found cmp key l cur then (Ret False, l)
      else (Goto (LS_link pred), l\<lparr>ls_next := (ls_next l)(node := cur)\<rparr>))"
| "vlistset_add cmp key node (LS_link pred) l = (Ret True, l\<lparr>ls_next := (ls_next l)(pred := node)\<rparr>)"

fun vlistset_remove :: "(ptr \<Rightarrow> ptr \<Rightarrow> int) \<Rightarrow> ptr \<Rightarrow> (ls_pc, vlistset_t, bool) prog" where
  "vlistset_remove cmp key LS_first l = (Goto (LS_loop (head_sentinel l) (ls_next l (head_sentinel l))), l)"
| "vlistset_remove cmp key (LS_loop pred cur) l =
     (if ls_before cmp key l cur then (Goto (LS_loop cur (ls_next l cur)), l)
      else if ls_found cmp key l cur
        then (Ret True, l\<lparr>ls_next := (ls_next l)(pred := ls_next l cur), ls_retired := ls_retired l @ [cur]\<rparr>)
      else (Ret False, l))"
| "vlistset_remove cmp key (LS_link pred) l = (Ret False, l)"

fun vlistset_get :: "(ptr \<Rightarrow> ptr \<Rightarrow> int) \<Rightarrow> ptr \<Rightarrow> (ls_pc, vlistset_t, ptr) prog" where
  "vlistset_get cmp key LS_first l = (Goto (LS_loop (head_sentinel l) (ls_next l (head_sentinel l))), l)"
| "vlistset_get cmp key (LS_loop pred cur) l =
     (if ls_before cmp key l cur then (Goto (LS_loop cur (ls_next l cur)), l)
      else (Ret (if ls_found cmp key l cur then cur else NULL), l))"
| "vlistset_get cmp key (LS_link pred) l = (Ret NULL, l)"

text \<open>The visitor is called with the listed nodes; the destructor calls the retire function as visitor.\<close>

partial_function (option) vlistset_visit_from :: "vlistset_t \<Rightarrow> ptr \<Rightarrow> ptr list option" where
  "vlistset_visit_from l cur =
     (if cur = tail_sentinel l then Some []
      else Option.bind (vlistset_visit_from l (ls_next l cur)) (\<lambda>ns. Some (cur # ns)))"

definition vlistset_visit :: "vlistset_t \<Rightarrow> ptr list option" where
  "vlistset_visit l = vlistset_visit_from l (ls_next l (head_sentinel l))"

definition vlistset_destroy :: "vlistset_t \<Rightarrow> vlistset_t option" where
  "vlistset_destroy l = map_option (\<lambda>ns. l\<lparr>ls_retired := ls_retired l @ ns\<rparr>) (vlistset_visit l)"

section \<open>Threads\<close>

text \<open>The operations as calls of the map contract; \<^verbatim>\<open>NULL\<close> from a lookup is \<open>None\<close>.\<close>

fun vlistset_op :: "(ptr \<Rightarrow> ptr \<Rightarrow> int) \<Rightarrow> (ptr, ptr) map_op \<Rightarrow> (ls_pc, vlistset_t, ptr map_out) prog" where
  "vlistset_op cmp (OpAdd k n) p l = (case vlistset_add cmp k n p l of (Goto p', l') \<Rightarrow> (Goto p', l') | (Ret b, l') \<Rightarrow> (Ret (OutBool b), l'))"
| "vlistset_op cmp (OpRemove k) p l = (case vlistset_remove cmp k p l of (Goto p', l') \<Rightarrow> (Goto p', l') | (Ret b, l') \<Rightarrow> (Ret (OutBool b), l'))"
| "vlistset_op cmp (OpGet k) p l = (case vlistset_get cmp k p l of (Goto p', l') \<Rightarrow> (Goto p', l')
     | (Ret n, l') \<Rightarrow> (Ret (OutVal (if n = NULL then None else Some n)), l'))"

abbreviation ls_start_pc :: "(ptr, ptr) map_op \<Rightarrow> ls_pc" where "ls_start_pc \<equiv> \<lambda>_. LS_first"

definition vlistset_start :: "ptr \<Rightarrow> ptr \<Rightarrow> vlistset_t \<Rightarrow> bool" where
  "vlistset_start h t l \<longleftrightarrow> (\<exists>l0. l = vlistset_init l0) \<and> head_sentinel l = h \<and> tail_sentinel l = t \<and> h \<noteq> t \<and> ls_retired l = []"

section \<open>The list\<close>

text \<open>The documented behaviour of the comparison function; \<open>key n\<close> is the key stored with node \<open>n\<close>.\<close>

definition cmp_fun_ok :: "(ptr \<Rightarrow> ptr) \<Rightarrow> (ptr \<Rightarrow> ptr \<Rightarrow> int) \<Rightarrow> bool" where
  "cmp_fun_ok key cmp \<longleftrightarrow> (\<forall>n k. cmp n k = (if key n = k then 0 else if key n < k then - 1 else 1))"

text \<open>\<open>ls_ok key l xs\<close>: the nodes between the sentinels are \<open>xs\<close>, with increasing keys.\<close>

definition ls_ok :: "(ptr \<Rightarrow> ptr) \<Rightarrow> vlistset_t \<Rightarrow> ptr list \<Rightarrow> bool" where
  "ls_ok key l xs \<longleftrightarrow> segment (ls_next l) (ls_next l (head_sentinel l)) xs (tail_sentinel l) \<and> distinct xs \<and>
     head_sentinel l \<noteq> tail_sentinel l \<and> {head_sentinel l, tail_sentinel l, NULL} \<inter> set xs = {} \<and> sorted_wrt (\<lambda>a b. key a < key b) xs"

definition ls_map :: "(ptr \<Rightarrow> ptr) \<Rightarrow> ptr list \<Rightarrow> ptr \<rightharpoonup> ptr" where
  "ls_map key xs = map_of (map (\<lambda>n. (key n, n)) xs)"

lemma ls_map_Some:
  assumes "sorted_wrt (\<lambda>a b. key a < key b) xs"
  shows "ls_map key xs k = Some n \<longleftrightarrow> n \<in> set xs \<and> key n = k"
proof -
  have "sorted_wrt (<) (map key xs)" using assms by (simp add: sorted_wrt_map)
  then have "distinct (map fst (map (\<lambda>n. (key n, n)) xs))" using strict_sorted_iff [of "map key xs"] by (simp add: comp_def)
  then show ?thesis by (auto simp: ls_map_def map_of_eq_Some_iff)
qed

section \<open>Every operation run alone\<close>

text \<open>The list of a set, split at a key.\<close>

definition ls_split :: "(ptr \<Rightarrow> ptr) \<Rightarrow> ptr \<Rightarrow> ptr list \<Rightarrow> ptr list \<times> ptr list" where
  "ls_split key k xs = (takeWhile (\<lambda>n. key n < k) xs, dropWhile (\<lambda>n. key n < k) xs)"

lemma ls_splitD:
  assumes "ls_split key k xs = (ys, zs)" and "sorted_wrt (\<lambda>a b. key a < key b) xs"
  shows "xs = ys @ zs" "n \<in> set ys \<Longrightarrow> key n < k" "n \<in> set zs \<Longrightarrow> k \<le> key n" "n \<in> set (tl zs) \<Longrightarrow> k < key n"
proof -
  show xs: "xs = ys @ zs" using assms(1) by (auto simp: ls_split_def)
  show "n \<in> set ys \<Longrightarrow> key n < k" using assms(1) by (auto simp: ls_split_def dest: set_takeWhileD)
  have z: "sorted_wrt (\<lambda>a b. key a < key b) zs" using assms(2) xs by (simp add: sorted_wrt_append)
  have h: "k \<le> key (hd zs)" if "zs \<noteq> []" using hd_dropWhile [of "\<lambda>n. key n < k" xs] assms(1) that by (auto simp: ls_split_def)
  show t: "k < key n" if "n \<in> set (tl zs)" for n using z h that by (cases zs) force+
  show "n \<in> set zs \<Longrightarrow> k \<le> key n" using h t [of n] by (cases zs) auto
qed

lemma ls_walk:
  assumes cmp: "cmp_fun_ok key cmp"
    and first: "f LS_first l = (Goto (LS_loop (head_sentinel l) (ls_next l (head_sentinel l))), l)"
    and loop: "\<And>pred cur. ls_before cmp k l cur \<Longrightarrow> f (LS_loop pred cur) l = (Goto (LS_loop cur (ls_next l cur)), l)"
    and ok: "ls_ok key l (ys @ zs)" and ys: "\<And>n. n \<in> set ys \<Longrightarrow> key n < k"
    and fin: "prog_exec f (LS_loop (last (head_sentinel l # ys)) (hd (zs @ [tail_sentinel l]))) l r y"
  shows "prog_exec f LS_first l r y"
proof -
  have "prog_exec f (LS_loop pred cur) l r y"
    if "segment (ls_next l) cur us q" "q = hd (zs @ [tail_sentinel l])" "\<And>n. n \<in> set us \<Longrightarrow> key n < k \<and> n \<noteq> tail_sentinel l"
      "last (pred # us) = last (head_sentinel l # ys)" for us pred cur q
    using that
  proof (induction us arbitrary: pred cur)
    case Nil
    then show ?case using fin by simp
  next
    case (Cons x us)
    have b: "ls_before cmp k l x" using Cons.prems(3) [of x] cmp by (auto simp: ls_before_def cmp_fun_ok_def)
    have "prog_exec f (LS_loop x (ls_next l x)) l r y" using Cons.prems by (intro Cons.IH) auto
    then show ?case using Cons.prems(1) pe_goto [where f = f, OF loop [OF b, of pred]] by simp
  qed
  moreover obtain q where "segment (ls_next l) (ls_next l (head_sentinel l)) ys q" "segment (ls_next l) q zs (tail_sentinel l)"
    using ok by (auto simp: ls_ok_def segment_append)
  moreover have "key n < k \<and> n \<noteq> tail_sentinel l" if "n \<in> set ys" for n using ok ys that by (auto simp: ls_ok_def)
  ultimately have "prog_exec f (LS_loop (head_sentinel l) (ls_next l (head_sentinel l))) l r y" using segment_first by blast
  then show ?thesis by (rule pe_goto [where f = f, OF first])
qed

text \<open>The node after the walk: it is the one with the key, if there is one.\<close>

lemma ls_stop:
  assumes cmp: "cmp_fun_ok key cmp" and ok: "ls_ok key l xs" and sp: "ls_split key k xs = (ys, zs)"
  defines "cur \<equiv> hd (zs @ [tail_sentinel l])"
  shows "\<not> ls_before cmp k l cur" "ls_found cmp k l cur \<longleftrightarrow> ls_map key xs k \<noteq> None" "ls_found cmp k l cur \<Longrightarrow> ls_map key xs k = Some cur \<and> zs = cur # tl zs"
proof -
  have srt: "sorted_wrt (\<lambda>a b. key a < key b) xs" and t: "tail_sentinel l \<notin> set xs" using ok by (auto simp: ls_ok_def)
  note s = ls_splitD [OF sp srt]
  show "\<not> ls_before cmp k l cur"
    using s(3) [of cur] cmp by (cases zs) (auto simp: cur_def ls_before_def cmp_fun_ok_def)
  have f: "ls_found cmp k l cur \<longleftrightarrow> zs \<noteq> [] \<and> key (hd zs) = k"
    using t s(1) cmp by (cases zs) (auto simp: cur_def ls_found_def cmp_fun_ok_def)
  have m: "ls_map key xs k = Some n \<longleftrightarrow> zs \<noteq> [] \<and> n = hd zs \<and> key n = k" for n
  proof -
    have "n \<in> set ys \<Longrightarrow> key n \<noteq> k" "n \<in> set (tl zs) \<Longrightarrow> key n \<noteq> k" using s(2,4) [of n] by auto
    then show ?thesis using ls_map_Some [OF srt, of k n] s(1) by (cases zs) auto
  qed
  show "ls_found cmp k l cur \<longleftrightarrow> ls_map key xs k \<noteq> None" using f m by (metis not_None_eq)
  show "ls_found cmp k l cur \<Longrightarrow> ls_map key xs k = Some cur \<and> zs = cur # tl zs" using f m by (cases zs) (auto simp: cur_def)
qed

lemma ls_okD:
  assumes "ls_ok key l xs"
  shows "segment (ls_next l) (head_sentinel l) (head_sentinel l # xs) (tail_sentinel l)" "distinct (head_sentinel l # xs)"
    "tail_sentinel l \<notin> set (head_sentinel l # xs)" "NULL \<notin> set xs" "sorted_wrt (\<lambda>a b. key a < key b) xs"
  using assms by (auto simp: ls_ok_def)

lemma ls_okI:
  assumes "segment (ls_next l) (head_sentinel l) (head_sentinel l # xs) (tail_sentinel l)" "distinct (head_sentinel l # xs)"
    "tail_sentinel l \<notin> set (head_sentinel l # xs)" "NULL \<notin> set xs" "sorted_wrt (\<lambda>a b. key a < key b) xs"
  shows "ls_ok key l xs"
  using assms by (auto simp: ls_ok_def)

lemma ls_add_link:
  assumes ok: "ls_ok key l xs" and sp: "ls_split key k xs = (ys, zs)" and new: "ls_map key xs k = None" and node: "key node = k"
    "node \<notin> {head_sentinel l, tail_sentinel l, NULL}"
  defines "l' \<equiv> l\<lparr>ls_next := (ls_next l)(node := hd (zs @ [tail_sentinel l]), last (head_sentinel l # ys) := node)\<rparr>"
  shows "ls_ok key l' (ys @ node # zs) \<and> ls_map key (ys @ node # zs) = (ls_map key xs)(k \<mapsto> node)"
proof -
  let ?h = "head_sentinel l" and ?t = "tail_sentinel l" and ?c = "hd (zs @ [tail_sentinel l])" and ?p = "last (head_sentinel l # ys)"
  note o = ls_okD [OF ok] and s = ls_splitD [OF sp ls_okD(5) [OF ok]]
  have nx: "node \<notin> set xs" using ls_map_Some [OF o(5), of k node] new node(1) by simp
  obtain q where q: "segment (ls_next l) ?h (?h # ys) q" "segment (ls_next l) q zs ?t"
    using o(1) s(1) segment_append [of "ls_next l" ?h "?h # ys" zs ?t] by auto
  have c: "q = ?c" using segment_first [OF q(2)] .
  have p: "?p \<in> set (?h # ys)" by (rule last_in_set) simp
  have "?p \<noteq> node" "?p \<notin> set zs" using p nx node(2) o(2) s(1) by auto
  have d: "distinct (?h # ys)" "node \<notin> set (?h # ys)" "node \<notin> set zs" using o(2) s(1) nx node(2) by auto
  have "segment ((ls_next l)(node := ?c)) ?h (?h # ys) q" using q(1) segment_upd [OF d(2)] by blast
  from segment_relink [OF this _ d(1), of node] have "segment (ls_next l') ?h (?h # ys) node" unfolding l'_def by simp
  moreover have "segment (ls_next l') node (node # zs) ?t"
    using q(2) c d(3) \<open>?p \<noteq> node\<close> \<open>?p \<notin> set zs\<close> by (simp add: l'_def)
  ultimately have seg: "segment (ls_next l') ?h (?h # ys @ node # zs) ?t"
    using segment_append [of "ls_next l'" ?h "?h # ys" "node # zs" ?t] by auto
  have zk: "k < key n" if "n \<in> set zs" for n
    using s(3) [OF that] ls_map_Some [OF o(5), of k n] new s(1) that by (auto simp: order.order_iff_strict)
  have srt: "sorted_wrt (\<lambda>a b. key a < key b) (ys @ node # zs)"
    using o(5) s(1,2) zk node(1) by (auto simp: sorted_wrt_append)
  have ok': "ls_ok key l' (ys @ node # zs)"
    by (rule ls_okI) (use seg srt o(2,3,4) s(1) nx node(2) in \<open>auto simp: l'_def\<close>)
  moreover have "ls_map key (ys @ node # zs) = (ls_map key xs)(k \<mapsto> node)"
  proof (rule map_eqI)
    show "ls_map key (ys @ node # zs) j = Some n \<longleftrightarrow> ((ls_map key xs)(k \<mapsto> node)) j = Some n" for j n
      using ls_map_Some [OF srt, of j n] ls_map_Some [OF o(5), of j n] ls_map_Some [OF o(5), of k n] new s(1) node(1) by auto
  qed
  ultimately show ?thesis by blast
qed

lemma ls_remove_link:
  assumes ok: "ls_ok key l xs" and sp: "ls_split key k xs = (ys, zs)" and old: "ls_map key xs k = Some c" "zs = c # ws"
  defines "l' \<equiv> l\<lparr>ls_next := (ls_next l)(last (head_sentinel l # ys) := ls_next l c), ls_retired := ls_retired l @ [c]\<rparr>"
  shows "ls_ok key l' (ys @ ws) \<and> ls_map key (ys @ ws) = (ls_map key xs)(k := None)"
proof -
  let ?h = "head_sentinel l" and ?t = "tail_sentinel l" and ?p = "last (head_sentinel l # ys)"
  note o = ls_okD [OF ok] and s = ls_splitD [OF sp ls_okD(5) [OF ok]]
  obtain q where q: "segment (ls_next l) ?h (?h # ys) q" "segment (ls_next l) q zs ?t"
    using o(1) s(1) segment_append [of "ls_next l" ?h "?h # ys" zs ?t] by auto
  have p: "?p \<in> set (?h # ys)" by (rule last_in_set) simp
  have "?p \<notin> set ws" using p o(2) s(1) old(2) by auto
  then have "segment (ls_next l') (ls_next l c) ws ?t" using q(2) old(2) by (simp add: l'_def)
  moreover have "segment (ls_next l') ?h (?h # ys) (ls_next l c)"
    using segment_relink [OF q(1), of "ls_next l c"] o(2) s(1) by (simp add: l'_def)
  ultimately have seg: "segment (ls_next l') ?h (?h # ys @ ws) ?t"
    using segment_append [of "ls_next l'" ?h "?h # ys" ws ?t] by auto
  have srt: "sorted_wrt (\<lambda>a b. key a < key b) (ys @ ws)" using o(5) s(1) old(2) by (auto simp: sorted_wrt_append)
  have "ls_ok key l' (ys @ ws)" by (rule ls_okI) (use seg srt o(2,3,4) s(1) old(2) in \<open>auto simp: l'_def\<close>)
  moreover have "ls_map key (ys @ ws) = (ls_map key xs)(k := None)"
  proof (rule map_eqI)
    have c: "key c = k" "c \<in> set xs" using ls_map_Some [OF o(5), of k c] old(1) by auto
    have other: "n \<in> set xs \<and> key n = k \<longleftrightarrow> n = c" for n using ls_map_Some [OF o(5), of k n] old(1) by auto
    show "ls_map key (ys @ ws) j = Some n \<longleftrightarrow> ((ls_map key xs)(k := None)) j = Some n" for j n
      using ls_map_Some [OF srt, of j n] ls_map_Some [OF o(5), of j n] other [of n] s(1) old(2) o(2) c by auto
  qed
  ultimately show ?thesis by blast
qed

lemma ls_add_exec:
  assumes cmp: "cmp_fun_ok key cmp" and ok: "ls_ok key l xs" and node: "key node = k" "node \<notin> {head_sentinel l, tail_sentinel l, NULL}"
  shows "\<exists>l' xs'. prog_exec (vlistset_add cmp k node) LS_first l (ls_map key xs k = None) l' \<and> ls_ok key l' xs' \<and>
    ls_map key xs' = (if ls_map key xs k = None then (ls_map key xs)(k \<mapsto> node) else ls_map key xs) \<and>
    head_sentinel l' = head_sentinel l \<and> tail_sentinel l' = tail_sentinel l \<and> ls_retired l' = ls_retired l"
proof -
  obtain ys zs where sp: "ls_split key k xs = (ys, zs)" by fastforce
  note s = ls_splitD [OF sp ls_okD(5) [OF ok]] and st = ls_stop [OF cmp ok sp]
  let ?p = "last (head_sentinel l # ys)" and ?c = "hd (zs @ [tail_sentinel l])"
  have walk: "prog_exec (vlistset_add cmp k node) LS_first l r y" if "prog_exec (vlistset_add cmp k node) (LS_loop ?p ?c) l r y" for r y
    by (rule ls_walk [OF cmp _ _ ok [unfolded s(1)] s(2) that]) (simp_all)
  show ?thesis
  proof (cases "ls_map key xs k = None")
    case True
    let ?l1 = "l\<lparr>ls_next := (ls_next l)(node := ?c)\<rparr>" and ?l' = "l\<lparr>ls_next := (ls_next l)(node := ?c, ?p := node)\<rparr>"
    have "vlistset_add cmp k node (LS_loop ?p ?c) l = (Goto (LS_link ?p), ?l1)" using st(1,2) True by simp
    moreover have "vlistset_add cmp k node (LS_link ?p) ?l1 = (Ret True, ?l')" by simp
    ultimately have "prog_exec (vlistset_add cmp k node) (LS_loop ?p ?c) l True ?l'" by (blast intro: pe_goto pe_ret)
    with walk ls_add_link [OF ok sp True node] True show ?thesis
      by (intro exI [of _ ?l'] exI [of _ "ys @ node # zs"]) simp
  next
    case False
    then have "vlistset_add cmp k node (LS_loop ?p ?c) l = (Ret False, l)" using st(1,2) by simp
    then have "prog_exec (vlistset_add cmp k node) (LS_loop ?p ?c) l False l" by (rule pe_ret)
    from walk [OF this] False have "prog_exec (vlistset_add cmp k node) LS_first l (ls_map key xs k = None) l" by (metis)
    with ok False show ?thesis by (intro exI [of _ l] exI [of _ xs]) auto
  qed
qed

lemma ls_remove_exec:
  assumes cmp: "cmp_fun_ok key cmp" and ok: "ls_ok key l xs"
  shows "\<exists>l' xs'. prog_exec (vlistset_remove cmp k) LS_first l (ls_map key xs k \<noteq> None) l' \<and> ls_ok key l' xs' \<and>
    ls_map key xs' = (ls_map key xs)(k := None) \<and> head_sentinel l' = head_sentinel l \<and> tail_sentinel l' = tail_sentinel l \<and>
    ls_retired l' = ls_retired l @ (case ls_map key xs k of None \<Rightarrow> [] | Some n \<Rightarrow> [n])"
proof -
  obtain ys zs where sp: "ls_split key k xs = (ys, zs)" by fastforce
  note s = ls_splitD [OF sp ls_okD(5) [OF ok]] and st = ls_stop [OF cmp ok sp]
  let ?p = "last (head_sentinel l # ys)" and ?c = "hd (zs @ [tail_sentinel l])"
  have walk: "prog_exec (vlistset_remove cmp k) LS_first l r y" if "prog_exec (vlistset_remove cmp k) (LS_loop ?p ?c) l r y" for r y
    by (rule ls_walk [OF cmp _ _ ok [unfolded s(1)] s(2) that]) simp_all
  show ?thesis
  proof (cases "ls_map key xs k = None")
    case True
    then have "vlistset_remove cmp k (LS_loop ?p ?c) l = (Ret False, l)" using st(1,2) by simp
    then have "prog_exec (vlistset_remove cmp k) (LS_loop ?p ?c) l False l" by (rule pe_ret)
    with walk ok True show ?thesis by (intro exI [of _ l] exI [of _ xs]) (simp add: fun_upd_idem)
  next
    case False
    then have c: "ls_map key xs k = Some ?c" "zs = ?c # tl zs" using st(2,3) by blast+
    let ?l' = "l\<lparr>ls_next := (ls_next l)(?p := ls_next l ?c), ls_retired := ls_retired l @ [?c]\<rparr>"
    have "vlistset_remove cmp k (LS_loop ?p ?c) l = (Ret True, ?l')" using st(1,2) False by simp
    then have "prog_exec (vlistset_remove cmp k) (LS_loop ?p ?c) l True ?l'" by (rule pe_ret)
    with walk ls_remove_link [OF ok sp c] c(1) show ?thesis by (intro exI [of _ ?l'] exI [of _ "ys @ tl zs"]) simp
  qed
qed

lemma ls_get_exec:
  assumes cmp: "cmp_fun_ok key cmp" and ok: "ls_ok key l xs"
  shows "prog_exec (vlistset_get cmp k) LS_first l (case ls_map key xs k of None \<Rightarrow> NULL | Some n \<Rightarrow> n) l"
proof -
  obtain ys zs where sp: "ls_split key k xs = (ys, zs)" by fastforce
  note s = ls_splitD [OF sp ls_okD(5) [OF ok]] and st = ls_stop [OF cmp ok sp]
  let ?p = "last (head_sentinel l # ys)" and ?c = "hd (zs @ [tail_sentinel l])"
  have "vlistset_get cmp k (LS_loop ?p ?c) l = (Ret (case ls_map key xs k of None \<Rightarrow> NULL | Some n \<Rightarrow> n), l)"
    using st by (cases "ls_map key xs k") auto
  then show ?thesis by (intro ls_walk [OF cmp _ _ ok [unfolded s(1)] s(2)] pe_ret) simp_all
qed

section \<open>Many threads\<close>

lemma prog_exec_map:
  assumes "prog_exec f p x r y" and "\<And>p x. g p x = (case f p x of (Goto p', x') \<Rightarrow> (Goto p', x') | (Ret b, x') \<Rightarrow> (Ret (h b), x'))"
  shows "prog_exec g p x (h r) y"
  using assms(1)
proof (induction rule: prog_exec.induct)
  case (pe_ret p x r y)
  then show ?case by (intro prog_exec.pe_ret) (simp add: assms(2))
next
  case (pe_goto p x p' x' r y)
  have "g p x = (Goto p', x')" using pe_goto.hyps(1) by (simp add: assms(2))
  then show ?case using pe_goto.IH by (rule prog_exec.pe_goto)
qed

text \<open>The set as a map from keys to nodes, and the nodes that were retired, in order.\<close>

type_synonym ls_state = "(ptr \<rightharpoonup> ptr) \<times> ptr list"

fun ls_spec :: "ls_state \<Rightarrow> (ptr, ptr) map_op \<Rightarrow> ptr map_out \<times> ls_state" where
  "ls_spec (m, ret) op = (fst (map_spec m op), snd (map_spec m op),
     ret @ (case op of OpRemove k \<Rightarrow> (case m k of None \<Rightarrow> [] | Some n \<Rightarrow> [n]) | _ \<Rightarrow> []))"

text \<open>A call of the set is well-formed when the node of an add has the key and is not a sentinel.\<close>

fun ls_call_ok :: "(ptr \<Rightarrow> ptr) \<Rightarrow> ptr \<Rightarrow> ptr \<Rightarrow> (ptr, ptr) map_op \<Rightarrow> bool" where
  "ls_call_ok key h t (OpAdd k n) \<longleftrightarrow> key n = k \<and> n \<notin> {h, t, NULL}"
| "ls_call_ok key h t _ \<longleftrightarrow> True"

definition ls_rel :: "(ptr \<Rightarrow> ptr) \<Rightarrow> ptr \<Rightarrow> ptr \<Rightarrow> vlistset_t \<Rightarrow> ls_state \<Rightarrow> bool" where
  "ls_rel key h t l a \<longleftrightarrow> (\<exists>xs. ls_ok key l xs \<and> a = (ls_map key xs, ls_retired l)) \<and> head_sentinel l = h \<and> tail_sentinel l = t"

lemma ls_op_exec:
  assumes cmp: "cmp_fun_ok key cmp" and rel: "ls_rel key h t l a" and op: "ls_call_ok key h t op"
  shows "\<exists>l'. prog_exec (vlistset_op cmp op) LS_first l (fst (ls_spec a op)) l' \<and> ls_rel key h t l' (snd (ls_spec a op))"
proof -
  obtain xs where xs: "ls_ok key l xs" "a = (ls_map key xs, ls_retired l)" and s: "head_sentinel l = h" "tail_sentinel l = t"
    using rel by (auto simp: ls_rel_def)
  show ?thesis
  proof (cases op)
    case (OpAdd k n)
    obtain l' xs' where l': "prog_exec (vlistset_add cmp k n) LS_first l (ls_map key xs k = None) l'" "ls_ok key l' xs'"
      "ls_map key xs' = (if ls_map key xs k = None then (ls_map key xs)(k \<mapsto> n) else ls_map key xs)"
      "head_sentinel l' = head_sentinel l" "tail_sentinel l' = tail_sentinel l" "ls_retired l' = ls_retired l"
      using ls_add_exec [OF cmp xs(1), of n k] op OpAdd s by auto
    have "prog_exec (vlistset_op cmp op) LS_first l (OutBool (ls_map key xs k = None)) l'"
      by (rule prog_exec_map [OF l'(1)]) (simp add: OpAdd)
    then show ?thesis using l'(2-6) s xs(2) OpAdd by (intro exI [of _ l']) (auto simp: ls_rel_def intro!: exI [of _ xs'])
  next
    case (OpGet k)
    have "prog_exec (vlistset_op cmp op) LS_first l
        (OutVal (if (case ls_map key xs k of None \<Rightarrow> NULL | Some n \<Rightarrow> n) = NULL then None else Some (case ls_map key xs k of None \<Rightarrow> NULL | Some n \<Rightarrow> n))) l"
      by (rule prog_exec_map [OF ls_get_exec [OF cmp xs(1), of k]]) (simp add: OpGet)
    moreover have "n \<noteq> NULL" if "ls_map key xs k = Some n" for n using ls_map_Some ls_okD(4,5) [OF xs(1)] that by metis
    ultimately have "prog_exec (vlistset_op cmp op) LS_first l (OutVal (ls_map key xs k)) l" by (cases "ls_map key xs k") auto
    then show ?thesis using xs rel OpGet by (intro exI [of _ l]) simp
  next
    case (OpRemove k)
    obtain l' xs' where l': "prog_exec (vlistset_remove cmp k) LS_first l (ls_map key xs k \<noteq> None) l'" "ls_ok key l' xs'"
      "ls_map key xs' = (ls_map key xs)(k := None)" "head_sentinel l' = head_sentinel l" "tail_sentinel l' = tail_sentinel l"
      "ls_retired l' = ls_retired l @ (case ls_map key xs k of None \<Rightarrow> [] | Some n \<Rightarrow> [n])"
      using ls_remove_exec [OF cmp xs(1), of k] by blast
    have "prog_exec (vlistset_op cmp op) LS_first l (OutBool (ls_map key xs k \<noteq> None)) l'"
      by (rule prog_exec_map [OF l'(1)]) (simp add: OpRemove)
    then show ?thesis using l'(2-6) s xs(2) OpRemove by (intro exI [of _ l']) (auto simp: ls_rel_def intro!: exI [of _ xs'])
  qed
qed

lemma ls_start_rel:
  assumes "vlistset_start h t l"
  shows "ls_rel key h t l (Map.empty, [])"
proof -
  obtain l0 where "l = vlistset_init l0" using assms by (auto simp: vlistset_start_def)
  then have "ls_next l (head_sentinel l) = tail_sentinel l" by (simp add: vlistset_init_def)
  then have "ls_ok key l []" using assms by (simp add: ls_ok_def vlistset_start_def)
  then show ?thesis using assms by (auto simp: ls_rel_def ls_map_def vlistset_start_def intro!: exI [of _ "[]"])
qed

lemma ls_visit:
  assumes "ls_ok key l xs"
  shows "vlistset_visit l = Some xs"
proof -
  have "vlistset_visit_from l p = Some ys" if "segment (ls_next l) p ys (tail_sentinel l)" "tail_sentinel l \<notin> set ys" for p ys
    using that
  proof (induction ys arbitrary: p)
    case Nil
    then show ?case by (subst vlistset_visit_from.simps) simp
  next
    case (Cons y ys)
    then show ?case by (subst vlistset_visit_from.simps) auto
  qed
  then show ?thesis using assms by (simp add: vlistset_visit_def ls_ok_def)
qed

interpretation ls_guard: guarded ttaslock_start ttaslock_step ttas_inv ttas_owns "vlistset_op cmp" ls_start_pc "vlistset_start h t" for cmp h t
  by unfold_locales (simp add: ttaslock_start_def ttas_owns_def)

section \<open>Properties\<close>

text \<open>C7: the sorted list set is linearizable: for any number of threads that call its operations in any
  interleaving, access by access, under the test-and-test-and-set lock, the completed calls in the order of
  their completion return what a map from keys to nodes returns, and every removed node is given to
  the retire function once, in the order of the removals. When no call is running, the list in memory is the map,
  in the order of the keys, and the visitor sees exactly its nodes.\<close>

theorem listset_coarse_linearizable:
  assumes "reach (guard_start ttaslock_start (vlistset_start h t)) (guard_step ttaslock_step ttas_owns (vlistset_op cmp) ls_start_pc) s"
    and "cmp_fun_ok key cmp" and "\<forall>(i, op, r) \<in> set (g_log s). ls_call_ok key h t op"
  shows "\<exists>m ret. legal ls_spec (Map.empty, []) (g_log s) (m, ret) \<and>
    ((\<forall>i op l. g_pcs s i \<noteq> GIn op l) \<longrightarrow>
      (\<exists>xs. vlistset_visit (g_obj s) = Some xs \<and> sorted_wrt (\<lambda>a b. key a < key b) xs \<and> (\<forall>k n. m k = Some n \<longleftrightarrow> n \<in> set xs \<and> key n = k)) \<and>
      ls_retired (g_obj s) = ret)"
proof -
  obtain x y where h: "vlistset_start h t x" "seq_history (vlistset_op cmp) ls_start_pc x (g_log s) y"
    and obj: "(\<And>i op l. g_pcs s i \<noteq> GIn op l) \<Longrightarrow> g_obj s = y"
    using ls_guard.linearizable [OF assms(1)] by metis
  have "\<exists>a. ls_rel key h t y a \<and> legal ls_spec (Map.empty, []) (g_log s) a"
  proof (rule seq_history_legal [OF h(2), where P = "ls_rel key h t" and a = "(Map.empty, [])"])
    show "ls_rel key h t x (Map.empty, [])" using ls_start_rel [OF h(1)] .
    show "\<exists>l'. prog_exec (vlistset_op cmp op) LS_first l (fst (ls_spec a op)) l' \<and> ls_rel key h t l' (snd (ls_spec a op))"
      if "ls_rel key h t l a" "op \<in> fst ` snd ` set (g_log s)" for op l a
      by (rule ls_op_exec [OF assms(2) that(1)]) (use that(2) assms(3) in fastforce)
  qed
  then obtain xs where xs: "ls_ok key y xs" "legal ls_spec (Map.empty, []) (g_log s) (ls_map key xs, ls_retired y)" by (auto simp: ls_rel_def)
  have "(\<exists>xs'. vlistset_visit (g_obj s) = Some xs' \<and> sorted_wrt (\<lambda>a b. key a < key b) xs' \<and>
      (\<forall>k n. ls_map key xs k = Some n \<longleftrightarrow> n \<in> set xs' \<and> key n = k)) \<and> ls_retired (g_obj s) = ls_retired y"
    if "\<forall>i op l. g_pcs s i \<noteq> GIn op l"
    using obj that ls_visit [OF xs(1)] ls_okD(5) [OF xs(1)] ls_map_Some [OF ls_okD(5) [OF xs(1)]] by auto
  then show ?thesis using xs(2) by blast
qed

text \<open>An execution: thread 3 takes the lock, adds a node with key 7 and completes its call.\<close>

definition ls_w_cmp :: "ptr \<Rightarrow> ptr \<Rightarrow> int" where
  "ls_w_cmp n k = (if n = k then 0 else if n < k then - 1 else 1)"

type_synonym ls_sys = "(ttas_sys, vlistset_t, (ptr, ptr) map_op, ls_pc, ptr map_out) guard_sys"

definition ls_w :: "nat \<Rightarrow> ls_sys" where
  "ls_w j = \<lparr>g_lock = if j < 2 then ttas_w0 else ttas_w1,
     g_obj = \<lparr>ls_next = (if j < 4 then (\<lambda>_. 0)(1 := 2) else if j < 5 then (\<lambda>_. 0)(1 := 2, 7 := 2) else (\<lambda>_. 0)(1 := 7, 7 := 2)),
       head_sentinel = 1, tail_sentinel = 2, ls_retired = []\<rparr>,
     g_pcs = (\<lambda>_. GOut)(3 := if j = 0 then GOut else if j = 1 then GEnter (OpAdd 7 7) else if j = 2 then GIn (OpAdd 7 7) LS_first
       else if j = 3 then GIn (OpAdd 7 7) (LS_loop 1 2) else if j = 4 then GIn (OpAdd 7 7) (LS_link 1) else GLeave (OpAdd 7 7) (OutBool True)),
     g_log = (if j < 5 then [] else [(3, OpAdd 7 7, OutBool True)])\<rparr>"

lemma ls_w_step:
  assumes "j < 5"
  shows "guard_step ttaslock_step ttas_owns (vlistset_op ls_w_cmp) ls_start_pc 3 (ls_w j) (ls_w (j + 1))"
proof -
  consider "j = 0" | "j = 1" | "j = 2" | "j = 3" | "j = 4" using assms by linarith
  then show ?thesis
  proof cases
    case 1
    then show ?thesis using g_call [of "ls_w 0" 3 ttaslock_step ttas_owns "vlistset_op ls_w_cmp" ls_start_pc "OpAdd 7 7"] by (simp add: ls_w_def)
  next
    case 2
    then show ?thesis
      using g_enter [of "ls_w 1" 3 "OpAdd 7 7" ttaslock_step ttas_w1 ttas_owns "vlistset_op ls_w_cmp" ls_start_pc] ttas_w_step(2)
      by (simp add: ls_w_def numeral_2_eq_2 ttas_owns_def) (simp add: ttas_w0_def ttas_w1_def)
  next
    case 3
    then show ?thesis
      using g_access [of "ls_w 2" 3 "OpAdd 7 7" LS_first "vlistset_op ls_w_cmp" "LS_loop 1 2" "g_obj (ls_w 2)"] by (simp add: ls_w_def)
  next
    case 4
    then show ?thesis
      using g_access [of "ls_w 3" 3 "OpAdd 7 7" "LS_loop 1 2" "vlistset_op ls_w_cmp" "LS_link 1" "g_obj (ls_w 4)"]
      by (simp add: ls_w_def ls_before_def ls_found_def)
  next
    case 5
    then show ?thesis
      using g_done [of "ls_w 4" 3 "OpAdd 7 7" "LS_link 1" "vlistset_op ls_w_cmp" "OutBool True" "g_obj (ls_w 5)"]
      by (simp add: ls_w_def fun_upd_twist)
  qed
qed

lemma ls_w_reach: "j \<le> 5 \<Longrightarrow> reach (guard_start ttaslock_start (vlistset_start 1 2)) (guard_step ttaslock_step ttas_owns (vlistset_op ls_w_cmp) ls_start_pc) (ls_w j)"
proof (induction j)
  case 0
  have "vlistset_start 1 2 (g_obj (ls_w 0))"
    by (auto simp: vlistset_start_def ls_w_def vlistset_init_def
        intro!: exI [of _ "\<lparr>ls_next = \<lambda>_. 0, head_sentinel = 1, tail_sentinel = 2, ls_retired = []\<rparr>"])
  then show ?case by (intro reach_init) (simp add: guard_start_def ls_w_def ttas_w0_def ttaslock_start_def)
next
  case (Suc j)
  then show ?case using ls_w_step [of j] by (auto intro: reach_step)
qed

lemma listset_coarse_linearizable_witness:
  "\<exists>m ret. legal ls_spec (Map.empty, []) [(3, OpAdd 7 7, OutBool True)] (m, ret) \<and> ls_retired (g_obj (ls_w 5)) = ret \<and>
    vlistset_visit (g_obj (ls_w 5)) \<noteq> None"
proof -
  have "cmp_fun_ok id ls_w_cmp" by (simp add: cmp_fun_ok_def ls_w_cmp_def)
  moreover have "\<forall>(i, op, r) \<in> set (g_log (ls_w 5)). ls_call_ok id 1 2 op" by (simp add: ls_w_def)
  moreover have "\<forall>i op l. g_pcs (ls_w 5) i \<noteq> GIn op l" by (simp add: ls_w_def)
  moreover have "g_log (ls_w 5) = [(3, OpAdd 7 7, OutBool True)]" by (simp add: ls_w_def)
  ultimately show ?thesis using listset_coarse_linearizable [OF ls_w_reach [of 5], of id] by (metis option.distinct(1) order_refl)
qed

end
