(* ===== verification/Grace.thy ===== *)
theory Grace
  imports Linked_List
begin

text \<open>
  Safe memory reclamation as the containers use it (\<^verbatim>\<open>smr\<close>): threads run their operations in
  critical sections, a node that has been taken out of a container is retired, and it is handed out
  again only when every critical section that was open at that time has ended. \<open>grace\<close> has, for each
  retired node that has not been reused, the threads whose critical section has to end. It is auxiliary:
  no access depends on it.
\<close>

type_synonym grace = "ptr \<Rightarrow> tid set option"

definition grace_retire :: "ptr \<Rightarrow> tid set \<Rightarrow> grace \<Rightarrow> grace" where
  "grace_retire x A g = g(x \<mapsto> A)"

definition grace_leave :: "tid \<Rightarrow> grace \<Rightarrow> grace" where
  "grace_leave i g = (\<lambda>x. map_option (\<lambda>P. P - {i}) (g x))"

definition grace_reuse :: "ptr \<Rightarrow> grace \<Rightarrow> grace" where
  "grace_reuse x g = g(x := None)"

text \<open>Thread \<open>i\<close> is in a critical section that keeps the retired node \<open>x\<close> from being reused.\<close>

definition guarded_by :: "grace \<Rightarrow> tid \<Rightarrow> ptr \<Rightarrow> bool" where
  "guarded_by g i x \<longleftrightarrow> (\<exists>P. g x = Some P \<and> i \<in> P)"

lemma dom_grace [simp]:
  "dom (grace_retire x A g) = insert x (dom g)" "dom (grace_leave i g) = dom g" "dom (grace_reuse x g) = dom g - {x}"
  by (auto simp: grace_retire_def grace_leave_def grace_reuse_def dom_def)

lemma guarded_by_dom: "guarded_by g i x \<Longrightarrow> x \<in> dom g"
  by (auto simp: guarded_by_def)

lemma guarded_by_retire [simp]: "guarded_by (grace_retire y A g) i x \<longleftrightarrow> (if x = y then i \<in> A else guarded_by g i x)"
  by (simp add: guarded_by_def grace_retire_def)

lemma guarded_by_leave [simp]: "guarded_by (grace_leave j g) i x \<longleftrightarrow> guarded_by g i x \<and> i \<noteq> j"
  by (auto simp: guarded_by_def grace_leave_def)

lemma guarded_by_reuse: "g y = Some {} \<Longrightarrow> guarded_by (grace_reuse y g) i x \<longleftrightarrow> guarded_by g i x"
  by (auto simp: guarded_by_def grace_reuse_def)

text \<open>The nodes that belong to a thread, apart from those in use (\<open>X\<close>) and those of other threads.\<close>

definition owned_ok :: "(tid \<Rightarrow> ptr set) \<Rightarrow> ptr set \<Rightarrow> bool" where
  "owned_ok own X \<longleftrightarrow> (\<forall>i. NULL \<notin> own i) \<and> (\<forall>i. own i \<inter> X = {}) \<and> (\<forall>i j. i \<noteq> j \<longrightarrow> own i \<inter> own j = {})"

lemma owned_okD:
  assumes "owned_ok own X" and "x \<in> own i"
  shows "x \<noteq> NULL" "x \<notin> X" "i \<noteq> j \<Longrightarrow> x \<notin> own j"
  using assms unfolding owned_ok_def by blast+

lemma owned_okI:
  assumes "\<And>i x. x \<in> own i \<Longrightarrow> x \<noteq> NULL \<and> x \<notin> X" and "\<And>i j x. i \<noteq> j \<Longrightarrow> x \<in> own i \<Longrightarrow> x \<notin> own j"
  shows "owned_ok own X"
  using assms unfolding owned_ok_def by blast

lemma owned_ok_give: "owned_ok own X \<Longrightarrow> n \<in> own i \<Longrightarrow> owned_ok (own(i := own i - {n})) (insert n X)"
  by (rule owned_okI) (auto dest: owned_okD split: if_splits)

lemma owned_ok_take: "owned_ok own X \<Longrightarrow> n \<in> X \<Longrightarrow> n \<noteq> NULL \<Longrightarrow> owned_ok (own(i := insert n (own i))) (X - {n})"
  by (rule owned_okI) (auto dest: owned_okD split: if_splits)

end
