(* ===== verification/Unbounded_Lf.thy ===== *)
theory Unbounded_Lf
  imports Vatomic Grace
begin

text \<open>
  The lock-free unbounded queue \<^verbatim>\<open>queue/unbounded_queue_lf.h\<close> for any number of threads. The memory is the
  queue object and the two fields of every node address; one access is one step. Operations run in
  critical sections of the memory reclamation, so that a retired node can be enqueued again only after
  all operations that were running at that time have ended; otherwise nodes are reused freely. A thread
  enqueues only nodes it owns. \<open>ub_nodes\<close> (the nodes from the head on, the first one is the dummy),
  \<open>ub_own\<close>, \<open>ub_grace\<close>, \<open>ub_ins\<close>, \<open>ub_outs\<close> (the values enqueued and dequeued) and \<open>ub_seen\<close> (whether the queue has
  been empty since the call of a thread) and \<open>ub_retired\<close> (the nodes passed to \<^verbatim>\<open>retire\<close>) are auxiliary: no access depends on them.
\<close>

section \<open>Operations\<close>

record vqueue_ub_mem =
  ub_data :: "ptr \<Rightarrow> ptr"
  ub_next :: "ptr \<Rightarrow> ptr"
  ub_head :: ptr
  ub_tail :: ptr
  ub_sentinel :: ptr

definition vqueue_ub_init :: "vqueue_ub_mem \<Rightarrow> vqueue_ub_mem" where
  "vqueue_ub_init m = m\<lparr>ub_data := (ub_data m)(ub_sentinel m := NULL),
     ub_next := (ub_next m)(ub_sentinel m := vatomic_write (ub_next m (ub_sentinel m)) NULL),
     ub_head := vatomic_write (ub_head m) (ub_sentinel m), ub_tail := vatomic_write (ub_tail m) (ub_sentinel m)\<rparr>"

definition cas_next :: "ptr \<Rightarrow> ptr \<Rightarrow> ptr \<Rightarrow> vqueue_ub_mem \<Rightarrow> ptr \<times> vqueue_ub_mem" where
  "cas_next a e v m = (let (old, x) = vatomic_cmpxchg (ub_next m a) e v in (old, m\<lparr>ub_next := (ub_next m)(a := x)\<rparr>))"

definition cas_tail :: "ptr \<Rightarrow> ptr \<Rightarrow> vqueue_ub_mem \<Rightarrow> ptr \<times> vqueue_ub_mem" where
  "cas_tail e v m = (let (old, x) = vatomic_cmpxchg (ub_tail m) e v in (old, m\<lparr>ub_tail := x\<rparr>))"

definition cas_head :: "ptr \<Rightarrow> ptr \<Rightarrow> vqueue_ub_mem \<Rightarrow> ptr \<times> vqueue_ub_mem" where
  "cas_head e v m = (let (old, x) = vatomic_cmpxchg (ub_head m) e v in (old, m\<lparr>ub_head := x\<rparr>))"

text \<open>The arguments of a control point are the locals \<open>last\<close>, \<open>next\<close> and so on that are still used.\<close>

datatype ubenq_pc = EN_data | EN_next | EN_tail | EN_lnext ptr | EN_check ptr ptr | EN_link ptr | EN_swing ptr | EN_help ptr ptr

fun vqueue_ub_enq :: "ptr \<Rightarrow> ptr \<Rightarrow> (ubenq_pc, vqueue_ub_mem, unit res) prog" where
  "vqueue_ub_enq qnode data EN_data m =
     (if qnode = NULL \<or> data = NULL then (Ret (Inl AssertFail), m)
      else (Goto EN_next, m\<lparr>ub_data := (ub_data m)(qnode := data)\<rparr>))"
| "vqueue_ub_enq qnode data EN_next m = (Goto EN_tail, m\<lparr>ub_next := (ub_next m)(qnode := vatomic_write (ub_next m qnode) NULL)\<rparr>)"
| "vqueue_ub_enq qnode data EN_tail m = (Goto (EN_lnext (vatomic_read (ub_tail m))), m)"
| "vqueue_ub_enq qnode data (EN_lnext lst) m = (Goto (EN_check lst (vatomic_read (ub_next m lst))), m)"
| "vqueue_ub_enq qnode data (EN_check lst nxt) m =
     (if lst = vatomic_read (ub_tail m) then (if nxt = NULL then Goto (EN_link lst) else Goto (EN_help lst nxt)) else Goto EN_tail, m)"
| "vqueue_ub_enq qnode data (EN_link lst) m =
     (let (old, m') = cas_next lst NULL qnode m in (if old = NULL then Goto (EN_swing lst) else Goto EN_tail, m'))"
| "vqueue_ub_enq qnode data (EN_swing lst) m = (Ret (Inr ()), snd (cas_tail lst qnode m))"
| "vqueue_ub_enq qnode data (EN_help lst nxt) m = (Goto EN_tail, snd (cas_tail lst nxt m))"

text \<open>The result of the dequeue: the data and the node that is passed to \<^verbatim>\<open>retire\<close> (\<^verbatim>\<open>NULL\<close> if there is none).\<close>

datatype ubdeq_pc = DQ_head | DQ_tail ptr | DQ_next ptr ptr | DQ_check ptr ptr ptr | DQ_help ptr ptr | DQ_data ptr ptr | DQ_take ptr ptr ptr

fun vqueue_ub_deq :: "(ubdeq_pc, vqueue_ub_mem, (ptr \<times> ptr) res) prog" where
  "vqueue_ub_deq DQ_head m = (Goto (DQ_tail (vatomic_read (ub_head m))), m)"
| "vqueue_ub_deq (DQ_tail first) m = (Goto (DQ_next first (vatomic_read (ub_tail m))), m)"
| "vqueue_ub_deq (DQ_next first lst) m = (Goto (DQ_check first lst (vatomic_read (ub_next m first))), m)"
| "vqueue_ub_deq (DQ_check first lst nxt) m =
     (if first = vatomic_read (ub_head m) then
        (if first = lst then (if nxt = NULL then Ret (Inr (NULL, NULL)) else Goto (DQ_help lst nxt))
         else (if nxt \<noteq> NULL then Goto (DQ_data first nxt) else Ret (Inl AssertFail)))
      else Goto DQ_head, m)"
| "vqueue_ub_deq (DQ_help lst nxt) m = (Goto DQ_head, snd (cas_tail lst nxt m))"
| "vqueue_ub_deq (DQ_data first nxt) m = (Goto (DQ_take first nxt (ub_data m nxt)), m)"
| "vqueue_ub_deq (DQ_take first nxt data) m =
     (let (old, m') = cas_head first nxt m
      in (if old = first then Ret (Inr (data, if first \<noteq> ub_sentinel m then first else NULL)) else Goto DQ_head, m'))"

text \<open>The loop of \<^verbatim>\<open>vqueue_ub_get_length\<close> with \<open>curr\<close>, \<open>tail\<close>, \<open>cnt\<close> and \<open>is_sentinel_behind\<close>.\<close>

datatype ublen_pc = LN_head | LN_tail ptr | LN_loop ptr ptr vsize bool

definition len_test :: "ptr \<Rightarrow> ptr \<Rightarrow> vsize \<Rightarrow> bool \<Rightarrow> (ublen_pc, vsize res) ctl" where
  "len_test cur tail cnt behind = (if cur \<noteq> tail then Goto (LN_loop cur tail cnt behind) else Ret (Inr cnt))"

fun vqueue_ub_get_length :: "(ublen_pc, vqueue_ub_mem, vsize res) prog" where
  "vqueue_ub_get_length LN_head m = (Goto (LN_tail (vatomic_read (ub_head m))), m)"
| "vqueue_ub_get_length (LN_tail head) m =
     (let tail = vatomic_read (ub_tail m) in if head = NULL then Ret (Inl AssertFail) else len_test head tail 0 False, m)"
| "vqueue_ub_get_length (LN_loop cur tail cnt behind) m =
     (if behind \<and> cur = ub_sentinel m then Ret (Inl AssertFail)
      else len_test (vatomic_read (ub_next m cur)) tail (cnt + 1) True, m)"

datatype ubempty_pc = EM_head | EM_tail ptr

fun vqueue_ub_empty :: "(ubempty_pc, vqueue_ub_mem, bool) prog" where
  "vqueue_ub_empty EM_head m = (Goto (EM_tail (vatomic_read (ub_head m))), m)"
| "vqueue_ub_empty (EM_tail first) m = (Ret (first = vatomic_read (ub_tail m)), m)"

text \<open>The two walks that are called when no other thread uses the queue: the nodes the callbacks are called with.\<close>

partial_function (option) ub_walk :: "vqueue_ub_mem \<Rightarrow> ptr \<Rightarrow> ptr list option" where
  "ub_walk m cur =
     (if cur = NULL then Some []
      else let nxt = vatomic_read (ub_next m cur) in Option.bind (ub_walk m nxt) (\<lambda>ns. Some (cur # ns)))"

partial_function (option) ub_retire_walk :: "vqueue_ub_mem \<Rightarrow> ptr \<Rightarrow> ptr list option" where
  "ub_retire_walk m cur =
     (if cur = NULL then Some []
      else let nxt = vatomic_read (ub_next m cur) in
        Option.bind (ub_retire_walk m nxt) (\<lambda>ns. Some (if cur \<noteq> ub_sentinel m then cur # ns else ns)))"

definition vqueue_ub_visit_nodes :: "vqueue_ub_mem \<Rightarrow> ptr list option" where
  "vqueue_ub_visit_nodes m = ub_walk m (vatomic_read (ub_next m (vatomic_read (ub_head m))))"

definition vqueue_ub_destroy :: "vqueue_ub_mem \<Rightarrow> ptr list option" where
  "vqueue_ub_destroy m = ub_retire_walk m (vatomic_read (ub_head m))"

section \<open>Threads\<close>

text \<open>\<open>UbLen k\<close> has the number \<open>k\<close> of values that were dequeued when the thread read the head, as an auxiliary argument.\<close>

datatype ub_pc = UbIdle | UbEnq ptr ptr ubenq_pc | UbDeq ubdeq_pc | UbLen nat ublen_pc | UbEmpty ubempty_pc | UbFault fault

record ub_sys =
  ub_mem :: vqueue_ub_mem
  ub_pcs :: "tid \<Rightarrow> ub_pc"
  ub_own :: "tid \<Rightarrow> ptr set"
  ub_grace :: grace
  ub_nodes :: "ptr list"
  ub_pos :: "ptr \<Rightarrow> nat"
  ub_ins :: "ptr list"
  ub_outs :: "ptr list"
  ub_seen :: "tid \<Rightarrow> bool"
  ub_retired :: "ptr set"

definition ub_critical :: "ub_pc \<Rightarrow> bool" where
  "ub_critical p \<longleftrightarrow> (case p of UbEnq _ _ _ \<Rightarrow> True | UbDeq _ \<Rightarrow> True | UbLen _ _ \<Rightarrow> True | _ \<Rightarrow> False)"

definition vqueue_ub_start :: "ub_sys \<Rightarrow> bool" where
  "vqueue_ub_start s \<longleftrightarrow> (\<exists>m. ub_mem s = vqueue_ub_init m) \<and> (\<forall>i. ub_pcs s i = UbIdle) \<and> ub_sentinel (ub_mem s) \<noteq> NULL \<and>
     owned_ok (ub_own s) {ub_sentinel (ub_mem s)} \<and> ub_grace s = (\<lambda>_. None) \<and> ub_nodes s = [ub_sentinel (ub_mem s)] \<and>
     ub_pos s (ub_sentinel (ub_mem s)) = 0 \<and> ub_ins s = [] \<and> ub_outs s = [] \<and> ub_retired s = {}"

text \<open>A state is recorded as empty for every thread that is in an operation.\<close>

definition ub_observe :: "ub_sys \<Rightarrow> ub_sys" where
  "ub_observe s = s\<lparr>ub_seen := (\<lambda>j. ub_seen s j \<or> length (ub_nodes s) = 1)\<rparr>"

definition ub_moves :: "tid \<Rightarrow> vqueue_ub_mem \<Rightarrow> ub_pc \<Rightarrow> ub_sys \<Rightarrow> ub_sys" where
  "ub_moves i m p s = s\<lparr>ub_mem := m, ub_pcs := (ub_pcs s)(i := p), ub_grace := (if ub_critical p then ub_grace s else grace_leave i (ub_grace s))\<rparr>"

definition ub_linked :: "tid \<Rightarrow> ptr \<Rightarrow> ptr \<Rightarrow> ub_sys \<Rightarrow> ub_sys" where
  "ub_linked i n d s = s\<lparr>ub_nodes := ub_nodes s @ [n], ub_own := (ub_own s)(i := ub_own s i - {n}), ub_pos := (ub_pos s)(n := length (ub_ins s) + 1),
     ub_ins := ub_ins s @ [d]\<rparr>"

text \<open>The dequeue returns the value \<open>d\<close> and passes the node \<open>x\<close> to \<^verbatim>\<open>retire\<close>. The sentinel is not passed to
  \<^verbatim>\<open>retire\<close> (then \<open>x\<close> is \<^verbatim>\<open>NULL\<close>); the threads that may still use it are recorded all the same. \<open>ub_retired\<close> are
  the nodes that were passed to \<^verbatim>\<open>retire\<close>; only these can be reused.\<close>

definition ub_unlinked :: "ptr \<Rightarrow> ptr \<Rightarrow> ub_sys \<Rightarrow> ub_sys" where
  "ub_unlinked d x s = s\<lparr>ub_nodes := tl (ub_nodes s), ub_outs := ub_outs s @ [d],
     ub_grace := grace_retire (if x = NULL then ub_sentinel (ub_mem s) else x) {j. ub_critical (ub_pcs s j)} (ub_grace s),
     ub_retired := ub_retired s \<union> ({x} - {NULL})\<rparr>"

inductive ub_step :: "tid \<Rightarrow> ub_sys \<Rightarrow> ub_sys \<Rightarrow> bool" where
  ub_call: "ub_pcs s i = UbIdle \<Longrightarrow> p \<in> {UbDeq DQ_head, UbLen 0 LN_head, UbEmpty EM_head} \<union> (\<lambda>(n, d). UbEnq n d EN_data) ` (ub_own s i \<times> (- {NULL})) \<Longrightarrow>
     ub_step i s (s\<lparr>ub_pcs := (ub_pcs s)(i := p), ub_seen := (ub_seen s)(i := length (ub_nodes s) = 1)\<rparr>)"
| ub_enq: "ub_pcs s i = UbEnq n d p \<Longrightarrow> vqueue_ub_enq n d p (ub_mem s) = (r, m) \<Longrightarrow>
     ub_step i s (ub_observe (ub_moves i m (case r of Goto p' \<Rightarrow> UbEnq n d p' | Ret (Inr _) \<Rightarrow> UbIdle | Ret (Inl e) \<Rightarrow> UbFault e)
       (if \<exists>lst. r = Goto (EN_swing lst) then ub_linked i n d s else s)))"
| ub_deq: "ub_pcs s i = UbDeq p \<Longrightarrow> vqueue_ub_deq p (ub_mem s) = (Goto p', m) \<Longrightarrow>
     ub_step i s (ub_observe (ub_moves i m (UbDeq p') s))"
| ub_deq_fault: "ub_pcs s i = UbDeq p \<Longrightarrow> vqueue_ub_deq p (ub_mem s) = (Ret (Inl e), m) \<Longrightarrow>
     ub_step i s (ub_observe (ub_moves i m (UbFault e) s))"
| ub_deq_ret: "ub_pcs s i = UbDeq p \<Longrightarrow> vqueue_ub_deq p (ub_mem s) = (Ret (Inr (v, x)), m) \<Longrightarrow>
     ub_step i s (ub_observe (ub_moves i m UbIdle (if v = NULL then s else ub_unlinked v x s)))"
| ub_len: "ub_pcs s i = UbLen k p \<Longrightarrow> vqueue_ub_get_length p (ub_mem s) = (r, m) \<Longrightarrow>
     ub_step i s (ub_observe (ub_moves i m (case r of Goto p' \<Rightarrow> UbLen (if p = LN_head then length (ub_outs s) else k) p'
       | Ret (Inr _) \<Rightarrow> UbIdle | Ret (Inl e) \<Rightarrow> UbFault e) s))"
| ub_empty: "ub_pcs s i = UbEmpty p \<Longrightarrow> vqueue_ub_empty p (ub_mem s) = (r, m) \<Longrightarrow>
     ub_step i s (ub_observe (ub_moves i m (case r of Goto p' \<Rightarrow> UbEmpty p' | Ret _ \<Rightarrow> UbIdle) s))"
| ub_reuse: "x \<in> ub_retired s \<Longrightarrow> ub_grace s x = Some {} \<Longrightarrow>
     ub_step i s (s\<lparr>ub_grace := grace_reuse x (ub_grace s), ub_own := (ub_own s)(i := insert x (ub_own s i))\<rparr>)"

section \<open>Invariant\<close>

text \<open>The nodes thread \<open>i\<close> may follow: those in the queue and the retired ones that its operation keeps.\<close>

definition ub_ref :: "ub_sys \<Rightarrow> tid \<Rightarrow> ptr \<Rightarrow> bool" where
  "ub_ref s i x \<longleftrightarrow> x \<in> set (ub_nodes s) \<or> guarded_by (ub_grace s) i x"

definition ub_was :: "ub_sys \<Rightarrow> tid \<Rightarrow> ptr \<Rightarrow> bool" where
  "ub_was s i x \<longleftrightarrow> x = ub_head (ub_mem s) \<or> guarded_by (ub_grace s) i x"

definition ub_tailing :: "ub_sys \<Rightarrow> ptr \<Rightarrow> bool" where
  "ub_tailing s x \<longleftrightarrow> (x = ub_head (ub_mem s) \<longrightarrow> ub_tail (ub_mem s) \<in> set (tl (ub_nodes s)))"

definition ub_linked_to :: "ub_sys \<Rightarrow> tid \<Rightarrow> ptr \<Rightarrow> ptr \<Rightarrow> bool" where
  "ub_linked_to s i x y \<longleftrightarrow> ub_ref s i x \<and> ub_next (ub_mem s) x = y \<and> y \<noteq> NULL"

fun ub_pc_ok :: "ub_sys \<Rightarrow> tid \<Rightarrow> ub_pc \<Rightarrow> bool" where
  "ub_pc_ok s i (UbEnq n d EN_data) \<longleftrightarrow> n \<in> ub_own s i \<and> d \<noteq> NULL"
| "ub_pc_ok s i (UbEnq n d EN_next) \<longleftrightarrow> n \<in> ub_own s i \<and> d \<noteq> NULL \<and> ub_data (ub_mem s) n = d"
| "ub_pc_ok s i (UbEnq n d (EN_swing lst)) \<longleftrightarrow> ub_linked_to s i lst n"
| "ub_pc_ok s i (UbEnq n d p) \<longleftrightarrow> n \<in> ub_own s i \<and> d \<noteq> NULL \<and> ub_data (ub_mem s) n = d \<and> ub_next (ub_mem s) n = NULL \<and>
     (case p of EN_lnext lst \<Rightarrow> ub_ref s i lst | EN_check lst nxt \<Rightarrow> ub_ref s i lst \<and> (nxt \<noteq> NULL \<longrightarrow> ub_linked_to s i lst nxt)
      | EN_link lst \<Rightarrow> ub_ref s i lst | EN_help lst nxt \<Rightarrow> ub_linked_to s i lst nxt | _ \<Rightarrow> True)"
| "ub_pc_ok s i (UbDeq p) \<longleftrightarrow> (case p of DQ_head \<Rightarrow> True | DQ_tail f \<Rightarrow> ub_was s i f
      | DQ_next f l \<Rightarrow> ub_was s i f \<and> (l \<noteq> f \<longrightarrow> ub_tailing s f)
      | DQ_check f l nxt \<Rightarrow> ub_was s i f \<and> (l \<noteq> f \<longrightarrow> ub_tailing s f) \<and> (if nxt = NULL then ub_seen s i \<and> l = f else ub_linked_to s i f nxt)
      | DQ_help f nxt \<Rightarrow> ub_linked_to s i f nxt
      | DQ_data f nxt \<Rightarrow> ub_was s i f \<and> ub_tailing s f \<and> ub_linked_to s i f nxt
      | DQ_take f nxt v \<Rightarrow> ub_was s i f \<and> ub_tailing s f \<and> ub_linked_to s i f nxt \<and> ub_ref s i nxt \<and> ub_data (ub_mem s) nxt = v)"
| "ub_pc_ok s i (UbLen k p) \<longleftrightarrow> (case p of LN_head \<Rightarrow> True | LN_tail h \<Rightarrow> ub_was s i h \<and> ub_ref s i h \<and> ub_pos s h = k
      | LN_loop cur l c b \<Rightarrow> ub_ref s i cur \<and> ub_ref s i l \<and> k \<le> ub_pos s cur \<and> ub_pos s cur < ub_pos s l \<and>
          c = of_nat (ub_pos s cur - k) \<and> (b \<longleftrightarrow> k < ub_pos s cur))"
| "ub_pc_ok s i (UbFault e) \<longleftrightarrow> False"
| "ub_pc_ok s i _ \<longleftrightarrow> True"

definition ub_succ :: "ub_sys \<Rightarrow> ptr \<Rightarrow> tid set \<Rightarrow> bool" where
  "ub_succ s x P \<longleftrightarrow> (let y = ub_next (ub_mem s) x in y \<noteq> NULL \<and> ub_pos s y = Suc (ub_pos s x) \<and>
     (y \<in> set (ub_nodes s) \<or> (\<exists>Q. ub_grace s y = Some Q \<and> P \<subseteq> Q)))"

definition ub_retired_ok :: "ub_sys \<Rightarrow> bool" where
  "ub_retired_ok s \<longleftrightarrow> (\<forall>x P. ub_grace s x = Some P \<longrightarrow> x \<noteq> NULL \<and> x \<notin> set (ub_nodes s) \<and> ub_pos s x < length (ub_outs s) \<and>
     P \<subseteq> {j. ub_critical (ub_pcs s j)} \<and> (P \<noteq> {} \<longrightarrow> ub_succ s x P))"

definition ub_list_ok :: "ub_sys \<Rightarrow> bool" where
  "ub_list_ok s \<longleftrightarrow> chain (ub_next (ub_mem s)) (ub_head (ub_mem s)) (ub_nodes s) \<and> distinct (ub_nodes s) \<and>
     ub_tail (ub_mem s) \<in> set (ub_nodes s) \<and> (\<forall>k<length (ub_nodes s). ub_pos s (ub_nodes s ! k) = length (ub_outs s) + k) \<and>
     ub_outs s @ map (ub_data (ub_mem s)) (tl (ub_nodes s)) = ub_ins s \<and> NULL \<notin> set (ub_ins s)"

definition ub_known :: "ub_sys \<Rightarrow> ptr set" where
  "ub_known s = set (ub_nodes s) \<union> dom (ub_grace s)"

definition ub_heap :: "ub_sys \<Rightarrow> bool" where
  "ub_heap s \<longleftrightarrow> ub_list_ok s \<and> ub_retired_ok s \<and> owned_ok (ub_own s) (ub_known s) \<and> inj_on (ub_pos s) (ub_known s) \<and>
     ub_sentinel (ub_mem s) \<in> ub_known s \<and> ub_pos s (ub_sentinel (ub_mem s)) = 0 \<and> ub_sentinel (ub_mem s) \<notin> ub_retired s"

definition ub_inv :: "ub_sys \<Rightarrow> bool" where
  "ub_inv s \<longleftrightarrow> ub_heap s \<and> (\<forall>i. ub_pc_ok s i (ub_pcs s i))"

lemma ub_heapD:
  assumes "ub_heap s"
  shows "ub_list_ok s" "ub_retired_ok s" "owned_ok (ub_own s) (ub_known s)" "inj_on (ub_pos s) (ub_known s)"
    "ub_sentinel (ub_mem s) \<in> ub_known s" "ub_pos s (ub_sentinel (ub_mem s)) = 0" "ub_sentinel (ub_mem s) \<notin> ub_retired s"
  using assms by (simp_all add: ub_heap_def)

lemma ub_list_okD:
  assumes "ub_list_ok s"
  shows "chain (ub_next (ub_mem s)) (ub_head (ub_mem s)) (ub_nodes s)" "distinct (ub_nodes s)"
    "ub_tail (ub_mem s) \<in> set (ub_nodes s)" "k < length (ub_nodes s) \<Longrightarrow> ub_pos s (ub_nodes s ! k) = length (ub_outs s) + k"
    "ub_outs s @ map (ub_data (ub_mem s)) (tl (ub_nodes s)) = ub_ins s" "NULL \<notin> set (ub_ins s)" "ub_nodes s \<noteq> []"
    "hd (ub_nodes s) = ub_head (ub_mem s)" "ub_head (ub_mem s) \<in> set (ub_nodes s)" "NULL \<notin> set (ub_nodes s)"
proof -
  from assms show c: "chain (ub_next (ub_mem s)) (ub_head (ub_mem s)) (ub_nodes s)" and t: "ub_tail (ub_mem s) \<in> set (ub_nodes s)"
    and "distinct (ub_nodes s)" "ub_outs s @ map (ub_data (ub_mem s)) (tl (ub_nodes s)) = ub_ins s" "NULL \<notin> set (ub_ins s)"
    and "k < length (ub_nodes s) \<Longrightarrow> ub_pos s (ub_nodes s ! k) = length (ub_outs s) + k"
    unfolding ub_list_ok_def by blast+
  from t show "ub_nodes s \<noteq> []" by auto
  with c show "hd (ub_nodes s) = ub_head (ub_mem s)" "ub_head (ub_mem s) \<in> set (ub_nodes s)" by (cases "ub_nodes s"; auto)+
  from c show "NULL \<notin> set (ub_nodes s)" by (rule chain_not_NULL)
qed

lemma ub_retiredD:
  assumes "ub_retired_ok s" and "ub_grace s x = Some P"
  shows "x \<noteq> NULL" "x \<notin> set (ub_nodes s)" "ub_pos s x < length (ub_outs s)" "P \<subseteq> {j. ub_critical (ub_pcs s j)}"
    "P \<noteq> {} \<Longrightarrow> ub_succ s x P"
  using assms unfolding ub_retired_ok_def by blast+

text \<open>What the steps of the other threads keep for thread \<open>j\<close>.\<close>

definition ub_keeps :: "tid \<Rightarrow> ub_sys \<Rightarrow> ub_sys \<Rightarrow> bool" where
  "ub_keeps j s t \<longleftrightarrow>
     (\<forall>x\<in>ub_own s j. x \<in> ub_own t j \<and> ub_next (ub_mem t) x = ub_next (ub_mem s) x \<and> ub_data (ub_mem t) x = ub_data (ub_mem s) x) \<and>
     (\<forall>x. ub_ref s j x \<longrightarrow> ub_ref t j x \<and> ub_data (ub_mem t) x = ub_data (ub_mem s) x \<and> ub_pos t x = ub_pos s x) \<and>
     (\<forall>x. ub_ref s j x \<longrightarrow> ub_next (ub_mem s) x \<noteq> NULL \<longrightarrow> ub_next (ub_mem t) x = ub_next (ub_mem s) x) \<and>
     (\<forall>x. ub_was s j x \<longrightarrow> ub_was t j x \<and> (x = ub_head (ub_mem t) \<longrightarrow> x = ub_head (ub_mem s))) \<and>
     (ub_head (ub_mem t) = ub_head (ub_mem s) \<longrightarrow> ub_tail (ub_mem s) \<in> set (tl (ub_nodes s)) \<longrightarrow> ub_tail (ub_mem t) \<in> set (tl (ub_nodes t))) \<and>
     (ub_seen s j \<longrightarrow> ub_seen t j)"

lemma ub_keepsD:
  assumes "ub_keeps j s t"
  shows "x \<in> ub_own s j \<Longrightarrow> x \<in> ub_own t j \<and> ub_next (ub_mem t) x = ub_next (ub_mem s) x \<and> ub_data (ub_mem t) x = ub_data (ub_mem s) x"
    and "ub_ref s j x \<Longrightarrow> ub_ref t j x" and "ub_ref s j x \<Longrightarrow> ub_data (ub_mem t) x = ub_data (ub_mem s) x"
    and "ub_ref s j x \<Longrightarrow> ub_pos t x = ub_pos s x" and "ub_was s j x \<Longrightarrow> ub_was t j x"
    and "ub_was s j x \<Longrightarrow> ub_tailing s x \<Longrightarrow> ub_tailing t x" and "ub_linked_to s j x y \<Longrightarrow> ub_linked_to t j x y" and "ub_seen s j \<Longrightarrow> ub_seen t j"
  using assms unfolding ub_keeps_def ub_linked_to_def ub_tailing_def by metis+

lemma ub_pc_ok_keeps:
  assumes "ub_pc_ok s j p" and k: "ub_keeps j s t"
  shows "ub_pc_ok t j p"
proof (cases p)
  case (UbEnq n d e)
  then show ?thesis using assms(1) ub_keepsD [OF k] by (cases e) auto
next
  case (UbDeq e)
  then show ?thesis using assms(1) ub_keepsD [OF k] by (cases e) (auto simp: ub_linked_to_def split: if_splits)
next
  case (UbLen m e)
  then show ?thesis using assms(1) ub_keepsD [OF k] by (cases e) auto
qed (use assms(1) in auto)

lemma ub_ref_known: "ub_ref s i x \<Longrightarrow> x \<in> ub_known s"
  by (auto simp: ub_ref_def ub_known_def dest: guarded_by_dom)

lemma ub_ref_next:
  assumes h: "ub_heap s" and r: "ub_ref s i x" and n: "ub_next (ub_mem s) x \<noteq> NULL"
  shows "ub_ref s i (ub_next (ub_mem s) x)" "ub_pos s (ub_next (ub_mem s) x) = Suc (ub_pos s x)"
proof -
  note l = ub_list_okD [OF ub_heapD(1) [OF h]]
  show "ub_ref s i (ub_next (ub_mem s) x)" "ub_pos s (ub_next (ub_mem s) x) = Suc (ub_pos s x)"
  proof (atomize (full), cases "x \<in> set (ub_nodes s)")
    case True
    then have y: "ub_next (ub_mem s) x \<in> set (tl (ub_nodes s))" using chain_next [OF l(1)] n by blast
    obtain k where k: "k < length (ub_nodes s)" "x = ub_nodes s ! k" using True by (auto simp: in_set_conv_nth)
    have "Suc k < length (ub_nodes s)"
    proof (rule ccontr)
      assume "\<not> Suc k < length (ub_nodes s)"
      then have "x = last (ub_nodes s)" using k l(7) by (simp add: last_conv_nth not_less_eq less_Suc_eq)
      then have "ub_next (ub_mem s) x = NULL" using chain_last [OF l(1) l(7)] by simp
      then show False using n by simp
    qed
    then show "ub_ref s i (ub_next (ub_mem s) x) \<and> ub_pos s (ub_next (ub_mem s) x) = Suc (ub_pos s x)"
      using chain_next_nth [OF l(1)] k l(4) [of k] l(4) [of "Suc k"] by (auto simp: ub_ref_def)
  next
    case False
    then obtain P where P: "ub_grace s x = Some P" "i \<in> P" using r by (auto simp: ub_ref_def guarded_by_def)
    have "ub_succ s x P" using ub_retiredD(5) [OF ub_heapD(2) [OF h] P(1)] P(2) by auto
    then show "ub_ref s i (ub_next (ub_mem s) x) \<and> ub_pos s (ub_next (ub_mem s) x) = Suc (ub_pos s x)"
      using P(2) unfolding ub_succ_def Let_def ub_ref_def guarded_by_def by blast
  qed
qed

subsection \<open>Moving between control points\<close>

lemma ub_moves_sel [simp]:
  "ub_mem (ub_observe (ub_moves i m p s)) = m" "ub_pcs (ub_observe (ub_moves i m p s)) = (ub_pcs s)(i := p)"
  "ub_own (ub_observe (ub_moves i m p s)) = ub_own s" "ub_nodes (ub_observe (ub_moves i m p s)) = ub_nodes s"
  "ub_pos (ub_observe (ub_moves i m p s)) = ub_pos s" "ub_ins (ub_observe (ub_moves i m p s)) = ub_ins s"
  "ub_outs (ub_observe (ub_moves i m p s)) = ub_outs s"
  "ub_grace (ub_observe (ub_moves i m p s)) = (if ub_critical p then ub_grace s else grace_leave i (ub_grace s))"
  "ub_retired (ub_observe (ub_moves i m p s)) = ub_retired s"
  "ub_seen (ub_observe (ub_moves i m p s)) = (\<lambda>j. ub_seen s j \<or> length (ub_nodes s) = 1)"
  by (simp_all add: ub_moves_def ub_observe_def)

lemma ub_moves_mem [simp]: "ub_moves i m p (s\<lparr>ub_mem := m'\<rparr>) = ub_moves i m p s"
  by (cases "ub_critical p") (simp_all add: ub_moves_def)

lemma ub_moves_ref [simp]:
  "ub_ref (ub_observe (ub_moves i (ub_mem s) p s)) j x \<longleftrightarrow>
     x \<in> set (ub_nodes s) \<or> guarded_by (ub_grace s) j x \<and> (ub_critical p \<or> j \<noteq> i)"
  "ub_was (ub_observe (ub_moves i (ub_mem s) p s)) j x \<longleftrightarrow>
     x = ub_head (ub_mem s) \<or> guarded_by (ub_grace s) j x \<and> (ub_critical p \<or> j \<noteq> i)"
  by (auto simp: ub_ref_def ub_was_def)

lemma ub_keeps_moves: "ub_critical p \<or> j \<noteq> i \<Longrightarrow> ub_keeps j s (ub_observe (ub_moves i (ub_mem s) p s))"
  unfolding ub_keeps_def by (auto simp: ub_ref_def ub_was_def)

lemma ub_retired_moves:
  assumes r: "ub_retired_ok s"
  shows "ub_retired_ok (ub_observe (ub_moves i (ub_mem s) p s))"
  unfolding ub_retired_ok_def
proof (intro allI impI)
  let ?t = "ub_observe (ub_moves i (ub_mem s) p s)"
  fix x P' assume g: "ub_grace ?t x = Some P'"
  then obtain P where P: "ub_grace s x = Some P" "P' = (if ub_critical p then P else P - {i})"
    by (auto simp: grace_leave_def split: if_splits)
  note q = ub_retiredD [OF r P(1)]
  have "ub_succ ?t x P'" if "P' \<noteq> {}"
  proof -
    have "ub_succ s x P" using q(5) P(2) that by (auto split: if_splits)
    then show ?thesis using P(2) by (auto simp: ub_succ_def Let_def grace_leave_def)
  qed
  moreover have "P' \<subseteq> {j. ub_critical (ub_pcs ?t j)}" using q(4) P(2) by (auto split: if_splits)
  ultimately show "x \<noteq> NULL \<and> x \<notin> set (ub_nodes ?t) \<and> ub_pos ?t x < length (ub_outs ?t) \<and>
      P' \<subseteq> {j. ub_critical (ub_pcs ?t j)} \<and> (P' \<noteq> {} \<longrightarrow> ub_succ ?t x P')"
    using q(1,2,3) by (simp del: ub_moves_sel(2))
qed

lemma ub_heap_moves:
  assumes "ub_heap s"
  shows "ub_heap (ub_observe (ub_moves i (ub_mem s) p s))"
proof -
  have "ub_list_ok (ub_observe (ub_moves i (ub_mem s) p s)) = ub_list_ok s" "ub_known (ub_observe (ub_moves i (ub_mem s) p s)) = ub_known s"
    by (simp_all only: ub_list_ok_def ub_known_def ub_moves_sel) (simp split: if_splits)
  then show ?thesis using assms ub_retired_moves [of s i p] by (simp add: ub_heap_def)
qed

text \<open>The state after a change of the memory and the auxiliary variables, and then of the control point of thread \<open>i\<close>.\<close>

lemma ub_pc_ok_outside: "\<not> ub_critical p \<Longrightarrow> ub_pc_ok s j p \<Longrightarrow> ub_pc_ok t j p"
  by (cases p) (auto simp: ub_critical_def)

lemma ub_inv_moves:
  assumes inv: "ub_inv s" and h: "ub_heap t" and k: "\<And>j. j \<noteq> i \<Longrightarrow> ub_critical (ub_pcs s j) \<Longrightarrow> ub_keeps j s t" and pcs: "ub_pcs t = ub_pcs s"
    and ok: "ub_pc_ok (ub_observe (ub_moves i (ub_mem t) p t)) i p"
  shows "ub_inv (ub_observe (ub_moves i (ub_mem t) p t))"
proof -
  have "ub_pc_ok (ub_observe (ub_moves i (ub_mem t) p t)) j (ub_pcs s j)" if "j \<noteq> i" for j
    using inv that k [OF that] ub_pc_ok_keeps [OF ub_pc_ok_keeps ub_keeps_moves] ub_pc_ok_outside unfolding ub_inv_def by metis
  then show ?thesis using ub_heap_moves [OF h, of i p] ok pcs by (simp add: ub_inv_def)
qed

text \<open>A step that changes no memory.\<close>

lemma ub_inv_quiet:
  assumes inv: "ub_inv s" and ok: "ub_pc_ok (ub_observe (ub_moves i (ub_mem s) p s)) i p"
  shows "ub_inv (ub_observe (ub_moves i (ub_mem s) p s))"
proof -
  have "ub_keeps j s s" for j by (simp add: ub_keeps_def)
  then show ?thesis using ub_inv_moves [OF inv _ _ refl ok] inv by (simp add: ub_inv_def)
qed

subsection \<open>The memory changes\<close>

lemma ub_heap_mem:
  assumes h: "ub_heap s" and hd: "ub_head m = ub_head (ub_mem s)" "ub_sentinel m = ub_sentinel (ub_mem s)"
    and tl: "ub_tail m \<in> set (ub_nodes s)"
    and eq: "\<And>x. x \<in> ub_known s \<Longrightarrow> ub_next m x = ub_next (ub_mem s) x \<and> ub_data m x = ub_data (ub_mem s) x"
  shows "ub_heap (s\<lparr>ub_mem := m\<rparr>)"
proof -
  note l = ub_list_okD [OF ub_heapD(1) [OF h]]
  have n: "ub_next m x = ub_next (ub_mem s) x" "ub_data m x = ub_data (ub_mem s) x" if "x \<in> set (ub_nodes s)" for x
    using that eq by (auto simp: ub_known_def)
  have e: "map (ub_data m) (tl (ub_nodes s)) = map (ub_data (ub_mem s)) (tl (ub_nodes s))" using n(2) list.set_sel(2) [OF l(7)] by simp
  have "ub_outs s @ map (ub_data m) (tl (ub_nodes s)) = ub_ins s" unfolding e by (rule l(5))
  moreover have "chain (ub_next m) (ub_head (ub_mem s)) (ub_nodes s)" using l(1) chain_cong [of "ub_nodes s" "ub_next m" "ub_next (ub_mem s)"] n(1) by blast
  ultimately have "ub_list_ok (s\<lparr>ub_mem := m\<rparr>)" using ub_heapD(1) [OF h] hd tl unfolding ub_list_ok_def by simp
  moreover have "ub_retired_ok (s\<lparr>ub_mem := m\<rparr>)"
  proof -
    have "ub_next m x = ub_next (ub_mem s) x" if "ub_grace s x = Some P" for x P using that eq by (auto simp: ub_known_def)
    then show ?thesis using ub_heapD(2) [OF h] by (simp add: ub_retired_ok_def ub_succ_def)
  qed
  ultimately show ?thesis using ub_heapD(3-7) [OF h] hd by (simp add: ub_heap_def ub_known_def)
qed

lemma ub_keeps_mem:
  assumes hd: "ub_head m = ub_head (ub_mem s)"
    and tl: "ub_tail (ub_mem s) \<in> set (tl (ub_nodes s)) \<Longrightarrow> ub_tail m \<in> set (tl (ub_nodes s))"
    and eq: "\<And>x. x \<in> ub_known s \<or> x \<in> ub_own s j \<Longrightarrow> ub_next m x = ub_next (ub_mem s) x \<and> ub_data m x = ub_data (ub_mem s) x"
  shows "ub_keeps j s (s\<lparr>ub_mem := m\<rparr>)"
proof -
  have "ub_ref (s\<lparr>ub_mem := m\<rparr>) j = ub_ref s j" "ub_was (s\<lparr>ub_mem := m\<rparr>) j = ub_was s j" by (auto simp: ub_ref_def ub_was_def hd fun_eq_iff)
  then show ?thesis unfolding ub_keeps_def using hd tl eq ub_ref_known [of s j] by simp
qed

text \<open>A thread writes a node of its own.\<close>

lemma ub_inv_own:
  assumes inv: "ub_inv s" and n: "n \<in> ub_own s i" and hd: "ub_head m = ub_head (ub_mem s)" "ub_tail m = ub_tail (ub_mem s)"
    "ub_sentinel m = ub_sentinel (ub_mem s)"
    and eq: "\<And>x. x \<noteq> n \<Longrightarrow> ub_next m x = ub_next (ub_mem s) x \<and> ub_data m x = ub_data (ub_mem s) x"
    and ok: "ub_pc_ok (ub_observe (ub_moves i m p s)) i p"
  shows "ub_inv (ub_observe (ub_moves i m p s))"
proof -
  have h: "ub_heap s" using inv by (simp add: ub_inv_def)
  note own = owned_okD [OF ub_heapD(3) [OF h] n]
  have eq': "ub_next m x = ub_next (ub_mem s) x \<and> ub_data m x = ub_data (ub_mem s) x" if "x \<in> ub_known s \<or> x \<in> ub_own s j" "j \<noteq> i" for x j
    using that own(2) own(3) [of j] eq by metis
  have "ub_heap (s\<lparr>ub_mem := m\<rparr>)"
    using eq' [of _ "Suc i"] hd ub_list_okD(3) [OF ub_heapD(1) [OF h]] by (intro ub_heap_mem [OF h]) simp_all
  moreover have "ub_keeps j s (s\<lparr>ub_mem := m\<rparr>)" if "j \<noteq> i" for j using eq' [of _ j] that hd by (intro ub_keeps_mem) simp_all
  ultimately show ?thesis using ub_inv_moves [OF inv, of "s\<lparr>ub_mem := m\<rparr>" i p] ok by simp
qed

text \<open>The tail moves on to the next node, if it is still at \<open>x\<close>.\<close>

lemma cas_tail_sel [simp]:
  "ub_next (snd (cas_tail e v m)) = ub_next m" "ub_data (snd (cas_tail e v m)) = ub_data m" "ub_head (snd (cas_tail e v m)) = ub_head m"
  "ub_sentinel (snd (cas_tail e v m)) = ub_sentinel m" "ub_tail (snd (cas_tail e v m)) = (if ub_tail m = e then v else ub_tail m)"
  by (auto simp: cas_tail_def vsync_simps Let_def)

lemma ub_inv_tail:
  assumes inv: "ub_inv s" and x: "ub_linked_to s i x y"
    and ok: "ub_pc_ok (ub_observe (ub_moves i (snd (cas_tail x y (ub_mem s))) p s)) i p"
  shows "ub_inv (ub_observe (ub_moves i (snd (cas_tail x y (ub_mem s))) p s))"
proof -
  let ?m = "snd (cas_tail x y (ub_mem s))"
  have h: "ub_heap s" using inv by (simp add: ub_inv_def)
  note l = ub_list_okD [OF ub_heapD(1) [OF h]]
  have y: "y \<in> set (tl (ub_nodes s))" if "ub_tail (ub_mem s) = x"
    using chain_next [OF l(1) l(3)] that x by (auto simp: ub_linked_to_def)
  then have "ub_tail ?m \<in> set (ub_nodes s)" using l(3) list.set_sel(2) [OF l(7)] by auto
  then have "ub_heap (s\<lparr>ub_mem := ?m\<rparr>)" by (intro ub_heap_mem [OF h]) simp_all
  moreover have "ub_keeps j s (s\<lparr>ub_mem := ?m\<rparr>)" for j using y by (intro ub_keeps_mem) auto
  ultimately show ?thesis using ub_inv_moves [OF inv, of "s\<lparr>ub_mem := ?m\<rparr>" i p] ok by simp
qed

subsection \<open>A node is linked\<close>

lemma ub_last:
  assumes h: "ub_heap s" and r: "ub_ref s i x" and n: "ub_next (ub_mem s) x = NULL"
  shows "x = last (ub_nodes s)"
proof -
  note l = ub_list_okD [OF ub_heapD(1) [OF h]]
  have "x \<in> set (ub_nodes s)"
  proof (rule ccontr)
    assume "x \<notin> set (ub_nodes s)"
    then obtain P where P: "ub_grace s x = Some P" "i \<in> P" using r by (auto simp: ub_ref_def guarded_by_def)
    then have "ub_succ s x P" using ub_retiredD(5) [OF ub_heapD(2) [OF h] P(1)] by auto
    then show False using n by (simp add: ub_succ_def Let_def)
  qed
  then show ?thesis using chain_next [OF l(1)] n l(10) list.set_sel(2) [OF l(7)] by metis
qed

definition ub_link :: "tid \<Rightarrow> ptr \<Rightarrow> ptr \<Rightarrow> ub_sys \<Rightarrow> ub_sys" where
  "ub_link i n d s = (ub_linked i n d s)\<lparr>ub_mem := (ub_mem s)\<lparr>ub_next := (ub_next (ub_mem s))(last (ub_nodes s) := n)\<rparr>\<rparr>"

lemma ub_link_sel [simp]:
  "ub_mem (ub_link i n d s) = (ub_mem s)\<lparr>ub_next := (ub_next (ub_mem s))(last (ub_nodes s) := n)\<rparr>" "ub_pcs (ub_link i n d s) = ub_pcs s"
  "ub_own (ub_link i n d s) = (ub_own s)(i := ub_own s i - {n})" "ub_nodes (ub_link i n d s) = ub_nodes s @ [n]"
  "ub_pos (ub_link i n d s) = (ub_pos s)(n := length (ub_ins s) + 1)" "ub_ins (ub_link i n d s) = ub_ins s @ [d]"
  "ub_outs (ub_link i n d s) = ub_outs s" "ub_grace (ub_link i n d s) = ub_grace s" "ub_seen (ub_link i n d s) = ub_seen s"
  "ub_retired (ub_link i n d s) = ub_retired s"
  by (simp_all add: ub_link_def ub_linked_def)

lemma ub_known_link: "ub_known (ub_link i n d s) = insert n (ub_known s)"
  by (auto simp: ub_known_def)

lemma ub_pos_bound:
  assumes h: "ub_heap s" and x: "x \<in> ub_known s"
  shows "ub_pos s x \<le> length (ub_ins s)"
proof (cases "x \<in> set (ub_nodes s)")
  case True
  then obtain k where "k < length (ub_nodes s)" "x = ub_nodes s ! k" by (auto simp: in_set_conv_nth)
  then show ?thesis using ub_list_okD(4) [OF ub_heapD(1) [OF h], of k] arg_cong [OF ub_list_okD(5) [OF ub_heapD(1) [OF h]], of length] by simp
next
  case False
  then obtain P where "ub_grace s x = Some P" using x by (auto simp: ub_known_def)
  then show ?thesis using ub_retiredD(3) [OF ub_heapD(2) [OF h]] arg_cong [OF ub_list_okD(5) [OF ub_heapD(1) [OF h]], of length] by fastforce
qed

lemma ub_list_link:
  assumes h: "ub_heap s" and n: "n \<in> ub_own s i" "ub_next (ub_mem s) n = NULL" "ub_data (ub_mem s) n = d" "d \<noteq> NULL"
  shows "ub_list_ok (ub_link i n d s)"
proof -
  note l = ub_list_okD [OF ub_heapD(1) [OF h]]
  have new: "n \<notin> set (ub_nodes s)" "n \<noteq> NULL" using owned_okD(1,2) [OF ub_heapD(3) [OF h] n(1)] by (auto simp: ub_known_def)
  have len: "length (ub_ins s) + 1 = length (ub_outs s) + length (ub_nodes s)"
    using arg_cong [OF l(5), of length] l(7) by (cases "ub_nodes s") auto
  have "chain ((ub_next (ub_mem s))(last (ub_nodes s) := n)) (ub_head (ub_mem s)) (ub_nodes s @ [n])"
    using chain_snoc [OF l(1) l(7)] l(2) new n(2) by simp
  moreover have "((ub_pos s)(n := length (ub_ins s) + 1)) ((ub_nodes s @ [n]) ! k) = length (ub_outs s) + k" if "k < length (ub_nodes s @ [n])" for k
    using that len l(4) [of k] new(1) nth_mem [of k "ub_nodes s"] by (cases "k < length (ub_nodes s)") (auto simp: nth_append less_Suc_eq)
  moreover have "ub_outs s @ map (ub_data (ub_mem s)) (tl (ub_nodes s @ [n])) = ub_ins s @ [d]"
    using l(5,7) n(3) by (simp add: tl_append2)
  ultimately show ?thesis using l(2,3,6) new n(4) unfolding ub_list_ok_def by simp
qed

lemma ub_heap_link:
  assumes h: "ub_heap s" and n: "n \<in> ub_own s i" "ub_next (ub_mem s) n = NULL" "ub_data (ub_mem s) n = d" "d \<noteq> NULL"
  shows "ub_heap (ub_link i n d s)"
proof -
  note own = owned_okD [OF ub_heapD(3) [OF h]] and r = ub_retiredD [OF ub_heapD(2) [OF h]]
  have new: "n \<notin> ub_known s" using own(2) [OF n(1)] .
  have "ub_retired_ok (ub_link i n d s)" unfolding ub_retired_ok_def
  proof (intro allI impI)
    fix x P assume "ub_grace (ub_link i n d s) x = Some P"
    then have g: "ub_grace s x = Some P" by simp
    then have x: "x \<noteq> n" "x \<noteq> last (ub_nodes s)" using new r(2) [OF g] last_in_set [OF ub_list_okD(7) [OF ub_heapD(1) [OF h]]] by (auto simp: ub_known_def)
    have "ub_succ (ub_link i n d s) x P" if "P \<noteq> {}"
    proof -
      have sc: "ub_succ s x P" using r(5) [OF g that] .
      then have "ub_next (ub_mem s) x \<in> ub_known s" by (auto simp: ub_succ_def Let_def ub_known_def)
      then have "ub_next (ub_mem s) x \<noteq> n" using new by auto
      then show ?thesis using sc x by (auto simp: ub_succ_def Let_def)
    qed
    then show "x \<noteq> NULL \<and> x \<notin> set (ub_nodes (ub_link i n d s)) \<and> ub_pos (ub_link i n d s) x < length (ub_outs (ub_link i n d s)) \<and>
        P \<subseteq> {j. ub_critical (ub_pcs (ub_link i n d s) j)} \<and> (P \<noteq> {} \<longrightarrow> ub_succ (ub_link i n d s) x P)"
      using r(1-4) [OF g] x by simp
  qed
  moreover have "owned_ok ((ub_own s)(i := ub_own s i - {n})) (insert n (ub_known s))"
    using owned_ok_give [OF ub_heapD(3) [OF h] n(1)] .
  moreover have "inj_on ((ub_pos s)(n := length (ub_ins s) + 1)) (insert n (ub_known s))"
  proof -
    have "length (ub_ins s) + 1 \<notin> ub_pos s ` ub_known s" using ub_pos_bound [OF h] by force
    then show ?thesis using inj_on_fun_updI [OF ub_heapD(4) [OF h]] new by (auto simp: inj_on_insert)
  qed
  ultimately show ?thesis using ub_list_link [OF h n] ub_heapD(5-7) [OF h] new by (auto simp: ub_heap_def ub_known_link)
qed

lemma ub_keeps_link:
  assumes h: "ub_heap s" and n: "n \<in> ub_own s i" and j: "j \<noteq> i"
  shows "ub_keeps j s (ub_link i n d s)"
proof -
  note own = owned_okD [OF ub_heapD(3) [OF h]] and l = ub_list_okD [OF ub_heapD(1) [OF h]]
  have lst: "last (ub_nodes s) \<in> ub_known s" "ub_next (ub_mem s) (last (ub_nodes s)) = NULL"
    using last_in_set [OF l(7)] chain_last [OF l(1,7)] by (auto simp: ub_known_def)
  have "x \<noteq> n \<and> x \<noteq> last (ub_nodes s)" if "x \<in> ub_own s j" for x using own(2) [OF that] own(3) [OF n j [symmetric]] lst(1) that by auto
  moreover have "x \<noteq> n" if "ub_ref s j x" for x using own(2) [OF n] ub_ref_known [OF that] by auto
  moreover have "ub_tail (ub_mem s) \<in> set (tl (ub_nodes s @ [n]))" if "ub_tail (ub_mem s) \<in> set (tl (ub_nodes s))" using that l(7) by (simp add: tl_append2)
  ultimately show ?thesis unfolding ub_keeps_def using lst(2) j by (auto simp: ub_ref_def ub_was_def)
qed

subsection \<open>The dummy node is unlinked\<close>

definition ub_unlink :: "ub_sys \<Rightarrow> ub_sys" where
  "ub_unlink s = s\<lparr>ub_mem := (ub_mem s)\<lparr>ub_head := ub_nodes s ! 1\<rparr>, ub_nodes := tl (ub_nodes s),
     ub_outs := ub_outs s @ [ub_data (ub_mem s) (ub_nodes s ! 1)],
     ub_grace := grace_retire (hd (ub_nodes s)) {j. ub_critical (ub_pcs s j)} (ub_grace s),
     ub_retired := ub_retired s \<union> ({hd (ub_nodes s)} - {ub_sentinel (ub_mem s)})\<rparr>"

lemma ub_unlink_sel [simp]:
  "ub_mem (ub_unlink s) = (ub_mem s)\<lparr>ub_head := ub_nodes s ! 1\<rparr>" "ub_pcs (ub_unlink s) = ub_pcs s" "ub_own (ub_unlink s) = ub_own s"
  "ub_nodes (ub_unlink s) = tl (ub_nodes s)" "ub_pos (ub_unlink s) = ub_pos s" "ub_ins (ub_unlink s) = ub_ins s"
  "ub_outs (ub_unlink s) = ub_outs s @ [ub_data (ub_mem s) (ub_nodes s ! 1)]" "ub_seen (ub_unlink s) = ub_seen s"
  "ub_retired (ub_unlink s) = ub_retired s \<union> ({hd (ub_nodes s)} - {ub_sentinel (ub_mem s)})"
  "ub_grace (ub_unlink s) = grace_retire (hd (ub_nodes s)) {j. ub_critical (ub_pcs s j)} (ub_grace s)"
  by (simp_all add: ub_unlink_def)

lemma ub_unlink_nodes:
  assumes h: "ub_heap s" and t: "ub_tail (ub_mem s) \<in> set (tl (ub_nodes s))"
  obtains f y rest where "ub_nodes s = f # y # rest" "ub_head (ub_mem s) = f" "ub_next (ub_mem s) f = y" "f \<noteq> NULL" "y \<noteq> NULL"
    "f \<noteq> y" "f \<notin> set rest" "y \<notin> set rest" "chain (ub_next (ub_mem s)) y (y # rest)"
proof -
  note l = ub_list_okD [OF ub_heapD(1) [OF h]]
  obtain f y rest where n: "ub_nodes s = f # y # rest" using t by (cases "ub_nodes s"; cases "tl (ub_nodes s)") auto
  then show ?thesis using that [of f y rest] l(1,2) by auto
qed

lemma ub_known_unlink: "ub_nodes s \<noteq> [] \<Longrightarrow> ub_known (ub_unlink s) = ub_known s"
  by (cases "ub_nodes s") (auto simp: ub_known_def)

lemma ub_heap_unlink:
  assumes h: "ub_heap s" and t: "ub_tail (ub_mem s) \<in> set (tl (ub_nodes s))"
  shows "ub_heap (ub_unlink s)"
proof -
  note l = ub_list_okD [OF ub_heapD(1) [OF h]] and r = ub_retiredD [OF ub_heapD(2) [OF h]]
  obtain f y rest where n: "ub_nodes s = f # y # rest" "ub_head (ub_mem s) = f" "ub_next (ub_mem s) f = y" "f \<noteq> NULL" "y \<noteq> NULL"
    "f \<noteq> y" "f \<notin> set rest" "y \<notin> set rest" "chain (ub_next (ub_mem s)) y (y # rest)" using ub_unlink_nodes [OF h t] .
  have pos: "ub_pos s f = length (ub_outs s)" "ub_pos s y = Suc (length (ub_outs s))" using l(4) [of 0] l(4) [of 1] n(1) by auto
  have "ub_pos s ((y # rest) ! k) = Suc (length (ub_outs s) + k)" if "k < length (y # rest)" for k using l(4) [of "Suc k"] n(1) that by simp
  then have "ub_list_ok (ub_unlink s)" using l(2,5,6) t n unfolding ub_list_ok_def by simp
  moreover have "ub_retired_ok (ub_unlink s)" unfolding ub_retired_ok_def
  proof (intro allI impI)
    fix x P assume g: "ub_grace (ub_unlink s) x = Some P"
    show "x \<noteq> NULL \<and> x \<notin> set (ub_nodes (ub_unlink s)) \<and> ub_pos (ub_unlink s) x < length (ub_outs (ub_unlink s)) \<and>
        P \<subseteq> {j. ub_critical (ub_pcs (ub_unlink s) j)} \<and> (P \<noteq> {} \<longrightarrow> ub_succ (ub_unlink s) x P)"
    proof (cases "x = f")
      case True
      then have "P = {j. ub_critical (ub_pcs s j)}" using g n(1) by (simp add: grace_retire_def)
      then show ?thesis using True n pos by (simp add: ub_succ_def Let_def)
    next
      case False
      then have gx: "ub_grace s x = Some P" using g n(1) by (simp add: grace_retire_def)
      have "ub_succ (ub_unlink s) x P" if "P \<noteq> {}"
        using r(5) [OF gx that] r(4) [OF gx] n(1) unfolding ub_succ_def Let_def by (auto simp: grace_retire_def)
      then show ?thesis using r(1-4) [OF gx] n(1) by auto
    qed
  qed
  ultimately show ?thesis using ub_heapD(3-7) [OF h] l(7) by (simp add: ub_heap_def ub_known_unlink)
qed

lemma ub_keeps_unlink:
  assumes h: "ub_heap s" and t: "ub_tail (ub_mem s) \<in> set (tl (ub_nodes s))" and j: "ub_critical (ub_pcs s j)"
  shows "ub_keeps j s (ub_unlink s)"
proof -
  obtain f y rest where n: "ub_nodes s = f # y # rest" "ub_head (ub_mem s) = f" "ub_next (ub_mem s) f = y" "f \<noteq> NULL" "y \<noteq> NULL"
    "f \<noteq> y" "f \<notin> set rest" "y \<notin> set rest" "chain (ub_next (ub_mem s)) y (y # rest)" using ub_unlink_nodes [OF h t] .
  have "\<not> guarded_by (ub_grace s) j y" using ub_retiredD(2) [OF ub_heapD(2) [OF h]] n(1) by (auto simp: guarded_by_def)
  then show ?thesis unfolding ub_keeps_def using n(1,2,6) j by (auto simp: ub_ref_def ub_was_def)
qed

subsection \<open>A retired node is reused\<close>

lemma ub_inv_reuse:
  assumes inv: "ub_inv s" and R: "x \<in> ub_retired s" and g: "ub_grace s x = Some {}"
  shows "ub_inv (s\<lparr>ub_grace := grace_reuse x (ub_grace s), ub_own := (ub_own s)(i := insert x (ub_own s i))\<rparr>)"
proof -
  let ?t = "s\<lparr>ub_grace := grace_reuse x (ub_grace s), ub_own := (ub_own s)(i := insert x (ub_own s i))\<rparr>"
  have h: "ub_heap s" using inv by (simp add: ub_inv_def)
  note r = ub_retiredD [OF ub_heapD(2) [OF h]]
  have S: "x \<noteq> ub_sentinel (ub_mem s)" using ub_heapD(7) [OF h] R by auto
  have x: "x \<in> ub_known s" "x \<noteq> NULL" "x \<notin> set (ub_nodes s)" using g r(1,2) [OF g] by (auto simp: ub_known_def)
  have known: "ub_known ?t = ub_known s - {x}" using x(3) by (auto simp: ub_known_def)
  have "ub_succ ?t y P" if "ub_succ s y P" "P \<noteq> {}" for y P using that g by (auto simp: ub_succ_def Let_def grace_reuse_def)
  then have "ub_retired_ok ?t" using ub_heapD(2) [OF h] unfolding ub_retired_ok_def by (simp add: grace_reuse_def)
  moreover have "ub_list_ok ?t" using ub_heapD(1) [OF h] by (simp add: ub_list_ok_def)
  moreover have "owned_ok (ub_own ?t) (ub_known ?t)" unfolding known using owned_ok_take [OF ub_heapD(3) [OF h] x(1,2)] by simp
  moreover have "inj_on (ub_pos s) (ub_known s - {x})" using ub_heapD(4) [OF h] by (rule inj_on_subset) blast
  ultimately have "ub_heap ?t" using ub_heapD(5-7) [OF h] S known by (simp add: ub_heap_def)
  moreover have "ub_keeps j s ?t" for j unfolding ub_keeps_def by (auto simp: ub_ref_def ub_was_def guarded_by_reuse [where g = "ub_grace s", OF g])
  then have "ub_pc_ok ?t j (ub_pcs s j)" for j using inv ub_pc_ok_keeps unfolding ub_inv_def by blast
  ultimately show ?thesis by (simp add: ub_inv_def)
qed

subsection \<open>Every step keeps the invariant\<close>

lemma ub_invD: "ub_inv s \<Longrightarrow> ub_heap s" "ub_inv s \<Longrightarrow> ub_pcs s i = p \<Longrightarrow> ub_pc_ok s i p"
  unfolding ub_inv_def by blast+

lemma cas_next_eq: "cas_next a e v m = (ub_next m a, if ub_next m a = e then m\<lparr>ub_next := (ub_next m)(a := v)\<rparr> else m)"
  by (simp add: cas_next_def vsync_simps Let_def)

lemma cas_head_eq: "cas_head e v m = (ub_head m, if ub_head m = e then m\<lparr>ub_head := v\<rparr> else m)"
  by (simp add: cas_head_def vsync_simps Let_def)

lemma ub_critical_simps [simp]:
  "ub_critical (UbEnq n d e)" "ub_critical (UbDeq f)" "ub_critical (UbLen k l)"
  "\<not> ub_critical UbIdle" "\<not> ub_critical (UbEmpty g)" "\<not> ub_critical (UbFault h)"
  by (simp_all add: ub_critical_def)

lemma ub_linked_to_moves [simp]:
  "ub_critical p \<Longrightarrow> ub_linked_to (ub_observe (ub_moves i (ub_mem s) p s)) i x y \<longleftrightarrow> ub_linked_to s i x y"
  "ub_tailing (ub_observe (ub_moves i (ub_mem s) p s)) x \<longleftrightarrow> ub_tailing s x"
  by (auto simp: ub_linked_to_def ub_tailing_def ub_ref_def)

lemma ub_inv_enq:
  assumes inv: "ub_inv s" and pc: "ub_pcs s i = UbEnq n d p" and st: "vqueue_ub_enq n d p (ub_mem s) = (r, m)"
  shows "ub_inv (ub_observe (ub_moves i m (case r of Goto p' \<Rightarrow> UbEnq n d p' | Ret (Inr _) \<Rightarrow> UbIdle | Ret (Inl e) \<Rightarrow> UbFault e)
       (if \<exists>lst. r = Goto (EN_swing lst) then ub_linked i n d s else s)))"
proof -
  have h: "ub_heap s" and ok: "ub_pc_ok s i (UbEnq n d p)" using ub_invD [OF inv] pc by blast+
  note l = ub_list_okD [OF ub_heapD(1) [OF h]]
  have nn: "n \<noteq> NULL" if "n \<in> ub_own s i" using owned_okD(1) [OF ub_heapD(3) [OF h] that] .
  show ?thesis
  proof (cases p)
    case EN_data
    then show ?thesis using ok st nn by (auto intro!: ub_inv_own [OF inv, of n])
  next
    case EN_next
    then show ?thesis using ok st by (auto simp: vsync_simps intro!: ub_inv_own [OF inv, of n])
  next
    case EN_tail
    then show ?thesis using ok st l(3) by (auto simp: vsync_simps intro!: ub_inv_quiet [OF inv])
  next
    case (EN_lnext lst)
    then have "ub_linked_to s i lst (ub_next (ub_mem s) lst)" if "ub_next (ub_mem s) lst \<noteq> NULL" using ok that by (simp add: ub_linked_to_def)
    then show ?thesis using EN_lnext ok st by (auto simp: vsync_simps ub_ref_def intro!: ub_inv_quiet [OF inv])
  next
    case (EN_check lst nxt)
    then show ?thesis using ok st by (auto simp: vsync_simps ub_ref_def intro!: ub_inv_quiet [OF inv] split: if_splits)
  next
    case (EN_link lst)
    show ?thesis
    proof (cases "ub_next (ub_mem s) lst = NULL")
      case True
      have lst: "lst = last (ub_nodes s)" using ub_last [OF h _ True, of i] ok EN_link by simp
      have n: "n \<in> ub_own s i" "ub_next (ub_mem s) n = NULL" "ub_data (ub_mem s) n = d" "d \<noteq> NULL" using ok EN_link by auto
      have "ub_inv (ub_observe (ub_moves i (ub_mem (ub_link i n d s)) (UbEnq n d (EN_swing lst)) (ub_link i n d s)))"
        using ub_heap_link [OF h n] ub_keeps_link [OF h n(1)] nn [OF n(1)] last_in_set [OF l(7)] lst
        by (intro ub_inv_moves [OF inv]) (auto simp: ub_linked_to_def ub_ref_def)
      then have "ub_inv (ub_observe (ub_moves i (ub_mem (ub_link i n d s)) (UbEnq n d (EN_swing lst)) (ub_linked i n d s)))"
        by (simp add: ub_link_def)
      then show ?thesis using st EN_link True lst by (auto simp: cas_next_eq)
    next
      case False
      then show ?thesis using st EN_link ok by (auto simp: cas_next_eq intro!: ub_inv_quiet [OF inv])
    qed
  next
    case (EN_swing lst)
    then show ?thesis using ok st by (auto intro!: ub_inv_tail [OF inv])
  next
    case (EN_help lst nxt)
    then show ?thesis using ok st by (auto intro!: ub_inv_tail [OF inv])
  qed
qed

lemma ub_was_ref: "ub_heap s \<Longrightarrow> ub_was s i f \<Longrightarrow> ub_ref s i f"
  using ub_list_okD(9) [OF ub_heapD(1)] by (auto simp: ub_was_def ub_ref_def)

lemma ub_was_last:
  assumes h: "ub_heap s" and w: "ub_was s i f" and n: "ub_next (ub_mem s) f = NULL"
  shows "ub_nodes s = [f]" "f = ub_head (ub_mem s)"
proof -
  note l = ub_list_okD [OF ub_heapD(1) [OF h]]
  have f: "f = last (ub_nodes s)" using ub_last [OF h ub_was_ref [OF h w] n] .
  have "\<not> guarded_by (ub_grace s) i f"
    using ub_retiredD(2) [OF ub_heapD(2) [OF h]] last_in_set [OF l(7)] f by (auto simp: guarded_by_def)
  then show hd: "f = ub_head (ub_mem s)" using w by (simp add: ub_was_def)
  then show "ub_nodes s = [f]" using f l(1,2,7) by (cases "ub_nodes s") (auto split: if_splits dest: last_in_set)
qed

lemma ub_inv_take:
  assumes inv: "ub_inv s" and pc: "ub_pcs s i = UbDeq (DQ_take f nxt v)" and hd: "ub_head (ub_mem s) = f"
    and x: "x = (if f \<noteq> ub_sentinel (ub_mem s) then f else NULL)"
  shows "v \<noteq> NULL" "ub_inv (ub_observe (ub_moves i ((ub_mem s)\<lparr>ub_head := nxt\<rparr>) UbIdle (ub_unlinked v x s)))"
proof -
  have h: "ub_heap s" and ok: "ub_pc_ok s i (UbDeq (DQ_take f nxt v))" using ub_invD [OF inv] pc by blast+
  note l = ub_list_okD [OF ub_heapD(1) [OF h]]
  have t: "ub_tail (ub_mem s) \<in> set (tl (ub_nodes s))" using ok hd by (simp add: ub_tailing_def)
  obtain y rest where n: "ub_nodes s = f # y # rest" "ub_next (ub_mem s) f = y" using ub_unlink_nodes [OF h t] hd by metis
  then have v: "nxt = y" "v = ub_data (ub_mem s) y" using ok by (auto simp: ub_linked_to_def)
  have "v \<in> set (ub_ins s)" using arg_cong [OF l(5), of set] n(1) v(2) by auto
  then show "v \<noteq> NULL" using l(6) by metis
  have "ub_inv (ub_observe (ub_moves i (ub_mem (ub_unlink s)) UbIdle (ub_unlink s)))"
    using ub_heap_unlink [OF h t] ub_keeps_unlink [OF h t] by (intro ub_inv_moves [OF inv]) auto
  moreover have "(if x = NULL then ub_sentinel (ub_mem s) else x) = f" "{x} - {NULL} = {f} - {ub_sentinel (ub_mem s)}"
    using x n(1) l(10) by auto
  ultimately show "ub_inv (ub_observe (ub_moves i ((ub_mem s)\<lparr>ub_head := nxt\<rparr>) UbIdle (ub_unlinked v x s)))"
    using n(1) v by (simp add: ub_unlink_def ub_unlinked_def ub_moves_def)
qed

lemma ub_inv_deq:
  assumes inv: "ub_inv s" and pc: "ub_pcs s i = UbDeq p" and st: "vqueue_ub_deq p (ub_mem s) = (r, m)"
  shows "ub_inv (case r of Goto p' \<Rightarrow> ub_observe (ub_moves i m (UbDeq p') s) | Ret (Inl e) \<Rightarrow> ub_observe (ub_moves i m (UbFault e) s)
    | Ret (Inr (v, x)) \<Rightarrow> ub_observe (ub_moves i m UbIdle (if v = NULL then s else ub_unlinked v x s)))"
proof -
  have h: "ub_heap s" and ok: "ub_pc_ok s i (UbDeq p)" using ub_invD [OF inv] pc by blast+
  note l = ub_list_okD [OF ub_heapD(1) [OF h]]
  show ?thesis
  proof (cases p)
    case DQ_head
    then show ?thesis using st by (auto simp: vsync_simps intro!: ub_inv_quiet [OF inv])
  next
    case (DQ_tail f)
    then have "ub_tailing s f" if "ub_tail (ub_mem s) \<noteq> f"
      using that l(3,8) by (cases "ub_nodes s") (auto simp: ub_tailing_def)
    then show ?thesis using DQ_tail ok st by (auto simp: vsync_simps ub_was_def intro!: ub_inv_quiet [OF inv])
  next
    case (DQ_next f lst)
    have "ub_linked_to s i f (ub_next (ub_mem s) f)" if "ub_next (ub_mem s) f \<noteq> NULL"
      using that ok DQ_next ub_was_ref [OF h] by (simp add: ub_linked_to_def)
    moreover have "length (ub_nodes s) = 1 \<and> lst = f" if "ub_next (ub_mem s) f = NULL"
      using ub_was_last [OF h _ that, of i] ok DQ_next by (auto simp: ub_tailing_def)
    ultimately show ?thesis using DQ_next ok st by (auto simp: vsync_simps ub_was_def intro!: ub_inv_quiet [OF inv])
  next
    case (DQ_check f lst nxt)
    then show ?thesis using ok st by (auto simp: vsync_simps ub_was_def intro!: ub_inv_quiet [OF inv] split: if_splits)
  next
    case (DQ_help f nxt)
    then show ?thesis using ok st by (auto intro!: ub_inv_tail [OF inv])
  next
    case (DQ_data f nxt)
    then have "ub_ref s i nxt" using ok ub_ref_next(1) [OF h] by (auto simp: ub_linked_to_def)
    then show ?thesis using DQ_data ok st by (auto simp: vsync_simps ub_was_def ub_ref_def intro!: ub_inv_quiet [OF inv])
  next
    case (DQ_take f nxt v)
    show ?thesis
    proof (cases "ub_head (ub_mem s) = f")
      case True
      then show ?thesis using st DQ_take ub_inv_take [OF inv pc [unfolded DQ_take] True refl] by (auto simp: cas_head_eq)
    next
      case False
      then show ?thesis using st DQ_take by (auto simp: cas_head_eq intro!: ub_inv_quiet [OF inv])
    qed
  qed
qed

lemma ub_pos_eq: "ub_heap s \<Longrightarrow> ub_ref s i x \<Longrightarrow> ub_ref s j y \<Longrightarrow> ub_pos s x = ub_pos s y \<Longrightarrow> x = y"
  using ub_heapD(4) ub_ref_known unfolding inj_on_def by blast

lemma ub_pos_nodes:
  assumes h: "ub_heap s" and x: "x \<in> set (ub_nodes s)"
  shows "length (ub_outs s) \<le> ub_pos s x" "ub_next (ub_mem s) x = NULL \<Longrightarrow> ub_pos s x = length (ub_ins s)"
proof -
  note l = ub_list_okD [OF ub_heapD(1) [OF h]]
  obtain k where k: "k < length (ub_nodes s)" "x = ub_nodes s ! k" using x by (auto simp: in_set_conv_nth)
  then show "length (ub_outs s) \<le> ub_pos s x" using l(4) [of k] by simp
  assume "ub_next (ub_mem s) x = NULL"
  then have "x = last (ub_nodes s)" using ub_last [OF h] x by (simp add: ub_ref_def)
  then have "ub_pos s x = length (ub_outs s) + (length (ub_nodes s) - 1)" using l(4) [of "length (ub_nodes s) - 1"] l(7) by (simp add: last_conv_nth)
  then show "ub_pos s x = length (ub_ins s)" using arg_cong [OF l(5), of length] by simp
qed

lemma ub_inv_len:
  assumes inv: "ub_inv s" and pc: "ub_pcs s i = UbLen k p" and st: "vqueue_ub_get_length p (ub_mem s) = (r, m)"
  shows "ub_inv (ub_observe (ub_moves i m (case r of Goto p' \<Rightarrow> UbLen (if p = LN_head then length (ub_outs s) else k) p'
       | Ret (Inr _) \<Rightarrow> UbIdle | Ret (Inl e) \<Rightarrow> UbFault e) s))"
proof -
  have h: "ub_heap s" and ok: "ub_pc_ok s i (UbLen k p)" using ub_invD [OF inv] pc by blast+
  note l = ub_list_okD [OF ub_heapD(1) [OF h]]
  show ?thesis
  proof (cases p)
    case LN_head
    have "ub_pos s (ub_head (ub_mem s)) = length (ub_outs s)" using l(4) [of 0] l(7,8) by (cases "ub_nodes s") auto
    then show ?thesis using LN_head st l(9) by (auto simp: vsync_simps intro!: ub_inv_quiet [OF inv])
  next
    case (LN_tail hd)
    then have o: "ub_was s i hd" "ub_ref s i hd" "ub_pos s hd = k" using ok by auto
    then have "hd \<noteq> NULL" using l(10) ub_retiredD(1) [OF ub_heapD(2) [OF h]] by (auto simp: ub_ref_def guarded_by_def)
    moreover have "k < ub_pos s (ub_tail (ub_mem s))" if "hd \<noteq> ub_tail (ub_mem s)"
    proof -
      have "ub_ref s i (ub_tail (ub_mem s))" using l(3) by (simp add: ub_ref_def)
      then have "k \<noteq> ub_pos s (ub_tail (ub_mem s))" using that ub_pos_eq [OF h o(2)] o(3) by blast
      moreover have "k \<le> length (ub_outs s)" using o(1,3) l(4) [of 0] l(7,8) ub_retiredD(3) [OF ub_heapD(2) [OF h]]
        by (cases "ub_nodes s") (auto simp: ub_was_def guarded_by_def intro: less_imp_le)
      ultimately show ?thesis using ub_pos_nodes(1) [OF h l(3)] by linarith
    qed
    ultimately show ?thesis using LN_tail st o l(3)
      by (auto simp: vsync_simps len_test_def Let_def ub_ref_def intro!: ub_inv_quiet [OF inv])
  next
    case (LN_loop cur lst c b)
    let ?n = "ub_next (ub_mem s) cur"
    have o: "ub_ref s i cur" "ub_ref s i lst" "k \<le> ub_pos s cur" "ub_pos s cur < ub_pos s lst" "c = of_nat (ub_pos s cur - k)" "b \<longleftrightarrow> k < ub_pos s cur"
      using ok LN_loop by auto
    have "\<not> (b \<and> cur = ub_sentinel (ub_mem s))" using o(6) ub_heapD(6) [OF h] by auto
    moreover have nn: "?n \<noteq> NULL"
    proof
      assume n: "?n = NULL"
      then have "ub_pos s cur = length (ub_ins s)" using ub_pos_nodes(2) [OF h _ n] ub_last [OF h o(1) n] last_in_set [OF l(7)] by simp
      then show False using o(4) ub_pos_bound [OF h ub_ref_known [OF o(2)]] by simp
    qed
    note nx = ub_ref_next [OF h o(1) nn]
    moreover have "ub_pos s ?n < ub_pos s lst" if "?n \<noteq> lst" using that nx o(4) ub_pos_eq [OF h nx(1) o(2)] by linarith
    moreover have "c + 1 = of_nat (ub_pos s ?n - k)" using o(3,5) nx(2) by (simp add: Suc_diff_le)
    ultimately show ?thesis using LN_loop st o
      by (auto simp: vsync_simps len_test_def Let_def ub_ref_def intro!: ub_inv_quiet [OF inv])
  qed
qed

lemma ub_inv_call:
  assumes inv: "ub_inv s" and "ub_pcs s i = UbIdle"
    and p: "p \<in> {UbDeq DQ_head, UbLen 0 LN_head, UbEmpty EM_head} \<union> (\<lambda>(n, d). UbEnq n d EN_data) ` (ub_own s i \<times> (- {NULL}))"
  shows "ub_inv (s\<lparr>ub_pcs := (ub_pcs s)(i := p), ub_seen := (ub_seen s)(i := length (ub_nodes s) = 1)\<rparr>)"
proof -
  let ?t = "s\<lparr>ub_pcs := (ub_pcs s)(i := p), ub_seen := (ub_seen s)(i := length (ub_nodes s) = 1)\<rparr>"
  have "P \<subseteq> {j. ub_critical (ub_pcs ?t j)}" if "P \<subseteq> {j. ub_critical (ub_pcs s j)}" for P using that assms(2) by auto
  moreover have "ub_succ ?t x P = ub_succ s x P" for x P by (simp add: ub_succ_def)
  ultimately have "ub_retired_ok ?t" using ub_heapD(2) [OF ub_invD(1) [OF inv]] unfolding ub_retired_ok_def by simp
  then have "ub_heap ?t" using ub_invD(1) [OF inv] by (simp add: ub_heap_def ub_list_ok_def ub_known_def)
  moreover have "ub_keeps j s ?t" if "j \<noteq> i" for j unfolding ub_keeps_def using that by (auto simp: ub_ref_def ub_was_def)
  then have "ub_pc_ok ?t j (ub_pcs s j)" if "j \<noteq> i" for j using ub_invD(2) [OF inv refl] ub_pc_ok_keeps that by blast
  moreover have "ub_pc_ok ?t i p" using p by auto
  ultimately show ?thesis by (simp add: ub_inv_def)
qed

lemma ub_inv_step:
  assumes inv: "ub_inv s" and "ub_step i s t"
  shows "ub_inv t"
  using assms(2)
proof cases
  case (ub_call p)
  then show ?thesis using ub_inv_call [OF inv] by simp
next
  case (ub_enq n d p r m)
  then show ?thesis using ub_inv_enq [OF inv] by simp
next
  case (ub_deq p p' m)
  then show ?thesis using ub_inv_deq [OF inv ub_deq(2,3)] by simp
next
  case (ub_deq_fault p e m)
  then show ?thesis using ub_inv_deq [OF inv ub_deq_fault(2,3)] by simp
next
  case (ub_deq_ret p v x m)
  then show ?thesis using ub_inv_deq [OF inv ub_deq_ret(2,3)] by simp
next
  case (ub_len k p r m)
  then show ?thesis using ub_inv_len [OF inv] by simp
next
  case (ub_empty p r m)
  then show ?thesis by (cases p) (auto simp: vsync_simps intro!: ub_inv_quiet [OF inv])
next
  case (ub_reuse x)
  then show ?thesis using ub_inv_reuse [OF inv] by simp
qed

lemma ub_inv_start: "vqueue_ub_start s \<Longrightarrow> ub_inv s"
  by (auto simp: vqueue_ub_start_def ub_inv_def ub_heap_def ub_list_ok_def ub_retired_ok_def ub_known_def vqueue_ub_init_def vsync_simps)

interpretation ub: inductive_invariant vqueue_ub_start ub_step ub_inv
  by unfold_locales (blast intro: ub_inv_start ub_inv_step)+

section \<open>Effects\<close>

definition ub_abs :: "ub_sys \<Rightarrow> ptr list \<times> ptr list" where
  "ub_abs s = (ub_ins s, ub_outs s)"

definition ub_idle :: "ub_sys \<Rightarrow> tid \<Rightarrow> bool" where
  "ub_idle s i \<longleftrightarrow> ub_pcs s i = UbIdle"

lemma ub_take_oldest:
  assumes inv: "ub_inv s" and pc: "ub_pcs s i = UbDeq (DQ_take f x v)" and hd: "ub_head (ub_mem s) = f"
  shows "length (ub_outs s) < length (ub_ins s)" "v = ub_ins s ! length (ub_outs s)" "v \<noteq> NULL"
proof -
  have ok: "ub_pc_ok s i (UbDeq (DQ_take f x v))" using ub_invD(2) [OF inv pc] .
  then have t: "ub_tail (ub_mem s) \<in> set (tl (ub_nodes s))" using hd by (simp add: ub_tailing_def)
  obtain y rest where n: "ub_nodes s = f # y # rest" "ub_next (ub_mem s) f = y" using ub_unlink_nodes [OF ub_invD(1) [OF inv] t] hd by metis
  then have "ub_ins s = ub_outs s @ v # map (ub_data (ub_mem s)) rest"
    using ub_list_okD(5) [OF ub_heapD(1) [OF ub_invD(1) [OF inv]]] ok by (auto simp: ub_linked_to_def)
  then show "length (ub_outs s) < length (ub_ins s)" "v = ub_ins s ! length (ub_outs s)" by simp_all
  show "v \<noteq> NULL" using ub_inv_take(1) [OF inv pc hd refl] .
qed

text \<open>One access: what it does to the queue, and the value a dequeue returns.\<close>

lemma ub_step_effect:
  assumes inv: "ub_inv s" and "ub_step i s t"
  shows "ub_abs t = ub_abs s \<and> (\<forall>n d l. ub_pcs t i = UbEnq n d (EN_swing l) \<longrightarrow> ub_pcs s i = ub_pcs t i) \<and>
      (\<forall>p v x m. ub_pcs s i = UbDeq p \<and> ub_pcs t i = UbIdle \<and> vqueue_ub_deq p (ub_mem s) = (Ret (Inr (v, x)), m) \<longrightarrow> v = NULL \<and> ub_seen s i) \<or>
    (\<exists>n d l. ub_pcs s i = UbEnq n d (EN_link l) \<and> ub_pcs t i = UbEnq n d (EN_swing l) \<and> ub_abs t = (ub_ins s @ [d], ub_outs s)) \<or>
    (\<exists>f x v y m. ub_pcs s i = UbDeq (DQ_take f x v) \<and> vqueue_ub_deq (DQ_take f x v) (ub_mem s) = (Ret (Inr (v, y)), m) \<and>
       length (ub_outs s) < length (ub_ins s) \<and> v = ub_ins s ! length (ub_outs s) \<and> v \<noteq> NULL \<and>
       ub_pcs t i = UbIdle \<and> ub_abs t = (ub_ins s, ub_outs s @ [v]))"
  using assms(2)
proof cases
  case (ub_enq n d p r m)
  then show ?thesis by (cases p) (auto simp: cas_next_eq ub_linked_def ub_abs_def split: if_splits)
next
  case (ub_deq_ret p v x m)
  show ?thesis
  proof (cases p)
    case (DQ_take f y w)
    with ub_deq_ret have hd: "ub_head (ub_mem s) = f" "w = v" by (auto simp: cas_head_eq split: if_splits)
    note o = ub_take_oldest [OF inv ub_deq_ret(2) [unfolded DQ_take] hd(1)]
    from ub_deq_ret o hd show ?thesis by (auto simp: DQ_take ub_unlinked_def ub_abs_def)
  next
    case (DQ_check f l nxt)
    with ub_deq_ret ub_invD(2) [OF inv ub_deq_ret(2)] show ?thesis by (auto simp: ub_abs_def vsync_simps split: if_splits)
  qed (use ub_deq_ret in \<open>auto split: if_splits\<close>)
qed (auto simp: ub_abs_def split: ctl.splits sum.splits)

lemma ub_step_others: "ub_step i s t \<Longrightarrow> j \<noteq> i \<Longrightarrow> ub_pcs t j = ub_pcs s j"
  by (auto elim!: ub_step.cases simp: ub_linked_def ub_unlinked_def)

text \<open>What a running call has done: an enqueue appends its value once, when it links its node; a
  dequeue has done nothing before it returns.\<close>

fun ub_eff_ok :: "ub_pc \<Rightarrow> ((ptr list \<times> ptr list) \<times> (ptr list \<times> ptr list)) list \<Rightarrow> bool" where
  "ub_eff_ok (UbEnq n d (EN_swing l)) e \<longleftrightarrow> (\<exists>ins outs. e = [((ins, outs), (ins @ [d], outs))])"
| "ub_eff_ok (UbEnq n d p) e \<longleftrightarrow> e = []"
| "ub_eff_ok (UbDeq p) e \<longleftrightarrow> e = []"
| "ub_eff_ok p e \<longleftrightarrow> True"

lemma ub_eff_step:
  assumes inv: "ub_inv s" and st: "ub_step i s t" and ok: "ub_eff_ok (ub_pcs s i) e"
  shows "ub_eff_ok (ub_pcs t i) ((if ub_idle s i then [] else e) @ (if ub_abs t = ub_abs s then [] else [(ub_abs s, ub_abs t)]))"
proof (cases "ub_abs t = ub_abs s")
  case True
  from st show ?thesis
  proof cases
    case (ub_call p)
    then show ?thesis using True by (auto simp: ub_idle_def)
  next
    case (ub_enq n d p r m)
    then show ?thesis using True ok by (cases p) (auto simp: ub_idle_def ub_abs_def cas_next_eq ub_linked_def split: if_splits)
  qed (use True ok in \<open>auto simp: ub_idle_def split: ctl.splits sum.splits\<close>)
next
  case False
  then show ?thesis using ub_step_effect [OF inv st] ok by (auto simp: ub_idle_def ub_abs_def)
qed

interpretation ubh: effect_invariant vqueue_ub_start ub_step ub_inv ub_idle ub_abs "\<lambda>s i. ub_eff_ok (ub_pcs s i)"
proof unfold_locales
  show "ub_eff_ok (ub_pcs s i) []" if "vqueue_ub_start s" for s i using that by (simp add: vqueue_ub_start_def)
  show "ub_eff_ok (ub_pcs t j) e" if "ub_step i s t" "j \<noteq> i" "ub_eff_ok (ub_pcs s j) e" for s t i j e
    using that ub_step_others by simp
qed (rule ub_eff_step)

section \<open>Properties\<close>

text \<open>C3: the lock-free queue is linearizable for any number of threads, in any interleaving and with nodes that are
  reused after their grace period. An access leaves the queue alone, or appends the value of the enqueue
  that makes it, or removes the oldest value, which is the one the dequeue that makes it returns. Every
  enqueue that returns has appended its value, exactly once, and done nothing else; every dequeue that
  returns a value removes it with its last access and has done nothing before; a dequeue that reports an
  empty queue has done nothing, and the queue has been empty at some moment since it was called. The
  values in the queue are the data of the nodes behind the head, and no assertion of the code fails.\<close>

theorem unbounded_lf_fifo:
  assumes "op_hist vqueue_ub_start ub_step ub_idle ub_abs s eff" and "ub_step i s t"
  shows "(ub_abs t = ub_abs s \<or>
      (\<exists>n d l. ub_pcs s i = UbEnq n d (EN_link l) \<and> ub_pcs t i = UbEnq n d (EN_swing l) \<and> ub_abs t = (ub_ins s @ [d], ub_outs s)) \<or>
      (\<exists>f x v. ub_pcs s i = UbDeq (DQ_take f x v) \<and> length (ub_outs s) < length (ub_ins s) \<and> v = ub_ins s ! length (ub_outs s) \<and>
         ub_pcs t i = UbIdle \<and> ub_abs t = (ub_ins s, ub_outs s @ [v]))) \<and>
    (\<forall>n d p. ub_pcs s i = UbEnq n d p \<and> ub_pcs t i = UbIdle \<longrightarrow>
       ub_abs t = ub_abs s \<and> (\<exists>ins outs. eff i = [((ins, outs), (ins @ [d], outs))])) \<and>
    (\<forall>p v x m. ub_pcs s i = UbDeq p \<and> ub_pcs t i = UbIdle \<and> vqueue_ub_deq p (ub_mem s) = (Ret (Inr (v, x)), m) \<longrightarrow>
       eff i = [] \<and> (if v = NULL then ub_abs t = ub_abs s \<and> ub_seen s i else ub_abs t = (ub_ins s, ub_outs s @ [v]))) \<and>
    ub_outs t @ map (ub_data (ub_mem t)) (tl (ub_nodes t)) = ub_ins t \<and> ub_pcs t j \<noteq> UbFault e"
proof -
  have inv: "ub_inv s" using ub.reach_inv [OF op_hist_reach [OF assms(1)]] .
  then have it: "ub_inv t" using assms(2) by (rule ub_inv_step)
  note eff = ub_step_effect [OF inv assms(2)] and ok = ubh.hist_ok [OF assms(1), of i]
  have "ub_abs t = ub_abs s \<and> (\<exists>ins outs. eff i = [((ins, outs), (ins @ [d], outs))])"
    if pc: "ub_pcs s i = UbEnq n d p" "ub_pcs t i = UbIdle" for n d p
  proof -
    from assms(2) have "\<exists>l. p = EN_swing l"
      by cases (use pc in \<open>auto simp: cas_next_eq elim!: vqueue_ub_enq.elims split: if_splits\<close>)
    then show ?thesis using ok pc eff by auto
  qed
  moreover have "eff i = [] \<and> (if v = NULL then ub_abs t = ub_abs s \<and> ub_seen s i else ub_abs t = (ub_ins s, ub_outs s @ [v]))"
    if "ub_pcs s i = UbDeq p" "ub_pcs t i = UbIdle" "vqueue_ub_deq p (ub_mem s) = (Ret (Inr (v, x)), m)" for p v x m
    using that ok eff by fastforce
  moreover have "ub_outs t @ map (ub_data (ub_mem t)) (tl (ub_nodes t)) = ub_ins t" using ub_list_okD(5) [OF ub_heapD(1) [OF ub_invD(1) [OF it]]] .
  moreover have "ub_pcs t j \<noteq> UbFault e" using ub_invD(2) [OF it, of j] by fastforce
  moreover have "ub_abs t = ub_abs s \<or>
      (\<exists>n d l. ub_pcs s i = UbEnq n d (EN_link l) \<and> ub_pcs t i = UbEnq n d (EN_swing l) \<and> ub_abs t = (ub_ins s @ [d], ub_outs s)) \<or>
      (\<exists>f x v. ub_pcs s i = UbDeq (DQ_take f x v) \<and> length (ub_outs s) < length (ub_ins s) \<and> v = ub_ins s ! length (ub_outs s) \<and>
         ub_pcs t i = UbIdle \<and> ub_abs t = (ub_ins s, ub_outs s @ [v]))" using eff by blast
  ultimately show ?thesis by (intro conjI allI impI) blast+
qed

text \<open>The node whose field a thread reads or writes next, if it is not its own node.\<close>

fun ub_touches :: "ub_pc \<Rightarrow> ptr option" where
  "ub_touches (UbEnq n d (EN_lnext l)) = Some l"
| "ub_touches (UbEnq n d (EN_link l)) = Some l"
| "ub_touches (UbDeq (DQ_next f l)) = Some f"
| "ub_touches (UbDeq (DQ_data f x)) = Some x"
| "ub_touches (UbLen k (LN_loop c l cnt b)) = Some c"
| "ub_touches _ = None"

lemma ub_walk_chain: "chain (ub_next m) a xs \<Longrightarrow> ub_walk m a = Some xs"
proof (induction xs arbitrary: a)
  case Nil
  then show ?case by (subst ub_walk.simps) simp
next
  case (Cons x xs)
  then show ?case by (subst ub_walk.simps) (simp add: vsync_simps)
qed

lemma ub_retire_walk_chain: "chain (ub_next m) a xs \<Longrightarrow> ub_retire_walk m a = Some (filter (\<lambda>x. x \<noteq> ub_sentinel m) xs)"
proof (induction xs arbitrary: a)
  case Nil
  then show ?case by (subst ub_retire_walk.simps) simp
next
  case (Cons x xs)
  then show ?case by (subst ub_retire_walk.simps) (simp add: vsync_simps)
qed

text \<open>C27: the memory of the lock-free queue. A node becomes reusable when the dequeue has passed it to
  \<^verbatim>\<open>retire\<close> and the operations running at that time have ended; even so, a thread never follows \<^verbatim>\<open>NULL\<close> or a
  node that has been reused: the node it reads or writes next belongs to no thread. The sentinel inside
  the queue object is never passed to \<^verbatim>\<open>retire\<close>. The length counts the nodes from the head to the
  tail it has read: while it is at a node, the counter is the position of that node after the head, and
  the tail is further on, so that the loop ends. The walks of an unused queue end and meet exactly the nodes in
  the queue; the destruction leaves out the sentinel.\<close>

theorem unbounded_lf_memory:
  assumes "reach vqueue_ub_start ub_step s"
  shows "(\<forall>i j x. ub_touches (ub_pcs s i) = Some x \<longrightarrow> x \<noteq> NULL \<and> x \<notin> ub_own s j) \<and>
    (\<forall>i k c l cnt b. ub_pcs s i = UbLen k (LN_loop c l cnt b) \<longrightarrow> cnt = of_nat (ub_pos s c - k) \<and> ub_pos s c < ub_pos s l \<and>
       ub_pos s (ub_next (ub_mem s) c) = Suc (ub_pos s c)) \<and>
    ub_sentinel (ub_mem s) \<notin> ub_retired s \<and>
    vqueue_ub_visit_nodes (ub_mem s) = Some (tl (ub_nodes s)) \<and>
    vqueue_ub_destroy (ub_mem s) = Some (filter (\<lambda>x. x \<noteq> ub_sentinel (ub_mem s)) (ub_nodes s))"
proof -
  have inv: "ub_inv s" using ub.reach_inv [OF assms] .
  then have h: "ub_heap s" by (rule ub_invD)
  note l = ub_list_okD [OF ub_heapD(1) [OF h]]
  have known: "x \<noteq> NULL \<and> x \<notin> ub_own s j" if "ub_ref s i x" for i j x
    using that l(10) ub_retiredD(1) [OF ub_heapD(2) [OF h]] ub_ref_known [OF that] owned_okD(2) [OF ub_heapD(3) [OF h], of x j]
    by (auto simp: ub_ref_def guarded_by_def)
  have "x \<noteq> NULL \<and> x \<notin> ub_own s j" if "ub_touches (ub_pcs s i) = Some x" for i j x
  proof -
    have "ub_ref s i x" using ub_invD(2) [OF inv refl, of i] that ub_was_ref [OF h] ub_ref_next(1) [OF h]
      by (cases "ub_pcs s i" rule: ub_touches.cases) (auto simp: ub_linked_to_def)
    then show ?thesis by (rule known)
  qed
  moreover have "cnt = of_nat (ub_pos s c - k) \<and> ub_pos s c < ub_pos s e \<and> ub_pos s (ub_next (ub_mem s) c) = Suc (ub_pos s c)"
    if "ub_pcs s i = UbLen k (LN_loop c e cnt b)" for i k c e cnt b
  proof -
    have o: "ub_ref s i c" "ub_ref s i e" "ub_pos s c < ub_pos s e" "cnt = of_nat (ub_pos s c - k)" using ub_invD(2) [OF inv that] by auto
    have "ub_next (ub_mem s) c \<noteq> NULL"
      using ub_last [OF h o(1)] ub_pos_nodes(2) [OF h last_in_set [OF l(7)]] ub_pos_bound [OF h ub_ref_known [OF o(2)]] o(3) by force
    then show ?thesis using o ub_ref_next(2) [OF h o(1)] by simp
  qed
  moreover have "vqueue_ub_visit_nodes (ub_mem s) = Some (tl (ub_nodes s))"
    using l(1,7) ub_walk_chain [of "ub_mem s" _ "tl (ub_nodes s)"] by (cases "ub_nodes s") (auto simp: vqueue_ub_visit_nodes_def vsync_simps)
  moreover have "vqueue_ub_destroy (ub_mem s) = Some (filter (\<lambda>x. x \<noteq> ub_sentinel (ub_mem s)) (ub_nodes s))"
    using ub_retire_walk_chain [OF l(1)] by (simp add: vqueue_ub_destroy_def vsync_simps)
  ultimately show ?thesis using ub_heapD(7) [OF h] by blast
qed

section \<open>An execution\<close>

fun ub_move :: "ub_sys \<Rightarrow> tid \<times> ub_pc option \<Rightarrow> ub_sys option" where
  "ub_move s (i, Some p) = (if ub_pcs s i = UbIdle \<and> (case p of UbEnq n d e \<Rightarrow> e = EN_data \<and> n \<in> ub_own s i \<and> d \<noteq> NULL
      | UbDeq e \<Rightarrow> e = DQ_head | UbLen k e \<Rightarrow> k = 0 \<and> e = LN_head | UbEmpty e \<Rightarrow> e = EM_head | _ \<Rightarrow> False)
     then Some (s\<lparr>ub_pcs := (ub_pcs s)(i := p), ub_seen := (ub_seen s)(i := length (ub_nodes s) = 1)\<rparr>) else None)"
| "ub_move s (i, None) = (case ub_pcs s i of
     UbEnq n d p \<Rightarrow> (case vqueue_ub_enq n d p (ub_mem s) of (r, m) \<Rightarrow>
       Some (ub_observe (ub_moves i m (case r of Goto p' \<Rightarrow> UbEnq n d p' | Ret (Inr _) \<Rightarrow> UbIdle | Ret (Inl e) \<Rightarrow> UbFault e)
         (case r of Goto (EN_swing lst) \<Rightarrow> ub_linked i n d s | _ \<Rightarrow> s))))
   | UbDeq p \<Rightarrow> (case vqueue_ub_deq p (ub_mem s) of (Goto p', m) \<Rightarrow> Some (ub_observe (ub_moves i m (UbDeq p') s))
       | (Ret (Inl e), m) \<Rightarrow> Some (ub_observe (ub_moves i m (UbFault e) s))
       | (Ret (Inr (v, x)), m) \<Rightarrow> Some (ub_observe (ub_moves i m UbIdle (if v = NULL then s else ub_unlinked v x s))))
   | UbLen k p \<Rightarrow> (case vqueue_ub_get_length p (ub_mem s) of (r, m) \<Rightarrow>
       Some (ub_observe (ub_moves i m (case r of Goto p' \<Rightarrow> UbLen (if p = LN_head then length (ub_outs s) else k) p'
         | Ret (Inr _) \<Rightarrow> UbIdle | Ret (Inl e) \<Rightarrow> UbFault e) s)))
   | _ \<Rightarrow> None)"

lemma ub_move_step:
  assumes "ub_move s x = Some t"
  shows "\<exists>i. ub_step i s t"
proof (cases x)
  case (Pair i c)
  have "ub_step i s t"
  proof (cases c)
    case (Some p)
    then have "ub_pcs s i = UbIdle" "p \<in> {UbDeq DQ_head, UbLen 0 LN_head, UbEmpty EM_head} \<union> (\<lambda>(n, d). UbEnq n d EN_data) ` (ub_own s i \<times> (- {NULL}))"
      using assms Pair by (auto split: if_splits ub_pc.splits)
    from ub_call [OF this] Some assms Pair show ?thesis by (simp split: if_splits)
  next
    case None
    show ?thesis
    proof (cases "ub_pcs s i")
      case (UbEnq n d p)
      obtain r m where "vqueue_ub_enq n d p (ub_mem s) = (r, m)" by fastforce
      with ub_enq [OF UbEnq this] UbEnq assms Pair None show ?thesis by (auto split: ctl.splits ubenq_pc.splits)
    next
      case (UbDeq p)
      obtain r m where r: "vqueue_ub_deq p (ub_mem s) = (r, m)" by fastforce
      show ?thesis
      proof (cases r)
        case (Goto p')
        then show ?thesis using ub_deq [OF UbDeq] r UbDeq assms Pair None by simp
      next
        case (Ret v)
        then show ?thesis using ub_deq_ret [OF UbDeq] ub_deq_fault [OF UbDeq] r UbDeq assms Pair None by (cases v) auto
      qed
    next
      case (UbLen k p)
      obtain r m where "vqueue_ub_get_length p (ub_mem s) = (r, m)" by fastforce
      with ub_len [OF UbLen this] UbLen assms Pair None show ?thesis by simp
    qed (use assms Pair None in auto)
  qed
  then show ?thesis by blast
qed

definition ub_w0 :: ub_sys where
  "ub_w0 = \<lparr>ub_mem = vqueue_ub_init \<lparr>ub_data = (\<lambda>_. 1), ub_next = (\<lambda>_. 1), ub_head = 0, ub_tail = 0, ub_sentinel = 8\<rparr>,
     ub_pcs = (\<lambda>_. UbIdle), ub_own = (\<lambda>_. {})(1 := {16, 24}), ub_grace = (\<lambda>_. None), ub_nodes = [8], ub_pos = (\<lambda>_. 0), ub_ins = [], ub_outs = [],
     ub_seen = (\<lambda>_. True), ub_retired = {}\<rparr>"

lemma ub_w0_start: "vqueue_ub_start ub_w0"
proof -
  have "\<exists>m. ub_mem ub_w0 = vqueue_ub_init m" unfolding ub_w0_def by simp (rule exI, rule refl)
  then show ?thesis by (auto simp: vqueue_ub_start_def ub_w0_def vqueue_ub_init_def owned_ok_def)
qed

lemma ub_play_reach: "play ub_move ub_w0 xs = Some t \<Longrightarrow> reach vqueue_ub_start ub_step t"
  using ub_w0_start by (intro play_reach [of ub_move ub_step, OF ub_move_step])

text \<open>Thread 0 asks for the length and reads the head; thread 1 enqueues and dequeues twice; thread 0 reads the tail and counts.\<close>

abbreviation ub_enq_deq :: "ptr \<Rightarrow> ptr \<Rightarrow> (tid \<times> ub_pc option) list" where
  "ub_enq_deq n d \<equiv> [(1, Some (UbEnq n d EN_data)), (1, None), (1, None), (1, None), (1, None), (1, None), (1, None), (1, None),
     (1, Some (UbDeq DQ_head)), (1, None), (1, None), (1, None), (1, None), (1, None), (1, None)]"

abbreviation ub_run :: "(tid \<times> ub_pc option) list" where
  "ub_run \<equiv> [(0, Some (UbLen 0 LN_head)), (0, None)] @ ub_enq_deq 16 5 @ ub_enq_deq 24 6 @ [(0, None), (0, None)]"

lemmas ub_eval = ub_w0_def vqueue_ub_init_def vsync_simps Let_def cas_next_eq cas_head_eq cas_tail_def ub_moves_def ub_observe_def ub_linked_def ub_unlinked_def
  len_test_def

definition ub_w :: ub_sys where "ub_w = the (play ub_move ub_w0 ub_run)"

lemma ub_w_play: "play ub_move ub_w0 ub_run = Some ub_w"
  by (simp add: ub_w_def ub_eval)

lemma ub_w_state: "ub_pcs ub_w 0 = UbLen 0 (LN_loop 16 24 1 True)" "ub_outs ub_w = [5, 6]" "ub_ins ub_w = [5, 6]" "ub_next (ub_mem ub_w) 16 = 24"
  "ub_sentinel (ub_mem ub_w) = 8" "ub_nodes ub_w = [24]"
  by (simp_all add: ub_w_def ub_eval)

text \<open>
  The length is not a snapshot: here it returns 2 although the queue never had more than one value. The
  documentation of \<^verbatim>\<open>vqueue_ub_get_length\<close> promises an atomic snapshot, which may be stale.
\<close>

lemma unbounded_lf_length_not_a_snapshot:
  "\<exists>ms t. play ub_move ub_w0 ms = Some t \<and> throughout (\<lambda>u. length (ub_ins u) \<le> length (ub_outs u) + 1) ub_move ub_w0 ms \<and>
     ub_pcs t 0 = UbLen 0 (LN_loop 16 24 1 True) \<and> fst (vqueue_ub_get_length (LN_loop 16 24 1 True) (ub_mem t)) = Ret (Inr 2)"
proof (intro exI conjI)
  show "throughout (\<lambda>u. length (ub_ins u) \<le> length (ub_outs u) + 1) ub_move ub_w0 ub_run" by (simp add: ub_eval)
  show "play ub_move ub_w0 ub_run = Some ub_w" by (rule ub_w_play)
  show "ub_pcs ub_w 0 = UbLen 0 (LN_loop 16 24 1 True)" by (rule ub_w_state)
  show "fst (vqueue_ub_get_length (LN_loop 16 24 1 True) (ub_mem ub_w)) = Ret (Inr 2)" by (simp add: ub_w_state vsync_simps len_test_def)
qed

lemma unbounded_lf_fifo_witness:
  "\<exists>s t eff. op_hist vqueue_ub_start ub_step ub_idle ub_abs s eff \<and> ub_pcs s 1 = UbEnq 16 5 (EN_swing 8) \<and> ub_step 1 s t \<and>
     ub_pcs t 1 = UbIdle \<and> ub_ins t = [5] \<and> (\<exists>ins outs. eff 1 = [((ins, outs), (ins @ [5], outs))])"
proof -
  let ?ms = "[(0, Some (UbLen 0 LN_head)), (0, None)] @ take 7 (ub_enq_deq 16 5)"
  obtain s where s: "play ub_move ub_w0 ?ms = Some s" "ub_pcs s 1 = UbEnq 16 5 (EN_swing 8)" "ub_ins s = [5]"
    by (simp add: ub_eval)
  obtain eff where eff: "op_hist vqueue_ub_start ub_step ub_idle ub_abs s eff" using reach_op_hist [OF ub_play_reach [OF s(1)]] by blast
  obtain t where t: "ub_step 1 s t" "ub_pcs t 1 = UbIdle" "ub_ins t = [5]"
    using ub_enq [OF s(2), of "Ret (Inr ())"] s(3) by auto
  then show ?thesis using unbounded_lf_fifo [OF eff t(1), of 0 AssertFail] eff s by blast
qed

lemma unbounded_lf_memory_witness: "16 \<notin> ub_own ub_w 1 \<and> vqueue_ub_destroy (ub_mem ub_w) = Some [24]"
  using unbounded_lf_memory [OF ub_play_reach [OF ub_w_play]] ub_w_state(1) [THEN arg_cong [of _ _ ub_touches]]
  by (simp add: ub_w_state(5,6))

end
