(* ===== verification/Listset_Lf.thy ===== *)
theory Listset_Lf
  imports Vatomic Grace Map_Contract
begin

text \<open>
  The lock-free list set \<^verbatim>\<open>map/listset_lf.h\<close> for any number of threads: a sorted list between two sentinels
  whose nodes are removed in two steps, first marked and then unlinked. The next field of a node is a
  pointer with a mark, here a pair (\<^verbatim>\<open>atomicptr_markable.h\<close>, shown to be one in \<^verbatim>\<open>Atomicptr\<close>). The key of a
  node is set by the caller before it is added; the comparison callback compares it with a key. One
  access is one step. Operations run in critical sections of the memory reclamation, so that a retired
  node is reused only after all operations that were running at that time have ended. \<open>lf_list\<close> (the nodes
  between the sentinels, marked ones included), \<open>lf_own\<close>, \<open>lf_grace\<close> and \<open>lf_absent\<close>, \<open>lf_present\<close> (whether the key of
  the running operation of a thread has been absent or present since its call) are auxiliary: no access
  depends on them.
\<close>

section \<open>Operations\<close>

record vlistset_lf =
  lf_next :: "ptr \<Rightarrow> ptr \<times> bool"
  lf_key :: "ptr \<Rightarrow> ptr"
  lf_head :: ptr
  lf_tail :: ptr
  lf_retired :: "ptr list"

definition lf_cmpxchg :: "ptr \<Rightarrow> ptr \<times> bool \<Rightarrow> ptr \<times> bool \<Rightarrow> vlistset_lf \<Rightarrow> bool \<times> vlistset_lf" where
  "lf_cmpxchg a e v m = (if lf_next m a = e then (True, m\<lparr>lf_next := (lf_next m)(a := v)\<rparr>) else (False, m))"

definition lf_retire :: "ptr \<Rightarrow> vlistset_lf \<Rightarrow> vlistset_lf" where
  "lf_retire x m = m\<lparr>lf_retired := lf_retired m @ [x]\<rparr>"

definition lf_init :: "vlistset_lf \<Rightarrow> vlistset_lf" where
  "lf_init m = m\<lparr>lf_next := (lf_next m)(lf_head m := (lf_tail m, False), lf_tail m := (NULL, False))\<rparr>"

text \<open>The tests after the loop of the search: \<open>curr\<close> has the key; \<open>curr\<close> is not before the key.\<close>

definition lf_found :: "(ptr \<Rightarrow> ptr \<Rightarrow> int) \<Rightarrow> ptr \<Rightarrow> vlistset_lf \<Rightarrow> ptr \<Rightarrow> bool" where
  "lf_found cmp key m cur \<longleftrightarrow> lf_tail m \<noteq> cur \<and> cmp (lf_key m cur) key = 0"

definition lf_stops :: "(ptr \<Rightarrow> ptr \<Rightarrow> int) \<Rightarrow> ptr \<Rightarrow> vlistset_lf \<Rightarrow> ptr \<Rightarrow> bool" where
  "lf_stops cmp key m cur \<longleftrightarrow> cur = lf_tail m \<or> cmp (lf_key m cur) key \<ge> 0"

text \<open>
  The search \<^verbatim>\<open>_vlistset_find\<close>, which repeats \<^verbatim>\<open>_vlistset_find_loop\<close> when an unlinking fails. \<open>find_test\<close> is the test of the
  outer loop, \<open>find_rest\<close> what follows the inner loop.
\<close>

datatype find_pc = FD_head | FD_curr ptr ptr | FD_snip ptr ptr ptr

definition find_test :: "vlistset_lf \<Rightarrow> ptr \<Rightarrow> ptr \<Rightarrow> (find_pc, ptr \<times> ptr) ctl" where
  "find_test m pred cur = (if cur \<noteq> lf_tail m then Goto (FD_curr pred cur) else Ret (pred, cur))"

definition find_rest :: "(ptr \<Rightarrow> ptr \<Rightarrow> int) \<Rightarrow> ptr \<Rightarrow> vlistset_lf \<Rightarrow> ptr \<Rightarrow> ptr \<Rightarrow> ptr \<Rightarrow> (find_pc, ptr \<times> ptr) ctl" where
  "find_rest cmp key m pred cur succ = (if lf_stops cmp key m cur then Ret (pred, cur) else find_test m cur succ)"

fun lf_find :: "(ptr \<Rightarrow> ptr \<Rightarrow> int) \<Rightarrow> ptr \<Rightarrow> (find_pc, vlistset_lf, ptr \<times> ptr) prog" where
  "lf_find cmp key FD_head m = (find_test m (lf_head m) (fst (lf_next m (lf_head m))), m)"
| "lf_find cmp key (FD_curr pred cur) m =
     (let (succ, marked) = lf_next m cur in if marked then Goto (FD_snip pred cur succ) else find_rest cmp key m pred cur succ, m)"
| "lf_find cmp key (FD_snip pred cur succ) m =
     (let (snip, m') = lf_cmpxchg pred (cur, False) (succ, False) m in
      if \<not> snip then (Goto FD_head, m')
      else (if succ = lf_tail m then find_rest cmp key m pred cur succ else Goto (FD_curr pred succ), lf_retire cur m'))"

datatype add_pc = AD_find find_pc | AD_write ptr ptr | AD_link ptr ptr

fun lf_add :: "(ptr \<Rightarrow> ptr \<Rightarrow> int) \<Rightarrow> ptr \<Rightarrow> ptr \<Rightarrow> (add_pc, vlistset_lf, bool) prog" where
  "lf_add cmp key node (AD_find f) m = (case lf_find cmp key f m of
     (Goto f', m') \<Rightarrow> (Goto (AD_find f'), m')
   | (Ret (pred, cur), m') \<Rightarrow> (if lf_found cmp key m cur then Ret False else Goto (AD_write pred cur), m'))"
| "lf_add cmp key node (AD_write pred cur) m = (Goto (AD_link pred cur), m\<lparr>lf_next := (lf_next m)(node := (cur, False))\<rparr>)"
| "lf_add cmp key node (AD_link pred cur) m =
     (let (ok, m') = lf_cmpxchg pred (cur, False) (node, False) m in (if ok then Ret True else Goto (AD_find FD_head), m'))"

datatype rem_pc = RM_find find_pc | RM_succ ptr ptr | RM_mark ptr ptr ptr | RM_detach ptr ptr ptr

fun lf_remove :: "(ptr \<Rightarrow> ptr \<Rightarrow> int) \<Rightarrow> ptr \<Rightarrow> (rem_pc, vlistset_lf, bool) prog" where
  "lf_remove cmp key (RM_find f) m = (case lf_find cmp key f m of
     (Goto f', m') \<Rightarrow> (Goto (RM_find f'), m')
   | (Ret (pred, cur), m') \<Rightarrow> (if \<not> lf_found cmp key m cur then Ret False else Goto (RM_succ pred cur), m'))"
| "lf_remove cmp key (RM_succ pred cur) m = (Goto (RM_mark pred cur (fst (lf_next m cur))), m)"
| "lf_remove cmp key (RM_mark pred cur succ) m =
     (let (snip, m') = lf_cmpxchg cur (succ, False) (succ, True) m in (if \<not> snip then Goto (RM_find FD_head) else Goto (RM_detach pred cur succ), m'))"
| "lf_remove cmp key (RM_detach pred cur succ) m =
     (let (detached, m') = lf_cmpxchg pred (cur, False) (succ, False) m in (Ret True, if detached then lf_retire cur m' else m'))"

datatype get_pc = GT_head | GT_next ptr | GT_mark ptr

definition get_test :: "(ptr \<Rightarrow> ptr \<Rightarrow> int) \<Rightarrow> ptr \<Rightarrow> vlistset_lf \<Rightarrow> ptr \<Rightarrow> (get_pc, ptr) ctl" where
  "get_test cmp key m cur = (if \<not> lf_stops cmp key m cur then Goto (GT_next cur)
     else if lf_found cmp key m cur then Goto (GT_mark cur) else Ret NULL)"

fun lf_get :: "(ptr \<Rightarrow> ptr \<Rightarrow> int) \<Rightarrow> ptr \<Rightarrow> (get_pc, vlistset_lf, ptr) prog" where
  "lf_get cmp key GT_head m = (get_test cmp key m (fst (lf_next m (lf_head m))), m)"
| "lf_get cmp key (GT_next cur) m = (get_test cmp key m (fst (lf_next m cur)), m)"
| "lf_get cmp key (GT_mark cur) m = (Ret (if \<not> snd (lf_next m cur) then cur else NULL), m)"

text \<open>The walk of \<^verbatim>\<open>_vlistset_visit\<close>: the nodes the visitor is called with, also the marked ones if it is destructive.\<close>

partial_function (option) lf_visit_from :: "bool \<Rightarrow> vlistset_lf \<Rightarrow> ptr \<Rightarrow> ptr list option" where
  "lf_visit_from destructive m cur =
     (if cur \<noteq> NULL \<and> cur \<noteq> lf_tail m then
        Option.bind (lf_visit_from destructive m (fst (lf_next m cur)))
          (\<lambda>ns. Some (if \<not> snd (lf_next m cur) \<or> destructive then cur # ns else ns))
      else Some [])"

definition lf_visit :: "bool \<Rightarrow> vlistset_lf \<Rightarrow> ptr list option" where
  "lf_visit destructive m = lf_visit_from destructive m (fst (lf_next m (lf_head m)))"

definition lf_destroy :: "vlistset_lf \<Rightarrow> vlistset_lf option" where
  "lf_destroy m = map_option (\<lambda>ns. m\<lparr>lf_retired := lf_retired m @ ns\<rparr>) (lf_visit True m)"

section \<open>Threads\<close>

datatype lf_pc = LfIdle | LfAdd ptr ptr add_pc | LfRemove ptr rem_pc | LfGet ptr get_pc

record lf_sys =
  lf_mem :: vlistset_lf
  lf_pcs :: "tid \<Rightarrow> lf_pc"
  lf_own :: "tid \<Rightarrow> ptr set"
  lf_grace :: grace
  lf_list :: "ptr list"
  lf_absent :: "tid \<Rightarrow> bool"
  lf_present :: "tid \<Rightarrow> bool"

fun lf_op_key :: "lf_pc \<Rightarrow> ptr option" where
  "lf_op_key LfIdle = None"
| "lf_op_key (LfAdd k n p) = Some k"
| "lf_op_key (LfRemove k p) = Some k"
| "lf_op_key (LfGet k p) = Some k"

text \<open>The abstract map: the nodes in the list that are not marked.\<close>

definition lf_map :: "lf_sys \<Rightarrow> ptr \<rightharpoonup> ptr" where
  "lf_map s k = find (\<lambda>n. lf_key (lf_mem s) n = k \<and> \<not> snd (lf_next (lf_mem s) n)) (lf_list s)"

definition lf_observe :: "lf_sys \<Rightarrow> lf_sys" where
  "lf_observe s = s\<lparr>lf_absent := (\<lambda>j. lf_absent s j \<or> (case lf_op_key (lf_pcs s j) of None \<Rightarrow> False | Some k \<Rightarrow> lf_map s k = None)),
     lf_present := (\<lambda>j. lf_present s j \<or> (case lf_op_key (lf_pcs s j) of None \<Rightarrow> False | Some k \<Rightarrow> lf_map s k \<noteq> None))\<rparr>"

text \<open>A node that has been unlinked in a step is the one given to the retire function.\<close>

definition lf_unlinked :: "vlistset_lf \<Rightarrow> lf_sys \<Rightarrow> lf_sys" where
  "lf_unlinked m s = (if lf_retired m = lf_retired (lf_mem s) then s
     else s\<lparr>lf_list := remove1 (last (lf_retired m)) (lf_list s),
            lf_grace := grace_retire (last (lf_retired m)) {j. lf_pcs s j \<noteq> LfIdle} (lf_grace s)\<rparr>)"

definition lf_linked :: "tid \<Rightarrow> ptr \<Rightarrow> ptr \<Rightarrow> lf_sys \<Rightarrow> lf_sys" where
  "lf_linked i k n s = s\<lparr>lf_list := takeWhile (\<lambda>x. lf_key (lf_mem s) x < k) (lf_list s) @ n # dropWhile (\<lambda>x. lf_key (lf_mem s) x < k) (lf_list s),
     lf_own := (lf_own s)(i := lf_own s i - {n})\<rparr>"

definition lf_moves :: "tid \<Rightarrow> vlistset_lf \<Rightarrow> lf_pc \<Rightarrow> lf_sys \<Rightarrow> lf_sys" where
  "lf_moves i m p s = s\<lparr>lf_mem := m, lf_pcs := (lf_pcs s)(i := p), lf_grace := (if p = LfIdle then grace_leave i (lf_grace s) else lf_grace s)\<rparr>"

definition lf_called :: "tid \<Rightarrow> lf_pc \<Rightarrow> lf_sys \<Rightarrow> lf_sys" where
  "lf_called i p s = lf_observe (s\<lparr>lf_pcs := (lf_pcs s)(i := p), lf_absent := (lf_absent s)(i := False), lf_present := (lf_present s)(i := False)\<rparr>)"

inductive lf_step :: "(ptr \<Rightarrow> ptr \<Rightarrow> int) \<Rightarrow> tid \<Rightarrow> lf_sys \<Rightarrow> lf_sys \<Rightarrow> bool" for cmp where
  lf_call: "lf_pcs s i = LfIdle \<Longrightarrow> p \<in> {LfRemove k (RM_find FD_head), LfGet k GT_head} \<Longrightarrow> lf_step cmp i s (lf_called i p s)"
| lf_call_add: "lf_pcs s i = LfIdle \<Longrightarrow> n \<in> lf_own s i \<Longrightarrow>
     lf_step cmp i s (lf_called i (LfAdd k n (AD_find FD_head)) (s\<lparr>lf_mem := (lf_mem s)\<lparr>lf_key := (lf_key (lf_mem s))(n := k)\<rparr>\<rparr>))"
| lf_step_add: "lf_pcs s i = LfAdd k n p \<Longrightarrow> lf_add cmp k n p (lf_mem s) = (r, m) \<Longrightarrow>
     lf_step cmp i s (lf_observe (lf_moves i m (case r of Goto p' \<Rightarrow> LfAdd k n p' | Ret b \<Rightarrow> LfIdle)
       (if r = Ret True then lf_linked i k n s else lf_unlinked m s)))"
| lf_step_remove: "lf_pcs s i = LfRemove k p \<Longrightarrow> lf_remove cmp k p (lf_mem s) = (r, m) \<Longrightarrow>
     lf_step cmp i s (lf_observe (lf_moves i m (case r of Goto p' \<Rightarrow> LfRemove k p' | Ret b \<Rightarrow> LfIdle) (lf_unlinked m s)))"
| lf_step_get: "lf_pcs s i = LfGet k p \<Longrightarrow> lf_get cmp k p (lf_mem s) = (r, m) \<Longrightarrow>
     lf_step cmp i s (lf_observe (lf_moves i m (case r of Goto p' \<Rightarrow> LfGet k p' | Ret b \<Rightarrow> LfIdle) s))"
| lf_reuse: "lf_grace s x = Some {} \<Longrightarrow> lf_step cmp i s (s\<lparr>lf_grace := grace_reuse x (lf_grace s), lf_own := (lf_own s)(i := insert x (lf_own s i))\<rparr>)"

definition lf_start :: "lf_sys \<Rightarrow> bool" where
  "lf_start s \<longleftrightarrow> (\<exists>m. lf_mem s = lf_init m) \<and> (\<forall>i. lf_pcs s i = LfIdle) \<and> NULL \<notin> {lf_head (lf_mem s), lf_tail (lf_mem s)} \<and>
     lf_head (lf_mem s) \<noteq> lf_tail (lf_mem s) \<and> owned_ok (lf_own s) {lf_head (lf_mem s), lf_tail (lf_mem s)} \<and>
     lf_grace s = (\<lambda>_. None) \<and> lf_list s = [] \<and> lf_retired (lf_mem s) = []"

text \<open>The documented behaviour of the comparison callback.\<close>

definition lf_cmp_ok :: "(ptr \<Rightarrow> ptr \<Rightarrow> int) \<Rightarrow> bool" where
  "lf_cmp_ok cmp \<longleftrightarrow> (\<forall>a b. (cmp a b = 0 \<longleftrightarrow> a = b) \<and> (cmp a b < 0 \<longleftrightarrow> a < b))"

section \<open>Invariant\<close>

abbreviation lf_ptr :: "vlistset_lf \<Rightarrow> ptr \<Rightarrow> ptr" where "lf_ptr m x \<equiv> fst (lf_next m x)"
abbreviation lf_marked :: "vlistset_lf \<Rightarrow> ptr \<Rightarrow> bool" where "lf_marked m x \<equiv> snd (lf_next m x)"

text \<open>The nodes thread \<open>i\<close> may follow: those in the list and the retired ones that its operation keeps.\<close>

definition lf_node :: "lf_sys \<Rightarrow> tid \<Rightarrow> ptr \<Rightarrow> bool" where
  "lf_node s i x \<longleftrightarrow> x \<in> set (lf_list s) \<or> guarded_by (lf_grace s) i x"

definition lf_before :: "lf_sys \<Rightarrow> tid \<Rightarrow> ptr \<Rightarrow> ptr \<Rightarrow> bool" where
  "lf_before s i k x \<longleftrightarrow> x = lf_head (lf_mem s) \<or> lf_node s i x \<and> lf_key (lf_mem s) x < k"

definition lf_beyond :: "lf_sys \<Rightarrow> ptr \<Rightarrow> ptr \<Rightarrow> bool" where
  "lf_beyond s k x \<longleftrightarrow> x = lf_tail (lf_mem s) \<or> k < lf_key (lf_mem s) x"

fun lf_find_ok :: "lf_sys \<Rightarrow> tid \<Rightarrow> ptr \<Rightarrow> find_pc \<Rightarrow> bool" where
  "lf_find_ok s i k FD_head \<longleftrightarrow> True"
| "lf_find_ok s i k (FD_curr pred cur) \<longleftrightarrow> lf_before s i k pred \<and> lf_node s i cur \<and> (lf_beyond s k cur \<longrightarrow> lf_absent s i)"
| "lf_find_ok s i k (FD_snip pred cur succ) \<longleftrightarrow> lf_before s i k pred \<and> lf_node s i cur \<and> lf_next (lf_mem s) cur = (succ, True)"

fun lf_pc_ok :: "lf_sys \<Rightarrow> tid \<Rightarrow> lf_pc \<Rightarrow> bool" where
  "lf_pc_ok s i LfIdle \<longleftrightarrow> True"
| "lf_pc_ok s i (LfAdd k n p) \<longleftrightarrow> n \<in> lf_own s i \<and> lf_key (lf_mem s) n = k \<and> (case p of AD_find f \<Rightarrow> lf_find_ok s i k f
      | AD_write pred cur \<Rightarrow> lf_before s i k pred \<and> (cur \<noteq> lf_tail (lf_mem s) \<longrightarrow> lf_node s i cur \<and> k < lf_key (lf_mem s) cur)
      | AD_link pred cur \<Rightarrow> lf_before s i k pred \<and> (cur \<noteq> lf_tail (lf_mem s) \<longrightarrow> lf_node s i cur \<and> k < lf_key (lf_mem s) cur) \<and>
          lf_next (lf_mem s) n = (cur, False))"
| "lf_pc_ok s i (LfRemove k p) \<longleftrightarrow> (case p of RM_find f \<Rightarrow> lf_find_ok s i k f
      | RM_succ pred cur \<Rightarrow> lf_before s i k pred \<and> lf_node s i cur \<and> lf_key (lf_mem s) cur = k
      | RM_mark pred cur succ \<Rightarrow> lf_before s i k pred \<and> lf_node s i cur \<and> lf_key (lf_mem s) cur = k
      | RM_detach pred cur succ \<Rightarrow> lf_before s i k pred \<and> lf_node s i cur \<and> lf_next (lf_mem s) cur = (succ, True))"
| "lf_pc_ok s i (LfGet k p) \<longleftrightarrow> (case p of GT_head \<Rightarrow> True | GT_next cur \<Rightarrow> lf_node s i cur \<and> lf_key (lf_mem s) cur < k
      | GT_mark cur \<Rightarrow> lf_node s i cur \<and> lf_key (lf_mem s) cur = k)"

text \<open>
  The retired nodes show what has been absent: when a node was unlinked, no node had its key, and none
  a key between it and its successor.
\<close>

definition lf_saw :: "lf_sys \<Rightarrow> tid \<Rightarrow> ptr \<Rightarrow> bool" where
  "lf_saw s i k \<longleftrightarrow> (\<forall>x. guarded_by (lf_grace s) i x \<longrightarrow>
     lf_key (lf_mem s) x = k \<or> lf_key (lf_mem s) x < k \<and> lf_beyond s k (lf_ptr (lf_mem s) x) \<longrightarrow> lf_absent s i)"

definition lf_succ :: "lf_sys \<Rightarrow> ptr \<Rightarrow> tid set \<Rightarrow> bool" where
  "lf_succ s x P \<longleftrightarrow> (case lf_next (lf_mem s) x of (y, marked) \<Rightarrow> marked \<and>
     (y = lf_tail (lf_mem s) \<or> y \<in> set (lf_list s) \<or> (\<exists>Q. lf_grace s y = Some Q \<and> P \<subseteq> Q)))"

definition lf_retired_ok :: "lf_sys \<Rightarrow> bool" where
  "lf_retired_ok s \<longleftrightarrow> (\<forall>x P. lf_grace s x = Some P \<longrightarrow> x \<notin> {NULL, lf_head (lf_mem s), lf_tail (lf_mem s)} \<union> set (lf_list s) \<and>
     P \<subseteq> {j. lf_pcs s j \<noteq> LfIdle} \<and> (P \<noteq> {} \<longrightarrow> lf_succ s x P))"

definition lf_list_ok :: "lf_sys \<Rightarrow> bool" where
  "lf_list_ok s \<longleftrightarrow> segment (lf_ptr (lf_mem s)) (lf_head (lf_mem s)) (lf_head (lf_mem s) # lf_list s) (lf_tail (lf_mem s)) \<and>
     distinct (NULL # lf_tail (lf_mem s) # lf_head (lf_mem s) # lf_list s) \<and> \<not> lf_marked (lf_mem s) (lf_head (lf_mem s)) \<and>
     sorted_wrt (\<lambda>a b. lf_key (lf_mem s) a < lf_key (lf_mem s) b) (lf_list s)"

definition lf_known :: "lf_sys \<Rightarrow> ptr set" where
  "lf_known s = {lf_head (lf_mem s), lf_tail (lf_mem s)} \<union> set (lf_list s) \<union> dom (lf_grace s)"

definition lf_heap :: "lf_sys \<Rightarrow> bool" where
  "lf_heap s \<longleftrightarrow> lf_list_ok s \<and> lf_retired_ok s \<and> owned_ok (lf_own s) (lf_known s)"

definition lf_thread_ok :: "lf_sys \<Rightarrow> tid \<Rightarrow> lf_pc \<Rightarrow> bool" where
  "lf_thread_ok s i p \<longleftrightarrow> lf_pc_ok s i p \<and> (case lf_op_key p of None \<Rightarrow> True | Some k \<Rightarrow> lf_saw s i k)"

definition lf_inv :: "(ptr \<Rightarrow> ptr \<Rightarrow> int) \<Rightarrow> lf_sys \<Rightarrow> bool" where
  "lf_inv cmp s \<longleftrightarrow> lf_cmp_ok cmp \<and> lf_heap s \<and> (\<forall>i. lf_thread_ok s i (lf_pcs s i))"

lemma lf_list_okD:
  assumes "lf_list_ok s"
  shows "segment (lf_ptr (lf_mem s)) (lf_head (lf_mem s)) (lf_head (lf_mem s) # lf_list s) (lf_tail (lf_mem s))"
    "distinct (lf_list s)" "lf_head (lf_mem s) \<notin> set (lf_list s)" "lf_tail (lf_mem s) \<notin> set (lf_list s)" "NULL \<notin> set (lf_list s)"
    "lf_head (lf_mem s) \<noteq> NULL" "lf_tail (lf_mem s) \<noteq> NULL" "lf_tail (lf_mem s) \<noteq> lf_head (lf_mem s)" "\<not> lf_marked (lf_mem s) (lf_head (lf_mem s))"
    "sorted_wrt (\<lambda>a b. lf_key (lf_mem s) a < lf_key (lf_mem s) b) (lf_list s)"
  using assms by (auto simp: lf_list_ok_def)

lemma lf_retiredD:
  assumes "lf_retired_ok s" and "lf_grace s x = Some P"
  shows "x \<noteq> NULL" "x \<noteq> lf_head (lf_mem s)" "x \<noteq> lf_tail (lf_mem s)" "x \<notin> set (lf_list s)" "P \<subseteq> {j. lf_pcs s j \<noteq> LfIdle}" "P \<noteq> {} \<Longrightarrow> lf_succ s x P"
  using assms unfolding lf_retired_ok_def by blast+

lemma lf_heapD: "lf_heap s \<Longrightarrow> lf_list_ok s" "lf_heap s \<Longrightarrow> lf_retired_ok s" "lf_heap s \<Longrightarrow> owned_ok (lf_own s) (lf_known s)"
  by (simp_all add: lf_heap_def)

lemma lf_guardedD:
  assumes h: "lf_heap s" and g: "guarded_by (lf_grace s) i x"
  shows "lf_marked (lf_mem s) x" "lf_ptr (lf_mem s) x \<noteq> lf_tail (lf_mem s) \<Longrightarrow> lf_node s i (lf_ptr (lf_mem s) x)"
    "x \<noteq> lf_head (lf_mem s)" "x \<notin> set (lf_list s)" "x \<noteq> lf_tail (lf_mem s)" "x \<noteq> NULL" "lf_pcs s i \<noteq> LfIdle"
proof -
  obtain P where P: "lf_grace s x = Some P" "i \<in> P" using g by (auto simp: guarded_by_def)
  note r = lf_retiredD [OF lf_heapD(2) [OF h] P(1)]
  have "lf_succ s x P" using r(6) P(2) by auto
  then show "lf_marked (lf_mem s) x" "lf_ptr (lf_mem s) x \<noteq> lf_tail (lf_mem s) \<Longrightarrow> lf_node s i (lf_ptr (lf_mem s) x)"
    using P(2) by (auto simp: lf_succ_def lf_node_def guarded_by_def split: prod.splits)
  show "x \<noteq> lf_head (lf_mem s)" "x \<notin> set (lf_list s)" "x \<noteq> lf_tail (lf_mem s)" "x \<noteq> NULL" "lf_pcs s i \<noteq> LfIdle" using r(1-5) P(2) by auto
qed

lemma lf_nodeD:
  assumes h: "lf_heap s" and g: "lf_node s i x"
  shows "x \<noteq> lf_head (lf_mem s)" "x \<noteq> lf_tail (lf_mem s)" "x \<noteq> NULL" "x \<in> lf_known s" "\<not> lf_marked (lf_mem s) x \<Longrightarrow> x \<in> set (lf_list s)"
  using g lf_list_okD [OF lf_heapD(1) [OF h]] lf_guardedD [OF h, of i x] by (auto simp: lf_node_def lf_known_def dest: guarded_by_dom)

text \<open>The list around a node.\<close>

lemma lf_split:
  assumes h: "lf_heap s" and x: "x = lf_head (lf_mem s) \<or> x \<in> set (lf_list s)"
  obtains xs ys where "lf_list s = xs @ ys" "last (lf_head (lf_mem s) # xs) = x" "lf_ptr (lf_mem s) x = hd (ys @ [lf_tail (lf_mem s)])"
    "segment (lf_ptr (lf_mem s)) (lf_head (lf_mem s)) (lf_head (lf_mem s) # xs) (hd (ys @ [lf_tail (lf_mem s)]))"
    "segment (lf_ptr (lf_mem s)) (hd (ys @ [lf_tail (lf_mem s)])) ys (lf_tail (lf_mem s))"
proof -
  note l = lf_list_okD [OF lf_heapD(1) [OF h]]
  obtain us ys where u: "lf_head (lf_mem s) # lf_list s = us @ x # ys" using x by (metis list.set_intros(1) set_ConsD split_list list.set_intros(2))
  then obtain xs where xs: "us @ [x] = lf_head (lf_mem s) # xs" by (cases us) auto
  then have "(lf_head (lf_mem s) # xs) @ ys = lf_head (lf_mem s) # lf_list s" using u by (metis append.assoc append_Cons append_Nil)
  then have e: "lf_list s = xs @ ys" by simp
  have sg: "segment (lf_ptr (lf_mem s)) (lf_head (lf_mem s)) us x" "segment (lf_ptr (lf_mem s)) (lf_ptr (lf_mem s) x) ys (lf_tail (lf_mem s))"
    using l(1) unfolding u segment_append by auto
  have "lf_ptr (lf_mem s) x = hd (ys @ [lf_tail (lf_mem s)])" using segment_first [OF sg(2)] .
  moreover have "segment (lf_ptr (lf_mem s)) (lf_head (lf_mem s)) (us @ [x]) (lf_ptr (lf_mem s) x)" using sg(1) by (auto simp: segment_append)
  ultimately show ?thesis using that [OF e] sg(2) xs last_snoc [of us x] by (metis (no_types))
qed

lemma lf_sides:
  assumes h: "lf_heap s" and e: "lf_list s = xs @ ys"
  shows "xs = [] \<or> lf_key (lf_mem s) (last xs) < k \<Longrightarrow> z \<in> set xs \<Longrightarrow> lf_key (lf_mem s) z < k"
    and "ys = [] \<or> k < lf_key (lf_mem s) (hd ys) \<Longrightarrow> z \<in> set ys \<Longrightarrow> k < lf_key (lf_mem s) z"
proof -
  have srt: "sorted_wrt (\<lambda>a b. lf_key (lf_mem s) a < lf_key (lf_mem s) b) (xs @ ys)" using lf_list_okD(10) [OF lf_heapD(1) [OF h]] e by simp
  show "lf_key (lf_mem s) z < k" if "xs = [] \<or> lf_key (lf_mem s) (last xs) < k" "z \<in> set xs"
  proof -
    obtain us v where "xs = us @ [v]" using \<open>z \<in> set xs\<close> by (cases xs rule: rev_cases) auto
    then show ?thesis using that srt by (auto simp: sorted_wrt_append)
  qed
  show "k < lf_key (lf_mem s) z" if "ys = [] \<or> k < lf_key (lf_mem s) (hd ys)" "z \<in> set ys" using srt that by (cases ys) (auto simp: sorted_wrt_append)
qed

lemma lf_absentI:
  assumes h: "lf_heap s" and e: "lf_list s = xs @ ys" and "xs = [] \<or> lf_key (lf_mem s) (last xs) < k" "ys = [] \<or> k < lf_key (lf_mem s) (hd ys)"
  shows "lf_map s k = None"
proof -
  have "lf_key (lf_mem s) z \<noteq> k" if "z \<in> set (lf_list s)" for z
    using that lf_sides(1) [OF h e assms(3), of z] lf_sides(2) [OF h e assms(4), of z] unfolding e by auto
  then show ?thesis by (auto simp: lf_map_def find_None_iff)
qed

text \<open>A node before a key whose mark is not set is in the list, and so is the place for the key.\<close>

lemma lf_place:
  assumes h: "lf_heap s" and p: "lf_before s i k pred" "\<not> lf_marked (lf_mem s) pred"
  obtains xs ys where "lf_list s = xs @ ys" "last (lf_head (lf_mem s) # xs) = pred" "lf_ptr (lf_mem s) pred = hd (ys @ [lf_tail (lf_mem s)])"
    "segment (lf_ptr (lf_mem s)) (lf_head (lf_mem s)) (lf_head (lf_mem s) # xs) (hd (ys @ [lf_tail (lf_mem s)]))"
    "segment (lf_ptr (lf_mem s)) (hd (ys @ [lf_tail (lf_mem s)])) ys (lf_tail (lf_mem s))" "xs = [] \<or> lf_key (lf_mem s) (last xs) < k"
proof -
  have "pred = lf_head (lf_mem s) \<or> pred \<in> set (lf_list s)" using p lf_nodeD(5) [OF h] by (auto simp: lf_before_def)
  then obtain xs ys where e: "lf_list s = xs @ ys" "last (lf_head (lf_mem s) # xs) = pred" "lf_ptr (lf_mem s) pred = hd (ys @ [lf_tail (lf_mem s)])"
    "segment (lf_ptr (lf_mem s)) (lf_head (lf_mem s)) (lf_head (lf_mem s) # xs) (hd (ys @ [lf_tail (lf_mem s)]))"
    "segment (lf_ptr (lf_mem s)) (hd (ys @ [lf_tail (lf_mem s)])) ys (lf_tail (lf_mem s))" using lf_split [OF h] by metis
  have "lf_key (lf_mem s) (last xs) < k" if "xs \<noteq> []"
  proof -
    have "pred \<in> set (lf_list s)" using e(1,2) that by auto
    then have "pred \<noteq> lf_head (lf_mem s)" using lf_list_okD(3) [OF lf_heapD(1) [OF h]] by auto
    then show ?thesis using p(1) e(2) that by (simp add: lf_before_def)
  qed
  then show ?thesis using that e by blast
qed

lemma lf_place_absent:
  assumes h: "lf_heap s" and p: "lf_before s i k pred" "\<not> lf_marked (lf_mem s) pred" and b: "lf_beyond s k (lf_ptr (lf_mem s) pred)"
  shows "lf_map s k = None"
proof -
  obtain xs ys where e: "lf_list s = xs @ ys" "lf_ptr (lf_mem s) pred = hd (ys @ [lf_tail (lf_mem s)])" "xs = [] \<or> lf_key (lf_mem s) (last xs) < k"
    using lf_place [OF h p] by metis
  have "ys = [] \<or> k < lf_key (lf_mem s) (hd ys)" using b e(1,2) lf_list_okD(4) [OF lf_heapD(1) [OF h]] by (cases ys) (auto simp: lf_beyond_def)
  then show ?thesis using lf_absentI [OF h e(1) e(3)] by blast
qed

lemma lf_map_Some:
  assumes "lf_list_ok s"
  shows "lf_map s k = Some n \<longleftrightarrow> n \<in> set (lf_list s) \<and> lf_key (lf_mem s) n = k \<and> \<not> lf_marked (lf_mem s) n"
proof -
  have srt: "sorted_wrt (\<lambda>a b. lf_key (lf_mem s) a < lf_key (lf_mem s) b) (lf_list s)" using lf_list_okD(10) [OF assms] .
  have uniq: "a = b" if "a \<in> set (lf_list s)" "b \<in> set (lf_list s)" "lf_key (lf_mem s) a = lf_key (lf_mem s) b" for a b
    using srt that by (metis in_set_conv_nth less_irrefl linorder_cases sorted_wrt_iff_nth_less)
  show ?thesis
  proof
    assume "lf_map s k = Some n"
    then show "n \<in> set (lf_list s) \<and> lf_key (lf_mem s) n = k \<and> \<not> lf_marked (lf_mem s) n"
      unfolding lf_map_def find_Some_iff by auto
  next
    assume n: "n \<in> set (lf_list s) \<and> lf_key (lf_mem s) n = k \<and> \<not> lf_marked (lf_mem s) n"
    then have "lf_map s k \<noteq> None" by (auto simp: lf_map_def find_None_iff)
    then obtain a where "lf_map s k = Some a" by auto
    moreover from this have "a \<in> set (lf_list s) \<and> lf_key (lf_mem s) a = k" unfolding lf_map_def find_Some_iff by auto
    ultimately show "lf_map s k = Some n" using n uniq by metis
  qed
qed

section \<open>What the steps of the other threads keep\<close>

definition lf_keeps :: "tid \<Rightarrow> lf_sys \<Rightarrow> lf_sys \<Rightarrow> bool" where
  "lf_keeps j s t \<longleftrightarrow> lf_head (lf_mem t) = lf_head (lf_mem s) \<and> lf_tail (lf_mem t) = lf_tail (lf_mem s) \<and>
     (\<forall>x\<in>lf_own s j. x \<in> lf_own t j \<and> lf_next (lf_mem t) x = lf_next (lf_mem s) x \<and> lf_key (lf_mem t) x = lf_key (lf_mem s) x) \<and>
     (\<forall>x. lf_node s j x \<longrightarrow> lf_node t j x \<and> lf_key (lf_mem t) x = lf_key (lf_mem s) x \<and>
       (lf_marked (lf_mem s) x \<longrightarrow> lf_next (lf_mem t) x = lf_next (lf_mem s) x)) \<and>
     (lf_absent s j \<longrightarrow> lf_absent t j)"

lemma lf_keepsD:
  assumes k: "lf_keeps j s t"
  shows "lf_head (lf_mem t) = lf_head (lf_mem s)" "lf_tail (lf_mem t) = lf_tail (lf_mem s)"
    "x \<in> lf_own s j \<Longrightarrow> x \<in> lf_own t j" "x \<in> lf_own s j \<Longrightarrow> lf_next (lf_mem t) x = lf_next (lf_mem s) x"
    "x \<in> lf_own s j \<Longrightarrow> lf_key (lf_mem t) x = lf_key (lf_mem s) x" "lf_node s j x \<Longrightarrow> lf_node t j x"
    "lf_node s j x \<Longrightarrow> lf_key (lf_mem t) x = lf_key (lf_mem s) x"
    "lf_node s j x \<Longrightarrow> lf_marked (lf_mem s) x \<Longrightarrow> lf_next (lf_mem t) x = lf_next (lf_mem s) x" "lf_absent s j \<Longrightarrow> lf_absent t j"
  using assms unfolding lf_keeps_def by simp_all

lemma lf_before_keeps: "lf_keeps j s t \<Longrightarrow> lf_before s j k x \<Longrightarrow> lf_before t j k x"
  by (auto simp: lf_before_def lf_keepsD)

lemma lf_beyond_keeps: "lf_keeps j s t \<Longrightarrow> lf_node s j x \<Longrightarrow> lf_beyond t k x \<longleftrightarrow> lf_beyond s k x"
  by (auto simp: lf_beyond_def lf_keepsD)

lemma lf_find_ok_keeps: "lf_keeps j s t \<Longrightarrow> lf_find_ok s j k f \<Longrightarrow> lf_find_ok t j k f"
  by (cases f) (auto simp: lf_keepsD lf_before_keeps lf_beyond_keeps)

lemma lf_pc_ok_keeps:
  assumes k: "lf_keeps j s t" and ok: "lf_pc_ok s j p"
  shows "lf_pc_ok t j p"
proof (cases p)
  case (LfAdd k n q)
  then show ?thesis using assms by (cases q) (auto simp: lf_keepsD lf_before_keeps lf_find_ok_keeps)
next
  case (LfRemove k q)
  then show ?thesis using assms by (cases q) (auto simp: lf_keepsD lf_before_keeps lf_find_ok_keeps)
next
  case (LfGet k q)
  then show ?thesis using assms by (cases q) (auto simp: lf_keepsD)
qed simp

text \<open>A step that retires nothing keeps what the retired nodes show.\<close>

lemma lf_saw_keeps:
  assumes h: "lf_heap s" and k: "lf_keeps j s t" and g: "\<And>x. guarded_by (lf_grace t) j x \<Longrightarrow> guarded_by (lf_grace s) j x" and w: "lf_saw s j k"
  shows "lf_saw t j k"
  unfolding lf_saw_def
proof (intro allI impI)
  fix x assume gx: "guarded_by (lf_grace t) j x" and x: "lf_key (lf_mem t) x = k \<or> lf_key (lf_mem t) x < k \<and> lf_beyond t k (lf_ptr (lf_mem t) x)"
  note gs = g [OF gx]
  have nx: "lf_node s j x" using gs by (simp add: lf_node_def)
  have e: "lf_key (lf_mem t) x = lf_key (lf_mem s) x" "lf_next (lf_mem t) x = lf_next (lf_mem s) x"
    using lf_keepsD(7,8) [OF k nx] lf_guardedD(1) [OF h gs] by simp_all
  have "lf_beyond t k (lf_ptr (lf_mem s) x) = lf_beyond s k (lf_ptr (lf_mem s) x)"
    using lf_guardedD(2) [OF h gs] lf_beyond_keeps [OF k] lf_keepsD(2) [OF k] by (cases "lf_ptr (lf_mem s) x = lf_tail (lf_mem s)") (auto simp: lf_beyond_def)
  then show "lf_absent t j" using w gs x e lf_keepsD(9) [OF k] unfolding lf_saw_def by metis
qed

section \<open>Moving between control points\<close>

lemma lf_observe_sel [simp]:
  "lf_mem (lf_observe s) = lf_mem s" "lf_pcs (lf_observe s) = lf_pcs s" "lf_own (lf_observe s) = lf_own s" "lf_grace (lf_observe s) = lf_grace s"
  "lf_list (lf_observe s) = lf_list s"
  by (simp_all add: lf_observe_def)

lemma lf_map_observe [simp]: "lf_map (lf_observe s) = lf_map s"
  by (simp add: lf_map_def fun_eq_iff)

lemma lf_absent_observe: "lf_absent (lf_observe s) j \<longleftrightarrow> lf_absent s j \<or> (\<exists>k. lf_op_key (lf_pcs s j) = Some k \<and> lf_map s k = None)"
  "lf_present (lf_observe s) j \<longleftrightarrow> lf_present s j \<or> (\<exists>k. lf_op_key (lf_pcs s j) = Some k \<and> lf_map s k \<noteq> None)"
  by (auto simp: lf_observe_def split: option.splits)

lemma lf_moves_sel [simp]:
  "lf_mem (lf_moves i m p s) = m" "lf_pcs (lf_moves i m p s) = (lf_pcs s)(i := p)" "lf_own (lf_moves i m p s) = lf_own s"
  "lf_list (lf_moves i m p s) = lf_list s" "lf_absent (lf_moves i m p s) = lf_absent s" "lf_present (lf_moves i m p s) = lf_present s"
  "lf_grace (lf_moves i m p s) = (if p = LfIdle then grace_leave i (lf_grace s) else lf_grace s)"
  by (simp_all add: lf_moves_def)

lemma lf_moves_mem [simp]: "lf_moves i m p (s\<lparr>lf_mem := m'\<rparr>) = lf_moves i m p s"
  by (cases "p = LfIdle") (simp_all add: lf_moves_def)

abbreviation lf_to :: "tid \<Rightarrow> lf_pc \<Rightarrow> lf_sys \<Rightarrow> lf_sys" where
  "lf_to i p s \<equiv> lf_observe (lf_moves i (lf_mem s) p s)"

lemma lf_keeps_to: "p \<noteq> LfIdle \<or> j \<noteq> i \<Longrightarrow> lf_keeps j s (lf_to i p s)"
  by (auto simp: lf_keeps_def lf_node_def lf_absent_observe)

lemma lf_map_to [simp]: "lf_map (lf_moves i (lf_mem s) p s) = lf_map s"
  by (simp add: lf_map_def fun_eq_iff)

lemma lf_heap_to:
  assumes h: "lf_heap s"
  shows "lf_heap (lf_to i p s)"
proof -
  let ?t = "lf_to i p s"
  have "lf_retired_ok ?t" unfolding lf_retired_ok_def
  proof (intro allI impI)
    fix x P' assume g: "lf_grace ?t x = Some P'"
    then obtain P where P: "lf_grace s x = Some P" "P' = (if p = LfIdle then P - {i} else P)" by (auto simp: grace_leave_def split: if_splits)
    note q = lf_retiredD [OF lf_heapD(2) [OF h] P(1)]
    have "lf_succ ?t x P'" if "P' \<noteq> {}"
    proof -
      have "lf_succ s x P" using q(6) P(2) that by (auto split: if_splits)
      then show ?thesis using P(2) by (auto simp: lf_succ_def grace_leave_def split: prod.splits)
    qed
    moreover have "P' \<subseteq> {j. lf_pcs ?t j \<noteq> LfIdle}" using q(5) P(2) by (auto split: if_splits)
    ultimately show "x \<notin> {NULL, lf_head (lf_mem ?t), lf_tail (lf_mem ?t)} \<union> set (lf_list ?t) \<and>
        P' \<subseteq> {j. lf_pcs ?t j \<noteq> LfIdle} \<and> (P' \<noteq> {} \<longrightarrow> lf_succ ?t x P')"
      using q(1-4) by simp
  qed
  moreover have "lf_list_ok ?t = lf_list_ok s" "lf_known ?t = lf_known s" by (simp_all add: lf_list_ok_def lf_known_def)
  ultimately show ?thesis using h by (simp add: lf_heap_def)
qed

text \<open>
  The state after a change of the memory and the auxiliary variables, and then of the control point of thread \<open>i\<close>.
\<close>

lemma lf_inv_to:
  assumes inv: "lf_inv cmp s" and h: "lf_heap t" and pcs: "lf_pcs t = lf_pcs s"
    and k: "\<And>j. j \<noteq> i \<Longrightarrow> lf_pcs s j \<noteq> LfIdle \<Longrightarrow> lf_keeps j s t"
    and w: "\<And>j k. lf_op_key (((lf_pcs s)(i := p)) j) = Some k \<Longrightarrow> lf_saw (lf_to i p t) j k"
    and ok: "lf_pc_ok (lf_to i p t) i p"
  shows "lf_inv cmp (lf_to i p t)"
proof -
  have "lf_pc_ok (lf_to i p t) j (lf_pcs s j)" if j: "j \<noteq> i" for j
  proof (cases "lf_pcs s j = LfIdle")
    case False
    have "lf_pc_ok s j (lf_pcs s j)" using inv by (simp add: lf_inv_def lf_thread_ok_def)
    then show ?thesis using lf_pc_ok_keeps [OF lf_keeps_to lf_pc_ok_keeps [OF k [OF j False]]] j by blast
  qed simp
  then have "lf_thread_ok (lf_to i p t) j (((lf_pcs s)(i := p)) j)" for j
    using ok w [of j] by (cases "j = i") (auto simp: lf_thread_ok_def split: option.splits)
  then show ?thesis using inv lf_heap_to [OF h] pcs by (simp add: lf_inv_def)
qed

lemma lf_saw_to:
  assumes h: "lf_heap t" and p: "p \<noteq> LfIdle \<or> j \<noteq> i" and w: "lf_saw t j k"
  shows "lf_saw (lf_to i p t) j k"
  by (rule lf_saw_keeps [OF h lf_keeps_to [OF p] _ w]) (auto split: if_splits)

lemma lf_invD:
  assumes "lf_inv cmp s"
  shows "lf_cmp_ok cmp" "lf_heap s" "lf_pcs s i = p \<Longrightarrow> lf_pc_ok s i p" "lf_op_key (lf_pcs s i) = Some k \<Longrightarrow> lf_saw s i k"
  using assms by (auto simp: lf_inv_def lf_thread_ok_def dest: spec [of _ i] split: option.splits)

text \<open>A step of an operation with key \<open>k\<close> that retires nothing.\<close>

lemma lf_inv_unretired:
  assumes inv: "lf_inv cmp s" and h: "lf_heap t" and pcs: "lf_pcs t = lf_pcs s" and g: "lf_grace t = lf_grace s"
    and k: "\<And>j. j \<noteq> i \<Longrightarrow> lf_pcs s j \<noteq> LfIdle \<Longrightarrow> lf_keeps j s t"
    and ki: "\<And>k. lf_op_key p = Some k \<Longrightarrow> lf_op_key (lf_pcs s i) = Some k \<and> lf_saw t i k"
    and ok: "lf_pc_ok (lf_to i p t) i p"
  shows "lf_inv cmp (lf_to i p t)"
proof (rule lf_inv_to [OF inv h pcs k _ ok])
  fix j k assume j: "lf_op_key (((lf_pcs s)(i := p)) j) = Some k"
  show "lf_saw (lf_to i p t) j k"
  proof (cases "j = i")
    case True
    then have "p \<noteq> LfIdle" "lf_saw t i k" using j ki by auto
    then show ?thesis using lf_saw_to [OF h] True by blast
  next
    case False
    then have "lf_op_key (lf_pcs s j) = Some k" "lf_pcs s j \<noteq> LfIdle" using j by auto
    then have "lf_saw t j k" using lf_saw_keeps [OF lf_invD(2) [OF inv] k [OF False] _ lf_invD(4) [OF inv]] g by simp
    then show ?thesis using lf_saw_to [OF h] False by blast
  qed
qed

lemma lf_inv_quiet:
  assumes inv: "lf_inv cmp s" and ki: "\<And>k. lf_op_key p = Some k \<Longrightarrow> lf_op_key (lf_pcs s i) = Some k" and ok: "lf_pc_ok (lf_to i p s) i p"
  shows "lf_inv cmp (lf_to i p s)"
proof -
  have "lf_keeps j s s" for j by (simp add: lf_keeps_def)
  then show ?thesis using lf_inv_unretired [OF inv lf_invD(2) [OF inv] refl refl _ _ ok] ki lf_invD(4) [OF inv] by blast
qed

section \<open>The memory changes\<close>

lemma lf_list_ok_cong:
  assumes "lf_head m = lf_head (lf_mem s)" "lf_tail m = lf_tail (lf_mem s)"
    and "\<And>x. x = lf_head (lf_mem s) \<or> x \<in> set (lf_list s) \<Longrightarrow> lf_ptr m x = lf_ptr (lf_mem s) x \<and> lf_key m x = lf_key (lf_mem s) x"
    and "lf_marked m (lf_head (lf_mem s)) = lf_marked (lf_mem s) (lf_head (lf_mem s))"
  shows "lf_list_ok (s\<lparr>lf_mem := m\<rparr>) \<longleftrightarrow> lf_list_ok s"
proof -
  have sg: "segment f p xs e = segment g p xs e" if "\<And>x. x \<in> set xs \<Longrightarrow> f x = g x" for f g :: "ptr \<Rightarrow> ptr" and p xs e
    using that by (induction xs arbitrary: p) auto
  have st: "sorted_wrt (\<lambda>a b. f a < f b) xs = sorted_wrt (\<lambda>a b. g a < g b) xs" if "\<And>x. x \<in> set xs \<Longrightarrow> f x = g x" for f g :: "ptr \<Rightarrow> ptr" and xs
    using that by (induction xs) auto
  have "segment (lf_ptr m) (lf_ptr (lf_mem s) (lf_head (lf_mem s))) (lf_list s) (lf_tail (lf_mem s)) =
      segment (lf_ptr (lf_mem s)) (lf_ptr (lf_mem s) (lf_head (lf_mem s))) (lf_list s) (lf_tail (lf_mem s))" using assms(3) by (intro sg) auto
  moreover have "sorted_wrt (\<lambda>a b. lf_key m a < lf_key m b) (lf_list s) = sorted_wrt (\<lambda>a b. lf_key (lf_mem s) a < lf_key (lf_mem s) b) (lf_list s)"
    using assms(3) by (intro st) auto
  ultimately show ?thesis using assms by (simp add: lf_list_ok_def)
qed

lemma lf_heap_mem:
  assumes h: "lf_heap s" and hd: "lf_head m = lf_head (lf_mem s)" "lf_tail m = lf_tail (lf_mem s)"
    and ptr: "\<And>x. x \<in> lf_known s \<Longrightarrow> lf_ptr m x = lf_ptr (lf_mem s) x \<and> lf_key m x = lf_key (lf_mem s) x"
    and mark: "\<And>x. x \<in> lf_known s \<Longrightarrow> x \<notin> set (lf_list s) \<Longrightarrow> lf_marked m x = lf_marked (lf_mem s) x"
  shows "lf_heap (s\<lparr>lf_mem := m\<rparr>)"
proof -
  have "lf_head (lf_mem s) \<in> lf_known s" by (simp add: lf_known_def)
  then have "lf_list_ok (s\<lparr>lf_mem := m\<rparr>)"
    using lf_list_ok_cong [OF hd] ptr mark lf_heapD(1) [OF h] lf_list_okD(3) [OF lf_heapD(1) [OF h]] by (auto simp: lf_known_def)
  moreover have "lf_retired_ok (s\<lparr>lf_mem := m\<rparr>)" unfolding lf_retired_ok_def
  proof (intro allI impI)
    fix x P assume "lf_grace (s\<lparr>lf_mem := m\<rparr>) x = Some P"
    then have g: "lf_grace s x = Some P" by simp
    note r = lf_retiredD [OF lf_heapD(2) [OF h] g]
    have "x \<in> lf_known s" using g by (auto simp: lf_known_def)
    then have "lf_next m x = lf_next (lf_mem s) x" using ptr mark r(4) by (simp add: prod_eq_iff)
    then show "x \<notin> {NULL, lf_head (lf_mem (s\<lparr>lf_mem := m\<rparr>)), lf_tail (lf_mem (s\<lparr>lf_mem := m\<rparr>))} \<union> set (lf_list (s\<lparr>lf_mem := m\<rparr>)) \<and>
        P \<subseteq> {j. lf_pcs (s\<lparr>lf_mem := m\<rparr>) j \<noteq> LfIdle} \<and> (P \<noteq> {} \<longrightarrow> lf_succ (s\<lparr>lf_mem := m\<rparr>) x P)"
      using r hd by (simp add: lf_succ_def)
  qed
  ultimately show ?thesis using lf_heapD(3) [OF h] hd by (simp add: lf_heap_def lf_known_def)
qed

lemma lf_keeps_mem:
  assumes "lf_head m = lf_head (lf_mem s)" "lf_tail m = lf_tail (lf_mem s)"
    and "\<And>x. x \<in> lf_own s j \<Longrightarrow> lf_next m x = lf_next (lf_mem s) x \<and> lf_key m x = lf_key (lf_mem s) x"
    and "\<And>x. lf_node s j x \<Longrightarrow> lf_key m x = lf_key (lf_mem s) x \<and> (lf_marked (lf_mem s) x \<longrightarrow> lf_next m x = lf_next (lf_mem s) x)"
  shows "lf_keeps j s (s\<lparr>lf_mem := m\<rparr>)"
  using assms by (simp add: lf_keeps_def lf_node_def)

text \<open>A thread writes a node of its own.\<close>

lemma lf_own_write:
  assumes inv: "lf_inv cmp s" and n: "n \<in> lf_own s i" and hd: "lf_head m = lf_head (lf_mem s)" "lf_tail m = lf_tail (lf_mem s)"
    and eq: "\<And>x. x \<noteq> n \<Longrightarrow> lf_next m x = lf_next (lf_mem s) x \<and> lf_key m x = lf_key (lf_mem s) x"
  shows "lf_heap (s\<lparr>lf_mem := m\<rparr>)" "j \<noteq> i \<Longrightarrow> lf_keeps j s (s\<lparr>lf_mem := m\<rparr>)" "lf_saw s i k \<Longrightarrow> lf_saw (s\<lparr>lf_mem := m\<rparr>) i k"
    "lf_node s j x \<Longrightarrow> x \<noteq> n"
proof -
  have h: "lf_heap s" using lf_invD(2) [OF inv] .
  note own = owned_okD [OF lf_heapD(3) [OF h] n]
  show nn: "lf_node s j x \<Longrightarrow> x \<noteq> n" for j x using lf_nodeD(4) [OF h] own(2) by blast
  have known: "x \<noteq> n" if "x \<in> lf_known s" for x using that own(2) by blast
  show "lf_heap (s\<lparr>lf_mem := m\<rparr>)" using eq known by (intro lf_heap_mem [OF h hd]) auto
  show "j \<noteq> i \<Longrightarrow> lf_keeps j s (s\<lparr>lf_mem := m\<rparr>)" using eq nn own(3) by (intro lf_keeps_mem [OF hd]) metis+
  have g: "lf_key m x = lf_key (lf_mem s) x" "lf_next m x = lf_next (lf_mem s) x" "lf_beyond (s\<lparr>lf_mem := m\<rparr>) k (lf_ptr (lf_mem s) x) = lf_beyond s k (lf_ptr (lf_mem s) x)"
    if "guarded_by (lf_grace s) i x" for x
  proof -
    have x: "x \<noteq> n" using nn that by (auto simp: lf_node_def)
    then show "lf_key m x = lf_key (lf_mem s) x" "lf_next m x = lf_next (lf_mem s) x" using eq by auto
    show "lf_beyond (s\<lparr>lf_mem := m\<rparr>) k (lf_ptr (lf_mem s) x) = lf_beyond s k (lf_ptr (lf_mem s) x)"
    proof (cases "lf_ptr (lf_mem s) x = lf_tail (lf_mem s)")
      case False
      then have "lf_ptr (lf_mem s) x \<noteq> n" using lf_guardedD(2) [OF h that] nn by blast
      then show ?thesis using eq hd by (simp add: lf_beyond_def)
    qed (use hd in \<open>simp add: lf_beyond_def\<close>)
  qed
  then show "lf_saw s i k \<Longrightarrow> lf_saw (s\<lparr>lf_mem := m\<rparr>) i k" by (simp add: lf_saw_def)
qed

lemma lf_inv_own:
  assumes inv: "lf_inv cmp s" and n: "n \<in> lf_own s i" and hd: "lf_head m = lf_head (lf_mem s)" "lf_tail m = lf_tail (lf_mem s)"
    and eq: "\<And>x. x \<noteq> n \<Longrightarrow> lf_next m x = lf_next (lf_mem s) x \<and> lf_key m x = lf_key (lf_mem s) x"
    and ki: "\<And>k. lf_op_key p = Some k \<Longrightarrow> lf_op_key (lf_pcs s i) = Some k" and ok: "lf_pc_ok (lf_observe (lf_moves i m p s)) i p"
  shows "lf_inv cmp (lf_observe (lf_moves i m p s))"
proof -
  note w = lf_own_write [OF inv n hd eq]
  have "lf_inv cmp (lf_to i p (s\<lparr>lf_mem := m\<rparr>))"
    using w ki ok lf_invD(4) [OF inv] by (intro lf_inv_unretired [OF inv]) auto
  then show ?thesis by simp
qed

text \<open>A node in the list is marked.\<close>

definition lf_mark :: "ptr \<Rightarrow> lf_sys \<Rightarrow> lf_sys" where
  "lf_mark x s = s\<lparr>lf_mem := (lf_mem s)\<lparr>lf_next := (lf_next (lf_mem s))(x := (lf_ptr (lf_mem s) x, True))\<rparr>\<rparr>"

lemma lf_mark_step:
  assumes h: "lf_heap s" and x: "lf_node s i x" "\<not> lf_marked (lf_mem s) x"
  shows "lf_heap (lf_mark x s)" "lf_keeps j s (lf_mark x s)" "lf_map (lf_mark x s) = (lf_map s)(lf_key (lf_mem s) x := None)"
    "lf_map s (lf_key (lf_mem s) x) = Some x"
proof -
  have xl: "x \<in> set (lf_list s)" using lf_nodeD(5) [OF h x(1)] x(2) by blast
  show hp: "lf_heap (lf_mark x s)" unfolding lf_mark_def using xl by (intro lf_heap_mem [OF h]) auto
  have "x \<notin> lf_own s j" using owned_okD(2) [OF lf_heapD(3) [OF h]] lf_nodeD(4) [OF h x(1)] by blast
  then show "lf_keeps j s (lf_mark x s)" unfolding lf_mark_def using x(2) by (intro lf_keeps_mem) auto
  show sx: "lf_map s (lf_key (lf_mem s) x) = Some x" using xl x(2) lf_map_Some [OF lf_heapD(1) [OF h]] by blast
  show "lf_map (lf_mark x s) = (lf_map s)(lf_key (lf_mem s) x := None)"
  proof (rule map_eqI)
    fix k n
    have "lf_map (lf_mark x s) k = Some n \<longleftrightarrow> lf_map s k = Some n \<and> n \<noteq> x"
      unfolding lf_map_Some [OF lf_heapD(1) [OF hp]] lf_map_Some [OF lf_heapD(1) [OF h]] by (auto simp: lf_mark_def)
    moreover have "n = x \<Longrightarrow> lf_map s k = Some n \<Longrightarrow> k = lf_key (lf_mem s) x" unfolding lf_map_Some [OF lf_heapD(1) [OF h]] by simp
    ultimately show "lf_map (lf_mark x s) k = Some n \<longleftrightarrow> ((lf_map s)(lf_key (lf_mem s) x := None)) k = Some n" using sx by auto
  qed
qed

text \<open>A node is linked behind \<open>pred\<close>.\<close>

definition lf_link :: "tid \<Rightarrow> ptr \<Rightarrow> ptr \<Rightarrow> ptr \<Rightarrow> lf_sys \<Rightarrow> lf_sys" where
  "lf_link i k n pred s = (lf_linked i k n s)\<lparr>lf_mem := (lf_mem s)\<lparr>lf_next := (lf_next (lf_mem s))(pred := (n, False))\<rparr>\<rparr>"

lemma lf_link_sel [simp]:
  "lf_mem (lf_link i k n pred s) = (lf_mem s)\<lparr>lf_next := (lf_next (lf_mem s))(pred := (n, False))\<rparr>" "lf_pcs (lf_link i k n pred s) = lf_pcs s"
  "lf_own (lf_link i k n pred s) = (lf_own s)(i := lf_own s i - {n})" "lf_grace (lf_link i k n pred s) = lf_grace s"
  "lf_list (lf_link i k n pred s) = takeWhile (\<lambda>x. lf_key (lf_mem s) x < k) (lf_list s) @ n # dropWhile (\<lambda>x. lf_key (lf_mem s) x < k) (lf_list s)"
  "lf_absent (lf_link i k n pred s) = lf_absent s" "lf_present (lf_link i k n pred s) = lf_present s"
  by (simp_all add: lf_link_def lf_linked_def)

lemma lf_link_list:
  assumes h: "lf_heap s" and n: "n \<in> lf_own s i" "lf_key (lf_mem s) n = k" "lf_next (lf_mem s) n = (cur, False)"
    and p: "lf_before s i k pred" "lf_next (lf_mem s) pred = (cur, False)" and c: "lf_beyond s k cur"
  obtains xs ys where "lf_list s = xs @ ys" "lf_list (lf_link i k n pred s) = xs @ n # ys" "lf_list_ok (lf_link i k n pred s)"
    "pred = lf_head (lf_mem s) \<or> pred \<in> set xs"
proof -
  note l = lf_list_okD [OF lf_heapD(1) [OF h]]
  obtain xs ys where e: "lf_list s = xs @ ys" "last (lf_head (lf_mem s) # xs) = pred" "lf_ptr (lf_mem s) pred = hd (ys @ [lf_tail (lf_mem s)])"
    "segment (lf_ptr (lf_mem s)) (lf_head (lf_mem s)) (lf_head (lf_mem s) # xs) (hd (ys @ [lf_tail (lf_mem s)]))"
    "segment (lf_ptr (lf_mem s)) (hd (ys @ [lf_tail (lf_mem s)])) ys (lf_tail (lf_mem s))" "xs = [] \<or> lf_key (lf_mem s) (last xs) < k"
    using lf_place [OF h p(1)] p(2) by (metis snd_conv)
  have cur: "cur = hd (ys @ [lf_tail (lf_mem s)])" using e(3) p(2) by simp
  then have y: "ys = [] \<or> k < lf_key (lf_mem s) (hd ys)" using c e(1) l(4) by (cases ys) (auto simp: lf_beyond_def)
  have lo: "lf_key (lf_mem s) z < k" if "z \<in> set xs" for z using lf_sides(1) [OF h e(1,6) that] .
  have hi: "k < lf_key (lf_mem s) z" if "z \<in> set ys" for z using lf_sides(2) [OF h e(1) y that] .
  then have "\<not> lf_key (lf_mem s) z < k" if "z \<in> set ys" for z using that by (meson less_asym)
  then have "takeWhile (\<lambda>x. lf_key (lf_mem s) x < k) ys = []" "dropWhile (\<lambda>x. lf_key (lf_mem s) x < k) ys = ys" by (cases ys; simp)+
  then have L: "lf_list (lf_link i k n pred s) = xs @ n # ys" using lo e(1) by (simp add: takeWhile_append2 dropWhile_append2)
  have new: "n \<notin> {NULL, lf_head (lf_mem s), lf_tail (lf_mem s)} \<union> set (xs @ ys)"
    using owned_okD(1,2) [OF lf_heapD(3) [OF h] n(1)] e(1) by (auto simp: lf_known_def)
  have pn: "pred \<noteq> n" "pred \<notin> set ys" using e(1,2) new l(2,3) last_in_set [of "lf_head (lf_mem s) # xs"] by (auto split: if_splits)
  let ?f = "(lf_ptr (lf_mem s))(pred := n)"
  have f: "lf_ptr (lf_mem (lf_link i k n pred s)) = ?f" by auto
  have "segment ?f (lf_head (lf_mem s)) (lf_head (lf_mem s) # xs) n"
    using segment_relink [OF e(4), of n] e(1,2) l(2,3) by auto
  moreover have "segment ?f n (n # ys) (lf_tail (lf_mem s))" using e(5) pn cur n(3) by simp
  ultimately have "segment ?f (lf_head (lf_mem s)) ((lf_head (lf_mem s) # xs) @ n # ys) (lf_tail (lf_mem s))" unfolding segment_append by blast
  moreover have "sorted_wrt (\<lambda>a b. lf_key (lf_mem s) a < lf_key (lf_mem s) b) (xs @ n # ys)"
    using l(10) e(1) lo hi n(2) by (auto simp: sorted_wrt_append)
  ultimately have "lf_list_ok (lf_link i k n pred s)" unfolding lf_list_ok_def L f using l(2-9) e(1) new by auto
  moreover have "pred = lf_head (lf_mem s) \<or> pred \<in> set xs" using e(2) last_in_set [of xs] by (auto split: if_splits)
  ultimately show ?thesis using that e(1) L by blast
qed

lemma lf_link_step:
  assumes h: "lf_heap s" and n: "n \<in> lf_own s i" "lf_key (lf_mem s) n = k" "lf_next (lf_mem s) n = (cur, False)"
    and p: "lf_before s i k pred" "lf_next (lf_mem s) pred = (cur, False)" and c: "lf_beyond s k cur"
  shows "lf_heap (lf_link i k n pred s)" "j \<noteq> i \<Longrightarrow> lf_keeps j s (lf_link i k n pred s)" "lf_map (lf_link i k n pred s) = (lf_map s)(k \<mapsto> n)"
    "lf_map s k = None"
proof -
  note l = lf_list_okD [OF lf_heapD(1) [OF h]]
  obtain xs ys where e: "lf_list s = xs @ ys" "lf_list (lf_link i k n pred s) = xs @ n # ys" "lf_list_ok (lf_link i k n pred s)"
    "pred = lf_head (lf_mem s) \<or> pred \<in> set xs" using lf_link_list [OF assms] .
  let ?t = "lf_link i k n pred s"
  have new: "n \<notin> lf_known s" using owned_okD(2) [OF lf_heapD(3) [OF h] n(1)] .
  have pk: "pred \<in> lf_known s" "pred \<noteq> n" using e(1,4) new by (auto simp: lf_known_def)
  have "lf_retired_ok ?t" unfolding lf_retired_ok_def
  proof (intro allI impI)
    fix x P assume "lf_grace ?t x = Some P"
    then have g: "lf_grace s x = Some P" by simp
    note r = lf_retiredD [OF lf_heapD(2) [OF h] g]
    have "x \<noteq> pred" "x \<noteq> n" using r(2,4) e(1,4) new g by (auto simp: lf_known_def)
    moreover have "lf_succ ?t x P" if "P \<noteq> {}"
      using r(6) [OF that] \<open>x \<noteq> pred\<close> unfolding lf_succ_def e(2) using e(1) by (auto split: prod.splits)
    ultimately show "x \<notin> {NULL, lf_head (lf_mem ?t), lf_tail (lf_mem ?t)} \<union> set (lf_list ?t) \<and> P \<subseteq> {j. lf_pcs ?t j \<noteq> LfIdle} \<and> (P \<noteq> {} \<longrightarrow> lf_succ ?t x P)"
      unfolding e(2) using r(1-5) e(1) by simp
  qed
  moreover have "lf_known ?t = insert n (lf_known s)" unfolding lf_known_def e(2) using e(1) by auto
  ultimately show hp: "lf_heap ?t" using e(3) owned_ok_give [OF lf_heapD(3) [OF h] n(1)] by (simp add: lf_heap_def)
  show "j \<noteq> i \<Longrightarrow> lf_keeps j s ?t"
  proof -
    assume j: "j \<noteq> i"
    have "x \<noteq> pred \<and> x \<noteq> n" if "x \<in> lf_own s j" for x using owned_okD(2) [OF lf_heapD(3) [OF h] that] owned_okD(3) [OF lf_heapD(3) [OF h] that j] pk n(1) by auto
    moreover have "\<not> lf_marked (lf_mem s) pred" using p(2) by simp
    moreover have "lf_node ?t j x" if "lf_node s j x" for x using that unfolding lf_node_def e(2) using e(1) by auto
    ultimately show ?thesis using j unfolding lf_keeps_def by auto
  qed
  show k: "lf_map s k = None" using lf_place_absent [OF h p(1)] p(2) c by simp
  show "lf_map ?t = (lf_map s)(k \<mapsto> n)"
  proof (rule map_eqI)
    fix a x
    have "lf_map ?t a = Some x \<longleftrightarrow> (if x = n then a = k else lf_map s a = Some x)"
      unfolding lf_map_Some [OF lf_heapD(1) [OF hp]] lf_map_Some [OF lf_heapD(1) [OF h]] e(2) using e(1) n(2,3) p(2) pk(2) new by (auto simp: lf_known_def)
    moreover have "lf_map s a \<noteq> Some n" unfolding lf_map_Some [OF lf_heapD(1) [OF h]] using new by (auto simp: lf_known_def)
    ultimately show "lf_map ?t a = Some x \<longleftrightarrow> ((lf_map s)(k \<mapsto> n)) a = Some x" using k by auto
  qed
qed

text \<open>A marked node is unlinked and retired.\<close>

definition lf_unlink :: "ptr \<Rightarrow> ptr \<Rightarrow> lf_sys \<Rightarrow> lf_sys" where
  "lf_unlink pred cur s = s\<lparr>lf_mem := lf_retire cur ((lf_mem s)\<lparr>lf_next := (lf_next (lf_mem s))(pred := (lf_ptr (lf_mem s) cur, False))\<rparr>),
     lf_list := remove1 cur (lf_list s), lf_grace := grace_retire cur {j. lf_pcs s j \<noteq> LfIdle} (lf_grace s)\<rparr>"

lemma lf_unlink_sel [simp]:
  "lf_next (lf_mem (lf_unlink pred cur s)) = (lf_next (lf_mem s))(pred := (lf_ptr (lf_mem s) cur, False))"
  "lf_key (lf_mem (lf_unlink pred cur s)) = lf_key (lf_mem s)" "lf_head (lf_mem (lf_unlink pred cur s)) = lf_head (lf_mem s)"
  "lf_tail (lf_mem (lf_unlink pred cur s)) = lf_tail (lf_mem s)" "lf_pcs (lf_unlink pred cur s) = lf_pcs s" "lf_own (lf_unlink pred cur s) = lf_own s"
  "lf_grace (lf_unlink pred cur s) = grace_retire cur {j. lf_pcs s j \<noteq> LfIdle} (lf_grace s)" "lf_list (lf_unlink pred cur s) = remove1 cur (lf_list s)"
  "lf_absent (lf_unlink pred cur s) = lf_absent s" "lf_present (lf_unlink pred cur s) = lf_present s"
  by (simp_all add: lf_unlink_def lf_retire_def)

definition lf_unlinks :: "lf_sys \<Rightarrow> tid \<Rightarrow> ptr \<Rightarrow> ptr \<Rightarrow> ptr \<Rightarrow> bool" where
  "lf_unlinks s i k pred cur \<longleftrightarrow> lf_before s i k pred \<and> lf_next (lf_mem s) pred = (cur, False) \<and> lf_node s i cur \<and> lf_marked (lf_mem s) cur"

lemma lf_unlink_list:
  assumes h: "lf_heap s" and u: "lf_unlinks s i k pred cur"
  obtains xs ys where "lf_list s = xs @ cur # ys" "lf_list (lf_unlink pred cur s) = xs @ ys" "lf_list_ok (lf_unlink pred cur s)"
    "pred = lf_head (lf_mem s) \<or> pred \<in> set xs" "lf_ptr (lf_mem s) cur = hd (ys @ [lf_tail (lf_mem s)])"
proof -
  note l = lf_list_okD [OF lf_heapD(1) [OF h]]
  have p: "lf_before s i k pred" "lf_next (lf_mem s) pred = (cur, False)" "lf_node s i cur" using u by (auto simp: lf_unlinks_def)
  obtain xs zs where e: "lf_list s = xs @ zs" "last (lf_head (lf_mem s) # xs) = pred" "lf_ptr (lf_mem s) pred = hd (zs @ [lf_tail (lf_mem s)])"
    "segment (lf_ptr (lf_mem s)) (lf_head (lf_mem s)) (lf_head (lf_mem s) # xs) (hd (zs @ [lf_tail (lf_mem s)]))"
    "segment (lf_ptr (lf_mem s)) (hd (zs @ [lf_tail (lf_mem s)])) zs (lf_tail (lf_mem s))"
    using lf_place [OF h p(1)] p(2) by (metis snd_conv)
  obtain ys where zs: "zs = cur # ys" using e(3) p(2) lf_nodeD(2) [OF h p(3)] by (cases zs) auto
  have nx: "lf_ptr (lf_mem s) cur = hd (ys @ [lf_tail (lf_mem s)])" "segment (lf_ptr (lf_mem s)) (lf_ptr (lf_mem s) cur) ys (lf_tail (lf_mem s))"
    using e(5) zs segment_first by auto
  have c: "cur \<notin> set xs" "cur \<notin> set ys" "pred \<notin> set ys" using l(2,3) e(1,2) zs last_in_set [of xs] by (auto simp: disjoint_iff split: if_splits)
  have L: "lf_list (lf_unlink pred cur s) = xs @ ys" using e(1) zs c(1) by (simp add: remove1_append)
  let ?f = "(lf_ptr (lf_mem s))(pred := lf_ptr (lf_mem s) cur)"
  have f: "lf_ptr (lf_mem (lf_unlink pred cur s)) = ?f" by auto
  have "segment ?f (lf_head (lf_mem s)) (lf_head (lf_mem s) # xs) (lf_ptr (lf_mem s) cur)"
    using segment_relink [OF e(4), of "lf_ptr (lf_mem s) cur"] e(1,2) l(2,3) by auto
  moreover have "segment ?f (lf_ptr (lf_mem s) cur) ys (lf_tail (lf_mem s))" using nx(2) c(3) by simp
  ultimately have "segment ?f (lf_head (lf_mem s)) ((lf_head (lf_mem s) # xs) @ ys) (lf_tail (lf_mem s))" unfolding segment_append by blast
  moreover have "sorted_wrt (\<lambda>a b. lf_key (lf_mem s) a < lf_key (lf_mem s) b) (xs @ ys)" using l(10) e(1) zs by (auto simp: sorted_wrt_append)
  ultimately have "lf_list_ok (lf_unlink pred cur s)" unfolding lf_list_ok_def L f using l(2-9) e(1) zs by auto
  moreover have "pred = lf_head (lf_mem s) \<or> pred \<in> set xs" using e(2) last_in_set [of xs] by (auto split: if_splits)
  ultimately show ?thesis using that e(1) zs L nx(1) by blast
qed

lemma lf_unlink_step:
  assumes h: "lf_heap s" and u: "lf_unlinks s i k pred cur"
  shows "lf_heap (lf_unlink pred cur s)" "lf_pcs s j \<noteq> LfIdle \<Longrightarrow> lf_keeps j s (lf_unlink pred cur s)" "lf_map (lf_unlink pred cur s) = lf_map s"
proof -
  note l = lf_list_okD [OF lf_heapD(1) [OF h]]
  let ?t = "lf_unlink pred cur s"
  obtain xs ys where e: "lf_list s = xs @ cur # ys" "lf_list ?t = xs @ ys" "lf_list_ok ?t"
    "pred = lf_head (lf_mem s) \<or> pred \<in> set xs" "lf_ptr (lf_mem s) cur = hd (ys @ [lf_tail (lf_mem s)])" using lf_unlink_list [OF assms] .
  have m: "lf_marked (lf_mem s) cur" "\<not> lf_marked (lf_mem s) pred" "pred \<noteq> cur" using u by (auto simp: lf_unlinks_def)
  have "lf_retired_ok ?t" unfolding lf_retired_ok_def
  proof (intro allI impI)
    fix x P assume g: "lf_grace ?t x = Some P"
    show "x \<notin> {NULL, lf_head (lf_mem ?t), lf_tail (lf_mem ?t)} \<union> set (lf_list ?t) \<and> P \<subseteq> {j. lf_pcs ?t j \<noteq> LfIdle} \<and> (P \<noteq> {} \<longrightarrow> lf_succ ?t x P)"
    proof (cases "x = cur")
      case True
      then have P: "P = {j. lf_pcs s j \<noteq> LfIdle}" using g by (simp add: grace_retire_def)
      have "lf_succ ?t x P" unfolding lf_succ_def e(2) using True m e(5) by (cases ys) (auto simp: prod_eq_iff split: prod.splits)
      then show ?thesis unfolding e(2) using True P l(2-5) e(1) by auto
    next
      case False
      then have gs: "lf_grace s x = Some P" using g by (simp add: grace_retire_def)
      note r = lf_retiredD [OF lf_heapD(2) [OF h] gs]
      have "lf_succ ?t x P" if "P \<noteq> {}"
      proof -
        have "x \<noteq> pred" using r(2,4) e(1,4) by auto
        then show ?thesis using r(6) [OF that] r(5) unfolding lf_succ_def e(2) using e(1) by (auto simp: grace_retire_def split: prod.splits)
      qed
      then show ?thesis unfolding e(2) using r(1-5) e(1) by simp
    qed
  qed
  moreover have "lf_known ?t = lf_known s" unfolding lf_known_def e(2) using e(1) by auto
  ultimately show hp: "lf_heap ?t" using e(3) lf_heapD(3) [OF h] by (simp add: lf_heap_def)
  show "lf_pcs s j \<noteq> LfIdle \<Longrightarrow> lf_keeps j s ?t"
  proof -
    assume j: "lf_pcs s j \<noteq> LfIdle"
    have "pred \<in> lf_known s" using e(1,4) by (auto simp: lf_known_def)
    then have "pred \<notin> lf_own s j" using owned_okD(2) [OF lf_heapD(3) [OF h]] by blast
    moreover have "lf_node ?t j x" if "lf_node s j x" for x using that j unfolding lf_node_def e(2) using e(1) by auto
    ultimately show ?thesis using m(2) unfolding lf_keeps_def by auto
  qed
  show "lf_map ?t = lf_map s"
  proof (rule map_eqI)
    fix a x
    show "lf_map ?t a = Some x \<longleftrightarrow> lf_map s a = Some x"
      unfolding lf_map_Some [OF lf_heapD(1) [OF hp]] lf_map_Some [OF lf_heapD(1) [OF h]] e(2) using e(1) m by auto
  qed
qed

lemma lf_unlink_saw:
  assumes h: "lf_heap s" and u: "lf_unlinks s i k pred cur" and w: "lf_saw s j a" and j: "lf_pcs s j \<noteq> LfIdle"
    and key: "lf_op_key (((lf_pcs s)(i := p)) j) = Some a"
  shows "lf_saw (lf_to i p (lf_unlink pred cur s)) j a"
  unfolding lf_saw_def
proof (intro allI impI)
  let ?s = "lf_unlink pred cur s" let ?t = "lf_to i p ?s"
  note st = lf_unlink_step [OF h u]
  fix x assume g: "guarded_by (lf_grace ?t) j x"
    and c: "lf_key (lf_mem ?t) x = a \<or> lf_key (lf_mem ?t) x < a \<and> lf_beyond ?t a (lf_ptr (lf_mem ?t) x)"
  show "lf_absent ?t j"
  proof (cases "x = cur")
    case True
    obtain xs ys where e: "lf_list s = xs @ cur # ys" "lf_list ?s = xs @ ys" "lf_ptr (lf_mem s) cur = hd (ys @ [lf_tail (lf_mem s)])" using lf_unlink_list [OF h u] by metis
    note srt = lf_list_okD(10) [OF lf_heapD(1) [OF h], unfolded e(1)]
    have lo: "lf_key (lf_mem s) z < lf_key (lf_mem s) cur" if "z \<in> set xs" for z using srt that by (auto simp: sorted_wrt_append)
    have hi: "lf_key (lf_mem s) cur < lf_key (lf_mem s) z" if "z \<in> set ys" for z using srt that by (auto simp: sorted_wrt_append)
    have pc: "pred \<noteq> cur" using u by (auto simp: lf_unlinks_def)
    have "lf_map ?s a = None"
    proof (rule lf_absentI [OF st(1) e(2)])
      show "xs = [] \<or> lf_key (lf_mem ?s) (last xs) < a" using lo [OF last_in_set] c True by (cases "xs = []") (auto intro: less_trans)
      show "ys = [] \<or> a < lf_key (lf_mem ?s) (hd ys)"
      proof (cases ys)
        case (Cons y zs)
        have "y \<noteq> lf_tail (lf_mem s)" using lf_list_okD(4) [OF lf_heapD(1) [OF h]] e(1) Cons by auto
        then show ?thesis using c True Cons hi [of y] e(3) pc by (auto simp: lf_beyond_def)
      qed simp
    qed
    then show ?thesis using key by (auto simp: lf_absent_observe)
  next
    case False
    then have gs: "guarded_by (lf_grace s) j x" using g by (auto split: if_splits)
    have k: "lf_keeps j s ?s" using st(2) [OF j] .
    have nx: "lf_node s j x" using gs by (simp add: lf_node_def)
    have eq: "lf_key (lf_mem ?s) x = lf_key (lf_mem s) x" "lf_next (lf_mem ?s) x = lf_next (lf_mem s) x"
      using lf_keepsD(7,8) [OF k nx] lf_guardedD(1) [OF h gs] by simp_all
    have "lf_beyond ?t a y = lf_beyond s a y" for y by (simp add: lf_beyond_def)
    then have "lf_absent s j" using w gs c eq unfolding lf_saw_def by (metis lf_moves_sel(1) lf_observe_sel(1))
    then show ?thesis by (simp add: lf_absent_observe)
  qed
qed

lemma lf_inv_unlink:
  assumes inv: "lf_inv cmp s" and u: "lf_unlinks s i k pred cur" and ki: "\<And>k. lf_op_key p = Some k \<Longrightarrow> lf_op_key (lf_pcs s i) = Some k"
    and ok: "lf_pc_ok (lf_to i p (lf_unlink pred cur s)) i p"
  shows "lf_inv cmp (lf_to i p (lf_unlink pred cur s))"
proof (rule lf_inv_to [OF inv lf_unlink_step(1) [OF lf_invD(2) [OF inv] u] _ _ _ ok])
  show "lf_keeps j s (lf_unlink pred cur s)" if "j \<noteq> i" "lf_pcs s j \<noteq> LfIdle" for j using lf_unlink_step(2) [OF lf_invD(2) [OF inv] u that(2)] .
  fix j a assume j: "lf_op_key (((lf_pcs s)(i := p)) j) = Some a"
  then have s: "lf_op_key (lf_pcs s j) = Some a" using ki by (cases "j = i") auto
  then have "lf_pcs s j \<noteq> LfIdle" by auto
  then show "lf_saw (lf_to i p (lf_unlink pred cur s)) j a" using lf_unlink_saw [OF lf_invD(2) [OF inv] u lf_invD(4) [OF inv s] _ j] by blast
qed simp

section \<open>The search\<close>

lemma lf_next_node:
  assumes h: "lf_heap s" and x: "x = lf_head (lf_mem s) \<or> lf_node s i x" and t: "lf_ptr (lf_mem s) x \<noteq> lf_tail (lf_mem s)"
  shows "lf_node s i (lf_ptr (lf_mem s) x)"
proof (cases "guarded_by (lf_grace s) i x")
  case False
  then have "x = lf_head (lf_mem s) \<or> x \<in> set (lf_list s)" using x by (auto simp: lf_node_def)
  then obtain xs ys where "lf_list s = xs @ ys" "lf_ptr (lf_mem s) x = hd (ys @ [lf_tail (lf_mem s)])" using lf_split [OF h] by metis
  then show ?thesis using t by (cases ys) (auto simp: lf_node_def)
qed (use lf_guardedD(2) [OF h _ t] in blast)

lemma lf_cmpD:
  assumes "lf_cmp_ok cmp"
  shows "lf_stops cmp k m x \<longleftrightarrow> x = lf_tail m \<or> k \<le> lf_key m x" "lf_found cmp k m x \<longleftrightarrow> x \<noteq> lf_tail m \<and> lf_key m x = k"
proof -
  have "0 \<le> cmp a b \<longleftrightarrow> b \<le> a" "cmp a b = 0 \<longleftrightarrow> a = b" for a b using assms unfolding lf_cmp_ok_def by (metis not_less)+
  then show "lf_stops cmp k m x \<longleftrightarrow> x = lf_tail m \<or> k \<le> lf_key m x" "lf_found cmp k m x \<longleftrightarrow> x \<noteq> lf_tail m \<and> lf_key m x = k"
    by (auto simp: lf_stops_def lf_found_def)
qed

text \<open>What the search has found out in state \<open>s\<close>.\<close>

definition lf_res_ok :: "lf_sys \<Rightarrow> tid \<Rightarrow> ptr \<Rightarrow> (find_pc, ptr \<times> ptr) ctl \<Rightarrow> bool" where
  "lf_res_ok s i k r \<longleftrightarrow> (case r of Goto f \<Rightarrow> \<forall>p. lf_op_key p = Some k \<longrightarrow> lf_find_ok (lf_to i p s) i k f
     | Ret (pred, cur) \<Rightarrow> lf_before s i k pred \<and> (cur \<noteq> lf_tail (lf_mem s) \<longrightarrow> lf_node s i cur \<and> k \<le> lf_key (lf_mem s) cur) \<and>
         (lf_beyond s k cur \<longrightarrow> lf_absent s i \<or> lf_map s k = None))"

lemma lf_to_eqs:
  "p \<noteq> LfIdle \<Longrightarrow> lf_before (lf_to i p s) i k x \<longleftrightarrow> lf_before s i k x" "p \<noteq> LfIdle \<Longrightarrow> lf_node (lf_to i p s) i x \<longleftrightarrow> lf_node s i x"
  "lf_beyond (lf_to i p s) k x \<longleftrightarrow> lf_beyond s k x"
  by (auto simp: lf_before_def lf_beyond_def lf_node_def)

lemma lf_absent_to: "lf_op_key p = Some k \<Longrightarrow> lf_absent (lf_to i p s) i \<longleftrightarrow> lf_absent s i \<or> lf_map s k = None"
  by (simp add: lf_absent_observe)

lemma lf_op_key_idle: "lf_op_key p = Some k \<Longrightarrow> p \<noteq> LfIdle"
  by auto

lemma lf_res_curr:
  assumes "lf_before s i k pred" "lf_node s i cur" "lf_beyond s k cur \<longrightarrow> lf_absent s i \<or> lf_map s k = None"
  shows "lf_res_ok s i k (Goto (FD_curr pred cur))"
  using assms unfolding lf_res_ok_def by (auto simp: lf_to_eqs lf_absent_to lf_op_key_idle)

text \<open>From a node in the list that is before the key, the search moves on to its successor.\<close>

lemma lf_find_test:
  assumes h: "lf_heap s" and p: "lf_before s i k pred" "\<not> lf_marked (lf_mem s) pred"
  shows "lf_res_ok s i k (find_test (lf_mem s) pred (lf_ptr (lf_mem s) pred))"
proof -
  have x: "pred = lf_head (lf_mem s) \<or> lf_node s i pred" using p(1) by (auto simp: lf_before_def)
  have b: "lf_beyond s k (lf_ptr (lf_mem s) pred) \<longrightarrow> lf_map s k = None" using lf_place_absent [OF h p] by blast
  show ?thesis
  proof (cases "lf_ptr (lf_mem s) pred = lf_tail (lf_mem s)")
    case True
    then show ?thesis using p(1) b by (simp add: find_test_def lf_res_ok_def)
  next
    case False
    then show ?thesis using lf_res_curr [OF p(1) lf_next_node [OF h x False]] b by (simp add: find_test_def)
  qed
qed

lemma lf_find_curr:
  assumes h: "lf_heap s" and cmp: "lf_cmp_ok cmp" and ok: "lf_find_ok s i k (FD_curr pred cur)" and m: "\<not> lf_marked (lf_mem s) cur"
  shows "lf_res_ok s i k (find_rest cmp k (lf_mem s) pred cur (lf_ptr (lf_mem s) cur))"
    "find_rest cmp k (lf_mem s) pred cur (lf_ptr (lf_mem s) cur) = Ret (a, b) \<Longrightarrow> lf_found cmp k (lf_mem s) b \<Longrightarrow> lf_map s k \<noteq> None"
proof -
  have o: "lf_before s i k pred" "lf_node s i cur" "lf_beyond s k cur \<longrightarrow> lf_absent s i" using ok by auto
  note n = lf_nodeD [OF h o(2)]
  have cl: "cur \<in> set (lf_list s)" using n(5) [OF m] .
  have before: "lf_before s i k cur" if "\<not> lf_stops cmp k (lf_mem s) cur" using that o(2) by (auto simp: lf_cmpD [OF cmp] lf_before_def)
  show "lf_res_ok s i k (find_rest cmp k (lf_mem s) pred cur (lf_ptr (lf_mem s) cur))"
  proof (cases "lf_stops cmp k (lf_mem s) cur")
    case True
    then show ?thesis using o n(2) by (auto simp: find_rest_def lf_res_ok_def lf_cmpD [OF cmp])
  next
    case False
    then show ?thesis using lf_find_test [OF h before [OF False] m] by (simp add: find_rest_def)
  qed
  show "lf_map s k \<noteq> None" if r: "find_rest cmp k (lf_mem s) pred cur (lf_ptr (lf_mem s) cur) = Ret (a, b)" and f: "lf_found cmp k (lf_mem s) b"
  proof -
    have "b = cur" using r f by (auto simp: find_rest_def find_test_def lf_cmpD(2) [OF cmp] split: if_splits)
    then have "lf_map s k = Some cur" using f cl m lf_map_Some [OF lf_heapD(1) [OF h]] by (auto simp: lf_cmpD(2) [OF cmp])
    then show ?thesis by simp
  qed
qed

lemma lf_find_snip:
  assumes h: "lf_heap s" and cmp: "lf_cmp_ok cmp" and ki: "lf_op_key (lf_pcs s i) = Some k" and ok: "lf_find_ok s i k (FD_snip pred cur succ)"
    and c: "lf_next (lf_mem s) pred = (cur, False)"
  shows "lf_unlinks s i k pred cur"
    "lf_res_ok (lf_unlink pred cur s) i k (if succ = lf_tail (lf_mem s) then find_rest cmp k (lf_mem s) pred cur succ else Goto (FD_curr pred succ))"
proof -
  have o: "lf_before s i k pred" "lf_node s i cur" "lf_next (lf_mem s) cur = (succ, True)" using ok by auto
  show u: "lf_unlinks s i k pred cur" using o c by (simp add: lf_unlinks_def)
  let ?u = "lf_unlink pred cur s"
  note st = lf_unlink_step [OF h u]
  have k: "lf_keeps i s ?u" using st(2) lf_op_key_idle [OF ki] by blast
  have b: "lf_before ?u i k pred" "\<not> lf_marked (lf_mem ?u) pred" "lf_ptr (lf_mem ?u) pred = succ" using lf_before_keeps [OF k o(1)] o(3) by simp_all
  have n: "lf_node ?u i cur" using lf_keepsD(6) [OF k o(2)] .
  have ab: "lf_beyond ?u k succ \<longrightarrow> lf_map ?u k = None" using lf_place_absent [OF st(1) b(1,2)] b(3) by blast
  show "lf_res_ok ?u i k (if succ = lf_tail (lf_mem s) then find_rest cmp k (lf_mem s) pred cur succ else Goto (FD_curr pred succ))"
  proof (cases "succ = lf_tail (lf_mem s)")
    case False
    then have "lf_node s i succ" using lf_next_node [OF h, of cur i] o by simp
    then show ?thesis using lf_res_curr [OF b(1) lf_keepsD(6) [OF k]] ab False by simp
  next
    case True
    then have "lf_map ?u k = None" using ab by (simp add: lf_beyond_def)
    then show ?thesis using True b(1) n lf_nodeD(2) [OF h o(2)]
      by (auto simp: find_rest_def find_test_def lf_res_ok_def lf_cmpD [OF cmp] lf_before_def)
  qed
qed

text \<open>One access of the search leaves the memory alone or unlinks a marked node.\<close>

lemma lf_find_step:
  assumes h: "lf_heap s" and cmp: "lf_cmp_ok cmp" and ki: "lf_op_key (lf_pcs s i) = Some k" and ok: "lf_find_ok s i k f"
    and st: "lf_find cmp k f (lf_mem s) = (r, m)"
  obtains (quiet) "m = lf_mem s" "lf_res_ok s i k r" "\<And>a b. r = Ret (a, b) \<Longrightarrow> lf_found cmp k (lf_mem s) b \<Longrightarrow> lf_map s k \<noteq> None"
  | (unlink) pred cur succ where "f = FD_snip pred cur succ" "m = lf_mem (lf_unlink pred cur s)" "lf_unlinks s i k pred cur"
      "lf_res_ok (lf_unlink pred cur s) i k r"
proof (cases f)
  case FD_head
  have r: "r = find_test (lf_mem s) (lf_head (lf_mem s)) (lf_ptr (lf_mem s) (lf_head (lf_mem s)))" "m = lf_mem s" using st FD_head by auto
  moreover have "lf_res_ok s i k r" unfolding r(1)
    using lf_list_okD(9) [OF lf_heapD(1) [OF h]] by (intro lf_find_test [OF h]) (simp_all add: lf_before_def)
  moreover have "\<not> lf_found cmp k (lf_mem s) b" if "r = Ret (a, b)" for a b using that r(1) by (auto simp: find_test_def lf_found_def split: if_splits)
  ultimately show ?thesis using quiet by blast
next
  case (FD_curr pred cur)
  show ?thesis
  proof (cases "lf_marked (lf_mem s) cur")
    case True
    then have r: "r = Goto (FD_snip pred cur (lf_ptr (lf_mem s) cur))" "m = lf_mem s" using st FD_curr by (auto split: prod.splits)
    have "lf_res_ok s i k r" unfolding r(1) lf_res_ok_def using ok FD_curr True by (auto simp: lf_to_eqs lf_op_key_idle prod_eq_iff)
    then show ?thesis using quiet r by simp
  next
    case False
    then have r: "r = find_rest cmp k (lf_mem s) pred cur (lf_ptr (lf_mem s) cur)" "m = lf_mem s" using st FD_curr by (auto split: prod.splits)
    then show ?thesis using quiet lf_find_curr [OF h cmp ok [unfolded FD_curr] False] by metis
  qed
next
  case (FD_snip pred cur succ)
  show ?thesis
  proof (cases "lf_next (lf_mem s) pred = (cur, False)")
    case True
    have sc: "succ = lf_ptr (lf_mem s) cur" using ok FD_snip by simp
    have "m = lf_mem (lf_unlink pred cur s)" "r = (if succ = lf_tail (lf_mem s) then find_rest cmp k (lf_mem s) pred cur succ else Goto (FD_curr pred succ))"
      using st FD_snip True sc by (auto simp: lf_cmpxchg_def lf_unlink_def)
    then show ?thesis using unlink FD_snip lf_find_snip [OF h cmp ki ok [unfolded FD_snip] True] by blast
  next
    case False
    then have "r = Goto FD_head" "m = lf_mem s" using st FD_snip by (auto simp: lf_cmpxchg_def)
    then show ?thesis using quiet by (simp add: lf_res_ok_def)
  qed
qed

section \<open>Every step keeps the invariant\<close>

lemma lf_unlinked_eqs:
  "lf_unlinked (lf_mem s) s = s" "lf_retired m = lf_retired (lf_mem s) \<Longrightarrow> lf_unlinked m s = s"
  "lf_moves i (lf_mem (lf_unlink pred cur s)) p (lf_unlinked (lf_mem (lf_unlink pred cur s)) s) = lf_moves i (lf_mem (lf_unlink pred cur s)) p (lf_unlink pred cur s)"
  by (cases "p = LfIdle"; simp add: lf_unlinked_def lf_unlink_def lf_retire_def lf_moves_def)+

text \<open>A step of the search inside an operation, which goes on at \<open>p\<close>.\<close>

lemma lf_inv_find:
  assumes inv: "lf_inv cmp s" and ki: "lf_op_key (lf_pcs s i) = Some k" and ok: "lf_find_ok s i k f" and st: "lf_find cmp k f (lf_mem s) = (r, m)"
    and p: "lf_op_key p = None \<or> lf_op_key p = Some k"
    and pc: "\<And>t. lf_res_ok t i k r \<Longrightarrow> lf_own t = lf_own s \<Longrightarrow> lf_key (lf_mem t) = lf_key (lf_mem s) \<Longrightarrow> lf_tail (lf_mem t) = lf_tail (lf_mem s) \<Longrightarrow>
      lf_pc_ok (lf_to i p t) i p"
  shows "lf_inv cmp (lf_observe (lf_moves i m p (lf_unlinked m s)))"
proof (rule lf_find_step [OF lf_invD(2) [OF inv] lf_invD(1) [OF inv] ki ok st])
  assume q: "m = lf_mem s" "lf_res_ok s i k r"
  then show ?thesis using lf_inv_quiet [OF inv _ pc [OF q(2)]] p ki by (auto simp: lf_unlinked_eqs)
next
  fix pred cur succ assume u: "m = lf_mem (lf_unlink pred cur s)" "lf_unlinks s i k pred cur" "lf_res_ok (lf_unlink pred cur s) i k r"
  have "lf_inv cmp (lf_to i p (lf_unlink pred cur s))" using p ki by (intro lf_inv_unlink [OF inv u(2) _ pc [OF u(3)]]) auto
  then show ?thesis unfolding u(1) lf_unlinked_eqs(3) .
qed

lemma lf_inv_add:
  assumes inv: "lf_inv cmp s" and pcs: "lf_pcs s i = LfAdd k n p" and st: "lf_add cmp k n p (lf_mem s) = (r, m)"
  shows "lf_inv cmp (lf_observe (lf_moves i m (case r of Goto p' \<Rightarrow> LfAdd k n p' | Ret b \<Rightarrow> LfIdle)
    (if r = Ret True then lf_linked i k n s else lf_unlinked m s)))"
proof -
  have ok: "lf_pc_ok s i (LfAdd k n p)" using lf_invD(3) [OF inv pcs] .
  have ki: "lf_op_key (lf_pcs s i) = Some k" using pcs by simp
  note h = lf_invD(2) [OF inv] and cmp = lf_invD(1) [OF inv]
  show ?thesis
  proof (cases p)
    case (AD_find f)
    obtain r' where f: "lf_find cmp k f (lf_mem s) = (r', m)" and r: "r = (case r' of Goto f' \<Rightarrow> Goto (AD_find f')
        | Ret (pred, cur) \<Rightarrow> if lf_found cmp k (lf_mem s) cur then Ret False else Goto (AD_write pred cur))"
      using st AD_find by (auto split: prod.splits ctl.splits if_splits)
    have o: "n \<in> lf_own s i" "lf_key (lf_mem s) n = k" "lf_find_ok s i k f" using ok AD_find by auto
    let ?p = "case r of Goto p' \<Rightarrow> LfAdd k n p' | Ret b \<Rightarrow> LfIdle"
    have "lf_inv cmp (lf_observe (lf_moves i m ?p (lf_unlinked m s)))"
    proof (rule lf_inv_find [OF inv ki o(3) f])
      show "lf_op_key ?p = None \<or> lf_op_key ?p = Some k" by (auto split: ctl.splits)
      fix t assume t: "lf_res_ok t i k r'" "lf_own t = lf_own s" "lf_key (lf_mem t) = lf_key (lf_mem s)" "lf_tail (lf_mem t) = lf_tail (lf_mem s)"
      show "lf_pc_ok (lf_to i ?p t) i ?p"
      proof (cases r')
        case (Goto f')
        then show ?thesis using t r o by (simp add: lf_res_ok_def)
      next
        case (Ret x)
        then show ?thesis using t r o by (cases x) (auto simp: lf_res_ok_def lf_to_eqs lf_cmpD(2) [OF cmp] dest: order.strict_trans1)
      qed
    qed
    moreover have "r \<noteq> Ret True" unfolding r by (auto split: ctl.splits if_splits)
    ultimately show ?thesis by simp
  next
    case (AD_write pred cur)
    then have r: "r = Goto (AD_link pred cur)" "m = (lf_mem s)\<lparr>lf_next := (lf_next (lf_mem s))(n := (cur, False))\<rparr>" using st by auto
    have o: "n \<in> lf_own s i" "lf_key (lf_mem s) n = k" "lf_before s i k pred" "cur \<noteq> lf_tail (lf_mem s) \<longrightarrow> lf_node s i cur \<and> k < lf_key (lf_mem s) cur"
      using ok AD_write by auto
    have "lf_inv cmp (lf_observe (lf_moves i m (LfAdd k n (AD_link pred cur)) s))"
      using o r(2) ki by (intro lf_inv_own [OF inv o(1)]) (auto simp: lf_before_def lf_node_def)
    then show ?thesis using r lf_unlinked_eqs(2) [of m s] by simp
  next
    case (AD_link pred cur)
    have o: "n \<in> lf_own s i" "lf_key (lf_mem s) n = k" "lf_next (lf_mem s) n = (cur, False)" "lf_before s i k pred" "lf_beyond s k cur"
      using ok AD_link by (auto simp: lf_beyond_def)
    show ?thesis
    proof (cases "lf_next (lf_mem s) pred = (cur, False)")
      case True
      have r: "r = Ret True" "m = lf_mem (lf_link i k n pred s)" using st AD_link True by (auto simp: lf_cmpxchg_def)
      note l = lf_link_step [OF h o(1,2,3,4) True o(5)]
      have "lf_inv cmp (lf_to i LfIdle (lf_link i k n pred s))" using l(1,2) by (intro lf_inv_unretired [OF inv]) auto
      then show ?thesis using r by (simp add: lf_link_def)
    next
      case False
      then have r: "r = Goto (AD_find FD_head)" "m = lf_mem s" using st AD_link by (auto simp: lf_cmpxchg_def)
      then show ?thesis using o(1,2) ki lf_inv_quiet [OF inv, of "LfAdd k n (AD_find FD_head)" i] by (simp add: lf_unlinked_eqs)
    qed
  qed
qed

lemma lf_inv_remove:
  assumes inv: "lf_inv cmp s" and pcs: "lf_pcs s i = LfRemove k p" and st: "lf_remove cmp k p (lf_mem s) = (r, m)"
  shows "lf_inv cmp (lf_observe (lf_moves i m (case r of Goto p' \<Rightarrow> LfRemove k p' | Ret b \<Rightarrow> LfIdle) (lf_unlinked m s)))"
proof -
  have ok: "lf_pc_ok s i (LfRemove k p)" using lf_invD(3) [OF inv pcs] .
  have ki: "lf_op_key (lf_pcs s i) = Some k" using pcs by simp
  note h = lf_invD(2) [OF inv] and cmp = lf_invD(1) [OF inv]
  show ?thesis
  proof (cases p)
    case (RM_find f)
    obtain r' where f: "lf_find cmp k f (lf_mem s) = (r', m)" and r: "r = (case r' of Goto f' \<Rightarrow> Goto (RM_find f')
        | Ret (pred, cur) \<Rightarrow> if \<not> lf_found cmp k (lf_mem s) cur then Ret False else Goto (RM_succ pred cur))"
      using st RM_find by (auto split: prod.splits ctl.splits if_splits)
    have o: "lf_find_ok s i k f" using ok RM_find by auto
    show ?thesis
    proof (rule lf_inv_find [OF inv ki o f])
      show "lf_op_key (case r of Goto p' \<Rightarrow> LfRemove k p' | Ret b \<Rightarrow> LfIdle) = None \<or> lf_op_key (case r of Goto p' \<Rightarrow> LfRemove k p' | Ret b \<Rightarrow> LfIdle) = Some k"
        by (auto split: ctl.splits)
      fix t assume t: "lf_res_ok t i k r'" "lf_own t = lf_own s" "lf_key (lf_mem t) = lf_key (lf_mem s)" "lf_tail (lf_mem t) = lf_tail (lf_mem s)"
      show "lf_pc_ok (lf_to i (case r of Goto p' \<Rightarrow> LfRemove k p' | Ret b \<Rightarrow> LfIdle) t) i (case r of Goto p' \<Rightarrow> LfRemove k p' | Ret b \<Rightarrow> LfIdle)"
      proof (cases r')
        case (Goto f')
        then show ?thesis using t r by (simp add: lf_res_ok_def)
      next
        case (Ret x)
        then show ?thesis using t r by (cases x) (auto simp: lf_res_ok_def lf_to_eqs lf_cmpD(2) [OF cmp])
      qed
    qed
  next
    case (RM_succ pred cur)
    then have r: "r = Goto (RM_mark pred cur (lf_ptr (lf_mem s) cur))" "m = lf_mem s" using st by auto
    then show ?thesis using ok RM_succ ki by (auto simp: lf_unlinked_eqs lf_to_eqs intro!: lf_inv_quiet [OF inv])
  next
    case (RM_mark pred cur succ)
    have o: "lf_before s i k pred" "lf_node s i cur" "lf_key (lf_mem s) cur = k" using ok RM_mark by auto
    show ?thesis
    proof (cases "lf_next (lf_mem s) cur = (succ, False)")
      case True
      have r: "r = Goto (RM_detach pred cur succ)" "m = lf_mem (lf_mark cur s)" using st RM_mark True by (auto simp: lf_cmpxchg_def lf_mark_def)
      note l = lf_mark_step [OF h o(2)]
      have k: "lf_keeps j s (lf_mark cur s)" for j using l(2) True by simp
      have sw: "lf_saw (lf_mark cur s) i k" by (rule lf_saw_keeps [OF h k _ lf_invD(4) [OF inv ki]]) (simp add: lf_mark_def)
      have mk: "lf_pcs (lf_mark cur s) = lf_pcs s" "lf_grace (lf_mark cur s) = lf_grace s" "lf_next (lf_mem (lf_mark cur s)) cur = (succ, True)"
        using True by (simp_all add: lf_mark_def)
      have "lf_inv cmp (lf_to i (LfRemove k (RM_detach pred cur succ)) (lf_mark cur s))"
        using l(1) True k sw ki lf_before_keeps [OF k o(1)] lf_keepsD(6) [OF k o(2)]
        by (intro lf_inv_unretired [OF inv]) (auto simp: lf_to_eqs mk)
      moreover have "lf_unlinked (lf_mem (lf_mark cur s)) s = s" by (rule lf_unlinked_eqs) (simp add: lf_mark_def)
      ultimately show ?thesis using r by (simp add: lf_mark_def)
    next
      case False
      then have r: "r = Goto (RM_find FD_head)" "m = lf_mem s" using st RM_mark by (auto simp: lf_cmpxchg_def)
      then show ?thesis using ki by (auto simp: lf_unlinked_eqs intro!: lf_inv_quiet [OF inv])
    qed
  next
    case (RM_detach pred cur succ)
    have o: "lf_before s i k pred" "lf_node s i cur" "lf_next (lf_mem s) cur = (succ, True)" using ok RM_detach by auto
    show ?thesis
    proof (cases "lf_next (lf_mem s) pred = (cur, False)")
      case True
      have r: "r = Ret True" "m = lf_mem (lf_unlink pred cur s)" using st RM_detach True o(3) by (auto simp: lf_cmpxchg_def lf_unlink_def)
      have "lf_inv cmp (lf_to i LfIdle (lf_unlink pred cur s))" using o True by (intro lf_inv_unlink [OF inv, of i k]) (auto simp: lf_unlinks_def)
      then show ?thesis unfolding r(2) lf_unlinked_eqs(3) using r(1) by simp
    next
      case False
      then have r: "r = Ret True" "m = lf_mem s" using st RM_detach by (auto simp: lf_cmpxchg_def)
      then show ?thesis by (auto simp: lf_unlinked_eqs intro!: lf_inv_quiet [OF inv])
    qed
  qed
qed

lemma lf_get_test:
  assumes inv: "lf_inv cmp s" and x: "x = lf_head (lf_mem s) \<or> lf_node s i x" and ki: "lf_op_key (lf_pcs s i) = Some k"
  shows "lf_inv cmp (lf_to i (case get_test cmp k (lf_mem s) (lf_ptr (lf_mem s) x) of Goto p' \<Rightarrow> LfGet k p' | Ret b \<Rightarrow> LfIdle) s)"
proof -
  note n = lf_next_node [OF lf_invD(2) [OF inv] x] and c = lf_cmpD [OF lf_invD(1) [OF inv]]
  show ?thesis
    by (rule lf_inv_quiet [OF inv]) (use n ki in \<open>auto simp: get_test_def c lf_to_eqs not_le split: if_splits\<close>)
qed

lemma lf_inv_get:
  assumes inv: "lf_inv cmp s" and pcs: "lf_pcs s i = LfGet k p" and st: "lf_get cmp k p (lf_mem s) = (r, m)"
  shows "lf_inv cmp (lf_observe (lf_moves i m (case r of Goto p' \<Rightarrow> LfGet k p' | Ret b \<Rightarrow> LfIdle) s))"
proof -
  have ok: "lf_pc_ok s i (LfGet k p)" using lf_invD(3) [OF inv pcs] .
  have ki: "lf_op_key (lf_pcs s i) = Some k" using pcs by simp
  show ?thesis
  proof (cases p)
    case GT_head
    then show ?thesis using st lf_get_test [OF inv _ ki] by auto
  next
    case (GT_next cur)
    then show ?thesis using st ok lf_get_test [OF inv _ ki] by auto
  next
    case (GT_mark cur)
    then show ?thesis using st by (auto intro!: lf_inv_quiet [OF inv])
  qed
qed

text \<open>A call: no retired node is kept by the new operation yet.\<close>

lemma lf_called_sel [simp]:
  "lf_mem (lf_called i p s) = lf_mem s" "lf_pcs (lf_called i p s) = (lf_pcs s)(i := p)" "lf_own (lf_called i p s) = lf_own s"
  "lf_grace (lf_called i p s) = lf_grace s" "lf_list (lf_called i p s) = lf_list s" "lf_map (lf_called i p s) = lf_map s"
  by (simp_all add: lf_called_def lf_map_def fun_eq_iff)

lemma lf_inv_called:
  assumes inv: "lf_inv cmp s" and h: "lf_heap t" and k: "\<And>j. j \<noteq> i \<Longrightarrow> lf_keeps j s t" and idle: "lf_pcs s i = LfIdle"
    and eq: "lf_pcs t = lf_pcs s" "lf_grace t = lf_grace s" and ok: "lf_pc_ok (lf_called i p t) i p"
  shows "lf_inv cmp (lf_called i p t)"
proof -
  let ?u = "lf_called i p t"
  have "lf_retired_ok ?u" unfolding lf_retired_ok_def
  proof (intro allI impI)
    fix x P assume "lf_grace ?u x = Some P"
    then have g: "lf_grace t x = Some P" by simp
    note r = lf_retiredD [OF lf_heapD(2) [OF h] g]
    then show "x \<notin> {NULL, lf_head (lf_mem ?u), lf_tail (lf_mem ?u)} \<union> set (lf_list ?u) \<and> P \<subseteq> {j. lf_pcs ?u j \<noteq> LfIdle} \<and> (P \<noteq> {} \<longrightarrow> lf_succ ?u x P)"
      using idle eq(1) by (auto simp: lf_succ_def)
  qed
  moreover have "lf_list_ok ?u = lf_list_ok t" "lf_known ?u = lf_known t" by (simp_all add: lf_list_ok_def lf_known_def)
  ultimately have hu: "lf_heap ?u" using h by (simp add: lf_heap_def)
  have ku: "lf_keeps j t ?u" if "j \<noteq> i" for j using that by (auto simp: lf_keeps_def lf_node_def lf_called_def lf_absent_observe)
  have "lf_thread_ok ?u j (lf_pcs s j)" if j: "j \<noteq> i" for j
  proof -
    have "lf_pc_ok s j (lf_pcs s j)" using lf_invD(3) [OF inv refl] .
    then have "lf_pc_ok ?u j (lf_pcs s j)" using lf_pc_ok_keeps [OF ku [OF j] lf_pc_ok_keeps [OF k [OF j]]] by blast
    moreover have "lf_saw ?u j a" if "lf_op_key (lf_pcs s j) = Some a" for a
      using lf_saw_keeps [OF h ku [OF j] _ lf_saw_keeps [OF lf_invD(2) [OF inv] k [OF j] _ lf_invD(4) [OF inv that]]] eq(2) by simp
    ultimately show ?thesis by (simp add: lf_thread_ok_def split: option.splits)
  qed
  moreover have "\<not> guarded_by (lf_grace ?u) i x" for x using lf_guardedD(7) [OF h] idle eq(1) by auto
  then have "lf_thread_ok ?u i p" using ok by (simp add: lf_thread_ok_def lf_saw_def split: option.splits)
  ultimately show ?thesis using inv hu eq(1) by (simp add: lf_inv_def)
qed

lemma lf_inv_reuse:
  assumes inv: "lf_inv cmp s" and g: "lf_grace s x = Some {}"
  shows "lf_inv cmp (s\<lparr>lf_grace := grace_reuse x (lf_grace s), lf_own := (lf_own s)(i := insert x (lf_own s i))\<rparr>)"
proof -
  let ?t = "s\<lparr>lf_grace := grace_reuse x (lf_grace s), lf_own := (lf_own s)(i := insert x (lf_own s i))\<rparr>"
  note h = lf_invD(2) [OF inv]
  note r = lf_retiredD [OF lf_heapD(2) [OF h] g]
  have x: "x \<in> lf_known s" using g by (auto simp: lf_known_def)
  have known: "lf_known ?t = lf_known s - {x}" using r(2-4) by (auto simp: lf_known_def)
  have gd: "guarded_by (lf_grace ?t) j y = guarded_by (lf_grace s) j y" for j y by (simp add: guarded_by_reuse [where g = "lf_grace s", OF g])
  have "lf_succ ?t y P" if "lf_succ s y P" "P \<noteq> {}" for y P using that g by (auto simp: lf_succ_def grace_reuse_def split: prod.splits)
  then have "lf_retired_ok ?t" using lf_heapD(2) [OF h] unfolding lf_retired_ok_def by (simp add: grace_reuse_def)
  moreover have "lf_list_ok ?t" using lf_heapD(1) [OF h] by (simp add: lf_list_ok_def)
  moreover have "owned_ok (lf_own ?t) (lf_known ?t)" unfolding known using owned_ok_take [OF lf_heapD(3) [OF h] x r(1)] by simp
  ultimately have ht: "lf_heap ?t" by (simp add: lf_heap_def)
  have k: "lf_keeps j s ?t" for j unfolding lf_keeps_def using gd by (auto simp: lf_node_def)
  have "lf_thread_ok ?t j (lf_pcs s j)" for j
    using lf_invD(3) [OF inv refl, of j] lf_invD(4) [OF inv, of j] lf_pc_ok_keeps [OF k, of j] lf_saw_keeps [OF h k, of j] gd
    by (auto simp: lf_thread_ok_def split: option.splits)
  then show ?thesis using ht inv by (simp add: lf_inv_def)
qed

lemma lf_inv_step:
  assumes inv: "lf_inv cmp s" and "lf_step cmp i s t"
  shows "lf_inv cmp t"
  using assms(2)
proof cases
  case (lf_call p k)
  have "lf_keeps j s s" for j by (simp add: lf_keeps_def)
  then show ?thesis using lf_inv_called [OF inv lf_invD(2) [OF inv] _ lf_call(2) refl refl, of p] lf_call by auto
next
  case (lf_call_add n k)
  let ?t = "s\<lparr>lf_mem := (lf_mem s)\<lparr>lf_key := (lf_key (lf_mem s))(n := k)\<rparr>\<rparr>"
  have "lf_heap ?t" "j \<noteq> i \<Longrightarrow> lf_keeps j s ?t" for j using lf_own_write(1,2) [OF inv lf_call_add(3), of "lf_mem ?t"] by auto
  then show ?thesis unfolding lf_call_add(1) using lf_call_add(2,3) by (intro lf_inv_called [OF inv]) auto
next
  case (lf_step_add k n p r m)
  then show ?thesis using lf_inv_add [OF inv] by simp
next
  case (lf_step_remove k p r m)
  then show ?thesis using lf_inv_remove [OF inv] by simp
next
  case (lf_step_get k p r m)
  then show ?thesis using lf_inv_get [OF inv] by simp
next
  case (lf_reuse x)
  then show ?thesis using lf_inv_reuse [OF inv] by simp
qed

lemma lf_inv_start: "lf_start s \<and> lf_cmp_ok cmp \<Longrightarrow> lf_inv cmp s"
  by (auto simp: lf_start_def lf_inv_def lf_heap_def lf_list_ok_def lf_retired_ok_def lf_known_def lf_init_def lf_thread_ok_def)

interpretation lf: inductive_invariant "\<lambda>s. lf_start s \<and> lf_cmp_ok cmp" "lf_step cmp" "lf_inv cmp" for cmp
  by unfold_locales (blast intro: lf_inv_start lf_inv_step)+

section \<open>Properties\<close>

lemma lf_list_absent:
  assumes h: "lf_heap s" and x: "x \<in> set (lf_list s)" "lf_key (lf_mem s) x < k" and b: "lf_beyond s k (lf_ptr (lf_mem s) x)"
  shows "lf_map s k = None"
proof -
  obtain xs ys where e: "lf_list s = xs @ ys" "last (lf_head (lf_mem s) # xs) = x" "lf_ptr (lf_mem s) x = hd (ys @ [lf_tail (lf_mem s)])"
    using lf_split [OF h] x(1) by metis
  have "xs = [] \<or> lf_key (lf_mem s) (last xs) < k" using e(2) x(2) by (cases "xs = []") auto
  moreover have "ys = [] \<or> k < lf_key (lf_mem s) (hd ys)" using b e(1,3) lf_list_okD(4) [OF lf_heapD(1) [OF h]] by (cases ys) (auto simp: lf_beyond_def)
  ultimately show ?thesis by (rule lf_absentI [OF h e(1)])
qed

lemma lf_map_own_write:
  assumes h: "lf_heap s" and n: "n \<in> lf_own s i" and eq: "\<And>x. x \<noteq> n \<Longrightarrow> lf_next m x = lf_next (lf_mem s) x \<and> lf_key m x = lf_key (lf_mem s) x"
  shows "lf_map (s\<lparr>lf_mem := m\<rparr>) = lf_map s"
proof -
  have "n \<notin> set (lf_list s)" using owned_okD(2) [OF lf_heapD(3) [OF h] n] by (auto simp: lf_known_def)
  then have "lf_next m x = lf_next (lf_mem s) x" "lf_key m x = lf_key (lf_mem s) x" if "x \<in> set (lf_list s)" for x using eq that by metis+
  then have "find (\<lambda>x. lf_key m x = k \<and> \<not> snd (lf_next m x)) (lf_list s) = find (\<lambda>x. lf_key (lf_mem s) x = k \<and> \<not> snd (lf_next (lf_mem s) x)) (lf_list s)" for k
    by (intro find_cong) auto
  then show ?thesis by (simp add: lf_map_def fun_eq_iff)
qed

lemma lf_map_cong: "lf_mem t = lf_mem s \<Longrightarrow> lf_list t = lf_list s \<Longrightarrow> lf_map t = lf_map s"
  by (simp add: lf_map_def fun_eq_iff)

lemma lf_map_find:
  assumes inv: "lf_inv cmp s" and ki: "lf_op_key (lf_pcs s i) = Some k" and ok: "lf_find_ok s i k f" and st: "lf_find cmp k f (lf_mem s) = (r, m)"
  shows "lf_map (lf_observe (lf_moves i m p (lf_unlinked m s))) = lf_map s"
proof (rule lf_find_step [OF lf_invD(2) [OF inv] lf_invD(1) [OF inv] ki ok st])
  assume q: "m = lf_mem s"
  then show ?thesis by (simp add: lf_unlinked_eqs)
next
  fix pred cur succ assume u: "m = lf_mem (lf_unlink pred cur s)" "lf_unlinks s i k pred cur"
  show ?thesis unfolding u(1) lf_unlinked_eqs(3) using lf_unlink_step(3) [OF lf_invD(2) [OF inv] u(2)] by simp
qed

lemma lf_add_effect:
  assumes inv: "lf_inv cmp s" and pcs: "lf_pcs s i = LfAdd k n p" and st: "lf_add cmp k n p (lf_mem s) = (r, m)"
    and t: "t = lf_observe (lf_moves i m (case r of Goto p' \<Rightarrow> LfAdd k n p' | Ret b \<Rightarrow> LfIdle) (if r = Ret True then lf_linked i k n s else lf_unlinked m s))"
  shows "lf_map t = lf_map s \<and> r \<noteq> Ret True \<or> (\<exists>pred cur. p = AD_link pred cur \<and> r = Ret True \<and> lf_map s k = None \<and> lf_map t = (lf_map s)(k \<mapsto> n))"
proof -
  note h = lf_invD(2) [OF inv]
  have ok: "lf_pc_ok s i (LfAdd k n p)" using lf_invD(3) [OF inv pcs] .
  show ?thesis
  proof (cases p)
    case (AD_find f)
    obtain r' where f: "lf_find cmp k f (lf_mem s) = (r', m)" "r \<noteq> Ret True" using st AD_find by (auto split: prod.splits ctl.splits if_splits)
    then show ?thesis unfolding t using lf_map_find [OF inv _ _ f(1), of i] pcs ok AD_find f(2) by simp
  next
    case (AD_write pred cur)
    then have r: "r = Goto (AD_link pred cur)" "m = (lf_mem s)\<lparr>lf_next := (lf_next (lf_mem s))(n := (cur, False))\<rparr>" using st by auto
    then have "lf_map t = lf_map (s\<lparr>lf_mem := m\<rparr>)" unfolding t using lf_unlinked_eqs(2) [of m s] by (simp add: lf_map_def fun_eq_iff)
    then show ?thesis using lf_map_own_write [OF h, of n i m] ok AD_write r by simp
  next
    case (AD_link pred cur)
    have o: "n \<in> lf_own s i" "lf_key (lf_mem s) n = k" "lf_next (lf_mem s) n = (cur, False)" "lf_before s i k pred" "lf_beyond s k cur"
      using ok AD_link by (auto simp: lf_beyond_def)
    show ?thesis
    proof (cases "lf_next (lf_mem s) pred = (cur, False)")
      case True
      have r: "r = Ret True" "m = lf_mem (lf_link i k n pred s)" using st AD_link True by (auto simp: lf_cmpxchg_def)
      have "lf_map t = lf_map (lf_link i k n pred s)" unfolding t using r by (intro lf_map_cong) (simp_all add: lf_linked_def)
      then show ?thesis using lf_link_step(3,4) [OF h o(1-4) True o(5)] pcs st AD_link r by auto
    next
      case False
      then have "r \<noteq> Ret True" "m = lf_mem s" using st AD_link by (auto simp: lf_cmpxchg_def)
      then show ?thesis unfolding t by (simp add: lf_unlinked_eqs)
    qed
  qed
qed

lemma lf_remove_effect:
  assumes inv: "lf_inv cmp s" and pcs: "lf_pcs s i = LfRemove k p" and st: "lf_remove cmp k p (lf_mem s) = (r, m)"
    and t: "t = lf_observe (lf_moves i m (case r of Goto p' \<Rightarrow> LfRemove k p' | Ret b \<Rightarrow> LfIdle) (lf_unlinked m s))"
  shows "lf_map t = lf_map s \<and> (\<forall>pred cur succ. r \<noteq> Goto (RM_detach pred cur succ)) \<and> (r = Ret True \<longrightarrow> (\<exists>pred cur succ. p = RM_detach pred cur succ)) \<or>
    (\<exists>pred cur succ. p = RM_mark pred cur succ \<and> r = Goto (RM_detach pred cur succ) \<and> lf_map s k = Some cur \<and> lf_map t = (lf_map s)(k := None))"
proof -
  note h = lf_invD(2) [OF inv]
  have ok: "lf_pc_ok s i (LfRemove k p)" using lf_invD(3) [OF inv pcs] .
  show ?thesis
  proof (cases p)
    case (RM_find f)
    obtain r' where f: "lf_find cmp k f (lf_mem s) = (r', m)" "\<forall>pred cur succ. r \<noteq> Goto (RM_detach pred cur succ)" "r \<noteq> Ret True"
      using st RM_find by (auto split: prod.splits ctl.splits if_splits)
    then show ?thesis unfolding t using lf_map_find [OF inv _ _ f(1), of i] pcs ok RM_find f(2,3) by simp
  next
    case (RM_succ pred cur)
    then show ?thesis unfolding t using st by (auto simp: lf_unlinked_eqs)
  next
    case (RM_mark pred cur succ)
    show ?thesis
    proof (cases "lf_next (lf_mem s) cur = (succ, False)")
      case True
      have r: "r = Goto (RM_detach pred cur succ)" "m = lf_mem (lf_mark cur s)" using st RM_mark True by (auto simp: lf_cmpxchg_def lf_mark_def)
      have "lf_unlinked m s = s" unfolding r(2) by (rule lf_unlinked_eqs) (simp add: lf_mark_def)
      then have "lf_map t = lf_map (lf_mark cur s)" unfolding t using r by (intro lf_map_cong) (simp_all add: lf_mark_def)
      then show ?thesis using lf_mark_step(3,4) [OF h, of i cur] ok RM_mark True t pcs r(1) by auto
    next
      case False
      then show ?thesis unfolding t using st RM_mark by (auto simp: lf_cmpxchg_def lf_unlinked_eqs)
    qed
  next
    case (RM_detach pred cur succ)
    have o: "lf_before s i k pred" "lf_node s i cur" "lf_next (lf_mem s) cur = (succ, True)" using ok RM_detach by auto
    show ?thesis
    proof (cases "lf_next (lf_mem s) pred = (cur, False)")
      case True
      have m: "m = lf_mem (lf_unlink pred cur s)" using st RM_detach True o(3) by (auto simp: lf_cmpxchg_def lf_unlink_def)
      have "lf_unlinks s i k pred cur" using o True by (simp add: lf_unlinks_def)
      from lf_unlink_step(3) [OF h this] have "lf_map t = lf_map s" unfolding t m lf_unlinked_eqs(3) by simp
      then show ?thesis using st RM_detach by (auto split: prod.splits)
    next
      case False
      then show ?thesis unfolding t using st RM_detach by (auto simp: lf_cmpxchg_def lf_unlinked_eqs)
    qed
  qed
qed

definition lf_idle :: "lf_sys \<Rightarrow> tid \<Rightarrow> bool" where
  "lf_idle s i \<longleftrightarrow> lf_pcs s i = LfIdle"

text \<open>Steps other than those of an add or a remove keep the map.\<close>

lemma lf_quiet_effect:
  assumes inv: "lf_inv cmp s" and st: "lf_step cmp i s t" and "\<forall>k n p. lf_pcs s i \<noteq> LfAdd k n p" "\<forall>k p. lf_pcs s i \<noteq> LfRemove k p"
  shows "lf_map t = lf_map s"
  using st
proof cases
  case (lf_call_add n k)
  then show ?thesis using lf_map_own_write [OF lf_invD(2) [OF inv] lf_call_add(3), of "(lf_mem s)\<lparr>lf_key := (lf_key (lf_mem s))(n := k)\<rparr>"] by simp
next
  case (lf_step_get k p r m)
  then have "m = lf_mem s" by (cases p) auto
  then show ?thesis unfolding lf_step_get(1) by simp
qed (use assms(3,4) in \<open>auto simp: lf_map_def\<close>)

lemma lf_step_others: "lf_step cmp i s t \<Longrightarrow> j \<noteq> i \<Longrightarrow> lf_pcs t j = lf_pcs s j"
  by (auto elim!: lf_step.cases simp: lf_linked_def lf_unlinked_def)

text \<open>What a running call has done: a remove takes its key out once, when it marks the node; all other calls
  have done nothing before they return.\<close>

fun lf_eff_ok :: "lf_pc \<Rightarrow> ((ptr \<rightharpoonup> ptr) \<times> (ptr \<rightharpoonup> ptr)) list \<Rightarrow> bool" where
  "lf_eff_ok (LfRemove k (RM_detach pred cur succ)) e \<longleftrightarrow> (\<exists>M. M k = Some cur \<and> e = [(M, M(k := None))])"
| "lf_eff_ok LfIdle e \<longleftrightarrow> True"
| "lf_eff_ok p e \<longleftrightarrow> e = []"

lemma lf_eff_ok_nil: "p \<noteq> LfIdle \<Longrightarrow> (\<And>k pred cur succ. p \<noteq> LfRemove k (RM_detach pred cur succ)) \<Longrightarrow> lf_eff_ok p e \<longleftrightarrow> e = []"
  by (cases "(p, e)" rule: lf_eff_ok.cases) auto

lemma lf_eff_step:
  assumes inv: "lf_inv cmp s" and st: "lf_step cmp i s t" and ok: "lf_eff_ok (lf_pcs s i) e"
  shows "lf_eff_ok (lf_pcs t i) ((if lf_idle s i then [] else e) @ (if lf_map t = lf_map s then [] else [(lf_map s, lf_map t)]))"
  using st
proof cases
  case (lf_call k p)
  then show ?thesis using lf_quiet_effect [OF inv st] by (auto simp: lf_idle_def)
next
  case (lf_call_add n k)
  then show ?thesis using lf_quiet_effect [OF inv st] by (simp add: lf_idle_def)
next
  case (lf_step_add k n p r m)
  then show ?thesis using lf_add_effect [OF inv lf_step_add(2,3,1)] ok by (cases r) (auto simp: lf_idle_def)
next
  case (lf_step_remove k p r m)
  have t: "lf_pcs t i = (case r of Goto p' \<Rightarrow> LfRemove k p' | Ret b \<Rightarrow> LfIdle)" using lf_step_remove(1) by simp
  show ?thesis
  proof (cases r)
    case (Goto p')
    have "\<forall>a b c. p \<noteq> RM_detach a b c" using lf_step_remove(3) Goto by (auto simp: Let_def split: prod.splits)
    then have e: "e = []" using ok lf_step_remove(2) lf_eff_ok_nil [of "LfRemove k p" e] by auto
    from lf_remove_effect [OF inv lf_step_remove(2,3,1)] show ?thesis
    proof (elim disjE conjE exE)
      assume u: "lf_map t = lf_map s" "\<forall>pred cur succ. r \<noteq> Goto (RM_detach pred cur succ)"
      then show ?thesis using e t Goto lf_eff_ok_nil [of "LfRemove k p'"] by auto
    next
      fix pred cur succ assume u: "r = Goto (RM_detach pred cur succ)" "lf_map s k = Some cur" "lf_map t = (lf_map s)(k := None)"
      then have "lf_map t \<noteq> lf_map s" by (metis fun_upd_same option.distinct(1))
      then show ?thesis using u e t lf_step_remove(2) by (auto simp: lf_idle_def)
    qed
  qed (simp add: t)
next
  case (lf_step_get k p r m)
  then show ?thesis using lf_quiet_effect [OF inv st] ok by (cases r) (auto simp: lf_idle_def)
next
  case (lf_reuse x)
  then have "lf_map t = lf_map s" "lf_pcs t i = lf_pcs s i" by (simp_all add: lf_map_def fun_eq_iff)
  then show ?thesis using ok by (simp add: lf_idle_def)
qed

interpretation lfh: effect_invariant "\<lambda>s. lf_start s \<and> lf_cmp_ok cmp" "lf_step cmp" "lf_inv cmp" lf_idle lf_map "\<lambda>s i. lf_eff_ok (lf_pcs s i)" for cmp
proof unfold_locales
  show "lf_eff_ok (lf_pcs s i) []" if "lf_start s \<and> lf_cmp_ok cmp" for cmp s i using that by (simp add: lf_start_def)
  show "lf_eff_ok (lf_pcs t j) e" if "lf_step cmp i s t" "j \<noteq> i" "lf_eff_ok (lf_pcs s j) e" for cmp s t i j e
    using that lf_step_others by simp
qed (rule lf_eff_step)

text \<open>C4: the lock-free list set is a map from keys to nodes for any number of threads, in any interleaving and with
  nodes that are reused after their grace period. Every access leaves the map alone, or enters the node of
  an add that returns true for a key that is not there (when the node is linked), or takes out the node with
  the key of a remove (when the node is marked). And every call does what it returns: an add that returns
  true enters its key with this last access and has done nothing before; a remove that returns true has
  taken its key, which was there, out of the map exactly once and done nothing else, so that two removes
  never both succeed for one node; an add or remove that returns false and a get have done nothing.\<close>

theorem listset_lf_refines_map:
  assumes "op_hist (\<lambda>s. lf_start s \<and> lf_cmp_ok cmp) (lf_step cmp) lf_idle lf_map s eff" and "lf_step cmp i s t"
  shows "(lf_map t = lf_map s \<or>
      (\<exists>k n pred cur. lf_pcs s i = LfAdd k n (AD_link pred cur) \<and> fst (lf_add cmp k n (AD_link pred cur) (lf_mem s)) = Ret True \<and>
         lf_map s k = None \<and> lf_map t = (lf_map s)(k \<mapsto> n)) \<or>
      (\<exists>k pred cur succ. lf_pcs s i = LfRemove k (RM_mark pred cur succ) \<and> lf_pcs t i = LfRemove k (RM_detach pred cur succ) \<and>
         lf_map s k = Some cur \<and> lf_map t = (lf_map s)(k := None))) \<and>
    (\<forall>k n p b m. lf_pcs s i = LfAdd k n p \<and> lf_pcs t i = LfIdle \<and> lf_add cmp k n p (lf_mem s) = (Ret b, m) \<longrightarrow>
       eff i = [] \<and> (if b then lf_map s k = None \<and> lf_map t = (lf_map s)(k \<mapsto> n) else lf_map t = lf_map s)) \<and>
    (\<forall>k p b m. lf_pcs s i = LfRemove k p \<and> lf_pcs t i = LfIdle \<and> lf_remove cmp k p (lf_mem s) = (Ret b, m) \<longrightarrow>
       lf_map t = lf_map s \<and> (if b then \<exists>M n. M k = Some n \<and> eff i = [(M, M(k := None))] else eff i = [])) \<and>
    (\<forall>k p. lf_pcs s i = LfGet k p \<longrightarrow> eff i = [] \<and> lf_map t = lf_map s)"
proof -
  have inv: "lf_inv cmp s" using lf.reach_inv [OF op_hist_reach [OF assms(1)]] .
  note ok = lfh.hist_ok [OF assms(1), of i]
  have "lf_map t = lf_map s \<or>
      (\<exists>k n pred cur. lf_pcs s i = LfAdd k n (AD_link pred cur) \<and> fst (lf_add cmp k n (AD_link pred cur) (lf_mem s)) = Ret True \<and>
         lf_map s k = None \<and> lf_map t = (lf_map s)(k \<mapsto> n)) \<or>
      (\<exists>k pred cur succ. lf_pcs s i = LfRemove k (RM_mark pred cur succ) \<and> lf_pcs t i = LfRemove k (RM_detach pred cur succ) \<and>
         lf_map s k = Some cur \<and> lf_map t = (lf_map s)(k := None))"
    using assms(2)
  proof cases
    case (lf_step_add k n p r m)
    then show ?thesis using lf_add_effect [OF inv lf_step_add(2,3,1)] by auto
  next
    case (lf_step_remove k p r m)
    then show ?thesis using lf_remove_effect [OF inv lf_step_remove(2,3,1)] by auto
  qed (use lf_quiet_effect [OF inv assms(2)] in \<open>auto simp: lf_map_def\<close>)
  moreover have "eff i = [] \<and> (if b then lf_map s k = None \<and> lf_map t = (lf_map s)(k \<mapsto> n) else lf_map t = lf_map s)"
    if pc: "lf_pcs s i = LfAdd k n p" "lf_pcs t i = LfIdle" and r: "lf_add cmp k n p (lf_mem s) = (Ret b, m)" for k n p b m
  proof -
    from assms(2) have "t = lf_observe (lf_moves i m LfIdle (if Ret b = Ret True then lf_linked i k n s else lf_unlinked m s))"
      by cases (use pc r in auto)
    with lf_add_effect [OF inv pc(1) r, of t] ok pc(1) show ?thesis by auto
  qed
  moreover have "lf_map t = lf_map s \<and> (if b then \<exists>M n. M k = Some n \<and> eff i = [(M, M(k := None))] else eff i = [])"
    if pc: "lf_pcs s i = LfRemove k p" "lf_pcs t i = LfIdle" and r: "lf_remove cmp k p (lf_mem s) = (Ret b, m)" for k p b m
  proof -
    from assms(2) have "t = lf_observe (lf_moves i m LfIdle (lf_unlinked m s))" by cases (use pc r in auto)
    with lf_remove_effect [OF inv pc(1) r, of t] have e: "lf_map t = lf_map s" "b \<Longrightarrow> \<exists>pred cur succ. p = RM_detach pred cur succ" by auto
    have "p \<noteq> RM_detach pred cur succ" if "\<not> b" for pred cur succ using r that by (auto simp: Let_def split: prod.splits)
    then show ?thesis using e ok pc(1) lf_eff_ok_nil [of "LfRemove k p"] by (cases b) auto
  qed
  moreover have "eff i = [] \<and> lf_map t = lf_map s" if "lf_pcs s i = LfGet k p" for k p
    using that ok lf_quiet_effect [OF inv assms(2)] by simp
  ultimately show ?thesis by (intro conjI allI impI) blast+
qed

lemma lf_add_refused:
  assumes inv: "lf_inv cmp s" and pcs: "lf_pcs s i = LfAdd k n p" and st: "lf_add cmp k n p (lf_mem s) = (Ret False, m)"
    and p: "\<And>pred cur succ. p \<noteq> AD_find (FD_snip pred cur succ)"
  shows "lf_map s k \<noteq> None"
proof (cases p)
  case (AD_find f)
  obtain a b where r: "lf_find cmp k f (lf_mem s) = (Ret (a, b), m)" "lf_found cmp k (lf_mem s) b"
    using st AD_find by (auto split: prod.splits ctl.splits if_splits)
  have "lf_op_key (lf_pcs s i) = Some k" "lf_find_ok s i k f" using pcs lf_invD(3) [OF inv pcs] AD_find by auto
  from lf_find_step [OF lf_invD(2) [OF inv] lf_invD(1) [OF inv] this r(1)] show ?thesis using r(2) p AD_find by metis
qed (use st in \<open>auto simp: lf_cmpxchg_def split: if_splits\<close>)

lemma lf_remove_refused:
  assumes inv: "lf_inv cmp s" and pcs: "lf_pcs s i = LfRemove k p" and st: "lf_remove cmp k p (lf_mem s) = (Ret False, m)"
  shows "lf_absent s i \<or> lf_map s k = None"
proof (cases p)
  case (RM_find f)
  obtain a b where r: "lf_find cmp k f (lf_mem s) = (Ret (a, b), m)" "\<not> lf_found cmp k (lf_mem s) b"
    using st RM_find by (auto split: prod.splits ctl.splits if_splits)
  have ki: "lf_op_key (lf_pcs s i) = Some k" "lf_find_ok s i k f" using pcs lf_invD(3) [OF inv pcs] RM_find by auto
  have beyond: "lf_absent t i \<or> lf_map t k = None" if "lf_res_ok t i k (Ret (a, b))" "lf_tail (lf_mem t) = lf_tail (lf_mem s)" "lf_key (lf_mem t) = lf_key (lf_mem s)" for t
  proof -
    have "b = lf_tail (lf_mem t) \<or> lf_key (lf_mem t) b \<noteq> k" using r(2) that(2,3) by (simp add: lf_cmpD(2) [OF lf_invD(1) [OF inv]])
    moreover have "b \<noteq> lf_tail (lf_mem t) \<longrightarrow> k \<le> lf_key (lf_mem t) b" using that(1) by (simp add: lf_res_ok_def)
    ultimately have "lf_beyond t k b" unfolding lf_beyond_def by force
    then show ?thesis using that(1) by (simp add: lf_res_ok_def)
  qed
  show ?thesis
  proof (rule lf_find_step [OF lf_invD(2) [OF inv] lf_invD(1) [OF inv] ki r(1)])
    assume "lf_res_ok s i k (Ret (a, b))"
    then show ?thesis by (rule beyond [OF _ refl refl])
  next
    fix pred cur succ assume "lf_res_ok (lf_unlink pred cur s) i k (Ret (a, b))" "lf_unlinks s i k pred cur"
    then show ?thesis using beyond [of "lf_unlink pred cur s"] lf_unlink_step(3) [OF lf_invD(2) [OF inv]] by simp
  qed
qed (use st in \<open>auto simp: lf_cmpxchg_def split: if_splits\<close>)

lemma lf_get_result:
  assumes inv: "lf_inv cmp s" and pcs: "lf_pcs s i = LfGet k p" and st: "lf_get cmp k p (lf_mem s) = (Ret x, m)"
  shows "if x = NULL then lf_absent s i \<or> lf_map s k = None else lf_map s k = Some x"
proof -
  note h = lf_invD(2) [OF inv] and c = lf_cmpD [OF lf_invD(1) [OF inv]]
  have ok: "lf_pc_ok s i (LfGet k p)" and w: "lf_saw s i k" using lf_invD(3) [OF inv pcs] lf_invD(4) [OF inv] pcs by auto
  have y: "lf_beyond s k y \<and> x = NULL" if "get_test cmp k (lf_mem s) y = Ret x" for y
    using that by (auto simp: get_test_def c lf_beyond_def le_less split: if_splits)
  show ?thesis
  proof (cases p)
    case GT_head
    then have b: "lf_beyond s k (lf_ptr (lf_mem s) (lf_head (lf_mem s)))" "x = NULL" using y st by auto
    then show ?thesis using lf_place_absent [OF h _ lf_list_okD(9) [OF lf_heapD(1) [OF h]], of i k] by (simp add: lf_before_def)
  next
    case (GT_next cur)
    then have b: "lf_beyond s k (lf_ptr (lf_mem s) cur)" "x = NULL" and o: "lf_node s i cur" "lf_key (lf_mem s) cur < k" using y st ok by auto
    show ?thesis
    proof (cases "cur \<in> set (lf_list s)")
      case True
      then show ?thesis using lf_list_absent [OF h True o(2) b(1)] b(2) by simp
    next
      case False
      then show ?thesis using w o b unfolding lf_saw_def lf_node_def by auto
    qed
  next
    case (GT_mark cur)
    then have o: "lf_node s i cur" "lf_key (lf_mem s) cur = k" and x: "x = (if \<not> lf_marked (lf_mem s) cur then cur else NULL)" using st ok by auto
    note n = lf_nodeD [OF h o(1)]
    show ?thesis
    proof (cases "lf_marked (lf_mem s) cur")
      case False
      then show ?thesis using x n(3,5) o(2) lf_map_Some [OF lf_heapD(1) [OF h]] by auto
    next
      case True
      show ?thesis
      proof (cases "cur \<in> set (lf_list s)")
        case cl: True
        have "lf_map s k \<noteq> Some z" for z
        proof
          assume "lf_map s k = Some z"
          then have z: "z \<in> set (lf_list s)" "lf_key (lf_mem s) z = k" "\<not> lf_marked (lf_mem s) z" using lf_map_Some [OF lf_heapD(1) [OF h]] by auto
          then have "z \<noteq> cur" using True by auto
          then show False using lf_list_okD(10) [OF lf_heapD(1) [OF h]] z(1,2) cl o(2)
            by (metis in_set_conv_nth less_irrefl linorder_cases sorted_wrt_iff_nth_less)
        qed
        then show ?thesis using x True by (cases "lf_map s k") auto
      next
        case False
        then show ?thesis using w o x True unfolding lf_saw_def lf_node_def by auto
      qed
    qed
  qed
qed

text \<open>C28: the results of the lock-free list set. A lookup that returns a node returns the one the map has for the key at
  that access; a lookup that returns none and a remove that returns false have seen the key absent at some
  moment since their call. An add that returns false without unlinking a node at this access returns it while
  the key is present.\<close>

theorem listset_lf_results:
  assumes "reach (\<lambda>s. lf_start s \<and> lf_cmp_ok cmp) (lf_step cmp) s"
  shows "(\<forall>k p x m. lf_pcs s i = LfGet k p \<and> lf_get cmp k p (lf_mem s) = (Ret x, m) \<longrightarrow>
      (if x = NULL then lf_absent s i \<or> lf_map s k = None else lf_map s k = Some x)) \<and>
    (\<forall>k p m. lf_pcs s i = LfRemove k p \<and> lf_remove cmp k p (lf_mem s) = (Ret False, m) \<longrightarrow> lf_absent s i \<or> lf_map s k = None) \<and>
    (\<forall>k n p m. lf_pcs s i = LfAdd k n p \<and> lf_add cmp k n p (lf_mem s) = (Ret False, m) \<and> lf_retired m = lf_retired (lf_mem s) \<longrightarrow> lf_map s k \<noteq> None)"
proof -
  have inv: "lf_inv cmp s" using lf.reach_inv [OF assms] .
  have "p \<noteq> AD_find (FD_snip pred cur succ)" if "lf_add cmp k n p (lf_mem s) = (Ret False, m)" "lf_retired m = lf_retired (lf_mem s)" for k n p m pred cur succ
    using that by (auto simp: lf_cmpxchg_def lf_retire_def split: if_splits ctl.splits)
  then have add: "lf_map s k \<noteq> None" if "lf_pcs s i = LfAdd k n p" "lf_add cmp k n p (lf_mem s) = (Ret False, m)" "lf_retired m = lf_retired (lf_mem s)" for k n p m
    using lf_add_refused [OF inv that(1,2)] that(2,3) by blast
  show ?thesis by (intro conjI allI impI; elim conjE) (erule lf_get_result [OF inv] lf_remove_refused [OF inv] add, assumption+)+
qed

text \<open>The node whose next field a thread reads or writes next, apart from the head sentinel and its own node.\<close>

fun find_touches :: "find_pc \<Rightarrow> ptr option" where
  "find_touches FD_head = None"
| "find_touches (FD_curr pred cur) = Some cur"
| "find_touches (FD_snip pred cur succ) = Some pred"

fun lf_touches :: "lf_pc \<Rightarrow> ptr option" where
  "lf_touches (LfAdd k n (AD_find f)) = find_touches f"
| "lf_touches (LfAdd k n (AD_link pred cur)) = Some pred"
| "lf_touches (LfRemove k (RM_find f)) = find_touches f"
| "lf_touches (LfRemove k (RM_succ pred cur)) = Some cur"
| "lf_touches (LfRemove k (RM_mark pred cur succ)) = Some cur"
| "lf_touches (LfRemove k (RM_detach pred cur succ)) = Some pred"
| "lf_touches (LfGet k (GT_next cur)) = Some cur"
| "lf_touches (LfGet k (GT_mark cur)) = Some cur"
| "lf_touches _ = None"

lemma lf_find_touches: "lf_find_ok s i k f \<Longrightarrow> find_touches f = Some x \<Longrightarrow> x = lf_head (lf_mem s) \<or> lf_node s i x"
  by (cases f) (auto simp: lf_before_def)

lemma lf_touches_ok:
  assumes "lf_pc_ok s i p" and "lf_touches p = Some x"
  shows "x = lf_head (lf_mem s) \<or> lf_node s i x"
  using assms by (cases p rule: lf_touches.cases) (auto simp: lf_before_def dest: lf_find_touches)

lemma lf_visit_segment:
  assumes "segment (lf_ptr m) p xs (lf_tail m)" and "NULL \<notin> set xs" "lf_tail m \<notin> set xs"
  shows "lf_visit_from d m p = Some (filter (\<lambda>x. \<not> lf_marked m x \<or> d) xs)"
  using assms
proof (induction xs arbitrary: p)
  case Nil
  then show ?case by (subst lf_visit_from.simps) simp
next
  case (Cons x xs)
  then show ?case by (subst lf_visit_from.simps) auto
qed

lemma lf_step_retires:
  assumes inv: "lf_inv cmp s" and st: "lf_step cmp i s t" and x: "lf_retired (lf_mem t) = lf_retired (lf_mem s) @ [x]"
  shows "x \<in> set (lf_list s) \<and> lf_marked (lf_mem s) x \<and> x \<notin> set (lf_list t)"
proof -
  note h = lf_invD(2) [OF inv]
  have un: "x \<in> set (lf_list s) \<and> lf_marked (lf_mem s) x \<and> x \<notin> set (lf_list (lf_unlinked (lf_mem (lf_unlink pred cur s)) s))"
    if u: "lf_unlinks s i k pred cur" and r: "lf_retired (lf_mem (lf_unlink pred cur s)) = lf_retired (lf_mem s) @ [x]" for k pred cur
  proof -
    obtain xs ys where e: "lf_list s = xs @ cur # ys" using lf_unlink_list [OF h u] by metis
    have "x = cur" using r by (simp add: lf_unlink_def lf_retire_def)
    then show ?thesis using e u lf_list_okD(2) [OF lf_heapD(1) [OF h]]
      by (auto simp: lf_unlinks_def lf_unlinked_def lf_unlink_def lf_retire_def remove1_append)
  qed
  have fi: "x \<in> set (lf_list s) \<and> lf_marked (lf_mem s) x \<and> x \<notin> set (lf_list (lf_unlinked m s))"
    if f: "lf_find cmp k f (lf_mem s) = (r, m)" "lf_op_key (lf_pcs s i) = Some k" "lf_find_ok s i k f" and rm: "lf_retired m = lf_retired (lf_mem s) @ [x]" for k f r m
  proof (rule lf_find_step [OF h lf_invD(1) [OF inv] f(2,3,1)])
    assume "m = lf_mem s"
    then show ?thesis using rm by simp
  next
    fix pred cur succ assume "m = lf_mem (lf_unlink pred cur s)" "lf_unlinks s i k pred cur"
    then show ?thesis using un rm by blast
  qed
  show ?thesis using st
  proof cases
    case (lf_step_add k n p r m)
    have rm: "lf_retired m = lf_retired (lf_mem s) @ [x]" using x unfolding lf_step_add(1) by simp
    have ok: "lf_pc_ok s i (LfAdd k n p)" using lf_invD(3) [OF inv lf_step_add(2)] .
    show ?thesis
    proof (cases p)
      case (AD_find f)
      obtain r' where f: "lf_find cmp k f (lf_mem s) = (r', m)" "r \<noteq> Ret True" using lf_step_add(3) AD_find by (auto split: prod.splits ctl.splits if_splits)
      then show ?thesis using fi [OF f(1) _ _ rm] lf_step_add(1,2) ok AD_find by simp
    qed (use rm lf_step_add(3) in \<open>auto simp: lf_cmpxchg_def split: if_splits\<close>)
  next
    case (lf_step_remove k p r m)
    have rm: "lf_retired m = lf_retired (lf_mem s) @ [x]" using x unfolding lf_step_remove(1) by simp
    have ok: "lf_pc_ok s i (LfRemove k p)" using lf_invD(3) [OF inv lf_step_remove(2)] .
    show ?thesis
    proof (cases p)
      case (RM_find f)
      obtain r' where f: "lf_find cmp k f (lf_mem s) = (r', m)" using lf_step_remove(3) RM_find by (auto split: prod.splits ctl.splits if_splits)
      then show ?thesis using fi [OF f(1) _ _ rm] lf_step_remove(1,2) ok RM_find by simp
    next
      case (RM_detach pred cur succ)
      have c: "lf_next (lf_mem s) pred = (cur, False)" using rm lf_step_remove(3) RM_detach by (auto simp: lf_cmpxchg_def split: if_splits)
      then have "lf_unlinks s i k pred cur" "m = lf_mem (lf_unlink pred cur s)" using ok RM_detach lf_step_remove(3)
        by (auto simp: lf_unlinks_def lf_cmpxchg_def lf_unlink_def)
      then show ?thesis using un rm unfolding lf_step_remove(1) by simp
    qed (use rm lf_step_remove(3) in \<open>auto simp: lf_cmpxchg_def split: if_splits\<close>)
  next
    case (lf_step_get k p r m)
    then have "m = lf_mem s" by (cases p) auto
    then show ?thesis using x lf_step_get(1) by simp
  qed (use x in auto)
qed

text \<open>C29: the memory of the lock-free list set. A thread never follows \<^verbatim>\<open>NULL\<close>, the tail sentinel or a node that has been reused: the
  node whose field it uses next belongs to no thread. A node is given to the retire function only when a step takes it out of the
  list, and it is marked then, so it is retired once. The walk of an unused list visits exactly the nodes of the map, and
  the destructor retires exactly the nodes in the list.\<close>

theorem listset_lf_memory:
  assumes "reach (\<lambda>s. lf_start s \<and> lf_cmp_ok cmp) (lf_step cmp) s"
  shows "(\<forall>i j x. lf_touches (lf_pcs s i) = Some x \<longrightarrow> x \<noteq> NULL \<and> x \<noteq> lf_tail (lf_mem s) \<and> x \<notin> lf_own s j) \<and>
    (\<forall>i t x. lf_step cmp i s t \<and> lf_retired (lf_mem t) = lf_retired (lf_mem s) @ [x] \<longrightarrow>
       x \<in> set (lf_list s) \<and> lf_marked (lf_mem s) x \<and> x \<notin> set (lf_list t)) \<and>
    lf_visit False (lf_mem s) = Some (filter (\<lambda>x. \<not> lf_marked (lf_mem s) x) (lf_list s)) \<and>
    (\<exists>m. lf_destroy (lf_mem s) = Some m \<and> lf_retired m = lf_retired (lf_mem s) @ lf_list s)"
proof -
  have inv: "lf_inv cmp s" using lf.reach_inv [OF assms] .
  note h = lf_invD(2) [OF inv]
  note l = lf_list_okD [OF lf_heapD(1) [OF h]]
  have "x \<noteq> NULL \<and> x \<noteq> lf_tail (lf_mem s) \<and> x \<notin> lf_own s j" if "lf_touches (lf_pcs s i) = Some x" for i j x
  proof -
    have "x = lf_head (lf_mem s) \<or> lf_node s i x" using lf_touches_ok [OF lf_invD(3) [OF inv refl] that] .
    then have "x \<noteq> NULL \<and> x \<noteq> lf_tail (lf_mem s) \<and> x \<in> lf_known s"
    proof
      assume "x = lf_head (lf_mem s)"
      then show ?thesis using l(6) l(8) [symmetric] by (simp add: lf_known_def)
    qed (use lf_nodeD(2,3,4) [OF h, of i x] in simp)
    then show ?thesis using owned_okD(2) [OF lf_heapD(3) [OF h]] by blast
  qed
  moreover have v: "lf_visit d (lf_mem s) = Some (filter (\<lambda>x. \<not> lf_marked (lf_mem s) x \<or> d) (lf_list s))" for d
    unfolding lf_visit_def using l(1,4,5) by (intro lf_visit_segment) simp_all
  moreover have "\<exists>m. lf_destroy (lf_mem s) = Some m \<and> lf_retired m = lf_retired (lf_mem s) @ lf_list s" by (simp add: lf_destroy_def v)
  moreover have "\<forall>i t x. lf_step cmp i s t \<and> lf_retired (lf_mem t) = lf_retired (lf_mem s) @ [x] \<longrightarrow>
      x \<in> set (lf_list s) \<and> lf_marked (lf_mem s) x \<and> x \<notin> set (lf_list t)"
    using lf_step_retires [OF inv] by blast
  ultimately show ?thesis using v [of False] by (intro conjI allI impI) auto
qed

section \<open>An execution\<close>

definition lf_cmp :: "ptr \<Rightarrow> ptr \<Rightarrow> int" where
  "lf_cmp a b = (if a = b then 0 else if a < b then -1 else 1)"

lemma lf_cmp_cmp_ok: "lf_cmp_ok lf_cmp"
  by (simp add: lf_cmp_ok_def lf_cmp_def)

fun lf_move :: "lf_sys \<Rightarrow> tid \<times> lf_pc option \<Rightarrow> lf_sys option" where
  "lf_move s (i, Some p) = (if lf_pcs s i \<noteq> LfIdle then None else case p of
     LfRemove k (RM_find FD_head) \<Rightarrow> Some (lf_called i p s)
   | LfGet k GT_head \<Rightarrow> Some (lf_called i p s)
   | LfAdd k n (AD_find FD_head) \<Rightarrow>
       if n \<in> lf_own s i then Some (lf_called i p (s\<lparr>lf_mem := (lf_mem s)\<lparr>lf_key := (lf_key (lf_mem s))(n := k)\<rparr>\<rparr>)) else None
   | _ \<Rightarrow> None)"
| "lf_move s (i, None) = (case lf_pcs s i of
     LfIdle \<Rightarrow> None
   | LfAdd k n p \<Rightarrow> (case lf_add lf_cmp k n p (lf_mem s) of (r, m) \<Rightarrow>
       Some (lf_observe (lf_moves i m (case r of Goto p' \<Rightarrow> LfAdd k n p' | Ret b \<Rightarrow> LfIdle) (if r = Ret True then lf_linked i k n s else lf_unlinked m s))))
   | LfRemove k p \<Rightarrow> (case lf_remove lf_cmp k p (lf_mem s) of (r, m) \<Rightarrow>
       Some (lf_observe (lf_moves i m (case r of Goto p' \<Rightarrow> LfRemove k p' | Ret b \<Rightarrow> LfIdle) (lf_unlinked m s))))
   | LfGet k p \<Rightarrow> (case lf_get lf_cmp k p (lf_mem s) of (r, m) \<Rightarrow>
       Some (lf_observe (lf_moves i m (case r of Goto p' \<Rightarrow> LfGet k p' | Ret b \<Rightarrow> LfIdle) s))))"

lemma lf_move_step:
  assumes "lf_move s x = Some t"
  shows "\<exists>i. lf_step lf_cmp i s t"
proof (cases x)
  case (Pair i c)
  have "lf_step lf_cmp i s t"
  proof (cases c)
    case (Some p)
    have idle: "lf_pcs s i = LfIdle" using assms Pair Some by (simp split: if_splits)
    show ?thesis using assms Pair Some idle lf_call [OF idle, of p] lf_call_add [OF idle]
      by (auto split: if_splits lf_pc.splits add_pc.splits rem_pc.splits get_pc.splits find_pc.splits)
  next
    case None
    show ?thesis
    proof (cases "lf_pcs s i")
      case (LfAdd k n p)
      obtain r m where r: "lf_add lf_cmp k n p (lf_mem s) = (r, m)" by fastforce
      show ?thesis using lf_step_add [OF LfAdd r] LfAdd r assms Pair None by simp
    next
      case (LfRemove k p)
      obtain r m where r: "lf_remove lf_cmp k p (lf_mem s) = (r, m)" by fastforce
      show ?thesis using lf_step_remove [OF LfRemove r] LfRemove r assms Pair None by simp
    next
      case (LfGet k p)
      obtain r m where r: "lf_get lf_cmp k p (lf_mem s) = (r, m)" by fastforce
      show ?thesis using lf_step_get [OF LfGet r] LfGet r assms Pair None by simp
    qed (use assms Pair None in auto)
  qed
  then show ?thesis by blast
qed

definition lf_w0 :: lf_sys where
  "lf_w0 = \<lparr>lf_mem = lf_init \<lparr>lf_next = (\<lambda>_. (1, True)), lf_key = (\<lambda>_. 0), lf_head = 8, lf_tail = 40, lf_retired = []\<rparr>,
     lf_pcs = (\<lambda>_. LfIdle), lf_own = (\<lambda>_. {})(1 := {16}, 2 := {24, 32}), lf_grace = (\<lambda>_. None), lf_list = [],
     lf_absent = (\<lambda>_. False), lf_present = (\<lambda>_. False)\<rparr>"

lemma lf_w0_start: "lf_start lf_w0 \<and> lf_cmp_ok lf_cmp"
proof -
  have "\<exists>m. lf_mem lf_w0 = lf_init m" unfolding lf_w0_def by simp (rule exI, rule refl)
  then show ?thesis using lf_cmp_cmp_ok by (auto simp: lf_start_def lf_w0_def lf_init_def owned_ok_def)
qed

lemma lf_play_reach: "play lf_move lf_w0 xs = Some t \<Longrightarrow> reach (\<lambda>s. lf_start s \<and> lf_cmp_ok lf_cmp) (lf_step lf_cmp) t"
  using lf_w0_start by (intro play_reach [of lf_move "lf_step lf_cmp", OF lf_move_step])

text \<open>
  Thread 1 adds the key 5 and begins to remove it; thread 2 adds the key 3 before it. Thread 1 marks its node, but does not
  unlink it, as the predecessor has changed; its remove has returned true. Thread 2 adds the key 5 and comes to the marked node.
\<close>

abbreviation lf_add_moves :: "tid \<Rightarrow> ptr \<Rightarrow> ptr \<Rightarrow> (tid \<times> lf_pc option) list" where
  "lf_add_moves i k n \<equiv> [(i, Some (LfAdd k n (AD_find FD_head))), (i, None), (i, None), (i, None)]"

abbreviation lf_run :: "(tid \<times> lf_pc option) list" where
  "lf_run \<equiv> lf_add_moves 1 5 16 @ [(1, Some (LfRemove 5 (RM_find FD_head))), (1, None), (1, None), (1, None)] @
     lf_add_moves 2 3 24 @ [(2, None)]"

abbreviation lf_run' :: "(tid \<times> lf_pc option) list" where
  "lf_run' \<equiv> lf_run @ [(1, None), (1, None)] @ lf_add_moves 2 5 32"

lemma lf_present_sel:
  "lf_present (lf_observe s) j \<longleftrightarrow> lf_present s j \<or> (case lf_op_key (lf_pcs s j) of None \<Rightarrow> False | Some k \<Rightarrow> lf_map s k \<noteq> None)"
  "lf_present (lf_called i p s) j \<longleftrightarrow> (case lf_op_key (if j = i then p else lf_pcs s j) of None \<Rightarrow> False | Some k \<Rightarrow> lf_map s k \<noteq> None) \<or> (j \<noteq> i \<and> lf_present s j)"
  by (auto simp: lf_observe_def lf_called_def lf_map_def split: option.splits)

lemmas lf_eval = lf_w0_def lf_init_def Let_def lf_cmpxchg_def lf_retire_def lf_linked_def lf_unlinked_def lf_map_def find_test_def find_rest_def
  lf_stops_def lf_found_def lf_cmp_def get_test_def lf_present_sel

definition lf_w :: lf_sys where "lf_w = the (play lf_move lf_w0 lf_run)"

definition lf_w' :: lf_sys where "lf_w' = the (play lf_move lf_w0 lf_run')"

lemma lf_w_play: "play lf_move lf_w0 lf_run = Some lf_w"
  by (simp add: lf_w_def lf_eval)

lemma lf_w'_play: "play lf_move lf_w0 lf_run' = Some lf_w'"
  by (simp add: lf_w'_def lf_eval)

lemma lf_w_state: "lf_pcs lf_w 1 = LfRemove 5 (RM_mark 8 16 40)" "lf_map lf_w 5 = Some 16" "lf_next (lf_mem lf_w) 16 = (40, False)"
  by (simp_all add: lf_w_def lf_eval)

lemma lf_w'_state:
  "lf_pcs lf_w' 2 = LfAdd 5 32 (AD_find (FD_snip 24 16 40))" "lf_pcs lf_w' 1 = LfIdle" "lf_map lf_w' 5 = None" "\<not> lf_present lf_w' 2"
  "lf_list lf_w' = [24, 16]" "lf_next (lf_mem lf_w') 24 = (16, False)" "lf_next (lf_mem lf_w') 16 = (40, True)" "lf_tail (lf_mem lf_w') = 40"
  "lf_retired (lf_mem lf_w') = []" "lf_key (lf_mem lf_w') 16 = 5" "lf_key (lf_mem lf_w') 24 = 3"
  by (simp_all add: lf_w'_def lf_eval)

text \<open>C36: an add returns false although its key has been absent all along. The search unlinks the marked node of a removed key;
  as its successor is the tail, the loop ends with the current node still the one it has just retired, which has the key.
  The remove of the key had returned before this add was called, and the key is absent after it too.\<close>

theorem listset_lf_add_wrong:
  "\<exists>ms s t. play lf_move lf_w0 ms = Some s \<and> reach (\<lambda>s. lf_start s \<and> lf_cmp_ok lf_cmp) (lf_step lf_cmp) s \<and>
     lf_pcs s 2 = LfAdd 5 32 (AD_find (FD_snip 24 16 40)) \<and> \<not> lf_present s 2 \<and> lf_map s 5 = None \<and>
     fst (lf_add lf_cmp 5 32 (AD_find (FD_snip 24 16 40)) (lf_mem s)) = Ret False \<and>
     lf_move s (2, None) = Some t \<and> lf_pcs t 2 = LfIdle \<and> lf_map t 5 = None"
proof -
  have "fst (lf_add lf_cmp 5 32 (AD_find (FD_snip 24 16 40)) (lf_mem lf_w')) = Ret False"
    by (simp add: lf_w'_state lf_cmpxchg_def find_rest_def lf_stops_def lf_found_def lf_cmp_def lf_retire_def)
  moreover obtain t where "lf_move lf_w' (2, None) = Some t" "lf_pcs t 2 = LfIdle" "lf_map t 5 = None"
    by (simp add: lf_w'_state lf_eval)
  ultimately show ?thesis using lf_w'_play lf_play_reach [OF lf_w'_play] lf_w'_state(1,3,4) by blast
qed

lemma listset_lf_refines_map_witness:
  "\<exists>s t eff. op_hist (\<lambda>s. lf_start s \<and> lf_cmp_ok lf_cmp) (lf_step lf_cmp) lf_idle lf_map s eff \<and>
     lf_pcs s 1 = LfRemove 5 (RM_detach 8 16 40) \<and> lf_step lf_cmp 1 s t \<and> (\<exists>M n. M 5 = Some n \<and> eff 1 = [(M, M(5 := None))])"
proof -
  let ?ms = "lf_run @ [(1, None)]"
  obtain s where s: "play lf_move lf_w0 ?ms = Some s" "lf_pcs s 1 = LfRemove 5 (RM_detach 8 16 40)" by (simp add: lf_eval)
  obtain eff where eff: "op_hist (\<lambda>s. lf_start s \<and> lf_cmp_ok lf_cmp) (lf_step lf_cmp) lf_idle lf_map s eff"
    using reach_op_hist [OF lf_play_reach [OF s(1)]] by blast
  obtain m where m: "lf_remove lf_cmp 5 (RM_detach 8 16 40) (lf_mem s) = (Ret True, m)"
    by (cases "lf_cmpxchg 8 (16, False) (40, False) (lf_mem s)") simp
  obtain t where t: "lf_step lf_cmp 1 s t" "lf_pcs t 1 = LfIdle" using lf_step_remove [OF s(2) m] by fastforce
  then show ?thesis using listset_lf_refines_map [OF eff t(1)] m eff s(2) by fastforce
qed

lemma listset_lf_results_witness:
  "\<exists>s. lf_pcs s 0 = LfGet 5 (GT_mark 16) \<and> lf_get lf_cmp 5 (GT_mark 16) (lf_mem s) = (Ret 16, lf_mem s) \<and> lf_map s 5 = Some 16"
proof -
  let ?ms = "lf_run @ [(0, Some (LfGet 5 GT_head)), (0, None), (0, None)]"
  obtain s where s: "play lf_move lf_w0 ?ms = Some s" "lf_pcs s 0 = LfGet 5 (GT_mark 16)" "lf_next (lf_mem s) 16 = (40, False)" by (simp add: lf_eval)
  then have "lf_get lf_cmp 5 (GT_mark 16) (lf_mem s) = (Ret 16, lf_mem s)" by simp
  then show ?thesis using listset_lf_results [OF lf_play_reach [OF s(1)], of 0] s(2) by fastforce
qed

lemma listset_lf_memory_witness:
  "24 \<notin> lf_own lf_w' 2 \<and> lf_visit False (lf_mem lf_w') = Some [24] \<and> (\<exists>m. lf_destroy (lf_mem lf_w') = Some m \<and> lf_retired m = [24, 16])"
  using listset_lf_memory [OF lf_play_reach [OF lf_w'_play]] lf_w'_state(1) [THEN arg_cong [of _ _ lf_touches]]
  by (simp add: lf_w'_state(5-9))

end
