(* ===== verification/Spec2Isabelle.thy ===== *)
theory Spec2Isabelle
  imports Bitmap Spinlock Ticketlock Rwlock Seqlock Bounded_Mpmc Bounded_Locked Simpleht Recursive_Lock Mcslock Mutex Once Atomicptr Prio_Heap Quack Arraylock Clhlock
    Chaselev Hemlock Mpsc Listset_Coarse Unbounded_Lf Listset_Lf
begin

text \<open>
  Verification of libvsync, a header-only C library of synchronisation primitives and concurrent data
  structures (\<^verbatim>\<open>include/vsync\<close>) on top of its own library of atomics (\<^verbatim>\<open>vatomic\<close>).

  \<^bold>\<open>How the program is modelled.\<close> An atomic access of \<^verbatim>\<open>vatomic\<close> is one step. An operation that makes
  several accesses is a program: a function from its control point and the shared memory to the next
  control point (\<open>Goto\<close>) or the result (\<open>Ret\<close>) and the new memory; loops go back to a control point.
  A component with several threads is a step relation \<^verbatim>\<open>..._step i\<close> (thread \<open>i\<close> makes one access, or
  calls an operation) on a record of the shared memory and the control point of every thread, and
  \<open>reach\<close> gives the states of all interleavings, for every number of threads. Steps are
  sequentially consistent: the memory orders (\<^verbatim>\<open>_acq\<close>, \<^verbatim>\<open>_rel\<close>, \<^verbatim>\<open>_rlx\<close>) of the accesses are not
  distinguished, and one definition stands for the variants of an operation by order and width.
  Machine integers are words of their width. A failed \<^verbatim>\<open>ASSERT\<close>, an access outside an object and a
  blocking call that nobody can end are the values \<open>AssertFail\<close>, \<open>BadAccess\<close> and \<open>Blocked\<close>
  of the result type \<open>res\<close>; that they do not occur is part of the properties.

  \<^bold>\<open>Prelude.\<close> \<^verbatim>\<open>Vsync_Prelude\<close>: machine types, results, arrays, \<open>reach\<close>, and the interfaces as locales:
  \<open>inductive_invariant\<close>, \<open>exclusive_lock\<close>, \<open>lock_impl\<close> (a lock simulates the abstract owner),
  \<open>forward_simulation\<close>, \<open>queue_lock\<close> (a lock simulates a queue of threads), \<open>fifo_lock\<close> (over a whole
  execution the threads enter a lock in the order in which they took their places: \<open>lock_hist\<close>,
  \<open>fifo_order\<close>), \<open>effect_invariant\<close> (what each call has done to the abstract state when it returns: \<open>op_hist\<close>). \<^verbatim>\<open>Linked_List\<close>: chains of
  nodes in a heap of pointers. \<^verbatim>\<open>Guarded\<close>: an object of sequential operations behind a lock of the locale
  \<open>lock_impl\<close> is linearizable: the results of every interleaving are those of the operations one after
  the other. \<^verbatim>\<open>Grace\<close>: what the lock-free containers rely on of the memory reclamation: a retired node is reused only
  after all operations that were running at that time have ended.

  \<^bold>\<open>Atomics and integers.\<close>
  \<^item> \<^verbatim>\<open>Vatomic\<close> (\<^verbatim>\<open>vatomic/.../internal/builtins.h\<close>, \<^verbatim>\<open>fallback.h\<close>): the single accesses, the
    read-modify-write operations derived from them and the await loops. The locale \<open>atomic_update\<close>
    shows that a loop around compare-and-exchange takes effect in one access and returns once the
    memory is left alone; \<open>alone_fuel\<close> is the number of accesses (8) that is enough for every one
    of them when no other thread interferes.
  \<^item> \<^verbatim>\<open>Vmath\<close> (\<^verbatim>\<open>utils/math.h\<close>), \<^verbatim>\<open>Bitmap\<close> (\<^verbatim>\<open>bitmap/bitmap.h\<close>): powers of two; the bitmap as a set of
    indices, its ranges and its iterator.
  \<^item> \<^verbatim>\<open>Atomicptr\<close> (\<^verbatim>\<open>atomic/atomicptr_markable.h\<close>, \<^verbatim>\<open>atomicptr_stamped.h\<close>): pointers with a mark or stamp as
    pairs (locale \<open>tagged_pointer\<close>).

  \<^bold>\<open>Locks.\<close>
  \<^item> \<^verbatim>\<open>Spinlock\<close> (\<^verbatim>\<open>spinlock/caslock.h\<close>, \<^verbatim>\<open>ttaslock.h\<close>), \<^verbatim>\<open>Ticketlock\<close>, \<^verbatim>\<open>Mcslock\<close>, \<^verbatim>\<open>Clhlock\<close>, \<^verbatim>\<open>Arraylock\<close>:
    mutual exclusion by refinement of an owner or of a queue of threads. For the queue locks, the threads enter in
    the order of the access that gave them their place (the ticket or slot drawn, the tail exchanged), and
    the first waiting thread enters with its next access when nobody owns the lock. The ticket lock is shown for
    less than $2^{32}$ threads that do not stall in a tryacquire while about $2^{32}$ releases happen, the array lock for at most 256 flags and as many threads; both across the
    wrap-around of their counters. \<open>arraylock_512_stuck\<close> shows that more flags do not work.
  \<^item> \<^verbatim>\<open>Hemlock\<close> (\<^verbatim>\<open>spinlock/hemlock.h\<close>): the queue lock with one word per thread, for one lock, with and
    without \<^verbatim>\<open>HEMLOCK_USE_CTR\<close>.
  \<^item> \<^verbatim>\<open>Recursive_Lock\<close> (\<^verbatim>\<open>utils/recursive_lock.h\<close>, \<^verbatim>\<open>spinlock/rec_spinlock.h\<close>): the recursive lock over any
    lock of the locale \<open>lock_impl\<close>, for a depth below $2^{32}$.
  \<^item> \<^verbatim>\<open>Rwlock\<close> (\<^verbatim>\<open>spinlock/semaphore.h\<close>, \<^verbatim>\<open>rwlock.h\<close>): conservation of permits, exclusion of writers.
  \<^item> \<^verbatim>\<open>Seqlock\<close> (\<^verbatim>\<open>spinlock/seqlock.h\<close>, \<^verbatim>\<open>seqcount.h\<close>): a validated read is a snapshot, unless $2^{32}$ versions
    pass during the read (locale \<open>versioned_reads\<close>).
  \<^item> \<^verbatim>\<open>Mutex\<close> (\<^verbatim>\<open>thread/mutex/slim.h\<close>, \<^verbatim>\<open>tristate.h\<close>, \<^verbatim>\<open>musl.h\<close>), \<^verbatim>\<open>Once\<close> (\<^verbatim>\<open>thread/once.h\<close>): the futex system
    call is a parameter: which sleepers a wake-up chooses is a function about which only the documented
    behaviour is assumed. Exclusion, no lost wake-up, the callback runs exactly once and its caller gets the result. The musl mutex counts its
    waiters in a word, so there are less than $2^{32}$ threads; \<^verbatim>\<open>once\<close> has at most as many as one wake-up
    call wakes.

  \<^bold>\<open>Queues and stacks.\<close>
  \<^item> \<^verbatim>\<open>Bounded_Spsc\<close>, \<^verbatim>\<open>Bounded_Mpmc\<close>, \<^verbatim>\<open>Bounded_Locked\<close> (\<^verbatim>\<open>queue/bounded_*.h\<close>): refinement of a bounded queue
    for sizes that divide $2^{32}$, with the 32-bit counters; the multi-producer queue as long as no thread
    sleeps between two accesses while $2^{32}$ positions pass (\<open>mp_near\<close>).
  \<^item> \<^verbatim>\<open>Prio_Contract\<close>, \<^verbatim>\<open>Prio_Heap\<close> (\<^verbatim>\<open>queue/vqueue_prio_heap_based.h\<close>): the heap against a multiset with
    priorities (locale \<open>prio_queue\<close>), for a capacity that is a power of two and one operation at a time.
  \<^item> \<^verbatim>\<open>Quack\<close> (\<^verbatim>\<open>stack/quack.h\<close>): the lock-free stack with its nodes in a heap of pointers.
  \<^item> \<^verbatim>\<open>Mpsc\<close> (\<^verbatim>\<open>queue/mpsc.h\<close>): the queue of many producers and one consumer, whose producers link their nodes
    after they have swapped the tail.
  \<^item> \<^verbatim>\<open>Chaselev\<close> (\<^verbatim>\<open>queue/chaselev.h\<close>): the work-stealing deque of one owner and any number of thieves, for
    fewer than $2^{64} - 1$ pushes.
  \<^item> \<^verbatim>\<open>Unbounded_Lf\<close> (\<^verbatim>\<open>queue/unbounded_queue_lf.h\<close>): the unbounded lock-free queue, with the nodes it retires reused
    after their grace period. A call that returns has changed the queue exactly as its result says.

  \<^bold>\<open>Maps.\<close> \<^verbatim>\<open>Map_Contract\<close>, \<^verbatim>\<open>Simpleht\<close> (\<^verbatim>\<open>map/simpleht.h\<close>): the hash table as a partial map (locale \<open>map_impl\<close>),
  one operation at a time; hash and comparison functions are parameters. \<^verbatim>\<open>Listset_Coarse\<close>
  (\<^verbatim>\<open>map/listset_coarse.h\<close>): the sorted list of nodes between two sentinels behind one lock. \<^verbatim>\<open>Listset_Lf\<close> (\<^verbatim>\<open>map/listset_lf.h\<close>):
  the lock-free variant, whose removals mark a node before they unlink it; an interleaving changes the abstract map in the
  access that links or marks a node, and a call that returns has made exactly the change its result stands for.

  \<^bold>\<open>Termination.\<close> Loops of one thread are recursive functions with a termination proof; the probes of
  the hash table, which may run for ever, are \<open>partial_function\<close>s and their properties show that they
  return. Waiting loops of several threads do not terminate by themselves; the properties of the queue
  locks show that the thread at the front finds its condition true.

  \<^bold>\<open>What does not hold.\<close> Some properties show behaviour that differs from the documentation: the bounded
  queues with a size that does not divide $2^{32}$, the assertion of \<^verbatim>\<open>bounded_locked\<close> after a wrap-around,
  the clean-up of a full hash table, the array lock with more than 256 flags, an add of the lock-free list set that fails
  for an absent key (\<open>listset_lf_add_wrong\<close>), the length of the unbounded queue (\<open>unbounded_lf_length_not_a_snapshot\<close>), \<^verbatim>\<open>quack_is_empty\<close>, which is documented to
  return true if there is an element and returns true if there is none. Not covered by the properties, because the
  code does not behave there: a thread that stalls before the compare-and-swap of \<^verbatim>\<open>bounded_mpmc\<close> or of
  \<^verbatim>\<open>ticketlock_tryacquire\<close> until a 32-bit counter has come round.

  \<^bold>\<open>Not modelled.\<close> Weak memory and the assembly back ends of \<^verbatim>\<open>vatomic\<close>; the NUMA-aware and hierarchical
  locks (\<^verbatim>\<open>cnalock\<close>, \<^verbatim>\<open>hmcslock\<close>, \<^verbatim>\<open>hclhlock\<close>); the block-based queues; the memory reclamation itself (\<^verbatim>\<open>smr\<close>)
  and further containers (recycling and two-lock queues, the other lists, skip lists, search trees, stacks with back-off); the memory
  pool; the condition variable. \<^verbatim>\<open>utils/backoff.h\<close>, \<^verbatim>\<open>common\<close> and the tracing helpers have no effect on the state
  that is modelled.
\<close>

end
